(* ===== verification/Prelude.thy ===== *)
theory Prelude
  imports Main "HOL-Library.Word" "HOL-Library.AList" "HOL-Library.Sublist"
begin

unbundle bit_operations_syntax

text \<open>
  Shared vocabulary of the development: the byte and integer types, the result type of
  fallible operations, and the generic facts on lists, association lists and maps that the
  component theories use.
\<close>

section \<open>Types shared by the components\<close>

text \<open>
  A \<open>std::string\<close> that carries model text is a list of bytes. Identifiers, file names and
  messages, which the code only compares and concatenates, are HOL strings. A token of
  type \<open>int64_t\<close> or \<open>int\<close> that is only compared is an \<open>int\<close>.
\<close>

type_synonym byte = "8 word"
type_synonym bytes = "8 word list"
type_synonym u16 = "16 word"
type_synonym u32 = "32 word"
type_synonym u64 = "64 word"
type_synonym token = int

lemma unat_byte_less [simp]: "unat (b :: byte) < 256"
  using unsigned_less [of b, where ?'a = nat] by simp

lemma byte_eq_iff: "n < 256 \<Longrightarrow> b = (of_nat n :: byte) \<longleftrightarrow> unat b = n"
  by (auto simp: unat_of_nat word_unat_eq_iff)

lemma unat_of_nat_byte: "n < 256 \<Longrightarrow> unat (of_nat n :: byte) = n"
  by (simp add: unat_of_nat)

text \<open>The bytes of an ASCII string literal of the source.\<close>

definition bytes_of :: "string \<Rightarrow> bytes" where
  "bytes_of s = map (\<lambda>c. of_nat (of_char c)) s"

lemma length_bytes_of [simp]: "length (bytes_of s) = length s"
  by (simp add: bytes_of_def)

lemma bytes_of_append [simp]: "bytes_of (s @ t) = bytes_of s @ bytes_of t"
  by (simp add: bytes_of_def)

lemma bytes_of_Nil [simp]: "bytes_of [] = []"
  by (simp add: bytes_of_def)

section \<open>Lists\<close>

text \<open>\<open>subrange xs i j\<close> is the half-open range \<open>xs[i..j)\<close> of iterator pairs.\<close>

definition subrange :: "'a list \<Rightarrow> nat \<Rightarrow> nat \<Rightarrow> 'a list" where
  "subrange xs i j = take (j - i) (drop i xs)"

lemma subrange_same [simp]: "subrange xs i i = []"
  by (simp add: subrange_def)

lemma length_subrange: "j \<le> length xs \<Longrightarrow> length (subrange xs i j) = j - i"
  by (simp add: subrange_def)

lemma subrange_join:
  assumes "i \<le> j" "j \<le> k"
  shows "subrange xs i j @ subrange xs j k = subrange xs i k"
proof -
  have "drop j xs = drop (j - i) (drop i xs)" using assms(1) by simp
  moreover have "k - i = (j - i) + (k - j)" using assms by simp
  ultimately show ?thesis by (simp add: subrange_def take_add)
qed

lemma subrange_append1: "j \<le> length xs \<Longrightarrow> subrange (xs @ ys) i j = subrange xs i j"
  by (simp add: subrange_def)

lemma subrange_full: "subrange xs i (length xs) = drop i xs"
  by (simp add: subrange_def)

lemma subrange_nth:
  "i + n \<le> length xs \<Longrightarrow> subrange xs i (i + n) = map (\<lambda>k. xs ! (i + k)) [0..<n]"
  by (auto simp: subrange_def intro!: nth_equalityI)

lemma prefix_take_iff: "prefix e d \<longleftrightarrow> take (length e) d = e"
  by (metis append_eq_conv_conj prefix_def take_is_prefix)

text \<open>The last \<open>n\<close> elements of a list.\<close>

definition take_last :: "nat \<Rightarrow> 'a list \<Rightarrow> 'a list" where
  "take_last n xs = drop (length xs - n) xs"

lemma length_take_last [simp]: "length (take_last n xs) = min n (length xs)"
  by (simp add: take_last_def)

lemma take_last_all: "length xs \<le> n \<Longrightarrow> take_last n xs = xs"
  by (simp add: take_last_def)

lemma take_last_append:
  "take_last n (xs @ ys) = take_last (n - length ys) xs @ take_last n ys"
  by (cases "n \<le> length ys") (simp_all add: take_last_def)

lemma suffix_take_last: "suffix (take_last n xs) xs"
  by (simp add: take_last_def suffix_drop)

lemma suffix_take_last_iff:
  assumes "length s \<le> n"
  shows "suffix s (take_last n xs) \<longleftrightarrow> suffix s xs"
proof
  assume "suffix s (take_last n xs)"
  then show "suffix s xs" using suffix_take_last suffix_order.trans by blast
next
  assume s: "suffix s xs"
  then obtain p where p: "xs = p @ s" by (auto simp: suffix_def)
  show "suffix s (take_last n xs)"
    using assms by (simp add: p take_last_def suffix_append)
qed

section \<open>Association lists\<close>

text \<open>
  A \<open>std::map\<close> or \<open>std::unordered_map\<close> whose iteration order is not observed is an
  association list with distinct keys.
\<close>

lemma map_of_SomeI: "distinct (map fst xs) \<Longrightarrow> (k, v) \<in> set xs \<Longrightarrow> map_of xs k = Some v"
  by simp

lemma map_of_update [simp]: "map_of (AList.update k v xs) = (map_of xs)(k \<mapsto> v)"
  by (simp add: update_conv')

lemma map_of_delete [simp]: "map_of (AList.delete k xs) = (map_of xs)(k := None)"
  by (simp add: delete_conv')

lemma distinct_keys_update:
  "distinct (map fst xs) \<Longrightarrow> distinct (map fst (AList.update k v xs))"
  by (rule distinct_update)

lemma distinct_keys_delete:
  "distinct (map fst xs) \<Longrightarrow> distinct (map fst (AList.delete k xs))"
  by (rule distinct_delete)

lemma ball_update:
  "\<forall>x \<in> set xs. P x \<Longrightarrow> P (k, v) \<Longrightarrow> \<forall>x \<in> set (AList.update k v xs). P x"
  by (induction xs) auto

lemma ball_delete: "\<forall>x \<in> set xs. P x \<Longrightarrow> \<forall>x \<in> set (AList.delete k xs). P x"
  by (auto simp: AList.delete_eq)

lemma remove1_filter: "distinct xs \<Longrightarrow> remove1 x xs = filter (\<lambda>y. y \<noteq> x) xs"
  by (induction xs) (auto simp: filter_id_conv intro: filter_True [symmetric])

lemma find_SomeD: "find P xs = Some x \<Longrightarrow> P x \<and> x \<in> set xs"
  by (induction xs) (auto split: if_splits)

lemma find_rev_upt:
  assumes "1 \<le> k" "k \<le> n" "P k" "\<And>j. k < j \<Longrightarrow> j \<le> n \<Longrightarrow> \<not> P j"
  shows "find P (rev [1..<n + 1]) = Some k"
  using assms
proof (induction n)
  case (Suc n)
  have "rev [1..<Suc n + 1] = Suc n # rev [1..<n + 1]" using Suc.prems by simp
  then show ?case using Suc by (cases "k = Suc n") auto
qed simp

lemma find_rev_upt_None:
  "(\<And>j. 1 \<le> j \<Longrightarrow> j \<le> n \<Longrightarrow> \<not> P j) \<Longrightarrow> find P (rev [1..<n + 1]) = None"
  by (auto simp: find_None_iff)

lemma find_rev_upt_SomeD:
  "find P (rev [1..<Suc n]) = Some k \<Longrightarrow> P k \<and> 1 \<le> k \<and> k \<le> n \<and> (\<forall>j. k < j \<longrightarrow> j \<le> n \<longrightarrow> \<not> P j)"
proof (induction n)
  case (Suc n)
  have "rev [1..<Suc (Suc n)] = Suc n # rev [1..<Suc n]" by simp
  then show ?case using Suc by (cases "P (Suc n)") (auto simp: le_Suc_eq simp del: upt_Suc)
qed simp

section \<open>Bits and arithmetic\<close>

lemma unat_drop_bit: "unat (drop_bit n (w :: 'a::len word)) = unat w div 2 ^ n"
  by (simp only: unat_drop_bit_eq) (simp add: drop_bit_eq_div)

lemma unat_push_bit:
  "unat (w :: 'a::len word) * 2 ^ n < 2 ^ LENGTH('a) \<Longrightarrow> unat (push_bit n w) = unat w * 2 ^ n"
  by (simp only: unsigned_push_bit_eq) (simp add: push_bit_eq_mult take_bit_eq_mod)

lemma nat_or_add:
  fixes a b :: nat
  assumes "b < 2 ^ n"
  shows "a * 2 ^ n OR b = a * 2 ^ n + b"
proof -
  have "a * 2 ^ n = push_bit n a" "b = take_bit n b" using assms by (simp_all add: push_bit_eq_mult take_bit_eq_mod)
  moreover have "push_bit n a AND take_bit n b = 0" by (rule bit_eqI) (auto simp: bit_simps)
  ultimately show ?thesis using disjunctive_add_eq_or by metis
qed

lemma nat_and_mask: "(n :: nat) AND (2 ^ k - 1) = n mod 2 ^ k"
  by (metis mask_eq_exp_minus_1 take_bit_eq_mask take_bit_eq_mod)

section \<open>Decimal numbers\<close>

text \<open>\<open>std::to_string\<close> of a non-negative number.\<close>

fun dec_string :: "nat \<Rightarrow> string" where
  "dec_string n =
     (if n < 10 then [char_of (48 + n)] else dec_string (n div 10) @ [char_of (48 + n mod 10)])"

declare dec_string.simps [simp del]

definition dec_value :: "string \<Rightarrow> nat" where
  "dec_value s = foldl (\<lambda>n c. 10 * n + (of_char c - 48)) 0 s"

lemma dec_string_digits: "c \<in> set (dec_string n) \<Longrightarrow> 48 \<le> (of_char c :: nat) \<and> (of_char c :: nat) \<le> 57"
proof (induction n rule: dec_string.induct)
  case (1 n)
  then show ?case by (subst (asm) (2) dec_string.simps) (auto split: if_splits)
qed

lemma dec_value_dec_string [simp]: "dec_value (dec_string n) = n"
proof (induction n rule: dec_string.induct)
  case (1 n)
  then show ?case by (subst dec_string.simps) (auto simp: dec_value_def)
qed

lemma dec_string_inj [simp]: "dec_string m = dec_string n \<longleftrightarrow> m = n"
  by (metis dec_value_dec_string)

lemma dec_string_not_Nil [simp]: "dec_string n \<noteq> []"
  by (subst dec_string.simps) simp

section \<open>Operation sequences and refinement\<close>

text \<open>
  A component is run by a list of operations; \<open>None\<close> is a step in which the code would use an
  invalid iterator, index or pointer. The reference never fails.
\<close>

fun run_ops :: "('p \<Rightarrow> 's \<Rightarrow> ('r \<times> 's) option) \<Rightarrow> 'p list \<Rightarrow> 's \<Rightarrow> ('r list \<times> 's) option" where
  "run_ops step [] s = Some ([], s)"
| "run_ops step (p # ps) s =
     (case step p s of None \<Rightarrow> None
      | Some (r, s') \<Rightarrow> map_option (\<lambda>(rs, s''). (r # rs, s'')) (run_ops step ps s'))"

fun run_spec :: "('p \<Rightarrow> 'a \<Rightarrow> 'r \<times> 'a) \<Rightarrow> 'p list \<Rightarrow> 'a \<Rightarrow> 'r list \<times> 'a" where
  "run_spec step [] a = ([], a)"
| "run_spec step (p # ps) a =
     (let (r, a') = step p a; (rs, a'') = run_spec step ps a' in (r # rs, a''))"

text \<open>
  The contract of a detailed component that implements a reference step by step. The guarded
  form is for components whose callers keep to a condition on the operations' arguments.
\<close>

locale guarded_refinement =
  fixes inv :: "'s \<Rightarrow> bool" and abs :: "'s \<Rightarrow> 'a" and ok :: "'p \<Rightarrow> bool"
    and cstep :: "'p \<Rightarrow> 's \<Rightarrow> ('r \<times> 's) option" and astep :: "'p \<Rightarrow> 'a \<Rightarrow> 'r \<times> 'a"
  assumes guarded_step: "inv s \<Longrightarrow> ok p \<Longrightarrow>
    \<exists>s'. cstep p s = Some (fst (astep p (abs s)), s') \<and> inv s' \<and> abs s' = snd (astep p (abs s))"
begin

lemma guarded_run:
  "inv s \<Longrightarrow> list_all ok ps \<Longrightarrow>
     \<exists>s'. run_ops cstep ps s = Some (fst (run_spec astep ps (abs s)), s') \<and> inv s' \<and>
       abs s' = snd (run_spec astep ps (abs s))"
proof (induction ps arbitrary: s)
  case (Cons p ps)
  obtain s' where s': "cstep p s = Some (fst (astep p (abs s)), s')" "inv s'"
    "abs s' = snd (astep p (abs s))" using guarded_step [OF Cons.prems(1), of p] Cons.prems(2) by auto
  show ?case using Cons.IH [OF s'(2)] Cons.prems(2) s' by (auto simp: Let_def split: prod.splits)
qed simp

lemma guarded_outputs:
  "inv s \<Longrightarrow> list_all ok ps \<Longrightarrow>
     map_option fst (run_ops cstep ps s) = Some (fst (run_spec astep ps (abs s)))"
  using guarded_run by fastforce

end

locale refinement =
  fixes inv :: "'s \<Rightarrow> bool" and abs :: "'s \<Rightarrow> 'a"
    and cstep :: "'p \<Rightarrow> 's \<Rightarrow> ('r \<times> 's) option" and astep :: "'p \<Rightarrow> 'a \<Rightarrow> 'r \<times> 'a"
  assumes step_refines: "inv s \<Longrightarrow>
    \<exists>s'. cstep p s = Some (fst (astep p (abs s)), s') \<and> inv s' \<and> abs s' = snd (astep p (abs s))"

sublocale refinement \<subseteq> guarded_refinement inv abs "\<lambda>_. True" cstep astep
  by unfold_locales (rule step_refines)

context refinement
begin

lemma never_stuck: "inv s \<Longrightarrow> cstep p s \<noteq> None"
  using step_refines by fastforce

lemma step_from:
  assumes "inv s" "cstep p s = Some (r, s')"
  shows "inv s'" "abs s' = snd (astep p (abs s))" "r = fst (astep p (abs s))"
  using step_refines [OF assms(1), of p] assms(2) by auto

lemma run_refines:
  "inv s \<Longrightarrow> \<exists>s'. run_ops cstep ps s = Some (fst (run_spec astep ps (abs s)), s') \<and> inv s' \<and>
     abs s' = snd (run_spec astep ps (abs s))"
  by (rule guarded_run) (simp_all add: list_all_iff)

lemma run_outputs:
  "inv s \<Longrightarrow> map_option fst (run_ops cstep ps s) = Some (fst (run_spec astep ps (abs s)))"
  by (rule guarded_outputs) (simp_all add: list_all_iff)

end

section \<open>Fallible operations\<close>

text \<open>An error or a value; \<open>bind_res\<close> is the early return on an error.\<close>

definition bind_res :: "'e + 'a \<Rightarrow> ('a \<Rightarrow> 'e + 'b) \<Rightarrow> 'e + 'b" where
  "bind_res r f = (case r of Inl e \<Rightarrow> Inl e | Inr x \<Rightarrow> f x)"

lemma bind_res_simps [simp]: "bind_res (Inl e) f = Inl e" "bind_res (Inr x) f = f x"
  by (simp_all add: bind_res_def)

fun map_res :: "('a \<Rightarrow> 'e + 'b) \<Rightarrow> 'a list \<Rightarrow> 'e + 'b list" where
  "map_res f [] = Inr []"
| "map_res f (x # xs) = bind_res (f x) (\<lambda>y. bind_res (map_res f xs) (\<lambda>ys. Inr (y # ys)))"

lemma bind_res_Inr [simp]: "bind_res r f = Inr y \<longleftrightarrow> (\<exists>x. r = Inr x \<and> f x = Inr y)"
  by (cases r) auto

lemma map_res_Inr: "map_res f xs = Inr ys \<Longrightarrow> y \<in> set ys \<Longrightarrow> \<exists>x \<in> set xs. f x = Inr y"
  by (induction xs arbitrary: ys) auto

lemma bind_res_cong: "r = r' \<Longrightarrow> bind_res r f = bind_res r' f"
  by simp

definition lift_error :: "('e \<Rightarrow> 'f) \<Rightarrow> 'e + 'a \<Rightarrow> 'f + 'a" where
  "lift_error f r = (case r of Inl e \<Rightarrow> Inl (f e) | Inr x \<Rightarrow> Inr x)"

lemma lift_error_simps [simp]: "lift_error f (Inr x) = Inr x" "lift_error f (Inl e) = Inl (f e)"
  "lift_error f r = Inr x \<longleftrightarrow> r = Inr x"
  by (simp_all add: lift_error_def split: sum.splits)

section \<open>Transition systems\<close>

definition reachable :: "('s \<Rightarrow> bool) \<Rightarrow> ('s \<Rightarrow> 's \<Rightarrow> bool) \<Rightarrow> 's \<Rightarrow> bool" where
  "reachable init step s \<longleftrightarrow> (\<exists>s0. init s0 \<and> step\<^sup>*\<^sup>* s0 s)"

lemma reachable_init: "init s \<Longrightarrow> reachable init step s"
  by (auto simp: reachable_def)

lemma reachable_step: "reachable init step s \<Longrightarrow> step s s' \<Longrightarrow> reachable init step s'"
  by (auto simp: reachable_def intro: rtranclp.rtrancl_into_rtrancl)

lemma reachable_induct [consumes 1, case_names Init Step]:
  assumes "reachable init step s"
    and "\<And>s. init s \<Longrightarrow> P s"
    and "\<And>s s'. reachable init step s \<Longrightarrow> P s \<Longrightarrow> step s s' \<Longrightarrow> P s'"
  shows "P s"
proof -
  obtain s0 where s0: "init s0" "step\<^sup>*\<^sup>* s0 s" using assms(1) by (auto simp: reachable_def)
  have "reachable init step s \<and> P s"
    using s0(2)
  proof (induction rule: rtranclp_induct)
    case base
    then show ?case using s0(1) assms(2) by (simp add: reachable_init)
  next
    case (step y z)
    then show ?case using assms(3) reachable_step by metis
  qed
  then show ?thesis by simp
qed

end
