(* ===== verification/Utf8.thy ===== *)
theory Utf8
  imports Prelude
begin

text \<open>
  Incremental UTF-8 output (\<open>include/rwkv/inference/utf8.hpp\<close>). A tokenizer token decodes to
  bytes that may end in the middle of a character, so each decode row keeps the bytes not
  yet emitted and \<open>take_complete_utf8\<close> moves the complete characters out, replacing malformed
  bytes with U+FFFD. The reference is the Unicode encoding of scalar values, \<open>utf8_of\<close>.
\<close>

section \<open>The code\<close>

definition is_utf8_continuation :: "byte \<Rightarrow> bool" where
  "is_utf8_continuation b \<longleftrightarrow> b AND 0xC0 = 0x80"

definition utf8_sequence_length :: "byte \<Rightarrow> nat" where
  "utf8_sequence_length lead =
     (if lead \<le> 0x7F then 1
      else if 0xC2 \<le> lead \<and> lead \<le> 0xDF then 2
      else if 0xE0 \<le> lead \<and> lead \<le> 0xEF then 3
      else if 0xF0 \<le> lead \<and> lead \<le> 0xF4 then 4
      else 0)"

text \<open>
  The code indexes \<open>text[pos] \<dots> text[pos + len - 1]\<close>; its only caller has checked
  \<open>pos + len \<le> text.size()\<close>.
\<close>

definition is_valid_utf8_sequence :: "bytes \<Rightarrow> nat \<Rightarrow> nat \<Rightarrow> bool" where
  "is_valid_utf8_sequence text pos len =
     (let b0 = text ! pos in
      if len = 1 then True
      else if len = 2 then is_utf8_continuation (text ! (pos + 1))
      else if len = 3 then
        (let b1 = text ! (pos + 1); b2 = text ! (pos + 2) in
         if \<not> is_utf8_continuation b1 \<or> \<not> is_utf8_continuation b2 then False
         else if b0 = 0xE0 \<and> b1 < 0xA0 then False
         else if b0 = 0xED \<and> b1 \<ge> 0xA0 then False
         else True)
      else if len = 4 then
        (let b1 = text ! (pos + 1); b2 = text ! (pos + 2); b3 = text ! (pos + 3) in
         if \<not> is_utf8_continuation b1 \<or> \<not> is_utf8_continuation b2
            \<or> \<not> is_utf8_continuation b3 then False
         else if b0 = 0xF0 \<and> b1 < 0x90 then False
         else if b0 = 0xF4 \<and> b1 > 0x8F then False
         else True)
      else False)"

text \<open>The bytes of U+FFFD, which replace each malformed byte.\<close>

definition utf8_replacement :: bytes where
  "utf8_replacement = [0xEF, 0xBF, 0xBD]"

lemma utf8_sequence_length_pos: "utf8_sequence_length b \<noteq> 0 \<Longrightarrow> 1 \<le> utf8_sequence_length b"
  by simp

text \<open>
  The loop of \<open>take_complete_utf8\<close>: \<open>i\<close> is the scan position, \<open>last_copy\<close> the start of the
  valid run not yet appended to \<open>out\<close>.
\<close>

function utf8_scan :: "bytes \<Rightarrow> nat \<Rightarrow> nat \<Rightarrow> bytes \<Rightarrow> nat \<times> nat \<times> bytes" where
  "utf8_scan pending i last_copy out =
     (if i < length pending then
        (let len = utf8_sequence_length (pending ! i) in
         if len = 0 then
           utf8_scan pending (i + 1) (i + 1)
             (out @ subrange pending last_copy i @ utf8_replacement)
         else if i + len > length pending then (i, last_copy, out)
         else if \<not> is_valid_utf8_sequence pending i len then
           utf8_scan pending (i + 1) (i + 1)
             (out @ subrange pending last_copy i @ utf8_replacement)
         else utf8_scan pending (i + len) last_copy out)
      else (i, last_copy, out))"
  by pat_completeness auto
termination
  by (relation "measure (\<lambda>(pending, i, _, _). length pending - i)") auto

declare utf8_scan.simps [simp del]

text \<open>\<open>take_complete_utf8\<close> returns the emitted text and the new value of \<open>pending\<close>.\<close>

definition take_complete_utf8 :: "bytes \<Rightarrow> bool \<Rightarrow> bytes \<times> bytes" where
  "take_complete_utf8 pending flush_all =
     (let (i, last_copy, out) = utf8_scan pending 0 0 [];
          out' = out @ subrange pending last_copy i;
          pending' = drop i pending
      in (out', if flush_all \<and> pending' \<noteq> [] then [] else pending'))"

section \<open>Reference: the encoding of Unicode scalar values\<close>

definition scalar_value :: "nat \<Rightarrow> bool" where
  "scalar_value cp \<longleftrightarrow> cp \<le> 0x10FFFF \<and> \<not> (0xD800 \<le> cp \<and> cp \<le> 0xDFFF)"

definition utf8_of :: "nat \<Rightarrow> bytes" where
  "utf8_of cp =
     (if cp \<le> 0x7F then [of_nat cp]
      else if cp \<le> 0x7FF then [of_nat (0xC0 + cp div 64), of_nat (0x80 + cp mod 64)]
      else if cp \<le> 0xFFFF then
        [of_nat (0xE0 + cp div 4096), of_nat (0x80 + cp div 64 mod 64), of_nat (0x80 + cp mod 64)]
      else
        [of_nat (0xF0 + cp div 262144), of_nat (0x80 + cp div 4096 mod 64),
         of_nat (0x80 + cp div 64 mod 64), of_nat (0x80 + cp mod 64)])"

definition wf_utf8 :: "bytes \<Rightarrow> bool" where
  "wf_utf8 bs \<longleftrightarrow> (\<exists>cps. list_all scalar_value cps \<and> bs = concat (map utf8_of cps))"

lemma wf_utf8_Nil [simp, intro]: "wf_utf8 []"
  unfolding wf_utf8_def by (rule exI [where x = "[]"]) simp

lemma wf_utf8_append [intro]: "wf_utf8 a \<Longrightarrow> wf_utf8 b \<Longrightarrow> wf_utf8 (a @ b)"
proof -
  assume "wf_utf8 a" "wf_utf8 b"
  then obtain c d where "list_all scalar_value c" "a = concat (map utf8_of c)"
    "list_all scalar_value d" "b = concat (map utf8_of d)"
    by (auto simp: wf_utf8_def)
  then show ?thesis
    unfolding wf_utf8_def by (intro exI [where x = "c @ d"]) simp
qed

lemma wf_utf8_single [intro]: "scalar_value cp \<Longrightarrow> wf_utf8 (utf8_of cp)"
  unfolding wf_utf8_def by (rule exI [where x = "[cp]"]) simp

section \<open>Byte arithmetic\<close>

lemma is_utf8_continuation_unat:
  "is_utf8_continuation b \<longleftrightarrow> 128 \<le> unat b \<and> unat b < 192"
proof -
  have "(0xC0 :: byte) = push_bit 6 (mask 2)" by (simp add: mask_eq_exp_minus_1)
  moreover have "b AND push_bit 6 (mask 2) = push_bit 6 (drop_bit 6 b)"
    by (intro bit_word_eqI) (auto simp: bit_simps)
  ultimately have "b AND 0xC0 = push_bit 6 (drop_bit 6 b)" by (simp only:)
  moreover have "push_bit 6 (drop_bit 6 b) = b div 64 * 64"
    by (simp add: push_bit_eq_mult drop_bit_eq_div)
  moreover have "unat (b div 64 * 64) = unat b div 64 * 64"
  proof -
    have "unat b div 64 * 64 < 256" using unat_byte_less [of b] by linarith
    then show ?thesis by (simp only: unat_word_ariths unat_div) simp
  qed
  moreover have "unat b div 64 * 64 = 128 \<longleftrightarrow> 128 \<le> unat b \<and> unat b < 192"
  proof (intro iffI conjI)
    assume "128 \<le> unat b \<and> unat b < 192"
    then have "unat b div 64 = 2" by (intro div_nat_eqI) simp_all
    then show "unat b div 64 * 64 = 128" by simp
  qed linarith+
  ultimately show ?thesis
    unfolding is_utf8_continuation_def by (simp only: word_unat_eq_iff) simp
qed

text \<open>
  The lead-byte and continuation-byte ranges, read as numbers: a sequence the code accepts is
  the encoding of exactly one scalar value, whose base-64 digits are the payloads.
\<close>

lemma utf8_sequence_length_unat:
  "utf8_sequence_length b =
     (if unat b \<le> 0x7F then 1
      else if 0xC2 \<le> unat b \<and> unat b \<le> 0xDF then 2
      else if 0xE0 \<le> unat b \<and> unat b \<le> 0xEF then 3
      else if 0xF0 \<le> unat b \<and> unat b \<le> 0xF4 then 4
      else 0)"
  by (simp add: utf8_sequence_length_def word_le_nat_alt)

lemma base64_digit: "n < 64 \<Longrightarrow> (k * 64 + n) div 64 = (k::nat)" "n < 64 \<Longrightarrow> (k * 64 + n) mod 64 = n"
  by simp_all

lemma div_base64: "(x::nat) div 4096 = x div 64 div 64" "x div 262144 = x div 64 div 64 div 64"
  by (simp_all add: div_mult2_eq [symmetric])

lemma of_nat_byteI: "n = unat (a :: byte) \<Longrightarrow> of_nat n = a"
  by simp

lemma continuation_digit:
  assumes "is_utf8_continuation b"
  obtains n where "unat b = 0x80 + n" "n < 64"
  using assms by (auto simp: is_utf8_continuation_unat intro: that [of "unat b - 128"])

lemma valid2_code:
  assumes "0xC2 \<le> unat a" "unat a \<le> 0xDF" "is_utf8_continuation b"
  shows "\<exists>cp. scalar_value cp \<and> utf8_of cp = [a, b]"
proof -
  obtain k where a: "unat a = 0xC0 + k" and k: "2 \<le> k" "k < 32"
    using assms(1,2) by (intro that [of "unat a - 0xC0"]) auto
  obtain n where b: "unat b = 0x80 + n" "n < 64" using assms(3) by (rule continuation_digit)
  let ?cp = "k * 64 + n"
  have "of_nat (0xC0 + ?cp div 64) = a" "of_nat (0x80 + ?cp mod 64) = b"
    by (rule of_nat_byteI, simp add: a b base64_digit)+
  moreover have "\<not> ?cp \<le> 0x7F" "?cp \<le> 0x7FF" using k b(2) by linarith+
  ultimately show ?thesis
    by (intro exI [where x = ?cp]) (simp add: utf8_of_def scalar_value_def)
qed

lemma valid3_code:
  assumes "0xE0 \<le> unat a" "unat a \<le> 0xEF" "is_utf8_continuation b" "is_utf8_continuation c"
    and "unat a = 0xE0 \<longrightarrow> 0xA0 \<le> unat b" "unat a = 0xED \<longrightarrow> unat b < 0xA0"
  shows "\<exists>cp. scalar_value cp \<and> utf8_of cp = [a, b, c]"
proof -
  obtain k where a: "unat a = 0xE0 + k" and k: "k < 16"
    using assms(1,2) by (intro that [of "unat a - 0xE0"]) auto
  obtain n where b: "unat b = 0x80 + n" "n < 64" using assms(3) by (rule continuation_digit)
  obtain m where c: "unat c = 0x80 + m" "m < 64" using assms(4) by (rule continuation_digit)
  let ?cp = "(k * 64 + n) * 64 + m"
  have "of_nat (0xE0 + ?cp div 4096) = a" "of_nat (0x80 + ?cp div 64 mod 64) = b"
    "of_nat (0x80 + ?cp mod 64) = c"
    by (rule of_nat_byteI, simp only: a b c base64_digit div_base64)+
  moreover have "\<not> (0xD800 \<le> ?cp \<and> ?cp \<le> 0xDFFF)"
  proof -
    have "k \<le> 12 \<or> 14 \<le> k \<or> k = 13 \<and> n < 32" using assms(6) a b by auto
    then show ?thesis by (elim disjE conjE) (insert b(2) c(2), auto)
  qed
  moreover have ge: "\<not> ?cp \<le> 0x7FF"
  proof -
    have "32 \<le> n \<or> 1 \<le> k" using assms(5) a b by auto
    then show ?thesis by (elim disjE) simp_all
  qed
  moreover from ge have "\<not> ?cp \<le> 0x7F" by linarith
  moreover have "?cp \<le> 0xFFFF" using k b(2) c(2) by simp
  ultimately show ?thesis
    by (intro exI [where x = ?cp]) (simp only: utf8_of_def scalar_value_def, simp)
qed

lemma valid4_code:
  assumes "0xF0 \<le> unat a" "unat a \<le> 0xF4"
    and "is_utf8_continuation b" "is_utf8_continuation c" "is_utf8_continuation d"
    and "unat a = 0xF0 \<longrightarrow> 0x90 \<le> unat b" "unat a = 0xF4 \<longrightarrow> unat b \<le> 0x8F"
  shows "\<exists>cp. scalar_value cp \<and> utf8_of cp = [a, b, c, d]"
proof -
  obtain k where a: "unat a = 0xF0 + k" and k: "k \<le> 4"
    using assms(1,2) by (intro that [of "unat a - 0xF0"]) auto
  obtain n where b: "unat b = 0x80 + n" "n < 64" using assms(3) by (rule continuation_digit)
  obtain m where c: "unat c = 0x80 + m" "m < 64" using assms(4) by (rule continuation_digit)
  obtain p where d: "unat d = 0x80 + p" "p < 64" using assms(5) by (rule continuation_digit)
  let ?cp = "((k * 64 + n) * 64 + m) * 64 + p"
  have "of_nat (0xF0 + ?cp div 262144) = a" "of_nat (0x80 + ?cp div 4096 mod 64) = b"
    "of_nat (0x80 + ?cp div 64 mod 64) = c" "of_nat (0x80 + ?cp mod 64) = d"
    by (rule of_nat_byteI, simp only: a b c d base64_digit div_base64)+
  moreover have "?cp \<le> 0x10FFFF"
  proof -
    have "k \<le> 3 \<or> k = 4 \<and> n < 16" using assms(7) k a b by auto
    then show ?thesis by (elim disjE conjE) (insert b(2) c(2) d(2), auto)
  qed
  moreover have ge: "\<not> ?cp \<le> 0xFFFF"
  proof -
    have "16 \<le> n \<or> 1 \<le> k" using assms(6) a b by auto
    then show ?thesis by (elim disjE) simp_all
  qed
  moreover from ge have "\<not> ?cp \<le> 0x7F" "\<not> ?cp \<le> 0x7FF" by linarith+
  ultimately show ?thesis
    by (intro exI [where x = ?cp]) (simp only: utf8_of_def scalar_value_def, simp)
qed

lemma upt_small:
  "[0..<1] = [0]" "[0..<2] = [0, 1]" "[0..<3] = [0, 1, 2]" "[0..<4] = [0, 1, 2, 3]"
  by (simp_all add: upt_rec)

text \<open>The sequences the code accepts are the encodings of scalar values.\<close>

lemmas byte_order_simps = word_unat_eq_iff word_less_nat_alt word_le_nat_alt

lemma valid_sequence_wf:
  assumes "utf8_sequence_length (text ! pos) = len" "len \<noteq> 0" "pos + len \<le> length text"
    and "is_valid_utf8_sequence text pos len"
  shows "\<exists>cp. scalar_value cp \<and> utf8_of cp = subrange text pos (pos + len)"
proof -
  let ?b = "\<lambda>i. text ! (pos + i)"
  note sub = subrange_nth [OF assms(3)]
  consider "len = 1" | "len = 2" | "len = 3" | "len = 4"
    using assms(1,2) by (auto simp: utf8_sequence_length_def split: if_splits)
  then show ?thesis
  proof cases
    case 1
    then have "utf8_sequence_length (text ! pos) = 1" using assms(1) by simp
    then have "unat (text ! pos) \<le> 0x7F"
      unfolding utf8_sequence_length_unat by (simp split: if_splits)
    then have "scalar_value (unat (text ! pos)) \<and> utf8_of (unat (text ! pos)) = [text ! pos]"
      by (simp add: utf8_of_def scalar_value_def)
    then show ?thesis unfolding sub unfolding 1 upt_small by simp blast
  next
    case 2
    then have "0xC2 \<le> unat (text ! pos)" "unat (text ! pos) \<le> 0xDF"
      using assms(1) by (auto simp: utf8_sequence_length_unat split: if_splits)
    moreover have "is_utf8_continuation (?b 1)"
      using assms(4) unfolding 2 by (simp add: is_valid_utf8_sequence_def)
    ultimately show ?thesis unfolding sub unfolding 2 upt_small using valid2_code by simp
  next
    case 3
    then have "0xE0 \<le> unat (text ! pos)" "unat (text ! pos) \<le> 0xEF"
      using assms(1) by (auto simp: utf8_sequence_length_unat split: if_splits)
    moreover have "is_utf8_continuation (?b 1)" "is_utf8_continuation (?b 2)"
      "unat (text ! pos) = 0xE0 \<longrightarrow> 0xA0 \<le> unat (?b 1)"
      "unat (text ! pos) = 0xED \<longrightarrow> unat (?b 1) < 0xA0"
      using assms(4) unfolding 3
      by (auto simp: is_valid_utf8_sequence_def Let_def byte_order_simps split: if_splits)
    ultimately show ?thesis unfolding sub unfolding 3 upt_small using valid3_code by simp
  next
    case 4
    then have "0xF0 \<le> unat (text ! pos)" "unat (text ! pos) \<le> 0xF4"
      using assms(1) by (auto simp: utf8_sequence_length_unat split: if_splits)
    moreover have "is_utf8_continuation (?b 1)" "is_utf8_continuation (?b 2)"
      "is_utf8_continuation (?b 3)"
      "unat (text ! pos) = 0xF0 \<longrightarrow> 0x90 \<le> unat (?b 1)"
      "unat (text ! pos) = 0xF4 \<longrightarrow> unat (?b 1) \<le> 0x8F"
      using assms(4) unfolding 4
      by (auto simp: is_valid_utf8_sequence_def Let_def byte_order_simps split: if_splits)
    ultimately show ?thesis unfolding sub unfolding 4 upt_small using valid4_code by simp
  qed
qed

lemma valid_subrange_wf:
  assumes "utf8_sequence_length (text ! pos) = len" "len \<noteq> 0" "pos + len \<le> length text"
    and "is_valid_utf8_sequence text pos len"
  shows "wf_utf8 (subrange text pos (pos + len))"
  using valid_sequence_wf [OF assms] wf_utf8_single by metis

text \<open>Conversely every encoding has one of the accepted shapes.\<close>

lemma base64_parts: "(x::nat) = x div 64 * 64 + x mod 64 \<and> x mod 64 < 64"
  by simp

lemma unat_digit: "unat (of_nat (0x80 + n mod 64) :: byte) = 0x80 + n mod 64"
  by (rule unat_of_nat_byte) (use mod_less_divisor [of 64 n] in linarith)

lemma continuation_of_digit: "is_utf8_continuation (of_nat (0x80 + n mod 64))"
  unfolding is_utf8_continuation_unat unat_digit by simp

lemma utf8_of_shape:
  assumes "scalar_value cp"
  shows "utf8_sequence_length (utf8_of cp ! 0) = length (utf8_of cp)
    \<and> is_valid_utf8_sequence (utf8_of cp @ rest) 0 (length (utf8_of cp))"
proof -
  have lim: "cp \<le> 0x10FFFF" "\<not> (0xD800 \<le> cp \<and> cp \<le> 0xDFFF)"
    using assms by (simp_all add: scalar_value_def)
  consider "cp \<le> 0x7F" | "0x7F < cp" "cp \<le> 0x7FF" | "0x7FF < cp" "cp \<le> 0xFFFF" | "0xFFFF < cp"
    by linarith
  then show ?thesis
  proof cases
    case 1
    then show ?thesis
      by (simp add: utf8_of_def utf8_sequence_length_unat unat_of_nat_byte is_valid_utf8_sequence_def)
  next
    case 2
    then have b: "cp div 64 < 32" "2 \<le> cp div 64" by linarith+
    then have "unat (of_nat (0xC0 + cp div 64) :: byte) = 0xC0 + cp div 64"
      by (intro unat_of_nat_byte) linarith
    with b have "utf8_sequence_length (of_nat (0xC0 + cp div 64)) = 2"
      by (simp only: utf8_sequence_length_unat) simp
    moreover have "utf8_of cp = [of_nat (0xC0 + cp div 64), of_nat (0x80 + cp mod 64)]"
      using 2 by (simp only: utf8_of_def) simp
    ultimately show ?thesis
      using continuation_of_digit [of cp] by (simp add: is_valid_utf8_sequence_def del: of_nat_add)
  next
    case 3
    let ?a = "of_nat (0xE0 + cp div 4096) :: byte" and ?b = "of_nat (0x80 + cp div 64 mod 64) :: byte"
    from 3 have b: "cp div 4096 < 16" by linarith
    then have a: "unat ?a = 0xE0 + cp div 4096" by (intro unat_of_nat_byte) linarith
    with b have "utf8_sequence_length ?a = 3"
      by (simp only: utf8_sequence_length_unat) simp
    moreover have "utf8_of cp = [?a, ?b, of_nat (0x80 + cp mod 64)]"
      using 3 by (simp only: utf8_of_def) simp
    moreover have "0xA0 \<le> unat ?b" if "unat ?a = 0xE0"
      using that 3 base64_parts [of cp] base64_parts [of "cp div 64"]
      unfolding a unat_digit unfolding div_base64 by linarith
    moreover have "unat ?b < 0xA0" if "unat ?a = 0xED"
    proof (rule ccontr)
      assume "\<not> unat ?b < 0xA0"
      with that lim(2) base64_parts [of cp] base64_parts [of "cp div 64"] show False
        unfolding a unat_digit unfolding div_base64 by linarith
    qed
    ultimately show ?thesis
      using continuation_of_digit [of cp] continuation_of_digit [of "cp div 64"]
      by (auto simp: is_valid_utf8_sequence_def byte_order_simps Let_def simp del: of_nat_add)
  next
    case 4
    let ?a = "of_nat (0xF0 + cp div 262144) :: byte" and ?b = "of_nat (0x80 + cp div 4096 mod 64) :: byte"
    from 4 lim have b: "cp div 262144 \<le> 4" by linarith
    then have a: "unat ?a = 0xF0 + cp div 262144" by (intro unat_of_nat_byte) linarith
    with b have "utf8_sequence_length ?a = 4"
      by (simp only: utf8_sequence_length_unat) simp
    moreover have "utf8_of cp = [?a, ?b, of_nat (0x80 + cp div 64 mod 64), of_nat (0x80 + cp mod 64)]"
      using 4 by (simp only: utf8_of_def) simp
    moreover have "0x90 \<le> unat ?b" if "unat ?a = 0xF0"
      using that 4 base64_parts [of cp] base64_parts [of "cp div 64"]
        base64_parts [of "cp div 64 div 64"]
      unfolding a unat_digit unfolding div_base64 by linarith
    moreover have "unat ?b \<le> 0x8F" if "unat ?a = 0xF4"
      using that lim(1) base64_parts [of cp] base64_parts [of "cp div 64"]
        base64_parts [of "cp div 64 div 64"]
      unfolding a unat_digit unfolding div_base64 by linarith
    ultimately show ?thesis
      using continuation_of_digit [of cp] continuation_of_digit [of "cp div 64"]
        continuation_of_digit [of "cp div 4096"]
      by (auto simp: is_valid_utf8_sequence_def byte_order_simps Let_def simp del: of_nat_add)
  qed
qed

section \<open>The loop as a function of the unread suffix\<close>

text \<open>
  One iteration on the unread bytes: what it emits and how many bytes it consumes; \<open>None\<close>
  when the input is exhausted or ends inside a sequence.
\<close>

definition utf8_front :: "bytes \<Rightarrow> (bytes \<times> nat) option" where
  "utf8_front bs =
     (if bs = [] then None
      else let len = utf8_sequence_length (bs ! 0) in
        if len = 0 then Some (utf8_replacement, 1)
        else if len > length bs then None
        else if is_valid_utf8_sequence bs 0 len then Some (take len bs, len)
        else Some (utf8_replacement, 1))"

lemma utf8_front_bounds: "utf8_front bs = Some (out, n) \<Longrightarrow> 1 \<le> n \<and> n \<le> length bs"
  by (auto simp: utf8_front_def Let_def Suc_le_eq split: if_splits)

function utf8_clean :: "bytes \<Rightarrow> bytes \<times> bytes" where
  "utf8_clean bs =
     (case utf8_front bs of None \<Rightarrow> ([], bs)
      | Some (out, n) \<Rightarrow> (let (out', rest) = utf8_clean (drop n bs) in (out @ out', rest)))"
  by pat_completeness auto
termination
  by (relation "measure length") (auto dest!: utf8_front_bounds)

declare utf8_clean.simps [simp del]

lemma is_valid_drop:
  "is_valid_utf8_sequence (drop i p) 0 len = is_valid_utf8_sequence p i len"
  if "i + len \<le> length p" "0 < len"
proof -
  have "\<And>k. k < len \<Longrightarrow> drop i p ! k = p ! (i + k)" using that by simp
  then show ?thesis using that by (auto simp: is_valid_utf8_sequence_def Let_def)
qed

lemma utf8_scan_clean:
  assumes "i \<le> length p" "lc \<le> i"
  shows "case utf8_scan p i lc out of (i', lc', out') \<Rightarrow>
     i \<le> i' \<and> i' \<le> length p \<and> lc' \<le> i' \<and>
     out' @ subrange p lc' i' = out @ subrange p lc i @ fst (utf8_clean (drop i p)) \<and>
     drop i' p = snd (utf8_clean (drop i p))"
  using assms
proof (induction p i lc out rule: utf8_scan.induct)
  case (1 p i lc out)
  let ?len = "utf8_sequence_length (p ! i)"
  show ?case
  proof (cases "utf8_front (drop i p)")
    case None
    then have "utf8_clean (drop i p) = ([], drop i p)" by (subst utf8_clean.simps) simp
    moreover have "utf8_scan p i lc out = (i, lc, out)"
      using None 1(4) by (subst utf8_scan.simps)
        (auto simp: utf8_front_def Let_def is_valid_drop split: if_splits)
    ultimately show ?thesis using 1(4,5) by simp
  next
    case (Some on)
    then obtain o1 n where on: "utf8_front (drop i p) = Some (o1, n)" by (cases on) auto
    then have clean: "utf8_clean (drop i p) =
        (o1 @ fst (utf8_clean (drop (i + n) p)), snd (utf8_clean (drop (i + n) p)))"
      by (subst utf8_clean.simps) (simp add: case_prod_beta add.commute)
    have lt: "i < length p" using on by (auto simp: utf8_front_def split: if_splits)
    show ?thesis
    proof (cases "?len = 0 \<or> i + ?len \<le> length p \<and> \<not> is_valid_utf8_sequence p i ?len")
      case True
      with on lt have "o1 = utf8_replacement" "n = 1"
        by (auto simp: utf8_front_def Let_def is_valid_drop split: if_splits)
      moreover have "utf8_scan p i lc out =
          utf8_scan p (i + 1) (i + 1) (out @ subrange p lc i @ utf8_replacement)"
        using True lt by (subst utf8_scan.simps) (auto simp: Let_def)
      ultimately show ?thesis
        using 1(1,2) [OF lt refl] True lt 1(4,5)
        by (cases "?len = 0") (auto simp: clean)
    next
      case False
      with on lt have "o1 = subrange p i (i + ?len)" "n = ?len" "0 < ?len" "i + ?len \<le> length p"
        by (auto simp: utf8_front_def Let_def is_valid_drop subrange_def split: if_splits)
      moreover have "utf8_scan p i lc out = utf8_scan p (i + ?len) lc out"
        using False lt \<open>0 < ?len\<close> \<open>i + ?len \<le> length p\<close>
        by (subst utf8_scan.simps) (auto simp: Let_def)
      moreover have "subrange p lc i @ subrange p i (i + ?len) = subrange p lc (i + ?len)"
        by (rule subrange_join) (use 1(5) in auto)
      ultimately show ?thesis
        using 1(3) [OF lt refl] False lt 1(4,5) by (auto simp: clean)
    qed
  qed
qed

lemma take_complete_utf8_clean:
  "take_complete_utf8 p flush =
     (fst (utf8_clean p), if flush then [] else snd (utf8_clean p))"
  using utf8_scan_clean [of 0 p 0 "[]"]
  by (auto simp: take_complete_utf8_def Let_def split: prod.splits)

section \<open>Streaming\<close>

text \<open>
  A decode row appends each decoded token to \<open>pending\<close> and flushes the complete characters
  (\<open>Scheduler::flush\<close>); \<open>utf8_stream\<close> is that interaction over a list of decoded chunks.
\<close>

fun utf8_stream :: "bytes \<Rightarrow> bytes list \<Rightarrow> bytes \<times> bytes" where
  "utf8_stream pending [] = ([], pending)"
| "utf8_stream pending (d # ds) =
     (let (out, pending') = take_complete_utf8 (pending @ d) False;
          (outs, pending'') = utf8_stream pending' ds
      in (out @ outs, pending''))"

lemma utf8_front_append:
  assumes "utf8_front a = Some (out, n)"
  shows "utf8_front (a @ b) = Some (out, n)"
proof -
  let ?len = "utf8_sequence_length (a ! 0)"
  have "a \<noteq> []" using assms by (auto simp: utf8_front_def)
  moreover have "is_valid_utf8_sequence (a @ b) 0 ?len = is_valid_utf8_sequence a 0 ?len"
    if "?len \<le> length a" "0 < ?len"
  proof -
    have "\<And>k. k < ?len \<Longrightarrow> (a @ b) ! k = a ! k" using that by (simp add: nth_append)
    then show ?thesis using that by (auto simp: is_valid_utf8_sequence_def Let_def)
  qed
  ultimately show ?thesis
    using assms by (auto simp: utf8_front_def Let_def nth_append split: if_splits)
qed

lemma utf8_clean_append:
  "utf8_clean (a @ b) =
     (fst (utf8_clean a) @ fst (utf8_clean (snd (utf8_clean a) @ b)),
      snd (utf8_clean (snd (utf8_clean a) @ b)))"
proof (induction a rule: utf8_clean.induct)
  case (1 a)
  show ?case
  proof (cases "utf8_front a")
    case None
    then have "utf8_clean a = ([], a)" by (subst utf8_clean.simps) simp
    then show ?thesis by simp
  next
    case (Some on)
    then obtain o1 n where on: "utf8_front a = Some (o1, n)" by (cases on) auto
    note IH = 1 [OF on refl]
    have "utf8_clean (a @ b) = (o1 @ fst (utf8_clean (drop n a @ b)), snd (utf8_clean (drop n a @ b)))"
      using utf8_front_append [OF on, of b] utf8_front_bounds [OF on]
      by (subst utf8_clean.simps) (simp add: case_prod_beta)
    moreover have "utf8_clean a = (o1 @ fst (utf8_clean (drop n a)), snd (utf8_clean (drop n a)))"
      by (subst utf8_clean.simps) (simp add: on case_prod_beta)
    ultimately show ?thesis using IH by simp
  qed
qed

lemma utf8_clean_rest: "utf8_clean a = (out, r) \<Longrightarrow> utf8_front r = None"
proof (induction a arbitrary: out rule: utf8_clean.induct)
  case (1 a)
  then show ?case by (subst (asm) (2) utf8_clean.simps) (auto split: option.splits prod.splits)
qed

lemma utf8_front_None_length: "utf8_front r = None \<Longrightarrow> length r \<le> 3"
  by (auto simp: utf8_front_def utf8_sequence_length_def Let_def split: if_splits)

lemma utf8_clean_wf: "wf_utf8 (fst (utf8_clean a))"
proof (induction a rule: utf8_clean.induct)
  case (1 a)
  have repl: "wf_utf8 utf8_replacement"
    using wf_utf8_single [where cp = "0xFFFD"] by (simp add: scalar_value_def utf8_of_def utf8_replacement_def)
  show ?case
  proof (cases "utf8_front a")
    case (Some on)
    then obtain o1 n where on: "utf8_front a = Some (o1, n)" by (cases on) auto
    have "wf_utf8 o1"
      using on repl valid_subrange_wf [of a 0 "utf8_sequence_length (a ! 0)"]
      by (auto simp: utf8_front_def Let_def subrange_def split: if_splits)
    then show ?thesis using 1 [OF on refl]
      by (subst utf8_clean.simps) (auto simp: on case_prod_beta)
  qed (simp add: utf8_clean.simps [of a])
qed

lemma utf8_clean_wf_id: "list_all scalar_value cps \<Longrightarrow> utf8_clean (concat (map utf8_of cps)) = (concat (map utf8_of cps), [])"
proof (induction cps)
  case (Cons cp cps)
  let ?r = "concat (map utf8_of cps)"
  have ne: "utf8_of cp \<noteq> []" by (simp add: utf8_of_def)
  have "utf8_front (utf8_of cp @ ?r) = Some (utf8_of cp, length (utf8_of cp))"
    using utf8_of_shape [of cp ?r] Cons.prems ne by (simp add: utf8_front_def nth_append Let_def)
  then show ?case using Cons by (subst utf8_clean.simps) simp
qed (simp add: utf8_clean.simps utf8_front_def)

lemma utf8_stream_clean: "utf8_front p = None \<Longrightarrow> utf8_stream p ds = utf8_clean (p @ concat ds)"
proof (induction ds arbitrary: p)
  case Nil
  then show ?case by (simp add: utf8_clean.simps)
next
  case (Cons d ds)
  have "utf8_front (snd (utf8_clean (p @ d))) = None"
    using utf8_clean_rest by (metis prod.collapse)
  with Cons.IH utf8_clean_append [of "p @ d" "concat ds"] show ?case
    by (simp add: take_complete_utf8_clean case_prod_beta)
qed

section \<open>Properties\<close>

text \<open>
  C26. Streaming does not depend on where the decoded text is cut: feeding chunks one by one
  emits, in total, what one call on the concatenation emits, and keeps the same rest.
\<close>

theorem utf8_stream_chunking:
  "utf8_stream [] ds = take_complete_utf8 (concat ds) False"
proof -
  have "utf8_front [] = None" by (simp add: utf8_front_def)
  then show ?thesis by (simp add: utf8_stream_clean take_complete_utf8_clean)
qed

text \<open>
  Whatever bytes a model emits, the text sent to the client is well-formed UTF-8 (a
  sequence of encoded scalar values), and at most three bytes are held back.
\<close>

theorem take_complete_utf8_well_formed:
  "wf_utf8 (fst (take_complete_utf8 pending flush_all))
     \<and> length (snd (take_complete_utf8 pending flush_all)) \<le> 3"
proof -
  have "length (snd (utf8_clean pending)) \<le> 3"
    by (rule utf8_front_None_length, rule utf8_clean_rest [of pending "fst (utf8_clean pending)"]) simp
  then show ?thesis by (simp add: take_complete_utf8_clean utf8_clean_wf)
qed

text \<open>
  Well-formed text passes through unchanged and nothing is held back.
\<close>

theorem take_complete_utf8_transparent:
  assumes "wf_utf8 text"
  shows "take_complete_utf8 text flush_all = (text, [])"
  using assms by (auto simp: wf_utf8_def take_complete_utf8_clean utf8_clean_wf_id)

text \<open>The hypothesis of C3 at a three-byte character, U+20AC.\<close>

theorem take_complete_utf8_transparent_witness:
  "take_complete_utf8 [0xE2, 0x82, 0xAC] True = ([0xE2, 0x82, 0xAC], [])"
proof -
  have "wf_utf8 (utf8_of 0x20AC)" by (rule wf_utf8_single) (simp add: scalar_value_def)
  moreover have "utf8_of 0x20AC = [0xE2, 0x82, 0xAC]" by (simp add: utf8_of_def)
  ultimately have "wf_utf8 [0xE2, 0x82, 0xAC]" by simp
  then show ?thesis by (rule take_complete_utf8_transparent)
qed

end
