(* ===== verification/StopMatcher.thy ===== *)
theory StopMatcher
  imports Prelude
begin

text \<open>
  Text stop sequences (\<open>include/rwkv/inference/text_stop_matcher.hpp\<close>). The matcher sees the
  decoded bytes of one token at a time and keeps a bounded tail of the generated text, as
  long as the longest stop; the reference looks at the whole text.
\<close>

section \<open>The code\<close>

record text_stop_matcher =
  stops :: "bytes list"
  max_bytes :: nat

definition text_stop_matcher :: "bytes list \<Rightarrow> text_stop_matcher" where
  "text_stop_matcher ss = \<lparr>stops = ss, max_bytes = fold (\<lambda>stop m. max m (length stop)) ss 0\<rparr>"

text \<open>\<open>tail.compare(tail.size() - stop.size(), stop.size(), stop) == 0\<close> with its guards.\<close>

definition tail_matches :: "bytes \<Rightarrow> bytes \<Rightarrow> bool" where
  "tail_matches tail stop \<longleftrightarrow>
     stop \<noteq> [] \<and> length tail \<ge> length stop \<and> drop (length tail - length stop) tail = stop"

text \<open>
  \<open>TextStopMatcher::append\<close>: the matched stop (the empty string when none) and the new tail.
\<close>

definition stop_append :: "text_stop_matcher \<Rightarrow> bytes \<Rightarrow> bytes \<Rightarrow> bytes \<times> bytes" where
  "stop_append m tail decoded =
     (if max_bytes m = 0 then ([], tail)
      else
        let tail' =
          (if length decoded \<ge> max_bytes m then
             subrange decoded (length decoded - max_bytes m) (length decoded)
           else
             (if length tail + length decoded > max_bytes m
              then drop (length tail + length decoded - max_bytes m) tail else tail) @ decoded)
        in (case find (tail_matches tail') (stops m) of None \<Rightarrow> [] | Some stop \<Rightarrow> stop, tail'))"

text \<open>
  The matcher along a generation, as \<open>Scheduler::step\<close> drives it: one call per decoded token
  until the first match; the result is the number of tokens consumed and the matched stop.
\<close>

fun stop_run :: "text_stop_matcher \<Rightarrow> bytes \<Rightarrow> bytes list \<Rightarrow> (nat \<times> bytes) option" where
  "stop_run m tail [] = None"
| "stop_run m tail (d # ds) =
     (let (matched, tail') = stop_append m tail d in
      if matched \<noteq> [] then Some (1, matched)
      else map_option (\<lambda>(n, s). (n + 1, s)) (stop_run m tail' ds))"

section \<open>Reference\<close>

text \<open>The first stop, in request order, that the whole text ends with.\<close>

definition stop_at_end :: "bytes list \<Rightarrow> bytes \<Rightarrow> bytes option" where
  "stop_at_end ss text = find (\<lambda>s. s \<noteq> [] \<and> suffix s text) ss"

lemma fold_max_ge: "x \<in> set xs \<or> f x \<le> m \<Longrightarrow> f x \<le> fold (\<lambda>x m. max m (f x)) xs (m :: nat)"
proof (induction xs arbitrary: m)
  case (Cons a xs)
  from Cons.prems consider "x \<in> set xs" | "x = a" | "f x \<le> m" by auto
  then have "x \<in> set xs \<or> f x \<le> max m (f a)" by cases (simp_all add: max.coboundedI1)
  then show ?case using Cons.IH [of "max m (f a)"] by simp
qed simp

lemma length_stop_le_max: "s \<in> set ss \<Longrightarrow> length s \<le> max_bytes (text_stop_matcher ss)"
  by (simp add: text_stop_matcher_def fold_max_ge)

lemma tail_matches_suffix:
  assumes "length s \<le> n"
  shows "tail_matches (take_last n text) s \<longleftrightarrow> s \<noteq> [] \<and> suffix s text"
proof -
  have "drop (length t - length s) t = s \<longleftrightarrow> suffix s t" if "length s \<le> length t" for t :: bytes
    using suffix_drop [of "length t - length s" t] by (auto simp: suffix_def)
  then show ?thesis
    using suffix_take_last_iff [OF assms, of "text"] suffix_length_le [of s "take_last n text"]
    unfolding tail_matches_def by blast
qed

lemma find_cong_set: "(\<And>x. x \<in> set xs \<Longrightarrow> P x = Q x) \<Longrightarrow> find P xs = find Q xs"
  by (induction xs) auto

lemma stop_append_spec:
  fixes ss :: "bytes list"
  defines "m \<equiv> text_stop_matcher ss"
  shows "stop_append m (take_last (max_bytes m) text) d =
     (case stop_at_end ss (text @ d) of None \<Rightarrow> [] | Some s \<Rightarrow> s, take_last (max_bytes m) (text @ d))"
proof (cases "max_bytes m = 0")
  case True
  then have "\<forall>s \<in> set ss. s = []" using length_stop_le_max unfolding m_def by fastforce
  then have "stop_at_end ss (text @ d) = None"
    by (auto simp: stop_at_end_def find_None_iff)
  with True show ?thesis by (simp add: stop_append_def take_last_def)
next
  case False
  let ?n = "max_bytes m" and ?tail = "take_last (max_bytes m) text"
  have tail: "(if length d \<ge> ?n then subrange d (length d - ?n) (length d)
     else (if length ?tail + length d > ?n then drop (length ?tail + length d - ?n) ?tail
           else ?tail) @ d) = take_last ?n (text @ d)"
    by (cases "?n \<le> length text") (auto simp: subrange_full take_last_def add.commute)
  have found: "find (tail_matches (take_last ?n (text @ d))) ss = stop_at_end ss (text @ d)"
    unfolding stop_at_end_def
    by (rule find_cong_set) (simp add: tail_matches_suffix length_stop_le_max m_def)
  have ss: "stops m = ss" by (simp add: m_def text_stop_matcher_def)
  show ?thesis
    by (simp only: stop_append_def Let_def False if_False tail found ss)
qed

section \<open>Properties\<close>

lemma stop_at_end_nonempty: "stop_at_end ss text = Some s \<Longrightarrow> s \<noteq> [] \<and> s \<in> set ss \<and> suffix s text"
  by (auto simp: stop_at_end_def find_Some_iff)

lemma stop_run_spec:
  "stop_run (text_stop_matcher ss) (take_last (max_bytes (text_stop_matcher ss)) text) ds =
     map_option (\<lambda>n. (n, the (stop_at_end ss (text @ concat (take n ds)))))
       (find (\<lambda>n. stop_at_end ss (text @ concat (take n ds)) \<noteq> None) [1..<length ds + 1])"
proof (induction ds arbitrary: "text")
  case (Cons d ds)
  let ?m = "text_stop_matcher ss"
  let ?hit = "\<lambda>n. stop_at_end ss (text @ concat (take n (d # ds)))"
  have upt: "[1..<length (d # ds) + 1] = 1 # map Suc [1..<length ds + 1]"
    by (simp add: upt_conv_Cons map_Suc_upt del: upt_Suc)
  show ?case
  proof (cases "stop_at_end ss (text @ d)")
    case None
    have "find (\<lambda>n. ?hit n \<noteq> None) [1..<length (d # ds) + 1] =
        map_option Suc (find (\<lambda>n. ?hit (Suc n) \<noteq> None) [1..<length ds + 1])"
    proof -
      have "find P (map Suc ns) = map_option Suc (find (\<lambda>n. P (Suc n)) ns)" for P ns
        by (induction ns) auto
      then show ?thesis unfolding upt using None by simp
    qed
    then show ?thesis
      using None Cons.IH [of "text @ d"]
      by (simp add: stop_append_spec option.map_comp comp_def del: upt_Suc)
  next
    case (Some s)
    then show ?thesis
      using stop_at_end_nonempty [OF Some] unfolding upt by (simp add: stop_append_spec)
  qed
qed simp

text \<open>
  C30. The bounded tail is enough: the matcher stops after exactly the first token at which
  the whole generated text ends with some non-empty stop, wherever token boundaries fall
  inside it, and reports the first such stop in request order.
\<close>

theorem stop_run_first_match:
  "stop_run (text_stop_matcher ss) [] ds =
     map_option (\<lambda>n. (n, the (stop_at_end ss (concat (take n ds)))))
       (find (\<lambda>n. stop_at_end ss (concat (take n ds)) \<noteq> None) [1..<length ds + 1])"
  using stop_run_spec [of ss "[]" ds] by (simp add: take_last_def)

text \<open>
  The retained tail is never longer than the longest stop, whatever tail a resumed
  request starts from within that bound.
\<close>

theorem stop_append_bounded:
  "length tail \<le> max_bytes m \<Longrightarrow> length (snd (stop_append m tail decoded)) \<le> max_bytes m"
  by (auto simp: stop_append_def Let_def subrange_def)

theorem stop_append_bounded_witness:
  "length (snd (stop_append (text_stop_matcher [[65, 66]]) [67] [65, 66, 65])) \<le> 2"
proof -
  have "max_bytes (text_stop_matcher [[65, 66]]) = 2" by (simp add: text_stop_matcher_def)
  with stop_append_bounded [of "[67]" "text_stop_matcher [[65, 66]]" "[65, 66, 65]"]
  show ?thesis by simp
qed

end
