(* ===== verification/RadixTrie.thy ===== *)
theory RadixTrie
  imports Prelude
begin

text \<open>
  The compressed token trie inside \<open>PrefixCache\<close> (\<open>include/rwkv/inference/prefix_cache.hpp\<close>,
  \<open>struct Node\<close>, \<open>insert\<close>, \<open>erase\<close> and the two walks). A node does not own its snapshot:
  \<open>entry\<close> is a shared pointer, modelled by the number of the entry it points to.
\<close>

section \<open>Nodes\<close>

text \<open>
  \<open>children\<close> is a \<open>std::map\<close> keyed by the first token of the child's edge; its order is never
  observed (\<open>begin()\<close> is taken of a one-element map only).
\<close>

datatype node =
  Node (edge: "token list") (children: "(token \<times> node) list") (entry: "nat option")

lemma size_child [termination_simp]:
  "kc \<in> set cs \<Longrightarrow> size (snd kc) < Suc (size_list (\<lambda>x. Suc (size (snd x))) cs)"
  by (induction cs) auto

lemma size_map_of [termination_simp]:
  "map_of cs t = Some c \<Longrightarrow> size c < Suc (size_list (\<lambda>x. Suc (size (snd x))) cs)"
  using size_child [of "(t, c)" cs] by (auto dest: map_of_SomeD)

lemma size_map_of_children:
  "map_of (children n) t = Some c \<Longrightarrow> size c < size n"
proof -
  have "size_prod (\<lambda>_. 0) size = (\<lambda>x :: token \<times> node. Suc (size (snd x)))" by (auto simp: fun_eq_iff)
  then show "map_of (children n) t = Some c \<Longrightarrow> size c < size n"
    by (cases n) (simp add: size_map_of)
qed

section \<open>The code\<close>

text \<open>\<open>while (common < edge.size() && off + common < tokens.size() && ...) ++common\<close>.\<close>

fun common_len :: "token list \<Rightarrow> token list \<Rightarrow> nat" where
  "common_len (x # xs) (y # ys) = (if x = y then Suc (common_len xs ys) else 0)"
| "common_len _ _ = 0"

lemma common_len_0: "common_len (x # xs) (y # ys) = 0 \<longleftrightarrow> x \<noteq> y"
  by simp

lemma common_len_le: "common_len xs ys \<le> length xs \<and> common_len xs ys \<le> length ys"
  by (induction xs ys rule: common_len.induct) auto

text \<open>A child whose edge diverges after \<open>common\<close> tokens is cut in two.\<close>

definition split_child :: "node \<Rightarrow> nat \<Rightarrow> node" where
  "split_child child common =
     (let tail = Node (drop common (edge child)) (children child) (entry child)
      in Node (take common (edge child)) [(hd (edge tail), tail)] None)"

text \<open>
  \<open>insert(node, tokens, off)\<close> makes sure there is a node for \<open>tokens\<close>; the third argument is
  the unread part of \<open>tokens\<close>. The reference it returns is the node at that path, which
  \<open>trie_lookup\<close> reads and \<open>trie_set\<close> writes below.
\<close>

function trie_insert :: "node \<Rightarrow> token list \<Rightarrow> node" where
  "trie_insert n [] = n"
| "trie_insert n (t # ts) =
     (case map_of (children n) t of
        None \<Rightarrow> Node (edge n) (AList.update t (Node (t # ts) [] None) (children n)) (entry n)
      | Some child \<Rightarrow>
          (let common = common_len (edge child) (t # ts);
               child' = (if common < length (edge child) then split_child child common else child)
           in Node (edge n) (AList.update t (trie_insert child' (drop common (t # ts))) (children n))
                (entry n)))"
  by pat_completeness auto

termination
proof (relation "measures [\<lambda>(n, ts). length ts,
    \<lambda>(n, ts). case ts of [] \<Rightarrow> 0 | t # _ \<Rightarrow> if map_of (children n) t = None then 0 else size n]",
    goal_cases)
  case (2 n t ts child common child')
  show ?case
  proof (cases "common = 0")
    case False
    then show ?thesis by simp
  next
    case True
    note sz = size_map_of_children [OF 2(1)]
    show ?thesis
    proof (cases "edge child")
      case Nil
      then show ?thesis using 2 True sz by auto
    next
      case (Cons x xs)
      then have "x \<noteq> t" using True 2(2) by auto
      then show ?thesis using 2 True Cons sz by (auto simp: split_child_def)
    qed
  qed
qed simp

declare trie_insert.simps(2) [simp del]

text \<open>
  \<open>erase(node, tokens, off)\<close>. \<open>None\<close> is the read of \<open>tokens[off]\<close> beyond the end, which the
  code does not exclude by a check; \<open>trie_erase_correct\<close> shows that it cannot happen.
\<close>

fun trie_erase :: "node \<Rightarrow> token list \<Rightarrow> nat \<Rightarrow> node option" where
  "trie_erase (Node e cs en) tokens off =
     (if off = length tokens then Some (Node e cs None)
      else if off > length tokens then None
      else case map_of cs (tokens ! off) of
        None \<Rightarrow> Some (Node e cs en)
      | Some child \<Rightarrow>
          (case trie_erase child tokens (off + length (edge child)) of
             None \<Rightarrow> None
           | Some child' \<Rightarrow>
               if entry child' = None \<and> children child' = [] then
                 Some (Node e (AList.delete (tokens ! off) cs) en)
               else if entry child' = None \<and> length (children child') = 1 then
                 (let next = snd (hd (children child')) in
                  Some (Node e (AList.update (tokens ! off)
                    (Node (edge child' @ edge next) (children next) (entry next)) cs) en))
               else Some (Node e (AList.update (tokens ! off) child' cs) en)))"

declare trie_erase.simps [simp del]

text \<open>The walk of \<open>extract_exact\<close>: the node it ends in, \<open>None\<close> on an early return.\<close>

fun exact_walk :: "node \<Rightarrow> token list \<Rightarrow> nat \<Rightarrow> node option" where
  "exact_walk (Node e cs en) tokens off =
     (if off < length tokens then
        (case map_of cs (tokens ! off) of
           None \<Rightarrow> None
         | Some c \<Rightarrow>
             if off + length (edge c) > length tokens
                \<or> edge c \<noteq> subrange tokens off (off + length (edge c)) then None
             else exact_walk c tokens (off + length (edge c)))
      else Some (Node e cs en))"

declare exact_walk.simps [simp del]

text \<open>The walk of \<open>find\<close>: the last entry passed on the way down.\<close>

fun find_walk :: "node \<Rightarrow> token list \<Rightarrow> nat \<Rightarrow> nat option \<Rightarrow> nat option" where
  "find_walk (Node e cs en) tokens off best =
     (if off < length tokens then
        (case map_of cs (tokens ! off) of
           None \<Rightarrow> best
         | Some c \<Rightarrow>
             if off + length (edge c) > length tokens
                \<or> edge c \<noteq> subrange tokens off (off + length (edge c)) then best
             else find_walk c tokens (off + length (edge c))
                    (if entry c \<noteq> None then entry c else best))
      else best)"

declare find_walk.simps [simp del]

section \<open>Abstraction: the entries by path\<close>

fun trie_lookup :: "node \<Rightarrow> token list \<Rightarrow> nat option" where
  "trie_lookup (Node e cs en) [] = en"
| "trie_lookup (Node e cs en) (t # ts) =
     (case map_of cs t of
        None \<Rightarrow> None
      | Some c \<Rightarrow>
          if prefix (edge c) (t # ts) then trie_lookup c (drop (length (edge c)) (t # ts)) else None)"

text \<open>\<open>node.entry = entry\<close> through the reference that \<open>insert\<close> returned.\<close>

fun trie_set :: "node \<Rightarrow> token list \<Rightarrow> nat \<Rightarrow> node" where
  "trie_set (Node e cs en) [] i = Node e cs (Some i)"
| "trie_set (Node e cs en) (t # ts) i =
     (case map_of cs t of
        None \<Rightarrow> Node e cs en
      | Some c \<Rightarrow>
          if prefix (edge c) (t # ts)
          then Node e (AList.update t (trie_set c (drop (length (edge c)) (t # ts)) i) cs) en
          else Node e cs en)"

text \<open>
  The shape the operations keep: keys are the first tokens of non-empty edges, and below the
  root a node without an entry is a branching point.
\<close>

definition ok_child :: "node \<Rightarrow> bool" where
  "ok_child c \<longleftrightarrow> entry c \<noteq> None \<or> 2 \<le> length (children c)"

fun radix :: "node \<Rightarrow> bool" where
  "radix (Node e cs en) \<longleftrightarrow>
     distinct (map fst cs) \<and>
     (\<forall>kc \<in> set cs. edge (snd kc) \<noteq> [] \<and> hd (edge (snd kc)) = fst kc \<and> ok_child (snd kc) \<and>
        radix (snd kc))"

lemma radix_childD:
  assumes "radix n" "map_of (children n) t = Some c"
  shows "edge c \<noteq> []" "hd (edge c) = t" "ok_child c" "radix c"
  using assms map_of_SomeD [OF assms(2)] by (cases n; fastforce)+

lemma radix_update:
  assumes "radix (Node e cs en)" "edge c \<noteq> []" "hd (edge c) = t" "ok_child c" "radix c"
  shows "radix (Node e' (AList.update t c cs) en')"
  using assms by (simp add: distinct_keys_update) (intro ball_update; simp)

lemma radix_delete: "radix (Node e cs en) \<Longrightarrow> radix (Node e' (AList.delete t cs) en')"
proof -
  assume r: "radix (Node e cs en)"
  then show ?thesis by (simp add: distinct_keys_delete, intro ball_delete) auto
qed

section \<open>Insertion\<close>

lemma trie_lookup_edge [simp]: "trie_lookup (Node e (children c) (entry c)) ts = trie_lookup c ts"
  by (cases c; cases ts) simp_all

lemma trie_lookup_leaf [simp]: "trie_lookup (Node e [] en) ts = (if ts = [] then en else None)"
  by (cases ts) simp_all

text \<open>\<open>put\<close> writes through the reference returned by \<open>insert\<close>.\<close>

definition trie_put :: "node \<Rightarrow> token list \<Rightarrow> nat \<Rightarrow> node" where
  "trie_put n ts i = trie_set (trie_insert n ts) ts i"

definition child_lookup :: "node \<Rightarrow> token list \<Rightarrow> nat option" where
  "child_lookup c ts =
     (if prefix (edge c) ts then trie_lookup c (drop (length (edge c)) ts) else None)"

lemma trie_lookup_child:
  "trie_lookup n (t # ts) =
     (case map_of (children n) t of None \<Rightarrow> None | Some c \<Rightarrow> child_lookup c (t # ts))"
  by (cases n) (auto simp: child_lookup_def split: option.split)

lemma trie_lookup_hd:
  "ts \<noteq> [] \<Longrightarrow> trie_lookup n ts =
     (case map_of (children n) (hd ts) of None \<Rightarrow> None | Some c \<Rightarrow> child_lookup c ts)"
  by (cases ts) (auto simp: trie_lookup_child)

lemma trie_lookup_Nil [simp]: "trie_lookup n [] = entry n"
  by (cases n) simp

lemma child_lookup_split:
  assumes "k < length (edge c)"
  shows "child_lookup (split_child c k) ts = child_lookup c ts"
proof -
  let ?a = "take k (edge c)" and ?b = "drop k (edge c)"
  have b: "?b \<noteq> []" using assms by simp
  have e: "prefix (edge c) ts \<longleftrightarrow> prefix ?a ts \<and> prefix ?b (drop k ts)"
    using assms by (auto simp: prefix_def) (metis append_assoc append_take_drop_id append_eq_conv_conj
        length_take min.absorb4)+
  show ?thesis
  proof (cases "prefix ?a ts")
    case False
    then show ?thesis using e by (simp add: child_lookup_def split_child_def Let_def)
  next
    case True
    show ?thesis
    proof (cases "drop k ts")
      case Nil
      then show ?thesis using True b e assms
        by (simp add: child_lookup_def split_child_def Let_def)
    next
      case (Cons x xs)
      obtain y ys where y: "?b = y # ys" using b by (cases ?b) auto
      have "drop (length ys) xs = drop (length (edge c)) ts"
      proof -
        have "length (edge c) = Suc (length ys) + k" using arg_cong [OF y, of length] assms by simp
        then show ?thesis using arg_cong [OF Cons, of "drop (Suc (length ys))"]
          by (simp add: add.commute)
      qed
      then show ?thesis using True e y Cons assms
        by (auto simp: child_lookup_def split_child_def Let_def)
    qed
  qed
qed

lemma edge_trie_insert [simp]: "edge (trie_insert n ts) = edge n"
  by (cases ts) (simp_all add: trie_insert.simps Let_def split: option.split)

lemma edge_trie_put [simp]: "edge (trie_put n ts i) = edge n"
proof -
  have "edge (trie_set m ts i) = edge m" for m
    by (cases m; cases ts) (auto split: option.split)
  then show ?thesis by (simp add: trie_put_def)
qed

lemma radix_split:
  assumes "radix c" "ok_child c" "k < length (edge c)"
  shows "radix (split_child c k)"
proof -
  have "radix (Node (drop k (edge c)) (children c) (entry c))"
    using assms(1) by (cases c) simp
  then show ?thesis
    using assms by (simp add: split_child_def Let_def ok_child_def)
qed

lemma common_len_prefix: "common_len xs ys = length xs \<Longrightarrow> prefix xs ys"
  by (induction xs ys rule: common_len.induct) (auto split: if_splits)

lemma common_len_append: "xs = ys @ zs \<Longrightarrow> common_len ys xs = length ys"
  by (induction ys arbitrary: xs) auto

lemma take_common_len: "take (common_len xs ys) xs = take (common_len xs ys) ys"
  by (induction xs ys rule: common_len.induct) auto

lemma common_len_diverge:
  "common_len xs ys < length xs \<Longrightarrow> common_len xs ys < length ys \<Longrightarrow>
     xs ! common_len xs ys \<noteq> ys ! common_len xs ys"
  by (induction xs ys rule: common_len.induct) (auto split: if_splits)

lemma trie_put_Nil [simp]: "trie_put n [] i = Node (edge n) (children n) (Some i)"
  by (cases n) (simp add: trie_put_def)

text \<open>One level of \<open>put\<close>.\<close>

lemma trie_put_None:
  "map_of (children n) t = None \<Longrightarrow>
   trie_put n (t # ts) i =
     Node (edge n) (AList.update t (Node (t # ts) [] (Some i)) (children n)) (entry n)"
  by (cases n) (simp add: trie_put_def trie_insert.simps AList.update_triv)

lemma trie_put_Some:
  fixes n t ts
  assumes "map_of (children n) t = Some c"
  defines "k \<equiv> common_len (edge c) (t # ts)"
  defines "c' \<equiv> (if k < length (edge c) then split_child c k else c)"
  shows "trie_put n (t # ts) i =
     Node (edge n) (AList.update t (trie_put c' (drop k (t # ts)) i) (children n)) (entry n)"
    and "length (edge c') = k" "prefix (edge c') (t # ts)"
proof -
  have le: "k \<le> length (edge c)" using common_len_le k_def by simp
  show len: "length (edge c') = k" using le by (auto simp: c'_def split_child_def Let_def)
  show pre: "prefix (edge c') (t # ts)"
    using le take_common_len [of "edge c" "t # ts"] common_len_prefix [of "edge c" "t # ts"]
    by (auto simp: c'_def split_child_def Let_def k_def [symmetric] take_is_prefix)
  have ins: "trie_insert n (t # ts) =
      Node (edge n) (AList.update t (trie_insert c' (drop k (t # ts))) (children n)) (entry n)"
    using assms(1) by (simp add: trie_insert.simps k_def c'_def Let_def)
  have "AList.update t x (AList.update t y (children n)) = AList.update t x (children n)" for x y
    by (induction "children n") (auto simp: assms)
  then show "trie_put n (t # ts) i =
     Node (edge n) (AList.update t (trie_put c' (drop k (t # ts)) i) (children n)) (entry n)"
    using pre by (simp add: trie_put_def ins len)
qed

lemma child_lookup_put:
  assumes "prefix (edge c) us'" "\<And>vs. trie_lookup (trie_put c (drop (length (edge c)) us') i) vs =
      (if vs = drop (length (edge c)) us' then Some i else trie_lookup c vs)"
  shows "child_lookup (trie_put c (drop (length (edge c)) us') i) us =
      (if us = us' then Some i else child_lookup c us)"
  using assms by (auto simp: child_lookup_def prefix_def)

lemma trie_lookup_put:
  "radix n \<Longrightarrow> trie_lookup (trie_put n ts i) us = (if us = ts then Some i else trie_lookup n us)"
proof (induction n ts arbitrary: us rule: trie_insert.induct)
  case (1 n)
  then show ?case by (cases us) (auto simp: trie_lookup_child)
next
  case (2 n t ts)
  show ?case
  proof (cases "map_of (children n) t")
    case None
    then show ?thesis
      by (cases us) (auto simp: trie_put_None trie_lookup_child child_lookup_def prefix_def)
  next
    case (Some c)
    let ?k = "common_len (edge c) (t # ts)"
    let ?c = "if ?k < length (edge c) then split_child c ?k else c"
    note put = trie_put_Some [OF Some, of ts]
    note c = radix_childD [OF 2(2) Some]
    have "radix ?c" using c radix_split by auto
    then have "child_lookup (trie_put ?c (drop ?k (t # ts)) i) vs =
        (if vs = t # ts then Some i else child_lookup ?c vs)" for vs
      using child_lookup_put [OF put(3)] 2(1) [OF Some refl refl] by (simp only: put(2))
    moreover have "child_lookup ?c vs = child_lookup c vs" for vs
      by (simp add: child_lookup_split)
    ultimately show ?thesis
      by (cases us) (auto simp: put(1) trie_lookup_child Some)
  qed
qed

lemma trie_lookup_insert: "radix n \<Longrightarrow> trie_lookup (trie_insert n ts) us = trie_lookup n us"
proof (induction n ts arbitrary: us rule: trie_insert.induct)
  case (2 n t ts)
  show ?case
  proof (cases "map_of (children n) t")
    case None
    then show ?thesis
      by (cases us) (auto simp: trie_insert.simps trie_lookup_child child_lookup_def prefix_def)
  next
    case (Some c)
    let ?k = "common_len (edge c) (t # ts)"
    let ?c = "if ?k < length (edge c) then split_child c ?k else c"
    note c = radix_childD [OF 2(2) Some]
    have "radix ?c" using c radix_split by auto
    then have "child_lookup (trie_insert ?c (drop ?k (t # ts))) vs = child_lookup c vs" for vs
      using 2(1) [OF Some refl refl] child_lookup_split [of ?k c vs] by (auto simp: child_lookup_def)
    then show ?thesis
      using Some by (cases us) (auto simp: trie_insert.simps Let_def trie_lookup_child)
  qed
qed simp

lemma trie_insert_present: "trie_lookup n ts \<noteq> None \<Longrightarrow> trie_insert n ts = n"
proof (induction n ts rule: trie_insert.induct)
  case (2 n t ts)
  then obtain c where c: "map_of (children n) t = Some c" "child_lookup c (t # ts) \<noteq> None"
    by (auto simp: trie_lookup_child split: option.splits)
  then have p: "prefix (edge c) (t # ts)" by (auto simp: child_lookup_def split: if_splits)
  then have k: "common_len (edge c) (t # ts) = length (edge c)"
    by (auto simp: prefix_def common_len_append)
  have "trie_insert c (drop (length (edge c)) (t # ts)) = c"
    using 2(1) [OF c(1) refl refl] c(2) p unfolding k by (simp add: child_lookup_def)
  then show ?case using c(1) by (cases n) (simp add: trie_insert.simps k AList.update_triv)
qed simp

lemma length_update: "length (AList.update k v xs) \<ge> length xs"
  by (induction xs) auto

lemma length_update_new: "map_of xs k = None \<Longrightarrow> length (AList.update k v xs) = Suc (length xs)"
  by (induction xs) (auto split: if_splits)

lemma ok_child_put:
  assumes "ok_child n \<or> ts = [] \<or> children n \<noteq> [] \<and> map_of (children n) (hd ts) = None"
  shows "ok_child (trie_put n ts i)"
proof (cases ts)
  case Nil
  then show ?thesis by (simp add: ok_child_def)
next
  case (Cons t ts')
  show ?thesis
  proof (cases "map_of (children n) t")
    case None
    then show ?thesis using assms Cons
      by (cases "children n")
        (auto simp: ok_child_def trie_put_None length_update_new Suc_le_eq)
  next
    case (Some c)
    let ?v = "trie_put (if common_len (edge c) (t # ts') < length (edge c)
      then split_child c (common_len (edge c) (t # ts')) else c)
      (drop (common_len (edge c) (t # ts')) (t # ts')) i"
    show ?thesis using assms Cons Some length_update [of "children n" t ?v]
      by (auto simp: ok_child_def trie_put_Some(1) [OF Some])
  qed
qed

lemma radix_put: "radix n \<Longrightarrow> radix (trie_put n ts i)"
proof (induction n ts rule: trie_insert.induct)
  case (1 n)
  then show ?case by (cases n) simp
next
  case (2 n t ts)
  obtain e cs en where n: "n = Node e cs en" by (cases n)
  show ?case
  proof (cases "map_of (children n) t")
    case None
    have "radix (Node e (AList.update t (Node (t # ts) [] (Some i)) cs) en)"
      by (rule radix_update) (use 2 n in \<open>auto simp: ok_child_def\<close>)
    then show ?thesis by (simp add: trie_put_None [OF None]) (simp add: n)
  next
    case (Some c)
    let ?k = "common_len (edge c) (t # ts)"
    let ?c = "if ?k < length (edge c) then split_child c ?k else c"
    let ?r = "drop ?k (t # ts)"
    note put = trie_put_Some [OF Some, of ts]
    note c = radix_childD [OF 2(2) Some]
    have k: "?k \<noteq> 0" using c(1,2) by (cases "edge c") auto
    have rc: "radix ?c" using c radix_split by auto
    have ok: "ok_child ?c \<or> ?r = [] \<or> children ?c \<noteq> [] \<and> map_of (children ?c) (hd ?r) = None"
    proof (cases "?k < length (edge c) \<and> ?k < length (t # ts)")
      case True
      then have "edge c ! ?k \<noteq> (t # ts) ! ?k" by (intro common_len_diverge) auto
      then show ?thesis using True
        by (auto simp: split_child_def Let_def hd_drop_conv_nth)
    next
      case False
      then show ?thesis using c(3) common_len_le [of "edge c" "t # ts"] by auto
    qed
    have "edge ?c \<noteq> []" using put(2) k by (metis list.size(3))
    moreover have "hd (edge ?c) = t" using put(3) calculation by (auto simp: prefix_def split: if_splits)
        (metis hd_append list.sel(1))+
    ultimately have "radix (Node e (AList.update t (trie_put ?c ?r i) cs) en)"
      by (intro radix_update) (use 2(1) [OF Some refl refl rc] 2(2) n ok_child_put [OF ok] in auto)
    then show ?thesis unfolding put(1) by (simp add: n)
  qed
qed

section \<open>Removal\<close>

lemma child_lookup_merge:
  assumes "edge next \<noteq> []" "k = hd (edge next)"
  shows "child_lookup (Node (e @ edge next) (children next) (entry next)) us =
     child_lookup (Node e [(k, next)] None) us"
proof -
  let ?m = "Node (e @ edge next) (children next) (entry next)"
  have "split_child ?m (length e) = Node e [(k, next)] None"
    using assms by (cases "next") (simp add: split_child_def Let_def)
  then show ?thesis using child_lookup_split [of "length e" ?m us] assms(1) by simp
qed

lemma drop_Cons_nth: "off < length xs \<Longrightarrow> drop off xs = xs ! off # drop (Suc off) xs"
  by (rule Cons_nth_drop_Suc [symmetric])

text \<open>What replaces \<open>child\<close> after the recursive call returned \<open>child'\<close>.\<close>

definition fix_child :: "(token \<times> node) list \<Rightarrow> token \<Rightarrow> node \<Rightarrow> (token \<times> node) list" where
  "fix_child cs t child' =
     (if entry child' = None \<and> children child' = [] then AList.delete t cs
      else if entry child' = None \<and> length (children child') = 1 then
        (let next = snd (hd (children child')) in
         AList.update t (Node (edge child' @ edge next) (children next) (entry next)) cs)
      else AList.update t child' cs)"

lemma trie_erase_child:
  assumes "off < length tokens" "map_of cs (tokens ! off) = Some c"
    and "trie_erase c tokens (off + length (edge c)) = Some c'"
  shows "trie_erase (Node e cs en) tokens off = Some (Node e (fix_child cs (tokens ! off) c') en)"
  using assms by (subst trie_erase.simps) (simp add: fix_child_def Let_def)

lemma fix_child_correct:
  assumes r: "radix (Node e cs en)" and c': "radix c'" "edge c' \<noteq> []" "hd (edge c') = t"
  shows "radix (Node e (fix_child cs t c') en)"
    and "trie_lookup (Node e (fix_child cs t c') en) us =
      (case us of u # vs \<Rightarrow> if u = t then child_lookup c' us else trie_lookup (Node e cs en) us
       | [] \<Rightarrow> en)"
proof -
  consider (gone) "entry c' = None" "children c' = []"
    | (merge) k nx where "entry c' = None" "children c' = [(k, nx)]"
    | (keep) "ok_child c'" "entry c' \<noteq> None \<or> children c' \<noteq> [] \<and> length (children c') \<noteq> 1"
    by (cases "children c'"; cases "tl (children c')"; cases "entry c'")
      (auto simp: ok_child_def)
  then have "radix (Node e (fix_child cs t c') en) \<and> trie_lookup (Node e (fix_child cs t c') en) us =
      (case us of u # vs \<Rightarrow> if u = t then child_lookup c' us else trie_lookup (Node e cs en) us
       | [] \<Rightarrow> en)"
  proof cases
    case gone
    then have "child_lookup c' us = None" for us
      by (cases c') (simp add: child_lookup_def)
    with gone r show ?thesis
      by (auto simp: fix_child_def radix_delete trie_lookup_child simp del: radix.simps split: list.split)
  next
    case merge
    then have nx: "edge nx \<noteq> []" "hd (edge nx) = k" "ok_child nx" "radix nx"
      using radix_childD [OF c'(1), of k nx] by auto
    let ?m = "Node (edge c' @ edge nx) (children nx) (entry nx)"
    have "radix ?m" using nx(4) by (cases nx) simp
    moreover have "ok_child ?m" using nx(3) by (simp add: ok_child_def)
    ultimately have "radix (Node e (AList.update t ?m cs) en)"
      using c' by (intro radix_update [OF r]) auto
    moreover have "child_lookup ?m us = child_lookup c' us" for us
      using child_lookup_merge [OF nx(1) nx(2) [symmetric], of "edge c'" us] merge by (cases c') simp
    ultimately show ?thesis using merge
      by (auto simp: fix_child_def trie_lookup_child simp del: radix.simps split: list.split)
  next
    case keep
    then have "radix (Node e (AList.update t c' cs) en)"
      using c' by (intro radix_update [OF r]) auto
    moreover have "fix_child cs t c' = AList.update t c' cs"
      using keep by (auto simp: fix_child_def)
    ultimately show ?thesis
      by (auto simp: trie_lookup_child simp del: radix.simps split: list.split)
  qed
  then show "radix (Node e (fix_child cs t c') en)"
    "trie_lookup (Node e (fix_child cs t c') en) us =
      (case us of u # vs \<Rightarrow> if u = t then child_lookup c' us else trie_lookup (Node e cs en) us
       | [] \<Rightarrow> en)" by auto
qed

lemma trie_erase_correct:
  assumes "radix n" "off \<le> length tokens" "trie_lookup n (drop off tokens) \<noteq> None"
  shows "\<exists>n'. trie_erase n tokens off = Some n' \<and> radix n' \<and> edge n' = edge n \<and>
     (\<forall>us. trie_lookup n' us = (if us = drop off tokens then None else trie_lookup n us))"
  using assms
proof (induction n tokens off rule: trie_erase.induct)
  case (1 e cs en tokens off)
  show ?case
  proof (cases "off = length tokens")
    case True
    then have "trie_erase (Node e cs en) tokens off = Some (Node e cs None)"
      by (simp add: trie_erase.simps)
    then show ?thesis using 1(2) True
      by (auto simp: trie_lookup_child split: list.split) (metis list.exhaust trie_lookup_Nil node.sel(3) trie_lookup_child node.sel(2))
  next
    case False
    then have off: "off < length tokens" using 1(3) by simp
    let ?t = "tokens ! off" and ?d = "drop off tokens"
    have d: "?d = ?t # drop (Suc off) tokens" by (rule drop_Cons_nth [OF off])
    from 1(4) obtain c where c: "map_of cs ?t = Some c" "child_lookup c ?d \<noteq> None"
      unfolding d trie_lookup_child by (auto split: option.splits)
    then have pre: "prefix (edge c) ?d" "trie_lookup c (drop (off + length (edge c)) tokens) \<noteq> None"
      by (auto simp: child_lookup_def add.commute split: if_splits)
    have le: "off + length (edge c) \<le> length tokens"
      using prefix_length_le [OF pre(1)] off by simp
    note rc = radix_childD [OF 1(2), of ?t c, simplified, OF c(1)]
    obtain c' where c': "trie_erase c tokens (off + length (edge c)) = Some c'" "radix c'"
      "edge c' = edge c"
      "\<And>us. trie_lookup c' us = (if us = drop (off + length (edge c)) tokens then None else trie_lookup c us)"
      using 1(1) [OF False _ c(1) rc(4) le pre(2)] off by auto
    have look: "child_lookup c' us = (if us = ?d then None else child_lookup c us)" for us
      using pre(1) by (auto simp: child_lookup_def c'(3,4) prefix_def) 
        (metis append_eq_conv_conj drop_drop add.commute)+
    note fx = fix_child_correct [OF 1(2) c'(2), of ?t]
    show ?thesis
      using trie_erase_child [OF off c(1) c'(1), of e en] fx rc c'(3) look c(1)
      by (auto simp: trie_lookup_child d simp del: radix.simps split: list.split)
  qed
qed

section \<open>The walks\<close>

lemma subrange_prefix:
  assumes "off \<le> length tokens"
  shows "off + length e > length tokens \<or> e \<noteq> subrange tokens off (off + length e) \<longleftrightarrow>
     \<not> prefix e (drop off tokens)"
proof (cases "off + length e \<le> length tokens")
  case True
  then show ?thesis by (auto simp: prefix_take_iff subrange_def)
next
  case False
  then have "length (take (length e) (drop off tokens)) \<noteq> length e" using assms by auto
  then show ?thesis using False by (auto simp: prefix_take_iff)
qed

lemma exact_walk_lookup:
  "off \<le> length tokens \<Longrightarrow>
   Option.bind (exact_walk n tokens off) entry = trie_lookup n (drop off tokens)"
proof (induction n tokens off rule: exact_walk.induct)
  case (1 e cs en tokens off)
  show ?case
  proof (cases "off < length tokens")
    case False
    then show ?thesis using 1(2) by (simp add: exact_walk.simps)
  next
    case True
    note d = drop_Cons_nth [OF True]
    show ?thesis
    proof (cases "map_of cs (tokens ! off)")
      case None
      then show ?thesis using True by (simp add: exact_walk.simps d)
    next
      case (Some c)
      show ?thesis
      proof (cases "prefix (edge c) (drop off tokens)")
        case False
        then have "exact_walk (Node e cs en) tokens off = None"
          using subrange_prefix [of off tokens "edge c"] True Some
          by (subst exact_walk.simps) auto
        then show ?thesis using False Some by (simp add: d)
      next
        case pre: True
        then have "exact_walk (Node e cs en) tokens off = exact_walk c tokens (off + length (edge c))"
          using subrange_prefix [of off tokens "edge c"] True Some
          by (subst exact_walk.simps) auto
        moreover have "off + length (edge c) \<le> length tokens"
          using prefix_length_le [OF pre] True by simp
        moreover have "trie_lookup (Node e cs en) (drop off tokens) =
            trie_lookup c (drop (length (edge c)) (drop off tokens))"
          using pre Some unfolding d by simp
        ultimately show ?thesis
          using 1(1) [OF True Some] subrange_prefix [of off tokens "edge c"] pre True
          by (simp add: add.commute)
      qed
    qed
  qed
qed

text \<open>
  \<open>r\<close> is the entry of the longest non-empty prefix of \<open>ts\<close> that has one, or the default.
\<close>

definition longest_hit :: "(token list \<Rightarrow> nat option) \<Rightarrow> token list \<Rightarrow> nat option \<Rightarrow> nat option \<Rightarrow> bool" where
  "longest_hit look ts best r \<longleftrightarrow>
     (\<forall>k. 1 \<le> k \<and> k \<le> length ts \<longrightarrow> look (take k ts) = None) \<and> r = best
     \<or> (\<exists>k. 1 \<le> k \<and> k \<le> length ts \<and> look (take k ts) = r \<and> r \<noteq> None \<and>
          (\<forall>j. k < j \<and> j \<le> length ts \<longrightarrow> look (take j ts) = None))"

lemma longest_hit_none:
  "(\<And>k. 1 \<le> k \<Longrightarrow> k \<le> length ts \<Longrightarrow> look (take k ts) = None) \<Longrightarrow> longest_hit look ts best best"
  by (auto simp: longest_hit_def)

lemma longest_hit_child:
  assumes "prefix (edge c) ts" "edge c \<noteq> []" "map_of (children n) (hd ts) = Some c"
    and "longest_hit (trie_lookup c) (drop (length (edge c)) ts)
           (if entry c \<noteq> None then entry c else best) r"
  shows "longest_hit (trie_lookup n) ts best r"
proof -
  let ?m = "length (edge c)"
  have m: "1 \<le> ?m" "?m \<le> length ts" using assms(1,2) prefix_length_le
    by (auto simp: Suc_le_eq)
  have low: "trie_lookup n (take k ts) = None" if "1 \<le> k" "k < ?m" for k
  proof -
    have "\<not> prefix (edge c) (take k ts)" using that prefix_length_le by fastforce
    moreover have "take k ts \<noteq> []" "hd (take k ts) = hd ts" using that m by auto
    ultimately show ?thesis using assms(3) by (simp add: trie_lookup_hd child_lookup_def)
  qed
  have high: "trie_lookup n (take k ts) = trie_lookup c (take (k - ?m) (drop ?m ts))"
    if "?m \<le> k" for k
  proof -
    have "prefix (edge c) (take k ts)"
      using assms(1) that by (simp add: prefix_take_iff)
    moreover have "take k ts \<noteq> []" "hd (take k ts) = hd ts" using that m by auto
    ultimately show ?thesis using assms(3)
      by (simp add: trie_lookup_hd child_lookup_def drop_take)
  qed
  have at_m: "trie_lookup n (take ?m ts) = entry c" using high [of ?m] by simp
  show ?thesis
    using assms(4) [unfolded longest_hit_def]
  proof (elim disjE exE conjE)
    assume none: "\<forall>k. 1 \<le> k \<and> k \<le> length (drop ?m ts) \<longrightarrow> trie_lookup c (take k (drop ?m ts)) = None"
      and r: "r = (if entry c \<noteq> None then entry c else best)"
    have above: "trie_lookup n (take j ts) = None" if "?m < j" "j \<le> length ts" for j
    proof -
      have "1 \<le> j - ?m \<and> j - ?m \<le> length (drop ?m ts)" using that by auto
      then have "trie_lookup c (take (j - ?m) (drop ?m ts)) = None" using none by blast
      then show ?thesis using high [of j] that by simp
    qed
    show ?thesis
    proof (cases "entry c")
      case None
      then have "trie_lookup n (take k ts) = None" if "1 \<le> k" "k \<le> length ts" for k
        using low above at_m that by (cases k ?m rule: linorder_cases) auto
      then show ?thesis using r None by (simp add: longest_hit_none)
    next
      case (Some i)
      then show ?thesis using r at_m above m
        unfolding longest_hit_def by (intro disjI2 exI [of _ ?m]) auto
    qed
  next
    fix k
    assume k: "1 \<le> k" "k \<le> length (drop ?m ts)" "trie_lookup c (take k (drop ?m ts)) = r" "r \<noteq> None"
      and j: "\<forall>j. k < j \<and> j \<le> length (drop ?m ts) \<longrightarrow> trie_lookup c (take j (drop ?m ts)) = None"
    show ?thesis
      unfolding longest_hit_def
    proof (intro disjI2 exI [of _ "?m + k"] conjI allI impI)
      fix j' assume "?m + k < j' \<and> j' \<le> length ts"
      then show "trie_lookup n (take j' ts) = None"
        using high [of j'] j by (metis add_leD1 diff_le_mono le_add_diff_inverse length_drop less_imp_le
            nat_add_left_cancel_less)
    qed (use k m high [of "?m + k"] in auto)
  qed
qed

lemma find_walk_longest:
  "radix n \<Longrightarrow> off \<le> length tokens \<Longrightarrow>
   longest_hit (trie_lookup n) (drop off tokens) best (find_walk n tokens off best)"
proof (induction n tokens off best rule: find_walk.induct)
  case (1 e cs en tokens off best)
  show ?case
  proof (cases "off < length tokens")
    case False
    then show ?thesis by (auto simp: find_walk.simps intro: longest_hit_none)
  next
    case True
    note d = drop_Cons_nth [OF True]
    have none: "find_walk (Node e cs en) tokens off best = best \<Longrightarrow>
        (\<forall>c. map_of cs (tokens ! off) = Some c \<longrightarrow> \<not> prefix (edge c) (drop off tokens)) \<Longrightarrow> ?thesis"
    proof -
      assume fw: "find_walk (Node e cs en) tokens off best = best"
        and np: "\<forall>c. map_of cs (tokens ! off) = Some c \<longrightarrow> \<not> prefix (edge c) (drop off tokens)"
      have "trie_lookup (Node e cs en) (take k (drop off tokens)) = None" if "1 \<le> k" for k
        using np that take_is_prefix [of k "drop off tokens"] True
        by (auto simp: trie_lookup_hd child_lookup_def hd_drop_conv_nth split: option.split
            dest: prefix_order.trans)
      then show ?thesis using fw by (simp add: longest_hit_none)
    qed
    show ?thesis
    proof (cases "map_of cs (tokens ! off)")
      case None
      show ?thesis by (rule none) (use None True in \<open>simp_all add: find_walk.simps\<close>)
    next
      case (Some c)
      show ?thesis
      proof (cases "prefix (edge c) (drop off tokens)")
        case False
        show ?thesis
          by (rule none) (use False Some True subrange_prefix [of off tokens "edge c"] in
              \<open>auto simp: find_walk.simps\<close>)
      next
        case pre: True
        note rc = radix_childD [OF 1(2), of "tokens ! off" c, simplified, OF Some]
        have le: "off + length (edge c) \<le> length tokens"
          using prefix_length_le [OF pre] True by simp
        have "find_walk (Node e cs en) tokens off best =
            find_walk c tokens (off + length (edge c)) (if entry c \<noteq> None then entry c else best)"
          using subrange_prefix [of off tokens "edge c"] True Some pre
          by (subst find_walk.simps) auto
        moreover have "longest_hit (trie_lookup c) (drop (off + length (edge c)) tokens)
            (if entry c \<noteq> None then entry c else best)
            (find_walk c tokens (off + length (edge c)) (if entry c \<noteq> None then entry c else best))"
          using 1(1) [OF True Some _ rc(4) le] subrange_prefix [of off tokens "edge c"] True pre by simp
        ultimately have "longest_hit (trie_lookup c) (drop (length (edge c)) (drop off tokens))
            (if entry c \<noteq> None then entry c else best) (find_walk (Node e cs en) tokens off best)"
          by (simp add: add.commute)
        moreover have "map_of (children (Node e cs en)) (hd (drop off tokens)) = Some c"
          using Some d by simp
        ultimately show ?thesis by (intro longest_hit_child [OF pre rc(1)])
      qed
    qed
  qed
qed

end
