(* ===== verification/PrefixIndex.thy ===== *)
theory PrefixIndex
  imports RadixTrie
begin

text \<open>
  \<open>PrefixCache\<close> (\<open>include/rwkv/inference/prefix_cache.hpp\<close>): radix tries per identity plus one
  LRU list over all snapshots. Entries are shared objects: the trie nodes, the LRU list and
  the \<open>position\<close> iterators all refer to the same \<open>Entry\<close>, so the model keeps a heap of entries
  and the nodes and the list hold entry numbers. The reference is an LRU-ordered list of
  (identity, tokens, value) triples.
\<close>

section \<open>State\<close>

record 'v cache_entry =
  e_identity :: string
  e_tokens :: "token list"
  e_value :: 'v

text \<open>
  \<open>pc_entries\<close> is the heap of live \<open>Entry\<close> objects and \<open>pc_next\<close> the next fresh address. An
  iterator into \<open>order_\<close> is the entry number, which occurs there once.
\<close>

record 'v prefix_cache =
  pc_capacity :: nat
  pc_roots :: "(string \<times> node) list"
  pc_order :: "nat list"
  pc_entries :: "nat \<Rightarrow> 'v cache_entry option"
  pc_next :: nat

definition prefix_cache :: "nat \<Rightarrow> 'v prefix_cache" where
  "prefix_cache capacity =
     \<lparr>pc_capacity = capacity, pc_roots = [], pc_order = [], pc_entries = (\<lambda>_. None), pc_next = 0\<rparr>"

definition empty_node :: node where
  "empty_node = Node [] [] None"

section \<open>Operations\<close>

text \<open>
  An operation returns \<open>None\<close> where the code would use an invalid iterator or index; the
  correctness lemmas exclude it.
\<close>

definition pc_extract :: "'v prefix_cache \<Rightarrow> nat \<Rightarrow> ('v \<times> 'v prefix_cache) option" where
  "pc_extract c position =
     (case pc_entries c position of None \<Rightarrow> None
      | Some e \<Rightarrow>
        (case map_of (pc_roots c) (e_identity e) of None \<Rightarrow> None
         | Some root \<Rightarrow>
           (case trie_erase root (e_tokens e) 0 of None \<Rightarrow> None
            | Some root' \<Rightarrow>
                Some (e_value e,
                  c\<lparr>pc_roots := (if children root' = []
                                 then AList.delete (e_identity e) (pc_roots c)
                                 else AList.update (e_identity e) root' (pc_roots c)),
                    pc_order := remove1 position (pc_order c),
                    pc_entries := (pc_entries c)(position := None)\<rparr>))))"

definition pc_size :: "'v prefix_cache \<Rightarrow> nat" where
  "pc_size c = length (pc_order c)"

definition pc_identity_at :: "'v prefix_cache \<Rightarrow> nat \<Rightarrow> string \<Rightarrow> bool" where
  "pc_identity_at c i identity \<longleftrightarrow>
     (case pc_entries c i of None \<Rightarrow> False | Some e \<Rightarrow> e_identity e = identity)"

definition pc_size_of :: "'v prefix_cache \<Rightarrow> string \<Rightarrow> nat" where
  "pc_size_of c identity = length (filter (\<lambda>i. pc_identity_at c i identity) (pc_order c))"

definition pc_extract_lru :: "'v prefix_cache \<Rightarrow> ('v option \<times> 'v prefix_cache) option" where
  "pc_extract_lru c =
     (if pc_order c = [] then Some (None, c)
      else map_option (\<lambda>(v, c'). (Some v, c')) (pc_extract c (last (pc_order c))))"

definition pc_extract_exact ::
    "'v prefix_cache \<Rightarrow> string \<Rightarrow> token list \<Rightarrow> ('v option \<times> 'v prefix_cache) option" where
  "pc_extract_exact c identity tokens =
     (case map_of (pc_roots c) identity of None \<Rightarrow> Some (None, c)
      | Some root \<Rightarrow>
        (case exact_walk root tokens 0 of None \<Rightarrow> Some (None, c)
         | Some n \<Rightarrow>
           (case entry n of None \<Rightarrow> Some (None, c)
            | Some i \<Rightarrow> map_option (\<lambda>(v, c'). (Some v, c')) (pc_extract c i))))"

text \<open>The loop of \<open>erase_identity\<close> over the positions; the values go to \<open>recycle\<close> in order.\<close>

fun pc_erase_loop ::
    "nat list \<Rightarrow> string \<Rightarrow> 'v prefix_cache \<Rightarrow> ('v list \<times> 'v prefix_cache) option" where
  "pc_erase_loop [] identity c = Some ([], c)"
| "pc_erase_loop (current # rest) identity c =
     (if pc_identity_at c current identity then
        (case pc_extract c current of None \<Rightarrow> None
         | Some (v, c') \<Rightarrow>
             map_option (\<lambda>(vs, c''). (v # vs, c'')) (pc_erase_loop rest identity c'))
      else pc_erase_loop rest identity c)"

definition pc_erase_identity ::
    "'v prefix_cache \<Rightarrow> string \<Rightarrow> ('v list \<times> 'v prefix_cache) option" where
  "pc_erase_identity c identity = pc_erase_loop (pc_order c) identity c"

definition pc_clear :: "'v prefix_cache \<Rightarrow> 'v prefix_cache" where
  "pc_clear c = c\<lparr>pc_roots := [], pc_order := [], pc_entries := (\<lambda>_. None)\<rparr>"

text \<open>\<open>find\<close> returns the snapshot and the number of tokens it covers.\<close>

definition pc_find ::
    "'v prefix_cache \<Rightarrow> string \<Rightarrow> token list \<Rightarrow> (('v \<times> nat) option \<times> 'v prefix_cache) option" where
  "pc_find c identity tokens =
     (case map_of (pc_roots c) identity of None \<Rightarrow> Some (None, c)
      | Some root \<Rightarrow>
        (case find_walk root tokens 0 None of None \<Rightarrow> Some (None, c)
         | Some i \<Rightarrow>
           (case pc_entries c i of None \<Rightarrow> None
            | Some e \<Rightarrow>
                Some (Some (e_value e, length (e_tokens e)),
                  c\<lparr>pc_order := i # remove1 i (pc_order c)\<rparr>))))"

lemma pc_extract_order:
  "pc_extract c i = Some (v, c') \<Longrightarrow>
     pc_order c' = remove1 i (pc_order c) \<and> pc_capacity c' = pc_capacity c \<and> pc_next c' = pc_next c"
  by (auto simp: pc_extract_def split: option.splits)

text \<open>\<open>while (order_.size() > capacity_) extract_lru();\<close>\<close>

function pc_evict :: "'v prefix_cache \<Rightarrow> 'v prefix_cache option" where
  "pc_evict c =
     (if length (pc_order c) > pc_capacity c then
        (case pc_extract_lru c of None \<Rightarrow> None | Some (_, c') \<Rightarrow> pc_evict c')
      else Some c)"
  by pat_completeness auto
termination
proof (relation "measure (\<lambda>c. length (pc_order c))", goal_cases)
  case (2 c r v c')
  then have "pc_order c \<noteq> []" by auto
  with 2 have "pc_order c' = remove1 (last (pc_order c)) (pc_order c)"
    by (auto simp: pc_extract_lru_def dest!: pc_extract_order)
  with \<open>pc_order c \<noteq> []\<close> show ?case by (simp add: length_remove1)
qed simp

declare pc_evict.simps [simp del]

definition pc_put ::
    "'v prefix_cache \<Rightarrow> string \<Rightarrow> token list \<Rightarrow> 'v \<Rightarrow> 'v prefix_cache option" where
  "pc_put c identity tokens value =
     (if pc_capacity c = 0 \<or> tokens = [] then Some c
      else
        let root = (case map_of (pc_roots c) identity of None \<Rightarrow> empty_node | Some r \<Rightarrow> r);
            root' = trie_insert root tokens
        in (case trie_lookup root' tokens of
             Some i \<Rightarrow>
               Some (c\<lparr>pc_roots := AList.update identity root' (pc_roots c),
                       pc_entries := (pc_entries c)(i := map_option (\<lambda>e. e\<lparr>e_value := value\<rparr>) (pc_entries c i)),
                       pc_order := i # remove1 i (pc_order c)\<rparr>)
           | None \<Rightarrow>
               let i = pc_next c;
                   e = \<lparr>e_identity = identity, e_tokens = tokens, e_value = value\<rparr>
               in pc_evict (c\<lparr>pc_roots := AList.update identity (trie_set root' tokens i) (pc_roots c),
                              pc_entries := (pc_entries c)(i \<mapsto> e),
                              pc_order := i # pc_order c,
                              pc_next := Suc i\<rparr>)))"

section \<open>Reference: a bounded LRU list\<close>

type_synonym 'v lru = "(string \<times> token list \<times> 'v) list"

definition lru_key :: "string \<times> token list \<times> 'v \<Rightarrow> string \<times> token list" where
  "lru_key x = (fst x, fst (snd x))"

definition lru_drop :: "string \<times> token list \<Rightarrow> 'v lru \<Rightarrow> 'v lru" where
  "lru_drop k xs = filter (\<lambda>x. lru_key x \<noteq> k) xs"

definition lru_get :: "'v lru \<Rightarrow> string \<times> token list \<Rightarrow> 'v option" where
  "lru_get xs k = map_option (snd \<circ> snd) (find (\<lambda>x. lru_key x = k) xs)"

definition lru_put :: "nat \<Rightarrow> string \<Rightarrow> token list \<Rightarrow> 'v \<Rightarrow> 'v lru \<Rightarrow> 'v lru" where
  "lru_put cap identity tokens v xs =
     (if cap = 0 \<or> tokens = [] then xs
      else take cap ((identity, tokens, v) # lru_drop (identity, tokens) xs))"

text \<open>The longest non-empty prefix of \<open>tokens\<close> that is cached under \<open>identity\<close>.\<close>

definition lru_longest :: "string \<Rightarrow> token list \<Rightarrow> 'v lru \<Rightarrow> nat option" where
  "lru_longest identity tokens xs =
     find (\<lambda>k. lru_get xs (identity, take k tokens) \<noteq> None) (rev [1..<length tokens + 1])"

definition lru_find :: "string \<Rightarrow> token list \<Rightarrow> 'v lru \<Rightarrow> ('v \<times> nat) option \<times> 'v lru" where
  "lru_find identity tokens xs =
     (case lru_longest identity tokens xs of
        None \<Rightarrow> (None, xs)
      | Some k \<Rightarrow>
          (let v = the (lru_get xs (identity, take k tokens)) in
           (Some (v, k), (identity, take k tokens, v) # lru_drop (identity, take k tokens) xs)))"

definition lru_extract :: "string \<Rightarrow> token list \<Rightarrow> 'v lru \<Rightarrow> 'v option \<times> 'v lru" where
  "lru_extract identity tokens xs = (lru_get xs (identity, tokens), lru_drop (identity, tokens) xs)"

definition lru_extract_last :: "'v lru \<Rightarrow> 'v option \<times> 'v lru" where
  "lru_extract_last xs = (if xs = [] then (None, xs) else (Some (snd (snd (last xs))), butlast xs))"

definition lru_erase_identity :: "string \<Rightarrow> 'v lru \<Rightarrow> 'v list \<times> 'v lru" where
  "lru_erase_identity identity xs =
     (map (snd \<circ> snd) (filter (\<lambda>x. fst x = identity) xs), filter (\<lambda>x. fst x \<noteq> identity) xs)"

section \<open>Invariant and abstraction\<close>

definition root_lookup :: "'v prefix_cache \<Rightarrow> string \<Rightarrow> token list \<Rightarrow> nat option" where
  "root_lookup c identity tokens =
     (case map_of (pc_roots c) identity of None \<Rightarrow> None | Some r \<Rightarrow> trie_lookup r tokens)"

definition pc_linked :: "'v prefix_cache \<Rightarrow> bool" where
  "pc_linked c \<longleftrightarrow>
     distinct (pc_order c) \<and> set (pc_order c) = dom (pc_entries c) \<and>
     (\<forall>i \<in> dom (pc_entries c). i < pc_next c) \<and>
     distinct (map fst (pc_roots c)) \<and>
     (\<forall>(k, r) \<in> set (pc_roots c). radix r \<and> children r \<noteq> []) \<and>
     (\<forall>identity tokens i. root_lookup c identity tokens = Some i \<longleftrightarrow>
        (\<exists>e. pc_entries c i = Some e \<and> e_identity e = identity \<and> e_tokens e = tokens)) \<and>
     (\<forall>i e. pc_entries c i = Some e \<longrightarrow> e_tokens e \<noteq> [])"

definition pc_inv :: "'v prefix_cache \<Rightarrow> bool" where
  "pc_inv c \<longleftrightarrow> pc_linked c \<and> length (pc_order c) \<le> pc_capacity c"

definition triple_of :: "'v cache_entry \<Rightarrow> string \<times> token list \<times> 'v" where
  "triple_of e = (e_identity e, e_tokens e, e_value e)"

definition pc_abs :: "'v prefix_cache \<Rightarrow> 'v lru" where
  "pc_abs c = map (\<lambda>i. triple_of (the (pc_entries c i))) (pc_order c)"

lemma pc_linked_lookup:
  "pc_linked c \<Longrightarrow> root_lookup c identity tokens = Some i \<longleftrightarrow>
     (\<exists>e. pc_entries c i = Some e \<and> e_identity e = identity \<and> e_tokens e = tokens)"
  by (simp add: pc_linked_def)

lemma pc_linked_entry:
  "pc_linked c \<Longrightarrow> pc_entries c i = Some e \<Longrightarrow>
     root_lookup c (e_identity e) (e_tokens e) = Some i \<and> i \<in> set (pc_order c) \<and>
     i < pc_next c \<and> e_tokens e \<noteq> []"
  unfolding pc_linked_def by blast

lemma pc_linked_inj:
  "pc_linked c \<Longrightarrow> pc_entries c i = Some e \<Longrightarrow> pc_entries c j = Some e' \<Longrightarrow>
     e_identity e = e_identity e' \<Longrightarrow> e_tokens e = e_tokens e' \<Longrightarrow> i = j"
  using pc_linked_entry by (metis option.inject)

lemma pc_linked_order: "pc_linked c \<Longrightarrow> i \<in> set (pc_order c) \<Longrightarrow> \<exists>e. pc_entries c i = Some e"
  unfolding pc_linked_def by (metis domD)

lemma pc_linked_distinct: "pc_linked c \<Longrightarrow> distinct (pc_order c)"
  by (simp add: pc_linked_def)

lemma pc_linked_root:
  "pc_linked c \<Longrightarrow> map_of (pc_roots c) k = Some r \<Longrightarrow> radix r \<and> children r \<noteq> [] \<and> entry r = None"
proof -
  assume l: "pc_linked c" and r: "map_of (pc_roots c) k = Some r"
  have "entry r = None"
  proof (rule ccontr)
    assume "entry r \<noteq> None"
    then obtain i where "root_lookup c k [] = Some i" using r by (auto simp: root_lookup_def)
    then show False using pc_linked_lookup [OF l] pc_linked_entry [OF l] by metis
  qed
  then show ?thesis using l map_of_SomeD [OF r] unfolding pc_linked_def by auto
qed

lemma lru_key_triple [simp]: "lru_key (triple_of e) = (e_identity e, e_tokens e)"
  by (simp add: lru_key_def triple_of_def)

lemma pc_abs_drop:
  assumes "pc_linked c" "pc_entries c i = Some e"
  shows "lru_drop (e_identity e, e_tokens e) (pc_abs c) =
     map (\<lambda>i. triple_of (the (pc_entries c i))) (remove1 i (pc_order c))"
proof -
  have "lru_key (triple_of (the (pc_entries c j))) \<noteq> (e_identity e, e_tokens e) \<longleftrightarrow> j \<noteq> i"
    if "j \<in> set (pc_order c)" for j
    using pc_linked_order [OF assms(1) that] pc_linked_inj [OF assms(1) _ assms(2), of j] assms(2)
    by auto
  then have "filter (\<lambda>j. lru_key (triple_of (the (pc_entries c j))) \<noteq> (e_identity e, e_tokens e))
      (pc_order c) = remove1 i (pc_order c)"
    using pc_linked_distinct [OF assms(1)]
    by (simp add: distinct_remove1_removeAll removeAll_filter_not_eq cong: filter_cong)
      (metis)
  then show ?thesis by (simp add: lru_drop_def pc_abs_def filter_map comp_def)
qed

lemma lru_get_abs:
  assumes "pc_linked c"
  shows "lru_get (pc_abs c) (identity, tokens) =
     map_option (\<lambda>i. e_value (the (pc_entries c i))) (root_lookup c identity tokens)"
proof (cases "root_lookup c identity tokens")
  case None
  have "find (\<lambda>x. lru_key x = (identity, tokens)) (pc_abs c) = None"
  proof (rule ccontr)
    assume "find (\<lambda>x. lru_key x = (identity, tokens)) (pc_abs c) \<noteq> None"
    then obtain i where "i \<in> set (pc_order c)"
      "lru_key (triple_of (the (pc_entries c i))) = (identity, tokens)"
      by (auto simp: find_None_iff pc_abs_def)
    then show False
      using pc_linked_order [OF assms] pc_linked_entry [OF assms] None by fastforce
  qed
  then show ?thesis using None by (simp add: lru_get_def)
next
  case (Some i)
  then obtain e where e: "pc_entries c i = Some e" "e_identity e = identity" "e_tokens e = tokens"
    using pc_linked_lookup [OF assms] by auto
  have i: "i \<in> set (pc_order c)" using pc_linked_entry [OF assms e(1)] by simp
  have "find (\<lambda>x. lru_key x = (identity, tokens)) (pc_abs c) = Some (triple_of e)"
  proof (cases "find (\<lambda>x. lru_key x = (identity, tokens)) (pc_abs c)")
    case None
    then show ?thesis using i e by (force simp: find_None_iff pc_abs_def)
  next
    case (Some x)
    then have x: "x \<in> set (pc_abs c)" "lru_key x = (identity, tokens)"
      by (auto simp: find_Some_iff)
    then obtain j e' where j: "j \<in> set (pc_order c)" "pc_entries c j = Some e'" "x = triple_of e'"
      using pc_linked_order [OF assms] by (force simp: pc_abs_def)
    then have "j = i" using pc_linked_inj [OF assms j(2) e(1)] x(2) e by simp
    then show ?thesis using Some j e by simp
  qed
  then show ?thesis using Some e by (simp add: lru_get_def triple_of_def)
qed

section \<open>Correctness of the operations\<close>

lemma pc_extract_correct:
  assumes l: "pc_linked c" and e: "pc_entries c i = Some e"
  shows "\<exists>c'. pc_extract c i = Some (e_value e, c') \<and> pc_linked c' \<and>
     pc_abs c' = lru_drop (e_identity e, e_tokens e) (pc_abs c) \<and>
     pc_capacity c' = pc_capacity c \<and> pc_order c' = remove1 i (pc_order c) \<and>
     pc_entries c' = (pc_entries c)(i := None)"
proof -
  note ei = pc_linked_entry [OF l e]
  obtain root where root: "map_of (pc_roots c) (e_identity e) = Some root"
    "trie_lookup root (e_tokens e) = Some i"
    using ei by (auto simp: root_lookup_def split: option.splits)
  note rr = pc_linked_root [OF l root(1)]
  obtain root' where root': "trie_erase root (e_tokens e) 0 = Some root'" "radix root'"
    "\<And>us. trie_lookup root' us = (if us = e_tokens e then None else trie_lookup root us)"
    using trie_erase_correct [of root 0 "e_tokens e"] rr root(2) by auto
  define c' where "c' = c\<lparr>pc_roots := (if children root' = []
                                 then AList.delete (e_identity e) (pc_roots c)
                                 else AList.update (e_identity e) root' (pc_roots c)),
                    pc_order := remove1 i (pc_order c),
                    pc_entries := (pc_entries c)(i := None)\<rparr>"
  have ex: "pc_extract c i = Some (e_value e, c')"
    by (simp add: pc_extract_def e root root' c'_def)
  have gone: "trie_lookup root' us = None" if "children root' = []" for us
    using that root'(3) [of "[]"] rr ei by (cases us) (auto simp: trie_lookup_child split: if_splits)
  have look: "root_lookup c' k us =
      (if k = e_identity e \<and> us = e_tokens e then None else root_lookup c k us)" for k us
    using root root'(3) [of us] gone [of us] by (auto simp: root_lookup_def c'_def)
  have roots: "\<forall>(k, r) \<in> set (pc_roots c'). radix r \<and> children r \<noteq> []"
  proof -
    have "\<forall>x \<in> set (pc_roots c). case x of (k, r) \<Rightarrow> radix r \<and> children r \<noteq> []"
      using l unfolding pc_linked_def by blast
    note ball_delete [OF this, of "e_identity e"] ball_update [OF this, of "e_identity e" root']
    then show ?thesis using root'(2) by (cases "children root' = []") (simp_all add: c'_def)
  qed
  have "pc_linked c'"
    unfolding pc_linked_def
  proof (intro conjI roots allI impI)
    show "distinct (map fst (pc_roots c'))"
      using l by (auto simp: pc_linked_def c'_def distinct_keys_update distinct_keys_delete)
    fix k us j
    show "root_lookup c' k us = Some j \<longleftrightarrow>
        (\<exists>e. pc_entries c' j = Some e \<and> e_identity e = k \<and> e_tokens e = us)"
    proof (cases "k = e_identity e \<and> us = e_tokens e")
      case True
      then show ?thesis using pc_linked_inj [OF l _ e, of j] unfolding look by (auto simp: c'_def)
    next
      case False
      then show ?thesis using pc_linked_lookup [OF l, of k us j] e unfolding look by (auto simp: c'_def)
    qed
  qed (use l in \<open>auto simp: pc_linked_def c'_def set_remove1_eq split: if_splits\<close>)
  moreover have "pc_abs c' = lru_drop (e_identity e, e_tokens e) (pc_abs c)"
    unfolding pc_abs_drop [OF l e] using pc_linked_distinct [OF l]
    by (auto simp: pc_abs_def c'_def)
  ultimately show ?thesis using ex by (auto simp: c'_def)
qed

lemma pc_abs_Nil [simp]: "pc_abs c = [] \<longleftrightarrow> pc_order c = []"
  by (simp add: pc_abs_def)

lemma length_pc_abs [simp]: "length (pc_abs c) = length (pc_order c)"
  by (simp add: pc_abs_def)

lemma remove1_last: "distinct xs \<Longrightarrow> xs \<noteq> [] \<Longrightarrow> remove1 (last xs) xs = butlast xs"
  by (induction xs) auto

lemma pc_extract_lru_correct:
  assumes l: "pc_linked c"
  shows "\<exists>c'. pc_extract_lru c = Some (fst (lru_extract_last (pc_abs c)), c') \<and> pc_linked c' \<and>
     pc_abs c' = snd (lru_extract_last (pc_abs c)) \<and> pc_capacity c' = pc_capacity c"
proof (cases "pc_order c = []")
  case True
  then show ?thesis using l by (simp add: pc_extract_lru_def lru_extract_last_def)
next
  case False
  let ?i = "last (pc_order c)"
  obtain e where e: "pc_entries c ?i = Some e"
    using pc_linked_order [OF l last_in_set [OF False]] by auto
  have last: "last (pc_abs c) = triple_of e" using False e by (simp add: pc_abs_def last_map)
  have "lru_drop (e_identity e, e_tokens e) (pc_abs c) = butlast (pc_abs c)"
    using remove1_last [OF pc_linked_distinct [OF l] False]
    by (simp add: pc_abs_drop [OF l e]) (simp add: pc_abs_def map_butlast)
  then show ?thesis using pc_extract_correct [OF l e] False last
    by (auto simp: pc_extract_lru_def lru_extract_last_def triple_of_def)
qed

lemma lru_drop_absent: "lru_get xs k = None \<Longrightarrow> lru_drop k xs = xs"
  by (auto simp: lru_get_def lru_drop_def find_None_iff filter_id_conv)

lemma pc_extract_exact_correct:
  assumes l: "pc_linked c"
  shows "\<exists>c'. pc_extract_exact c identity tokens =
       Some (fst (lru_extract identity tokens (pc_abs c)), c') \<and> pc_linked c' \<and>
     pc_abs c' = snd (lru_extract identity tokens (pc_abs c)) \<and> pc_capacity c' = pc_capacity c"
proof (cases "root_lookup c identity tokens")
  case None
  have "pc_extract_exact c identity tokens = Some (None, c)"
  proof (cases "map_of (pc_roots c) identity")
    case (Some root)
    then show ?thesis using None exact_walk_lookup [of 0 tokens root]
      by (auto simp: root_lookup_def pc_extract_exact_def split: option.split)
  qed (simp add: pc_extract_exact_def)
  moreover have "lru_get (pc_abs c) (identity, tokens) = None"
    using lru_get_abs [OF l] None by simp
  ultimately show ?thesis using l by (simp add: lru_extract_def lru_drop_absent)
next
  case (Some i)
  then obtain e where e: "pc_entries c i = Some e" "e_identity e = identity" "e_tokens e = tokens"
    using pc_linked_lookup [OF l] by auto
  obtain root where root: "map_of (pc_roots c) identity = Some root" "trie_lookup root tokens = Some i"
    using Some by (auto simp: root_lookup_def split: option.splits)
  obtain n where "exact_walk root tokens 0 = Some n" "entry n = Some i"
    using exact_walk_lookup [of 0 tokens root] root(2) by (cases "exact_walk root tokens 0") auto
  then have "pc_extract_exact c identity tokens = map_option (\<lambda>(v, c'). (Some v, c')) (pc_extract c i)"
    using root by (simp add: pc_extract_exact_def)
  moreover have "lru_get (pc_abs c) (identity, tokens) = Some (e_value e)"
    using lru_get_abs [OF l] Some e by simp
  ultimately show ?thesis using pc_extract_correct [OF l e(1)] e by (auto simp: lru_extract_def)
qed

lemma pc_erase_loop_correct:
  assumes "pc_linked c" "is \<noteq> [] \<longrightarrow> set is \<subseteq> dom (pc_entries c)" "distinct is"
  shows "\<exists>c'. pc_erase_loop is identity c =
       Some (map (\<lambda>i. e_value (the (pc_entries c i))) (filter (\<lambda>i. pc_identity_at c i identity) is), c')
     \<and> pc_linked c' \<and> pc_capacity c' = pc_capacity c \<and>
     pc_order c' = filter (\<lambda>i. \<not> (i \<in> set is \<and> pc_identity_at c i identity)) (pc_order c) \<and>
     (\<forall>i \<in> set (pc_order c'). pc_entries c' i = pc_entries c i)"
  using assms
proof (induction "is" arbitrary: c)
  case (Cons i "is")
  show ?case
  proof (cases "pc_identity_at c i identity")
    case False
    then show ?thesis using Cons.IH [OF Cons.prems(1)] Cons.prems(2,3)
      by (auto intro!: filter_cong)
  next
    case True
    obtain e where e: "pc_entries c i = Some e" using Cons.prems(2) by auto
    obtain c1 where c1: "pc_extract c i = Some (e_value e, c1)" "pc_linked c1"
      "pc_capacity c1 = pc_capacity c" "pc_order c1 = remove1 i (pc_order c)"
      "pc_entries c1 = (pc_entries c)(i := None)"
      using pc_extract_correct [OF Cons.prems(1) e] by auto
    have same: "pc_identity_at c1 j identity = pc_identity_at c j identity" if "j \<noteq> i" for j
      using that by (simp add: pc_identity_at_def c1(5))
    have notin: "i \<notin> set is" using Cons.prems(3) by simp
    have "is \<noteq> [] \<longrightarrow> set is \<subseteq> dom (pc_entries c1)" "distinct is"
      using Cons.prems(2,3) notin by (auto simp: c1(5))
    note IH = Cons.IH [OF c1(2) this]
    obtain c2 where c2: "pc_erase_loop is identity c1 =
        Some (map (\<lambda>i. e_value (the (pc_entries c1 i))) (filter (\<lambda>i. pc_identity_at c1 i identity) is), c2)"
      "pc_linked c2" "pc_capacity c2 = pc_capacity c1"
      "pc_order c2 = filter (\<lambda>i. \<not> (i \<in> set is \<and> pc_identity_at c1 i identity)) (pc_order c1)"
      "\<forall>i \<in> set (pc_order c2). pc_entries c2 i = pc_entries c1 i"
      using IH by blast
    have "map (\<lambda>i. e_value (the (pc_entries c1 i))) (filter (\<lambda>i. pc_identity_at c1 i identity) is) =
        map (\<lambda>i. e_value (the (pc_entries c i))) (filter (\<lambda>i. pc_identity_at c i identity) is)"
    proof -
      have "filter (\<lambda>i. pc_identity_at c1 i identity) is = filter (\<lambda>i. pc_identity_at c i identity) is"
        using notin same by (intro filter_cong [OF refl]) metis
      then show ?thesis using notin by (auto simp: c1(5))
    qed
    moreover have "pc_order c2 = filter (\<lambda>j. \<not> (j \<in> set (i # is) \<and> pc_identity_at c j identity)) (pc_order c)"
    proof -
      have "j \<noteq> i \<and> \<not> (j \<in> set is \<and> pc_identity_at c1 j identity) \<longleftrightarrow>
          \<not> (j \<in> set (i # is) \<and> pc_identity_at c j identity)" for j
        using True notin same [of j] by auto
      then show ?thesis
        unfolding c2(4) c1(4) remove1_filter [OF pc_linked_distinct [OF Cons.prems(1)]] filter_filter
        by (intro filter_cong [OF refl])
    qed
    moreover have "\<forall>j \<in> set (pc_order c2). pc_entries c2 j = pc_entries c j"
      using c2(4,5) pc_linked_distinct [OF Cons.prems(1)] by (auto simp: c1(4,5))
    ultimately show ?thesis using True c1 c2 e by simp
  qed
qed simp

lemma pc_erase_identity_correct:
  assumes l: "pc_linked c"
  shows "\<exists>c'. pc_erase_identity c identity =
       Some (fst (lru_erase_identity identity (pc_abs c)), c') \<and> pc_linked c' \<and>
     pc_abs c' = snd (lru_erase_identity identity (pc_abs c)) \<and> pc_capacity c' = pc_capacity c"
proof -
  have "set (pc_order c) \<subseteq> dom (pc_entries c)" using l by (simp add: pc_linked_def)
  then obtain c' where c': "pc_erase_loop (pc_order c) identity c =
      Some (map (\<lambda>i. e_value (the (pc_entries c i)))
              (filter (\<lambda>i. pc_identity_at c i identity) (pc_order c)), c')"
    "pc_linked c'" "pc_capacity c' = pc_capacity c"
    "pc_order c' = filter (\<lambda>i. \<not> (i \<in> set (pc_order c) \<and> pc_identity_at c i identity)) (pc_order c)"
    "\<forall>i \<in> set (pc_order c'). pc_entries c' i = pc_entries c i"
    using pc_erase_loop_correct [OF l _ pc_linked_distinct [OF l]] by blast
  have id: "pc_identity_at c i identity \<longleftrightarrow> fst (triple_of (the (pc_entries c i))) = identity"
    if "i \<in> set (pc_order c)" for i
    using pc_linked_order [OF l that] by (auto simp: pc_identity_at_def triple_of_def)
  have "map (\<lambda>i. e_value (the (pc_entries c i))) (filter (\<lambda>i. pc_identity_at c i identity) (pc_order c)) =
      fst (lru_erase_identity identity (pc_abs c))"
    using id by (simp add: lru_erase_identity_def pc_abs_def filter_map comp_def triple_of_def cong: filter_cong)
  moreover have "pc_order c' =
      filter (\<lambda>i. fst (triple_of (the (pc_entries c i))) \<noteq> identity) (pc_order c)"
    unfolding c'(4) using id by (intro filter_cong [OF refl]) auto
  then have "pc_abs c' = snd (lru_erase_identity identity (pc_abs c))"
    using c'(5) by (simp add: lru_erase_identity_def pc_abs_def filter_map comp_def)
  ultimately show ?thesis using c' by (simp add: pc_erase_identity_def)
qed

lemma pc_size_of_abs:
  assumes "pc_linked c"
  shows "pc_size_of c identity = length (filter (\<lambda>x. fst x = identity) (pc_abs c))"
proof -
  have "pc_identity_at c i identity \<longleftrightarrow> fst (triple_of (the (pc_entries c i))) = identity"
    if "i \<in> set (pc_order c)" for i
    using pc_linked_order [OF assms that] by (auto simp: pc_identity_at_def triple_of_def)
  then show ?thesis
    by (simp add: pc_size_of_def pc_abs_def filter_map comp_def cong: filter_cong)
qed

lemma pc_erase_identity_size:
  assumes l: "pc_linked c" and c': "pc_erase_identity c identity = Some (vs, c')"
  shows "length vs = pc_size_of c identity" "pc_size c' = pc_size c - pc_size_of c identity"
proof -
  have r: "vs = fst (lru_erase_identity identity (pc_abs c))"
    "pc_abs c' = snd (lru_erase_identity identity (pc_abs c))"
    using pc_erase_identity_correct [OF l, of identity] c' by auto
  show "length vs = pc_size_of c identity"
    by (simp add: r(1) pc_size_of_abs [OF l] lru_erase_identity_def)
  have "length (pc_abs c') = length (pc_abs c) - length (filter (\<lambda>x. fst x = identity) (pc_abs c))"
    unfolding r(2) using sum_length_filter_compl [of "\<lambda>x. fst x = identity" "pc_abs c"]
    by (simp add: lru_erase_identity_def)
  then show "pc_size c' = pc_size c - pc_size_of c identity"
    by (simp add: pc_size_def pc_size_of_abs [OF l])
qed

lemma pc_clear_correct: "pc_linked (pc_clear c) \<and> pc_abs (pc_clear c) = []"
  by (simp add: pc_clear_def pc_linked_def pc_abs_def root_lookup_def)

lemma lru_longest_hit:
  assumes "longest_hit look ts None r"
    and "\<And>k. lru_get xs (identity, take k ts) = None \<longleftrightarrow> look (take k ts) = None"
  shows "(case r of None \<Rightarrow> lru_longest identity ts xs = None
     | Some i \<Rightarrow> \<exists>k. lru_longest identity ts xs = Some k \<and> 1 \<le> k \<and> k \<le> length ts \<and>
                     look (take k ts) = Some i)"
  using assms(1) [unfolded longest_hit_def]
proof (elim disjE exE conjE)
  assume "\<forall>k. 1 \<le> k \<and> k \<le> length ts \<longrightarrow> look (take k ts) = None" "r = None"
  then have "lru_longest identity ts xs = None"
    unfolding lru_longest_def by (intro find_rev_upt_None) (simp add: assms(2))
  then show ?thesis using \<open>r = None\<close> by simp
next
  fix k assume k: "1 \<le> k" "k \<le> length ts" "look (take k ts) = r" "r \<noteq> None"
    "\<forall>j. k < j \<and> j \<le> length ts \<longrightarrow> look (take j ts) = None"
  then have "lru_longest identity ts xs = Some k"
    unfolding lru_longest_def by (intro find_rev_upt) (auto simp: assms(2))
  then show ?thesis using k by auto
qed

text \<open>Moving a live entry to the front of \<open>order_\<close> (\<open>splice\<close>).\<close>

lemma pc_touch:
  assumes l: "pc_linked c" and e: "pc_entries c i = Some e"
  shows "pc_linked (c\<lparr>pc_order := i # remove1 i (pc_order c)\<rparr>)"
    and "pc_abs (c\<lparr>pc_order := i # remove1 i (pc_order c)\<rparr>) =
      triple_of e # lru_drop (e_identity e, e_tokens e) (pc_abs c)"
proof -
  have "set (i # remove1 i (pc_order c)) = set (pc_order c)" "distinct (i # remove1 i (pc_order c))"
    using pc_linked_entry [OF l e] pc_linked_distinct [OF l] by auto
  then show "pc_linked (c\<lparr>pc_order := i # remove1 i (pc_order c)\<rparr>)"
    using l unfolding pc_linked_def by (simp add: root_lookup_def)
  show "pc_abs (c\<lparr>pc_order := i # remove1 i (pc_order c)\<rparr>) =
      triple_of e # lru_drop (e_identity e, e_tokens e) (pc_abs c)"
    unfolding pc_abs_drop [OF l e] by (simp add: pc_abs_def e)
qed

lemma pc_find_correct:
  assumes l: "pc_linked c"
  shows "\<exists>c'. pc_find c identity tokens = Some (fst (lru_find identity tokens (pc_abs c)), c') \<and>
     pc_linked c' \<and> pc_abs c' = snd (lru_find identity tokens (pc_abs c)) \<and>
     pc_capacity c' = pc_capacity c"
proof (cases "map_of (pc_roots c) identity")
  case None
  then have "lru_longest identity tokens (pc_abs c) = None"
    unfolding lru_longest_def
    by (intro find_rev_upt_None) (simp add: lru_get_abs [OF l] root_lookup_def)
  then show ?thesis using None l by (simp add: pc_find_def lru_find_def)
next
  case (Some root)
  let ?r = "find_walk root tokens 0 None"
  have look: "root_lookup c identity ts = trie_lookup root ts" for ts
    using Some by (simp add: root_lookup_def)
  have hit: "longest_hit (trie_lookup root) tokens None ?r"
    using find_walk_longest [of root 0 tokens None] pc_linked_root [OF l Some] by simp
  have "lru_get (pc_abs c) (identity, take k tokens) = None \<longleftrightarrow> trie_lookup root (take k tokens) = None"
    for k by (simp add: lru_get_abs [OF l] look)
  note lr = lru_longest_hit [OF hit this]
  show ?thesis
  proof (cases ?r)
    case None
    then show ?thesis using lr Some l by (simp add: pc_find_def lru_find_def)
  next
    case r: (Some i)
    then obtain k where k: "lru_longest identity tokens (pc_abs c) = Some k" "k \<le> length tokens"
      "trie_lookup root (take k tokens) = Some i" using lr by auto
    then obtain e where e: "pc_entries c i = Some e" "e_identity e = identity" "e_tokens e = take k tokens"
      using pc_linked_lookup [OF l, of identity "take k tokens" i] look by auto
    have "lru_get (pc_abs c) (identity, take k tokens) = Some (e_value e)"
      using lru_get_abs [OF l, of identity "take k tokens"] look k(3) e by simp
    then have "lru_find identity tokens (pc_abs c) =
        (Some (e_value e, length (e_tokens e)), triple_of e # lru_drop (e_identity e, e_tokens e) (pc_abs c))"
      using k e by (simp add: lru_find_def triple_of_def Let_def)
    then show ?thesis using Some r e pc_touch [OF l e(1)] by (simp add: pc_find_def)
  qed
qed

lemma pc_evict_correct:
  "pc_linked c \<Longrightarrow> \<exists>c'. pc_evict c = Some c' \<and> pc_linked c' \<and>
     pc_abs c' = take (pc_capacity c) (pc_abs c) \<and> pc_capacity c' = pc_capacity c"
proof (induction c rule: pc_evict.induct)
  case (1 c)
  show ?case
  proof (cases "length (pc_order c) > pc_capacity c")
    case False
    then show ?thesis using 1(2) by (simp add: pc_evict.simps)
  next
    case True
    then have ne: "pc_abs c \<noteq> []" by auto
    obtain v c1 where c1: "pc_extract_lru c = Some (v, c1)" "pc_linked c1"
      "pc_abs c1 = butlast (pc_abs c)" "pc_capacity c1 = pc_capacity c"
      using pc_extract_lru_correct [OF 1(2)] ne by (auto simp: lru_extract_last_def)
    have "take (pc_capacity c) (butlast (pc_abs c)) = take (pc_capacity c) (pc_abs c)"
      using True by (simp add: take_butlast)
    then show ?thesis using 1(1) [OF True c1(1) refl c1(2)] True c1
      by (subst pc_evict.simps) auto
  qed
qed

lemma pc_abs_cong:
  "pc_order c' = pc_order c \<Longrightarrow> (\<And>i. i \<in> set (pc_order c) \<Longrightarrow> pc_entries c' i = pc_entries c i) \<Longrightarrow>
     pc_abs c' = pc_abs c"
  by (simp add: pc_abs_def)

text \<open>\<open>node.entry->value = std::move(value)\<close> for an entry that is present.\<close>

lemma pc_assign:
  fixes c :: "'v prefix_cache" and v :: 'v
  assumes l: "pc_linked c" and e: "pc_entries c i = Some e"
  defines "c' \<equiv> c\<lparr>pc_entries := (pc_entries c)(i \<mapsto> e\<lparr>e_value := v\<rparr>)\<rparr>"
  shows "pc_linked c'" and "lru_drop (e_identity e, e_tokens e) (pc_abs c') =
      lru_drop (e_identity e, e_tokens e) (pc_abs c)"
proof -
  have look: "root_lookup c' k ts = root_lookup c k ts" for k ts
    by (simp add: root_lookup_def c'_def)
  have ent: "(\<exists>e. pc_entries c' j = Some e \<and> e_identity e = k \<and> e_tokens e = ts) \<longleftrightarrow>
      (\<exists>e. pc_entries c j = Some e \<and> e_identity e = k \<and> e_tokens e = ts)" for j k ts
    using e by (auto simp: c'_def)
  have "dom (pc_entries c') = dom (pc_entries c)" using e by (auto simp: c'_def)
  then show l': "pc_linked c'"
    using l pc_linked_entry [OF l e] unfolding pc_linked_def look ent
    by (auto simp: c'_def split: if_splits)
  have e': "pc_entries c' i = Some (e\<lparr>e_value := v\<rparr>)" by (simp add: c'_def)
  show "lru_drop (e_identity e, e_tokens e) (pc_abs c') = lru_drop (e_identity e, e_tokens e) (pc_abs c)"
    using pc_abs_drop [OF l' e'] pc_linked_distinct [OF l]
    unfolding pc_abs_drop [OF l e] by (simp add: c'_def)
qed

lemma pc_new_entry:
  fixes c :: "'v prefix_cache" and v :: 'v
  assumes l: "pc_linked c" and none: "root_lookup c identity tokens = None" and ne: "tokens \<noteq> []"
    and root: "root = (case map_of (pc_roots c) identity of None \<Rightarrow> empty_node | Some r \<Rightarrow> r)"
  defines "c' \<equiv> c\<lparr>pc_roots := AList.update identity (trie_put root tokens (pc_next c)) (pc_roots c),
       pc_entries := (pc_entries c)(pc_next c \<mapsto>
         \<lparr>e_identity = identity, e_tokens = tokens, e_value = v\<rparr>),
       pc_order := pc_next c # pc_order c,
       pc_next := Suc (pc_next c)\<rparr>"
  shows "pc_linked c'" and "pc_abs c' = (identity, tokens, v) # pc_abs c"
proof -
  have fresh: "pc_entries c (pc_next c) = None"
    using l unfolding pc_linked_def by (metis domI less_irrefl option.exhaust)
  have fresh': "pc_next c \<notin> set (pc_order c)"
    using l fresh unfolding pc_linked_def by auto
  have rr: "radix root"
    using pc_linked_root [OF l] root by (cases "map_of (pc_roots c) identity") (auto simp: empty_node_def)
  have look: "root_lookup c' k ts =
      (if k = identity \<and> ts = tokens then Some (pc_next c) else root_lookup c k ts)" for k ts
    using root trie_lookup_put [OF rr, of tokens "pc_next c" ts]
    by (auto simp: root_lookup_def c'_def empty_node_def split: option.splits)
  have ch: "children (trie_put root tokens (pc_next c)) \<noteq> []"
  proof
    assume "children (trie_put root tokens (pc_next c)) = []"
    then have "trie_lookup (trie_put root tokens (pc_next c)) tokens = None"
      using ne by (cases tokens) (auto simp: trie_lookup_child)
    then show False using trie_lookup_put [OF rr, of tokens "pc_next c" tokens] by simp
  qed
  have "\<forall>x \<in> set (pc_roots c). case x of (k, r) \<Rightarrow> radix r \<and> children r \<noteq> []"
    using l unfolding pc_linked_def by blast
  then have roots: "\<forall>(k, r) \<in> set (pc_roots c'). radix r \<and> children r \<noteq> []"
    using ball_update [of "pc_roots c" "\<lambda>x. case x of (k, r) \<Rightarrow> radix r \<and> children r \<noteq> []"
        identity "trie_put root tokens (pc_next c)"] radix_put [OF rr] ch
    by (simp add: c'_def)
  show "pc_linked c'"
    unfolding pc_linked_def
  proof (intro conjI roots allI impI)
    show "distinct (map fst (pc_roots c'))"
      using l by (simp add: pc_linked_def c'_def distinct_keys_update)
    fix k us j
    show "root_lookup c' k us = Some j \<longleftrightarrow>
        (\<exists>e. pc_entries c' j = Some e \<and> e_identity e = k \<and> e_tokens e = us)"
      using pc_linked_lookup [OF l, of k us j] none fresh unfolding look by (auto simp: c'_def)
  qed (use l fresh' ne in \<open>auto simp: pc_linked_def c'_def less_Suc_eq split: if_splits\<close>)
  show "pc_abs c' = (identity, tokens, v) # pc_abs c"
    using fresh' by (auto simp: pc_abs_def c'_def triple_of_def)
qed

lemma pc_put_correct:
  assumes inv: "pc_inv c"
  shows "\<exists>c'. pc_put c identity tokens v = Some c' \<and> pc_inv c' \<and>
     pc_abs c' = lru_put (pc_capacity c) identity tokens v (pc_abs c) \<and> pc_capacity c' = pc_capacity c"
proof (cases "pc_capacity c = 0 \<or> tokens = []")
  case True
  then show ?thesis using inv by (auto simp: pc_put_def lru_put_def)
next
  case False
  have l: "pc_linked c" and cap: "length (pc_order c) \<le> pc_capacity c"
    using inv by (auto simp: pc_inv_def)
  define root where "root = (case map_of (pc_roots c) identity of None \<Rightarrow> empty_node | Some r \<Rightarrow> r)"
  have rr: "radix root"
    using pc_linked_root [OF l] root_def
    by (cases "map_of (pc_roots c) identity") (auto simp: empty_node_def)
  have look: "trie_lookup (trie_insert root tokens) tokens = root_lookup c identity tokens"
  proof -
    have "trie_lookup root tokens = root_lookup c identity tokens"
      unfolding root_def root_lookup_def
      using False by (cases tokens) (auto simp: empty_node_def split: option.split)
    then show ?thesis by (simp add: trie_lookup_insert [OF rr])
  qed
  show ?thesis
  proof (cases "root_lookup c identity tokens")
    case (Some i)
    then obtain e where e: "pc_entries c i = Some e" "e_identity e = identity" "e_tokens e = tokens"
      using pc_linked_lookup [OF l] by auto
    have root: "map_of (pc_roots c) identity = Some root"
      using Some by (simp add: root_lookup_def root_def split: option.splits)
    have "trie_insert root tokens = root"
      using Some root by (intro trie_insert_present) (simp add: root_lookup_def)
    then have same: "AList.update identity (trie_insert root tokens) (pc_roots c) = pc_roots c"
      using root by (simp add: AList.update_triv)
    let ?c1 = "c\<lparr>pc_entries := (pc_entries c)(i \<mapsto> e\<lparr>e_value := v\<rparr>)\<rparr>"
    let ?c2 = "?c1\<lparr>pc_order := i # remove1 i (pc_order ?c1)\<rparr>"
    note as = pc_assign [OF l e(1), of v]
    have e1: "pc_entries ?c1 i = Some (e\<lparr>e_value := v\<rparr>)" by simp
    note touch = pc_touch [OF as(1) e1]
    have put: "pc_put c identity tokens v = Some ?c2"
      using False look Some same e by (simp add: pc_put_def Let_def root_def [symmetric])
    have "length (pc_order ?c2) = length (pc_order c)"
      using pc_linked_entry [OF l e(1)] by (simp add: length_remove1) (metis Suc_pred length_pos_if_in_set)
    then have inv2: "pc_inv ?c2" using touch(1) cap by (simp add: pc_inv_def)
    have "pc_abs ?c2 = (identity, tokens, v) # lru_drop (identity, tokens) (pc_abs c)"
      using touch(2) as(2) e by (simp add: triple_of_def)
    moreover have "length (pc_abs ?c2) \<le> pc_capacity c"
      using inv2 by (simp add: pc_inv_def)
    ultimately have "pc_abs ?c2 = lru_put (pc_capacity c) identity tokens v (pc_abs c)"
      using False by (simp add: lru_put_def)
    then show ?thesis using put inv2 by auto
  next
    case None
    let ?c1 = "c\<lparr>pc_roots := AList.update identity (trie_put root tokens (pc_next c)) (pc_roots c),
       pc_entries := (pc_entries c)(pc_next c \<mapsto>
         \<lparr>e_identity = identity, e_tokens = tokens, e_value = v\<rparr>),
       pc_order := pc_next c # pc_order c,
       pc_next := Suc (pc_next c)\<rparr>"
    have put: "pc_put c identity tokens v = pc_evict ?c1"
      using False look None by (simp add: pc_put_def Let_def root_def [symmetric] trie_put_def)
    note new = pc_new_entry [OF l None _ root_def, of v]
    have ne: "tokens \<noteq> []" using False by simp
    obtain c' where c': "pc_evict ?c1 = Some c'" "pc_linked c'"
      "pc_abs c' = take (pc_capacity c) (pc_abs ?c1)" "pc_capacity c' = pc_capacity c"
      using pc_evict_correct [OF new(1) [OF ne]] by auto
    have "lru_drop (identity, tokens) (pc_abs c) = pc_abs c"
      using lru_get_abs [OF l, of identity tokens] None by (intro lru_drop_absent) simp
    then have abs': "pc_abs c' = lru_put (pc_capacity c) identity tokens v (pc_abs c)"
      using c'(3) new(2) [OF ne] False by (simp add: lru_put_def)
    have "length (pc_abs c') \<le> pc_capacity c" using c'(3) by simp
    then have "pc_inv c'" using c'(2,4) by (simp add: pc_inv_def)
    then show ?thesis using put c' abs' by auto
  qed
qed

lemma pc_find_order:
  "pc_find c identity tokens = Some (r, c') \<Longrightarrow> pc_linked c \<Longrightarrow>
     length (pc_order c') = length (pc_order c)"
  using pc_linked_entry [of c] length_pos_if_in_set [of _ "pc_order c"]
  by (fastforce simp: pc_find_def length_remove1 split: option.splits)

end
