(* ===== verification/PrefixContract.thy ===== *)
theory PrefixContract
  imports PrefixIndex "HOL-Library.Multiset"
begin

text \<open>
  What \<open>PrefixCache\<close> promises to its users: a locale \<open>lru_index\<close> whose laws say that every
  operation acts on the abstraction of the state as on a bounded LRU list, the lemmas about the
  stored values proved from the laws, and the interpretation of the locale on the model of
  \<open>prefix_cache.hpp\<close>.
\<close>

section \<open>Operations as data\<close>

datatype 'v index_op =
    OpPut string "token list" 'v
  | OpFind string "token list"
  | OpExtract string "token list"
  | OpExtractLru
  | OpErase string
  | OpClear

datatype 'v index_out = Done | Match "('v \<times> nat) option" | Value "'v option" | Values "'v list"

fun lru_step :: "'v index_op \<Rightarrow> nat \<times> 'v lru \<Rightarrow> 'v index_out \<times> (nat \<times> 'v lru)" where
  "lru_step (OpPut identity tokens v) (cap, xs) = (Done, cap, lru_put cap identity tokens v xs)"
| "lru_step (OpFind identity tokens) (cap, xs) = map_prod Match (Pair cap) (lru_find identity tokens xs)"
| "lru_step (OpExtract identity tokens) (cap, xs) =
     map_prod Value (Pair cap) (lru_extract identity tokens xs)"
| "lru_step OpExtractLru (cap, xs) = map_prod Value (Pair cap) (lru_extract_last xs)"
| "lru_step (OpErase identity) (cap, xs) = map_prod Values (Pair cap) (lru_erase_identity identity xs)"
| "lru_step OpClear (cap, xs) = (Done, cap, [])"

fun pc_step :: "'v index_op \<Rightarrow> 'v prefix_cache \<Rightarrow> ('v index_out \<times> 'v prefix_cache) option" where
  "pc_step (OpPut identity tokens v) c = map_option (Pair Done) (pc_put c identity tokens v)"
| "pc_step (OpFind identity tokens) c = map_option (map_prod Match id) (pc_find c identity tokens)"
| "pc_step (OpExtract identity tokens) c =
     map_option (map_prod Value id) (pc_extract_exact c identity tokens)"
| "pc_step OpExtractLru c = map_option (map_prod Value id) (pc_extract_lru c)"
| "pc_step (OpErase identity) c = map_option (map_prod Values id) (pc_erase_identity c identity)"
| "pc_step OpClear c = Some (Done, pc_clear c)"

text \<open>The values an operation hands out of the index.\<close>

fun taken :: "'v index_out \<Rightarrow> 'v list" where
  "taken (Value (Some v)) = [v]"
| "taken (Values vs) = vs"
| "taken _ = []"

fun removes :: "'v index_op \<Rightarrow> bool" where
  "removes (OpPut _ _ _) = False"
| "removes OpClear = False"
| "removes _ = True"

definition lru_values :: "'v lru \<Rightarrow> 'v list" where
  "lru_values xs = map (snd \<circ> snd) xs"

section \<open>Facts about the reference\<close>

lemma lru_drop_keys: "distinct (map lru_key xs) \<Longrightarrow> distinct (map lru_key (lru_drop k xs))"
  by (induction xs) (auto simp: lru_drop_def)

lemma lru_get_split:
  "distinct (map lru_key xs) \<Longrightarrow> lru_get xs k = Some v \<Longrightarrow>
     mset (lru_values xs) = add_mset v (mset (lru_values (lru_drop k xs)))"
proof (induction xs)
  case (Cons x xs)
  show ?case
  proof (cases "lru_key x = k")
    case True
    then have "lru_drop k xs = xs" using Cons.prems(1)
      by (auto simp: lru_drop_def intro!: filter_True) (metis image_eqI)
    then show ?thesis using True Cons.prems(2)
      by (auto simp: lru_get_def lru_drop_def lru_values_def)
  next
    case False
    then show ?thesis using Cons by (auto simp: lru_get_def lru_drop_def lru_values_def)
  qed
qed (simp add: lru_get_def)

lemma lru_longest_Some:
  "lru_longest identity tokens xs = Some k \<Longrightarrow>
     1 \<le> k \<and> k \<le> length tokens \<and> lru_get xs (identity, take k tokens) \<noteq> None"
proof -
  assume "lru_longest identity tokens xs = Some k"
  then obtain i where i: "i < length (rev [1..<length tokens + 1])" "k = rev [1..<length tokens + 1] ! i"
    "lru_get xs (identity, take k tokens) \<noteq> None"
    unfolding lru_longest_def find_Some_iff by blast
  have "k \<in> set (rev [1..<length tokens + 1])" unfolding i(2) by (rule nth_mem [OF i(1)])
  then show ?thesis using i(3) by auto
qed

lemma lru_step_keys:
  "distinct (map lru_key xs) \<Longrightarrow> distinct (map lru_key (snd (snd (lru_step p (cap, xs)))))"
proof (cases p)
  case (OpPut identity tokens v)
  assume d: "distinct (map lru_key xs)"
  have "distinct (map lru_key ((identity, tokens, v) # lru_drop (identity, tokens) xs))"
    using lru_drop_keys [OF d] by (auto simp: lru_drop_def lru_key_def)
  then have "distinct (take cap (map lru_key ((identity, tokens, v) # lru_drop (identity, tokens) xs)))"
    by (rule distinct_take)
  then show ?thesis using d OpPut by (simp add: lru_put_def take_map del: list.map)
next
  case (OpFind identity tokens)
  assume d: "distinct (map lru_key xs)"
  show ?thesis
    using d lru_drop_keys [OF d] unfolding OpFind
    by (auto simp: lru_find_def Let_def split: option.split) (auto simp: lru_drop_def lru_key_def)
qed (auto simp: lru_extract_def lru_extract_last_def lru_erase_identity_def lru_drop_keys
    distinct_map_filter map_butlast distinct_butlast)

lemma lru_step_conserves:
  assumes "distinct (map lru_key xs)" "removes p"
  shows "mset (lru_values xs) =
    mset (taken (fst (lru_step p (cap, xs)))) + mset (lru_values (snd (snd (lru_step p (cap, xs)))))"
proof (cases p)
  case (OpFind identity tokens)
  show ?thesis
  proof (cases "lru_longest identity tokens xs")
    case (Some k)
    then obtain v where "lru_get xs (identity, take k tokens) = Some v"
      using lru_longest_Some by blast
    then show ?thesis using Some lru_get_split [OF assms(1)] OpFind
      by (simp add: lru_find_def Let_def lru_values_def)
  qed (simp add: OpFind lru_find_def map_prod_def)
next
  case (OpExtract identity tokens)
  then show ?thesis using lru_get_split [OF assms(1), of "(identity, tokens)"]
    by (cases "lru_get xs (identity, tokens)") (auto simp: lru_extract_def lru_drop_absent)
next
  case OpExtractLru
  have "mset (lru_values xs) = add_mset (snd (snd (last xs))) (mset (lru_values (butlast xs)))" if "xs \<noteq> []"
    using that by (cases xs rule: rev_cases) (simp_all add: lru_values_def)
  then show ?thesis using OpExtractLru by (auto simp: lru_extract_last_def)
next
  case (OpErase identity)
  have "mset (lru_values xs) = mset (lru_values (filter (\<lambda>x. fst x = identity) xs)) +
      mset (lru_values (filter (\<lambda>x. fst x \<noteq> identity) xs))"
    by (induction xs) (auto simp: lru_values_def)
  then show ?thesis by (simp add: OpErase lru_erase_identity_def lru_values_def)
qed (use assms in auto)

section \<open>The contract\<close>

locale lru_index =
  refinement inv "\<lambda>s. (cap s, abs s)" step lru_step
    for inv :: "'s \<Rightarrow> bool" and cap :: "'s \<Rightarrow> nat" and abs :: "'s \<Rightarrow> 'v lru"
      and step :: "'v index_op \<Rightarrow> 's \<Rightarrow> ('v index_out \<times> 's) option" +
  assumes bounded: "inv s \<Longrightarrow> length (abs s) \<le> cap s"
    and keys: "inv s \<Longrightarrow> distinct (map lru_key (abs s))"
begin

lemma cap_step: "inv s \<Longrightarrow> step p s = Some (r, s') \<Longrightarrow> cap s' = cap s"
  using step_from(2) [of s p r s'] by (cases p) (auto simp: map_prod_def split: prod.splits)

lemma conserves:
  "inv s \<Longrightarrow> step p s = Some (r, s') \<Longrightarrow> removes p \<Longrightarrow>
     mset (lru_values (abs s)) = mset (taken r) + mset (lru_values (abs s'))"
  using step_from(2,3) [of s p r s'] lru_step_conserves [OF keys, where p = p and cap = "cap s"]
  by (metis snd_conv)

text \<open>Inserting a new key into an index that is not full evicts nothing.\<close>

lemma put_room:
  assumes "inv s" "tokens \<noteq> []" "length (abs s) < cap s"
    and "lru_get (abs s) (identity, tokens) = None"
  shows "\<exists>s'. step (OpPut identity tokens v) s = Some (Done, s') \<and> inv s' \<and> cap s' = cap s \<and>
    abs s' = (identity, tokens, v) # abs s"
proof -
  have "lru_put (cap s) identity tokens v (abs s) = (identity, tokens, v) # abs s"
    using assms(2,3) lru_drop_absent [OF assms(4)] by (cases "cap s") (auto simp: lru_put_def)
  then show ?thesis using step_refines [OF assms(1), of "OpPut identity tokens v"] by auto
qed

lemma extract_lru_cases:
  assumes "inv s"
  obtains (empty) s' where "step OpExtractLru s = Some (Value None, s')" "abs s = []" "abs s' = []"
      "inv s'" "cap s' = cap s"
    | (last) v s' where "step OpExtractLru s = Some (Value (Some v), s')" "abs s \<noteq> []"
      "v = snd (snd (last (abs s)))" "abs s' = butlast (abs s)" "inv s'" "cap s' = cap s"
  using step_refines [OF assms, of OpExtractLru]
  by (auto simp: lru_extract_last_def split: if_splits)

end

interpretation pc: lru_index pc_inv pc_capacity pc_abs pc_step
proof (unfold_locales, goal_cases)
  case (1 s p)
  then have l: "pc_linked s" and b: "length (pc_order s) \<le> pc_capacity s"
    by (simp_all add: pc_inv_def)
  have shrink: "pc_inv c'" if "pc_linked c'" "pc_capacity c' = pc_capacity s"
    "length (pc_abs c') \<le> length (pc_abs s)" for c'
    using that b by (simp add: pc_inv_def)
  show ?case
  proof (cases p)
    case (OpPut identity tokens v)
    then show ?thesis using pc_put_correct [OF 1, of identity tokens v] by auto
  next
    case (OpFind identity tokens)
    obtain c' where c': "pc_find s identity tokens = Some (fst (lru_find identity tokens (pc_abs s)), c')"
      "pc_linked c'" "pc_abs c' = snd (lru_find identity tokens (pc_abs s))" "pc_capacity c' = pc_capacity s"
      using pc_find_correct [OF l] by blast
    have "pc_inv c'" using c' b pc_find_order [OF c'(1)] l by (simp add: pc_inv_def)
    then show ?thesis using OpFind c' by (simp add: map_prod_def split_beta)
  next
    case (OpExtract identity tokens)
    obtain c' where c': "pc_extract_exact s identity tokens =
        Some (fst (lru_extract identity tokens (pc_abs s)), c')" "pc_linked c'"
      "pc_abs c' = snd (lru_extract identity tokens (pc_abs s))" "pc_capacity c' = pc_capacity s"
      using pc_extract_exact_correct [OF l] by blast
    have "length (pc_abs c') \<le> length (pc_abs s)"
      unfolding c'(3) lru_extract_def lru_drop_def by (simp del: length_pc_abs)
    with c' have "pc_inv c'" by (intro shrink)
    then show ?thesis using OpExtract c' by (simp add: map_prod_def split_beta)
  next
    case OpExtractLru
    obtain c' where c': "pc_extract_lru s = Some (fst (lru_extract_last (pc_abs s)), c')" "pc_linked c'"
      "pc_abs c' = snd (lru_extract_last (pc_abs s))" "pc_capacity c' = pc_capacity s"
      using pc_extract_lru_correct [OF l] by blast
    have "length (pc_abs c') \<le> length (pc_abs s)"
      unfolding c'(3) lru_extract_last_def by (simp del: length_pc_abs)
    with c' have "pc_inv c'" by (intro shrink)
    then show ?thesis using OpExtractLru c' by (simp add: map_prod_def split_beta)
  next
    case (OpErase identity)
    obtain c' where c': "pc_erase_identity s identity =
        Some (fst (lru_erase_identity identity (pc_abs s)), c')" "pc_linked c'"
      "pc_abs c' = snd (lru_erase_identity identity (pc_abs s))" "pc_capacity c' = pc_capacity s"
      using pc_erase_identity_correct [OF l] by blast
    have "length (pc_abs c') \<le> length (pc_abs s)"
      unfolding c'(3) lru_erase_identity_def by (simp del: length_pc_abs)
    with c' have "pc_inv c'" by (intro shrink)
    then show ?thesis using OpErase c' by (simp add: map_prod_def split_beta)
  next
    case OpClear
    then show ?thesis using pc_clear_correct [of s] by (auto simp: pc_inv_def pc_clear_def)
  qed
next
  case (2 s)
  then show ?case by (simp add: pc_inv_def)
next
  case (3 s)
  then have l: "pc_linked s" by (simp add: pc_inv_def)
  have "inj_on (\<lambda>i. lru_key (triple_of (the (pc_entries s i)))) (set (pc_order s))"
  proof (rule inj_onI)
    fix i j assume ij: "i \<in> set (pc_order s)" "j \<in> set (pc_order s)"
      "lru_key (triple_of (the (pc_entries s i))) = lru_key (triple_of (the (pc_entries s j)))"
    then show "i = j"
      using pc_linked_order [OF l ij(1)] pc_linked_order [OF l ij(2)] pc_linked_inj [OF l] by auto
  qed
  then show ?case using pc_linked_distinct [OF l] by (simp add: pc_abs_def distinct_map comp_def)
qed

lemma run_spec_capacity: "fst (snd (run_spec lru_step ps (cap, xs))) = cap"
proof (induction ps arbitrary: xs)
  case (Cons p ps)
  have "fst (snd (lru_step p (cap, xs))) = cap"
    by (cases p) (simp_all add: map_prod_def split_beta)
  then obtain r ys where "lru_step p (cap, xs) = (r, cap, ys)"
    by (metis prod.collapse)
  then show ?case using Cons.IH [of ys] by (auto simp: split_beta Let_def)
qed simp

lemma pc_inv_empty: "pc_inv (prefix_cache capacity)"
  by (simp add: pc_inv_def pc_linked_def prefix_cache_def root_lookup_def)

lemma pc_abs_empty [simp]: "pc_abs (prefix_cache capacity) = []" "pc_capacity (prefix_cache capacity) = capacity"
  by (simp_all add: prefix_cache_def)

text \<open>
  C2. From the empty cache, every sequence of \<open>put\<close>, \<open>find\<close>, \<open>extract_exact\<close>,
  \<open>extract_lru\<close>, \<open>erase_identity\<close> and \<open>clear\<close> runs without an invalid iterator or index and
  returns what a bounded LRU list of (identity, tokens, value) returns, where \<open>find\<close> gives the
  longest cached prefix of the tokens and makes it the most recent entry.
\<close>

theorem prefix_cache_refines_lru:
  "map_option fst (run_ops pc_step ps (prefix_cache capacity)) =
     Some (fst (run_spec lru_step ps (capacity, [])))"
  using pc.run_outputs [OF pc_inv_empty [of capacity], of ps] by simp

text \<open>
  After every sequence of operations the cache holds at most \<open>capacity\<close> snapshots, and
  \<open>size(identity)\<close> values leave it when that identity is erased.
\<close>

theorem prefix_cache_bounded:
  assumes "run_ops pc_step ps (prefix_cache capacity) = Some (rs, c)"
  shows "pc_size c \<le> capacity \<and>
    (\<exists>vs c'. pc_erase_identity c identity = Some (vs, c') \<and> length vs = pc_size_of c identity \<and>
       pc_size c' = pc_size c - pc_size_of c identity \<and> pc_size_of c' identity = 0)"
proof -
  have inv: "pc_inv c" "(pc_capacity c, pc_abs c) = snd (run_spec lru_step ps (capacity, []))"
    using pc.run_refines [OF pc_inv_empty [of capacity], of ps] assms by auto
  then have cap: "pc_capacity c = capacity"
    using run_spec_capacity [of ps capacity "[]"] by (metis fst_conv)
  have l: "pc_linked c" using inv(1) by (simp add: pc_inv_def)
  obtain vs c' where c': "pc_erase_identity c identity = Some (vs, c')" "pc_linked c'"
    "pc_abs c' = filter (\<lambda>x. fst x \<noteq> identity) (pc_abs c)"
    using pc_erase_identity_correct [OF l, of identity] by (auto simp: lru_erase_identity_def)
  have "pc_size_of c' identity = length (filter (\<lambda>x. fst x = identity) (pc_abs c'))"
    using pc_size_of_abs [OF c'(2)] .
  then have "pc_size_of c' identity = 0" by (simp add: c'(3))
  then show ?thesis using inv(1) cap c' pc_erase_identity_size [OF l c'(1)] by (auto simp: pc_inv_def pc_size_def)
qed

theorem prefix_cache_bounded_witness:
  "\<exists>rs c. run_ops pc_step [OpPut ''a'' [1, 2] (0::nat), OpPut ''b'' [1] 1, OpPut ''a'' [1, 3] 2] (prefix_cache 2) =
      Some (rs, c) \<and> pc_size c \<le> 2"
proof -
  obtain rs c where r: "run_ops pc_step [OpPut ''a'' [1, 2] (0::nat), OpPut ''b'' [1] 1, OpPut ''a'' [1, 3] 2]
      (prefix_cache 2) = Some (rs, c)"
    using pc.run_refines [OF pc_inv_empty [of 2]] by fast
  then show ?thesis using prefix_cache_bounded [OF r] by blast
qed

end
