(* ===== verification/PrefixPool.thy ===== *)
theory PrefixPool
  imports PrefixContract
begin

text \<open>
  \<open>PrefixCachePool\<close> (\<open>include/rwkv/inference/prefix_cache_pool.hpp\<close>): a prefix cache whose
  values are buffers from a bounded pool. A buffer is an address; \<open>pp_heap\<close> holds the buffers'
  contents and \<open>pp_pins\<close> the number of \<open>Match\<close> copies that readers still hold, so
  \<open>use_count() == 1\<close> of a buffer that left the index or the free list is \<open>pins = 0\<close>.
\<close>

section \<open>State\<close>

record 'd prefix_pool =
  pp_capacity :: nat
  pp_memory_limit :: nat
  pp_entry_bytes :: nat
  pp_index :: "nat prefix_cache"
  pp_free :: "nat list"
  pp_allocated :: nat
  pp_hits :: u64
  pp_misses :: u64
  pp_evictions :: u64
  pp_retired :: u64
  pp_skipped :: u64
  pp_heap :: "nat \<Rightarrow> 'd option"
  pp_pins :: "nat \<Rightarrow> nat"
  pp_next :: nat

datatype pool_error = ZeroEntrySize | NullBuffer | FillFailed

definition prefix_cache_pool :: "nat \<Rightarrow> nat \<Rightarrow> nat \<Rightarrow> pool_error + 'd prefix_pool" where
  "prefix_cache_pool capacity memory_limit entry_bytes =
     (if entry_bytes = 0 then Inl ZeroEntrySize
      else let cap = min capacity (memory_limit div entry_bytes) in
        Inr \<lparr>pp_capacity = cap, pp_memory_limit = memory_limit, pp_entry_bytes = entry_bytes,
          pp_index = prefix_cache cap, pp_free = [], pp_allocated = 0,
          pp_hits = 0, pp_misses = 0, pp_evictions = 0, pp_retired = 0, pp_skipped = 0,
          pp_heap = (\<lambda>_. None), pp_pins = (\<lambda>_. 0), pp_next = 0\<rparr>)"

definition pp_size :: "'d prefix_pool \<Rightarrow> nat" where
  "pp_size p = pc_size (pp_index p)"

definition pp_used_bytes :: "'d prefix_pool \<Rightarrow> nat" where
  "pp_used_bytes p = pp_size p * pp_entry_bytes p"

definition pp_allocated_bytes :: "'d prefix_pool \<Rightarrow> nat" where
  "pp_allocated_bytes p = pp_allocated p * pp_entry_bytes p"

section \<open>Operations\<close>

text \<open>
  The first loop of \<open>acquire\<close>: the first unpinned buffer of \<open>free_\<close> leaves it and the last one
  takes its place.
\<close>

fun pp_take_free :: "(nat \<Rightarrow> nat) \<Rightarrow> nat list \<Rightarrow> nat list \<Rightarrow> (nat \<times> nat list) option" where
  "pp_take_free pins skipped [] = None"
| "pp_take_free pins skipped (b # rest) =
     (if pins b \<noteq> 0 then pp_take_free pins (skipped @ [b]) rest
      else Some (b, skipped @ (if rest = [] then [] else last rest # butlast rest)))"

text \<open>
  The last loop of \<open>acquire\<close>: evict from the LRU end until an unpinned buffer appears. An
  outer \<open>None\<close> is an undefined index operation.
\<close>

function pp_evict_loop :: "'d prefix_pool \<Rightarrow> (nat option \<times> 'd prefix_pool) option" where
  "pp_evict_loop p =
     (case pc_extract_lru (pp_index p) of
        None \<Rightarrow> None
      | Some (None, c) \<Rightarrow> Some (None, p\<lparr>pp_index := c\<rparr>)
      | Some (Some b, c) \<Rightarrow>
          (let p' = p\<lparr>pp_index := c, pp_evictions := pp_evictions p + 1\<rparr> in
           if pp_pins p b = 0 then Some (Some b, p')
           else pp_evict_loop (p'\<lparr>pp_free := pp_free p @ [b]\<rparr>)))"
  by pat_completeness auto
termination
proof (relation "measure (\<lambda>p. length (pc_order (pp_index p)))", goal_cases)
  case (2 p r v c b p')
  then have "pc_order (pp_index p) \<noteq> []"
    by (auto simp: pc_extract_lru_def split: if_splits)
  with 2 show ?case
    by (auto simp: pc_extract_lru_def length_remove1 dest!: pc_extract_order split: if_splits)
qed simp

declare pp_evict_loop.simps [simp del]

text \<open>
  \<open>made\<close> is what \<open>make_()\<close> would return: the contents of a fresh buffer, or \<open>None\<close> for a null
  pointer or an exception.
\<close>

definition pp_acquire ::
    "'d option \<Rightarrow> 'd prefix_pool \<Rightarrow> ((pool_error + nat option) \<times> 'd prefix_pool) option" where
  "pp_acquire made p =
     (case pp_take_free (pp_pins p) [] (pp_free p) of
        Some (b, free') \<Rightarrow> Some (Inr (Some b), p\<lparr>pp_free := free'\<rparr>)
      | None \<Rightarrow>
          if pp_allocated p < pp_capacity p then
            (case made of
               None \<Rightarrow> Some (Inl NullBuffer, p)
             | Some d \<Rightarrow>
                 Some (Inr (Some (pp_next p)),
                   p\<lparr>pp_allocated := pp_allocated p + 1, pp_next := pp_next p + 1,
                     pp_heap := (pp_heap p)(pp_next p \<mapsto> d),
                     pp_pins := (pp_pins p)(pp_next p := 0)\<rparr>))
          else map_option (\<lambda>(b, p'). (Inr b, p')) (pp_evict_loop p))"

text \<open>A match that is returned holds a reference to the buffer.\<close>

definition pp_find ::
    "'d prefix_pool \<Rightarrow> string \<Rightarrow> token list \<Rightarrow> ((nat \<times> nat) option \<times> 'd prefix_pool) option" where
  "pp_find p identity tokens =
     (case pc_find (pp_index p) identity tokens of
        None \<Rightarrow> None
      | Some (None, c) \<Rightarrow> Some (None, p\<lparr>pp_index := c, pp_misses := pp_misses p + 1\<rparr>)
      | Some (Some (b, n), c) \<Rightarrow>
          Some (Some (b, n), p\<lparr>pp_index := c, pp_hits := pp_hits p + 1,
                               pp_pins := (pp_pins p)(b := pp_pins p b + 1)\<rparr>))"

text \<open>A reader drops a match.\<close>

definition pp_release :: "nat \<Rightarrow> 'd prefix_pool \<Rightarrow> 'd prefix_pool" where
  "pp_release b p = p\<lparr>pp_pins := (pp_pins p)(b := pp_pins p b - 1)\<rparr>"

text \<open>
  \<open>fill\<close> maps a buffer's contents to the new contents and tells whether it returned (\<open>True\<close>)
  or threw after a partial write.
\<close>

definition pp_put ::
    "'d option \<Rightarrow> ('d \<Rightarrow> 'd \<times> bool) \<Rightarrow> 'd prefix_pool \<Rightarrow> string \<Rightarrow> token list \<Rightarrow>
     ((pool_error + bool) \<times> 'd prefix_pool) option" where
  "pp_put made fill p identity tokens =
     (if pp_capacity p = 0 \<or> tokens = [] then Some (Inr False, p)
      else case pc_extract_exact (pp_index p) identity tokens of
        None \<Rightarrow> None
      | Some (found, c) \<Rightarrow>
          let p1 = p\<lparr>pp_index := c\<rparr>;
              got = (case found of
                  Some b \<Rightarrow> if pp_pins p1 b \<noteq> 0 then pp_acquire made (p1\<lparr>pp_free := pp_free p1 @ [b]\<rparr>)
                            else Some (Inr (Some b), p1)
                | None \<Rightarrow> pp_acquire made p1)
          in (case got of
                None \<Rightarrow> None
              | Some (Inl e, p2) \<Rightarrow> Some (Inl e, p2)
              | Some (Inr None, p2) \<Rightarrow> Some (Inr False, p2\<lparr>pp_skipped := pp_skipped p2 + 1\<rparr>)
              | Some (Inr (Some b), p2) \<Rightarrow>
                  (case pp_heap p2 b of
                     None \<Rightarrow> None
                   | Some d \<Rightarrow>
                       (let (d', ok) = fill d; p3 = p2\<lparr>pp_heap := (pp_heap p2)(b \<mapsto> d')\<rparr> in
                        if ok then map_option (\<lambda>c'. (Inr True, p3\<lparr>pp_index := c'\<rparr>))
                                     (pc_put (pp_index p3) identity tokens b)
                        else Some (Inl FillFailed, p3\<lparr>pp_free := pp_free p3 @ [b]\<rparr>)))))"

definition pp_erase_identity :: "'d prefix_pool \<Rightarrow> string \<Rightarrow> 'd prefix_pool option" where
  "pp_erase_identity p identity =
     map_option (\<lambda>(bs, c). p\<lparr>pp_index := c, pp_retired := pp_retired p + of_nat (length bs),
                             pp_free := pp_free p @ bs\<rparr>)
       (pc_erase_identity (pp_index p) identity)"

section \<open>Invariant\<close>

text \<open>
  Every allocated buffer is in the index or in the free list, once; a buffer that is being
  filled is in neither, and \<open>bs\<close> lists those.
\<close>

definition pp_owned :: "'d prefix_pool \<Rightarrow> nat list" where
  "pp_owned p = lru_values (pc_abs (pp_index p)) @ pp_free p"

definition pp_inv_with :: "nat list \<Rightarrow> 'd prefix_pool \<Rightarrow> bool" where
  "pp_inv_with bs p \<longleftrightarrow>
     pc_inv (pp_index p) \<and> pc_capacity (pp_index p) = pp_capacity p \<and>
     distinct (bs @ pp_owned p) \<and> length (bs @ pp_owned p) = pp_allocated p \<and>
     pp_allocated p \<le> pp_capacity p \<and>
     (\<forall>b \<in> set (bs @ pp_owned p). b < pp_next p \<and> pp_heap p b \<noteq> None) \<and>
     pp_entry_bytes p \<noteq> 0 \<and> pp_capacity p * pp_entry_bytes p \<le> pp_memory_limit p"

abbreviation pp_inv :: "'d prefix_pool \<Rightarrow> bool" where
  "pp_inv \<equiv> pp_inv_with []"

definition pp_abs :: "'d prefix_pool \<Rightarrow> 'd lru" where
  "pp_abs p = map (\<lambda>(identity, tokens, b). (identity, tokens, the (pp_heap p b))) (pc_abs (pp_index p))"

section \<open>Acquiring a buffer\<close>

lemma pp_take_free_Some:
  "pp_take_free pins skipped bs = Some (b, bs') \<Longrightarrow>
     pins b = 0 \<and> mset (skipped @ bs) = add_mset b (mset bs')"
proof (induction pins skipped bs rule: pp_take_free.induct)
  case (2 pins skipped b0 rest)
  have "mset (last rest # butlast rest) = mset rest" if "rest \<noteq> []"
    using that by (cases rest rule: rev_cases) auto
  then show ?case using 2 by (auto split: if_splits)
qed simp

definition pp_limits :: "'d prefix_pool \<Rightarrow> nat \<times> nat \<times> nat" where
  "pp_limits p = (pp_capacity p, pp_memory_limit p, pp_entry_bytes p)"

text \<open>What \<open>acquire\<close> and its eviction loop guarantee.\<close>

definition pp_frame :: "'d prefix_pool \<Rightarrow> 'd prefix_pool \<Rightarrow> bool" where
  "pp_frame p p' \<longleftrightarrow>
     pp_capacity p' = pp_capacity p \<and> pp_memory_limit p' = pp_memory_limit p \<and>
     pp_entry_bytes p' = pp_entry_bytes p \<and> pp_next p \<le> pp_next p' \<and>
     (\<forall>b. b < pp_next p \<longrightarrow> pp_pins p' b = pp_pins p b \<and> pp_heap p' b = pp_heap p b) \<and>
     (\<exists>n. pc_abs (pp_index p') = take n (pc_abs (pp_index p)))"

lemma pp_frame_refl: "pp_frame p p"
  by (auto simp: pp_frame_def intro: exI [of _ "length (pc_order (pp_index p))"])

lemma pp_inv_with_perm:
  "pp_inv_with bs p \<Longrightarrow> pc_inv (pp_index p') \<Longrightarrow> pc_capacity (pp_index p') = pp_capacity p' \<Longrightarrow>
   mset (bs' @ pp_owned p') = mset (bs @ pp_owned p) \<Longrightarrow> pp_allocated p' = pp_allocated p \<Longrightarrow>
   pp_frame p p' \<Longrightarrow> pp_inv_with bs' p'"
  unfolding pp_inv_with_def pp_frame_def
  by (metis (no_types, lifting) mset_eq_setD mset_eq_length mset_eq_imp_distinct_iff order_less_le_trans)

lemma pp_evict_loop_correct:
  "pp_inv_with bs p \<Longrightarrow>
   \<exists>r p'. pp_evict_loop p = Some (r, p') \<and> pp_inv_with ((case r of None \<Rightarrow> [] | Some b \<Rightarrow> [b]) @ bs) p' \<and>
     pp_frame p p' \<and> pp_next p' = pp_next p \<and> (case r of None \<Rightarrow> pc_abs (pp_index p') = [] | Some b \<Rightarrow>
        pp_pins p b = 0 \<and> length (pc_abs (pp_index p')) < length (pc_abs (pp_index p)))"
proof (induction p rule: pp_evict_loop.induct)
  case (1 p)
  have i: "pc_inv (pp_index p)" "pc_capacity (pp_index p) = pp_capacity p"
    using 1(2) by (auto simp: pp_inv_with_def)
  show ?case
  proof (cases rule: pc.extract_lru_cases [OF i(1)])
    case (1 c)
    then have "pp_evict_loop p = Some (None, p\<lparr>pp_index := c\<rparr>)"
      by (auto simp: pp_evict_loop.simps split: option.splits)
    moreover have "pp_frame p (p\<lparr>pp_index := c\<rparr>)" using 1 by (simp add: pp_frame_def del: pc_abs_Nil)
    moreover from this have "pp_inv_with bs (p\<lparr>pp_index := c\<rparr>)"
      using pp_inv_with_perm [OF \<open>pp_inv_with bs p\<close>, of "p\<lparr>pp_index := c\<rparr>" bs] 1 i
      by (simp add: pp_owned_def del: pc_abs_Nil)
    ultimately show ?thesis using 1 by auto
  next
    case (2 b c)
    let ?p' = "p\<lparr>pp_index := c, pp_evictions := pp_evictions p + 1\<rparr>"
    have ex: "pc_extract_lru (pp_index p) = Some (Some b, c)"
      using 2(1) by (auto split: option.splits)
    have "removes OpExtractLru" by simp
    have vals: "mset (lru_values (pc_abs (pp_index p))) = add_mset b (mset (lru_values (pc_abs c)))"
      using pc.conserves [OF i(1) 2(1)] by simp
    have but: "\<exists>n. butlast xs = take n xs" for xs :: "nat lru"
      by (metis butlast_conv_take)
    have shorter: "length (pc_order c) < length (pc_order (pp_index p))"
      using 2(2,4) by (metis length_pc_abs length_butlast length_greater_0_conv diff_less zero_less_one)
    show ?thesis
    proof (cases "pp_pins p b = 0")
      case True
      have "pp_evict_loop p = Some (Some b, ?p')"
        using ex True by (simp add: pp_evict_loop.simps)
      moreover have fr: "pp_frame p ?p'" using 2(4) but by (auto simp: pp_frame_def)
      moreover have "pp_inv_with (b # bs) ?p'"
        by (rule pp_inv_with_perm [OF \<open>pp_inv_with bs p\<close> _ _ _ _ fr])
          (use 2 i vals in \<open>auto simp: pp_owned_def\<close>)
      ultimately show ?thesis using True shorter by auto
    next
      case False
      let ?q = "?p'\<lparr>pp_free := pp_free p @ [b]\<rparr>"
      have step: "pp_evict_loop p = pp_evict_loop ?q"
        using ex False by (subst pp_evict_loop.simps) (simp add: Let_def)
      have fr: "pp_frame p ?q" using 2(4) but by (auto simp: pp_frame_def)
      have "pp_inv_with bs ?q"
        by (rule pp_inv_with_perm [OF \<open>pp_inv_with bs p\<close> _ _ _ _ fr])
          (use 2 i vals in \<open>auto simp: pp_owned_def\<close>)
      from 1(1) [OF ex refl refl refl False this]
      obtain r p' where IH: "pp_evict_loop ?q = Some (r, p')"
        "pp_inv_with ((case r of None \<Rightarrow> [] | Some b \<Rightarrow> [b]) @ bs) p'" "pp_frame ?q p'" "pp_next p' = pp_next ?q"
        "case r of None \<Rightarrow> pc_abs (pp_index p') = [] | Some b \<Rightarrow>
          pp_pins ?q b = 0 \<and> length (pc_abs (pp_index p')) < length (pc_abs (pp_index ?q))"
        by blast
      have "pp_frame p p'" using fr IH(3) by (auto simp: pp_frame_def)
      then show ?thesis using step IH shorter by (auto split: option.splits)
    qed
  qed
qed

lemma pp_frame_trans: "pp_frame p q \<Longrightarrow> pp_frame q r \<Longrightarrow> pp_frame p r"
  by (auto simp: pp_frame_def)

lemma pp_acquire_correct:
  assumes inv: "pp_inv p"
  shows "\<exists>r p'. pp_acquire made p = Some (r, p') \<and> pp_frame p p' \<and>
    (case r of
       Inl e \<Rightarrow> e = NullBuffer \<and> pp_inv p'
     | Inr None \<Rightarrow> pp_inv p'
     | Inr (Some b) \<Rightarrow> pp_inv_with [b] p' \<and> pp_pins p' b = 0 \<and> (b < pp_next p \<longrightarrow> pp_pins p b = 0))"
proof (cases "pp_take_free (pp_pins p) [] (pp_free p)")
  case (Some x)
  obtain b free' where x: "x = (b, free')" by (cases x)
  let ?p' = "p\<lparr>pp_free := free'\<rparr>"
  note tf = pp_take_free_Some [OF Some [unfolded x]]
  have fr: "pp_frame p ?p'"
    by (auto simp: pp_frame_def intro: exI [of _ "length (pc_order (pp_index p))"])
  have "pp_inv_with [b] ?p'"
    by (rule pp_inv_with_perm [OF inv _ _ _ _ fr]) (use inv tf in \<open>auto simp: pp_owned_def pp_inv_with_def\<close>)
  then show ?thesis using Some x tf fr by (auto simp: pp_acquire_def)
next
  case None
  show ?thesis
  proof (cases "pp_allocated p < pp_capacity p")
    case True
    show ?thesis
    proof (cases made)
      case made_None: None
      then show ?thesis using None True inv by (auto simp: pp_acquire_def pp_frame_refl)
    next
      case (Some d)
      let ?p' = "p\<lparr>pp_allocated := pp_allocated p + 1, pp_next := pp_next p + 1,
          pp_heap := (pp_heap p)(pp_next p \<mapsto> d), pp_pins := (pp_pins p)(pp_next p := 0)\<rparr>"
      have "pp_next p \<notin> set (pp_owned p)" using inv by (auto simp: pp_inv_with_def)
      moreover have "pp_owned ?p' = pp_owned p" by (simp add: pp_owned_def)
      ultimately have "pp_inv_with [pp_next p] ?p'"
        using inv True unfolding pp_inv_with_def by (auto simp: less_Suc_eq)
      moreover have "pp_frame p ?p'"
        by (auto simp: pp_frame_def intro: exI [of _ "length (pc_order (pp_index p))"])
      ultimately show ?thesis using None True Some by (auto simp: pp_acquire_def)
    qed
  next
    case False
    obtain r p' where r: "pp_evict_loop p = Some (r, p')"
      "pp_inv_with ((case r of None \<Rightarrow> [] | Some b \<Rightarrow> [b]) @ []) p'" "pp_frame p p'" "pp_next p' = pp_next p"
      "case r of None \<Rightarrow> pc_abs (pp_index p') = [] | Some b \<Rightarrow>
        pp_pins p b = 0 \<and> length (pc_abs (pp_index p')) < length (pc_abs (pp_index p))"
      using pp_evict_loop_correct [OF inv] by blast
    have "pp_pins p' b = 0" if "r = Some b" for b
    proof -
      have "b < pp_next p" using r(2,4) that by (simp add: pp_inv_with_def)
      then show ?thesis using r(3,5) that by (auto simp: pp_frame_def)
    qed
    then show ?thesis using None False r by (auto simp: pp_acquire_def split: option.splits)
  qed
qed

section \<open>The operations\<close>

definition pp_same_readers :: "'d prefix_pool \<Rightarrow> 'd prefix_pool \<Rightarrow> bool" where
  "pp_same_readers p p' \<longleftrightarrow>
     (\<forall>b < pp_next p. pp_pins p b \<noteq> 0 \<longrightarrow> pp_pins p' b = pp_pins p b \<and> pp_heap p' b = pp_heap p b)"

lemma pp_frame_readers: "pp_frame p p' \<Longrightarrow> pp_same_readers p p'"
  by (auto simp: pp_frame_def pp_same_readers_def)

lemma pp_extract_exact:
  assumes inv: "pp_inv p"
  shows "\<exists>found c. pc_extract_exact (pp_index p) identity tokens = Some (found, c) \<and>
    found = lru_get (pc_abs (pp_index p)) (identity, tokens) \<and>
    pc_abs c = lru_drop (identity, tokens) (pc_abs (pp_index p)) \<and>
    pc_inv c \<and> pc_capacity c = pp_capacity p \<and>
    mset (lru_values (pc_abs (pp_index p))) =
      (case found of None \<Rightarrow> {#} | Some b \<Rightarrow> {#b#}) + mset (lru_values (pc_abs c))"
proof -
  have i: "pc_inv (pp_index p)" "pc_capacity (pp_index p) = pp_capacity p"
    using inv by (auto simp: pp_inv_with_def)
  obtain found c where c: "pc_step (OpExtract identity tokens) (pp_index p) = Some (Value found, c)"
    "found = lru_get (pc_abs (pp_index p)) (identity, tokens)"
    "pc_abs c = lru_drop (identity, tokens) (pc_abs (pp_index p))" "pc_inv c"
    using pc.step_refines [OF i(1), of "OpExtract identity tokens"] by (auto simp: lru_extract_def)
  show ?thesis
    using c i pc.conserves [OF i(1) c(1)] pc.cap_step [OF i(1) c(1)]
    by (auto split: option.splits)
qed

text \<open>The state of \<open>put\<close> once a buffer \<open>b\<close> to fill has been found, and when none was.\<close>

lemma pp_got:
  fixes p :: "'d prefix_pool" and made :: "'d option"
  assumes inv: "pp_inv p"
    and ex: "pc_extract_exact (pp_index p) identity tokens = Some (found, c)"
  defines "p1 \<equiv> p\<lparr>pp_index := c\<rparr>"
  defines "got \<equiv> (case found of
      Some b \<Rightarrow> if pp_pins p1 b \<noteq> 0 then pp_acquire made (p1\<lparr>pp_free := pp_free p1 @ [b]\<rparr>)
                else Some (Inr (Some b), p1)
    | None \<Rightarrow> pp_acquire made p1)"
  shows "\<exists>r p2. got = Some (r, p2) \<and> pp_frame p1 p2 \<and>
    (case r of
       Inl e \<Rightarrow> e = NullBuffer \<and> pp_inv p2
     | Inr None \<Rightarrow> pp_inv p2
     | Inr (Some b) \<Rightarrow> pp_inv_with [b] p2 \<and> pp_pins p2 b = 0 \<and> (b < pp_next p \<longrightarrow> pp_pins p b = 0))"
proof -
  have n1: "pp_next p1 = pp_next p" "pp_pins p1 = pp_pins p" by (simp_all add: p1_def)
  have n2: "pp_next (p1\<lparr>pp_free := fs\<rparr>) = pp_next p" "pp_pins (p1\<lparr>pp_free := fs\<rparr>) = pp_pins p" for fs
    by (simp_all add: p1_def)
  note e = pp_extract_exact [OF inv, of identity tokens, unfolded ex]
  have c: "pc_inv c" "pc_capacity c = pp_capacity p"
    "mset (lru_values (pc_abs (pp_index p))) =
      (case found of None \<Rightarrow> {#} | Some b \<Rightarrow> {#b#}) + mset (lru_values (pc_abs c))"
    using e by auto
  have perm: "mset (lru_values (pc_abs c) @ pp_free p @ (case found of None \<Rightarrow> [] | Some b \<Rightarrow> [b])) =
      mset (pp_owned p)"
    using c(3) by (auto simp: pp_owned_def split: option.splits)
  have inv': "pp_inv_with bs (p1\<lparr>pp_free := fs\<rparr>)"
    if "mset (bs @ lru_values (pc_abs c) @ fs) = mset (pp_owned p)" for bs fs
    using inv that mset_eq_setD [OF that] mset_eq_length [OF that] mset_eq_imp_distinct_iff [OF that] c
    unfolding pp_inv_with_def by (simp add: pp_owned_def p1_def)
  show ?thesis
  proof (cases found)
    case None
    have "pp_inv (p1\<lparr>pp_free := pp_free p\<rparr>)" using perm None by (intro inv') simp
    moreover have "p1\<lparr>pp_free := pp_free p\<rparr> = p1" by (simp add: p1_def)
    ultimately have "pp_inv p1" by simp
    from pp_acquire_correct [OF this, of made, unfolded n1] show ?thesis
      using None by (simp add: got_def)
  next
    case (Some b)
    show ?thesis
    proof (cases "pp_pins p b = 0")
      case True
      have "pp_inv_with [b] (p1\<lparr>pp_free := pp_free p\<rparr>)" using perm Some by (intro inv') simp
      then show ?thesis using Some True by (auto simp: got_def p1_def pp_frame_refl)
    next
      case False
      have "pp_inv (p1\<lparr>pp_free := pp_free p @ [b]\<rparr>)" using perm Some by (intro inv') simp
      from pp_acquire_correct [OF this, of made, unfolded n2]
      have "\<exists>r p2. got = Some (r, p2) \<and> pp_frame (p1\<lparr>pp_free := pp_free p @ [b]\<rparr>) p2 \<and>
        (case r of
           Inl e \<Rightarrow> e = NullBuffer \<and> pp_inv p2
         | Inr None \<Rightarrow> pp_inv p2
         | Inr (Some b) \<Rightarrow> pp_inv_with [b] p2 \<and> pp_pins p2 b = 0 \<and> (b < pp_next p \<longrightarrow> pp_pins p b = 0))"
        using Some False by (simp add: got_def) (simp add: p1_def)
      moreover have "pp_frame p1 p2" if "pp_frame (p1\<lparr>pp_free := pp_free p @ [b]\<rparr>) p2" for p2
        using that by (simp add: pp_frame_def)
      ultimately show ?thesis by blast
    qed
  qed
qed

lemma lru_drop_map: "lru_drop k (map (\<lambda>(i, t, b). (i, t, f b)) xs) = map (\<lambda>(i, t, b). (i, t, f b)) (lru_drop k xs)"
  by (auto simp: lru_drop_def filter_map comp_def lru_key_def intro!: arg_cong [where f = "map _"] filter_cong)

lemma lru_get_map:
  "lru_get (map (\<lambda>(i, t, b). (i, t, f b)) xs) k = map_option f (lru_get xs k)"
  by (induction xs) (auto simp: lru_get_def lru_key_def)

lemma lru_find_map:
  "map_option (\<lambda>(b, n). (f b, n)) (fst (lru_find identity tokens xs)) =
     fst (lru_find identity tokens (map (\<lambda>(i, t, b). (i, t, f b)) xs))"
proof -
  have l: "lru_longest identity tokens (map (\<lambda>(i, t, b). (i, t, f b)) xs) = lru_longest identity tokens xs"
    by (simp add: lru_longest_def lru_get_map)
  show ?thesis
  proof (cases "lru_longest identity tokens xs")
    case None
    then show ?thesis by (simp add: lru_find_def l)
  next
    case (Some k)
    then obtain v where "lru_get xs (identity, take k tokens) = Some v"
      using lru_longest_Some by blast
    then show ?thesis using Some by (simp add: lru_find_def l lru_get_map Let_def)
  qed
qed

lemma lru_find_hit:
  assumes "tokens \<noteq> []"
  shows "fst (lru_find identity tokens ((identity, tokens, d) # xs)) = Some (d, length tokens)"
proof -
  have "lru_longest identity tokens ((identity, tokens, d) # xs) = Some (length tokens)"
    unfolding lru_longest_def using assms
    by (intro find_rev_upt) (auto simp: lru_get_def lru_key_def Suc_le_eq)
  then show ?thesis by (simp add: lru_find_def Let_def lru_get_def lru_key_def)
qed

lemma pp_abs_frame:
  assumes "pp_inv p" "pp_frame (p\<lparr>pp_index := c\<rparr>) p'" "pc_abs c = lru_drop k (pc_abs (pp_index p))"
  shows "\<exists>n. map (\<lambda>(identity, tokens, b). (identity, tokens, the (pp_heap p' b))) (pc_abs (pp_index p')) =
      take n (lru_drop k (pp_abs p))"
proof -
  obtain n where n: "pc_abs (pp_index p') = take n (lru_drop k (pc_abs (pp_index p)))"
    using assms(2,3) by (auto simp: pp_frame_def)
  have old: "b < pp_next p" if "(i, t, b) \<in> set (pc_abs (pp_index p))" for i t b
    using assms(1) that by (force simp: pp_inv_with_def pp_owned_def lru_values_def)
  have same: "pp_heap p' b = pp_heap p b" if "(i, t, b) \<in> set (take n (lru_drop k (pc_abs (pp_index p))))" for i t b
    using assms(2) old [of i t b] in_set_takeD [OF that] by (auto simp: pp_frame_def lru_drop_def)
  then have "map (\<lambda>(i, t, b). (i, t, the (pp_heap p' b))) (pc_abs (pp_index p')) =
      map (\<lambda>(i, t, b). (i, t, the (pp_heap p b))) (take n (lru_drop k (pc_abs (pp_index p))))"
    unfolding n by (intro map_cong) auto
  also have "\<dots> = take n (lru_drop k (pp_abs p))"
    by (simp add: pp_abs_def lru_drop_map take_map)
  finally show ?thesis by blast
qed

lemma pp_put_correct:
  assumes inv: "pp_inv p"
  shows "\<exists>r p'. pp_put made fill p identity tokens = Some (r, p') \<and> pp_inv p' \<and> pp_same_readers p p' \<and>
    pp_limits p' = pp_limits p \<and>
    (case r of
       Inr True \<Rightarrow> \<exists>n d0 d. fill d0 = (d, True) \<and>
          pp_abs p' = (identity, tokens, d) # take n (lru_drop (identity, tokens) (pp_abs p))
     | _ \<Rightarrow> p' = p \<or> (\<exists>n. pp_abs p' = take n (lru_drop (identity, tokens) (pp_abs p))))"
proof (cases "pp_capacity p = 0 \<or> tokens = []")
  case True
  then show ?thesis using inv by (auto simp: pp_put_def pp_same_readers_def)
next
  case False
  obtain found c where ex: "pc_extract_exact (pp_index p) identity tokens = Some (found, c)"
    and c: "pc_abs c = lru_drop (identity, tokens) (pc_abs (pp_index p))"
    using pp_extract_exact [OF inv, of identity tokens] by blast
  let ?p1 = "p\<lparr>pp_index := c\<rparr>"
  let ?got = "case found of
      Some b \<Rightarrow> if pp_pins ?p1 b \<noteq> 0 then pp_acquire made (?p1\<lparr>pp_free := pp_free ?p1 @ [b]\<rparr>)
                else Some (Inr (Some b), ?p1)
    | None \<Rightarrow> pp_acquire made ?p1"
  obtain r p2 where got: "?got = Some (r, p2)" "pp_frame ?p1 p2"
    "case r of
       Inl e \<Rightarrow> e = NullBuffer \<and> pp_inv p2
     | Inr None \<Rightarrow> pp_inv p2
     | Inr (Some b) \<Rightarrow> pp_inv_with [b] p2 \<and> pp_pins p2 b = 0 \<and> (b < pp_next p \<longrightarrow> pp_pins p b = 0)"
    using pp_got [OF inv ex, of made] by blast
  obtain n where n: "map (\<lambda>(identity, tokens, b). (identity, tokens, the (pp_heap p2 b))) (pc_abs (pp_index p2)) =
      take n (lru_drop (identity, tokens) (pp_abs p))"
    using pp_abs_frame [OF inv got(2) c] by blast
  have rd: "pp_same_readers p p2" and cap: "pp_limits p2 = pp_limits p"
    using pp_frame_readers [OF got(2)] got(2) by (simp_all add: pp_same_readers_def pp_frame_def pp_limits_def)
  consider (error) e where "r = Inl e" | (skip) "r = Inr None" | (fill) b where "r = Inr (Some b)"
    by (metis option.exhaust sum.exhaust)
  then show ?thesis
  proof cases
    case error
    have "pp_put made fill p identity tokens = Some (Inl e, p2)"
      using False got(1) error by (simp add: pp_put_def ex Let_def)
    then show ?thesis using got(3) error n rd cap by (auto simp: pp_abs_def pp_limits_def)
  next
    case skip
    let ?p' = "p2\<lparr>pp_skipped := pp_skipped p2 + 1\<rparr>"
    have "pp_put made fill p identity tokens = Some (Inr False, ?p')"
      using False got(1) skip by (simp add: pp_put_def ex Let_def)
    moreover have "pp_inv ?p'" using got(3) skip by (simp add: pp_inv_with_def pp_owned_def)
    moreover have "pp_same_readers p ?p'" using rd by (simp add: pp_same_readers_def)
    ultimately show ?thesis using n cap by (auto simp: pp_abs_def pp_limits_def)
  next
    case fill
    have b: "pp_inv_with [b] p2" "pp_pins p2 b = 0" "b < pp_next p \<longrightarrow> pp_pins p b = 0"
      using got(3) fill by auto
    obtain d0 where d0: "pp_heap p2 b = Some d0" using b(1) by (auto simp: pp_inv_with_def)
    obtain d ok where d: "fill d0 = (d, ok)" by fastforce
    let ?p3 = "p2\<lparr>pp_heap := (pp_heap p2)(b \<mapsto> d)\<rparr>"
    have rd3: "pp_same_readers p ?p3"
      using rd b by (auto simp: pp_same_readers_def)
    have fresh: "b \<notin> set (lru_values (pc_abs (pp_index p2)))"
      using b(1) by (simp add: pp_inv_with_def pp_owned_def)
    then have keep: "map (\<lambda>(i, t, b'). (i, t, the (((pp_heap p2)(b \<mapsto> d)) b'))) (pc_abs (pp_index p2)) =
        map (\<lambda>(i, t, b'). (i, t, the (pp_heap p2 b'))) (pc_abs (pp_index p2))"
      by (intro map_cong) (force simp: lru_values_def)+
    show ?thesis
    proof (cases ok)
      case False': False
      let ?p' = "?p3\<lparr>pp_free := pp_free ?p3 @ [b]\<rparr>"
      have put: "pp_put made fill p identity tokens = Some (Inl FillFailed, ?p')"
        using False got(1) fill d0 d False' by (simp add: pp_put_def ex Let_def)
      have "pp_inv ?p'"
        using b(1) fresh by (auto simp: pp_inv_with_def pp_owned_def)
      moreover have "pp_same_readers p ?p'" using rd3 by (simp add: pp_same_readers_def)
      moreover have "pp_abs ?p' = take n (lru_drop (identity, tokens) (pp_abs p))"
        using n keep by (simp add: pp_abs_def)
      ultimately show ?thesis using put cap by (auto simp: pp_limits_def)
    next
      case True
      have i: "pc_inv (pp_index p2)" "pc_capacity (pp_index p2) = pp_capacity p2"
        using b(1) by (simp_all add: pp_inv_with_def)
      have room: "length (pc_abs (pp_index p2)) < pc_capacity (pp_index p2)"
        using b(1) by (simp add: pp_inv_with_def pp_owned_def lru_values_def)
      have "lru_get (pc_abs (pp_index p2)) (identity, tokens) = None"
        using got(2) c by (fastforce simp: pp_frame_def lru_get_def lru_drop_def find_None_iff dest: in_set_takeD)
      then obtain c' where c': "pc_step (OpPut identity tokens b) (pp_index p2) = Some (Done, c')"
        "pc_inv c'" "pc_capacity c' = pc_capacity (pp_index p2)"
        "pc_abs c' = (identity, tokens, b) # pc_abs (pp_index p2)"
        using pc.put_room [OF i(1) _ room] False by blast
      let ?p' = "?p3\<lparr>pp_index := c'\<rparr>"
      have put: "pp_put made fill p identity tokens = Some (Inr True, ?p')"
        using False got(1) fill d0 d True c'(1) by (auto simp: pp_put_def ex Let_def)
      have "pp_inv ?p'"
        using b(1) c' i by (auto simp: pp_inv_with_def pp_owned_def lru_values_def)
      moreover have "pp_same_readers p ?p'" using rd3 by (simp add: pp_same_readers_def)
      moreover have "pp_abs ?p' = (identity, tokens, d) # take n (lru_drop (identity, tokens) (pp_abs p))"
        using n keep c'(4) by (simp add: pp_abs_def)
      ultimately show ?thesis using put cap d True by (fastforce simp: pp_limits_def)
    qed
  qed
qed

lemma pp_find_correct:
  assumes inv: "pp_inv p"
  shows "\<exists>r p'. pp_find p identity tokens = Some (r, p') \<and> pp_inv p' \<and> pp_limits p' = pp_limits p \<and> pp_heap p' = pp_heap p \<and>
    map_option (\<lambda>(b, n). (the (pp_heap p b), n)) r = fst (lru_find identity tokens (pp_abs p)) \<and>
    (\<forall>b n. r = Some (b, n) \<longrightarrow> 0 < pp_pins p' b)"
proof -
  have i: "pc_inv (pp_index p)" using inv by (simp add: pp_inv_with_def)
  obtain r c where c: "pc_step (OpFind identity tokens) (pp_index p) = Some (Match r, c)" "pc_inv c"
    "r = fst (lru_find identity tokens (pc_abs (pp_index p)))"
    using pc.step_refines [OF i, of "OpFind identity tokens"] by (auto simp: map_prod_def split_beta)
  have cap: "pc_capacity c = pp_capacity p"
    using pc.cap_step [OF i c(1)] inv by (simp add: pp_inv_with_def)
  have perm: "mset (lru_values (pc_abs c)) = mset (lru_values (pc_abs (pp_index p)))"
    using pc.conserves [OF i c(1)] by simp
  have inv': "pp_inv p'" if "pp_index p' = c" "pp_free p' = pp_free p" "pp_allocated p' = pp_allocated p"
    "pp_capacity p' = pp_capacity p" "pp_next p' = pp_next p" "pp_heap p' = pp_heap p"
    "pp_entry_bytes p' = pp_entry_bytes p" "pp_memory_limit p' = pp_memory_limit p" for p'
  proof -
    have m: "mset (pp_owned p') = mset (pp_owned p)" using perm that by (simp add: pp_owned_def)
    show ?thesis
      using inv that c(2) cap mset_eq_setD [OF m] mset_eq_length [OF m] mset_eq_imp_distinct_iff [OF m]
      by (simp add: pp_inv_with_def)
  qed
  have find: "pc_find (pp_index p) identity tokens = Some (r, c)" using c(1) by auto
  have r: "map_option (\<lambda>(b, n). (the (pp_heap p b), n)) r = fst (lru_find identity tokens (pp_abs p))"
    unfolding c(3) pp_abs_def by (rule lru_find_map)
  show ?thesis
  proof (cases r)
    case None
    then show ?thesis using find r by (auto simp: pp_find_def pp_limits_def intro!: inv')
  next
    case (Some x)
    then show ?thesis using find r by (cases x) (auto simp: pp_find_def pp_limits_def intro!: inv')
  qed
qed

lemma pp_erase_correct:
  assumes inv: "pp_inv p"
  shows "\<exists>p'. pp_erase_identity p identity = Some p' \<and> pp_inv p' \<and> pp_limits p' = pp_limits p \<and> pp_heap p' = pp_heap p \<and>
    pp_abs p' = filter (\<lambda>x. fst x \<noteq> identity) (pp_abs p)"
proof -
  have i: "pc_inv (pp_index p)" using inv by (simp add: pp_inv_with_def)
  obtain vs c where c: "pc_step (OpErase identity) (pp_index p) = Some (Values vs, c)" "pc_inv c"
    "pc_abs c = filter (\<lambda>x. fst x \<noteq> identity) (pc_abs (pp_index p))"
    using pc.step_refines [OF i, of "OpErase identity"] by (auto simp: lru_erase_identity_def)
  let ?p' = "p\<lparr>pp_index := c, pp_retired := pp_retired p + of_nat (length vs), pp_free := pp_free p @ vs\<rparr>"
  have cap: "pc_capacity c = pp_capacity p"
    using pc.cap_step [OF i c(1)] inv by (simp add: pp_inv_with_def)
  have m: "mset (pp_owned ?p') = mset (pp_owned p)"
    using pc.conserves [OF i c(1)] by (simp add: pp_owned_def)
  have "pp_inv ?p'"
    using inv c(2) cap mset_eq_setD [OF m] mset_eq_length [OF m] mset_eq_imp_distinct_iff [OF m]
    by (simp add: pp_inv_with_def)
  moreover have "pp_abs ?p' = filter (\<lambda>x. fst x \<noteq> identity) (pp_abs p)"
    by (simp add: pp_abs_def c(3) filter_map comp_def split_beta)
  moreover have "pp_erase_identity p identity = Some ?p'"
    using c(1) by (auto simp: pp_erase_identity_def)
  ultimately show ?thesis by (auto simp: pp_limits_def)
qed

section \<open>Whole runs\<close>

datatype 'd pool_op =
    PoolPut "'d option" "'d \<Rightarrow> 'd \<times> bool" string "token list"
  | PoolFind string "token list"
  | PoolRelease nat
  | PoolErase string

datatype pool_out = PutOut "pool_error + bool" | FindOut "(nat \<times> nat) option" | NoOut

fun pool_step :: "'d pool_op \<Rightarrow> 'd prefix_pool \<Rightarrow> (pool_out \<times> 'd prefix_pool) option" where
  "pool_step (PoolPut made fill identity tokens) p =
     map_option (map_prod PutOut id) (pp_put made fill p identity tokens)"
| "pool_step (PoolFind identity tokens) p = map_option (map_prod FindOut id) (pp_find p identity tokens)"
| "pool_step (PoolRelease b) p = Some (NoOut, pp_release b p)"
| "pool_step (PoolErase identity) p = map_option (Pair NoOut) (pp_erase_identity p identity)"

lemma pool_step_inv:
  "pp_inv p \<Longrightarrow> \<exists>r p'. pool_step op p = Some (r, p') \<and> pp_inv p' \<and> pp_limits p' = pp_limits p"
proof (cases op)
  case (PoolPut made fill identity tokens)
  then show "pp_inv p \<Longrightarrow> ?thesis"
    using pp_put_correct [of p made fill identity tokens] by auto
next
  case (PoolFind identity tokens)
  then show "pp_inv p \<Longrightarrow> ?thesis" using pp_find_correct [of p identity tokens] by auto
next
  case (PoolErase identity)
  then show "pp_inv p \<Longrightarrow> ?thesis" using pp_erase_correct [of p identity] by auto
qed (auto simp: pp_release_def pp_inv_with_def pp_owned_def pp_limits_def)

lemma pool_run_inv:
  "pp_inv p \<Longrightarrow>
     \<exists>rs p'. run_ops pool_step ops p = Some (rs, p') \<and> pp_inv p' \<and> pp_limits p' = pp_limits p"
proof (induction ops arbitrary: p)
  case (Cons op ops)
  obtain r p' where "pool_step op p = Some (r, p')" "pp_inv p'" "pp_limits p' = pp_limits p"
    using pool_step_inv [OF Cons.prems] by blast
  then show ?case using Cons.IH [of p'] by auto
qed simp

lemma pool_init_inv:
  "prefix_cache_pool capacity memory_limit entry_bytes = Inr p \<Longrightarrow>
     pp_inv p \<and> pp_limits p = (min capacity (memory_limit div entry_bytes), memory_limit, entry_bytes)"
proof -
  assume "prefix_cache_pool capacity memory_limit entry_bytes = Inr p"
  moreover have "min capacity (memory_limit div entry_bytes) * entry_bytes \<le> memory_limit"
    by (metis div_times_less_eq_dividend dual_order.trans min.cobounded2 mult_le_mono1)
  ultimately show ?thesis
    by (auto simp: prefix_cache_pool_def pp_inv_with_def pp_owned_def lru_values_def Let_def
        pc_inv_empty pp_limits_def prefix_cache_def [THEN arg_cong, of pc_order] split: if_splits)
qed

definition pool_reachable :: "nat \<Rightarrow> nat \<Rightarrow> nat \<Rightarrow> 'd prefix_pool \<Rightarrow> bool" where
  "pool_reachable capacity memory_limit entry_bytes p \<longleftrightarrow>
     (\<exists>p0 ops rs. prefix_cache_pool capacity memory_limit entry_bytes = Inr p0 \<and>
        run_ops pool_step ops p0 = Some (rs, p))"

lemma pool_reachable_inv:
  "pool_reachable capacity memory_limit entry_bytes p \<Longrightarrow>
     pp_inv p \<and> pp_limits p = (min capacity (memory_limit div entry_bytes), memory_limit, entry_bytes)"
  unfolding pool_reachable_def
proof (elim exE conjE)
  fix p0 ops rs
  assume "prefix_cache_pool capacity memory_limit entry_bytes = Inr p0"
    and run: "run_ops pool_step ops p0 = Some (rs, p)"
  then show ?thesis using pool_init_inv [of capacity memory_limit entry_bytes p0] pool_run_inv [of p0 ops]
    by auto
qed

section \<open>Properties\<close>

text \<open>
  C7. After every sequence of \<open>put\<close> (with buffers that may be null and fills that may
  throw), \<open>find\<close>, release and \<open>erase_identity\<close>, no operation is undefined, every allocated
  buffer is in the index or on the free list exactly once, and the allocated bytes stay within
  the memory limit.
\<close>

theorem pool_conserves_buffers:
  assumes "prefix_cache_pool capacity memory_limit entry_bytes = Inr p0"
  shows "\<exists>rs p. run_ops pool_step ops p0 = Some (rs, p) \<and> distinct (pp_owned p) \<and>
    pp_size p + length (pp_free p) = pp_allocated p \<and> pp_allocated p \<le> capacity \<and>
    pp_allocated_bytes p \<le> memory_limit \<and> pp_used_bytes p \<le> pp_allocated_bytes p"
proof -
  obtain rs p where p: "run_ops pool_step ops p0 = Some (rs, p)" "pp_inv p"
    "pp_limits p = (min capacity (memory_limit div entry_bytes), memory_limit, entry_bytes)"
    using pool_init_inv [OF assms] pool_run_inv [of p0 ops] by fastforce
  then have "pp_allocated p * pp_entry_bytes p \<le> memory_limit"
    by (auto simp: pp_inv_with_def pp_limits_def intro: order_trans [OF mult_le_mono1])
  then show ?thesis
    using p by (auto simp: pp_inv_with_def pp_owned_def pp_size_def pc_size_def lru_values_def
        pp_allocated_bytes_def pp_used_bytes_def pp_limits_def)
qed

theorem pool_conserves_buffers_witness:
  "\<exists>p0 rs p. prefix_cache_pool 5 100 40 = Inr p0 \<and>
     run_ops pool_step [PoolPut (Some 0) (\<lambda>d. (d + 1, True)) ''a'' [1, 2], PoolFind ''a'' [1, 2, 3],
       PoolPut (Some 0) (\<lambda>d. (7 :: nat, False)) ''a'' [1, 2]] p0 = Some (rs, p) \<and>
     pp_size p + length (pp_free p) = pp_allocated p \<and> pp_allocated_bytes p \<le> 100"
proof -
  obtain p0 :: "nat prefix_pool" where p0: "prefix_cache_pool 5 100 40 = Inr p0"
    by (simp add: prefix_cache_pool_def Let_def)
  show ?thesis
    using p0 pool_conserves_buffers [OF p0, of "[PoolPut (Some 0) (\<lambda>d. (d + 1, True)) ''a'' [1, 2],
       PoolFind ''a'' [1, 2, 3], PoolPut (Some 0) (\<lambda>d. (7 :: nat, False)) ''a'' [1, 2]]"] by blast
qed

text \<open>
  C10. A buffer that a reader still holds through a match is never overwritten: whatever \<open>put\<close>
  does - reuse, evict, allocate, replace, fail or throw - the contents of pinned buffers and
  the pins stay as they are.
\<close>

theorem pool_put_keeps_pinned:
  assumes "pool_reachable capacity memory_limit entry_bytes p"
    and "pp_put made fill p identity tokens = Some (r, p')"
    and "b < pp_next p" "0 < pp_pins p b"
  shows "pp_heap p' b = pp_heap p b \<and> pp_pins p' b = pp_pins p b"
  using pp_put_correct [of p made fill identity tokens] pool_reachable_inv [OF assms(1)] assms(2-4)
  by (auto simp: pp_same_readers_def)

definition pinned_pool :: "nat prefix_pool" where
  "pinned_pool = (case prefix_cache_pool 2 16 8 of Inr p0 \<Rightarrow>
     (case run_ops pool_step [PoolPut (Some 0) (\<lambda>_. (5, True)) ''a'' [1], PoolFind ''a'' [1, 2]] p0 of
        Some (_, p) \<Rightarrow> p))"

lemma pinned_pool_reachable: "pool_reachable 2 16 8 pinned_pool"
proof -
  obtain p0 :: "nat prefix_pool" where p0: "prefix_cache_pool 2 16 8 = Inr p0"
    by (simp add: prefix_cache_pool_def Let_def)
  let ?ops = "[PoolPut (Some 0) (\<lambda>_. (5, True)) ''a'' [1], PoolFind ''a'' [1, 2]]"
  obtain rs p where run: "run_ops pool_step ?ops p0 = Some (rs, p)"
    using pool_run_inv pool_init_inv [OF p0] by blast
  then have "pinned_pool = p" by (simp only: pinned_pool_def p0 sum.case option.case prod.case)
  then show ?thesis using p0 run unfolding pool_reachable_def by blast
qed

lemma pinned_pool_state:
  "pp_next pinned_pool = 1" "pp_pins pinned_pool 0 = 1" "pp_heap pinned_pool 0 = Some 5"
  by code_simp+

theorem pool_put_keeps_pinned_witness:
  "\<exists>r p'. pp_put None (\<lambda>_. (9, True)) pinned_pool ''a'' [1] = Some (r, p') \<and> pp_heap p' 0 = Some 5"
proof -
  obtain r p' where "pp_put None (\<lambda>_. (9, True)) pinned_pool ''a'' [1] = Some (r, p')"
    using pp_put_correct [of pinned_pool None "\<lambda>_. (9, True)" "''a''" "[1]"]
      pool_reachable_inv [OF pinned_pool_reachable] by blast
  then show ?thesis
    using pool_put_keeps_pinned [OF pinned_pool_reachable, of None "\<lambda>_. (9, True)" "''a''" "[1]" r p' 0]
      pinned_pool_state by simp
qed

text \<open>
  A \<open>put\<close> that returns true stores what \<open>fill\<close> wrote: looking the same tokens up at once
  matches all of them, in a buffer with exactly those contents.
\<close>

theorem pool_put_then_find:
  assumes "pool_reachable capacity memory_limit entry_bytes p"
    and "pp_put made fill p identity tokens = Some (Inr True, p')"
  shows "\<exists>b p'' d0. pp_find p' identity tokens = Some (Some (b, length tokens), p'') \<and>
    the (pp_heap p'' b) = fst (fill d0) \<and> 0 < pp_pins p'' b"
proof -
  have ne: "tokens \<noteq> []" using assms(2) by (auto simp: pp_put_def split: if_splits)
  have "\<exists>n d0 d. pp_inv p' \<and> fill d0 = (d, True) \<and>
      pp_abs p' = (identity, tokens, d) # take n (lru_drop (identity, tokens) (pp_abs p))"
    using pp_put_correct [of p made fill identity tokens] pool_reachable_inv [OF assms(1)] assms(2) by auto
  then obtain n d0 d where d: "pp_inv p'" "fill d0 = (d, True)"
    "pp_abs p' = (identity, tokens, d) # take n (lru_drop (identity, tokens) (pp_abs p))" by blast
  have "fst (lru_find identity tokens (pp_abs p')) = Some (d, length tokens)"
    unfolding d(3) by (rule lru_find_hit [OF ne])
  then obtain b p'' where "pp_find p' identity tokens = Some (Some (b, length tokens), p'')"
    "the (pp_heap p' b) = d" "pp_heap p'' = pp_heap p'" "0 < pp_pins p'' b"
    using pp_find_correct [OF d(1), of identity tokens] by auto
  then show ?thesis using d(2) by (metis fst_conv)
qed

lemma pinned_pool_put:
  "map_option fst (pp_put (Some 0) (\<lambda>d. (d + 5, True)) pinned_pool ''b'' [7]) = Some (Inr True)"
  by code_simp

theorem pool_put_then_find_witness:
  "\<exists>p' b p''. pp_put (Some 0) (\<lambda>d. (d + 5, True)) pinned_pool ''b'' [7] = Some (Inr True, p') \<and>
     pp_find p' ''b'' [7] = Some (Some (b, 1), p'') \<and> 5 \<le> the (pp_heap p'' b)"
proof -
  obtain p' where p': "pp_put (Some 0) (\<lambda>d. (d + 5, True)) pinned_pool ''b'' [7] = Some (Inr True, p')"
    using pinned_pool_put by auto
  show ?thesis using pool_put_then_find [OF pinned_pool_reachable p'] p' by auto
qed

end
