(* ===== verification/TicketQueue.thy ===== *)
theory TicketQueue
  imports Prelude
begin

text \<open>
  First come, first served waiting under a mutex. \<open>PrefillAdmissionController\<close> and
  \<open>ModelRouter::load\<close> both draw a ticket from a 64-bit counter, append it to a deque and wait
  until it is at the front. The locale states what such a component does to its queue; the
  order of the waiting tickets follows once for both.
\<close>

locale ticket_queue =
  fixes init :: "'s \<Rightarrow> bool" and step :: "'s \<Rightarrow> 's \<Rightarrow> bool"
    and queue :: "'s \<Rightarrow> u64 list" and issued :: "'s \<Rightarrow> nat"
  assumes starts_empty: "init s \<Longrightarrow> queue s = [] \<and> issued s = 0"
    and queue_step: "reachable init step s \<Longrightarrow> step s s' \<Longrightarrow>
      queue s' = queue s \<and> issued s' = issued s \<or>
      queue s' = queue s @ [of_nat (issued s)] \<and> issued s' = Suc (issued s) \<or>
      (\<exists>t. queue s' = remove1 t (queue s)) \<and> issued s' = issued s"
begin

lemma issued_mono: "reachable init step s \<Longrightarrow> step s s' \<Longrightarrow> issued s \<le> issued s'"
  using queue_step by fastforce

text \<open>
  As long as the counter has not wrapped around, the tickets in the queue increase strictly
  and are below the next ticket.
\<close>

lemma tickets_increase:
  assumes "reachable init step s" "issued s \<le> 2 ^ 64"
  shows "sorted_wrt (<) (map unat (queue s)) \<and> (\<forall>t \<in> set (queue s). unat t < issued s)"
  using assms
proof (induction rule: reachable_induct)
  case (Init s)
  then show ?case using starts_empty by simp
next
  case (Step s s')
  have IH: "sorted_wrt (<) (map unat (queue s))" "\<forall>t \<in> set (queue s). unat t < issued s"
    using Step(3,4) issued_mono [OF Step(1,2)] by auto
  consider (same) "queue s' = queue s" "issued s' = issued s"
    | (push) "queue s' = queue s @ [of_nat (issued s)]" "issued s' = Suc (issued s)"
    | (drop) t where "queue s' = remove1 t (queue s)" "issued s' = issued s"
    using queue_step [OF Step(1,2)] by blast
  then show ?case
  proof cases
    case push
    then have "unat (of_nat (issued s) :: u64) = issued s"
      using Step(4) by (simp add: unat_of_nat)
    then show ?thesis using IH push by (auto simp: sorted_wrt_append less_Suc_eq)
  next
    case drop
    have "distinct (queue s)" using IH(1) strict_sorted_iff [of "map unat (queue s)"] by (simp add: distinct_map)
    then show ?thesis using IH drop
      by (auto simp: remove1_filter sorted_wrt_map intro: sorted_wrt_filter)
  qed (use IH in auto)
qed

lemma tickets_distinct:
  "reachable init step s \<Longrightarrow> issued s \<le> 2 ^ 64 \<Longrightarrow> distinct (queue s)"
  using tickets_increase [of s] strict_sorted_iff [of "map unat (queue s)"]
  by (auto simp: distinct_map)

text \<open>The ticket at the front is the oldest one that still waits.\<close>

lemma front_is_oldest:
  assumes "reachable init step s" "issued s \<le> 2 ^ 64" "queue s = t # ts" "u \<in> set (queue s)"
  shows "unat t \<le> unat u"
  using tickets_increase [OF assms(1,2)] assms(3,4) by auto

end

end
