(* ===== verification/Admission.thy ===== *)
theory Admission
  imports TicketQueue
begin

text \<open>
  \<open>PrefillAdmissionController\<close> (\<open>src/server/rwkv_prefill_admission.cpp\<close>). Every operation holds
  \<open>mutex_\<close> except while it waits on the condition variable, so one iteration of the loop in
  \<open>acquire\<close> is one atomic step. The capacity provider and the cancel callback are parameters;
  either may throw, which is \<open>None\<close>.
\<close>

section \<open>State\<close>

record prefill_capacity =
  free_vram_bytes :: nat
  total_vram_bytes :: nat
  reserve_vram_bytes :: nat
  bytes_per_batch :: nat
  cap_max_batch_size :: int

record queue_entry =
  qe_ticket :: u64
  qe_batch_size :: int
  qe_label :: string

record admission =
  ad_queue :: "queue_entry list"
  ad_capacity :: prefill_capacity
  ad_hard_max :: int
  ad_hard_initialized :: bool
  ad_dynamic_max :: int
  ad_reserved :: int
  ad_next_ticket :: u64

record permit =
  pm_held :: bool
  pm_batch_size :: int
  pm_ticket :: u64

record admission_snapshot =
  sn_hard_max :: int
  sn_dynamic_max :: int
  sn_reserved :: int
  sn_queued :: nat
  sn_capacity :: prefill_capacity

section \<open>Operations\<close>

definition no_capacity :: prefill_capacity where
  "no_capacity = \<lparr>free_vram_bytes = 0, total_vram_bytes = 0, reserve_vram_bytes = 0, bytes_per_batch = 0,
                  cap_max_batch_size = 0\<rparr>"

definition refresh_capacity_locked :: "prefill_capacity \<Rightarrow> admission \<Rightarrow> admission" where
  "refresh_capacity_locked cap c =
     (let dyn = max 0 (cap_max_batch_size cap) in
      c\<lparr>ad_capacity := cap,
        ad_dynamic_max := (if ad_hard_initialized c then min dyn (ad_hard_max c) else dyn)\<rparr>)"

definition remove_ticket_locked :: "u64 \<Rightarrow> admission \<Rightarrow> admission" where
  "remove_ticket_locked ticket c =
     c\<lparr>ad_queue := (case find (\<lambda>e. qe_ticket e = ticket) (ad_queue c) of
        None \<Rightarrow> ad_queue c | Some e \<Rightarrow> remove1 e (ad_queue c))\<rparr>"

definition admission_controller :: "prefill_capacity \<Rightarrow> admission" where
  "admission_controller cap =
     (let c0 = \<lparr>ad_queue = [], ad_capacity = no_capacity,
                ad_hard_max = 0, ad_hard_initialized = False, ad_dynamic_max = 0, ad_reserved = 0,
                ad_next_ticket = 0\<rparr>;
          c1 = refresh_capacity_locked cap c0
      in c1\<lparr>ad_hard_max := ad_dynamic_max c1, ad_hard_initialized := True\<rparr>)"

datatype acquire_error = PrefillBatchLimitExceeded int int | CallbackFailed

text \<open>The part of \<open>acquire\<close> before its loop: the caller gets a ticket or an exception.\<close>

definition acquire_enqueue :: "int \<Rightarrow> string \<Rightarrow> admission \<Rightarrow> acquire_error + u64 \<times> int \<times> admission" where
  "acquire_enqueue request_batch_size label c =
     (let bsz = max 1 request_batch_size in
      if bsz > ad_hard_max c then Inl (PrefillBatchLimitExceeded bsz (ad_hard_max c))
      else let ticket = ad_next_ticket c in
        Inr (ticket, bsz,
          c\<lparr>ad_next_ticket := ticket + 1,
            ad_queue := ad_queue c @ [\<lparr>qe_ticket = ticket, qe_batch_size = bsz, qe_label = label\<rparr>]\<rparr>))"

datatype poll_result = Waits | Cancelled | Admitted permit | Throws acquire_error

text \<open>
  One iteration of the loop of \<open>acquire\<close>. \<open>cancel\<close> is the answer of \<open>should_cancel\<close> and \<open>cap\<close>
  that of the capacity provider, which is asked only at the front of the queue.
\<close>

definition acquire_poll ::
    "u64 \<Rightarrow> int \<Rightarrow> bool option \<Rightarrow> prefill_capacity option \<Rightarrow> admission \<Rightarrow> poll_result \<times> admission" where
  "acquire_poll ticket bsz cancel cap c =
     (case cancel of
        None \<Rightarrow> (Throws CallbackFailed, remove_ticket_locked ticket c)
      | Some True \<Rightarrow> (Cancelled, remove_ticket_locked ticket c)
      | Some False \<Rightarrow>
          if ad_queue c \<noteq> [] \<and> qe_ticket (hd (ad_queue c)) = ticket then
            (case cap of
               None \<Rightarrow> (Throws CallbackFailed, remove_ticket_locked ticket c)
             | Some k \<Rightarrow>
                 let c1 = refresh_capacity_locked k c;
                     available = max 0 (ad_dynamic_max c1 - ad_reserved c1)
                 in if bsz \<le> available then
                      (Admitted \<lparr>pm_held = True, pm_batch_size = bsz, pm_ticket = ticket\<rparr>,
                       c1\<lparr>ad_reserved := ad_reserved c1 + bsz, ad_queue := tl (ad_queue c1)\<rparr>)
                    else (Waits, c1))
          else (Waits, c))"

text \<open>
  \<open>release\<close> of the controller; with a provider that throws the reservation is returned but the
  capacity stays.
\<close>

definition controller_release :: "int \<Rightarrow> prefill_capacity option \<Rightarrow> admission \<Rightarrow> admission" where
  "controller_release batch_size cap c =
     (let c1 = c\<lparr>ad_reserved := max 0 (ad_reserved c - batch_size)\<rparr> in
      case cap of None \<Rightarrow> c1 | Some k \<Rightarrow> refresh_capacity_locked k c1)"

definition permit_release ::
    "prefill_capacity option \<Rightarrow> permit \<Rightarrow> admission \<Rightarrow> permit \<times> admission" where
  "permit_release cap p c =
     (if pm_held p then (p\<lparr>pm_held := False\<rparr>, controller_release (pm_batch_size p) cap c) else (p, c))"

text \<open>The move constructor: the source no longer holds anything.\<close>

definition permit_move :: "permit \<Rightarrow> permit \<times> permit" where
  "permit_move other = (other, other\<lparr>pm_held := False\<rparr>)"

text \<open>Move assignment between different objects: (target, source, controller) afterwards.\<close>

definition permit_assign ::
    "prefill_capacity option \<Rightarrow> permit \<Rightarrow> permit \<Rightarrow> admission \<Rightarrow> permit \<times> permit \<times> admission" where
  "permit_assign cap self other c =
     (let (_, c') = permit_release cap self c in (other, other\<lparr>pm_held := False\<rparr>, c'))"

definition admission_snapshot_of ::
    "prefill_capacity option \<Rightarrow> admission \<Rightarrow> admission_snapshot \<times> admission" where
  "admission_snapshot_of refresh c =
     (let c1 = (case refresh of None \<Rightarrow> c | Some k \<Rightarrow> refresh_capacity_locked k c) in
      (\<lparr>sn_hard_max = ad_hard_max c1, sn_dynamic_max = ad_dynamic_max c1, sn_reserved = ad_reserved c1,
        sn_queued = length (ad_queue c1), sn_capacity = ad_capacity c1\<rparr>, c1))"

section \<open>The controller among its clients\<close>

text \<open>
  The system is the controller, the threads that wait in \<open>acquire\<close> (ticket and batch size), the
  permits that exist, and the number of tickets issued so far.
\<close>

record admission_system =
  sys_ctl :: admission
  sys_waiting :: "(u64 \<times> int) list"
  sys_permits :: "permit list"
  sys_issued :: nat

definition admission_init :: "admission_system \<Rightarrow> bool" where
  "admission_init s \<longleftrightarrow> (\<exists>cap. sys_ctl s = admission_controller cap) \<and> sys_waiting s = [] \<and>
     sys_permits s = [] \<and> sys_issued s = 0"

inductive admission_step :: "admission_system \<Rightarrow> admission_system \<Rightarrow> bool" where
  Enqueue: "acquire_enqueue n label (sys_ctl s) = Inr (t, bsz, c') \<Longrightarrow>
    admission_step s (s\<lparr>sys_ctl := c', sys_waiting := sys_waiting s @ [(t, bsz)],
                        sys_issued := Suc (sys_issued s)\<rparr>)"
| Poll_waits: "(t, bsz) \<in> set (sys_waiting s) \<Longrightarrow>
    acquire_poll t bsz cancel cap (sys_ctl s) = (Waits, c') \<Longrightarrow>
    admission_step s (s\<lparr>sys_ctl := c'\<rparr>)"
| Poll_leaves: "(t, bsz) \<in> set (sys_waiting s) \<Longrightarrow>
    acquire_poll t bsz cancel cap (sys_ctl s) = (r, c') \<Longrightarrow> r = Cancelled \<or> r = Throws e \<Longrightarrow>
    admission_step s (s\<lparr>sys_ctl := c', sys_waiting := remove1 (t, bsz) (sys_waiting s)\<rparr>)"
| Poll_admits: "(t, bsz) \<in> set (sys_waiting s) \<Longrightarrow>
    acquire_poll t bsz cancel cap (sys_ctl s) = (Admitted p, c') \<Longrightarrow>
    admission_step s (s\<lparr>sys_ctl := c', sys_waiting := remove1 (t, bsz) (sys_waiting s),
                        sys_permits := p # sys_permits s\<rparr>)"
| Release: "sys_permits s = ps @ p # qs \<Longrightarrow> permit_release cap p (sys_ctl s) = (p', c') \<Longrightarrow>
    admission_step s (s\<lparr>sys_ctl := c', sys_permits := ps @ p' # qs\<rparr>)"
| Snapshot: "admission_snapshot_of refresh (sys_ctl s) = (r, c') \<Longrightarrow>
    admission_step s (s\<lparr>sys_ctl := c'\<rparr>)"

inductive_cases admission_stepE: "admission_step s s'"

abbreviation admission_reachable :: "admission_system \<Rightarrow> bool" where
  "admission_reachable \<equiv> reachable admission_init admission_step"

definition held :: "permit list \<Rightarrow> permit list" where
  "held ps = filter pm_held ps"

definition held_size :: "permit list \<Rightarrow> int" where
  "held_size ps = sum_list (map pm_batch_size (held ps))"

section \<open>Invariant\<close>

definition adm_inv :: "admission_system \<Rightarrow> bool" where
  "adm_inv s \<longleftrightarrow>
     ad_hard_initialized (sys_ctl s) \<and>
     0 \<le> ad_dynamic_max (sys_ctl s) \<and> ad_dynamic_max (sys_ctl s) \<le> ad_hard_max (sys_ctl s) \<and>
     ad_reserved (sys_ctl s) = held_size (sys_permits s) \<and>
     ad_reserved (sys_ctl s) \<le> ad_hard_max (sys_ctl s) \<and>
     (\<forall>p \<in> set (sys_permits s). 1 \<le> pm_batch_size p) \<and>
     (\<forall>(t, bsz) \<in> set (sys_waiting s). 1 \<le> bsz \<and> bsz \<le> ad_hard_max (sys_ctl s))"

lemma held_size_nonneg: "\<forall>p \<in> set ps. 1 \<le> pm_batch_size p \<Longrightarrow> 0 \<le> held_size ps"
  by (induction ps) (auto simp: held_size_def held_def)

lemma held_size_append [simp]: "held_size (ps @ qs) = held_size ps + held_size qs"
  by (simp add: held_size_def held_def)

lemma held_size_Cons [simp]:
  "held_size (p # ps) = (if pm_held p then pm_batch_size p else 0) + held_size ps"
  by (simp add: held_size_def held_def)

lemma held_size_Nil [simp]: "held_size [] = 0"
  by (simp add: held_size_def held_def)

text \<open>What a refresh and a poll leave unchanged.\<close>

lemma refresh_fields [simp]:
  "ad_hard_max (refresh_capacity_locked k c) = ad_hard_max c"
  "ad_hard_initialized (refresh_capacity_locked k c) = ad_hard_initialized c"
  "ad_reserved (refresh_capacity_locked k c) = ad_reserved c"
  "ad_queue (refresh_capacity_locked k c) = ad_queue c"
  "ad_next_ticket (refresh_capacity_locked k c) = ad_next_ticket c"
  by (simp_all add: refresh_capacity_locked_def Let_def)

lemma refresh_dynamic:
  "ad_hard_initialized c \<Longrightarrow> ad_dynamic_max (refresh_capacity_locked k c) =
     min (max 0 (cap_max_batch_size k)) (ad_hard_max c)"
  by (simp add: refresh_capacity_locked_def Let_def)

lemma remove_ticket_fields [simp]:
  "ad_hard_max (remove_ticket_locked t c) = ad_hard_max c"
  "ad_hard_initialized (remove_ticket_locked t c) = ad_hard_initialized c"
  "ad_reserved (remove_ticket_locked t c) = ad_reserved c"
  "ad_dynamic_max (remove_ticket_locked t c) = ad_dynamic_max c"
  "ad_next_ticket (remove_ticket_locked t c) = ad_next_ticket c"
  by (simp_all add: remove_ticket_locked_def)

lemma remove_ticket_queue:
  "map qe_ticket (ad_queue (remove_ticket_locked t c)) = remove1 t (map qe_ticket (ad_queue c))"
proof -
  have "map qe_ticket (case find (\<lambda>e. qe_ticket e = t) q of None \<Rightarrow> q | Some e \<Rightarrow> remove1 e q) =
      remove1 t (map qe_ticket q)" for q
    by (induction q) (auto split: option.splits dest: find_SomeD)
  then show ?thesis by (simp add: remove_ticket_locked_def)
qed

text \<open>The outcomes of a poll.\<close>

lemma acquire_poll_cases:
  assumes "acquire_poll t bsz cancel cap c = (r, c')"
  obtains (waits) "r = Waits" "c' = c \<or> (\<exists>k. c' = refresh_capacity_locked k c)"
    | (leaves) e where "r = Cancelled \<or> r = Throws e" "c' = remove_ticket_locked t c"
    | (admits) k e es where "cancel = Some False" "cap = Some k" "ad_queue c = e # es" "qe_ticket e = t"
        "bsz \<le> max 0 (ad_dynamic_max (refresh_capacity_locked k c) - ad_reserved c)"
        "r = Admitted \<lparr>pm_held = True, pm_batch_size = bsz, pm_ticket = t\<rparr>"
        "c' = (refresh_capacity_locked k c)\<lparr>ad_reserved := ad_reserved c + bsz, ad_queue := es\<rparr>"
proof (cases cancel)
  case None
  then show thesis using assms leaves [of CallbackFailed] by (simp add: acquire_poll_def)
next
  case c: (Some b)
  show thesis
  proof (cases "b \<or> \<not> (ad_queue c \<noteq> [] \<and> qe_ticket (hd (ad_queue c)) = t)")
    case True
    then show thesis using assms c leaves waits
      by (cases b) (auto simp: acquire_poll_def split: if_splits)
  next
    case False
    then obtain e es where q: "ad_queue c = e # es" "qe_ticket e = t" "\<not> b"
      by (cases "ad_queue c") auto
    show thesis
    proof (cases cap)
      case None
      then show thesis using assms c q leaves [of CallbackFailed] by (simp add: acquire_poll_def)
    next
      case (Some k)
      then show thesis
        using assms c q waits admits [of k e es]
        by (auto simp: acquire_poll_def Let_def split: if_splits)
    qed
  qed
qed

lemma adm_inv_cong:
  "adm_inv s' \<Longrightarrow> sys_ctl s = sys_ctl s' \<Longrightarrow> sys_permits s = sys_permits s' \<Longrightarrow>
     sys_waiting s = sys_waiting s' \<Longrightarrow> adm_inv s"
  by (simp add: adm_inv_def)

lemma adm_inv_init: "admission_init s \<Longrightarrow> adm_inv s"
  by (auto simp: admission_init_def admission_controller_def Let_def adm_inv_def
      refresh_capacity_locked_def no_capacity_def)

lemma adm_inv_refresh:
  "adm_inv s \<Longrightarrow> adm_inv (s\<lparr>sys_ctl := refresh_capacity_locked k (sys_ctl s)\<rparr>)"
  using held_size_nonneg by (fastforce simp: adm_inv_def refresh_dynamic)

lemma adm_inv_step: "admission_step s s' \<Longrightarrow> adm_inv s \<Longrightarrow> adm_inv s'"
proof (induction rule: admission_step.induct)
  case (Enqueue n label s t bsz c')
  then show ?case by (auto simp: acquire_enqueue_def Let_def adm_inv_def split: if_splits)
next
  case (Poll_waits t bsz s cancel cap c')
  show ?case using Poll_waits(2) by (cases rule: acquire_poll_cases)
      (use Poll_waits(3) adm_inv_refresh in auto)
next
  case (Poll_leaves t bsz s cancel cap r c' e)
  show ?case using Poll_leaves(2)
  proof (cases rule: acquire_poll_cases)
    case leaves
    then show ?thesis using Poll_leaves(4) by (auto simp: adm_inv_def dest: set_mp [OF set_remove1_subset])
  qed (use Poll_leaves(3) in auto)
next
  case (Poll_admits t bsz s cancel cap p c')
  show ?case using Poll_admits(2)
  proof (cases rule: acquire_poll_cases)
    case (admits k e es)
    have i: "adm_inv s" by fact
    have "1 \<le> bsz" using i Poll_admits(1) by (auto simp: adm_inv_def)
    then show ?thesis using i admits
      by (auto simp: adm_inv_def refresh_dynamic dest: set_mp [OF set_remove1_subset])
  qed auto
next
  case (Release s ps p qs cap p' c')
  show ?case
  proof (cases "pm_held p")
    case False
    then have "s\<lparr>sys_ctl := c', sys_permits := ps @ p' # qs\<rparr> = s"
      using Release(1,2) by (auto simp: permit_release_def)
    then show ?thesis using Release(3) by simp
  next
    case True
    have i: "adm_inv s" by fact
    have nn: "0 \<le> held_size ps" "0 \<le> held_size qs" "1 \<le> pm_batch_size p"
      using i Release(1) held_size_nonneg by (auto simp: adm_inv_def)
    let ?c = "(sys_ctl s)\<lparr>ad_reserved := max 0 (ad_reserved (sys_ctl s) - pm_batch_size p)\<rparr>"
    have base: "adm_inv (s\<lparr>sys_ctl := ?c, sys_permits := ps @ p\<lparr>pm_held := False\<rparr> # qs\<rparr>)"
      using i nn True Release(1) by (auto simp: adm_inv_def)
    have "adm_inv (s\<lparr>sys_ctl := refresh_capacity_locked k ?c, sys_permits := ps @ p\<lparr>pm_held := False\<rparr> # qs\<rparr>)" for k
      by (rule adm_inv_cong [OF adm_inv_refresh [OF base, of k]]) simp_all
    then show ?thesis
      using base Release(2) True
      by (auto simp: permit_release_def controller_release_def Let_def split: option.splits)
  qed
next
  case (Snapshot refresh s r c')
  then show ?case using adm_inv_refresh
    by (auto simp: admission_snapshot_of_def Let_def split: option.splits)
qed

lemma adm_inv_reachable: "admission_reachable s \<Longrightarrow> adm_inv s"
  by (induction rule: reachable_induct) (auto intro: adm_inv_init adm_inv_step)

lemma adm_next_ticket:
  "admission_reachable s \<Longrightarrow> ad_next_ticket (sys_ctl s) = of_nat (sys_issued s)"
proof (induction rule: reachable_induct)
  case (Step s s')
  from Step(2,3) show ?case
  proof (induction rule: admission_step.induct)
    case (Poll_waits t bsz s cancel cap c')
    from Poll_waits(2) show ?case by (cases rule: acquire_poll_cases) (use Poll_waits in auto)
  next
    case (Poll_leaves t bsz s cancel cap r c' e)
    from Poll_leaves(2) show ?case by (cases rule: acquire_poll_cases) (use Poll_leaves in auto)
  next
    case (Poll_admits t bsz s cancel cap p c')
    from Poll_admits(2) show ?case by (cases rule: acquire_poll_cases) (use Poll_admits in auto)
  qed (auto simp: acquire_enqueue_def permit_release_def controller_release_def
      admission_snapshot_of_def Let_def split: if_splits option.splits)
qed (auto simp: admission_init_def admission_controller_def Let_def refresh_capacity_locked_def no_capacity_def)

interpretation adm: ticket_queue admission_init admission_step
  "\<lambda>s. map qe_ticket (ad_queue (sys_ctl s))" sys_issued
proof (unfold_locales, goal_cases)
  case (1 s)
  then show ?case by (auto simp: admission_init_def admission_controller_def Let_def
      refresh_capacity_locked_def no_capacity_def)
next
  case (2 s s')
  note nx = adm_next_ticket [OF 2(1)]
  from 2(2) nx show ?case
  proof (induction rule: admission_step.induct)
    case (Poll_waits t bsz s cancel cap c')
    from Poll_waits(2) show ?case by (cases rule: acquire_poll_cases) auto
  next
    case (Poll_leaves t bsz s cancel cap r c' e)
    from Poll_leaves(2) show ?case
      by (cases rule: acquire_poll_cases) (use Poll_leaves(3) in \<open>auto simp: remove_ticket_queue\<close>)
  next
    case (Poll_admits t bsz s cancel cap p c')
    from Poll_admits(2) show ?case by (cases rule: acquire_poll_cases) (auto intro!: exI [of _ t])
  qed (auto simp: acquire_enqueue_def permit_release_def controller_release_def
      admission_snapshot_of_def Let_def split: if_splits option.splits)
qed

section \<open>Properties\<close>

text \<open>
  The queue of the controller and the threads that wait are the same, in the same order.
\<close>

lemma remove1_pair:
  "distinct (map fst xs) \<Longrightarrow> (t, b) \<in> set xs \<Longrightarrow> remove1 (t, b) xs = filter (\<lambda>x. fst x \<noteq> t) xs"
  by (induction xs) (auto simp: image_iff intro!: filter_True [symmetric])

lemma remove_ticket_pairs:
  assumes "distinct (map qe_ticket (ad_queue c))"
  shows "ad_queue (remove_ticket_locked t c) = filter (\<lambda>e. qe_ticket e \<noteq> t) (ad_queue c)"
proof -
  have "(case find (\<lambda>e. qe_ticket e = t) q of None \<Rightarrow> q | Some e \<Rightarrow> remove1 e q) =
      filter (\<lambda>e. qe_ticket e \<noteq> t) q" if "distinct (map qe_ticket q)" for q
    using that
  proof (induction q)
    case (Cons a q)
    show ?case
    proof (cases "qe_ticket a = t")
      case True
      then have "filter (\<lambda>e. qe_ticket e \<noteq> t) q = q"
        using Cons.prems by (intro filter_True) (force simp: image_iff)
      then show ?thesis using True by simp
    next
      case False
      then show ?thesis using Cons by (auto split: option.splits dest: find_SomeD)
    qed
  qed simp
  then show ?thesis using assms by (simp add: remove_ticket_locked_def)
qed

definition queue_pairs :: "admission_system \<Rightarrow> (u64 \<times> int) list" where
  "queue_pairs s = map (\<lambda>e. (qe_ticket e, qe_batch_size e)) (ad_queue (sys_ctl s))"

lemma fst_queue_pairs [simp]: "map fst (queue_pairs s) = map qe_ticket (ad_queue (sys_ctl s))"
  by (simp add: queue_pairs_def comp_def)

lemma waiting_is_queue:
  "admission_reachable s \<Longrightarrow> sys_issued s \<le> 2 ^ 64 \<Longrightarrow> sys_waiting s = queue_pairs s"
proof (induction rule: reachable_induct)
  case (Init s)
  then show ?case by (auto simp: admission_init_def admission_controller_def Let_def queue_pairs_def
      refresh_capacity_locked_def no_capacity_def)
next
  case (Step s s')
  have IH: "sys_waiting s = queue_pairs s" and d: "distinct (map qe_ticket (ad_queue (sys_ctl s)))"
    using Step adm.issued_mono [OF Step(1,2)] adm.tickets_distinct [OF Step(1)] by auto
  from Step(2) IH d show ?case
  proof (induction rule: admission_step.induct)
    case (Poll_waits t bsz s cancel cap c')
    from Poll_waits(2) show ?case by (cases rule: acquire_poll_cases) (use Poll_waits in \<open>auto simp: queue_pairs_def\<close>)
  next
    case (Poll_leaves t bsz s cancel cap r c' e)
    have "remove1 (t, bsz) (queue_pairs s) = filter (\<lambda>x. fst x \<noteq> t) (queue_pairs s)"
      using Poll_leaves by (intro remove1_pair) auto
    with Poll_leaves show ?case
      by (auto simp: queue_pairs_def filter_map comp_def remove_ticket_pairs elim!: acquire_poll_cases)
  next
    case (Poll_admits t bsz s cancel cap p c')
    from Poll_admits(2) show ?case
    proof (cases rule: acquire_poll_cases)
      case (admits k e es)
      then have "remove1 (t, bsz) (queue_pairs s) = filter (\<lambda>x. fst x \<noteq> t) (queue_pairs s)"
        using Poll_admits by (intro remove1_pair) auto
      moreover have "filter (\<lambda>e. qe_ticket e \<noteq> t) es = es"
        using Poll_admits(4) admits by (intro filter_True) (force simp: image_iff)
      ultimately show ?thesis using admits Poll_admits(3)
        by (auto simp: queue_pairs_def filter_map comp_def)
    qed auto
  qed (auto simp: acquire_enqueue_def permit_release_def controller_release_def queue_pairs_def
      admission_snapshot_of_def Let_def split: if_splits option.splits)
qed


text \<open>
  C36. Admission is first come, first served: the ticket that a poll admits is the oldest that
  waits, as long as fewer than \<open>2^64\<close> tickets were drawn.
\<close>

theorem admission_fifo:
  assumes "admission_reachable s" "sys_issued s \<le> 2 ^ 64" "(t, bsz) \<in> set (sys_waiting s)"
    and "acquire_poll t bsz cancel cap (sys_ctl s) = (Admitted p, c')"
  shows "fst (hd (sys_waiting s)) = t \<and> (\<forall>(u, _) \<in> set (sys_waiting s). unat t \<le> unat u)"
  using assms(4)
proof (cases rule: acquire_poll_cases)
  case (admits k e es)
  then have "map qe_ticket (ad_queue (sys_ctl s)) = t # map qe_ticket es" by simp
  note front = adm.front_is_oldest [OF assms(1,2) this]
  have w: "sys_waiting s = queue_pairs s" by (rule waiting_is_queue [OF assms(1,2)])
  have "unat t \<le> unat u" if "(u, b) \<in> set (sys_waiting s)" for u b
    using that front [of u] image_eqI [of u fst "(u, b)" "set (queue_pairs s)"] fst_queue_pairs [of s]
    by (metis fst_conv list.set_map w)
  moreover have "fst (hd (sys_waiting s)) = t" using admits by (simp add: w queue_pairs_def)
  ultimately show ?thesis by auto
qed auto

text \<open>
  No request starves once the permits are back: when none is held and the provider reports
  at least the hard limit, the next poll of the request at the front is admitted unless it is
  cancelled.
\<close>

theorem admission_progress:
  assumes "admission_reachable s" "sys_issued s \<le> 2 ^ 64" "sys_waiting s = (t, bsz) # rest"
    and "held (sys_permits s) = []" "ad_hard_max (sys_ctl s) \<le> cap_max_batch_size k"
  shows "\<exists>p c'. acquire_poll t bsz (Some False) (Some k) (sys_ctl s) = (Admitted p, c') \<and>
    ad_reserved c' = bsz \<and> map qe_ticket (ad_queue c') = map fst rest"
proof -
  have inv: "adm_inv s" by (rule adm_inv_reachable [OF assms(1)])
  have r: "ad_reserved (sys_ctl s) = 0"
    using inv assms(4) by (simp add: adm_inv_def held_size_def)
  have w: "queue_pairs s = (t, bsz) # rest" using waiting_is_queue [OF assms(1,2)] assms(3) by simp
  then obtain e es where q: "ad_queue (sys_ctl s) = e # es" "qe_ticket e = t"
    "map qe_ticket es = map fst rest"
    by (auto simp: queue_pairs_def)
  have "bsz \<le> ad_hard_max (sys_ctl s)" "0 \<le> ad_hard_max (sys_ctl s)"
    using inv assms(3) by (auto simp: adm_inv_def)
  then show ?thesis
    using q r inv assms(5)
    by (auto simp: acquire_poll_def Let_def refresh_dynamic adm_inv_def)
qed

section \<open>Witnesses\<close>

definition sys_enqueue :: "int \<Rightarrow> string \<Rightarrow> admission_system \<Rightarrow> admission_system" where
  "sys_enqueue n label s =
     (case acquire_enqueue n label (sys_ctl s) of
        Inl _ \<Rightarrow> s
      | Inr (t, bsz, c') \<Rightarrow> s\<lparr>sys_ctl := c', sys_waiting := sys_waiting s @ [(t, bsz)],
                              sys_issued := Suc (sys_issued s)\<rparr>)"

definition sys_admit :: "u64 \<Rightarrow> int \<Rightarrow> prefill_capacity \<Rightarrow> admission_system \<Rightarrow> admission_system" where
  "sys_admit t bsz k s =
     (case acquire_poll t bsz (Some False) (Some k) (sys_ctl s) of
        (Admitted p, c') \<Rightarrow> s\<lparr>sys_ctl := c', sys_waiting := remove1 (t, bsz) (sys_waiting s),
                             sys_permits := p # sys_permits s\<rparr>
      | _ \<Rightarrow> s)"

lemma sys_enqueue_reachable: "admission_reachable s \<Longrightarrow> admission_reachable (sys_enqueue n label s)"
  by (auto simp: sys_enqueue_def split: sum.split prod.split intro: reachable_step admission_step.Enqueue)

lemma sys_admit_reachable:
  "admission_reachable s \<Longrightarrow> (t, bsz) \<in> set (sys_waiting s) \<Longrightarrow> admission_reachable (sys_admit t bsz k s)"
  by (auto simp: sys_admit_def split: prod.split poll_result.split
      intro: reachable_step admission_step.Poll_admits)

definition four_slots :: prefill_capacity where
  "four_slots = no_capacity\<lparr>cap_max_batch_size := 4\<rparr>"

definition idle_system :: admission_system where
  "idle_system = \<lparr>sys_ctl = admission_controller four_slots, sys_waiting = [], sys_permits = [], sys_issued = 0\<rparr>"

definition waiting_system :: admission_system where
  "waiting_system = sys_enqueue 3 ''/v1/b'' (sys_enqueue 2 ''/v1/a'' idle_system)"

lemma waiting_system_reachable: "admission_reachable waiting_system"
  unfolding waiting_system_def
  by (intro sys_enqueue_reachable reachable_init) (auto simp: idle_system_def admission_init_def)

lemma waiting_system_state:
  "sys_waiting waiting_system = [(0, 2), (1, 3)]" "sys_issued waiting_system = 2"
  "sys_permits waiting_system = []" "ad_hard_max (sys_ctl waiting_system) = 4"
  by code_simp+

lemma waiting_admitted: "held_size (sys_permits (sys_admit 0 2 four_slots waiting_system)) = 2"
  by code_simp

lemma waiting_polled:
  "fst (acquire_poll 0 2 (Some False) (Some four_slots) (sys_ctl waiting_system)) =
     Admitted \<lparr>pm_held = True, pm_batch_size = 2, pm_ticket = 0\<rparr>"
  by code_simp


theorem admission_fifo_witness:
  "fst (acquire_poll 0 2 (Some False) (Some four_slots) (sys_ctl waiting_system)) =
     Admitted \<lparr>pm_held = True, pm_batch_size = 2, pm_ticket = 0\<rparr> \<and>
   list_all (\<lambda>(u, _). unat (0 :: u64) \<le> unat u) (sys_waiting waiting_system)"
proof -
  obtain r c' where p: "acquire_poll 0 2 (Some False) (Some four_slots) (sys_ctl waiting_system) = (r, c')"
    by fastforce
  then have r: "r = Admitted \<lparr>pm_held = True, pm_batch_size = 2, pm_ticket = 0\<rparr>"
    using waiting_polled by simp
  then show ?thesis
    using admission_fifo [OF waiting_system_reachable, of 0 2 "Some False" "Some four_slots" _ c'] p
      waiting_system_state by auto
qed

theorem admission_progress_witness:
  "\<exists>p c'. acquire_poll 0 2 (Some False) (Some four_slots) (sys_ctl waiting_system) = (Admitted p, c') \<and>
     ad_reserved c' = 2 \<and> map qe_ticket (ad_queue c') = [1]"
  using admission_progress [OF waiting_system_reachable, of 0 2 "[(1, 3)]" four_slots]
    waiting_system_state by (simp add: held_def four_slots_def)

end
