(* ===== verification/ModelRouter.thy ===== *)
theory ModelRouter
  imports TicketQueue
begin

text \<open>
  \<open>ModelRouter\<close> (\<open>src/server/rwkv_model_router.cpp\<close>): which model is resident, the leases
  that pin it and the queue of loads. \<open>mutex_\<close> is held except in the waits and while a model
  is being built, so the model has one atomic step for each stretch of code under the lock; a
  wait is the guard of its step. An engine is an address; \<open>ModelBackend\<close> and
  \<open>InferenceEngine\<close> construction is the outcome given to the step that ends a load.
\<close>

section \<open>State\<close>

datatype router_error =
    NotADirectory | DuplicateModel string | NoModels | ModelRequired | UnknownModel string
  | NothingLoaded | DynamicDisabled | LoadFailed

record router =
  rt_dynamic :: bool
  rt_paths :: "(string \<times> string) list"
  rt_engine :: "nat option"
  rt_current_id :: string
  rt_active_leases :: nat
  rt_loading :: bool
  rt_load_queue :: "u64 list"
  rt_next_ticket :: u64

record lease =
  ls_router :: bool
  ls_engine :: "nat option"

section \<open>Construction\<close>

definition static_router :: "nat \<Rightarrow> string \<Rightarrow> router" where
  "static_router engine model_name =
     \<lparr>rt_dynamic = False, rt_paths = [], rt_engine = Some engine, rt_current_id = model_name,
      rt_active_leases = 0, rt_loading = False, rt_load_queue = [], rt_next_ticket = 0\<rparr>"

text \<open>
  A directory entry is (regular file, extension, stem, path), as \<open>std::filesystem\<close> reports it.
\<close>

fun collect_models ::
    "(bool \<times> string \<times> string \<times> string) list \<Rightarrow> (string \<times> string) list \<Rightarrow>
     router_error + (string \<times> string) list" where
  "collect_models [] paths = Inr paths"
| "collect_models ((regular, extension, stem, path) # rest) paths =
     (if \<not> regular \<or> extension \<noteq> ''.pth'' \<and> extension \<noteq> ''.rwkvq'' then collect_models rest paths
      else if map_of paths stem \<noteq> None then Inl (DuplicateModel stem)
      else collect_models rest (paths @ [(stem, path)]))"

definition dynamic_router ::
    "(bool \<times> string \<times> string \<times> string) list option \<Rightarrow> router_error + router" where
  "dynamic_router directory =
     (case directory of
        None \<Rightarrow> Inl NotADirectory
      | Some entries \<Rightarrow>
          (case collect_models entries [] of
             Inl e \<Rightarrow> Inl e
           | Inr paths \<Rightarrow>
               if paths = [] then Inl NoModels
               else Inr \<lparr>rt_dynamic = True, rt_paths = paths, rt_engine = None, rt_current_id = [],
                         rt_active_leases = 0, rt_loading = False, rt_load_queue = [],
                         rt_next_ticket = 0\<rparr>))"

section \<open>Operations\<close>

definition resolve_id_or_throw :: "router \<Rightarrow> string \<Rightarrow> router_error + string" where
  "resolve_id_or_throw r requested =
     (if \<not> rt_dynamic r then Inr (rt_current_id r)
      else if requested = [] then Inl ModelRequired
      else if map_of (rt_paths r) requested = None then Inl (UnknownModel requested)
      else Inr requested)"

text \<open>\<open>acquire\<close> after its wait, that is when \<open>loading_\<close> is false.\<close>

definition router_acquire :: "router \<Rightarrow> router_error + lease \<times> router" where
  "router_acquire r =
     (case rt_engine r of
        None \<Rightarrow> Inl NothingLoaded
      | Some e \<Rightarrow>
          Inr (\<lparr>ls_router = True, ls_engine = Some e\<rparr>, r\<lparr>rt_active_leases := rt_active_leases r + 1\<rparr>))"

definition router_release_lease :: "router \<Rightarrow> router" where
  "router_release_lease r = r\<lparr>rt_active_leases := rt_active_leases r - 1\<rparr>"

definition lease_release :: "lease \<Rightarrow> router \<Rightarrow> lease \<times> router" where
  "lease_release l r =
     (\<lparr>ls_router = False, ls_engine = None\<rparr>, if ls_router l then router_release_lease r else r)"

text \<open>Move construction: (new lease, source afterwards).\<close>

definition lease_move :: "lease \<Rightarrow> lease \<times> lease" where
  "lease_move other = (other, \<lparr>ls_router = False, ls_engine = None\<rparr>)"

definition lease_assign :: "lease \<Rightarrow> lease \<Rightarrow> router \<Rightarrow> lease \<times> lease \<times> router" where
  "lease_assign self other r =
     (let (_, r') = lease_release self r in (other, \<lparr>ls_router = False, ls_engine = None\<rparr>, r'))"

text \<open>
  \<open>load\<close> up to its wait: it throws, has nothing to do, or the caller waits with a ticket.
\<close>

definition load_start :: "router \<Rightarrow> string \<Rightarrow> router_error + (u64 \<times> string) option \<times> router" where
  "load_start r requested =
     (case resolve_id_or_throw r requested of
        Inl e \<Rightarrow> Inl e
      | Inr mid \<Rightarrow>
          if \<not> rt_dynamic r then (if mid \<noteq> rt_current_id r then Inl DynamicDisabled else Inr (None, r))
          else Inr (Some (rt_next_ticket r, mid),
                    r\<lparr>rt_next_ticket := rt_next_ticket r + 1,
                      rt_load_queue := rt_load_queue r @ [rt_next_ticket r]\<rparr>))"

definition load_ready :: "router \<Rightarrow> u64 \<Rightarrow> bool" where
  "load_ready r ticket \<longleftrightarrow>
     rt_load_queue r \<noteq> [] \<and> hd (rt_load_queue r) = ticket \<and> \<not> rt_loading r \<and> rt_active_leases r = 0"

text \<open>After the wait: \<open>True\<close> when the model is resident already.\<close>

definition load_begin :: "router \<Rightarrow> string \<Rightarrow> bool \<times> router" where
  "load_begin r mid =
     (if rt_engine r \<noteq> None \<and> rt_current_id r = mid
      then (True, r\<lparr>rt_load_queue := tl (rt_load_queue r)\<rparr>)
      else (False, r\<lparr>rt_loading := True, rt_engine := None, rt_current_id := []\<rparr>))"

text \<open>When the construction ended; \<open>built\<close> is the new engine, or \<open>None\<close> when it threw.\<close>

definition load_finish :: "router \<Rightarrow> string \<Rightarrow> nat option \<Rightarrow> (router_error + unit) \<times> router" where
  "load_finish r mid built =
     (case built of
        None \<Rightarrow> (Inl LoadFailed, r\<lparr>rt_loading := False, rt_load_queue := tl (rt_load_queue r)\<rparr>)
      | Some e \<Rightarrow>
          (Inr (), r\<lparr>rt_engine := Some e, rt_current_id := mid, rt_loading := False,
                     rt_load_queue := tl (rt_load_queue r)\<rparr>))"

definition model_ids :: "(string list \<Rightarrow> string list) \<Rightarrow> router \<Rightarrow> string list" where
  "model_ids sort_strings r =
     (if \<not> rt_dynamic r then [rt_current_id r] else sort_strings (map fst (rt_paths r)))"

section \<open>The router among its clients\<close>

text \<open>
  \<open>rs_waiting\<close> are the threads in the wait of \<open>load\<close> with their tickets and models,
  \<open>rs_building\<close> the thread that builds a model, \<open>rs_loaded\<close> (for the statements only) the
  model each engine was built from.
\<close>

record router_system =
  rs_router :: router
  rs_leases :: "lease list"
  rs_waiting :: "(u64 \<times> string) list"
  rs_building :: "(u64 \<times> string) option"
  rs_issued :: nat
  rs_loaded :: "nat \<Rightarrow> string"

definition router_init :: "router_system \<Rightarrow> bool" where
  "router_init s \<longleftrightarrow>
     ((\<exists>engine. rs_router s = static_router engine (rs_loaded s engine)) \<or>
      (\<exists>directory. dynamic_router directory = Inr (rs_router s))) \<and>
     rs_leases s = [] \<and> rs_waiting s = [] \<and> rs_building s = None \<and> rs_issued s = 0"

inductive router_step :: "router_system \<Rightarrow> router_system \<Rightarrow> bool" where
  Acquire: "\<not> rt_loading (rs_router s) \<Longrightarrow> router_acquire (rs_router s) = Inr (l, r') \<Longrightarrow>
    router_step s (s\<lparr>rs_router := r', rs_leases := l # rs_leases s\<rparr>)"
| Release: "rs_leases s = ls @ l # ms \<Longrightarrow> lease_release l (rs_router s) = (l', r') \<Longrightarrow>
    router_step s (s\<lparr>rs_router := r', rs_leases := ls @ l' # ms\<rparr>)"
| Load_start: "load_start (rs_router s) requested = Inr (Some (t, mid), r') \<Longrightarrow>
    router_step s (s\<lparr>rs_router := r', rs_waiting := rs_waiting s @ [(t, mid)],
                     rs_issued := Suc (rs_issued s)\<rparr>)"
| Load_resident: "(t, mid) \<in> set (rs_waiting s) \<Longrightarrow> load_ready (rs_router s) t \<Longrightarrow>
    load_begin (rs_router s) mid = (True, r') \<Longrightarrow>
    router_step s (s\<lparr>rs_router := r', rs_waiting := remove1 (t, mid) (rs_waiting s)\<rparr>)"
| Load_begin: "(t, mid) \<in> set (rs_waiting s) \<Longrightarrow> load_ready (rs_router s) t \<Longrightarrow>
    load_begin (rs_router s) mid = (False, r') \<Longrightarrow>
    router_step s (s\<lparr>rs_router := r', rs_waiting := remove1 (t, mid) (rs_waiting s),
                     rs_building := Some (t, mid)\<rparr>)"
| Load_finish: "rs_building s = Some (t, mid) \<Longrightarrow>
    load_finish (rs_router s) mid built = (res, r') \<Longrightarrow>
    router_step s (s\<lparr>rs_router := r', rs_building := None,
      rs_loaded := (case built of None \<Rightarrow> rs_loaded s | Some e \<Rightarrow> (rs_loaded s)(e := mid))\<rparr>)"

inductive_cases router_stepE: "router_step s s'"

abbreviation router_reachable :: "router_system \<Rightarrow> bool" where
  "router_reachable \<equiv> reachable router_init router_step"

definition live :: "lease list \<Rightarrow> lease list" where
  "live ls = filter ls_router ls"

section \<open>Invariant\<close>

definition router_inv :: "router_system \<Rightarrow> bool" where
  "router_inv s \<longleftrightarrow>
     rt_active_leases (rs_router s) = length (live (rs_leases s)) \<and>
     (\<forall>l \<in> set (rs_leases s). ls_router l \<longrightarrow> ls_engine l = rt_engine (rs_router s)) \<and>
     (live (rs_leases s) \<noteq> [] \<longrightarrow> rt_engine (rs_router s) \<noteq> None) \<and>
     (rt_loading (rs_router s) \<longleftrightarrow> rs_building s \<noteq> None) \<and>
     (\<forall>t mid. rs_building s = Some (t, mid) \<longrightarrow>
        live (rs_leases s) = [] \<and> rt_engine (rs_router s) = None \<and>
        rt_load_queue (rs_router s) \<noteq> [] \<and> hd (rt_load_queue (rs_router s)) = t) \<and>
     (\<forall>e. rt_engine (rs_router s) = Some e \<longrightarrow> rt_current_id (rs_router s) = rs_loaded s e)"

lemma live_simps [simp]:
  "live [] = []" "live (l # ls) = (if ls_router l then l # live ls else live ls)"
  "live (ls @ ms) = live ls @ live ms"
  by (simp_all add: live_def)

lemma live_empty: "live ls = [] \<longleftrightarrow> (\<forall>l \<in> set ls. \<not> ls_router l)"
  by (simp add: live_def filter_empty_conv)

lemma dynamic_router_Inr:
  "dynamic_router directory = Inr r \<Longrightarrow>
     rt_dynamic r \<and> rt_paths r \<noteq> [] \<and> rt_engine r = None \<and> rt_active_leases r = 0 \<and>
     \<not> rt_loading r \<and> rt_load_queue r = [] \<and> rt_next_ticket r = 0"
  by (auto simp: dynamic_router_def split: option.splits sum.splits if_splits)

lemma router_init_cases:
  assumes "router_init s"
  shows "rt_active_leases (rs_router s) = 0 \<and> \<not> rt_loading (rs_router s) \<and>
    rt_load_queue (rs_router s) = [] \<and> rt_next_ticket (rs_router s) = 0 \<and>
    (\<forall>e. rt_engine (rs_router s) = Some e \<longrightarrow> rt_current_id (rs_router s) = rs_loaded s e) \<and>
    rs_leases s = [] \<and> rs_waiting s = [] \<and> rs_building s = None \<and> rs_issued s = 0"
proof -
  have "rs_router s = static_router engine (rs_loaded s engine) \<Longrightarrow> ?thesis" for engine
    using assms by (simp add: router_init_def static_router_def)
  moreover have "dynamic_router directory = Inr (rs_router s) \<Longrightarrow> ?thesis" for directory
    using assms dynamic_router_Inr [of directory "rs_router s"] by (auto simp: router_init_def)
  ultimately show ?thesis using assms by (auto simp: router_init_def)
qed

lemma router_inv_step: "router_step s s' \<Longrightarrow> router_inv s \<Longrightarrow> router_inv s'"
proof (induction rule: router_step.induct)
  case (Acquire s l r')
  then show ?case by (auto simp: router_inv_def router_acquire_def split: option.splits)
next
  case (Release s ls l ms l' r')
  then show ?case
    by (auto simp: router_inv_def lease_release_def router_release_lease_def split: if_splits)
next
  case (Load_start s requested t mid r')
  then show ?case
    by (auto simp: router_inv_def load_start_def split: sum.splits if_splits)
next
  case (Load_resident t mid s r')
  then show ?case by (auto simp: router_inv_def load_begin_def load_ready_def split: if_splits)
next
  case (Load_begin t mid s r')
  then show ?case by (auto simp: router_inv_def load_begin_def load_ready_def live_empty split: if_splits)
next
  case (Load_finish s t mid built res r')
  then show ?case
    by (auto simp: router_inv_def load_finish_def live_empty split: option.splits)
qed

lemma router_inv_reachable: "router_reachable s \<Longrightarrow> router_inv s"
proof (induction rule: reachable_induct)
  case (Init s)
  then show ?case using router_init_cases [OF Init] by (simp add: router_inv_def)
qed (blast intro: router_inv_step)

section \<open>The load queue\<close>

lemma load_begin_queue:
  "load_begin r mid = (resident, r') \<Longrightarrow>
     rt_load_queue r' = (if resident then tl (rt_load_queue r) else rt_load_queue r) \<and>
     rt_next_ticket r' = rt_next_ticket r \<and> rt_active_leases r' = rt_active_leases r"
  by (auto simp: load_begin_def split: if_splits)

lemma load_finish_queue:
  "load_finish r mid built = (res, r') \<Longrightarrow>
     rt_load_queue r' = tl (rt_load_queue r) \<and> rt_next_ticket r' = rt_next_ticket r"
  by (auto simp: load_finish_def split: option.splits)

lemma lease_queue:
  "router_acquire r = Inr (l, r') \<Longrightarrow> rt_load_queue r' = rt_load_queue r \<and> rt_next_ticket r' = rt_next_ticket r"
  "lease_release l r = (l', r') \<Longrightarrow> rt_load_queue r' = rt_load_queue r \<and> rt_next_ticket r' = rt_next_ticket r"
  by (auto simp: router_acquire_def lease_release_def router_release_lease_def split: option.splits if_splits)

lemma load_start_queue:
  "load_start r requested = Inr (Some (t, mid), r') \<Longrightarrow>
     t = rt_next_ticket r \<and> rt_load_queue r' = rt_load_queue r @ [t] \<and>
     rt_next_ticket r' = rt_next_ticket r + 1"
  by (auto simp: load_start_def split: sum.splits if_splits)

lemma router_next_ticket:
  "router_reachable s \<Longrightarrow> rt_next_ticket (rs_router s) = of_nat (rs_issued s)"
proof (induction rule: reachable_induct)
  case (Init s)
  then show ?case using router_init_cases [OF Init] by simp
next
  case (Step s s')
  from Step(2,3) show ?case
    by (induction rule: router_step.induct)
      (auto dest: load_begin_queue load_finish_queue load_start_queue lease_queue)
qed

lemma remove1_hd: "xs \<noteq> [] \<Longrightarrow> tl xs = remove1 (hd xs) xs"
  by (cases xs) auto

lemma router_queue_step:
  assumes "router_reachable s" "router_step s s'"
  defines "q \<equiv> \<lambda>s. rt_load_queue (rs_router s)"
  shows "q s' = q s \<and> rs_issued s' = rs_issued s \<or>
      q s' = q s @ [of_nat (rs_issued s)] \<and> rs_issued s' = Suc (rs_issued s) \<or>
      (\<exists>t. q s' = remove1 t (q s)) \<and> rs_issued s' = rs_issued s"
proof -
  have pop: "\<exists>t. tl xs = remove1 t xs" for xs :: "u64 list"
    by (cases xs) (auto intro: exI [of _ "hd xs"])
  show ?thesis
    using assms(2) router_next_ticket [OF assms(1)] unfolding q_def
  proof (induction rule: router_step.induct)
    case (Load_resident t mid s r')
    then show ?case using load_begin_queue [OF Load_resident(3)] pop by auto
  next
    case (Load_finish s t mid built res r')
    then show ?case using load_finish_queue [OF Load_finish(2)] pop by auto
  qed (auto dest: load_begin_queue load_start_queue lease_queue)
qed

interpretation rt: ticket_queue router_init router_step "\<lambda>s. rt_load_queue (rs_router s)" rs_issued
proof (unfold_locales, goal_cases)
  case (1 s)
  then show ?case using router_init_cases by auto
next
  case (2 s s')
  then show ?case by (rule router_queue_step)
qed

definition building_ticket :: "router_system \<Rightarrow> u64 list" where
  "building_ticket s = (case rs_building s of None \<Rightarrow> [] | Some (t, _) \<Rightarrow> [t])"

lemma remove1_fst:
  "distinct (map fst xs) \<Longrightarrow> (t, m) \<in> set xs \<Longrightarrow> map fst (remove1 (t, m) xs) = remove1 t (map fst xs)"
proof (induction xs)
  case (Cons x xs)
  then show ?case by (cases "x = (t, m)") (auto simp: image_iff)
qed simp

lemma load_ready_hd: "load_ready r t \<Longrightarrow> \<exists>q. rt_load_queue r = t # q"
  by (cases "rt_load_queue r") (auto simp: load_ready_def)

lemma router_queue_threads:
  "router_reachable s \<Longrightarrow> rs_issued s \<le> 2 ^ 64 \<Longrightarrow>
     rt_load_queue (rs_router s) = building_ticket s @ map fst (rs_waiting s)"
proof (induction rule: reachable_induct)
  case (Init s)
  then show ?case using router_init_cases [OF Init(1)] by (simp add: building_ticket_def)
next
  case (Step s s')
  have le: "rs_issued s \<le> 2 ^ 64" using Step(4) rt.issued_mono [OF Step(1,2)] by simp
  have IH: "rt_load_queue (rs_router s) = building_ticket s @ map fst (rs_waiting s)"
    using Step(3) le by simp
  have d: "distinct (map fst (rs_waiting s))"
    using rt.tickets_distinct [OF Step(1) le] IH by simp
  have nb: "rs_building s = None" if "\<not> rt_loading (rs_router s)"
    using router_inv_reachable [OF Step(1)] that unfolding router_inv_def by blast
  from Step(2) IH d nb show ?case
  proof (induction rule: router_step.induct)
    case (Load_resident t mid s r')
    have b: "rs_building s = None" using Load_resident by (simp add: load_ready_def)
    obtain q where q: "rt_load_queue (rs_router s) = t # q" using load_ready_hd Load_resident(2) by blast
    have "map fst (remove1 (t, mid) (rs_waiting s)) = remove1 t (map fst (rs_waiting s))"
      using Load_resident by (intro remove1_fst) auto
    then show ?case using b q Load_resident(4) load_begin_queue [OF Load_resident(3)]
      by (simp add: building_ticket_def)
  next
    case (Load_begin t mid s r')
    have b: "rs_building s = None" using Load_begin by (simp add: load_ready_def)
    obtain q where q: "rt_load_queue (rs_router s) = t # q" using load_ready_hd Load_begin(2) by blast
    have "map fst (remove1 (t, mid) (rs_waiting s)) = remove1 t (map fst (rs_waiting s))"
      using Load_begin by (intro remove1_fst) auto
    then show ?case using b q Load_begin(4) load_begin_queue [OF Load_begin(3)]
      by (simp add: building_ticket_def)
  next
    case (Load_finish s t mid built res r')
    then show ?case using load_finish_queue [OF Load_finish(2)] by (simp add: building_ticket_def)
  qed (auto simp: building_ticket_def dest: load_start_queue lease_queue)
qed

section \<open>Properties\<close>

text \<open>
  C13. A lease pins the model: whoever holds one holds the resident engine, no load is under way,
  and no step of any thread - another acquire, a release, a load that waits or begins - changes
  the resident engine while a lease is live.
\<close>

theorem router_lease_pins_engine:
  assumes "router_reachable s" "l \<in> set (rs_leases s)" "ls_router l"
  shows "ls_engine l = rt_engine (rs_router s) \<and> ls_engine l \<noteq> None \<and> \<not> rt_loading (rs_router s) \<and>
    (\<forall>s'. router_step s s' \<longrightarrow> rt_engine (rs_router s') = rt_engine (rs_router s))"
proof -
  have inv: "router_inv s" by (rule router_inv_reachable [OF assms(1)])
  have live: "live (rs_leases s) \<noteq> []" using assms(2,3) by (auto simp: live_empty)
  then have act: "rt_active_leases (rs_router s) \<noteq> 0" "rs_building s = None"
    using inv unfolding router_inv_def by (simp, metis option.exhaust surj_pair)
  have keep: "router_step s s' \<Longrightarrow> rt_active_leases (rs_router s) \<noteq> 0 \<Longrightarrow> rs_building s = None \<Longrightarrow>
      rt_engine (rs_router s') = rt_engine (rs_router s)" for s s'
    by (induction rule: router_step.induct)
      (auto simp: router_acquire_def lease_release_def router_release_lease_def load_start_def
        load_ready_def split: option.splits sum.splits if_splits)
  have now: "ls_engine l = rt_engine (rs_router s)" "rt_engine (rs_router s) \<noteq> None"
    "\<not> rt_loading (rs_router s)"
    using inv assms(2,3) live act(2) unfolding router_inv_def by blast+
  have "\<forall>s'. router_step s s' \<longrightarrow> rt_engine (rs_router s') = rt_engine (rs_router s)"
    using keep [OF _ act] by (intro allI impI)
  then show ?thesis using now by (intro conjI) simp_all
qed

text \<open>
  The bookkeeping of the router: \<open>active_leases_\<close> counts the live leases, the current model
  id names the model the resident engine was built from, and while a model is being built
  nothing is resident and nobody holds a lease.
\<close>

theorem router_bookkeeping:
  assumes "router_reachable s"
  shows "rt_active_leases (rs_router s) = length (live (rs_leases s)) \<and>
    (\<forall>e. rt_engine (rs_router s) = Some e \<longrightarrow> rt_current_id (rs_router s) = rs_loaded s e) \<and>
    (rt_loading (rs_router s) \<longrightarrow> rt_engine (rs_router s) = None \<and> live (rs_leases s) = [])"
  using router_inv_reachable [OF assms] by (auto simp: router_inv_def)

text \<open>
  Loads are served in the order of their tickets and none is stuck: when no lease is live and
  no model is being built, the oldest waiting load can proceed, and it is the only one that can.
\<close>

theorem router_load_progress:
  assumes "router_reachable s" "rs_issued s \<le> 2 ^ 64" "rs_waiting s = (t, mid) # rest"
    and "live (rs_leases s) = []" "rs_building s = None"
  shows "load_ready (rs_router s) t \<and> (\<forall>u \<in> fst ` set rest. \<not> load_ready (rs_router s) u \<and> unat t < unat u)"
proof -
  have inv: "router_inv s" by (rule router_inv_reachable [OF assms(1)])
  have q: "rt_load_queue (rs_router s) = t # map fst rest"
    using router_queue_threads [OF assms(1,2)] assms(3,5) by (simp add: building_ticket_def)
  have "sorted_wrt (<) (map unat (rt_load_queue (rs_router s)))"
    using rt.tickets_increase [OF assms(1,2)] by simp
  then have "\<forall>u \<in> fst ` set rest. unat t < unat u" by (auto simp: q)
  then show ?thesis using inv assms(4,5) q by (auto simp: load_ready_def router_inv_def)
qed

section \<open>Witnesses\<close>

definition demo_router :: router where
  "demo_router = \<lparr>rt_dynamic = True, rt_paths = [(''a'', ''/m/a.pth''), (''b'', ''/m/b.rwkvq'')],
     rt_engine = None, rt_current_id = [], rt_active_leases = 0, rt_loading = False,
     rt_load_queue = [], rt_next_ticket = 0\<rparr>"

definition demo_system :: router_system where
  "demo_system = \<lparr>rs_router = demo_router, rs_leases = [], rs_waiting = [], rs_building = None,
     rs_issued = 0, rs_loaded = (\<lambda>_. [])\<rparr>"

lemma demo_router_built:
  "dynamic_router (Some [(True, ''.pth'', ''a'', ''/m/a.pth''), (False, ''.d'', ''d'', ''/m/d''),
     (True, ''.txt'', ''c'', ''/m/c.txt''), (True, ''.rwkvq'', ''b'', ''/m/b.rwkvq'')]) = Inr demo_router"
  by (simp add: dynamic_router_def demo_router_def)

lemma demo_system_reachable: "router_reachable demo_system"
  using demo_router_built by (intro reachable_init) (auto simp: router_init_def demo_system_def)

text \<open>Two loads are requested.\<close>

definition demo_waiting :: router_system where
  "demo_waiting = demo_system\<lparr>rs_router := demo_router\<lparr>rt_load_queue := [0, 1], rt_next_ticket := 2\<rparr>,
     rs_waiting := [(0, ''b''), (1, ''a'')], rs_issued := 2\<rparr>"

lemma demo_waiting_reachable: "router_reachable demo_waiting"
proof -
  let ?s = "demo_system\<lparr>rs_router := demo_router\<lparr>rt_next_ticket := 1, rt_load_queue := [0]\<rparr>,
     rs_waiting := [(0, ''b'')], rs_issued := 1\<rparr>"
  have "load_start (rs_router demo_system) ''b'' =
      Inr (Some (0, ''b''), demo_router\<lparr>rt_next_ticket := 1, rt_load_queue := [0]\<rparr>)"
    by (simp add: demo_system_def demo_router_def load_start_def resolve_id_or_throw_def)
  from router_step.Load_start [OF this] have "router_step demo_system ?s"
    by (simp add: demo_system_def)
  then have r: "router_reachable ?s" by (rule reachable_step [OF demo_system_reachable])
  have "load_start (rs_router ?s) ''a'' =
      Inr (Some (1, ''a''), demo_router\<lparr>rt_load_queue := [0, 1], rt_next_ticket := 2\<rparr>)"
    by (simp add: demo_system_def demo_router_def load_start_def resolve_id_or_throw_def)
  from router_step.Load_start [OF this] have "router_step ?s demo_waiting"
    by (simp add: numeral_2_eq_2 demo_system_def demo_waiting_def)
  then show ?thesis by (rule reachable_step [OF r])
qed

text \<open>The first one is served by engine 7 and somebody leases it.\<close>

definition demo_leased :: router_system where
  "demo_leased = demo_system\<lparr>rs_router := demo_router\<lparr>rt_load_queue := [1], rt_next_ticket := 2,
       rt_engine := Some 7, rt_current_id := ''b'', rt_active_leases := 1\<rparr>,
     rs_leases := [\<lparr>ls_router = True, ls_engine = Some 7\<rparr>],
     rs_waiting := [(1, ''a'')], rs_issued := 2, rs_loaded := (\<lambda>_. [])(7 := ''b'')\<rparr>"

definition demo_building :: router_system where
  "demo_building = demo_waiting\<lparr>rs_router := demo_router\<lparr>rt_load_queue := [0, 1], rt_next_ticket := 2,
     rt_loading := True\<rparr>, rs_waiting := [(1, ''a'')], rs_building := Some (0, ''b'')\<rparr>"

definition demo_loaded :: router_system where
  "demo_loaded = demo_leased\<lparr>rs_router := (rs_router demo_leased)\<lparr>rt_active_leases := 0\<rparr>, rs_leases := []\<rparr>"

lemma demo_leased_reachable: "router_reachable demo_leased"
proof -
  have 1: "router_step demo_waiting demo_building"
    using router_step.Load_begin [of 0 "''b''" demo_waiting "rs_router demo_building"]
    by (simp add: demo_building_def demo_waiting_def demo_system_def demo_router_def load_ready_def load_begin_def)
  have 2: "router_step demo_building demo_loaded"
    using router_step.Load_finish [of demo_building 0 "''b''" "Some 7" "Inr ()" "rs_router demo_loaded"]
    by (simp add: demo_building_def demo_loaded_def demo_waiting_def demo_system_def demo_router_def
        demo_leased_def load_finish_def)
  have 3: "router_step demo_loaded demo_leased"
    using router_step.Acquire [of demo_loaded "\<lparr>ls_router = True, ls_engine = Some 7\<rparr>" "rs_router demo_leased"]
    by (simp add: demo_loaded_def demo_system_def demo_router_def demo_leased_def router_acquire_def)
  note r1 = reachable_step [OF demo_waiting_reachable 1]
  note r2 = reachable_step [OF r1 2]
  show ?thesis by (rule reachable_step [OF r2 3])
qed

text \<open>A second client leases the same engine.\<close>

definition demo_shared :: router_system where
  "demo_shared = demo_leased\<lparr>rs_router := (rs_router demo_leased)\<lparr>rt_active_leases := 2\<rparr>,
     rs_leases := replicate 2 \<lparr>ls_router = True, ls_engine = Some 7\<rparr>\<rparr>"

lemma demo_shared_step: "router_step demo_leased demo_shared"
  using router_step.Acquire [of demo_leased "\<lparr>ls_router = True, ls_engine = Some 7\<rparr>" "rs_router demo_shared"]
  by (simp add: demo_shared_def demo_leased_def demo_router_def demo_system_def router_acquire_def numeral_2_eq_2)

theorem router_lease_pins_engine_witness:
  "router_step demo_leased demo_shared \<and> rt_engine (rs_router demo_shared) = Some 7"
proof -
  have "rt_engine (rs_router demo_leased) = Some 7"
    "\<lparr>ls_router = True, ls_engine = Some 7\<rparr> \<in> set (rs_leases demo_leased)"
    by (simp_all add: demo_leased_def)
  then show ?thesis
    using router_lease_pins_engine [OF demo_leased_reachable, of "\<lparr>ls_router = True, ls_engine = Some 7\<rparr>"]
      demo_shared_step by (metis lease.select_convs(1))
qed

theorem router_bookkeeping_witness:
  "rt_active_leases (rs_router demo_leased) = length (live (rs_leases demo_leased)) \<and>
   rt_current_id (rs_router demo_leased) = rs_loaded demo_leased 7"
  using router_bookkeeping [OF demo_leased_reachable] by (simp add: demo_leased_def)

theorem router_load_progress_witness:
  "load_ready (rs_router demo_waiting) 0 \<and> \<not> load_ready (rs_router demo_waiting) 1"
  using router_load_progress [OF demo_waiting_reachable, of 0 "''b''" "[(1, ''a'')]"]
  by (simp add: demo_waiting_def demo_system_def)

end
