(* ===== verification/Bytes.thy ===== *)
theory Bytes
  imports Prelude
begin

text \<open>
  Little-endian integers in memory, as the host lays them out for blobs and as the archive and
  tensor formats store them.
\<close>

definition le16 :: "u16 \<Rightarrow> bytes" where
  "le16 w = [ucast w, ucast (drop_bit 8 w)]"

definition get16 :: "byte \<Rightarrow> byte \<Rightarrow> u16" where
  "get16 a b = or (ucast a) (push_bit 8 (ucast b))"

definition le32 :: "u32 \<Rightarrow> bytes" where
  "le32 w = [ucast w, ucast (drop_bit 8 w), ucast (drop_bit 16 w), ucast (drop_bit 24 w)]"

definition get32 :: "byte \<Rightarrow> byte \<Rightarrow> byte \<Rightarrow> byte \<Rightarrow> u32" where
  "get32 a b c d = or (or (ucast a) (push_bit 8 (ucast b))) (or (push_bit 16 (ucast c)) (push_bit 24 (ucast d)))"

lemma get16_le16 [simp]: "get16 (ucast w) (ucast (drop_bit 8 w)) = w"
  unfolding get16_def by (rule bit_word_eqI) (auto simp: bit_simps)

lemma get32_le32 [simp]:
  "get32 (ucast w) (ucast (drop_bit 8 w)) (ucast (drop_bit 16 w)) (ucast (drop_bit 24 w)) = w"
  unfolding get32_def
proof (rule bit_word_eqI)
  fix n :: nat assume "n < LENGTH(32)"
  then consider "n < 8" | "8 \<le> n" "n < 16" | "16 \<le> n" "n < 24" | "24 \<le> n" "n < 32" by fastforce
  then show "bit (or (or (ucast (ucast w :: byte)) (push_bit 8 (ucast (ucast (drop_bit 8 w) :: byte))))
      (or (push_bit 16 (ucast (ucast (drop_bit 16 w) :: byte))) (push_bit 24 (ucast (ucast (drop_bit 24 w) :: byte)))) :: u32) n
      = bit w n"
    by cases (auto simp: bit_simps)
qed

section \<open>Blobs\<close>

text \<open>A vector of integers as bytes; reading it back ignores an incomplete last element.\<close>

definition blob16 :: "u16 list \<Rightarrow> bytes" where
  "blob16 ws = concat (map le16 ws)"

definition blob32 :: "u32 list \<Rightarrow> bytes" where
  "blob32 ws = concat (map le32 ws)"

fun read_blob16 :: "bytes \<Rightarrow> u16 list" where
  "read_blob16 (a # b # rest) = get16 a b # read_blob16 rest"
| "read_blob16 _ = []"

fun read_blob32 :: "bytes \<Rightarrow> u32 list" where
  "read_blob32 (a # b # c # d # rest) = get32 a b c d # read_blob32 rest"
| "read_blob32 _ = []"

lemma read_blob16_blob16 [simp]: "read_blob16 (blob16 ws) = ws"
  by (induction ws) (auto simp: blob16_def le16_def)

lemma read_blob32_blob32 [simp]: "read_blob32 (blob32 ws) = ws"
  by (induction ws) (auto simp: blob32_def le32_def)

lemma blob_Nil [simp]: "blob16 ws = [] \<longleftrightarrow> ws = []" "blob32 vs = [] \<longleftrightarrow> vs = []"
  by (cases ws; simp add: blob16_def le16_def) (cases vs; simp add: blob32_def le32_def)

end
