(* ===== verification/StateCache.thy ===== *)
theory StateCache
  imports Bytes
begin

text \<open>
  \<open>StateCacheManager\<close> (\<open>src/server/rwkv_state_cache.cpp\<close>): the recurrent state of a session in
  three tiers - device memory (L1), host memory (L2) and an SQLite table. A device buffer is the
  list of its elements; copies between device and host succeed. The unordered maps are
  association lists, an iterator into an order list is the key, and \<open>None\<close> is undefined
  behaviour. jsoncpp's writer and reader are parameters. The timing and memory
  figures of a state are left out. A copy starts without the GPU lease and without the decoded
  suffix kept for stop strings.
\<close>

section \<open>State\<close>

record gen_state =
  gs_adapter :: "nat option"
  gs_adapter_gpu :: "nat option"
  gs_effective_key :: string
  gs_adapter_identity :: string
  gs_initial_identity :: string
  gs_advanced :: bool
  gs_text_stop_tail :: bytes
  gs_batch_size :: int
  gs_wkv32 :: bool
  gs_shift :: "u16 list"
  gs_wkv_state :: "u16 list"
  gs_wkv_state32 :: "u32 list"
  gs_elapsed :: "u32 list"

record host_state =
  hs_adapter :: "nat option"
  hs_effective_key :: string
  hs_adapter_identity :: string
  hs_initial_identity :: string
  hs_advanced :: bool
  hs_batch_size :: int
  hs_wkv32 :: bool
  hs_shift :: "u16 list"
  hs_wkv_state16 :: "u16 list"
  hs_wkv_state32 :: "u32 list"
  hs_elapsed :: "u32 list"

text \<open>The JSON object in the \<open>identity\<close> column.\<close>

record state_meta =
  mt_effective :: string
  mt_adapter :: string
  mt_initial :: string
  mt_advanced :: bool

text \<open>A row of the table \<open>sessions\<close>; its primary key is the C string of the session id.\<close>

record db_row =
  row_batch_size :: int
  row_shift :: bytes
  row_wkv :: bytes
  row_wkv32 :: int
  row_elapsed :: bytes
  row_last_updated :: int
  row_identity :: string

record state_cache =
  sc_initialized :: bool
  sc_l1_capacity :: int
  sc_l2_capacity :: int
  sc_db_open :: bool
  sc_db :: "(string \<times> db_row) list"
  sc_l1 :: "(string \<times> gen_state) list"
  sc_l2 :: "(string \<times> host_state) list"
  sc_l1_order :: "string list"
  sc_l2_order :: "string list"

datatype cache_error = InvalidStateIdentity

section \<open>Copies between the tiers\<close>

definition copy_to_host :: "gen_state \<Rightarrow> host_state" where
  "copy_to_host st =
     \<lparr>hs_adapter = gs_adapter st, hs_effective_key = gs_effective_key st,
      hs_adapter_identity = gs_adapter_identity st, hs_initial_identity = gs_initial_identity st,
      hs_advanced = gs_advanced st, hs_batch_size = gs_batch_size st, hs_wkv32 = gs_wkv32 st,
      hs_shift = gs_shift st,
      hs_wkv_state16 = (if gs_wkv32 st then [] else gs_wkv_state st),
      hs_wkv_state32 = (if gs_wkv32 st then gs_wkv_state32 st else []),
      hs_elapsed = gs_elapsed st\<rparr>"

definition copy_to_device :: "host_state \<Rightarrow> gen_state" where
  "copy_to_device st =
     \<lparr>gs_adapter = hs_adapter st, gs_adapter_gpu = None, gs_effective_key = hs_effective_key st,
      gs_adapter_identity = hs_adapter_identity st, gs_initial_identity = hs_initial_identity st,
      gs_advanced = hs_advanced st, gs_text_stop_tail = [], gs_batch_size = hs_batch_size st, gs_wkv32 = hs_wkv32 st,
      gs_shift = hs_shift st,
      gs_wkv_state = (if hs_wkv32 st then [] else hs_wkv_state16 st),
      gs_wkv_state32 = (if hs_wkv32 st then hs_wkv_state32 st else []),
      gs_elapsed = hs_elapsed st\<rparr>"

definition clone_device_state :: "gen_state \<Rightarrow> gen_state" where
  "clone_device_state st =
     \<lparr>gs_adapter = gs_adapter st, gs_adapter_gpu = None, gs_effective_key = gs_effective_key st,
      gs_adapter_identity = gs_adapter_identity st, gs_initial_identity = gs_initial_identity st,
      gs_advanced = gs_advanced st, gs_text_stop_tail = [], gs_batch_size = gs_batch_size st, gs_wkv32 = gs_wkv32 st,
      gs_shift = gs_shift st,
      gs_wkv_state = (if gs_wkv32 st then [] else gs_wkv_state st),
      gs_wkv_state32 = (if gs_wkv32 st then gs_wkv_state32 st else []),
      gs_elapsed = gs_elapsed st\<rparr>"

section \<open>The database\<close>

text \<open>\<open>c_str()\<close> bound with length -1: the text ends at the first NUL.\<close>

definition c_str :: "string \<Rightarrow> string" where
  "c_str s = takeWhile (\<lambda>c. c \<noteq> CHR 0x00) s"

text \<open>
  \<open>persist_state_locked\<close>. An empty vector has a null data pointer, which binds NULL, so the
  insertion violates NOT NULL and is dropped; the code does not look at the result of
  \<open>sqlite3_step\<close>.
\<close>

definition meta_of :: "host_state \<Rightarrow> state_meta" where
  "meta_of st = \<lparr>mt_effective = hs_effective_key st, mt_adapter = hs_adapter_identity st,
     mt_initial = hs_initial_identity st, mt_advanced = hs_advanced st\<rparr>"

definition row_of :: "(state_meta \<Rightarrow> string) \<Rightarrow> int \<Rightarrow> host_state \<Rightarrow> db_row" where
  "row_of writer now st =
     \<lparr>row_batch_size = hs_batch_size st, row_shift = blob16 (hs_shift st),
      row_wkv = (if hs_wkv32 st then blob32 (hs_wkv_state32 st) else blob16 (hs_wkv_state16 st)),
      row_wkv32 = (if hs_wkv32 st then 1 else 0), row_elapsed = blob32 (hs_elapsed st),
      row_last_updated = now, row_identity = c_str (writer (meta_of st))\<rparr>"

definition persist_state_locked ::
    "(state_meta \<Rightarrow> string) \<Rightarrow> int \<Rightarrow> string \<Rightarrow> host_state \<Rightarrow> state_cache \<Rightarrow> state_cache" where
  "persist_state_locked writer now session_id st sc =
     (let row = row_of writer now st in
      if \<not> sc_db_open sc \<or> row_shift row = [] \<or> row_wkv row = [] \<or> row_elapsed row = [] then sc
      else sc\<lparr>sc_db := AList.update (c_str session_id) row (sc_db sc)\<rparr>)"

definition no_meta :: state_meta where
  "no_meta = \<lparr>mt_effective = [], mt_adapter = [], mt_initial = ''zero'', mt_advanced = False\<rparr>"

text \<open>A row as a host state; the reader yields \<open>None\<close> on a parse error.\<close>

definition row_state :: "(string \<Rightarrow> state_meta option) \<Rightarrow> db_row \<Rightarrow> host_state option" where
  "row_state reader row =
     (case (if row_identity row = [] then Some no_meta else reader (row_identity row)) of
        None \<Rightarrow> None
      | Some meta \<Rightarrow>
          let wkv32 = (row_wkv32 row \<noteq> 0);
              elapsed = read_blob32 (row_elapsed row)
          in Some \<lparr>hs_adapter = None, hs_effective_key = mt_effective meta,
               hs_adapter_identity = mt_adapter meta, hs_initial_identity = mt_initial meta,
               hs_advanced = (if mt_effective meta = [] \<and> (\<exists>n \<in> set elapsed. sint n > 0) then True
                              else mt_advanced meta),
               hs_batch_size = row_batch_size row, hs_wkv32 = wkv32,
               hs_shift = read_blob16 (row_shift row),
               hs_wkv_state16 = (if wkv32 then [] else read_blob16 (row_wkv row)),
               hs_wkv_state32 = (if wkv32 then read_blob32 (row_wkv row) else []),
               hs_elapsed = elapsed\<rparr>)"

definition load_state_locked ::
    "(string \<Rightarrow> state_meta option) \<Rightarrow> string \<Rightarrow> state_cache \<Rightarrow> cache_error + host_state option" where
  "load_state_locked reader session_id sc =
     (if \<not> sc_db_open sc then Inr None
      else case map_of (sc_db sc) (c_str session_id) of
        None \<Rightarrow> Inr None
      | Some row \<Rightarrow>
          (case row_state reader row of
             None \<Rightarrow> Inl InvalidStateIdentity
           | Some st \<Rightarrow> Inr (Some st)))"

section \<open>The LRU tiers\<close>

definition touch_l1 :: "string \<Rightarrow> state_cache \<Rightarrow> state_cache" where
  "touch_l1 key sc =
     (if map_of (sc_l1 sc) key = None then sc
      else sc\<lparr>sc_l1_order := remove1 key (sc_l1_order sc) @ [key]\<rparr>)"

definition touch_l2 :: "string \<Rightarrow> state_cache \<Rightarrow> state_cache" where
  "touch_l2 key sc =
     (if map_of (sc_l2 sc) key = None then sc
      else sc\<lparr>sc_l2_order := remove1 key (sc_l2_order sc) @ [key]\<rparr>)"

definition erase_l1 :: "string \<Rightarrow> state_cache \<Rightarrow> state_cache" where
  "erase_l1 key sc =
     (if map_of (sc_l1 sc) key = None then sc
      else sc\<lparr>sc_l1_order := remove1 key (sc_l1_order sc), sc_l1 := AList.delete key (sc_l1 sc)\<rparr>)"

definition erase_l2 :: "string \<Rightarrow> state_cache \<Rightarrow> state_cache" where
  "erase_l2 key sc =
     (if map_of (sc_l2 sc) key = None then sc
      else sc\<lparr>sc_l2_order := remove1 key (sc_l2_order sc), sc_l2 := AList.delete key (sc_l2 sc)\<rparr>)"

lemma length_delete: "map_of xs k \<noteq> None \<Longrightarrow> length (AList.delete k xs) < length xs"
  by (induction xs) (auto simp: less_Suc_eq_le length_delete_le)

text \<open>The eviction loops; \<open>None\<close> is \<open>front()\<close> of an empty list or an invalid iterator.\<close>

function evict_l2_if_needed_locked ::
    "(state_meta \<Rightarrow> string) \<Rightarrow> int \<Rightarrow> state_cache \<Rightarrow> state_cache option" where
  "evict_l2_if_needed_locked writer now sc =
     (if int (length (sc_l2 sc)) > sc_l2_capacity sc then
        (case sc_l2_order sc of
           [] \<Rightarrow> None
         | victim # order \<Rightarrow>
             (case map_of (sc_l2 sc) victim of
                None \<Rightarrow> None
              | Some st \<Rightarrow>
                  evict_l2_if_needed_locked writer now
                    ((persist_state_locked writer now victim st sc)
                       \<lparr>sc_l2_order := order, sc_l2 := AList.delete victim (sc_l2 sc)\<rparr>)))
      else Some sc)"
  by pat_completeness auto
termination
  by (relation "measure (\<lambda>(writer, now, sc). length (sc_l2 sc))") (auto intro: length_delete)

declare evict_l2_if_needed_locked.simps [simp del]

function evict_l1_if_needed_locked ::
    "(state_meta \<Rightarrow> string) \<Rightarrow> int \<Rightarrow> state_cache \<Rightarrow> state_cache option" where
  "evict_l1_if_needed_locked writer now sc =
     (if int (length (sc_l1 sc)) > sc_l1_capacity sc then
        (case sc_l1_order sc of
           [] \<Rightarrow> None
         | victim # order \<Rightarrow>
             (case map_of (sc_l1 sc) victim of
                None \<Rightarrow> None
              | Some st \<Rightarrow>
                  evict_l1_if_needed_locked writer now
                    (sc\<lparr>sc_l1_order := order, sc_l1 := AList.delete victim (sc_l1 sc),
                        sc_l2_order := sc_l2_order sc @ [victim],
                        sc_l2 := AList.update victim (copy_to_host st) (sc_l2 sc)\<rparr>)))
      else evict_l2_if_needed_locked writer now sc)"
  by pat_completeness auto
termination
  by (relation "measure (\<lambda>(writer, now, sc). length (sc_l1 sc))") (auto intro: length_delete)

declare evict_l1_if_needed_locked.simps [simp del]

section \<open>The public operations\<close>

definition fresh_manager :: "(string \<times> db_row) list \<Rightarrow> state_cache" where
  "fresh_manager db =
     \<lparr>sc_initialized = False, sc_l1_capacity = 16, sc_l2_capacity = 32, sc_db_open = False, sc_db = db,
      sc_l1 = [], sc_l2 = [], sc_l1_order = [], sc_l2_order = []\<rparr>"

text \<open>\<open>initialize\<close>; the schema statements succeed and leave the rows alone.\<close>

definition sc_initialize :: "int \<Rightarrow> int \<Rightarrow> state_cache \<Rightarrow> state_cache" where
  "sc_initialize l1_capacity l2_capacity sc =
     (if sc_initialized sc then sc
      else sc\<lparr>sc_l1_capacity := l1_capacity, sc_l2_capacity := l2_capacity,
              sc_db_open := True, sc_initialized := True\<rparr>)"

definition sc_shutdown :: "(state_meta \<Rightarrow> string) \<Rightarrow> int \<Rightarrow> state_cache \<Rightarrow> state_cache" where
  "sc_shutdown writer now sc =
     (if \<not> sc_initialized sc then sc
      else
        let sc1 = fold (\<lambda>(session_id, st). persist_state_locked writer now session_id (copy_to_host st))
                    (sc_l1 sc) sc;
            sc2 = fold (\<lambda>(session_id, st). persist_state_locked writer now session_id st) (sc_l2 sc) sc1
        in sc2\<lparr>sc_l1 := [], sc_l2 := [], sc_l1_order := [], sc_l2_order := [],
               sc_db_open := False, sc_initialized := False\<rparr>)"

definition put_state ::
    "(state_meta \<Rightarrow> string) \<Rightarrow> int \<Rightarrow> string \<Rightarrow> gen_state \<Rightarrow> state_cache \<Rightarrow> state_cache option" where
  "put_state writer now session_id st sc =
     (if \<not> sc_initialized sc \<or> session_id = [] then Some sc
      else
        let sc1 = erase_l2 session_id (erase_l1 session_id sc) in
        evict_l1_if_needed_locked writer now
          (sc1\<lparr>sc_l1_order := sc_l1_order sc1 @ [session_id],
               sc_l1 := AList.update session_id (clone_device_state st) (sc_l1 sc1)\<rparr>))"

definition get_state ::
    "(state_meta \<Rightarrow> string) \<Rightarrow> (string \<Rightarrow> state_meta option) \<Rightarrow> int \<Rightarrow> string \<Rightarrow> state_cache \<Rightarrow>
     ((cache_error + gen_state option) \<times> state_cache) option" where
  "get_state writer reader now session_id sc =
     (if \<not> sc_initialized sc \<or> session_id = [] then Some (Inr None, sc)
      else case map_of (sc_l1 sc) session_id of
        Some st \<Rightarrow> Some (Inr (Some (clone_device_state st)), touch_l1 session_id sc)
      | None \<Rightarrow>
        (case map_of (sc_l2 sc) session_id of
           Some host \<Rightarrow>
             (let sc1 = erase_l2 session_id (touch_l2 session_id sc);
                  st = copy_to_device host
              in map_option (Pair (Inr (Some st)))
                   (evict_l1_if_needed_locked writer now
                     (sc1\<lparr>sc_l1_order := sc_l1_order sc1 @ [session_id],
                          sc_l1 := AList.update session_id (clone_device_state st) (sc_l1 sc1)\<rparr>)))
         | None \<Rightarrow>
             (case load_state_locked reader session_id sc of
                Inl e \<Rightarrow> Some (Inl e, sc)
              | Inr None \<Rightarrow> Some (Inr None, sc)
              | Inr (Some host) \<Rightarrow>
                  (let st = copy_to_device host
                   in map_option (Pair (Inr (Some st)))
                        (evict_l1_if_needed_locked writer now
                          (sc\<lparr>sc_l1_order := sc_l1_order sc @ [session_id],
                              sc_l1 := AList.update session_id (clone_device_state st) (sc_l1 sc)\<rparr>))))))"

definition delete_state_from_any_level :: "string \<Rightarrow> state_cache \<Rightarrow> bool \<times> state_cache" where
  "delete_state_from_any_level session_id sc =
     (let sc1 = erase_l2 session_id (erase_l1 session_id sc);
          in_caches = (map_of (sc_l1 sc) session_id \<noteq> None \<or> map_of (sc_l2 sc) session_id \<noteq> None)
      in if sc_db_open sc1
         then (in_caches \<or> map_of (sc_db sc1) (c_str session_id) \<noteq> None,
               sc1\<lparr>sc_db := AList.delete (c_str session_id) (sc_db sc1)\<rparr>)
         else (in_caches, sc1))"

text \<open>Rows with the same time keep their order here; SQL leaves it open.\<close>

definition list_all_states :: "state_cache \<Rightarrow> string list \<times> string list \<times> string list" where
  "list_all_states sc =
     (map fst (sc_l1 sc), map fst (sc_l2 sc),
      if sc_db_open sc then map fst (sort_key (\<lambda>(_, row). - row_last_updated row) (sc_db sc)) else [])"

definition get_db_timestamp :: "string \<Rightarrow> state_cache \<Rightarrow> int option" where
  "get_db_timestamp session_id sc =
     (if sc_db_open sc then map_option row_last_updated (map_of (sc_db sc) (c_str session_id)) else None)"

section \<open>Reference: one map from sessions to states\<close>

text \<open>
  What every tier keeps of a state. The adapter handle is a pointer, which the table drops (its
  identity string survives), and a state without a key that has seen tokens counts as advanced
  after it was loaded.
\<close>

definition durable :: "host_state \<Rightarrow> host_state" where
  "durable st = st\<lparr>hs_adapter := None,
     hs_advanced := (hs_advanced st \<or> hs_effective_key st = [] \<and> (\<exists>n \<in> set (hs_elapsed st). sint n > 0)),
     hs_wkv_state16 := (if hs_wkv32 st then [] else hs_wkv_state16 st),
     hs_wkv_state32 := (if hs_wkv32 st then hs_wkv_state32 st else [])\<rparr>"

definition durable_gen :: "gen_state \<Rightarrow> host_state" where
  "durable_gen st = durable (copy_to_host st)"

text \<open>States with tensors, which is what the engine creates.\<close>

definition host_ok :: "host_state \<Rightarrow> bool" where
  "host_ok st \<longleftrightarrow> hs_shift st \<noteq> [] \<and> hs_elapsed st \<noteq> [] \<and>
     (if hs_wkv32 st then hs_wkv_state32 st \<noteq> [] else hs_wkv_state16 st \<noteq> [])"

definition gen_ok :: "gen_state \<Rightarrow> bool" where
  "gen_ok st \<longleftrightarrow> host_ok (copy_to_host st)"

text \<open>What the code relies on in jsoncpp: reading back what was written.\<close>

definition json_ok :: "(state_meta \<Rightarrow> string) \<Rightarrow> (string \<Rightarrow> state_meta option) \<Rightarrow> bool" where
  "json_ok writer reader \<longleftrightarrow>
     (\<forall>meta. reader (writer meta) = Some meta \<and> writer meta \<noteq> [] \<and> CHR 0x00 \<notin> set (writer meta))"

definition key_ok :: "string \<Rightarrow> bool" where
  "key_ok k \<longleftrightarrow> k \<noteq> [] \<and> CHR 0x00 \<notin> set k"

definition sc_abs :: "(string \<Rightarrow> state_meta option) \<Rightarrow> state_cache \<Rightarrow> string \<Rightarrow> host_state option" where
  "sc_abs reader sc session_id =
     (if \<not> key_ok session_id then None
      else case map_of (sc_l1 sc) session_id of
        Some st \<Rightarrow> Some (durable_gen st)
      | None \<Rightarrow>
        (case map_of (sc_l2 sc) session_id of
           Some st \<Rightarrow> Some (durable st)
         | None \<Rightarrow>
             Option.bind (map_of (sc_db sc) session_id) (\<lambda>row. map_option durable (row_state reader row))))"

text \<open>A tier: a map and the list of its keys, least recently used first.\<close>

definition tier_ok :: "('v \<Rightarrow> bool) \<Rightarrow> (string \<times> 'v) list \<Rightarrow> string list \<Rightarrow> bool" where
  "tier_ok P m order \<longleftrightarrow>
     distinct (map fst m) \<and> distinct order \<and> set order = fst ` set m \<and>
     (\<forall>k v. map_of m k = Some v \<longrightarrow> P v \<and> key_ok k)"

definition sc_inv :: "(string \<Rightarrow> state_meta option) \<Rightarrow> state_cache \<Rightarrow> bool" where
  "sc_inv reader sc \<longleftrightarrow>
     sc_initialized sc \<and> sc_db_open sc \<and>
     tier_ok gen_ok (sc_l1 sc) (sc_l1_order sc) \<and> tier_ok host_ok (sc_l2 sc) (sc_l2_order sc) \<and>
     fst ` set (sc_l1 sc) \<inter> fst ` set (sc_l2 sc) = {} \<and>
     0 \<le> sc_l1_capacity sc \<and> 0 \<le> sc_l2_capacity sc \<and>
     (\<forall>k row. map_of (sc_db sc) k = Some row \<longrightarrow> (\<exists>st. row_state reader row = Some st \<and> host_ok st))"

section \<open>Copies and rows\<close>

lemma durable_idem [simp]: "durable (durable st) = durable st"
  by (simp add: durable_def)

lemma durable_gen_idem [simp]: "durable (durable_gen st) = durable_gen st"
  by (simp add: durable_gen_def)

lemma clone_durable [simp]: "durable_gen (clone_device_state st) = durable_gen st"
  by (simp add: durable_gen_def durable_def copy_to_host_def clone_device_state_def)

lemma device_durable [simp]: "durable_gen (copy_to_device st) = durable st"
  by (simp add: durable_gen_def durable_def copy_to_host_def copy_to_device_def)

lemma host_durable: "durable (copy_to_host st) = durable_gen st"
  by (simp add: durable_gen_def)

lemma clone_ok [simp]: "gen_ok (clone_device_state st) = gen_ok st"
  by (simp add: gen_ok_def host_ok_def copy_to_host_def clone_device_state_def)

lemma device_ok [simp]: "gen_ok (copy_to_device st) = host_ok st"
  by (simp add: gen_ok_def host_ok_def copy_to_host_def copy_to_device_def)

lemma c_str_key: "key_ok k \<Longrightarrow> c_str k = k"
  by (auto simp: c_str_def key_ok_def takeWhile_eq_all_conv)

lemma row_state_row_of:
  assumes "json_ok writer reader"
  shows "row_state reader (row_of writer now st) = Some (durable st)"
proof -
  have w: "c_str (writer m) = writer m" "writer m \<noteq> []" "reader (writer m) = Some m" for m
    using assms by (auto simp: json_ok_def c_str_def takeWhile_eq_all_conv)
  have "row_state reader (row_of writer now st) = Some \<lparr>hs_adapter = None,
      hs_effective_key = hs_effective_key st, hs_adapter_identity = hs_adapter_identity st,
      hs_initial_identity = hs_initial_identity st,
      hs_advanced = (if hs_effective_key st = [] \<and> (\<exists>n \<in> set (hs_elapsed st). sint n > 0) then True
                     else hs_advanced st),
      hs_batch_size = hs_batch_size st, hs_wkv32 = hs_wkv32 st, hs_shift = hs_shift st,
      hs_wkv_state16 = (if hs_wkv32 st then [] else hs_wkv_state16 st),
      hs_wkv_state32 = (if hs_wkv32 st then hs_wkv_state32 st else []), hs_elapsed = hs_elapsed st\<rparr>"
    by (simp add: row_state_def row_of_def w Let_def meta_of_def) blast
  also have "\<dots> = Some (durable st)"
    by (simp add: durable_def) (auto intro: host_state.equality)
  finally show ?thesis .
qed

lemma host_ok_durable [simp]: "host_ok (durable st) = host_ok st"
  by (simp add: host_ok_def durable_def)

lemma persist_correct:
  assumes "host_ok st" "sc_db_open sc" "key_ok k"
  shows "persist_state_locked writer now k st sc =
    sc\<lparr>sc_db := AList.update k (row_of writer now st) (sc_db sc)\<rparr>"
  using assms by (auto simp: persist_state_locked_def Let_def host_ok_def c_str_key row_of_def split: if_splits)

section \<open>Tiers\<close>

lemma tier_keys: "tier_ok P m order \<Longrightarrow> k \<in> set order \<longleftrightarrow> map_of m k \<noteq> None"
  by (simp add: tier_ok_def map_of_eq_None_iff)

lemma keys_delete: "fst ` set (AList.delete k xs) = fst ` set xs - {k}"
  by (auto simp: AList.delete_eq image_iff)

lemma keys_update: "fst ` set (AList.update k v xs) = insert k (fst ` set xs)"
  by (induction xs) auto

lemma tier_erase: "tier_ok P m order \<Longrightarrow> tier_ok P (AList.delete k m) (remove1 k order)"
  by (auto simp: tier_ok_def distinct_keys_delete keys_delete set_remove1_eq split: if_splits)

lemma tier_push:
  "tier_ok P m order \<Longrightarrow> map_of m k = None \<Longrightarrow> P v \<Longrightarrow> key_ok k \<Longrightarrow>
     tier_ok P (AList.update k v m) (order @ [k])"
  by (auto simp: tier_ok_def distinct_keys_update keys_update map_of_eq_None_iff split: if_splits)

lemma tier_touch: "tier_ok P m order \<Longrightarrow> map_of m k \<noteq> None \<Longrightarrow> tier_ok P m (remove1 k order @ [k])"
  using tier_keys [of P m order k] by (auto simp: tier_ok_def set_remove1_eq)

lemma tier_pop: "tier_ok P m (k # order) \<Longrightarrow> tier_ok P (AList.delete k m) order"
  using tier_erase [of P m "k # order" k] by simp

lemma delete_absent: "map_of xs k = None \<Longrightarrow> AList.delete k xs = xs"
  by (auto simp: map_of_eq_None_iff image_iff intro: AList.delete_id)

lemma remove1_absent: "tier_ok P m order \<Longrightarrow> map_of m k = None \<Longrightarrow> remove1 k order = order"
  using tier_keys [of P m order k] by (simp add: remove1_idem)

section \<open>Eviction\<close>

definition sc_caps :: "state_cache \<Rightarrow> int \<times> int" where
  "sc_caps sc = (sc_l1_capacity sc, sc_l2_capacity sc)"

lemma sc_inv_disjoint: "sc_inv reader sc \<Longrightarrow> map_of (sc_l1 sc) k = None \<or> map_of (sc_l2 sc) k = None"
  unfolding sc_inv_def map_of_eq_None_iff by blast

lemma sc_inv_row:
  "sc_inv reader sc \<Longrightarrow> map_of (sc_db sc) k = Some row \<Longrightarrow> \<exists>st. row_state reader row = Some st \<and> host_ok st"
  unfolding sc_inv_def by blast

lemma sc_abs_evict_l2:
  assumes "json_ok writer reader" "sc_inv reader sc" "map_of (sc_l2 sc) victim = Some st"
  shows "sc_abs reader (sc\<lparr>sc_db := AList.update victim (row_of writer now st) (sc_db sc),
      sc_l2_order := order, sc_l2 := AList.delete victim (sc_l2 sc)\<rparr>) = sc_abs reader sc"
proof
  fix k
  have "map_of (sc_l1 sc) victim = None" using sc_inv_disjoint [OF assms(2), of victim] assms(3) by auto
  then show "sc_abs reader (sc\<lparr>sc_db := AList.update victim (row_of writer now st) (sc_db sc),
      sc_l2_order := order, sc_l2 := AList.delete victim (sc_l2 sc)\<rparr>) k = sc_abs reader sc k"
    using assms(3) row_state_row_of [OF assms(1)]
    by (cases "k = victim") (auto simp: sc_abs_def split: option.split)
qed

lemma evict_l2_correct:
  assumes "json_ok writer reader"
  shows "sc_inv reader sc \<Longrightarrow>
    \<exists>sc'. evict_l2_if_needed_locked writer now sc = Some sc' \<and> sc_inv reader sc' \<and>
      sc_abs reader sc' = sc_abs reader sc \<and> sc_caps sc' = sc_caps sc \<and>
      int (length (sc_l2 sc')) \<le> sc_l2_capacity sc \<and> sc_l1 sc' = sc_l1 sc"
proof (induction "length (sc_l2 sc)" arbitrary: sc rule: less_induct)
  case less
  note inv = less.prems
  have t2: "tier_ok host_ok (sc_l2 sc) (sc_l2_order sc)" using inv by (simp add: sc_inv_def)
  show ?case
  proof (cases "int (length (sc_l2 sc)) > sc_l2_capacity sc")
    case False
    then show ?thesis using inv by (simp add: evict_l2_if_needed_locked.simps)
  next
    case True
    then have "sc_l2 sc \<noteq> []" using inv by (auto simp: sc_inv_def)
    then obtain victim order where o: "sc_l2_order sc = victim # order"
      using t2 by (cases "sc_l2_order sc") (auto simp: tier_ok_def)
    then obtain st where st: "map_of (sc_l2 sc) victim = Some st"
      using tier_keys [OF t2, of victim] by auto
    have ok: "host_ok st" "key_ok victim" using t2 st by (auto simp: tier_ok_def)
    let ?sc1 = "sc\<lparr>sc_db := AList.update victim (row_of writer now st) (sc_db sc),
        sc_l2_order := order, sc_l2 := AList.delete victim (sc_l2 sc)\<rparr>"
    have step: "evict_l2_if_needed_locked writer now sc = evict_l2_if_needed_locked writer now ?sc1"
      using True o st ok inv
      by (subst evict_l2_if_needed_locked.simps) (simp add: persist_correct sc_inv_def)
    have "sc_inv reader ?sc1"
      using inv o tier_pop [of host_ok "sc_l2 sc" victim order] ok row_state_row_of [OF assms]
      by (auto simp: sc_inv_def keys_delete)
    moreover have "length (sc_l2 ?sc1) < length (sc_l2 sc)" using st by (simp add: length_delete)
    ultimately show ?thesis
      using less.hyps [of ?sc1] sc_abs_evict_l2 [OF assms inv st] step by (simp add: sc_caps_def)
  qed
qed

lemma sc_abs_evict_l1:
  assumes "map_of (sc_l1 sc) victim = Some st"
  shows "sc_abs reader (sc\<lparr>sc_l1_order := order, sc_l1 := AList.delete victim (sc_l1 sc),
      sc_l2_order := order', sc_l2 := AList.update victim (copy_to_host st) (sc_l2 sc)\<rparr>) = sc_abs reader sc"
  using assms by (auto simp: sc_abs_def host_durable fun_eq_iff split: option.split)

lemma evict_l1_correct:
  assumes "json_ok writer reader"
  shows "sc_inv reader sc \<Longrightarrow>
    \<exists>sc'. evict_l1_if_needed_locked writer now sc = Some sc' \<and> sc_inv reader sc' \<and>
      sc_abs reader sc' = sc_abs reader sc \<and> sc_caps sc' = sc_caps sc \<and>
      int (length (sc_l1 sc')) \<le> sc_l1_capacity sc \<and> int (length (sc_l2 sc')) \<le> sc_l2_capacity sc"
proof (induction "length (sc_l1 sc)" arbitrary: sc rule: less_induct)
  case less
  note inv = less.prems
  have t1: "tier_ok gen_ok (sc_l1 sc) (sc_l1_order sc)" and t2: "tier_ok host_ok (sc_l2 sc) (sc_l2_order sc)"
    using inv by (simp_all add: sc_inv_def)
  show ?case
  proof (cases "int (length (sc_l1 sc)) > sc_l1_capacity sc")
    case False
    obtain sc' where "evict_l2_if_needed_locked writer now sc = Some sc'" "sc_inv reader sc'"
      "sc_abs reader sc' = sc_abs reader sc" "sc_caps sc' = sc_caps sc"
      "int (length (sc_l2 sc')) \<le> sc_l2_capacity sc" "sc_l1 sc' = sc_l1 sc"
      using evict_l2_correct [OF assms inv] by blast
    then show ?thesis using False by (subst evict_l1_if_needed_locked.simps) auto
  next
    case True
    then have "sc_l1 sc \<noteq> []" using inv by (auto simp: sc_inv_def)
    then obtain victim order where o: "sc_l1_order sc = victim # order"
      using t1 by (cases "sc_l1_order sc") (auto simp: tier_ok_def)
    then obtain st where st: "map_of (sc_l1 sc) victim = Some st"
      using tier_keys [OF t1, of victim] by auto
    have ok: "gen_ok st" "key_ok victim" using t1 st by (auto simp: tier_ok_def)
    have none: "map_of (sc_l2 sc) victim = None" using sc_inv_disjoint [OF inv, of victim] st by auto
    let ?sc1 = "sc\<lparr>sc_l1_order := order, sc_l1 := AList.delete victim (sc_l1 sc),
        sc_l2_order := sc_l2_order sc @ [victim],
        sc_l2 := AList.update victim (copy_to_host st) (sc_l2 sc)\<rparr>"
    have step: "evict_l1_if_needed_locked writer now sc = evict_l1_if_needed_locked writer now ?sc1"
      using True o st by (subst evict_l1_if_needed_locked.simps) simp
    have "tier_ok host_ok (sc_l2 ?sc1) (sc_l2_order ?sc1)"
      using tier_push [OF t2 none, of "copy_to_host st"] ok by (simp add: gen_ok_def)
    then have "sc_inv reader ?sc1"
      using inv o tier_pop [of gen_ok "sc_l1 sc" victim order]
      by (auto simp: sc_inv_def keys_delete keys_update)
    moreover have "length (sc_l1 ?sc1) < length (sc_l1 sc)" using st by (simp add: length_delete)
    ultimately show ?thesis
      using less.hyps [of ?sc1] sc_abs_evict_l1 [OF st, where reader = reader and order = order and order' = "sc_l2_order sc @ [victim]"] step
      by (simp add: sc_caps_def)
  qed
qed

section \<open>Operations on the invariant and the abstraction\<close>

text \<open>Inserting a state into L1 for a key that no cache tier holds.\<close>

lemma insert_l1:
  assumes "json_ok writer reader" "sc_inv reader sc" "key_ok k" "gen_ok st"
    and "map_of (sc_l1 sc) k = None" "map_of (sc_l2 sc) k = None"
  shows "\<exists>sc'. evict_l1_if_needed_locked writer now
      (sc\<lparr>sc_l1_order := sc_l1_order sc @ [k], sc_l1 := AList.update k st (sc_l1 sc)\<rparr>) = Some sc' \<and>
    sc_inv reader sc' \<and> sc_abs reader sc' = (sc_abs reader sc)(k \<mapsto> durable_gen st) \<and>
    sc_caps sc' = sc_caps sc \<and> int (length (sc_l1 sc')) \<le> sc_l1_capacity sc \<and>
    int (length (sc_l2 sc')) \<le> sc_l2_capacity sc"
proof -
  let ?sc1 = "sc\<lparr>sc_l1_order := sc_l1_order sc @ [k], sc_l1 := AList.update k st (sc_l1 sc)\<rparr>"
  have "tier_ok gen_ok (sc_l1 ?sc1) (sc_l1_order ?sc1)"
    using assms by (auto simp: sc_inv_def intro: tier_push)
  moreover have "k \<notin> fst ` set (sc_l2 sc)" using assms(6) by (simp add: map_of_eq_None_iff)
  ultimately have inv: "sc_inv reader ?sc1" using assms(2) by (auto simp: sc_inv_def keys_update)
  have "sc_abs reader ?sc1 = (sc_abs reader sc)(k \<mapsto> durable_gen st)"
    using assms(3) by (auto simp: sc_abs_def fun_eq_iff split: option.split)
  then show ?thesis using evict_l1_correct [OF assms(1) inv, of now] by (simp add: sc_caps_def)
qed

definition without :: "string \<Rightarrow> state_cache \<Rightarrow> state_cache" where
  "without k sc = erase_l2 k (erase_l1 k sc)"

lemma without_eq:
  assumes "sc_inv reader sc"
  shows "without k sc = sc\<lparr>sc_l1_order := remove1 k (sc_l1_order sc), sc_l1 := AList.delete k (sc_l1 sc),
    sc_l2_order := remove1 k (sc_l2_order sc), sc_l2 := AList.delete k (sc_l2 sc)\<rparr>"
proof -
  have t: "tier_ok gen_ok (sc_l1 sc) (sc_l1_order sc)" "tier_ok host_ok (sc_l2 sc) (sc_l2_order sc)"
    using assms by (simp_all add: sc_inv_def)
  show ?thesis
    using delete_absent [of "sc_l1 sc" k] delete_absent [of "sc_l2 sc" k]
      remove1_absent [OF t(1), of k] remove1_absent [OF t(2), of k]
    by (simp add: without_def erase_l1_def erase_l2_def)
qed

lemma without_inv:
  assumes "sc_inv reader sc"
  shows "sc_inv reader (without k sc)" "map_of (sc_l1 (without k sc)) k = None"
    "map_of (sc_l2 (without k sc)) k = None" "sc_caps (without k sc) = sc_caps sc"
    "sc_db (without k sc) = sc_db sc"
    "j \<noteq> k \<Longrightarrow> sc_abs reader (without k sc) j = sc_abs reader sc j"
proof -
  note eq = without_eq [OF assms]
  show "sc_inv reader (without k sc)"
    using assms tier_erase [of gen_ok "sc_l1 sc" "sc_l1_order sc" k]
      tier_erase [of host_ok "sc_l2 sc" "sc_l2_order sc" k]
    unfolding eq by (auto simp: sc_inv_def keys_delete)
  show "map_of (sc_l1 (without k sc)) k = None" "map_of (sc_l2 (without k sc)) k = None"
    "sc_caps (without k sc) = sc_caps sc" "sc_db (without k sc) = sc_db sc"
    unfolding eq by (simp_all add: sc_caps_def)
  show "j \<noteq> k \<Longrightarrow> sc_abs reader (without k sc) j = sc_abs reader sc j"
    unfolding eq by (simp add: sc_abs_def split: option.split)
qed

definition caps_kept :: "state_cache \<Rightarrow> state_cache \<Rightarrow> bool" where
  "caps_kept sc sc' \<longleftrightarrow> sc_caps sc' = sc_caps sc \<and>
     (int (length (sc_l1 sc)) \<le> sc_l1_capacity sc \<and> int (length (sc_l2 sc)) \<le> sc_l2_capacity sc \<longrightarrow>
      int (length (sc_l1 sc')) \<le> sc_l1_capacity sc' \<and> int (length (sc_l2 sc')) \<le> sc_l2_capacity sc')"

lemma put_state_correct:
  assumes "json_ok writer reader" "sc_inv reader sc" "key_ok k" "gen_ok st"
  shows "\<exists>sc'. put_state writer now k st sc = Some sc' \<and> sc_inv reader sc' \<and>
    sc_abs reader sc' = (sc_abs reader sc)(k \<mapsto> durable_gen st) \<and> caps_kept sc sc'"
proof -
  have init: "sc_initialized sc" "k \<noteq> []" using assms(2,3) by (auto simp: sc_inv_def key_ok_def)
  note w = without_inv [OF assms(2), where k = k]
  have "(sc_abs reader (without k sc))(k \<mapsto> durable_gen st) = (sc_abs reader sc)(k \<mapsto> durable_gen st)"
    using w(6) by (auto simp: fun_eq_iff)
  then show ?thesis
    using insert_l1 [OF assms(1) w(1) assms(3) _ w(2,3), of "clone_device_state st" now] assms(4) init w(4)
    by (auto simp: put_state_def Let_def without_def [symmetric] caps_kept_def sc_caps_def)
qed

lemma get_state_correct:
  assumes "json_ok writer reader" "sc_inv reader sc" "key_ok k"
  shows "\<exists>r sc'. get_state writer reader now k sc = Some (Inr r, sc') \<and> sc_inv reader sc' \<and>
    map_option durable_gen r = sc_abs reader sc k \<and> sc_abs reader sc' = sc_abs reader sc \<and> caps_kept sc sc'"
proof -
  have init: "sc_initialized sc" "sc_db_open sc" "k \<noteq> []" using assms(2,3) by (auto simp: sc_inv_def key_ok_def)
  have t: "tier_ok gen_ok (sc_l1 sc) (sc_l1_order sc)" "tier_ok host_ok (sc_l2 sc) (sc_l2_order sc)"
    using assms(2) by (simp_all add: sc_inv_def)
  show ?thesis
  proof (cases "map_of (sc_l1 sc) k")
    case (Some st)
    let ?sc' = "touch_l1 k sc"
    have "sc_inv reader ?sc'" using assms(2) Some tier_touch [OF t(1), of k]
      by (simp add: touch_l1_def sc_inv_def)
    moreover have "sc_abs reader ?sc' = sc_abs reader sc" by (simp add: touch_l1_def sc_abs_def fun_eq_iff split: option.split)
    moreover have "caps_kept sc ?sc'" by (simp add: caps_kept_def touch_l1_def sc_caps_def)
    ultimately show ?thesis using Some init assms(3) by (simp add: get_state_def sc_abs_def)
  next
    case l1: None
    show ?thesis
    proof (cases "map_of (sc_l2 sc) k")
      case (Some host)
      have ok: "host_ok host" using t(2) Some by (simp add: tier_ok_def)
      have eq: "erase_l2 k (touch_l2 k sc) = without k sc"
      proof -
        have "k \<in> set (sc_l2_order sc)" "distinct (sc_l2_order sc)"
          using tier_keys [OF t(2), of k] Some t(2) by (auto simp: tier_ok_def)
        then have "remove1 k (remove1 k (sc_l2_order sc) @ [k]) = remove1 k (sc_l2_order sc)"
          by (auto simp: remove1_append)
        then show ?thesis using l1 Some by (simp add: without_def erase_l1_def erase_l2_def touch_l2_def)
      qed
      note w = without_inv [OF assms(2), where k = k]
      have "(sc_abs reader (without k sc))(k \<mapsto> durable host) = sc_abs reader sc"
      proof -
        have "sc_abs reader sc k = Some (durable host)" using l1 Some assms(3) by (simp add: sc_abs_def)
        then show ?thesis using w(6) by (simp add: fun_eq_iff)
      qed
      then show ?thesis
        using insert_l1 [OF assms(1) w(1) assms(3) _ w(2,3), of "clone_device_state (copy_to_device host)" now]
          ok l1 Some init w(4) assms(3)
        by (auto simp: get_state_def Let_def eq sc_abs_def caps_kept_def sc_caps_def)
    next
      case l2: None
      show ?thesis
      proof (cases "map_of (sc_db sc) k")
        case None
        then show ?thesis using init l1 l2 assms(2,3)
          by (simp add: get_state_def load_state_locked_def c_str_key sc_abs_def caps_kept_def)
      next
        case (Some row)
        then obtain host where host: "row_state reader row = Some host" "host_ok host"
          using sc_inv_row [OF assms(2)] by blast
        have load: "load_state_locked reader k sc = Inr (Some host)"
          using init Some host assms(3) by (simp add: load_state_locked_def c_str_key)
        have "(sc_abs reader sc)(k \<mapsto> durable host) = sc_abs reader sc"
          using l1 l2 Some host assms(3) by (auto simp: fun_eq_iff sc_abs_def)
        then show ?thesis
          using insert_l1 [OF assms(1,2,3) _ l1 l2, of "clone_device_state (copy_to_device host)" now]
            host l1 l2 Some init load assms(3)
          by (auto simp: get_state_def Let_def sc_abs_def caps_kept_def sc_caps_def)
      qed
    qed
  qed
qed

lemma delete_state_correct:
  assumes "sc_inv reader sc" "key_ok k"
  shows "delete_state_from_any_level k sc = (sc_abs reader sc k \<noteq> None, snd (delete_state_from_any_level k sc)) \<and>
    sc_inv reader (snd (delete_state_from_any_level k sc)) \<and>
    sc_abs reader (snd (delete_state_from_any_level k sc)) = (sc_abs reader sc)(k := None) \<and>
    caps_kept sc (snd (delete_state_from_any_level k sc))"
proof -
  note w = without_inv [OF assms(1), where k = k]
  let ?sc' = "(without k sc)\<lparr>sc_db := AList.delete k (sc_db sc)\<rparr>"
  have open': "sc_db_open (without k sc)" using w(1) by (simp add: sc_inv_def)
  have rows: "\<exists>st. row_state reader row = Some st" if "map_of (sc_db sc) k = Some row" for row
    using assms(1) that unfolding sc_inv_def by blast
  have del: "delete_state_from_any_level k sc = (sc_abs reader sc k \<noteq> None, ?sc')"
    using open' w(5) rows assms(2)
    by (auto simp: delete_state_from_any_level_def Let_def without_def [symmetric] c_str_key sc_abs_def
        bind_eq_Some_conv split: option.splits)
  have "sc_inv reader ?sc'" using w(1) w(5) by (simp add: sc_inv_def)
  moreover have "sc_abs reader ?sc' = (sc_abs reader sc)(k := None)"
  proof
    fix j show "sc_abs reader ?sc' j = ((sc_abs reader sc)(k := None)) j"
    proof (cases "j = k")
      case True
      then show ?thesis using w(2,3) by (simp add: sc_abs_def)
    next
      case False
      then have "sc_abs reader ?sc' j = sc_abs reader (without k sc) j"
        using w(5) by (simp add: sc_abs_def split: option.split)
      then show ?thesis using w(6) [where j = j] False by simp
    qed
  qed
  moreover have "caps_kept sc ?sc'"
    using w(4) length_delete_le [of k "sc_l1 sc"] length_delete_le [of k "sc_l2 sc"]
    by (auto simp: caps_kept_def sc_caps_def without_eq [OF assms(1)])
  ultimately show ?thesis using del by simp
qed

lemma persist_all:
  assumes "sc_db_open sc" "distinct (map fst xs)" "\<forall>(k, st) \<in> set xs. host_ok st \<and> key_ok k"
  shows "\<exists>db. fold (\<lambda>(k, st). persist_state_locked writer now k st) xs sc = sc\<lparr>sc_db := db\<rparr> \<and>
    (\<forall>k. map_of db k = (case map_of xs k of Some st \<Rightarrow> Some (row_of writer now st) | None \<Rightarrow> map_of (sc_db sc) k))"
  using assms
proof (induction xs arbitrary: sc)
  case Nil
  show ?case by (intro exI [of _ "sc_db sc"]) simp
next
  case (Cons x xs)
  obtain k st where x: "x = (k, st)" by fastforce
  let ?sc1 = "sc\<lparr>sc_db := AList.update k (row_of writer now st) (sc_db sc)\<rparr>"
  have one: "persist_state_locked writer now k st sc = ?sc1"
    using Cons.prems x by (auto intro: persist_correct)
  obtain db where db: "fold (\<lambda>(k, st). persist_state_locked writer now k st) xs ?sc1 = ?sc1\<lparr>sc_db := db\<rparr>"
    "\<forall>k. map_of db k = (case map_of xs k of Some st \<Rightarrow> Some (row_of writer now st)
       | None \<Rightarrow> map_of (sc_db ?sc1) k)"
    using Cons.IH [of ?sc1] Cons.prems by auto
  have "map_of xs k = None" using Cons.prems(2) x by (simp add: map_of_eq_None_iff)
  then show ?case using db x one by (intro exI [of _ db]) (auto split: option.split)
qed

lemma shutdown_correct:
  fixes now :: int
  assumes "json_ok writer reader" "sc_inv reader sc" "0 \<le> c1" "0 \<le> c2"
  defines "sc' \<equiv> sc_initialize c1 c2 (sc_shutdown writer now sc)"
  shows "sc_inv reader sc' \<and> sc_abs reader sc' = sc_abs reader sc \<and> sc_l1 sc' = [] \<and> sc_l2 sc' = []"
proof -
  have inv: "sc_initialized sc" "sc_db_open sc" "tier_ok gen_ok (sc_l1 sc) (sc_l1_order sc)"
    "tier_ok host_ok (sc_l2 sc) (sc_l2_order sc)" using assms(2) by (simp_all add: sc_inv_def)
  let ?xs = "map (\<lambda>(k, st). (k, copy_to_host st)) (sc_l1 sc)"
  have "map fst ?xs = map fst (sc_l1 sc)" by auto
  then have d: "distinct (map fst ?xs)" "distinct (map fst (sc_l2 sc))"
    using inv(3,4) by (simp_all only: tier_ok_def)
  have "\<forall>(k, st) \<in> set (sc_l1 sc). gen_ok st \<and> key_ok k" "\<forall>(k, st) \<in> set (sc_l2 sc). host_ok st \<and> key_ok k"
    using inv(3,4) by (auto simp: tier_ok_def)
  then have ok: "\<forall>(k, st) \<in> set ?xs. host_ok st \<and> key_ok k" "\<forall>(k, st) \<in> set (sc_l2 sc). host_ok st \<and> key_ok k"
    by (auto simp: gen_ok_def)
  obtain db1 where db1: "fold (\<lambda>(k, st). persist_state_locked writer now k st) ?xs sc = sc\<lparr>sc_db := db1\<rparr>"
    "\<forall>k. map_of db1 k = (case map_of ?xs k of Some st \<Rightarrow> Some (row_of writer now st) | None \<Rightarrow> map_of (sc_db sc) k)"
    using persist_all [OF inv(2) d(1) ok(1)] by blast
  have open1: "sc_db_open (sc\<lparr>sc_db := db1\<rparr>)" using inv(2) by simp
  obtain db2 where db2: "fold (\<lambda>(k, st). persist_state_locked writer now k st) (sc_l2 sc) (sc\<lparr>sc_db := db1\<rparr>) =
      (sc\<lparr>sc_db := db1\<rparr>)\<lparr>sc_db := db2\<rparr>"
    "\<forall>k. map_of db2 k = (case map_of (sc_l2 sc) k of Some st \<Rightarrow> Some (row_of writer now st)
       | None \<Rightarrow> map_of (sc_db (sc\<lparr>sc_db := db1\<rparr>)) k)"
    using persist_all [OF open1 d(2) ok(2)] by blast
  have "fold (\<lambda>(k, st). persist_state_locked writer now k (copy_to_host st)) (sc_l1 sc) sc = sc\<lparr>sc_db := db1\<rparr>"
    using db1(1) by (simp add: fold_map comp_def case_prod_beta')
  then have sc': "sc' = sc\<lparr>sc_db := db2, sc_l1 := [], sc_l2 := [], sc_l1_order := [], sc_l2_order := [],
      sc_l1_capacity := c1, sc_l2_capacity := c2, sc_db_open := True, sc_initialized := True\<rparr>"
    using db2(1) inv by (simp add: sc'_def sc_initialize_def sc_shutdown_def Let_def)
  have mx: "map_of ?xs k = map_option copy_to_host (map_of (sc_l1 sc) k)" for k
    by (induction "sc_l1 sc") (auto simp: map_of_map)
  have rows: "map_of db2 k = (case map_of (sc_l2 sc) k of Some st \<Rightarrow> Some (row_of writer now st)
      | None \<Rightarrow> (case map_of (sc_l1 sc) k of Some st \<Rightarrow> Some (row_of writer now (copy_to_host st))
         | None \<Rightarrow> map_of (sc_db sc) k))" for k
    using db1(2) db2(2) by (simp add: mx split: option.split)
  have "sc_inv reader sc'"
    using assms(3,4) inv(3,4) sc_inv_row [OF assms(2)] row_state_row_of [OF assms(1)]
    by (auto simp: sc' sc_inv_def rows tier_ok_def gen_ok_def split: option.splits)
  moreover have "sc_abs reader sc' = sc_abs reader sc"
  proof
    fix k show "sc_abs reader sc' k = sc_abs reader sc k"
      using sc_inv_disjoint [OF assms(2), of k] row_state_row_of [OF assms(1)]
      by (auto simp: sc_abs_def sc' rows host_durable split: option.split)
  qed
  ultimately show ?thesis by (simp add: sc')
qed

section \<open>Whole runs\<close>

datatype cache_op =
    CachePut int string gen_state
  | CacheGet int string
  | CacheDelete string
  | CacheRestart int int int

datatype cache_out = NoAnswer | Got "cache_error + host_state option" | Deleted bool

fun cache_op_ok :: "cache_op \<Rightarrow> bool" where
  "cache_op_ok (CachePut now k st) = (key_ok k \<and> gen_ok st)"
| "cache_op_ok (CacheGet now k) = key_ok k"
| "cache_op_ok (CacheDelete k) = key_ok k"
| "cache_op_ok (CacheRestart now c1 c2) = (0 \<le> c1 \<and> 0 \<le> c2)"

fun cache_step ::
    "(state_meta \<Rightarrow> string) \<Rightarrow> (string \<Rightarrow> state_meta option) \<Rightarrow> cache_op \<Rightarrow> state_cache \<Rightarrow>
     (cache_out \<times> state_cache) option" where
  "cache_step writer reader (CachePut now k st) sc = map_option (Pair NoAnswer) (put_state writer now k st sc)"
| "cache_step writer reader (CacheGet now k) sc =
     map_option (map_prod (Got \<circ> map_sum id (map_option durable_gen)) id) (get_state writer reader now k sc)"
| "cache_step writer reader (CacheDelete k) sc = Some (map_prod Deleted id (delete_state_from_any_level k sc))"
| "cache_step writer reader (CacheRestart now c1 c2) sc =
     Some (NoAnswer, sc_initialize c1 c2 (sc_shutdown writer now sc))"

fun session_step :: "cache_op \<Rightarrow> (string \<Rightarrow> host_state option) \<Rightarrow> cache_out \<times> (string \<Rightarrow> host_state option)" where
  "session_step (CachePut now k st) m = (NoAnswer, m(k \<mapsto> durable_gen st))"
| "session_step (CacheGet now k) m = (Got (Inr (m k)), m)"
| "session_step (CacheDelete k) m = (Deleted (m k \<noteq> None), m(k := None))"
| "session_step (CacheRestart now c1 c2) m = (NoAnswer, m)"

lemma cache_refinement:
  assumes "json_ok writer reader"
  shows "guarded_refinement (sc_inv reader) (sc_abs reader) cache_op_ok (cache_step writer reader) session_step"
proof (unfold_locales, goal_cases)
  case (1 sc p)
  show ?case
  proof (cases p)
    case (CachePut now k st)
    then show ?thesis using put_state_correct [OF assms 1(1), of k st now] 1(2) by auto
  next
    case (CacheGet now k)
    then show ?thesis using get_state_correct [OF assms 1(1), of k now] 1(2) by force
  next
    case (CacheDelete k)
    then show ?thesis using delete_state_correct [OF 1(1), of k] 1(2)
      by (cases "delete_state_from_any_level k sc") auto
  next
    case (CacheRestart now c1 c2)
    then show ?thesis using shutdown_correct [OF assms 1(1), of c1 c2 now] 1(2) by auto
  qed
qed

lemma sc_inv_fresh:
  assumes "0 \<le> c1" "0 \<le> c2" "\<forall>row \<in> snd ` set db. \<exists>st. row_state reader row = Some st \<and> host_ok st"
  shows "sc_inv reader (sc_initialize c1 c2 (fresh_manager db))"
  using assms by (auto simp: sc_inv_def sc_initialize_def fresh_manager_def tier_ok_def dest!: map_of_SomeD)

lemma cache_step_bounds:
  assumes "json_ok writer reader" "sc_inv reader sc" "cache_op_ok p"
    and "int (length (sc_l1 sc)) \<le> sc_l1_capacity sc \<and> int (length (sc_l2 sc)) \<le> sc_l2_capacity sc"
    and "cache_step writer reader p sc = Some (r, sc')"
  shows "sc_inv reader sc' \<and> int (length (sc_l1 sc')) \<le> sc_l1_capacity sc' \<and>
    int (length (sc_l2 sc')) \<le> sc_l2_capacity sc'"
proof (cases p)
  case (CachePut now k st)
  then show ?thesis using put_state_correct [OF assms(1,2), of k st now] assms(3-5)
    by (auto simp: caps_kept_def)
next
  case (CacheGet now k)
  then show ?thesis using get_state_correct [OF assms(1,2), of k now] assms(3-5)
    by (auto simp: caps_kept_def)
next
  case (CacheDelete k)
  then show ?thesis using delete_state_correct [OF assms(2), of k] assms(3-5)
    by (cases "delete_state_from_any_level k sc") (auto simp: caps_kept_def)
next
  case (CacheRestart now c1 c2)
  then show ?thesis using shutdown_correct [OF assms(1,2), of c1 c2 now] assms(3-5)
    by (auto simp: sc_inv_def)
qed

section \<open>Properties\<close>


text \<open>A concrete writer and reader.\<close>

fun demo_quote :: "string \<Rightarrow> string" where
  "demo_quote [] = ''-''"
| "demo_quote (c # cs) = (if c = CHR 0x00 then CHR ''0'' # demo_quote cs else CHR ''+'' # c # demo_quote cs)"

fun demo_unquote :: "string \<Rightarrow> string \<times> string" where
  "demo_unquote (d # cs) =
     (if d = CHR ''0'' then apfst (Cons (CHR 0x00)) (demo_unquote cs)
      else if d = CHR ''+'' then (case cs of [] \<Rightarrow> ([], []) | c # rest \<Rightarrow> apfst (Cons c) (demo_unquote rest))
      else ([], cs))"
| "demo_unquote [] = ([], [])"

definition demo_writer :: "state_meta \<Rightarrow> string" where
  "demo_writer m = demo_quote (mt_effective m) @ demo_quote (mt_adapter m) @ demo_quote (mt_initial m) @
     (if mt_advanced m then ''1'' else ''0'')"

definition demo_reader :: "string \<Rightarrow> state_meta option" where
  "demo_reader s =
     (let (e, s1) = demo_unquote s; (a, s2) = demo_unquote s1; (i, s3) = demo_unquote s2
      in Some \<lparr>mt_effective = e, mt_adapter = a, mt_initial = i, mt_advanced = (s3 = ''1'')\<rparr>)"

lemma demo_unquote_quote: "demo_unquote (demo_quote s @ rest) = (s, rest)"
  by (induction s) auto

lemma demo_json: "json_ok demo_writer demo_reader"
proof -
  have "CHR 0x00 \<notin> set (demo_quote s)" "demo_quote s \<noteq> []" for s
    by (induction s) auto
  then show ?thesis
    by (auto simp: json_ok_def demo_writer_def demo_reader_def demo_unquote_quote)
qed

definition demo_state :: "u16 \<Rightarrow> gen_state" where
  "demo_state n = \<lparr>gs_adapter = Some 3, gs_adapter_gpu = None, gs_effective_key = [], gs_adapter_identity = ''lora'',
     gs_initial_identity = ''zero'', gs_advanced = False, gs_text_stop_tail = [], gs_batch_size = 1, gs_wkv32 = False,
     gs_shift = [n, 1], gs_wkv_state = [2], gs_wkv_state32 = [], gs_elapsed = [5]\<rparr>"

definition demo_ops :: "cache_op list" where
  "demo_ops = [CachePut 0 ''a'' (demo_state 1), CachePut 1 ''b'' (demo_state 2), CachePut 2 ''c'' (demo_state 3),
     CacheGet 3 ''a'', CacheDelete ''b'', CacheRestart 4 1 1, CacheGet 5 ''b'', CacheGet 6 ''c'']"


text \<open>
  At every point of a run the two cache tiers respect their capacities, hold every session at
  most once and never hold the same session twice.
\<close>

theorem state_cache_tiers_bounded:
  assumes "json_ok writer reader" "0 \<le> c1" "0 \<le> c2" "list_all cache_op_ok ops"
    and "run_ops (cache_step writer reader) ops (sc_initialize c1 c2 (fresh_manager [])) = Some (rs, sc)"
  shows "int (length (sc_l1 sc)) \<le> sc_l1_capacity sc \<and> int (length (sc_l2 sc)) \<le> sc_l2_capacity sc \<and>
    distinct (map fst (sc_l1 sc) @ map fst (sc_l2 sc)) \<and>
    set (sc_l1_order sc) = fst ` set (sc_l1 sc) \<and> set (sc_l2_order sc) = fst ` set (sc_l2 sc)"
proof -
  let ?B = "\<lambda>sc. int (length (sc_l1 sc)) \<le> sc_l1_capacity sc \<and> int (length (sc_l2 sc)) \<le> sc_l2_capacity sc"
  have run: "run_ops (cache_step writer reader) ops sc0 = Some (rs, sc) \<Longrightarrow> list_all cache_op_ok ops \<Longrightarrow>
      sc_inv reader sc0 \<Longrightarrow> ?B sc0 \<Longrightarrow> sc_inv reader sc \<and> ?B sc" for sc0
  proof (induction ops arbitrary: sc0 rs)
    case (Cons p ops)
    obtain r sc1 where sc1: "cache_step writer reader p sc0 = Some (r, sc1)"
      using Cons.prems(1) by (auto split: option.splits)
    have "sc_inv reader sc1 \<and> ?B sc1"
      by (rule cache_step_bounds [OF assms(1) Cons.prems(3) _ Cons.prems(4) sc1]) (use Cons.prems(2) in simp)
    then show ?case using Cons.IH [of sc1] Cons.prems sc1 by (auto split: option.splits)
  qed simp
  have "sc_inv reader (sc_initialize c1 c2 (fresh_manager []))"
    using assms(2,3) by (intro sc_inv_fresh) auto
  then have "sc_inv reader sc \<and> ?B sc"
    using assms(2-5) by (intro run) (auto simp: sc_initialize_def fresh_manager_def)
  then show ?thesis by (auto simp: sc_inv_def tier_ok_def)
qed

theorem state_cache_tiers_bounded_witness:
  "\<exists>rs sc. run_ops (cache_step demo_writer demo_reader) demo_ops (sc_initialize 1 1 (fresh_manager [])) =
      Some (rs, sc) \<and> int (length (sc_l1 sc)) \<le> sc_l1_capacity sc"
proof -
  have ok: "list_all cache_op_ok demo_ops"
    by (simp add: demo_ops_def key_ok_def gen_ok_def host_ok_def copy_to_host_def demo_state_def)
  have "sc_inv demo_reader (sc_initialize 1 1 (fresh_manager []))" by (intro sc_inv_fresh) auto
  then obtain rs sc where run: "run_ops (cache_step demo_writer demo_reader) demo_ops (sc_initialize 1 1 (fresh_manager [])) =
      Some (rs, sc)"
    using guarded_refinement.guarded_run [OF cache_refinement [OF demo_json] _ ok] by blast
  have "int (length (sc_l1 sc)) \<le> sc_l1_capacity sc"
    using state_cache_tiers_bounded [OF demo_json _ _ ok run] by simp
  then show ?thesis using run by blast
qed

end
