(* ===== verification/Prefill.thy ===== *)
theory Prefill
  imports PrefixContract
begin

text \<open>
  Prompt processing of \<open>InferenceEngine\<close> (\<open>src/inference/rwkv_inference_engine.cpp\<close>):
  \<open>encode_prompts_sorted\<close>, \<open>prefill_batch_chunked\<close> and \<open>prefill_cached\<close>. A batch state is
  the list of its rows' states and a logits buffer the list of its rows; what a row state and a
  logits row are is up to the model backend, whose \<open>forward_prefill\<close> is a parameter, as is the
  tokenizer. An outer \<open>None\<close> is a loop that does not end or undefined behaviour.
\<close>

datatype prefill_error =
    EmptyPrompt | EmptyBatch | BatchSizeMismatch | LogitsNotInitialized | BackendThrows
  | AdvancedState | SnapshotMismatch

section \<open>Encoding and ordering\<close>

fun encode_all :: "(bytes \<Rightarrow> token list) \<Rightarrow> bytes list \<Rightarrow> prefill_error + token list list" where
  "encode_all encode [] = Inr []"
| "encode_all encode (p # ps) =
     (if encode p = [] then Inl EmptyPrompt
      else map_sum id (Cons (encode p)) (encode_all encode ps))"

text \<open>\<open>std::stable_sort\<close> of the row numbers, longest prompt first.\<close>

definition longest_first :: "nat list \<Rightarrow> nat list" where
  "longest_first lengths = sort_key (\<lambda>i. - int (lengths ! i)) [0..<length lengths]"

definition encode_prompts_sorted ::
    "(bytes \<Rightarrow> token list) \<Rightarrow> bytes list \<Rightarrow> prefill_error + token list list \<times> nat list" where
  "encode_prompts_sorted encode prompts =
     (case encode_all encode prompts of
        Inl e \<Rightarrow> Inl e
      | Inr encoded \<Rightarrow>
          let order = longest_first (map length encoded)
          in Inr (map (\<lambda>i. encoded ! i) order, order))"

section \<open>Chunked prefill\<close>

text \<open>The rows that still have tokens, counted from the front.\<close>

fun active_count :: "token list list \<Rightarrow> nat list \<Rightarrow> nat" where
  "active_count (ids # prompts) (p # pos) =
     (if p < length ids then Suc (active_count prompts pos) else 0)"
| "active_count _ _ = 0"

definition chunk_step :: "nat \<Rightarrow> token list list \<Rightarrow> nat list \<Rightarrow> nat \<Rightarrow> nat" where
  "chunk_step chunk prompts pos active =
     min (fold min (map (\<lambda>i. length (prompts ! i) - pos ! i) [1..<active])
            (length (prompts ! 0) - pos ! 0)) chunk"

lemma active_count_le: "active_count prompts pos \<le> length prompts \<and> active_count prompts pos \<le> length pos"
  by (induction prompts pos rule: active_count.induct) auto

lemma active_count_nth: "i < active_count prompts pos \<Longrightarrow> pos ! i < length (prompts ! i)"
proof (induction prompts pos arbitrary: i rule: active_count.induct)
  case (1 ids prompts p pos)
  then show ?case by (cases i) (auto split: if_splits)
qed auto

definition tokens_left :: "token list list \<Rightarrow> nat list \<Rightarrow> nat" where
  "tokens_left prompts pos = (\<Sum>i < min (length prompts) (length pos). length (prompts ! i) - pos ! i)"

lemma tokens_left_step:
  assumes "active_count prompts pos \<noteq> 0" "step \<noteq> 0"
  shows "tokens_left prompts (map (\<lambda>i. if i < active_count prompts pos then pos ! i + step else pos ! i) [0..<length pos])
    < tokens_left prompts pos"
proof -
  let ?a = "active_count prompts pos" and ?n = "min (length prompts) (length pos)"
  have "?a \<le> ?n" using active_count_le by simp
  then have "0 < ?n" "0 < ?a" using assms(1) by auto
  have "(\<Sum>i < ?n. length (prompts ! i) - (if i < ?a then pos ! i + step else pos ! i)) <
      (\<Sum>i < ?n. length (prompts ! i) - pos ! i)"
  proof (rule sum_strict_mono_ex1)
    show "\<exists>i\<in>{..<?n}. length (prompts ! i) - (if i < ?a then pos ! i + step else pos ! i) < length (prompts ! i) - pos ! i"
      using active_count_nth [of 0 prompts pos] \<open>0 < ?n\<close> \<open>0 < ?a\<close> assms(2)
      by (intro bexI [of _ 0]) auto
  qed auto
  moreover have "tokens_left prompts (map (\<lambda>i. if i < ?a then pos ! i + step else pos ! i) [0..<length pos]) =
      (\<Sum>i < ?n. length (prompts ! i) - (if i < ?a then pos ! i + step else pos ! i))"
    by (auto simp: tokens_left_def intro!: sum.cong)
  ultimately show ?thesis by (simp only: tokens_left_def)
qed

text \<open>
  The main loop. A step of zero would loop for ever and a range past the end of a prompt is
  undefined behaviour: both are \<open>None\<close>.
\<close>

type_synonym ('st, 'lg) forward = "token list list \<Rightarrow> 'st list \<Rightarrow> ('st list \<times> 'lg list) option"

function prefill_loop ::
    "('st, 'lg) forward \<Rightarrow> nat \<Rightarrow> token list list \<Rightarrow> nat list \<Rightarrow> bool \<Rightarrow> 'st list \<Rightarrow> 'lg list \<Rightarrow>
     (prefill_error + 'st list \<times> 'lg list) option" where
  "prefill_loop fwd chunk prompts pos initialized states logits =
     (let active = active_count prompts pos in
      if active = 0 then Some (Inr (states, logits))
      else
        let step = chunk_step chunk prompts pos active;
            chunks = map (\<lambda>i. subrange (prompts ! i) (pos ! i) (pos ! i + step)) [0..<active];
            pos' = map (\<lambda>i. if i < active then pos ! i + step else pos ! i) [0..<length pos]
        in
        if step = 0 \<or> \<not> list_all (\<lambda>i. pos ! i + step \<le> length (prompts ! i)) [0..<active] then None
        else if active = length prompts then
          (case fwd chunks states of
             None \<Rightarrow> Some (Inl BackendThrows)
           | Some (states', logits') \<Rightarrow> prefill_loop fwd chunk prompts pos' True states' logits')
        else
          (case fwd chunks (take active states) of
             None \<Rightarrow> Some (Inl BackendThrows)
           | Some (sub_states, sub_logits) \<Rightarrow>
               if \<not> initialized then Some (Inl LogitsNotInitialized)
               else prefill_loop fwd chunk prompts pos' initialized
                      (take active sub_states @ drop active states)
                      (take active sub_logits @ drop active logits)))"
  by pat_completeness auto

termination
  by (relation "measure (\<lambda>(fwd, chunk, prompts, pos, initialized, states, logits). tokens_left prompts pos)")
    (auto simp: tokens_left_step)

declare prefill_loop.simps [simp del]

definition prefill_batch_chunked ::
    "('st, 'lg) forward \<Rightarrow> nat \<Rightarrow> token list list \<Rightarrow> 'st list \<Rightarrow> 'lg list \<Rightarrow>
     (prefill_error + 'st list \<times> 'lg list) option" where
  "prefill_batch_chunked fwd chunk prompts states logits =
     (if prompts = [] then Some (Inl EmptyBatch)
      else if length states \<noteq> length prompts then Some (Inl BatchSizeMismatch)
      else prefill_loop fwd chunk prompts (replicate (length prompts) 0)
             (length logits = length prompts) states logits)"

section \<open>Reference: every row alone, token by token\<close>

text \<open>\<open>f t st\<close> feeds one token to a row state and gives the next state and the logits.\<close>

definition feed :: "(token \<Rightarrow> 'st \<Rightarrow> 'st \<times> 'lg) \<Rightarrow> token list \<Rightarrow> 'st \<Rightarrow> 'st" where
  "feed f ids st = foldl (\<lambda>s t. fst (f t s)) st ids"

definition row_logits :: "(token \<Rightarrow> 'st \<Rightarrow> 'st \<times> 'lg) \<Rightarrow> token list \<Rightarrow> 'st \<Rightarrow> 'lg \<Rightarrow> 'lg" where
  "row_logits f ids st lg = (if ids = [] then lg else snd (f (last ids) (feed f (butlast ids) st)))"

text \<open>
  What the engine relies on in \<open>IModelBackend::forward_prefill\<close>: a batch of non-empty chunks is
  processed row by row, each row in token order, and the logits are those after its last token.
\<close>

definition rowwise :: "('st, 'lg) forward \<Rightarrow> (token \<Rightarrow> 'st \<Rightarrow> 'st \<times> 'lg) \<Rightarrow> bool" where
  "rowwise fwd f \<longleftrightarrow>
     (\<forall>tss sts. length tss = length sts \<and> [] \<notin> set tss \<longrightarrow>
        fwd tss sts = Some (map2 (feed f) tss sts, map2 (\<lambda>ts st. row_logits f ts st undefined) tss sts))"

lemma feed_append: "feed f (xs @ ys) st = feed f ys (feed f xs st)"
  by (simp add: feed_def)

lemma feed_Nil [simp]: "feed f [] st = st"
  by (simp add: feed_def)

lemma row_logits_append:
  "row_logits f (xs @ ys) st lg = row_logits f ys (feed f xs st) (row_logits f xs st lg)"
  by (auto simp: row_logits_def butlast_append feed_append)

lemma row_logits_nonempty: "ids \<noteq> [] \<Longrightarrow> row_logits f ids st lg = row_logits f ids st lg'"
  by (simp add: row_logits_def)

text \<open>The position of every row after \<open>P\<close> columns and what its state and logits then are.\<close>

definition pos_at :: "token list list \<Rightarrow> nat \<Rightarrow> nat list" where
  "pos_at prompts P = map (\<lambda>ids. min (length ids) P) prompts"

definition states_at :: "(token \<Rightarrow> 'st \<Rightarrow> 'st \<times> 'lg) \<Rightarrow> token list list \<Rightarrow> 'st list \<Rightarrow> nat \<Rightarrow> 'st list" where
  "states_at f prompts states P = map2 (\<lambda>ids st. feed f (take P ids) st) prompts states"

definition logits_at ::
    "(token \<Rightarrow> 'st \<Rightarrow> 'st \<times> 'lg) \<Rightarrow> token list list \<Rightarrow> 'st list \<Rightarrow> 'lg list \<Rightarrow> nat \<Rightarrow> 'lg list" where
  "logits_at f prompts states logits P =
     map (\<lambda>i. row_logits f (take P (prompts ! i)) (states ! i) (logits ! i)) [0..<length prompts]"

abbreviation longest_sorted :: "token list list \<Rightarrow> bool" where
  "longest_sorted prompts \<equiv> sorted_wrt (\<lambda>xs ys. length ys \<le> length xs) prompts"

lemma active_count_pos_at:
  "longest_sorted prompts \<Longrightarrow>
     active_count prompts (pos_at prompts P) = length (filter (\<lambda>ids. P < length ids) prompts) \<and>
     (\<forall>i < length prompts. i < active_count prompts (pos_at prompts P) \<longleftrightarrow> P < length (prompts ! i))"
proof (induction prompts)
  case (Cons ids prompts)
  show ?case
  proof (cases "P < length ids")
    case True
    then show ?thesis using Cons by (auto simp: pos_at_def nth_Cons' All_less_Suc2)
  next
    case False
    then have "\<forall>xs \<in> set prompts. \<not> P < length xs" using Cons.prems by fastforce
    then show ?thesis using False by (auto simp: pos_at_def All_less_Suc2)
  qed
qed (simp add: pos_at_def)

lemma fold_min_le: "fold min xs (y :: nat) \<le> y \<and> (\<forall>x \<in> set xs. fold min xs y \<le> x)"
proof (induction xs arbitrary: y)
  case (Cons a xs)
  then show ?case using Cons.IH [of "min a y"] by auto
qed simp

lemma fold_min_in: "fold min xs (y :: nat) \<in> insert y (set xs)"
proof (induction xs arbitrary: y)
  case (Cons a xs)
  then show ?case using Cons.IH [of "min a y"] by (auto simp: min_def split: if_splits)
qed simp

lemma chunk_step_bounds:
  fixes P :: nat
  assumes "longest_sorted prompts" "0 < chunk"
  defines "a \<equiv> active_count prompts (pos_at prompts P)"
  defines "step \<equiv> chunk_step chunk prompts (pos_at prompts P) a"
  assumes "a \<noteq> 0"
  shows "0 < step" "step \<le> chunk" "i < a \<Longrightarrow> P + step \<le> length (prompts ! i)"
proof -
  have le: "a \<le> length prompts" using active_count_le a_def by simp
  have act: "i < a \<longleftrightarrow> P < length (prompts ! i)" if "i < length prompts" for i
    using active_count_pos_at [OF assms(1), of P] that unfolding a_def by blast
  have pos: "pos_at prompts P ! i = P" if "i < a" for i
    using that le act [of i] by (simp add: pos_at_def)
  let ?xs = "map (\<lambda>i. length (prompts ! i) - pos_at prompts P ! i) [1..<a]"
  let ?y = "length (prompts ! 0) - pos_at prompts P ! 0"
  have step: "step = min (fold min ?xs ?y) chunk" by (simp add: step_def chunk_step_def)
  then show "step \<le> chunk" by simp
  have "fold min ?xs ?y \<in> insert ?y (set ?xs)" by (rule fold_min_in)
  then obtain j where "j < a" "fold min ?xs ?y = length (prompts ! j) - P"
    using assms(5) pos by auto
  then show "0 < step" using step assms(2) act [of j] le by simp
  assume i: "i < a"
  have "length (prompts ! i) - P \<in> insert ?y (set ?xs)"
  proof (cases "i = 0")
    case True
    then show ?thesis using pos [of 0] i by simp
  next
    case False
    then show ?thesis using pos [OF i] i by (auto intro!: rev_image_eqI [of i])
  qed
  then have "fold min ?xs ?y \<le> length (prompts ! i) - P" using fold_min_le [of ?xs ?y] by auto
  then show "P + step \<le> length (prompts ! i)" using step act [of i] i le by simp
qed

lemma length_at [simp]:
  "length (pos_at prompts P) = length prompts"
  "length states = length prompts \<Longrightarrow> length (states_at f prompts states P) = length prompts"
  "length (logits_at f prompts states logits P) = length prompts"
  by (simp_all add: pos_at_def states_at_def logits_at_def)

lemma take_chunk:
  assumes "P + step \<le> length ids"
  shows "take (P + step) ids = take P ids @ subrange ids P (P + step)"
proof -
  have "take (P + step) ids = take P ids @ take step (drop P ids)" by (rule take_add)
  then show ?thesis by (simp add: subrange_def)
qed

text \<open>One turn of the loop, for the rows that are active.\<close>

lemma forward_chunks:
  fixes P :: nat and f :: "token \<Rightarrow> 'st \<Rightarrow> 'st \<times> 'lg"
  assumes "rowwise fwd f" "longest_sorted prompts" "0 < chunk" "length states = length prompts"
  defines "a \<equiv> active_count prompts (pos_at prompts P)"
  defines "step \<equiv> chunk_step chunk prompts (pos_at prompts P) a"
  assumes "a \<noteq> 0"
  shows "fwd (map (\<lambda>i. subrange (prompts ! i) (pos_at prompts P ! i) (pos_at prompts P ! i + step)) [0..<a])
      (take a (states_at f prompts states P)) =
    Some (take a (states_at f prompts states (P + step)), take a (logits_at f prompts states logits (P + step)))"
    and "map (\<lambda>i. if i < a then pos_at prompts P ! i + step else pos_at prompts P ! i) [0..<length prompts] =
      pos_at prompts (P + step)"
    and "drop a (states_at f prompts states (P + step)) = drop a (states_at f prompts states P)"
    and "drop a (logits_at f prompts states logits (P + step)) = drop a (logits_at f prompts states logits P)"
proof -
  note bounds = chunk_step_bounds [OF assms(2,3), of P, folded a_def, folded step_def, OF assms(7)]
  have le: "a \<le> length prompts" using active_count_le a_def by simp
  have act: "i < a \<longleftrightarrow> P < length (prompts ! i)" if "i < length prompts" for i
    using active_count_pos_at [OF assms(2), of P] that unfolding a_def by blast
  have pos: "pos_at prompts P ! i = P" if "i < a" for i
    using that le act [of i] by (simp add: pos_at_def)
  let ?tss = "map (\<lambda>i. subrange (prompts ! i) (pos_at prompts P ! i) (pos_at prompts P ! i + step)) [0..<a]"
  let ?sts = "take a (states_at f prompts states P)"
  have ne: "[] \<notin> set ?tss"
  proof
    assume "[] \<in> set ?tss"
    then obtain i where i: "i < a" "subrange (prompts ! i) P (P + step) = []" using pos by auto
    have "length (subrange (prompts ! i) P (P + step)) = step"
      using bounds(3) [OF i(1)] by (simp add: length_subrange)
    then show False using i(2) bounds(1) by simp
  qed
  have row: "take (P + step) (prompts ! i) = take P (prompts ! i) @ subrange (prompts ! i) P (P + step)" if "i < a" for i
    by (rule take_chunk [OF bounds(3) [OF that]])
  have st: "map2 (feed f) ?tss ?sts = take a (states_at f prompts states (P + step))"
    using le assms(4) pos row by (intro nth_equalityI) (auto simp: states_at_def feed_append)
  have "map2 (\<lambda>ts st. row_logits f ts st undefined) ?tss ?sts ! i = logits_at f prompts states logits (P + step) ! i"
    if i: "i < a" for i
  proof -
    have "subrange (prompts ! i) P (P + step) \<noteq> []" using ne i pos by force
    then show ?thesis
      using le assms(4) pos [OF i] row [OF i] i
      by (simp add: states_at_def logits_at_def row_logits_append)
        (metis row_logits_nonempty)
  qed
  then have lg: "map2 (\<lambda>ts st. row_logits f ts st undefined) ?tss ?sts = take a (logits_at f prompts states logits (P + step))"
    using le assms(4) by (intro nth_equalityI) auto
  show "fwd ?tss ?sts = Some (take a (states_at f prompts states (P + step)), take a (logits_at f prompts states logits (P + step)))"
    using assms(1) ne le assms(4) unfolding rowwise_def st [symmetric] lg [symmetric] by simp
  show "map (\<lambda>i. if i < a then pos_at prompts P ! i + step else pos_at prompts P ! i) [0..<length prompts] =
      pos_at prompts (P + step)"
    using le act bounds(3) pos by (intro nth_equalityI) (auto simp: pos_at_def)
  have same: "take (P + step) (prompts ! i) = take P (prompts ! i)" if "a \<le> i" "i < length prompts" for i
    using act [of i] that by simp
  show "drop a (states_at f prompts states (P + step)) = drop a (states_at f prompts states P)"
    using le assms(4) same by (intro nth_equalityI) (auto simp: states_at_def)
  show "drop a (logits_at f prompts states logits (P + step)) = drop a (logits_at f prompts states logits P)"
    using le same by (intro nth_equalityI) (auto simp: logits_at_def)
qed

lemma states_at_full:
  "\<forall>ids \<in> set prompts. length ids \<le> P \<Longrightarrow> length states = length prompts \<Longrightarrow>
     states_at f prompts states P = map2 (feed f) prompts states"
  by (intro nth_equalityI) (auto simp: states_at_def)

lemma logits_at_full:
  "\<forall>ids \<in> set prompts. length ids \<le> P \<Longrightarrow>
     logits_at f prompts states logits P =
       map (\<lambda>i. row_logits f (prompts ! i) (states ! i) (logits ! i)) [0..<length prompts]"
  by (auto simp: logits_at_def)

lemma prefill_loop_step:
  assumes "active_count prompts pos = a" "a \<noteq> 0" "chunk_step chunk prompts pos a = step" "step \<noteq> 0"
    and "map (\<lambda>i. if i < a then pos ! i + step else pos ! i) [0..<length pos] = pos'"
    and "fwd (map (\<lambda>i. subrange (prompts ! i) (pos ! i) (pos ! i + step)) [0..<a]) (take a states) = Some (sts, lgs)"
    and "length states = length prompts" "a = length prompts \<or> initialized"
    and "\<forall>i < a. pos ! i + step \<le> length (prompts ! i)"
  shows "prefill_loop fwd chunk prompts pos initialized states logits =
    (if a = length prompts then prefill_loop fwd chunk prompts pos' True sts lgs
     else prefill_loop fwd chunk prompts pos' initialized (take a sts @ drop a states) (take a lgs @ drop a logits))"
  using assms by (subst prefill_loop.simps) (auto simp: Let_def list_all_iff)

lemma prefill_loop_correct:
  assumes "rowwise fwd f" "longest_sorted prompts" "0 < chunk" "length states = length prompts"
  shows "initialized \<and> lgs = logits_at f prompts states logits P \<or>
      prompts \<noteq> [] \<and> (\<forall>ids \<in> set prompts. P < length ids) \<Longrightarrow>
    prefill_loop fwd chunk prompts (pos_at prompts P) initialized (states_at f prompts states P) lgs =
      Some (Inr (map2 (feed f) prompts states,
        map (\<lambda>i. row_logits f (prompts ! i) (states ! i) (logits ! i)) [0..<length prompts]))"
proof (induction "tokens_left prompts (pos_at prompts P)" arbitrary: P initialized lgs rule: less_induct)
  case less
  define a where "a = active_count prompts (pos_at prompts P)"
  have act: "i < a \<longleftrightarrow> P < length (prompts ! i)" if "i < length prompts" for i
    using active_count_pos_at [OF assms(2), of P] that unfolding a_def by blast
  have le: "a \<le> length prompts" using active_count_le a_def by simp
  show ?case
  proof (cases "a = 0")
    case True
    then have full: "\<forall>ids \<in> set prompts. length ids \<le> P" using act by (auto simp: in_set_conv_nth not_less)
    then have "initialized \<and> lgs = logits_at f prompts states logits P"
      using less.prems by (cases prompts) auto
    then show ?thesis
      using True a_def states_at_full [OF full assms(4), of f] logits_at_full [OF full, of f states logits]
      by (subst prefill_loop.simps) simp
  next
    case False
    define step where "step = chunk_step chunk prompts (pos_at prompts P) a"
    have step: "0 < step" using chunk_step_bounds(1) [OF assms(2,3), of P] False by (simp add: step_def a_def)
    have inside: "\<forall>i < a. pos_at prompts P ! i + step \<le> length (prompts ! i)"
    proof (intro allI impI)
      fix i assume i: "i < a"
      have "P + step \<le> length (prompts ! i)"
        using chunk_step_bounds(3) [OF assms(2,3), of P i] False i by (simp add: step_def a_def)
      then show "pos_at prompts P ! i + step \<le> length (prompts ! i)"
        using i le by (simp add: pos_at_def)
    qed
    note fc = forward_chunks [OF assms, of P, folded a_def, folded step_def, OF False]
    have smaller: "tokens_left prompts (pos_at prompts (P + step)) < tokens_left prompts (pos_at prompts P)"
      using tokens_left_step [of prompts "pos_at prompts P" step] False step fc(2) by (simp add: a_def)
    note IH = less.hyps [OF smaller]
    have rest: "take a (states_at f prompts states (P + step)) @ drop a (states_at f prompts states P) =
        states_at f prompts states (P + step)"
      "take a (logits_at f prompts states logits (P + step)) @ drop a (logits_at f prompts states logits P) =
        logits_at f prompts states logits (P + step)"
      unfolding fc(3) [symmetric] fc(4) [symmetric] by simp_all
    have init: "a = length prompts \<or> initialized \<and> lgs = logits_at f prompts states logits P"
    proof (cases "a = length prompts")
      case False
      then have "\<not> P < length (prompts ! a)" "a < length prompts" using act [of a] le by auto
      then show ?thesis using less.prems nth_mem by metis
    qed simp
    have "prefill_loop fwd chunk prompts (pos_at prompts P) initialized (states_at f prompts states P) lgs =
        prefill_loop fwd chunk prompts (pos_at prompts (P + step)) True
          (states_at f prompts states (P + step)) (logits_at f prompts states logits (P + step))"
    proof (subst prefill_loop_step [where a = a and step = step and pos' = "pos_at prompts (P + step)"
          and states = "states_at f prompts states P" and sts = "take a (states_at f prompts states (P + step))"
          and lgs = "take a (logits_at f prompts states logits (P + step))"])
    qed (use fc(1) [where logits = logits] fc(2) step init assms(4) rest False inside in
        \<open>auto simp: a_def [symmetric] step_def [symmetric]\<close>)
    then show ?thesis using IH [of True "logits_at f prompts states logits (P + step)"] by simp
  qed
qed

lemma prefill_batch_chunked_correct:
  assumes "rowwise fwd f" "longest_sorted prompts" "0 < chunk" "length states = length prompts" "prompts \<noteq> []"
    and "[] \<notin> set prompts \<or> length logits = length prompts"
  shows "prefill_batch_chunked fwd chunk prompts states logits =
    Some (Inr (map2 (feed f) prompts states,
      map (\<lambda>i. row_logits f (prompts ! i) (states ! i) (logits ! i)) [0..<length prompts]))"
proof -
  have 0: "pos_at prompts 0 = replicate (length prompts) 0" "states_at f prompts states 0 = states"
    using assms(4) by (auto simp: pos_at_def states_at_def map_replicate_const intro: nth_equalityI)
  have 1: "logits_at f prompts states logits 0 = logits" if "length logits = length prompts"
    using that by (auto simp: logits_at_def row_logits_def intro: nth_equalityI)
  have "length logits = length prompts \<and> logits = logits_at f prompts states logits 0 \<or>
      prompts \<noteq> [] \<and> (\<forall>ids \<in> set prompts. 0 < length ids)"
    using assms(5,6) 1 by auto
  from prefill_loop_correct [OF assms(1-4) this] show ?thesis
    using assms(4,5) by (simp add: prefill_batch_chunked_def 0)
qed

section \<open>Ordering\<close>

lemma longest_first_perm: "distinct (longest_first ls) \<and> set (longest_first ls) = {0..<length ls}"
  by (simp add: longest_first_def)

lemma longest_first_sorted: "sorted_wrt (\<lambda>i j. ls ! j \<le> ls ! i) (longest_first ls)"
proof -
  have "sorted (map (\<lambda>i. - int (ls ! i)) (longest_first ls))"
    unfolding longest_first_def by (rule sorted_sort_key)
  then show ?thesis by (simp add: sorted_wrt_map)
qed

lemma longest_first_map:
  "longest_sorted (map (\<lambda>i. xs ! i) (longest_first (map length xs)))"
proof -
  have "sorted_wrt (\<lambda>i j. length (xs ! j) \<le> length (xs ! i)) (longest_first (map length xs))"
    using longest_first_sorted [of "map length xs"] longest_first_perm [of "map length xs"]
    by (auto elim!: sorted_wrt_mono_rel [rotated])
  then show ?thesis by (simp add: sorted_wrt_map)
qed

lemma encode_all_Inr: "encode_all encode ps = Inr ids \<Longrightarrow> ids = map encode ps \<and> [] \<notin> set ids"
proof (induction ps arbitrary: ids)
  case (Cons p ps)
  then show ?case by (cases "encode_all encode ps") (auto split: if_splits)
qed simp

section \<open>The prompt cache\<close>

text \<open>
  A snapshot of one row on the host (\<open>HostPromptState\<close> with its logits) and what the request's
  \<open>GenerationState\<close> says about itself beside its rows.
\<close>

record ('st, 'a) snapshot =
  sn_state :: 'st
  sn_logits :: "'a list"
  sn_wkv32 :: bool

record request_state =
  rs_advanced :: bool
  rs_initial_identity :: string
  rs_adapter_identity :: string
  rs_wkv32 :: bool

text \<open>Length-prefixed fields.\<close>

definition prompt_identity :: "string list \<Rightarrow> string" where
  "prompt_identity parts = concat (map (\<lambda>part. dec_string (length part) @ '':'' @ part) parts)"

definition identity_parts :: "string \<Rightarrow> string \<Rightarrow> request_state \<Rightarrow> string list" where
  "identity_parts state_id adapter_id rs =
     [state_id, adapter_id, rs_initial_identity rs, rs_adapter_identity rs,
      if rs_wkv32 rs then ''fp32'' else ''fp16'']"

text \<open>The first loop: look every prompt up. The mutex is taken per prompt.\<close>

fun lookup_prompts ::
    "string \<Rightarrow> token list list \<Rightarrow> ('st, 'a) snapshot prefix_cache \<Rightarrow>
     ((('st, 'a) snapshot \<times> nat) option list \<times> ('st, 'a) snapshot prefix_cache) option" where
  "lookup_prompts identity [] c = Some ([], c)"
| "lookup_prompts identity (ids # prompts) c =
     (case pc_find c identity ids of None \<Rightarrow> None
      | Some (hit, c') \<Rightarrow>
          map_option (\<lambda>(hits, c''). (hit # hits, c'')) (lookup_prompts identity prompts c'))"

definition hit_length :: "('v \<times> nat) option \<Rightarrow> nat" where
  "hit_length hit = (case hit of None \<Rightarrow> 0 | Some (_, k) \<Rightarrow> k)"

text \<open>The second loop: the rows of the batch, in their new order, receive their snapshots.\<close>

fun place_rows ::
    "nat \<Rightarrow> bool \<Rightarrow> token list list \<Rightarrow> (('st, 'a) snapshot \<times> nat) option list \<Rightarrow> nat list \<Rightarrow> nat \<Rightarrow>
     'st list \<Rightarrow> 'a list list \<Rightarrow> prefill_error + 'st list \<times> 'a list list" where
  "place_rows vocab wkv32 prompts hits [] row states logits = Inr (states, logits)"
| "place_rows vocab wkv32 prompts hits (i # order) row states logits =
     (case hits ! i of
        None \<Rightarrow> place_rows vocab wkv32 prompts hits order (Suc row) states logits
      | Some (sn, offset) \<Rightarrow>
          if sn_wkv32 sn \<noteq> wkv32 then Inl SnapshotMismatch
          else if \<not> row < length states then Inl BackendThrows
          else if offset = length (prompts ! i) then
            if length (sn_logits sn) \<noteq> vocab then Inl SnapshotMismatch
            else place_rows vocab wkv32 prompts hits order (Suc row)
                   (states[row := sn_state sn]) (logits[row := sn_logits sn])
          else place_rows vocab wkv32 prompts hits order (Suc row) (states[row := sn_state sn]) logits)"

text \<open>The last loop: snapshot every row whose whole prompt is not cached yet.\<close>

fun store_rows ::
    "string \<Rightarrow> bool \<Rightarrow> (token list \<times> 'st \<times> 'a list) list \<Rightarrow> ('st, 'a) snapshot prefix_cache \<Rightarrow>
     ('st, 'a) snapshot prefix_cache option" where
  "store_rows identity wkv32 [] c = Some c"
| "store_rows identity wkv32 ((ids, st, lg) # rows) c =
     (case pc_find c identity ids of None \<Rightarrow> None
      | Some (hit, c') \<Rightarrow>
          if hit_length hit = length ids then store_rows identity wkv32 rows c'
          else
            (case pc_put c' identity ids \<lparr>sn_state = st, sn_logits = lg, sn_wkv32 = wkv32\<rparr> of
               None \<Rightarrow> None
             | Some c'' \<Rightarrow> store_rows identity wkv32 rows c''))"

record ('st, 'a) prefilled =
  pf_prompts :: "token list list"
  pf_original :: "nat list"
  pf_states :: "'st list"
  pf_logits :: "'a list list"
  pf_cached_tokens :: nat

text \<open>
  \<open>wkv32\<close> is the precision of the states the model creates and \<open>fresh\<close> what a row of the resized
  logits buffer holds before anything is written to it.
\<close>

definition prefill_cached ::
    "('st, 'a list) forward \<Rightarrow> nat \<Rightarrow> nat \<Rightarrow> bool \<Rightarrow> 'a list \<Rightarrow> string \<Rightarrow> string \<Rightarrow> request_state \<Rightarrow>
     token list list \<Rightarrow> nat list \<Rightarrow> 'st list \<Rightarrow> ('st, 'a) snapshot prefix_cache \<Rightarrow>
     ((prefill_error + ('st, 'a) prefilled) \<times> ('st, 'a) snapshot prefix_cache) option" where
  "prefill_cached fwd chunk vocab wkv32 fresh state_id adapter_id rs prompts original states c =
     (if rs_advanced rs then Some (Inl AdvancedState, c)
      else if length original < length prompts then None
      else
        let identity = prompt_identity (identity_parts state_id adapter_id rs) in
        (case lookup_prompts identity prompts c of None \<Rightarrow> None
         | Some (hits, c') \<Rightarrow>
             let offsets = map hit_length hits;
                 order = longest_first (map2 (\<lambda>ids offset. length ids - offset) prompts offsets)
             in
             (case place_rows vocab wkv32 prompts hits order 0 states (replicate (length prompts) fresh) of
                Inl e \<Rightarrow> Some (Inl e, c')
              | Inr (placed, cached_logits) \<Rightarrow>
                  let remaining = map (\<lambda>i. drop (offsets ! i) (prompts ! i)) order;
                      reordered = map (\<lambda>i. prompts ! i) order
                  in
                  (case prefill_batch_chunked fwd chunk remaining placed cached_logits of
                     None \<Rightarrow> None
                   | Some (Inl e) \<Rightarrow> Some (Inl e, c')
                   | Some (Inr (states', logits')) \<Rightarrow>
                       map_option
                         (Pair (Inr \<lparr>pf_prompts = reordered, pf_original = map (\<lambda>i. original ! i) order,
                                     pf_states = states', pf_logits = logits',
                                     pf_cached_tokens = sum_list offsets\<rparr>))
                         (store_rows identity wkv32 (zip reordered (zip states' logits')) c')))))"

section \<open>Identities are unambiguous\<close>

lemma dec_string_colon: "CHR '':'' \<notin> set (dec_string n)"
  using dec_string_digits [of "CHR '':''" n] by auto

lemma field_inj:
  assumes "dec_string (length p) @ '':'' @ p @ s = dec_string (length q) @ '':'' @ q @ t"
  shows "p = q \<and> s = t"
proof -
  have "takeWhile (\<lambda>c. c \<noteq> CHR '':'') (dec_string (length p) @ '':'' @ p @ s) = dec_string (length p)" for p s :: string
    using dec_string_colon [of "length p"] by (subst takeWhile_append2) auto
  with assms have "dec_string (length p) = dec_string (length q)" by metis
  then have "length p = length q" by simp
  with assms show ?thesis by simp
qed

lemma prompt_identity_inj: "prompt_identity ps = prompt_identity qs \<Longrightarrow> ps = qs"
proof (induction ps arbitrary: qs)
  case Nil
  then show ?case by (cases qs) (auto simp: prompt_identity_def)
next
  case (Cons p ps)
  then obtain q qs' where q: "qs = q # qs'" by (cases qs) (auto simp: prompt_identity_def)
  have "p = q \<and> prompt_identity ps = prompt_identity qs'"
    using Cons.prems unfolding q prompt_identity_def by (intro field_inj) simp
  then show ?case using Cons.IH q by simp
qed

text \<open>
  Two requests share prompt-cache entries only if they agree on the state id, the adapter id,
  the identity of the initial state, the adapter identity and the precision.
\<close>

theorem prompt_identity_unambiguous:
  "prompt_identity (identity_parts state_id adapter_id rs) =
     prompt_identity (identity_parts state_id' adapter_id' rs') \<longleftrightarrow>
   state_id = state_id' \<and> adapter_id = adapter_id' \<and>
   rs_initial_identity rs = rs_initial_identity rs' \<and>
   rs_adapter_identity rs = rs_adapter_identity rs' \<and> rs_wkv32 rs = rs_wkv32 rs'"
  (is "?l \<longleftrightarrow> ?r")
proof
  assume ?l
  from prompt_identity_inj [OF this] show ?r by (auto simp: identity_parts_def split: if_splits)
qed (simp add: identity_parts_def)

section \<open>The prompt cache is transparent\<close>

text \<open>
  A cache is coherent when every snapshot is what feeding its tokens to the initial row state of
  its identity gives. \<open>st0\<close> maps an identity to that state.
\<close>

definition snapshot_ok ::
    "(token \<Rightarrow> 'st \<Rightarrow> 'st \<times> 'a list) \<Rightarrow> nat \<Rightarrow> bool \<Rightarrow> 'st \<Rightarrow> token list \<Rightarrow> ('st, 'a) snapshot \<Rightarrow> bool" where
  "snapshot_ok f vocab wkv32 st ids sn \<longleftrightarrow>
     sn_state sn = feed f ids st \<and> sn_logits sn = row_logits f ids st [] \<and>
     length (sn_logits sn) = vocab \<and> sn_wkv32 sn = wkv32"

definition coherent ::
    "(token \<Rightarrow> 'st \<Rightarrow> 'st \<times> 'a list) \<Rightarrow> nat \<Rightarrow> bool \<Rightarrow> (string \<Rightarrow> 'st) \<Rightarrow> ('st, 'a) snapshot prefix_cache \<Rightarrow> bool" where
  "coherent f vocab wkv32 st0 c \<longleftrightarrow>
     pc_inv c \<and> (\<forall>(identity, ids, sn) \<in> set (pc_abs c). snapshot_ok f vocab wkv32 (st0 identity) ids sn)"

lemma lru_get_in: "lru_get xs k = Some v \<Longrightarrow> (fst k, snd k, v) \<in> set xs"
  by (auto simp: lru_get_def lru_key_def dest!: find_SomeD)

lemma pc_find_coherent:
  assumes "coherent f vocab wkv32 st0 c"
  shows "\<exists>hit c'. pc_find c identity ids = Some (hit, c') \<and> coherent f vocab wkv32 st0 c' \<and>
    (\<forall>sn k. hit = Some (sn, k) \<longrightarrow> 1 \<le> k \<and> k \<le> length ids \<and>
      snapshot_ok f vocab wkv32 (st0 identity) (take k ids) sn)"
proof -
  have inv: "pc_inv c" using assms by (simp add: coherent_def)
  obtain c' where c': "pc_step (OpFind identity ids) c = Some (Match (fst (lru_find identity ids (pc_abs c))), c')"
    "pc_inv c'" "pc_abs c' = snd (lru_find identity ids (pc_abs c))"
    using pc.step_refines [OF inv, of "OpFind identity ids"] by (auto simp: map_prod_def split_beta)
  then have f: "pc_find c identity ids = Some (fst (lru_find identity ids (pc_abs c)), c')"
    by (auto simp: map_prod_def)
  show ?thesis
  proof (cases "lru_longest identity ids (pc_abs c)")
    case None
    then show ?thesis using f c' assms by (auto simp: lru_find_def coherent_def)
  next
    case (Some k)
    then obtain sn where k: "1 \<le> k" "k \<le> length ids" "lru_get (pc_abs c) (identity, take k ids) = Some sn"
      using lru_longest_Some by blast
    have ok: "snapshot_ok f vocab wkv32 (st0 identity) (take k ids) sn"
      using lru_get_in [OF k(3)] assms by (auto simp: coherent_def)
    have "coherent f vocab wkv32 st0 c'"
      using assms c'(2) ok unfolding coherent_def c'(3) by (auto simp: lru_find_def Some k(3) lru_drop_def)
    then show ?thesis using f ok k by (simp add: lru_find_def Some)
  qed
qed

lemma pc_put_coherent:
  assumes "coherent f vocab wkv32 st0 c" "snapshot_ok f vocab wkv32 (st0 identity) ids sn"
  shows "\<exists>c'. pc_put c identity ids sn = Some c' \<and> coherent f vocab wkv32 st0 c'"
proof -
  have inv: "pc_inv c" using assms by (simp add: coherent_def)
  obtain c' where c': "pc_step (OpPut identity ids sn) c = Some (Done, c')" "pc_inv c'"
    "pc_abs c' = lru_put (pc_capacity c) identity ids sn (pc_abs c)"
    using pc.step_refines [OF inv, of "OpPut identity ids sn"] by auto
  have "set (pc_abs c') \<subseteq> insert (identity, ids, sn) (set (pc_abs c))"
    unfolding c'(3) lru_put_def by (auto simp: lru_drop_def dest!: in_set_takeD)
  then have "coherent f vocab wkv32 st0 c'" using assms c'(2) by (auto simp: coherent_def)
  then show ?thesis using c'(1) by auto
qed

lemma lookup_prompts_coherent:
  "coherent f vocab wkv32 st0 c \<Longrightarrow>
     \<exists>hits c'. lookup_prompts identity prompts c = Some (hits, c') \<and> coherent f vocab wkv32 st0 c' \<and>
       length hits = length prompts \<and>
       (\<forall>i < length prompts. \<forall>sn k. hits ! i = Some (sn, k) \<longrightarrow> 1 \<le> k \<and> k \<le> length (prompts ! i) \<and>
          snapshot_ok f vocab wkv32 (st0 identity) (take k (prompts ! i)) sn)"
proof (induction prompts arbitrary: c)
  case (Cons ids prompts)
  obtain hit c' where f: "pc_find c identity ids = Some (hit, c')" "coherent f vocab wkv32 st0 c'"
    "\<forall>sn k. hit = Some (sn, k) \<longrightarrow> 1 \<le> k \<and> k \<le> length ids \<and>
       snapshot_ok f vocab wkv32 (st0 identity) (take k ids) sn"
    using pc_find_coherent [OF Cons.prems] by blast
  obtain hits c'' where l: "lookup_prompts identity prompts c' = Some (hits, c'')"
    "coherent f vocab wkv32 st0 c''" "length hits = length prompts"
    "\<forall>i < length prompts. \<forall>sn k. hits ! i = Some (sn, k) \<longrightarrow> 1 \<le> k \<and> k \<le> length (prompts ! i) \<and>
       snapshot_ok f vocab wkv32 (st0 identity) (take k (prompts ! i)) sn"
    using Cons.IH [OF f(2)] by blast
  show ?case
    using f l by (intro exI [of _ "hit # hits"] exI [of _ c'']) (auto simp: nth_Cons split: nat.split)
qed simp

text \<open>What the placement leaves in the row that takes over a prompt.\<close>

definition placed ::
    "(token \<Rightarrow> 'st \<Rightarrow> 'st \<times> 'a list) \<Rightarrow> 'st \<Rightarrow> token list \<Rightarrow> ('v \<times> nat) option \<Rightarrow> 'st \<Rightarrow> 'a list \<Rightarrow> bool" where
  "placed f st ids hit s lg \<longleftrightarrow>
     s = feed f (take (hit_length hit) ids) st \<and>
     (hit_length hit = length ids \<and> ids \<noteq> [] \<longrightarrow> lg = row_logits f ids st [])"

lemma all_less_length_Cons:
  "(\<forall>j < length (x # xs). Q j) \<longleftrightarrow> Q 0 \<and> (\<forall>j < length xs. Q (Suc j))"
  by (auto simp: less_Suc_eq_0_disj)

lemma take_Suc_same:
  "take (Suc n) ys = take (Suc n) xs \<Longrightarrow> ys ! n = xs ! n \<and> take n ys = take n xs"
  by (metis lessI nth_take take_take min.absorb1 less_imp_le_nat)

lemma place_rows_result:
  assumes "\<And>i sn k. i \<in> set order \<Longrightarrow> hits ! i = Some (sn, k) \<Longrightarrow>
      snapshot_ok f vocab wkv32 st (take k (prompts ! i)) sn"
    and "row + length order = length states" "length logits = length states"
    and "\<forall>r. row \<le> r \<and> r < length states \<longrightarrow> states ! r = st"
  shows "\<exists>states' logits'. place_rows vocab wkv32 prompts hits order row states logits = Inr (states', logits') \<and>
    length states' = length states \<and> length logits' = length states \<and>
    take row states' = take row states \<and> take row logits' = take row logits \<and>
    (\<forall>j < length order. placed f st (prompts ! (order ! j)) (hits ! (order ! j)) (states' ! (row + j)) (logits' ! (row + j)))"
  using assms
proof (induction order arbitrary: row states logits)
  case (Cons i order)
  have row: "row < length states" using Cons.prems(2) by simp
  define st' where "st' = (case hits ! i of None \<Rightarrow> states | Some (sn, k) \<Rightarrow> states[row := sn_state sn])"
  define lg' where "lg' = (case hits ! i of None \<Rightarrow> logits
    | Some (sn, k) \<Rightarrow> if k = length (prompts ! i) then logits[row := sn_logits sn] else logits)"
  have ok: "snapshot_ok f vocab wkv32 st (take k (prompts ! i)) sn" if "hits ! i = Some (sn, k)" for sn k
    using Cons.prems(1) [OF _ that] by simp
  have here: "placed f st (prompts ! i) (hits ! i) (st' ! row) (lg' ! row)"
    using ok row Cons.prems(3,4)
    by (auto simp: placed_def st'_def lg'_def hit_length_def snapshot_ok_def split: option.split)
  have eq: "place_rows vocab wkv32 prompts hits (i # order) row states logits =
      place_rows vocab wkv32 prompts hits order (Suc row) st' lg'"
    using ok row by (auto simp: st'_def lg'_def snapshot_ok_def split: option.split)
  have "\<forall>r. Suc row \<le> r \<and> r < length st' \<longrightarrow> st' ! r = st" "Suc row + length order = length st'"
    "length lg' = length st'" and same: "length st' = length states" "take row st' = take row states" "take row lg' = take row logits"
    using Cons.prems(2-4) by (auto simp: st'_def lg'_def split: option.split)
  then obtain states' logits' where r: "place_rows vocab wkv32 prompts hits order (Suc row) st' lg' = Inr (states', logits')"
    "length states' = length st'" "length logits' = length st'"
    "take (Suc row) states' = take (Suc row) st'" "take (Suc row) logits' = take (Suc row) lg'"
    "\<forall>j < length order. placed f st (prompts ! (order ! j)) (hits ! (order ! j)) (states' ! (Suc row + j)) (logits' ! (Suc row + j))"
    using Cons.IH [of "Suc row" st' lg'] Cons.prems(1) by (metis list.set_intros(2))
  show ?case
    unfolding eq all_less_length_Cons
    using r here take_Suc_same [OF r(4)] take_Suc_same [OF r(5)] same by simp
qed auto

lemma store_rows_coherent:
  assumes "coherent f vocab wkv32 st0 c"
    and "\<forall>(ids, st, lg) \<in> set rows. st = feed f ids (st0 identity) \<and> lg = row_logits f ids (st0 identity) [] \<and> length lg = vocab"
  shows "\<exists>c'. store_rows identity wkv32 rows c = Some c' \<and> coherent f vocab wkv32 st0 c'"
  using assms
proof (induction rows arbitrary: c)
  case (Cons row rows)
  obtain ids st lg where row: "row = (ids, st, lg)" by (cases row) auto
  obtain hit c' where f: "pc_find c identity ids = Some (hit, c')" "coherent f vocab wkv32 st0 c'"
    using pc_find_coherent [OF Cons.prems(1)] by blast
  let ?sn = "\<lparr>sn_state = st, sn_logits = lg, sn_wkv32 = wkv32\<rparr>"
  have "snapshot_ok f vocab wkv32 (st0 identity) ids ?sn"
    using Cons.prems(2) row unfolding snapshot_ok_def by auto
  then obtain c'' where p: "pc_put c' identity ids ?sn = Some c''" "coherent f vocab wkv32 st0 c''"
    using pc_put_coherent [OF f(2)] by blast
  show ?case using Cons.IH [OF f(2)] Cons.IH [OF p(2)] Cons.prems(2) row f(1) p(1) by auto
qed simp

lemma row_logits_length:
  "\<forall>t st. length (snd (f t st)) = vocab \<Longrightarrow> ids \<noteq> [] \<Longrightarrow> length (row_logits f ids st lg) = vocab"
  by (simp add: row_logits_def)

text \<open>The forward pass over what the hits left, for any order of the rows.\<close>

lemma forward_rest:
  fixes f :: "token \<Rightarrow> 'st \<Rightarrow> 'st \<times> 'a list"
  assumes "rowwise fwd f" "0 < chunk" "order \<noteq> []" "[] \<notin> set prompts" "set order \<subseteq> {0..<length prompts}"
    and "longest_sorted (map (\<lambda>i. drop (hit_length (hits ! i)) (prompts ! i)) order)"
    and "length sts = length order" "length lgs = length order"
    and "\<forall>i < length prompts. hit_length (hits ! i) \<le> length (prompts ! i)"
    and "\<forall>j < length order. placed f st (prompts ! (order ! j)) (hits ! (order ! j)) (sts ! j) (lgs ! j)"
  shows "prefill_batch_chunked fwd chunk (map (\<lambda>i. drop (hit_length (hits ! i)) (prompts ! i)) order) sts lgs =
    Some (Inr (map (\<lambda>i. feed f (prompts ! i) st) order, map (\<lambda>i. row_logits f (prompts ! i) st []) order))"
proof -
  let ?rest = "map (\<lambda>i. drop (hit_length (hits ! i)) (prompts ! i)) order"
  have "map2 (feed f) ?rest sts = map (\<lambda>i. feed f (prompts ! i) st) order"
    using assms(7,10) by (intro nth_equalityI) (auto simp: placed_def feed_append [symmetric])
  moreover have "row_logits f (?rest ! j) (sts ! j) (lgs ! j) = row_logits f (prompts ! (order ! j)) st []"
    if j: "j < length order" for j
  proof -
    let ?i = "order ! j" let ?k = "hit_length (hits ! ?i)"
    have i: "?i < length prompts" using assms(5) j nth_mem by fastforce
    have ne: "prompts ! ?i \<noteq> []" using assms(4) i nth_mem by fastforce
    have p: "placed f st (prompts ! ?i) (hits ! ?i) (sts ! j) (lgs ! j)" using assms(10) j by simp
    have cat: "row_logits f (prompts ! ?i) st [] =
        row_logits f (drop ?k (prompts ! ?i)) (sts ! j) (row_logits f (take ?k (prompts ! ?i)) st [])"
      using conjunct1 [OF p [unfolded placed_def]]
        row_logits_append [of f "take ?k (prompts ! ?i)" "drop ?k (prompts ! ?i)" st "[]"]
      by (simp only: append_take_drop_id)
    show ?thesis
    proof (cases "?k = length (prompts ! ?i)")
      case True
      then show ?thesis using p ne j by (simp add: placed_def row_logits_def)
    next
      case False
      then have "drop ?k (prompts ! ?i) \<noteq> []" using assms(9) i by auto
      then have "row_logits f (drop ?k (prompts ! ?i)) (sts ! j) (lgs ! j) =
          row_logits f (drop ?k (prompts ! ?i)) (sts ! j) (row_logits f (take ?k (prompts ! ?i)) st [])"
        by (rule row_logits_nonempty)
      then show ?thesis using cat j by simp
    qed
  qed
  then have "map (\<lambda>j. row_logits f (?rest ! j) (sts ! j) (lgs ! j)) [0..<length ?rest] =
      map (\<lambda>i. row_logits f (prompts ! i) st []) order"
    by (intro nth_equalityI) auto
  ultimately show ?thesis
    using prefill_batch_chunked_correct [OF assms(1,6,2), of sts lgs] assms(3,7,8) by simp
qed

lemma prefill_cached_spec:
  fixes f :: "token \<Rightarrow> 'st \<Rightarrow> 'st \<times> 'a list"
  assumes "rowwise fwd f" "\<forall>t st. length (snd (f t st)) = vocab" "0 < chunk"
    and "coherent f vocab wkv32 st0 c" "prompts \<noteq> []" "[] \<notin> set prompts"
    and "length original = length prompts" "\<not> rs_advanced rs"
    and "st = st0 (prompt_identity (identity_parts state_id adapter_id rs))"
  shows "\<exists>pf c' order.
    prefill_cached fwd chunk vocab wkv32 fresh state_id adapter_id rs prompts original
      (replicate (length prompts) st) c = Some (Inr pf, c') \<and>
    coherent f vocab wkv32 st0 c' \<and> distinct order \<and> set order = {0..<length prompts} \<and>
    pf_prompts pf = map (\<lambda>i. prompts ! i) order \<and> pf_original pf = map (\<lambda>i. original ! i) order \<and>
    pf_states pf = map (\<lambda>i. feed f (prompts ! i) st) order \<and>
    pf_logits pf = map (\<lambda>i. row_logits f (prompts ! i) st []) order"
proof -
  define identity where "identity = prompt_identity (identity_parts state_id adapter_id rs)"
  have st: "st = st0 identity" using assms(9) by (simp add: identity_def)
  obtain hits c1 where l: "lookup_prompts identity prompts c = Some (hits, c1)"
    "coherent f vocab wkv32 st0 c1" "length hits = length prompts"
    "\<forall>i < length prompts. \<forall>sn k. hits ! i = Some (sn, k) \<longrightarrow> 1 \<le> k \<and> k \<le> length (prompts ! i) \<and>
       snapshot_ok f vocab wkv32 (st0 identity) (take k (prompts ! i)) sn"
    using lookup_prompts_coherent [OF assms(4)] by blast
  define rest where "rest = map (\<lambda>i. drop (hit_length (hits ! i)) (prompts ! i)) [0..<length prompts]"
  define order where "order = longest_first (map2 (\<lambda>ids offset. length ids - offset) prompts (map hit_length hits))"
  have lens: "map2 (\<lambda>ids offset. length ids - offset) prompts (map hit_length hits) = map length rest"
    using l(3) by (auto simp: rest_def intro!: nth_equalityI)
  have ord: "distinct order" "set order = {0..<length prompts}"
    using longest_first_perm [of "map length rest"] unfolding order_def lens by (simp_all add: rest_def)
  have map_rest: "map (\<lambda>i. rest ! i) order = map (\<lambda>i. drop (hit_length (hits ! i)) (prompts ! i)) order"
    using ord by (auto simp: rest_def)
  have sorted: "longest_sorted (map (\<lambda>i. drop (hit_length (hits ! i)) (prompts ! i)) order)"
  proof -
    have "longest_sorted (map (\<lambda>i. rest ! i) order)" unfolding order_def lens by (rule longest_first_map)
    then show ?thesis by (simp only: map_rest)
  qed
  have len: "length order = length prompts" using ord distinct_card by fastforce
  have "snapshot_ok f vocab wkv32 st (take k (prompts ! i)) sn"
    if "i \<in> set order" "hits ! i = Some (sn, k)" for i sn k
    using l(4) that ord st by auto
  then obtain sts lgs where p: "place_rows vocab wkv32 prompts hits order 0 (replicate (length prompts) st)
      (replicate (length prompts) fresh) = Inr (sts, lgs)" "length sts = length prompts" "length lgs = length prompts"
    "\<forall>j < length order. placed f st (prompts ! (order ! j)) (hits ! (order ! j)) (sts ! j) (lgs ! j)"
    using place_rows_result [of order hits f vocab wkv32 st prompts 0 "replicate (length prompts) st"
        "replicate (length prompts) fresh"] len by auto
  have "\<forall>i < length prompts. hit_length (hits ! i) \<le> length (prompts ! i)"
    using l(4) by (auto simp: hit_length_def split: option.split)
  then have b: "prefill_batch_chunked fwd chunk (map (\<lambda>i. drop (hit_length (hits ! i)) (prompts ! i)) order) sts lgs =
      Some (Inr (map (\<lambda>i. feed f (prompts ! i) st) order, map (\<lambda>i. row_logits f (prompts ! i) st []) order))"
    using p(2-4) len assms(5) ord(2)
    by (intro forward_rest [OF assms(1,3) _ assms(6) _ sorted]) auto
  let ?rows = "zip (map (\<lambda>i. prompts ! i) order)
     (zip (map (\<lambda>i. feed f (prompts ! i) st) order) (map (\<lambda>i. row_logits f (prompts ! i) st []) order))"
  have "length (row_logits f (prompts ! i) st []) = vocab" if "i \<in> set order" for i
    using that ord(2) assms(6) by (intro row_logits_length [OF assms(2)]) (metis atLeastLessThan_iff nth_mem)
  then have "\<forall>(ids, s, lg) \<in> set ?rows. s = feed f ids (st0 identity) \<and>
      lg = row_logits f ids (st0 identity) [] \<and> length lg = vocab"
    by (auto simp: st in_set_zip)
  then obtain c2 where s: "store_rows identity wkv32 ?rows c1 = Some c2" "coherent f vocab wkv32 st0 c2"
    using store_rows_coherent [OF l(2), of ?rows] by blast
  have off: "map (\<lambda>i. drop (map hit_length hits ! i) (prompts ! i)) order =
      map (\<lambda>i. drop (hit_length (hits ! i)) (prompts ! i)) order"
    using ord l(3) by auto
  show ?thesis
    using l(1) p(1) b s ord assms(7,8)
    by (simp add: prefill_cached_def identity_def [symmetric] order_def [symmetric] off Let_def)
      (blast intro: s(2))
qed


text \<open>A concrete row model for the examples: the state is the tokens seen, the logits their sum.\<close>

definition sum_row :: "token \<Rightarrow> token list \<Rightarrow> token list \<times> int list" where
  "sum_row t st = (st @ [t], [sum_list st + t])"

definition sum_forward :: "(token list, int list) forward" where
  "sum_forward tss sts =
     Some (map2 (feed sum_row) tss sts, map2 (\<lambda>ts st. row_logits sum_row ts st undefined) tss sts)"

lemma rowwise_sum: "rowwise sum_forward sum_row"
  by (simp add: rowwise_def sum_forward_def)

definition fresh_request :: request_state where
  "fresh_request = \<lparr>rs_advanced = False, rs_initial_identity = ''base'', rs_adapter_identity = '''', rs_wkv32 = True\<rparr>"


section \<open>Properties of encoding and chunked prefill\<close>

lemma encode_all_Inl: "encode_all encode ps = Inl e \<Longrightarrow> e = EmptyPrompt \<and> [] \<in> encode ` set ps"
proof (induction ps)
  case (Cons p ps)
  then show ?case by (cases "encode_all encode ps") (auto split: if_splits)
qed simp

lemma encode_prompts_sorted_Inr:
  assumes "encode_prompts_sorted encode ps = Inr (ids, order)"
  shows "distinct order" "set order = {0..<length ps}" "ids = map (\<lambda>i. encode (ps ! i)) order"
    "[] \<notin> set ids" "longest_sorted ids"
proof -
  obtain enc where enc: "encode_all encode ps = Inr enc" "order = longest_first (map length enc)"
    "ids = map (\<lambda>i. enc ! i) order"
    using assms by (auto simp: encode_prompts_sorted_def Let_def split: sum.splits)
  have e: "enc = map encode ps" "[] \<notin> set enc" using encode_all_Inr [OF enc(1)] by auto
  show "distinct order" "set order = {0..<length ps}"
    using longest_first_perm [of "map length enc"] enc(2) e(1) by simp_all
  then show "ids = map (\<lambda>i. encode (ps ! i)) order" using enc(3) e(1) by auto
  show "[] \<notin> set ids"
    using enc(3) e \<open>set order = _\<close> by (metis (no_types, lifting) atLeastLessThan_iff imageE length_map list.set_map nth_mem)
  show "longest_sorted ids" using enc(2,3) longest_first_map by simp
qed

lemma encode_prompts_sorted_empty:
  "[] \<in> encode ` set ps \<Longrightarrow> encode_prompts_sorted encode ps = Inl EmptyPrompt"
proof (induction ps)
  case (Cons p ps)
  then have "encode_all encode (p # ps) = Inl EmptyPrompt"
    using encode_all_Inr [of encode ps] encode_all_Inl [of encode ps]
    by (cases "encode_all encode ps") force+
  then show ?case by (simp add: encode_prompts_sorted_def)
qed simp

lemma encode_prompts_sorted_ok:
  assumes "[] \<notin> encode ` set ps"
  shows "\<exists>ids order. encode_prompts_sorted encode ps = Inr (ids, order)"
proof (cases "encode_all encode ps")
  case (Inl e)
  then show ?thesis using encode_all_Inl assms by blast
qed (simp add: encode_prompts_sorted_def Let_def)



text \<open>
  \<open>encode_prompts_sorted\<close> fails exactly when some prompt has no tokens; otherwise it returns
  a permutation of the row numbers with the encoded prompts in that order, from the longest to the
  shortest.
\<close>

theorem encode_prompts_sorted_spec:
  "if [] \<in> encode ` set ps then encode_prompts_sorted encode ps = Inl EmptyPrompt
   else \<exists>order. encode_prompts_sorted encode ps = Inr (map (\<lambda>i. encode (ps ! i)) order, order) \<and>
     distinct order \<and> set order = {0..<length ps} \<and>
     sorted_wrt (\<lambda>i j. length (encode (ps ! j)) \<le> length (encode (ps ! i))) order"
proof (cases "encode_prompts_sorted encode ps")
  case (Inl e)
  then have "encode_all encode ps = Inl e"
    by (auto simp: encode_prompts_sorted_def Let_def split: sum.splits)
  then show ?thesis using Inl encode_all_Inl by auto
next
  case (Inr r)
  obtain ids order where r: "encode_prompts_sorted encode ps = Inr (ids, order)" using Inr by (cases r) auto
  note enc = encode_prompts_sorted_Inr [OF r]
  have "encode (ps ! i) \<noteq> []" if "i < length ps" for i
    using enc(2-4) that by (auto simp: image_iff) (metis atLeastLessThan_iff zero_le)
  then have "[] \<notin> encode ` set ps" by (metis image_iff in_set_conv_nth)
  moreover have "sorted_wrt (\<lambda>i j. length (encode (ps ! j)) \<le> length (encode (ps ! i))) order"
    using enc(5) unfolding enc(3) by (simp add: sorted_wrt_map)
  ultimately show ?thesis using r enc by auto
qed

end
