(* ===== verification/Scheduler.thy ===== *)
theory Scheduler
  imports Utf8 StopMatcher
begin

text \<open>
  The continuous-batching scheduler (\<open>InferenceEngine::Scheduler\<close> in
  \<open>src/inference/rwkv_inference_engine.cpp\<close>): one owner thread that packs the rows of all
  requests into batches, samples and decodes one token per sweep for each of them, and moves
  rows in and out of the batches as they finish, are cancelled or exceed the event limit of
  their consumer. Requests and rows are shared objects, so the state keeps a heap of each; a
  batch state, a logits buffer and the sampler state are lists with one element per slot. The
  backend's decode pass, the sampling kernel and the tokenizer are the parameter \<open>engine\<close>.
\<close>

section \<open>Data\<close>

record 'o gen_options =
  go_max_tokens :: int
  go_stop_tokens :: "token list"
  go_stop :: "bytes list option"
  go_sampling :: 'o

record gen_stats =
  gs_generated :: nat
  gs_stopped :: bool
  gs_stop_token :: bool
  gs_reasons :: "string list"
  gs_matched :: "bytes list"

record event =
  ev_row :: nat
  ev_text :: bytes
  ev_stats :: "gen_stats option"

text \<open>
  A request holds references to the caller's state and logits: they are its own here.
  \<open>rq_taken\<close> is what the consumer's loop has taken out of the event queue so far.
\<close>

record ('st, 'lg, 'o) request =
  rq_states :: "'st list"
  rq_logits :: "'lg list"
  rq_tail :: bytes
  rq_adapter :: string
  rq_wkv32 :: bool
  rq_options :: "'o gen_options"
  rq_stops :: text_stop_matcher
  rq_chunk :: int
  rq_notify :: bool
  rq_stats :: gen_stats
  rq_events :: "event list"
  rq_taken :: "event list"
  rq_cancelled :: bool
  rq_done :: bool
  rq_error :: bool
  rq_remaining :: int

record 'sp row =
  rw_request :: nat
  rw_index :: nat
  rw_step :: nat
  rw_token :: token
  rw_finished :: bool
  rw_completed :: bool
  rw_pending :: bytes
  rw_tail :: bytes
  rw_buffered :: nat
  rw_saved :: "'sp option"

record ('st, 'lg, 'sp, 'o) group =
  g_rows :: "nat list"
  g_incoming :: "nat list"
  g_states :: "'st list"
  g_logits :: "'lg list"
  g_sampler :: "'sp list"
  g_options :: "'o gen_options list"
  g_adapter :: string
  g_wkv32 :: bool

record ('st, 'lg, 'sp, 'o) sched =
  sc_requests :: "nat \<Rightarrow> ('st, 'lg, 'o) request"
  sc_rows :: "nat \<Rightarrow> 'sp row"
  sc_groups :: "('st, 'lg, 'sp, 'o) group list"
  sc_pending :: "nat list"
  sc_incoming :: "nat list"
  sc_next_request :: nat
  sc_next_row :: nat
  sc_seed :: nat
  sc_max_rows :: nat
  sc_stopping :: bool

text \<open>
  \<open>be_decode\<close> is \<open>forward_decode\<close> (\<open>None\<close>: it throws), \<open>be_sample\<close> the sampling of one row from
  its options, step, logits and sampler state, \<open>be_text\<close> the tokenizer's \<open>decode\<close> and
  \<open>be_fresh seed i\<close> slot \<open>i\<close> of a new sampler state.
\<close>

record ('st, 'lg, 'sp, 'o) engine =
  be_decode :: "token list \<Rightarrow> 'st list \<Rightarrow> ('st list \<times> 'lg list) option"
  be_sample :: "'o \<Rightarrow> nat \<Rightarrow> 'lg \<Rightarrow> 'sp \<Rightarrow> token \<times> 'sp"
  be_text :: "token \<Rightarrow> bytes"
  be_fresh :: "nat \<Rightarrow> nat \<Rightarrow> 'sp"

section \<open>Events and completion\<close>

definition upd_request ::
    "nat \<Rightarrow> (('st, 'lg, 'o) request \<Rightarrow> ('st, 'lg, 'o) request) \<Rightarrow>
     ('st, 'lg, 'sp, 'o) sched \<Rightarrow> ('st, 'lg, 'sp, 'o) sched" where
  "upd_request q h s = s\<lparr>sc_requests := (sc_requests s)(q := h (sc_requests s q))\<rparr>"

definition upd_row ::
    "nat \<Rightarrow> ('sp row \<Rightarrow> 'sp row) \<Rightarrow> ('st, 'lg, 'sp, 'o) sched \<Rightarrow> ('st, 'lg, 'sp, 'o) sched" where
  "upd_row r h s = s\<lparr>sc_rows := (sc_rows s)(r := h (sc_rows s r))\<rparr>"

definition upd_stats :: "(gen_stats \<Rightarrow> gen_stats) \<Rightarrow> ('st, 'lg, 'o) request \<Rightarrow> ('st, 'lg, 'o) request" where
  "upd_stats h rq = rq\<lparr>rq_stats := h (rq_stats rq)\<rparr>"

definition mark_interrupted :: "gen_stats \<Rightarrow> gen_stats" where
  "mark_interrupted stats =
     stats\<lparr>gs_stopped := True,
           gs_reasons := map (\<lambda>reason. if reason = ''length'' then ''stop'' else reason) (gs_reasons stats)\<rparr>"

abbreviation request_of :: "('st, 'lg, 'sp, 'o) sched \<Rightarrow> nat \<Rightarrow> ('st, 'lg, 'o) request" where
  "request_of s r \<equiv> sc_requests s (rw_request (sc_rows s r))"

definition push_event ::
    "nat \<Rightarrow> bytes \<Rightarrow> bool \<Rightarrow> ('st, 'lg, 'sp, 'o) sched \<Rightarrow> ('st, 'lg, 'sp, 'o) sched" where
  "push_event r text_out stop s =
     upd_request (rw_request (sc_rows s r))
       (\<lambda>rq. rq\<lparr>rq_events := rq_events rq @
          [\<lparr>ev_row = rw_index (sc_rows s r), ev_text = text_out,
            ev_stats = (if stop then Some (rq_stats rq) else None)\<rparr>]\<rparr>) s"

definition flush_row :: "nat \<Rightarrow> bool \<Rightarrow> ('st, 'lg, 'sp, 'o) sched \<Rightarrow> ('st, 'lg, 'sp, 'o) sched" where
  "flush_row r final s =
     (let (text_out, pending) = take_complete_utf8 (rw_pending (sc_rows s r)) final;
          s' = upd_row r (\<lambda>row. row\<lparr>rw_pending := pending, rw_buffered := 0\<rparr>) s
      in if text_out \<noteq> [] then push_event r text_out False s' else s')"

definition export_row ::
    "('st, 'lg, 'sp, 'o) group \<Rightarrow> nat \<Rightarrow> nat \<Rightarrow> ('st, 'lg, 'sp, 'o) sched \<Rightarrow> ('st, 'lg, 'sp, 'o) sched" where
  "export_row g slot r s =
     (let row = sc_rows s r in
      upd_request (rw_request row)
        (\<lambda>rq. rq\<lparr>rq_states := (rq_states rq)[rw_index row := g_states g ! slot],
                rq_logits := (rq_logits rq)[rw_index row := g_logits g ! slot],
                rq_tail := (if length (rq_states rq) = 1 then rw_tail row else rq_tail rq)\<rparr>) s)"

definition complete :: "nat \<Rightarrow> ('st, 'lg, 'sp, 'o) sched \<Rightarrow> ('st, 'lg, 'sp, 'o) sched" where
  "complete r s =
     (if rw_completed (sc_rows s r) then s
      else
        let q = rw_request (sc_rows s r);
            i = rw_index (sc_rows s r);
            s1 = upd_row r (\<lambda>row. row\<lparr>rw_completed := True\<rparr>) s;
            s2 = (if rq_cancelled (sc_requests s1 q) then upd_request q (upd_stats mark_interrupted) s1 else s1);
            s3 = flush_row r True s2;
            rq = sc_requests s3 q;
            s4 = (if gs_reasons (rq_stats rq) ! i = ''stop'' \<and> \<not> rq_cancelled rq \<and>
                     (rq_notify rq \<or> gs_matched (rq_stats rq) ! i = [])
                  then push_event r [] True s3 else s3)
        in upd_request q
             (\<lambda>rq. rq\<lparr>rq_remaining := rq_remaining rq - 1,
                     rq_done := (if rq_remaining rq - 1 = 0 then True else rq_done rq)\<rparr>) s4)"

definition backpressured :: "('st, 'lg, 'o) request \<Rightarrow> bool" where
  "backpressured rq \<longleftrightarrow> length (rq_events rq) \<ge> 128"

section \<open>Batch membership\<close>

text \<open>
  The first loop of \<open>rebuild\<close> over the group's rows with their slots; the result lists the rows
  that stay, each with its old slot.
\<close>

definition note_cancel :: "nat \<Rightarrow> ('st, 'lg, 'sp, 'o) sched \<Rightarrow> ('st, 'lg, 'sp, 'o) sched" where
  "note_cancel r s =
     (if rq_cancelled (request_of s r) then upd_row r (\<lambda>row. row\<lparr>rw_finished := True\<rparr>) s else s)"

definition pause_row ::
    "('st, 'lg, 'sp, 'o) group \<Rightarrow> nat \<Rightarrow> nat \<Rightarrow> ('st, 'lg, 'sp, 'o) sched \<Rightarrow> ('st, 'lg, 'sp, 'o) sched" where
  "pause_row g slot r s =
     (upd_row r (\<lambda>row. row\<lparr>rw_saved := Some (g_sampler g ! slot)\<rparr>) (export_row g slot r s))
       \<lparr>sc_pending := sc_pending s @ [r]\<rparr>"

fun rebuild_rows ::
    "bool \<Rightarrow> ('st, 'lg, 'sp, 'o) group \<Rightarrow> (nat \<times> nat) list \<Rightarrow> ('st, 'lg, 'sp, 'o) sched \<Rightarrow>
     (nat \<times> nat option) list \<times> ('st, 'lg, 'sp, 'o) sched" where
  "rebuild_rows allow_pause g [] s = ([], s)"
| "rebuild_rows allow_pause g ((slot, r) # rest) s =
     (if rw_completed (sc_rows s r) then rebuild_rows allow_pause g rest s
      else
        let s1 = note_cancel r s in
        if rw_finished (sc_rows s1 r) then
          rebuild_rows allow_pause g rest (complete r (export_row g slot r s1))
        else if allow_pause \<and> backpressured (request_of s1 r) then
          rebuild_rows allow_pause g rest (pause_row g slot r s1)
        else
          let (live, s2) = rebuild_rows allow_pause g rest s1 in ((r, Some slot) # live, s2))"

fun rebuild_incoming ::
    "nat list \<Rightarrow> ('st, 'lg, 'sp, 'o) sched \<Rightarrow> (nat \<times> nat option) list \<times> ('st, 'lg, 'sp, 'o) sched" where
  "rebuild_incoming [] s = ([], s)"
| "rebuild_incoming (r # rest) s =
     (if rq_cancelled (request_of s r) \<or> go_max_tokens (rq_options (request_of s r)) \<le> 0 then
        rebuild_incoming rest (complete r s)
      else let (live, s') = rebuild_incoming rest s in ((r, None) # live, s'))"

text \<open>What a slot of the new batch receives: state, logits and sampler state.\<close>

definition slot_source ::
    "('st, 'lg, 'sp, 'o) engine \<Rightarrow> ('st, 'lg, 'sp, 'o) group \<Rightarrow> ('st, 'lg, 'sp, 'o) sched \<Rightarrow>
     nat \<Rightarrow> nat \<times> nat option \<Rightarrow> 'st \<times> 'lg \<times> 'sp" where
  "slot_source E g s i entry =
     (case entry of
        (r, Some slot) \<Rightarrow> (g_states g ! slot, g_logits g ! slot, g_sampler g ! slot)
      | (r, None) \<Rightarrow>
          (rq_states (request_of s r) ! rw_index (sc_rows s r),
           rq_logits (request_of s r) ! rw_index (sc_rows s r),
           (case rw_saved (sc_rows s r) of Some sp \<Rightarrow> sp | None \<Rightarrow> be_fresh E (sc_seed s) i)))"

definition reset_saved :: "(nat \<times> nat option) list \<Rightarrow> ('st, 'lg, 'sp, 'o) sched \<Rightarrow> ('st, 'lg, 'sp, 'o) sched" where
  "reset_saved live s =
     fold (\<lambda>(r, old). if old = None then upd_row r (\<lambda>row. row\<lparr>rw_saved := None\<rparr>) else (\<lambda>s. s)) live s"

definition rebuild ::
    "('st, 'lg, 'sp, 'o) engine \<Rightarrow> bool \<Rightarrow> ('st, 'lg, 'sp, 'o) group \<Rightarrow> ('st, 'lg, 'sp, 'o) sched \<Rightarrow>
     ('st, 'lg, 'sp, 'o) group \<times> ('st, 'lg, 'sp, 'o) sched" where
  "rebuild E allow_pause g s =
     (let (live1, s1) = rebuild_rows allow_pause g (zip [0..<length (g_rows g)] (g_rows g)) s;
          (live2, s2) = rebuild_incoming (g_incoming g) s1;
          live = live1 @ live2
      in
      if map fst live = g_rows g then (g\<lparr>g_incoming := []\<rparr>, s2)
      else if live = [] then
        (g\<lparr>g_rows := [], g_incoming := [], g_states := [], g_logits := [], g_sampler := []\<rparr>, s2)
      else
        let slots = map (\<lambda>(i, entry). slot_source E g s2 i entry) (zip [0..<length live] live) in
        (g\<lparr>g_rows := map fst live, g_incoming := [],
           g_states := map fst slots, g_logits := map (fst \<circ> snd) slots, g_sampler := map (snd \<circ> snd) slots,
           g_options := map (\<lambda>r. rq_options (request_of s2 r)) (map fst live)\<rparr>,
         (reset_saved live s2)\<lparr>sc_seed := Suc (sc_seed s2)\<rparr>))"

section \<open>One decode step of a batch\<close>

text \<open>The body of the loop over the sampled tokens.\<close>

definition apply_token ::
    "('st, 'lg, 'sp, 'o) engine \<Rightarrow> nat \<Rightarrow> token \<Rightarrow> ('st, 'lg, 'sp, 'o) sched \<Rightarrow> ('st, 'lg, 'sp, 'o) sched" where
  "apply_token E r tok s =
     (let q = rw_request (sc_rows s r);
          i = rw_index (sc_rows s r);
          opts = rq_options (sc_requests s q);
          s1 = upd_row r (\<lambda>row. row\<lparr>rw_token := tok\<rparr>) s
      in
      if go_stop opts = None \<and> tok \<in> set (go_stop_tokens opts) then
        upd_row r (\<lambda>row. row\<lparr>rw_finished := True\<rparr>)
          (upd_request q
             (upd_stats (\<lambda>gs. gs\<lparr>gs_stop_token := True, gs_reasons := (gs_reasons gs)[i := ''stop'']\<rparr>)) s1)
      else
        let decoded = be_text E tok;
            s2 = upd_row r (\<lambda>row. row\<lparr>rw_step := Suc (rw_step row), rw_pending := rw_pending row @ decoded,
                                     rw_buffered := Suc (rw_buffered row)\<rparr>)
                   (upd_request q (upd_stats (\<lambda>gs. gs\<lparr>gs_generated := Suc (gs_generated gs)\<rparr>)) s1);
            s3 = (case go_stop opts of
                    None \<Rightarrow> s2
                  | Some _ \<Rightarrow>
                      let (matched, tail) = stop_append (rq_stops (sc_requests s2 q)) (rw_tail (sc_rows s2 r)) decoded in
                      if matched \<noteq> [] then
                        upd_row r (\<lambda>row. row\<lparr>rw_tail := []\<rparr>)
                          (upd_request q
                             (upd_stats (\<lambda>gs. gs\<lparr>gs_matched := (gs_matched gs)[i := matched],
                                                 gs_reasons := (gs_reasons gs)[i := ''stop'']\<rparr>)) s2)
                      else upd_row r (\<lambda>row. row\<lparr>rw_tail := tail\<rparr>) s2)
        in if rq_chunk (sc_requests s3 q) > 0 \<and> int (rw_buffered (sc_rows s3 r)) \<ge> rq_chunk (sc_requests s3 q)
           then flush_row r False s3 else s3)"

definition apply_tokens ::
    "('st, 'lg, 'sp, 'o) engine \<Rightarrow> (nat \<times> token) list \<Rightarrow> ('st, 'lg, 'sp, 'o) sched \<Rightarrow> ('st, 'lg, 'sp, 'o) sched" where
  "apply_tokens E rts s = fold (\<lambda>(r, tok). apply_token E r tok) rts s"

definition mark_finished :: "nat list \<Rightarrow> ('st, 'lg, 'sp, 'o) sched \<Rightarrow> ('st, 'lg, 'sp, 'o) sched" where
  "mark_finished rows s =
     fold (\<lambda>r s. if int (rw_step (sc_rows s r)) \<ge> go_max_tokens (rq_options (request_of s r)) \<or>
                    gs_reasons (rq_stats (request_of s r)) ! rw_index (sc_rows s r) = ''stop''
                 then upd_row r (\<lambda>row. row\<lparr>rw_finished := True\<rparr>) s else s) rows s"

definition sample_rows ::
    "('st, 'lg, 'sp, 'o) engine \<Rightarrow> 'lg list \<Rightarrow> 'sp list \<Rightarrow> 'o gen_options list \<Rightarrow> nat list \<Rightarrow> (token \<times> 'sp) list" where
  "sample_rows E logits samplers options steps =
     map (\<lambda>(lg, sp, opts, n). be_sample E (go_sampling opts) n lg sp)
       (zip logits (zip samplers (zip options steps)))"

text \<open>The part of \<open>step\<close> after the first \<open>rebuild\<close>; the flag says that the decode pass threw.\<close>

definition decode_batch ::
    "('st, 'lg, 'sp, 'o) engine \<Rightarrow> ('st, 'lg, 'sp, 'o) group \<Rightarrow> ('st, 'lg, 'sp, 'o) sched \<Rightarrow>
     bool \<times> ('st, 'lg, 'sp, 'o) group \<times> ('st, 'lg, 'sp, 'o) sched" where
  "decode_batch E g1 s1 =
     (let steps = map (\<lambda>r. rw_step (sc_rows s1 r)) (g_rows g1);
          sampled = sample_rows E (g_logits g1) (g_sampler g1) (g_options g1) steps;
          g2 = g1\<lparr>g_sampler := map snd sampled\<rparr>;
          s2 = apply_tokens E (zip (g_rows g1) (map fst sampled)) s1;
          (g3, s3) = rebuild E False g2 s2
      in
      if g_rows g3 = [] then (False, g3, s3)
      else
        (case be_decode E (map (\<lambda>r. rw_token (sc_rows s3 r)) (g_rows g3)) (g_states g3) of
           None \<Rightarrow> (True, g3, s3)
         | Some (states, logits) \<Rightarrow>
             let (g4, s4) = rebuild E False (g3\<lparr>g_states := states, g_logits := logits\<rparr>)
                              (mark_finished (g_rows g3) s3)
             in (False, g4, s4)))"

text \<open>\<open>step\<close>.\<close>

definition group_step ::
    "('st, 'lg, 'sp, 'o) engine \<Rightarrow> ('st, 'lg, 'sp, 'o) group \<Rightarrow> ('st, 'lg, 'sp, 'o) sched \<Rightarrow>
     bool \<times> ('st, 'lg, 'sp, 'o) group \<times> ('st, 'lg, 'sp, 'o) sched" where
  "group_step E g s =
     (let (g1, s1) = rebuild E True g s
      in if g_rows g1 = [] then (False, g1, s1) else decode_batch E g1 s1)"

definition fail_group ::
    "('st, 'lg, 'sp, 'o) group \<Rightarrow> ('st, 'lg, 'sp, 'o) sched \<Rightarrow>
     ('st, 'lg, 'sp, 'o) group \<times> ('st, 'lg, 'sp, 'o) sched" where
  "fail_group g s =
     (g\<lparr>g_rows := [], g_incoming := [], g_states := [], g_logits := [], g_sampler := []\<rparr>,
      fold (\<lambda>r s. if rw_completed (sc_rows s r) then s
                  else complete r
                    (upd_request (rw_request (sc_rows s r)) (\<lambda>rq. rq\<lparr>rq_error := True, rq_cancelled := True\<rparr>) s))
        (g_rows g @ g_incoming g) s)"

section \<open>Admission\<close>

fun admit_rows :: "nat \<Rightarrow> nat list \<Rightarrow> ('st, 'lg, 'sp, 'o) sched \<Rightarrow> ('st, 'lg, 'sp, 'o) sched" where
  "admit_rows q [] s = s"
| "admit_rows q (i # is) s =
     (let r = sc_next_row s;
          row = \<lparr>rw_request = q, rw_index = i, rw_step = 0, rw_token = 0, rw_finished = False,
                 rw_completed = False, rw_pending = [],
                 rw_tail = (if length (rq_states (sc_requests s q)) = 1 then rq_tail (sc_requests s q) else []),
                 rw_buffered = 0, rw_saved = None\<rparr>
      in admit_rows q is
           (s\<lparr>sc_rows := (sc_rows s)(r := row), sc_pending := sc_pending s @ [r], sc_next_row := Suc r\<rparr>))"

definition admit :: "nat \<Rightarrow> ('st, 'lg, 'sp, 'o) sched \<Rightarrow> ('st, 'lg, 'sp, 'o) sched" where
  "admit q s = admit_rows q [0..<length (rq_states (sc_requests s q))] s"

definition occupied_rows :: "('st, 'lg, 'sp, 'o) group list \<Rightarrow> nat" where
  "occupied_rows groups = sum_list (map (\<lambda>g. length (g_rows g) + length (g_incoming g)) groups)"

definition new_group :: "string \<Rightarrow> bool \<Rightarrow> ('st, 'lg, 'sp, 'o) group" where
  "new_group adapter wkv32 =
     \<lparr>g_rows = [], g_incoming = [], g_states = [], g_logits = [], g_sampler = [], g_options = [],
      g_adapter = adapter, g_wkv32 = wkv32\<rparr>"

fun join_group ::
    "string \<Rightarrow> bool \<Rightarrow> nat \<Rightarrow> ('st, 'lg, 'sp, 'o) group list \<Rightarrow> ('st, 'lg, 'sp, 'o) group list" where
  "join_group adapter wkv32 r [] = [(new_group adapter wkv32)\<lparr>g_incoming := [r]\<rparr>]"
| "join_group adapter wkv32 r (g # gs) =
     (if g_adapter g = adapter \<and> g_wkv32 g = wkv32 then g\<lparr>g_incoming := g_incoming g @ [r]\<rparr> # gs
      else g # join_group adapter wkv32 r gs)"

text \<open>The loop of \<open>admit_pending\<close>; the result lists the rows that stay pending.\<close>

fun admit_loop ::
    "nat list \<Rightarrow> nat \<Rightarrow> ('st, 'lg, 'sp, 'o) sched \<Rightarrow> nat list \<times> ('st, 'lg, 'sp, 'o) sched" where
  "admit_loop [] occupied s = ([], s)"
| "admit_loop (r # rest) occupied s =
     (let rq = request_of s r in
      if rq_cancelled rq \<or> go_max_tokens (rq_options rq) \<le> 0 then admit_loop rest occupied (complete r s)
      else if occupied \<ge> sc_max_rows s \<or> backpressured rq then
        let (kept, s') = admit_loop rest occupied s in (r # kept, s')
      else
        admit_loop rest (Suc occupied)
          (s\<lparr>sc_groups := join_group (rq_adapter rq) (rq_wkv32 rq) r (sc_groups s)\<rparr>))"

definition admit_pending :: "('st, 'lg, 'sp, 'o) sched \<Rightarrow> ('st, 'lg, 'sp, 'o) sched" where
  "admit_pending s =
     (let (kept, s') = admit_loop (sc_pending s) (occupied_rows (sc_groups s)) s
      in s'\<lparr>sc_pending := kept\<rparr>)"

section \<open>The owner loop\<close>

text \<open>What \<open>should_stop\<close> of a request answers when it is asked.\<close>

datatype stop_answer = Continue | StopNow | Throws

definition check_stops ::
    "(nat \<Rightarrow> stop_answer) \<Rightarrow> nat list \<Rightarrow> ('st, 'lg, 'sp, 'o) sched \<Rightarrow> ('st, 'lg, 'sp, 'o) sched" where
  "check_stops answers rows s =
     fold (\<lambda>r s. let q = rw_request (sc_rows s r) in
                 if \<not> rw_completed (sc_rows s r) \<and> \<not> rq_cancelled (sc_requests s q) then
                   (case answers q of
                      Continue \<Rightarrow> s
                    | StopNow \<Rightarrow> upd_request q (\<lambda>rq. rq\<lparr>rq_cancelled := True\<rparr>) s
                    | Throws \<Rightarrow> upd_request q (\<lambda>rq. rq\<lparr>rq_error := True, rq_cancelled := True\<rparr>) s)
                 else s) rows s"

definition cancel_rows :: "nat list \<Rightarrow> ('st, 'lg, 'sp, 'o) sched \<Rightarrow> ('st, 'lg, 'sp, 'o) sched" where
  "cancel_rows rows s =
     fold (\<lambda>r s. upd_request (rw_request (sc_rows s r)) (\<lambda>rq. rq\<lparr>rq_cancelled := True\<rparr>) s) rows s"

fun step_groups ::
    "('st, 'lg, 'sp, 'o) engine \<Rightarrow> bool \<Rightarrow> ('st, 'lg, 'sp, 'o) group list \<Rightarrow> ('st, 'lg, 'sp, 'o) sched \<Rightarrow>
     ('st, 'lg, 'sp, 'o) group list \<times> ('st, 'lg, 'sp, 'o) sched" where
  "step_groups E shutdown [] s = ([], s)"
| "step_groups E shutdown (g # gs) s =
     (let s1 = (if shutdown then cancel_rows (g_rows g @ g_incoming g) s else s);
          (threw, g2, s2) = group_step E g s1;
          (g3, s3) = (if threw then fail_group g2 s2 else (g2, s2));
          (gs', s4) = step_groups E shutdown gs s3
      in (g3 # gs', s4))"

text \<open>One turn of \<open>loop\<close>.\<close>

definition sweep ::
    "('st, 'lg, 'sp, 'o) engine \<Rightarrow> (nat \<Rightarrow> stop_answer) \<Rightarrow> ('st, 'lg, 'sp, 'o) sched \<Rightarrow> ('st, 'lg, 'sp, 'o) sched" where
  "sweep E answers s =
     (let s1 = fold admit (sc_incoming s) (s\<lparr>sc_incoming := []\<rparr>);
          s2 = (if sc_stopping s then cancel_rows (sc_pending s1) s1 else s1);
          s3 = admit_pending s2;
          s4 = check_stops answers
                 (concat (map (\<lambda>g. g_rows g @ g_incoming g) (sc_groups s3)) @ sc_pending s3) s3;
          (gs, s5) = step_groups E (sc_stopping s) (sc_groups s4) s4
      in s5\<lparr>sc_groups := filter (\<lambda>g. \<not> (g_rows g = [] \<and> g_incoming g = [])) gs\<rparr>)"

section \<open>The request side\<close>

datatype submit_error = ShapeMismatch | BadTemperature | ShuttingDown

record ('st, 'lg, 'o) submission =
  su_states :: "'st list"
  su_logits :: "'lg list"
  su_tail :: bytes
  su_adapter :: string
  su_wkv32 :: bool
  su_options :: "'o gen_options"
  su_chunk :: int
  su_notify :: bool

text \<open>\<open>generate\<close> up to its waiting loop.\<close>

definition submit ::
    "('o \<Rightarrow> bool) \<Rightarrow> ('st, 'lg, 'o) submission \<Rightarrow> ('st, 'lg, 'sp, 'o) sched \<Rightarrow>
     submit_error + ('st, 'lg, 'sp, 'o) sched" where
  "submit temperature_ok su s =
     (if length (su_states su) \<noteq> length (su_logits su) \<or> su_logits su = [] then Inl ShapeMismatch
      else if \<not> temperature_ok (go_sampling (su_options su)) then Inl BadTemperature
      else if sc_stopping s then Inl ShuttingDown
      else
        let q = sc_next_request s;
            n = length (su_logits su);
            rq = \<lparr>rq_states = su_states su, rq_logits = su_logits su, rq_tail = su_tail su,
                  rq_adapter = su_adapter su, rq_wkv32 = su_wkv32 su, rq_options = su_options su,
                  rq_stops = text_stop_matcher (case go_stop (su_options su) of None \<Rightarrow> [] | Some ss \<Rightarrow> ss),
                  rq_chunk = su_chunk su, rq_notify = su_notify su,
                  rq_stats = \<lparr>gs_generated = 0, gs_stopped = False, gs_stop_token = False,
                              gs_reasons = replicate n ''length'', gs_matched = replicate n []\<rparr>,
                  rq_events = [], rq_taken = [], rq_cancelled = False, rq_done = False, rq_error = False,
                  rq_remaining = int n\<rparr>
        in Inr (s\<lparr>sc_requests := (sc_requests s)(q := rq), sc_next_request := Suc q,
                  sc_incoming := sc_incoming s @ [q]\<rparr>))"

text \<open>One turn of the waiting loop takes the queued events.\<close>

definition drain :: "nat \<Rightarrow> ('st, 'lg, 'sp, 'o) sched \<Rightarrow> ('st, 'lg, 'sp, 'o) sched" where
  "drain q s = upd_request q (\<lambda>rq. rq\<lparr>rq_taken := rq_taken rq @ rq_events rq, rq_events := []\<rparr>) s"

definition cancel :: "nat \<Rightarrow> ('st, 'lg, 'sp, 'o) sched \<Rightarrow> ('st, 'lg, 'sp, 'o) sched" where
  "cancel q s = upd_request q (\<lambda>rq. rq\<lparr>rq_cancelled := True\<rparr>) s"

text \<open>What \<open>generate\<close> returns once the request is done.\<close>

definition gen_result :: "('st, 'lg, 'o) request \<Rightarrow> gen_stats option" where
  "gen_result rq =
     (if rq_error rq then None
      else Some (if rq_cancelled rq then mark_interrupted (rq_stats rq) else rq_stats rq))"

section \<open>Runs\<close>

datatype ('st, 'lg, 'o) sched_label =
    Submit "('st, 'lg, 'o) submission" | Drain nat | Cancel nat | Sweep "nat \<Rightarrow> stop_answer" | Shutdown

fun sched_apply ::
    "('st, 'lg, 'sp, 'o) engine \<Rightarrow> ('o \<Rightarrow> bool) \<Rightarrow> ('st, 'lg, 'o) sched_label \<Rightarrow>
     ('st, 'lg, 'sp, 'o) sched \<Rightarrow> ('st, 'lg, 'sp, 'o) sched" where
  "sched_apply E ok (Submit su) s = (case submit ok su s of Inl _ \<Rightarrow> s | Inr s' \<Rightarrow> s')"
| "sched_apply E ok (Drain q) s = drain q s"
| "sched_apply E ok (Cancel q) s = cancel q s"
| "sched_apply E ok (Sweep answers) s = sweep E answers s"
| "sched_apply E ok Shutdown s = s\<lparr>sc_stopping := True\<rparr>"

definition scheduler :: "nat \<Rightarrow> ('st, 'lg, 'sp, 'o) sched" where
  "scheduler max_rows =
     \<lparr>sc_requests = (\<lambda>_. undefined), sc_rows = (\<lambda>_. undefined), sc_groups = [], sc_pending = [],
      sc_incoming = [], sc_next_request = 0, sc_next_row = 0, sc_seed = 0, sc_max_rows = max_rows,
      sc_stopping = False\<rparr>"

definition run_sched ::
    "('st, 'lg, 'sp, 'o) engine \<Rightarrow> ('o \<Rightarrow> bool) \<Rightarrow> nat \<Rightarrow> ('st, 'lg, 'o) sched_label list \<Rightarrow> ('st, 'lg, 'sp, 'o) sched" where
  "run_sched E ok max_rows ls = fold (sched_apply E ok) ls (scheduler max_rows)"

end
