(* ===== verification/SchedulerRows.thy ===== *)
theory SchedulerRows
  imports Scheduler
begin

text \<open>
  What the scheduler's operations do to a single row: the relation \<open>touches\<close> bounds what an
  operation on some rows may change, and the \<open>loc\<close> lemmas give its effect on the row itself.
\<close>

section \<open>What an operation on some rows leaves alone\<close>

definition row_text :: "('st, 'lg, 'o) request \<Rightarrow> nat \<Rightarrow> bytes" where
  "row_text rq i = concat (map ev_text (filter (\<lambda>e. ev_row e = i) (rq_taken rq @ rq_events rq)))"

text \<open>
  The part of a request that belongs to one of its rows. The finish reason is masked once the
  request is cancelled, since \<open>mark_interrupted\<close> then rewrites the reasons of all rows.
\<close>

definition part :: "('st, 'lg, 'o) request \<Rightarrow> nat \<Rightarrow> 'st \<times> 'lg \<times> bytes \<times> bytes \<times> string" where
  "part rq i =
     (rq_states rq ! i, rq_logits rq ! i, gs_matched (rq_stats rq) ! i, row_text rq i,
      if rq_cancelled rq then [] else gs_reasons (rq_stats rq) ! i)"

definition static :: "('st, 'lg, 'o) request \<Rightarrow> _" where
  "static rq =
     ((rq_options rq, rq_stops rq, rq_chunk rq, rq_notify rq, rq_adapter rq, rq_wkv32 rq),
      rq_cancelled rq, rq_taken rq, length (rq_states rq), length (rq_logits rq),
      length (gs_reasons (rq_stats rq)), length (gs_matched (rq_stats rq)))"

definition key :: "('st, 'lg, 'sp, 'o) sched \<Rightarrow> nat \<Rightarrow> nat \<times> nat" where
  "key s r = (rw_request (sc_rows s r), rw_index (sc_rows s r))"

definition open_rows :: "('st, 'lg, 'sp, 'o) sched \<Rightarrow> nat \<Rightarrow> nat set" where
  "open_rows s q = {r. r < sc_next_row s \<and> rw_request (sc_rows s r) = q \<and> \<not> rw_completed (sc_rows s r)}"

definition balance :: "('st, 'lg, 'sp, 'o) sched \<Rightarrow> nat \<Rightarrow> int" where
  "balance s q = rq_remaining (sc_requests s q) - int (card (open_rows s q))"

definition done_ok :: "('st, 'lg, 'o) request \<Rightarrow> bool" where
  "done_ok rq \<longleftrightarrow> rq_done rq = (rq_remaining rq \<le> 0)"

definition touches :: "nat set \<Rightarrow> ('st, 'lg, 'sp, 'o) sched \<Rightarrow> ('st, 'lg, 'sp, 'o) sched \<Rightarrow> bool" where
  "touches R s s' \<longleftrightarrow>
     (\<forall>r. r \<notin> R \<longrightarrow> sc_rows s' r = sc_rows s r) \<and>
     (\<forall>r. key s' r = key s r) \<and>
     (\<forall>r. rw_completed (sc_rows s r) \<longrightarrow> rw_completed (sc_rows s' r)) \<and>
     (\<forall>q. static (sc_requests s' q) = static (sc_requests s q)) \<and>
     (\<forall>q j. (\<forall>r \<in> R. key s r \<noteq> (q, j)) \<longrightarrow> part (sc_requests s' q) j = part (sc_requests s q) j) \<and>
     (\<forall>q. done_ok (sc_requests s q) \<longrightarrow> done_ok (sc_requests s' q)) \<and>
     (R \<subseteq> {..<sc_next_row s} \<longrightarrow> (\<forall>q. balance s' q = balance s q)) \<and>
     sc_groups s' = sc_groups s \<and> sc_incoming s' = sc_incoming s \<and>
     sc_next_request s' = sc_next_request s \<and> sc_next_row s' = sc_next_row s \<and>
     sc_max_rows s' = sc_max_rows s \<and> sc_stopping s' = sc_stopping s"

lemma touches_refl [simp]: "touches R s s"
  by (simp add: touches_def)

lemma touches_trans:
  "touches R s s' \<Longrightarrow> touches R s' s'' \<Longrightarrow> touches R s s''"
  unfolding touches_def by (intro conjI; simp)

lemma touches_mono:
  assumes "touches R s s'" "R \<subseteq> R'"
  shows "touches R' s s'"
  using assms unfolding touches_def by (intro conjI; blast)

lemma touches_trans_mono:
  "touches R s s' \<Longrightarrow> touches R' s' s'' \<Longrightarrow> R \<subseteq> R'' \<Longrightarrow> R' \<subseteq> R'' \<Longrightarrow> touches R'' s s''"
  by (meson touches_mono touches_trans)

lemma touches_static: "touches R s s' \<Longrightarrow> static (sc_requests s' q) = static (sc_requests s q)"
  by (simp add: touches_def)

lemma touches_row: "touches R s s' \<Longrightarrow> r \<notin> R \<Longrightarrow> sc_rows s' r = sc_rows s r"
  by (simp add: touches_def)

lemma touches_key: "touches R s s' \<Longrightarrow> key s' r = key s r"
  by (simp add: touches_def)

lemma touches_request: "touches R s s' \<Longrightarrow> rw_request (sc_rows s' r) = rw_request (sc_rows s r)"
  by (auto dest: touches_key [of R s s' r] simp: key_def)

lemma touches_index: "touches R s s' \<Longrightarrow> rw_index (sc_rows s' r) = rw_index (sc_rows s r)"
  by (auto dest: touches_key [of R s s' r] simp: key_def)

lemma static_fields:
  assumes "static rq = static rq'"
  shows "rq_options rq = rq_options rq'" "rq_stops rq = rq_stops rq'" "rq_chunk rq = rq_chunk rq'"
    "rq_adapter rq = rq_adapter rq'" "rq_wkv32 rq = rq_wkv32 rq'" "rq_cancelled rq = rq_cancelled rq'"
    "rq_taken rq = rq_taken rq'" "length (rq_states rq) = length (rq_states rq')"
    "length (rq_logits rq) = length (rq_logits rq')"
    "length (gs_reasons (rq_stats rq)) = length (gs_reasons (rq_stats rq'))"
    "length (gs_matched (rq_stats rq)) = length (gs_matched (rq_stats rq'))"
  using assms by (simp_all add: static_def)

text \<open>The primitive operations.\<close>

lemma upd_row_touches:
  assumes "\<And>row. rw_request (h row) = rw_request row" "\<And>row. rw_index (h row) = rw_index row"
    "\<And>row. rw_completed (h row) = rw_completed row"
  shows "touches {r} s (upd_row r h s)"
proof -
  have "open_rows (upd_row r h s) q = open_rows s q" for q
    using assms by (auto simp: open_rows_def upd_row_def)
  then show ?thesis using assms by (auto simp: touches_def upd_row_def key_def balance_def)
qed

lemma upd_request_touches:
  assumes "static (h (sc_requests s q)) = static (sc_requests s q)"
    and "rq_remaining (h (sc_requests s q)) = rq_remaining (sc_requests s q)"
    and "rq_done (h (sc_requests s q)) = rq_done (sc_requests s q)"
    and "\<And>j. j \<noteq> rw_index (sc_rows s r) \<Longrightarrow> part (h (sc_requests s q)) j = part (sc_requests s q) j"
    and "q = rw_request (sc_rows s r)"
  shows "touches {r} s (upd_request q h s)"
  using assms by (auto simp: touches_def upd_request_def key_def balance_def open_rows_def done_ok_def)

lemma row_text_push:
  "row_text (rq\<lparr>rq_events := rq_events rq @ [e]\<rparr>) i = row_text rq i @ (if ev_row e = i then ev_text e else [])"
  by (simp add: row_text_def)

lemma push_event_touches: "touches {r} s (push_event r text_out stop s)"
  unfolding push_event_def
  by (rule upd_request_touches) (simp_all add: static_def part_def row_text_def)

lemma flush_row_touches: "touches {r} s (flush_row r final s)"
proof -
  have 1: "touches {r} s (upd_row r (\<lambda>row. row\<lparr>rw_pending := p, rw_buffered := 0\<rparr>) s)" for p
    by (rule upd_row_touches) simp_all
  show ?thesis
    using 1 touches_trans [OF 1 push_event_touches]
    by (auto simp: flush_row_def Let_def split: prod.split)
qed

lemma export_row_touches: "touches {r} s (export_row g slot r s)"
  unfolding export_row_def Let_def
  by (rule upd_request_touches) (simp_all add: static_def part_def row_text_def)

lemma mark_interrupted_touches:
  assumes "rq_cancelled (request_of s r)"
  shows "touches {r} s (upd_request (rw_request (sc_rows s r)) (upd_stats mark_interrupted) s)"
  by (rule upd_request_touches)
    (use assms in \<open>simp_all add: static_def part_def row_text_def upd_stats_def mark_interrupted_def\<close>)

lemma complete_touches: "touches {r} s (complete r s)"
proof (cases "rw_completed (sc_rows s r)")
  case False
  define q where "q = rw_request (sc_rows s r)"
  define s1 where "s1 = upd_row r (\<lambda>row. row\<lparr>rw_completed := True\<rparr>) s"
  define s2 where "s2 = (if rq_cancelled (sc_requests s1 q) then upd_request q (upd_stats mark_interrupted) s1 else s1)"
  define s3 where "s3 = flush_row r True s2"
  define s4 where "s4 = (if gs_reasons (rq_stats (sc_requests s3 q)) ! rw_index (sc_rows s r) = ''stop'' \<and>
      \<not> rq_cancelled (sc_requests s3 q) \<and>
      (rq_notify (sc_requests s3 q) \<or> gs_matched (rq_stats (sc_requests s3 q)) ! rw_index (sc_rows s r) = [])
    then push_event r [] True s3 else s3)"
  define h where "h = (\<lambda>rq :: ('a, 'b, 'd) request. rq\<lparr>rq_remaining := rq_remaining rq - 1,
      rq_done := (if rq_remaining rq - 1 = 0 then True else rq_done rq)\<rparr>)"
  have eq: "complete r s = upd_request q h s4"
    by (simp only: complete_def Let_def False if_False q_def s1_def s2_def s3_def s4_def h_def)
  have q1: "rw_request (sc_rows s1 r) = q" by (simp add: s1_def q_def upd_row_def)
  have "touches {r} s1 s2"
    using mark_interrupted_touches [of s1 r] q1 by (simp add: s2_def)
  then have t: "touches {r} s1 s4"
    using flush_row_touches [of r s2 True] push_event_touches [of r s3 "[]" True]
    unfolding s3_def [symmetric] s4_def by (auto intro: touches_trans)
  have open1: "open_rows s1 p = (if p = q then open_rows s p - {r} else open_rows s p)" for p
    by (auto simp: open_rows_def s1_def upd_row_def q_def)
  have open4: "open_rows (upd_request q h s4) p = open_rows s4 p" for p
    by (simp add: open_rows_def upd_request_def)
  have s1: "sc_requests s1 = sc_requests s" "key s1 = key s" "sc_next_row s1 = sc_next_row s"
    by (auto simp: s1_def upd_row_def key_def)
  have bal: "balance (upd_request q h s4) p = balance s p" if "r < sc_next_row s" for p
  proof -
    have mem: "r \<in> open_rows s q" using that False by (simp add: open_rows_def q_def)
    have fin: "finite (open_rows s q)" by (simp add: open_rows_def)
    have "balance s4 p = balance s1 p"
      using t that by (simp add: touches_def s1_def upd_row_def)
    moreover have "balance s1 p = balance s p + (if p = q then 1 else 0)"
      using card_Diff_singleton [OF mem] card_gt_0_iff [of "open_rows s q"] mem fin
      by (auto simp: balance_def open1 s1(1) of_nat_diff)
    moreover have "balance (upd_request q h s4) p = balance s4 p - (if p = q then 1 else 0)"
      by (simp add: balance_def open4) (simp add: upd_request_def h_def)
    ultimately show ?thesis by simp
  qed
  have h: "static (h rq) = static rq" "part (h rq) j = part rq j" "done_ok rq \<Longrightarrow> done_ok (h rq)" for rq j
    by (auto simp: h_def static_def part_def row_text_def done_ok_def)
  show ?thesis
    unfolding touches_def eq
  proof (intro conjI)
    show "\<forall>ra. ra \<notin> {r} \<longrightarrow> sc_rows (upd_request q h s4) ra = sc_rows s ra"
      using t by (simp add: touches_def upd_request_def s1_def upd_row_def)
    show "\<forall>ra. key (upd_request q h s4) ra = key s ra"
      using t s1(2) by (simp add: touches_def upd_request_def key_def)
    show "\<forall>ra. rw_completed (sc_rows s ra) \<longrightarrow> rw_completed (sc_rows (upd_request q h s4) ra)"
      using t by (auto simp: touches_def upd_request_def s1_def upd_row_def)
    show "\<forall>p. static (sc_requests (upd_request q h s4) p) = static (sc_requests s p)"
      using t h(1) s1(1) by (simp add: touches_def upd_request_def)
    show "\<forall>p j. (\<forall>ra \<in> {r}. key s ra \<noteq> (p, j)) \<longrightarrow>
        part (sc_requests (upd_request q h s4) p) j = part (sc_requests s p) j"
      using t h(2) s1(1,2) by (simp add: touches_def upd_request_def)
    show "\<forall>p. done_ok (sc_requests s p) \<longrightarrow> done_ok (sc_requests (upd_request q h s4) p)"
      using t h(3) s1(1) by (simp add: touches_def upd_request_def)
    show "{r} \<subseteq> {..<sc_next_row s} \<longrightarrow> (\<forall>p. balance (upd_request q h s4) p = balance s p)"
      using bal by simp
  qed (use t in \<open>simp_all add: touches_def upd_request_def s1_def upd_row_def\<close>)
qed (simp add: complete_def)

lemma touches_pending [simp]:
  "touches R s (s'\<lparr>sc_pending := p\<rparr>) = touches R s s'" "touches R (s\<lparr>sc_pending := p\<rparr>) s' = touches R s s'"
  "touches R s (s'\<lparr>sc_seed := n\<rparr>) = touches R s s'" "touches R (s\<lparr>sc_seed := n\<rparr>) s' = touches R s s'"
  by (simp_all add: touches_def key_def balance_def open_rows_def)

lemma upd_stats_touches:
  assumes "\<And>gs. length (gs_reasons (h gs)) = length (gs_reasons gs)"
    and "\<And>gs. length (gs_matched (h gs)) = length (gs_matched gs)"
    and "\<And>gs j. j \<noteq> rw_index (sc_rows s r) \<Longrightarrow> gs_reasons (h gs) ! j = gs_reasons gs ! j"
    and "\<And>gs j. j \<noteq> rw_index (sc_rows s r) \<Longrightarrow> gs_matched (h gs) ! j = gs_matched gs ! j"
    and "q = rw_request (sc_rows s r)"
  shows "touches {r} s (upd_request q (upd_stats h) s)"
  by (rule upd_request_touches) (use assms in \<open>simp_all add: static_def part_def row_text_def upd_stats_def\<close>)

lemma upd_row_keeps:
  assumes "\<And>row. rw_request (h row) = rw_request row" "\<And>row. rw_index (h row) = rw_index row"
  shows "rw_request (sc_rows (upd_row r h s) r') = rw_request (sc_rows s r')"
    "rw_index (sc_rows (upd_row r h s) r') = rw_index (sc_rows s r')"
  using assms by (simp_all add: upd_row_def)

lemma upd_request_rows [simp]: "sc_rows (upd_request q h s) = sc_rows s"
  by (simp add: upd_request_def)

lemma upd_row_requests [simp]: "sc_requests (upd_row r h s) = sc_requests s"
  by (simp add: upd_row_def)

lemma apply_token_touches: "touches {r} s (apply_token E r tok s)"
proof -
  define q where "q = rw_request (sc_rows s r)"
  define i where "i = rw_index (sc_rows s r)"
  define opts where "opts = rq_options (sc_requests s q)"
  define s1 where "s1 = upd_row r (\<lambda>row. row\<lparr>rw_token := tok\<rparr>) s"
  have s1: "touches {r} s s1" unfolding s1_def by (rule upd_row_touches) simp_all
  have k: "rw_request (sc_rows s' r) = q" "rw_index (sc_rows s' r) = i" if "touches {r} s s'" for s'
    using touches_request [OF that] touches_index [OF that] by (simp_all add: q_def i_def)
  have st: "touches {r} s (upd_request q (upd_stats h) s')"
    if "touches {r} s s'" and h: "\<And>gs. length (gs_reasons (h gs)) = length (gs_reasons gs)"
      "\<And>gs. length (gs_matched (h gs)) = length (gs_matched gs)"
      "\<And>gs j. j \<noteq> i \<Longrightarrow> gs_reasons (h gs) ! j = gs_reasons gs ! j"
      "\<And>gs j. j \<noteq> i \<Longrightarrow> gs_matched (h gs) ! j = gs_matched gs ! j" for s' h
    by (rule touches_trans [OF that(1)]) (rule upd_stats_touches, use h k [OF that(1)] in simp_all)
  have ro: "touches {r} s (upd_row r h s')"
    if "touches {r} s s'" and h: "\<And>row. rw_request (h row) = rw_request row"
      "\<And>row. rw_index (h row) = rw_index row" "\<And>row. rw_completed (h row) = rw_completed row" for s' h
    by (rule touches_trans [OF that(1)]) (rule upd_row_touches, use h in simp_all)
  show ?thesis
  proof (cases "go_stop opts = None \<and> tok \<in> set (go_stop_tokens opts)")
    case True
    have "touches {r} s (upd_row r (\<lambda>row. row\<lparr>rw_finished := True\<rparr>)
          (upd_request q
             (upd_stats (\<lambda>gs. gs\<lparr>gs_stop_token := True, gs_reasons := (gs_reasons gs)[i := ''stop'']\<rparr>)) s1))"
      by (intro ro st s1) simp_all
    then show ?thesis using True by (simp add: apply_token_def Let_def q_def i_def opts_def s1_def)
  next
    case False
    define s2 where "s2 = upd_row r (\<lambda>row. row\<lparr>rw_step := Suc (rw_step row), rw_pending := rw_pending row @ be_text E tok,
                                     rw_buffered := Suc (rw_buffered row)\<rparr>)
                   (upd_request q (upd_stats (\<lambda>gs. gs\<lparr>gs_generated := Suc (gs_generated gs)\<rparr>)) s1)"
    define s3 where "s3 = (case go_stop opts of
                    None \<Rightarrow> s2
                  | Some _ \<Rightarrow>
                      let (matched, tail) = stop_append (rq_stops (sc_requests s2 q)) (rw_tail (sc_rows s2 r)) (be_text E tok) in
                      if matched \<noteq> [] then
                        upd_row r (\<lambda>row. row\<lparr>rw_tail := []\<rparr>)
                          (upd_request q
                             (upd_stats (\<lambda>gs. gs\<lparr>gs_matched := (gs_matched gs)[i := matched],
                                                 gs_reasons := (gs_reasons gs)[i := ''stop'']\<rparr>)) s2)
                      else upd_row r (\<lambda>row. row\<lparr>rw_tail := tail\<rparr>) s2)"
    have s2: "touches {r} s s2" unfolding s2_def by (intro ro st s1) simp_all
    have s3: "touches {r} s s3"
      unfolding s3_def by (auto simp: Let_def split: option.split prod.split intro!: ro st s2)
    have "apply_token E r tok s =
        (if rq_chunk (sc_requests s3 q) > 0 \<and> int (rw_buffered (sc_rows s3 r)) \<ge> rq_chunk (sc_requests s3 q)
         then flush_row r False s3 else s3)"
      using False unfolding apply_token_def Let_def q_def [symmetric] i_def [symmetric] opts_def [symmetric]
        s1_def [symmetric] s2_def [symmetric] by (simp only: if_False s3_def Let_def)
    then show ?thesis using s3 touches_trans [OF s3 flush_row_touches] by simp
  qed
qed

lemma apply_tokens_touches: "touches (set (map fst rts)) s (apply_tokens E rts s)"
proof (induction rts arbitrary: s)
  case (Cons x rts)
  obtain r tok where x: "x = (r, tok)" by (cases x) auto
  have "apply_tokens E (x # rts) s = apply_tokens E rts (apply_token E r tok s)"
    by (simp add: apply_tokens_def x)
  then show ?case
    using touches_trans_mono [OF apply_token_touches [of r s E tok] Cons.IH [of "apply_token E r tok s"]] x by auto
qed (simp add: apply_tokens_def)

lemma fold_touches:
  assumes "\<And>r s. r \<in> set rs \<Longrightarrow> touches {r} s (h r s)"
  shows "touches (set rs) s (fold h rs s)"
  using assms
proof (induction rs arbitrary: s)
  case (Cons r rs)
  have "touches {r} s (h r s)" "touches (set rs) (h r s) (fold h rs (h r s))"
    using Cons.prems Cons.IH [of "h r s"] by simp_all
  from touches_trans_mono [OF this, of "insert r (set rs)"] show ?case by auto
qed simp

lemma mark_finished_touches: "touches (set rows) s (mark_finished rows s)"
  unfolding mark_finished_def by (rule fold_touches) (auto intro!: upd_row_touches)

lemma reset_saved_Cons:
  "reset_saved ((r, old) # live) s =
     reset_saved live (if old = None then upd_row r (\<lambda>row. row\<lparr>rw_saved := None\<rparr>) s else s)"
  by (simp add: reset_saved_def)

lemma reset_saved_touches: "touches (set (map fst live)) s (reset_saved live s)"
proof (induction live arbitrary: s)
  case (Cons x live)
  obtain r old where x: "x = (r, old)" by (cases x) auto
  let ?s = "if old = None then upd_row r (\<lambda>row. row\<lparr>rw_saved := None\<rparr>) s else s"
  have "touches {r} s ?s" by (auto intro!: upd_row_touches)
  from touches_trans_mono [OF this Cons.IH [of ?s], of "insert r (set (map fst live))"]
  have "touches (insert r (set (map fst live))) s (reset_saved live ?s)" by blast
  then show ?case unfolding x reset_saved_Cons by simp
qed (simp add: reset_saved_def)

lemma rebuild_rows_cases [case_names Skip Out Pause Live]:
  obtains "rw_completed (sc_rows s r)" "rebuild_rows p g ((slot, r) # rest) s = rebuild_rows p g rest s"
  | "\<not> rw_completed (sc_rows s r)" "rw_finished (sc_rows (note_cancel r s) r)"
    "rebuild_rows p g ((slot, r) # rest) s = rebuild_rows p g rest (complete r (export_row g slot r (note_cancel r s)))"
  | "\<not> rw_completed (sc_rows s r)" "\<not> rw_finished (sc_rows (note_cancel r s) r)" "p"
    "rebuild_rows p g ((slot, r) # rest) s = rebuild_rows p g rest (pause_row g slot r (note_cancel r s))"
  | "\<not> rw_completed (sc_rows s r)" "\<not> rw_finished (sc_rows (note_cancel r s) r)"
    "rebuild_rows p g ((slot, r) # rest) s =
       ((r, Some slot) # fst (rebuild_rows p g rest (note_cancel r s)), snd (rebuild_rows p g rest (note_cancel r s)))"
proof -
  consider "rw_completed (sc_rows s r)" | "\<not> rw_completed (sc_rows s r)" "rw_finished (sc_rows (note_cancel r s) r)"
    | "\<not> rw_completed (sc_rows s r)" "\<not> rw_finished (sc_rows (note_cancel r s) r)" "p \<and> backpressured (request_of (note_cancel r s) r)"
    | "\<not> rw_completed (sc_rows s r)" "\<not> rw_finished (sc_rows (note_cancel r s) r)" "\<not> (p \<and> backpressured (request_of (note_cancel r s) r))"
    by blast
  then show ?thesis
  proof cases
    case 1
    then show ?thesis using that(1) by simp
  next
    case 2
    then show ?thesis using that(2) by simp
  next
    case 3
    then show ?thesis using that(3) by simp
  next
    case 4
    then show ?thesis by (intro that(4)) (auto simp: split_beta Let_def)
  qed
qed

lemma note_cancel_touches: "touches {r} s (note_cancel r s)"
  unfolding note_cancel_def by (auto intro!: upd_row_touches)

lemma pause_row_touches: "touches {r} s (pause_row g slot r s)"
  unfolding pause_row_def
  by (simp, rule touches_trans [OF export_row_touches]) (auto intro!: upd_row_touches)

lemma out_touches: "touches {r} s (complete r (export_row g slot r (note_cancel r s)))"
  by (rule touches_trans [OF touches_trans [OF note_cancel_touches export_row_touches] complete_touches])

lemma note_pause_touches: "touches {r} s (pause_row g slot r (note_cancel r s))"
  by (rule touches_trans [OF note_cancel_touches pause_row_touches])

lemma rebuild_rows_touches:
  "touches (set (map snd srs)) s (snd (rebuild_rows p g srs s)) \<and>
   set (fst (rebuild_rows p g srs s)) \<subseteq> (\<lambda>(slot, r). (r, Some slot)) ` set srs"
proof (induction srs arbitrary: s)
  case (Cons x rest)
  obtain slot r where x: "x = (slot, r)" by (cases x) auto
  have go: "touches (set (map snd (x # rest))) s (snd (rebuild_rows p g rest s'))" if "touches {r} s s'" for s'
    using touches_trans_mono [OF that conjunct1 [OF Cons.IH]] x by auto
  show ?case
    using go [OF touches_refl] go [OF out_touches] go [OF note_pause_touches] go [OF note_cancel_touches] Cons.IH
    unfolding x by (cases rule: rebuild_rows_cases [of s r p g slot rest]) (simp_all, blast+)
qed simp

lemma rebuild_incoming_touches:
  "touches (set rs) s (snd (rebuild_incoming rs s)) \<and>
   set (fst (rebuild_incoming rs s)) \<subseteq> (\<lambda>r. (r, None)) ` set rs"
proof (induction rs arbitrary: s)
  case (Cons r rest)
  show ?case
  proof (cases "rq_cancelled (request_of s r) \<or> go_max_tokens (rq_options (request_of s r)) \<le> 0")
    case True
    then show ?thesis
      using touches_trans_mono [OF complete_touches [of r s] conjunct1 [OF Cons.IH [of "complete r s"]],
          of "set (r # rest)"] Cons.IH [of "complete r s"] by auto
  next
    case False
    then show ?thesis using touches_mono [OF conjunct1 [OF Cons.IH [of s]], of "set (r # rest)"] Cons.IH [of s]
      by (auto simp: split_beta)
  qed
qed simp

lemma rebuild_touches:
  assumes "rebuild E p g s = (g', s')"
  shows "touches (set (g_rows g) \<union> set (g_incoming g)) s s'"
proof -
  let ?zip = "zip [0..<length (g_rows g)] (g_rows g)"
  obtain live1 s1 where 1: "rebuild_rows p g ?zip s = (live1, s1)" by fastforce
  obtain live2 s2 where 2: "rebuild_incoming (g_incoming g) s1 = (live2, s2)" by fastforce
  have "touches (set (g_rows g)) s s1" "set live1 \<subseteq> (\<lambda>(slot, r). (r, Some slot)) ` set ?zip"
    using rebuild_rows_touches [of ?zip s p g] 1 by (simp_all add: map_snd_zip)
  then have "touches (set (g_rows g)) s s1" "set (map fst live1) \<subseteq> set (g_rows g)"
    by (auto dest!: subsetD dest: set_zip_rightD)
  moreover have "touches (set (g_incoming g)) s1 s2" "set (map fst live2) \<subseteq> set (g_incoming g)"
    using rebuild_incoming_touches [of "g_incoming g" s1] 2 by auto
  ultimately have t2: "touches (set (g_rows g) \<union> set (g_incoming g)) s s2"
    and sub: "set (map fst (live1 @ live2)) \<subseteq> set (g_rows g) \<union> set (g_incoming g)"
    by (auto intro: touches_trans_mono)
  have "touches (set (g_rows g) \<union> set (g_incoming g)) s (reset_saved (live1 @ live2) s2)"
    by (rule touches_trans [OF t2 touches_mono [OF reset_saved_touches sub]])
  then show ?thesis using assms t2 1 2 by (auto simp: rebuild_def Let_def split: if_splits)
qed

section \<open>What an operation does to its own row\<close>

text \<open>A row with its part of its request: state, logits, matched stop, emitted text, reason.\<close>

definition loc :: "('st, 'lg, 'sp, 'o) sched \<Rightarrow> nat \<Rightarrow> 'sp row \<times> 'st \<times> 'lg \<times> bytes \<times> bytes \<times> string" where
  "loc s r = (sc_rows s r, part (request_of s r) (rw_index (sc_rows s r)))"

definition valid_row :: "('st, 'lg, 'sp, 'o) sched \<Rightarrow> nat \<Rightarrow> bool" where
  "valid_row s r \<longleftrightarrow>
     (let rq = request_of s r; i = rw_index (sc_rows s r) in
      i < length (rq_states rq) \<and> i < length (rq_logits rq) \<and>
      i < length (gs_reasons (rq_stats rq)) \<and> i < length (gs_matched (rq_stats rq)))"

lemma touches_request_of: "touches R s s' \<Longrightarrow> static (request_of s' r) = static (request_of s r)"
  using touches_static touches_request by metis

lemma touches_valid: "touches R s s' \<Longrightarrow> valid_row s' r = valid_row s r"
  using static_fields [OF touches_request_of [of R s s' r]] touches_index [of R s s' r]
  by (simp add: valid_row_def Let_def)

lemma touches_cancelled: "touches R s s' \<Longrightarrow> rq_cancelled (request_of s' r) = rq_cancelled (request_of s r)"
  using static_fields(6) [OF touches_request_of] .

lemma touches_loc:
  assumes "touches R s s'" "r \<notin> R" "\<forall>r' \<in> R. key s r' \<noteq> key s r"
  shows "loc s' r = loc s r"
proof -
  have "part (sc_requests s' q) j = part (sc_requests s q) j" if "key s r = (q, j)" for q j
    using assms that by (auto simp: touches_def)
  then show ?thesis using touches_row [OF assms(1,2)] by (simp add: loc_def key_def)
qed

definition loc_flush where
  "loc_flush final l =
     (case l of (row, st, lg, mt, tx, rs) \<Rightarrow>
        let (out, p) = take_complete_utf8 (rw_pending row) final
        in (row\<lparr>rw_pending := p, rw_buffered := 0\<rparr>, st, lg, mt, tx @ out, rs))"

definition loc_complete where
  "loc_complete l = (case loc_flush True l of (row, rest) \<Rightarrow> (row\<lparr>rw_completed := True\<rparr>, rest))"

definition loc_export where
  "loc_export st lg l = (case l of (row, _, _, rest) \<Rightarrow> (row, st, lg, rest))"

lemma loc_push_event:
  "loc (push_event r out stop s) r = (case loc s r of (row, st, lg, mt, tx, rs) \<Rightarrow> (row, st, lg, mt, tx @ out, rs))"
  by (simp add: loc_def push_event_def upd_request_def part_def row_text_def)

lemma loc_upd_row:
  assumes "\<And>row. rw_request (h row) = rw_request row" "\<And>row. rw_index (h row) = rw_index row"
  shows "loc (upd_row r h s) r = (case loc s r of (row, rest) \<Rightarrow> (h row, rest))"
  using assms by (simp add: loc_def upd_row_def)

lemma loc_flush_row: "loc (flush_row r final s) r = loc_flush final (loc s r)"
proof -
  obtain out p where t: "take_complete_utf8 (rw_pending (sc_rows s r)) final = (out, p)" by fastforce
  obtain st lg mt tx rs where l: "loc s r = (sc_rows s r, st, lg, mt, tx, rs)" by (auto simp: loc_def part_def)
  have "loc (upd_row r (\<lambda>row. row\<lparr>rw_pending := p, rw_buffered := 0\<rparr>) s) r =
      ((sc_rows s r)\<lparr>rw_pending := p, rw_buffered := 0\<rparr>, st, lg, mt, tx, rs)"
    by (subst loc_upd_row) (simp_all add: l)
  then show ?thesis
    by (cases "out = []") (simp_all add: flush_row_def t loc_flush_def l loc_push_event)
qed

lemma loc_upd_request:
  assumes "q = rw_request (sc_rows s r)" "part (h (sc_requests s q)) (rw_index (sc_rows s r)) = x"
  shows "loc (upd_request q h s) r = (sc_rows s r, x)"
  using assms by (simp add: loc_def upd_request_def)

lemma loc_complete_row:
  fixes s :: "('st, 'lg, 'sp, 'o) sched"
  assumes "\<not> rw_completed (sc_rows s r)" "\<not> rq_cancelled (request_of s r)"
  shows "loc (complete r s) r = loc_complete (loc s r)"
proof -
  define q where "q = rw_request (sc_rows s r)"
  define s1 where "s1 = upd_row r (\<lambda>row. row\<lparr>rw_completed := True\<rparr>) s"
  define s3 where "s3 = flush_row r True s1"
  define s4 where "s4 = (if gs_reasons (rq_stats (sc_requests s3 q)) ! rw_index (sc_rows s r) = ''stop'' \<and>
      \<not> rq_cancelled (sc_requests s3 q) \<and>
      (rq_notify (sc_requests s3 q) \<or> gs_matched (rq_stats (sc_requests s3 q)) ! rw_index (sc_rows s r) = [])
    then push_event r [] True s3 else s3)"
  define h where "h = (\<lambda>rq :: ('st, 'lg, 'o) request. rq\<lparr>rq_remaining := rq_remaining rq - 1,
      rq_done := (if rq_remaining rq - 1 = 0 then True else rq_done rq)\<rparr>)"
  have nc: "\<not> rq_cancelled (sc_requests s1 q)" using assms(2) by (simp add: s1_def q_def)
  have eq: "complete r s = upd_request q h s4"
    by (simp only: complete_def Let_def assms(1) if_False q_def [symmetric] s1_def [symmetric] nc
        s3_def [symmetric] s4_def [symmetric] h_def)
  have t3: "touches {r} s1 s3" unfolding s3_def by (rule flush_row_touches)
  have t4: "touches {r} s1 s4"
    unfolding s4_def using t3 touches_trans [OF t3 push_event_touches] by simp
  have q4: "rw_request (sc_rows s4 r) = q"
    using touches_request [OF t4, of r] by (simp add: s1_def q_def upd_row_def)
  have "loc s3 r = loc_flush True (case loc s r of (row, rest) \<Rightarrow> (row\<lparr>rw_completed := True\<rparr>, rest))"
    unfolding s3_def loc_flush_row s1_def by (subst loc_upd_row) simp_all
  moreover have "loc s4 r = loc s3 r"
    by (auto simp: s4_def loc_push_event split: prod.split)
  moreover have "loc (upd_request q h s4) r = loc s4 r"
    using q4 by (simp add: loc_def upd_request_def h_def part_def row_text_def)
  ultimately show ?thesis
    unfolding eq by (auto simp: loc_complete_def loc_flush_def split: prod.split)
qed

lemma loc_export_row:
  assumes "valid_row s r"
  shows "loc (export_row g slot r s) r = loc_export (g_states g ! slot) (g_logits g ! slot) (loc s r)"
  using assms by (simp add: loc_def export_row_def upd_request_def part_def row_text_def valid_row_def Let_def loc_export_def)

text \<open>The effect of one sampled token.\<close>

definition loc_token where
  "loc_token E opts ms chunk tok l =
     (case l of (row, st, lg, mt, tx, rs) \<Rightarrow>
        if go_stop opts = None \<and> tok \<in> set (go_stop_tokens opts) then
          (row\<lparr>rw_token := tok, rw_finished := True\<rparr>, st, lg, mt, tx, ''stop'')
        else
          let (matched, tail) =
                (case go_stop opts of None \<Rightarrow> ([], rw_tail row) | Some _ \<Rightarrow> stop_append ms (rw_tail row) (be_text E tok));
              row' = row\<lparr>rw_token := tok, rw_step := Suc (rw_step row), rw_pending := rw_pending row @ be_text E tok,
                         rw_buffered := Suc (rw_buffered row), rw_tail := (if matched \<noteq> [] then [] else tail)\<rparr>;
              l' = (row', st, lg, if matched \<noteq> [] then matched else mt, tx, if matched \<noteq> [] then ''stop'' else rs)
          in if chunk > 0 \<and> int (rw_buffered row') \<ge> chunk then loc_flush False l' else l')"

lemma loc_apply_token:
  assumes "valid_row s r" "\<not> rq_cancelled (request_of s r)"
  shows "loc (apply_token E r tok s) r =
    loc_token E (rq_options (request_of s r)) (rq_stops (request_of s r)) (rq_chunk (request_of s r)) tok (loc s r)"
proof -
  define q where "q = rw_request (sc_rows s r)"
  define i where "i = rw_index (sc_rows s r)"
  define rq where "rq = sc_requests s q"
  define row where "row = sc_rows s r"
  have v: "i < length (gs_reasons (rq_stats rq))" "i < length (gs_matched (rq_stats rq))"
    using assms(1) by (simp_all add: valid_row_def Let_def i_def rq_def q_def)
  have nc: "\<not> rq_cancelled rq" using assms(2) by (simp add: rq_def q_def)
  show ?thesis
  proof (cases "go_stop (rq_options rq) = None \<and> tok \<in> set (go_stop_tokens (rq_options rq))")
    case True
    then show ?thesis
      using v nc unfolding rq_def q_def i_def
      by (simp add: apply_token_def Let_def loc_def loc_token_def upd_row_def upd_request_def upd_stats_def part_def row_text_def)
  next
    case False
    obtain matched tail where mt: "(case go_stop (rq_options rq) of None \<Rightarrow> ([], rw_tail row)
        | Some _ \<Rightarrow> stop_append (rq_stops rq) (rw_tail row) (be_text E tok)) = (matched, tail)" by fastforce
    define s3 where "s3 = upd_row r (\<lambda>row. row\<lparr>rw_token := tok, rw_step := Suc (rw_step row), rw_pending := rw_pending row @ be_text E tok,
        rw_buffered := Suc (rw_buffered row), rw_tail := (if matched \<noteq> [] then [] else tail)\<rparr>)
      (upd_request q (upd_stats (\<lambda>gs. gs\<lparr>gs_generated := Suc (gs_generated gs),
         gs_matched := (if matched \<noteq> [] then (gs_matched gs)[i := matched] else gs_matched gs),
         gs_reasons := (if matched \<noteq> [] then (gs_reasons gs)[i := ''stop''] else gs_reasons gs)\<rparr>)) s)"
    define s2 where "s2 = upd_row r (\<lambda>row. row\<lparr>rw_step := Suc (rw_step row), rw_pending := rw_pending row @ be_text E tok,
                                     rw_buffered := Suc (rw_buffered row)\<rparr>)
        (upd_request q (upd_stats (\<lambda>gs. gs\<lparr>gs_generated := Suc (gs_generated gs)\<rparr>)) (upd_row r (\<lambda>row. row\<lparr>rw_token := tok\<rparr>) s))"
    have same: "rq_stops (sc_requests s2 q) = rq_stops rq" "rw_tail (sc_rows s2 r) = rw_tail row"
      by (simp_all add: s2_def upd_request_def upd_row_def upd_stats_def rq_def row_def)
    have s3: "(case go_stop (rq_options rq) of None \<Rightarrow> s2
        | Some _ \<Rightarrow>
            let (matched, tail) = stop_append (rq_stops (sc_requests s2 q)) (rw_tail (sc_rows s2 r)) (be_text E tok) in
            if matched \<noteq> [] then
              upd_row r (\<lambda>row. row\<lparr>rw_tail := []\<rparr>)
                (upd_request q
                   (upd_stats (\<lambda>gs. gs\<lparr>gs_matched := (gs_matched gs)[i := matched],
                                       gs_reasons := (gs_reasons gs)[i := ''stop'']\<rparr>)) s2)
            else upd_row r (\<lambda>row. row\<lparr>rw_tail := tail\<rparr>) s2) = s3"
      using mt unfolding same
      by (cases "go_stop (rq_options rq)")
        (auto simp: s2_def s3_def upd_row_def upd_request_def upd_stats_def row_def
          intro!: sched.equality ext row.equality request.equality gen_stats.equality)
    have "rq_chunk (sc_requests s3 q) = rq_chunk rq" "rw_buffered (sc_rows s3 r) = Suc (rw_buffered row)"
      by (simp_all add: s3_def upd_row_def upd_request_def upd_stats_def rq_def row_def)
    then have eq: "apply_token E r tok s =
        (if rq_chunk rq > 0 \<and> int (Suc (rw_buffered row)) \<ge> rq_chunk rq then flush_row r False s3 else s3)"
      using False unfolding apply_token_def Let_def q_def [symmetric] i_def [symmetric] rq_def [symmetric]
        s2_def [symmetric] s3 [unfolded Let_def] by (simp only: if_False)
    have l3: "loc s3 r = (row\<lparr>rw_token := tok, rw_step := Suc (rw_step row), rw_pending := rw_pending row @ be_text E tok,
        rw_buffered := Suc (rw_buffered row), rw_tail := (if matched \<noteq> [] then [] else tail)\<rparr>,
        rq_states rq ! i, rq_logits rq ! i, if matched \<noteq> [] then matched else gs_matched (rq_stats rq) ! i,
        row_text rq i, if matched \<noteq> [] then ''stop'' else gs_reasons (rq_stats rq) ! i)"
      using v nc by (auto simp: loc_def s3_def upd_row_def upd_request_def upd_stats_def part_def row_text_def rq_def q_def i_def row_def)
    have l: "loc s r = (row, rq_states rq ! i, rq_logits rq ! i, gs_matched (rq_stats rq) ! i, row_text rq i, gs_reasons (rq_stats rq) ! i)"
      using nc by (simp add: loc_def part_def rq_def q_def i_def row_def)
    show ?thesis
      unfolding q_def [symmetric] rq_def [symmetric] eq l loc_token_def prod.case if_not_P [OF False] mt Let_def
      by (simp add: loc_flush_row l3)
  qed
qed

end
