(* ===== verification/SchedulerRebuild.thy ===== *)
theory SchedulerRebuild
  imports SchedulerRows
begin

text \<open>
  How \<open>rebuild\<close> moves the rows of a batch: what becomes of each row of the group and of each
  row that joins it, and that the group stays well formed.
\<close>

section \<open>Rebuilding a batch\<close>

definition slot_of :: "('st, 'lg, 'sp, 'o) group \<Rightarrow> nat \<Rightarrow> ('st \<times> 'lg \<times> 'sp) option" where
  "slot_of g r = map_of (zip (g_rows g) (zip (g_states g) (zip (g_logits g) (g_sampler g)))) r"

text \<open>Rows belong to a request, at an index of their own.\<close>

definition keyed :: "('st, 'lg, 'sp, 'o) sched \<Rightarrow> bool" where
  "keyed s \<longleftrightarrow>
     (\<forall>r < sc_next_row s. valid_row s r) \<and> inj_on (key s) {..<sc_next_row s}"

definition group_ok :: "('st, 'lg, 'sp, 'o) sched \<Rightarrow> ('st, 'lg, 'sp, 'o) group \<Rightarrow> bool" where
  "group_ok s g \<longleftrightarrow>
     distinct (g_rows g @ g_incoming g) \<and>
     (\<forall>r \<in> set (g_rows g @ g_incoming g). r < sc_next_row s \<and> \<not> rw_completed (sc_rows s r)) \<and>
     (\<forall>r \<in> set (g_rows g). rw_saved (sc_rows s r) = None) \<and>
     length (g_states g) = length (g_rows g) \<and> length (g_logits g) = length (g_rows g) \<and>
     length (g_sampler g) = length (g_rows g) \<and>
     (g_rows g \<noteq> [] \<longrightarrow> g_options g = map (\<lambda>r. rq_options (request_of s r)) (g_rows g))"

lemma slot_of_nth:
  assumes "distinct (g_rows g)" "length (g_states g) = length (g_rows g)" "length (g_logits g) = length (g_rows g)"
    "length (g_sampler g) = length (g_rows g)" "i < length (g_rows g)"
  shows "slot_of g (g_rows g ! i) = Some (g_states g ! i, g_logits g ! i, g_sampler g ! i)"
  unfolding slot_of_def using assms by (subst map_of_zip_nth) auto

lemma slot_of_None: "r \<notin> set (g_rows g) \<Longrightarrow> slot_of g r = None"
  by (auto simp: slot_of_def map_of_eq_None_iff dest: set_zip_leftD)

lemma touches_keyed: "touches R s s' \<Longrightarrow> keyed s' = keyed s"
proof -
  assume t: "touches R s s'"
  have "key s' = key s" using touches_key [OF t] by blast
  moreover have "sc_next_row s' = sc_next_row s" using t by (simp add: touches_def)
  ultimately show ?thesis using touches_valid [OF t] by (simp add: keyed_def)
qed

lemma keyed_neq: "keyed s \<Longrightarrow> r < sc_next_row s \<Longrightarrow> r' < sc_next_row s \<Longrightarrow> r \<noteq> r' \<Longrightarrow> key s r \<noteq> key s r'"
  by (auto simp: keyed_def dest: inj_onD)

lemma touches_other:
  assumes "touches R s s'" "keyed s" "R \<subseteq> {..<sc_next_row s}" "r < sc_next_row s" "r \<notin> R"
  shows "loc s' r = loc s r"
  using assms keyed_neq [OF assms(2)] by (intro touches_loc [OF assms(1)]) blast+

text \<open>
  What becomes of a row of the group in the first loop: it is completed because it is cancelled or
  finished, it stays, or it is paused.
\<close>

definition row_fate where
  "row_fate p s s' g live paused r \<longleftrightarrow>
     (\<exists>st lg sp. slot_of g r = Some (st, lg, sp) \<and>
       (if rq_cancelled (request_of s r) then rw_completed (sc_rows s' r) \<and> r \<notin> live \<and> r \<notin> paused
        else if rw_finished (sc_rows s r) then
          loc s' r = loc_complete (loc_export st lg (loc s r)) \<and> r \<notin> live \<and> r \<notin> paused
        else (r \<in> live \<and> r \<notin> paused \<and> loc s' r = loc s r) \<or>
             (p \<and> r \<notin> live \<and> r \<in> paused \<and>
              loc s' r = (case loc_export st lg (loc s r) of (row, rest) \<Rightarrow> (row\<lparr>rw_saved := Some sp\<rparr>, rest)))))"

lemma row_fate_cong:
  assumes "loc s1 r = loc s r" "rq_cancelled (request_of s1 r) = rq_cancelled (request_of s r)"
    and "loc s2 r = loc s' r" "r \<in> live2 \<longleftrightarrow> r \<in> live" "r \<in> paused2 \<longleftrightarrow> r \<in> paused"
  shows "row_fate p s1 s2 g live2 paused2 r = row_fate p s s' g live paused r"
proof -
  have "sc_rows s1 r = sc_rows s r" "sc_rows s2 r = sc_rows s' r"
    using assms(1,3) by (simp_all add: loc_def)
  then show ?thesis using assms by (simp add: row_fate_def)
qed

lemma loc_pending [simp]: "loc (s\<lparr>sc_pending := p\<rparr>) r = loc s r" "loc (s\<lparr>sc_seed := n\<rparr>) r = loc s r"
  by (simp_all add: loc_def)

lemma push_event_rows [simp]: "sc_rows (push_event r out f s) = sc_rows s"
  by (simp add: push_event_def)

lemma flush_row_completed [simp]: "rw_completed (sc_rows (flush_row r f s) r') = rw_completed (sc_rows s r')"
  by (simp add: flush_row_def upd_row_def Let_def split_beta)

lemma complete_completed: "rw_completed (sc_rows (complete r s) r)"
  by (simp add: complete_def Let_def) (simp add: upd_row_def)

lemma flush_row_pending [simp]: "sc_pending (flush_row r f s) = sc_pending s"
  by (simp add: flush_row_def push_event_def upd_row_def upd_request_def Let_def split_beta)

lemma complete_pending [simp]: "sc_pending (complete r s) = sc_pending s"
  by (simp add: complete_def push_event_def upd_row_def upd_request_def Let_def)

lemma export_row_pending [simp]: "sc_pending (export_row g i r s) = sc_pending s"
  by (simp add: export_row_def upd_request_def Let_def)

lemma pause_row_pending [simp]: "sc_pending (pause_row g i r s) = sc_pending s @ [r]"
  by (simp add: pause_row_def)

lemma note_cancel_pending [simp]: "sc_pending (note_cancel r s) = sc_pending s"
  by (simp add: note_cancel_def upd_row_def)

lemma loc_row: "sc_rows s r = fst (loc s r)"
  by (simp add: loc_def)

lemma loc_complete_completed: "rw_completed (fst (loc_complete l))"
  by (simp add: loc_complete_def split: prod.split)

lemma rebuild_rows_spec:
  fixes s :: "('st, 'lg, 'sp, 'o) sched"
  assumes "keyed s" "distinct (map snd srs)"
    and "\<And>slot r. (slot, r) \<in> set srs \<Longrightarrow> r < sc_next_row s \<and> \<not> rw_completed (sc_rows s r) \<and>
       slot_of g r = Some (g_states g ! slot, g_logits g ! slot, g_sampler g ! slot)"
  shows "\<exists>paused. sc_pending (snd (rebuild_rows p g srs s)) = sc_pending s @ paused \<and> distinct paused \<and>
    set paused \<subseteq> set (map snd srs) \<and> distinct (map fst (fst (rebuild_rows p g srs s))) \<and>
    (\<forall>r \<in> set (map snd srs). row_fate p s (snd (rebuild_rows p g srs s)) g
       (set (map fst (fst (rebuild_rows p g srs s)))) (set paused) r)"
  using assms
proof (induction srs arbitrary: s)
  case (Cons x rest)
  obtain slot r where x: "x = (slot, r)" by (cases x) auto
  let ?nc = "note_cancel r s"
  let ?lives = "\<lambda>s. set (map fst (fst (rebuild_rows p g rest s)))" and ?fin = "\<lambda>s. snd (rebuild_rows p g rest s)"
  have r: "r < sc_next_row s" "\<not> rw_completed (sc_rows s r)" "r \<notin> set (map snd rest)"
    and sl: "slot_of g r = Some (g_states g ! slot, g_logits g ! slot, g_sampler g ! slot)"
    using Cons.prems(2,3) x by auto
  have rest: "r' < sc_next_row s" if "r' \<in> set (map snd rest)" for r' using Cons.prems(3) that by fastforce
  note nct = note_cancel_touches [of r s]
  have vnc: "valid_row ?nc r" using Cons.prems(1) r(1) touches_valid [OF nct] by (simp add: keyed_def)
  have IH: "\<exists>paused. sc_pending (?fin s1) = sc_pending s1 @ paused \<and> distinct paused \<and>
      set paused \<subseteq> set (map snd rest) \<and> distinct (map fst (fst (rebuild_rows p g rest s1))) \<and>
      (\<forall>r' \<in> set (map snd rest). row_fate p s (?fin s1) g (?lives s1) (set paused) r') \<and>
      loc (?fin s1) r = loc s1 r \<and> r \<notin> ?lives s1"
    if t: "touches {r} s s1" for s1
  proof -
    have k: "keyed s1" using touches_keyed [OF t] Cons.prems(1) by simp
    have nr: "sc_next_row s1 = sc_next_row s" using t by (simp add: touches_def)
    have same: "loc s1 r' = loc s r'" "sc_rows s1 r' = sc_rows s r'" if "r' \<in> set (map snd rest)" for r'
    proof -
      have "r' \<notin> {r}" using r(3) that by auto
      then show "loc s1 r' = loc s r'" using touches_other [OF t Cons.prems(1) _ rest [OF that]] r(1) by simp
      then show "sc_rows s1 r' = sc_rows s r'" by (simp add: loc_row)
    qed
    have dr: "distinct (map snd rest)" using Cons.prems(2) x by simp
    have pre: "r' < sc_next_row s1 \<and> \<not> rw_completed (sc_rows s1 r') \<and>
        slot_of g r' = Some (g_states g ! slot', g_logits g ! slot', g_sampler g ! slot')"
      if "(slot', r') \<in> set rest" for slot' r'
      using Cons.prems(3) [of slot' r'] same(2) [of r'] that nr x by (force simp: image_iff)
    obtain paused where IH: "sc_pending (?fin s1) = sc_pending s1 @ paused" "distinct paused"
      "set paused \<subseteq> set (map snd rest)" "distinct (map fst (fst (rebuild_rows p g rest s1)))"
      "\<forall>r' \<in> set (map snd rest). row_fate p s1 (?fin s1) g (?lives s1) (set paused) r'"
      using Cons.IH [OF k dr pre] by blast
    have "\<forall>r' \<in> set (map snd rest). row_fate p s (?fin s1) g (?lives s1) (set paused) r'"
    proof
      fix r' assume r': "r' \<in> set (map snd rest)"
      have "row_fate p s1 (?fin s1) g (?lives s1) (set paused) r'" using IH(5) r' by blast
      then show "row_fate p s (?fin s1) g (?lives s1) (set paused) r'"
        by (simp only: row_fate_cong [OF same(1) [OF r'] touches_cancelled [OF t] refl refl refl])
    qed
    moreover have "loc (?fin s1) r = loc s1 r"
      using touches_other [OF conjunct1 [OF rebuild_rows_touches [of rest s1 p g]] k] rest r(1,3) nr by auto
    moreover have "r \<notin> ?lives s1"
      using conjunct2 [OF rebuild_rows_touches [of rest s1 p g]] r(3) by force
    ultimately show ?thesis using IH by blast
  qed
  have fate: "row_fate p s s' g live2 paused2 r'"
    if "row_fate p s s' g live paused r'" "r' \<in> set (map snd rest)"
      "live2 = live \<or> live2 = insert r live" "paused2 = paused \<or> paused2 = insert r paused" for s' live paused live2 paused2 r'
  proof -
    have "r' \<noteq> r" using that(2) r(3) by auto
    then show ?thesis using that row_fate_cong [of s r' s s' s' live2 live paused2 paused] by auto
  qed
  consider "rw_finished (sc_rows ?nc r)"
      "rebuild_rows p g ((slot, r) # rest) s = rebuild_rows p g rest (complete r (export_row g slot r ?nc))"
    | "\<not> rw_finished (sc_rows ?nc r)" "p"
      "rebuild_rows p g ((slot, r) # rest) s = rebuild_rows p g rest (pause_row g slot r ?nc)"
    | "\<not> rw_finished (sc_rows ?nc r)"
      "rebuild_rows p g ((slot, r) # rest) s = ((r, Some slot) # fst (rebuild_rows p g rest ?nc), ?fin ?nc)"
    using r(2) by (cases rule: rebuild_rows_cases [of s r p g slot rest]) auto
  then show ?case
  proof cases
    case 1
    let ?s1 = "complete r (export_row g slot r ?nc)"
    note t = out_touches [of r s g slot]
    obtain paused where ih: "sc_pending (?fin ?s1) = sc_pending ?s1 @ paused" "distinct paused"
      "set paused \<subseteq> set (map snd rest)" "distinct (map fst (fst (rebuild_rows p g rest ?s1)))"
      "\<forall>r' \<in> set (map snd rest). row_fate p s (?fin ?s1) g (?lives ?s1) (set paused) r'"
      "loc (?fin ?s1) r = loc ?s1 r" "r \<notin> ?lives ?s1" using IH [OF t] by blast
    have "row_fate p s (?fin ?s1) g (?lives ?s1) (set paused) r"
    proof (cases "rq_cancelled (request_of s r)")
      case True
      have "rw_completed (sc_rows (?fin ?s1) r)"
        using complete_completed [of r "export_row g slot r ?nc"] ih(6) by (simp add: loc_row)
      then show ?thesis using True ih(3,7) r(3) sl by (auto simp: row_fate_def)
    next
      case False
      then have nc: "?nc = s" by (simp add: note_cancel_def)
      have e: "touches {r} s (export_row g slot r s)" by (rule export_row_touches)
      have "\<not> rw_completed (sc_rows (export_row g slot r s) r)"
        using r(2) by (simp add: export_row_def Let_def)
      moreover have "\<not> rq_cancelled (request_of (export_row g slot r s) r)"
        using False touches_cancelled [OF e] by simp
      ultimately have "loc ?s1 r = loc_complete (loc_export (g_states g ! slot) (g_logits g ! slot) (loc s r))"
        using loc_complete_row [of "export_row g slot r s" r] loc_export_row [of s r] vnc nc by simp
      then show ?thesis using False 1(1) ih(3,6,7) r(3) sl nc by (auto simp: row_fate_def)
    qed
    then show ?thesis using ih fate unfolding x 1(2) by (intro exI [of _ paused]) auto
  next
    case 2
    let ?s1 = "pause_row g slot r ?nc"
    note t = note_pause_touches [of r s g slot]
    obtain paused where ih: "sc_pending (?fin ?s1) = sc_pending ?s1 @ paused" "distinct paused"
      "set paused \<subseteq> set (map snd rest)" "distinct (map fst (fst (rebuild_rows p g rest ?s1)))"
      "\<forall>r' \<in> set (map snd rest). row_fate p s (?fin ?s1) g (?lives ?s1) (set paused) r'"
      "loc (?fin ?s1) r = loc ?s1 r" "r \<notin> ?lives ?s1" using IH [OF t] by blast
    have nc: "\<not> rq_cancelled (request_of s r)" "?nc = s" "\<not> rw_finished (sc_rows s r)"
      using 2(1) by (auto simp: note_cancel_def upd_row_def split: if_splits)
    have "loc ?s1 r = (case loc_export (g_states g ! slot) (g_logits g ! slot) (loc s r) of
        (row, rest) \<Rightarrow> (row\<lparr>rw_saved := Some (g_sampler g ! slot)\<rparr>, rest))"
      unfolding pause_row_def loc_pending
      by (subst loc_upd_row) (use loc_export_row [of s r g slot] vnc nc(2) in simp_all)
    then have "row_fate p s (?fin ?s1) g (?lives ?s1) (set (r # paused)) r"
      using nc sl 2(2) ih(6,7) by (simp add: row_fate_def)
    moreover have "\<forall>r' \<in> set (map snd rest). row_fate p s (?fin ?s1) g (?lives ?s1) (set (r # paused)) r'"
    proof
      fix r' assume r': "r' \<in> set (map snd rest)"
      show "row_fate p s (?fin ?s1) g (?lives ?s1) (set (r # paused)) r'"
        by (rule fate [OF ih(5) [rule_format, OF r'] r']) simp_all
    qed
    ultimately show ?thesis using ih r(3) unfolding x 2(3) by (intro exI [of _ "r # paused"]) auto
  next
    case 3
    obtain paused where ih: "sc_pending (?fin ?nc) = sc_pending ?nc @ paused" "distinct paused"
      "set paused \<subseteq> set (map snd rest)" "distinct (map fst (fst (rebuild_rows p g rest ?nc)))"
      "\<forall>r' \<in> set (map snd rest). row_fate p s (?fin ?nc) g (?lives ?nc) (set paused) r'"
      "loc (?fin ?nc) r = loc ?nc r" "r \<notin> ?lives ?nc" using IH [OF nct] by blast
    have nc: "\<not> rq_cancelled (request_of s r)" "?nc = s" "\<not> rw_finished (sc_rows s r)"
      using 3(1) by (auto simp: note_cancel_def upd_row_def split: if_splits)
    have "r \<notin> set paused" using ih(3) r(3) by auto
    then have "row_fate p s (?fin ?nc) g (insert r (?lives ?nc)) (set paused) r"
      using nc sl ih(6) by (simp add: row_fate_def)
    moreover have "\<forall>r' \<in> set (map snd rest). row_fate p s (?fin ?nc) g (insert r (?lives ?nc)) (set paused) r'"
    proof
      fix r' assume r': "r' \<in> set (map snd rest)"
      show "row_fate p s (?fin ?nc) g (insert r (?lives ?nc)) (set paused) r'"
        by (rule fate [OF ih(5) [rule_format, OF r'] r']) simp_all
    qed
    ultimately show ?thesis using ih unfolding x 3(2) by (intro exI [of _ paused]) auto
  qed
qed simp

definition in_fate where
  "in_fate s s' live r \<longleftrightarrow>
     (if rq_cancelled (request_of s r) then rw_completed (sc_rows s' r) \<and> r \<notin> live
      else if go_max_tokens (rq_options (request_of s r)) \<le> 0 then loc s' r = loc_complete (loc s r) \<and> r \<notin> live
      else r \<in> live \<and> loc s' r = loc s r)"

lemma touches_options: "touches R s s' \<Longrightarrow> rq_options (request_of s' r) = rq_options (request_of s r)"
  using static_fields(1) [OF touches_request_of] .

lemma in_fate_cong:
  assumes "touches R s s1" "loc s1 r = loc s r" "loc s2 r = loc s' r" "r \<in> live2 \<longleftrightarrow> r \<in> live"
  shows "in_fate s1 s2 live2 r = in_fate s s' live r"
  using assms touches_cancelled [OF assms(1), of r] touches_options [OF assms(1), of r]
  by (simp add: in_fate_def loc_row)

lemma rebuild_incoming_spec:
  assumes "keyed s" "distinct rs" "\<And>r. r \<in> set rs \<Longrightarrow> r < sc_next_row s \<and> \<not> rw_completed (sc_rows s r)"
  shows "sc_pending (snd (rebuild_incoming rs s)) = sc_pending s \<and> distinct (map fst (fst (rebuild_incoming rs s))) \<and>
    (\<forall>r \<in> set rs. in_fate s (snd (rebuild_incoming rs s)) (set (map fst (fst (rebuild_incoming rs s)))) r)"
  using assms
proof (induction rs arbitrary: s)
  case (Cons r rest)
  let ?lives = "\<lambda>s. set (map fst (fst (rebuild_incoming rest s)))" and ?fin = "\<lambda>s. snd (rebuild_incoming rest s)"
  have r: "r < sc_next_row s" "\<not> rw_completed (sc_rows s r)" "r \<notin> set rest" using Cons.prems(2,3) by auto
  have IH: "sc_pending (?fin s1) = sc_pending s1 \<and> distinct (map fst (fst (rebuild_incoming rest s1))) \<and>
      (\<forall>r' \<in> set rest. in_fate s (?fin s1) (?lives s1) r') \<and> loc (?fin s1) r = loc s1 r \<and> r \<notin> ?lives s1"
    if t: "touches {r} s s1" for s1
  proof -
    have k: "keyed s1" using touches_keyed [OF t] Cons.prems(1) by simp
    have nr: "sc_next_row s1 = sc_next_row s" using t by (simp add: touches_def)
    have same: "loc s1 r' = loc s r'" if "r' \<in> set rest" for r'
      using touches_other [OF t Cons.prems(1), of r'] that r(1,3) Cons.prems(3) by auto
    have dr: "distinct rest" using Cons.prems(2) by simp
    have pre: "r' < sc_next_row s1 \<and> \<not> rw_completed (sc_rows s1 r')" if "r' \<in> set rest" for r'
      using same [OF that] Cons.prems(3) that nr by (simp add: loc_row)
    note ih = Cons.IH [OF k dr pre]
    have "in_fate s (?fin s1) (?lives s1) r'" if "r' \<in> set rest" for r'
    proof -
      have "in_fate s1 (?fin s1) (?lives s1) r'" using ih that by blast
      then show ?thesis by (simp only: in_fate_cong [OF t same [OF that] refl refl])
    qed
    moreover have "loc (?fin s1) r = loc s1 r"
      using touches_other [OF conjunct1 [OF rebuild_incoming_touches [of rest s1]] k] pre r(1,3) nr by auto
    moreover have "r \<notin> ?lives s1"
      using conjunct2 [OF rebuild_incoming_touches [of rest s1]] r(3) by force
    ultimately show ?thesis using ih by blast
  qed
  show ?case
  proof (cases "rq_cancelled (request_of s r) \<or> go_max_tokens (rq_options (request_of s r)) \<le> 0")
    case True
    note ih = IH [OF complete_touches]
    have "in_fate s (?fin (complete r s)) (?lives (complete r s)) r"
      using True ih complete_completed [of r s] loc_complete_row [OF r(2)] by (auto simp: in_fate_def loc_row)
    then show ?thesis using True ih by simp
  next
    case False
    note ih = IH [OF touches_refl]
    have "\<forall>r' \<in> set rest. in_fate s (?fin s) (insert r (?lives s)) r'"
    proof
      fix r' assume "r' \<in> set rest"
      then have "in_fate s (?fin s) (?lives s) r'" "r' \<noteq> r" using ih r(3) by auto
      then show "in_fate s (?fin s) (insert r (?lives s)) r'" by (simp add: in_fate_def)
    qed
    moreover have "in_fate s (?fin s) (insert r (?lives s)) r" using False ih by (simp add: in_fate_def)
    ultimately show ?thesis using False ih by (simp add: split_beta)
  qed
qed simp

lemma loc_reset_saved:
  assumes "distinct (map fst live)"
  shows "loc (reset_saved live s) r =
    (if (r, None) \<in> set live then (case loc s r of (row, rest) \<Rightarrow> (row\<lparr>rw_saved := None\<rparr>, rest)) else loc s r)"
  using assms
proof (induction live arbitrary: s)
  case (Cons x live)
  obtain r' old where x: "x = (r', old)" by (cases x) auto
  let ?s = "if old = None then upd_row r' (\<lambda>row. row\<lparr>rw_saved := None\<rparr>) s else s"
  have "loc ?s r = (if r = r' \<and> old = None then (case loc s r of (row, rest) \<Rightarrow> (row\<lparr>rw_saved := None\<rparr>, rest)) else loc s r)"
    by (auto simp: loc_upd_row) (auto simp: loc_def upd_row_def)
  then show ?case
    using Cons unfolding x reset_saved_Cons by (force simp: image_iff split: prod.split)
qed (simp add: reset_saved_def)

definition join_fate where
  "join_fate s s' g' r \<longleftrightarrow>
     (if rq_cancelled (request_of s r) then rw_completed (sc_rows s' r) \<and> r \<notin> set (g_rows g')
      else if go_max_tokens (rq_options (request_of s r)) \<le> 0 then
        loc s' r = loc_complete (loc s r) \<and> r \<notin> set (g_rows g')
      else r \<in> set (g_rows g') \<and>
        (\<exists>new. case loc s r of (row, st, lg, rest) \<Rightarrow>
           slot_of g' r = Some (st, lg, case rw_saved row of None \<Rightarrow> new | Some sp \<Rightarrow> sp) \<and>
           loc s' r = (row\<lparr>rw_saved := None\<rparr>, st, lg, rest)))"

lemma reset_saved_pending [simp]: "sc_pending (reset_saved live s) = sc_pending s"
proof (induction live arbitrary: s)
  case (Cons x live)
  then show ?case by (cases x) (simp add: reset_saved_Cons upd_row_def)
qed (simp add: reset_saved_def)

lemma slot_of_slots:
  assumes "distinct (map fst live)" "(r, old) \<in> set live"
    and "g_rows g' = map fst live" "g_states g' = map fst slots" "g_logits g' = map (fst \<circ> snd) slots"
    and "g_sampler g' = map (snd \<circ> snd) slots"
    and "slots = map (\<lambda>(i, entry). slot_source E g s i entry) (zip [0..<length live] live)"
  shows "\<exists>i. slot_of g' r = Some (slot_source E g s i (r, old))"
proof -
  obtain i where i: "i < length live" "live ! i = (r, old)" using assms(2) by (auto simp: in_set_conv_nth)
  have "slot_of g' (g_rows g' ! i) = Some (g_states g' ! i, g_logits g' ! i, g_sampler g' ! i)"
    by (rule slot_of_nth) (use assms i in simp_all)
  then show ?thesis using assms(3-7) i by auto
qed

lemma slot_source_incoming:
  "loc s r = (row, st, lg, rest) \<Longrightarrow> slot_source E g s i (r, None) =
     (st, lg, case rw_saved row of None \<Rightarrow> be_fresh E (sc_seed s) i | Some sp \<Rightarrow> sp)"
  by (auto simp: slot_source_def loc_def part_def)

lemma slot_of_rows:
  assumes "group_ok s g" "(slot, r) \<in> set (zip [0..<length (g_rows g)] (g_rows g))"
  shows "slot_of g r = Some (g_states g ! slot, g_logits g ! slot, g_sampler g ! slot)"
  using assms slot_of_nth [of g slot] by (auto simp: group_ok_def in_set_zip)

lemma rebuild_spec:
  fixes s :: "('st, 'lg, 'sp, 'o) sched"
  assumes k: "keyed s" and ok: "group_ok s g" and rb: "rebuild E p g s = (g', s')"
  shows "\<exists>paused. sc_pending s' = sc_pending s @ paused \<and> distinct paused \<and> set paused \<subseteq> set (g_rows g) \<and>
    group_ok s' g' \<and> g_incoming g' = [] \<and> set (g_rows g') \<subseteq> set (g_rows g) \<union> set (g_incoming g) \<and>
    g_adapter g' = g_adapter g \<and> g_wkv32 g' = g_wkv32 g \<and>
    (\<forall>r \<in> set (g_rows g). row_fate p s s' g (set (g_rows g')) (set paused) r \<and>
       (r \<in> set (g_rows g') \<longrightarrow> slot_of g' r = slot_of g r)) \<and>
    (\<forall>r \<in> set (g_incoming g). join_fate s s' g' r)"
proof -
  let ?zip = "zip [0..<length (g_rows g)] (g_rows g)"
  obtain live1 s1 where 1: "rebuild_rows p g ?zip s = (live1, s1)" by fastforce
  obtain live2 s2 where 2: "rebuild_incoming (g_incoming g) s1 = (live2, s2)" by fastforce
  have z: "map snd ?zip = g_rows g" by simp
  have d: "distinct (g_rows g)" "distinct (g_incoming g)" "set (g_rows g) \<inter> set (g_incoming g) = {}"
    and old: "\<And>r. r \<in> set (g_rows g) \<union> set (g_incoming g) \<Longrightarrow> r < sc_next_row s \<and> \<not> rw_completed (sc_rows s r)"
    using ok by (auto simp: group_ok_def)
  have "\<And>slot r. (slot, r) \<in> set ?zip \<Longrightarrow> r < sc_next_row s \<and> \<not> rw_completed (sc_rows s r) \<and>
      slot_of g r = Some (g_states g ! slot, g_logits g ! slot, g_sampler g ! slot)"
    using slot_of_rows [OF ok] old set_zip_rightD by fastforce
  then obtain paused where R: "sc_pending s1 = sc_pending s @ paused" "distinct paused" "set paused \<subseteq> set (g_rows g)"
    "distinct (map fst live1)" "\<forall>r \<in> set (g_rows g). row_fate p s s1 g (set (map fst live1)) (set paused) r"
    using rebuild_rows_spec [OF k, of ?zip g p] d(1) 1 unfolding z by auto
  have t1: "touches (set (g_rows g)) s s1" and live1: "set live1 \<subseteq> (\<lambda>(slot, r). (r, Some slot)) ` set ?zip"
    using rebuild_rows_touches [of ?zip s p g] 1 by (simp_all add: map_snd_zip)
  have t2: "touches (set (g_incoming g)) s1 s2" and live2: "set live2 \<subseteq> (\<lambda>r. (r, None)) ` set (g_incoming g)"
    using rebuild_incoming_touches [of "g_incoming g" s1] 2 by simp_all
  have k1: "keyed s1" and n1: "sc_next_row s1 = sc_next_row s"
    using touches_keyed [OF t1] k t1 by (simp_all add: touches_def)
  have in1: "loc s1 r = loc s r" if "r \<in> set (g_incoming g)" for r
    using touches_other [OF t1 k] old that d(3) by auto
  have "\<And>r. r \<in> set (g_incoming g) \<Longrightarrow> r < sc_next_row s1 \<and> \<not> rw_completed (sc_rows s1 r)"
    using in1 old n1 by (simp add: loc_row)
  then have I: "sc_pending s2 = sc_pending s1" "distinct (map fst live2)"
    "\<forall>r \<in> set (g_incoming g). in_fate s1 s2 (set (map fst live2)) r"
    using rebuild_incoming_spec [OF k1 d(2)] 2 by simp_all
  have row2: "loc s2 r = loc s1 r" if "r \<in> set (g_rows g)" for r
    using touches_other [OF t2 k1, of r] old that d(3) n1 by auto
  let ?live = "live1 @ live2"
  have sub1: "set (map fst live1) \<subseteq> set (g_rows g)" using live1 by (force dest: set_zip_rightD)
  have sub2: "set (map fst live2) \<subseteq> set (g_incoming g)" using live2 by force
  have dl: "distinct (map fst ?live)" using R(4) I(2) sub1 sub2 d(3) by auto
  have none: "(r, None) \<in> set ?live \<longleftrightarrow> r \<in> set (map fst live2)" for r using live1 live2 by force
  define s3 where "s3 = reset_saved ?live s2"
  have s3: "loc s3 r = (if r \<in> set (map fst live2) then (case loc s2 r of (row, rest) \<Rightarrow> (row\<lparr>rw_saved := None\<rparr>, rest)) else loc s2 r)" for r
    unfolding s3_def loc_reset_saved [OF dl] none ..
  have t3: "touches (set (g_rows g) \<union> set (g_incoming g)) s s3"
    unfolding s3_def using sub1 sub2
    by (intro touches_trans [OF touches_trans_mono [OF t1 t2] touches_mono [OF reset_saved_touches]]) auto
  have rf: "row_fate p s s4 g (set (map fst ?live)) (set paused) r"
    if "r \<in> set (g_rows g)" "loc s4 r = loc s2 r" for r s4
  proof -
    have "r \<in> set (map fst ?live) \<longleftrightarrow> r \<in> set (map fst live1)" using that(1) sub2 d(3) by auto
    then show ?thesis
      using R(5) that row2 row_fate_cong [where ?s1.0 = s and s = s and ?s2.0 = s4 and s' = s1
          and ?live2.0 = "set (map fst ?live)" and live = "set (map fst live1)"] by metis
  qed
  have jf: "in_fate s s2 (set (map fst ?live)) r" if "r \<in> set (g_incoming g)" for r
  proof -
    have "r \<in> set (map fst ?live) \<longleftrightarrow> r \<in> set (map fst live2)" using that sub1 d(3) by auto
    then have "in_fate s s2 (set (map fst ?live)) r = in_fate s s2 (set (map fst live2)) r"
      by (simp only: in_fate_def)
    also have "\<dots> = in_fate s1 s2 (set (map fst live2)) r"
      by (simp only: in_fate_cong [OF t1 in1 [OF that] refl refl])
    finally show ?thesis using I(3) that by blast
  qed
  have pend: "sc_pending s2 = sc_pending s @ paused" using R(1) I(1) by simp
  have static2: "rq_options (request_of s4 r) = rq_options (request_of s r)" if "touches R s s4" for R s4 r
    using touches_options [OF that] .
  have opts: "g_options g = map (\<lambda>r. rq_options (request_of s r)) (g_rows g)" if "g_rows g \<noteq> []"
    using ok that by (simp add: group_ok_def)
  consider (same) "map fst ?live = g_rows g" | (empty) "map fst ?live \<noteq> g_rows g" "?live = []"
    | (new) "map fst ?live \<noteq> g_rows g" "?live \<noteq> []" by blast
  then show ?thesis
  proof cases
    case same
    have t: "touches (set (g_rows g) \<union> set (g_incoming g)) s s2" by (rule touches_trans_mono [OF t1 t2]) auto
    have g': "g' = g\<lparr>g_incoming := []\<rparr>" "s' = s2" using rb same by (simp_all add: rebuild_def 1 2 Let_def)
    have live: "set (map fst ?live) = set (g_rows g)" using same by simp
    then have in_out: "r \<notin> set (map fst ?live)" if "r \<in> set (g_incoming g)" for r using that d(3) by auto
    have jn: "join_fate s s' g' r" if "r \<in> set (g_incoming g)" for r
      using jf [OF that] in_out [OF that] live by (auto simp: in_fate_def join_fate_def g')
    have rows: "loc s2 r = loc s r" if "r \<in> set (g_rows g)" for r
    proof -
      have "row_fate p s s2 g (set (map fst ?live)) (set paused) r" by (rule rf [OF that refl])
      moreover have "r \<in> set (map fst ?live)" using that live by simp
      ultimately show ?thesis by (auto simp: row_fate_def split: if_splits)
    qed
    have "group_ok s' g'"
      using ok rows opts static2 [OF t] t unfolding g' by (auto simp: group_ok_def loc_row touches_def)
    then show ?thesis
      using jn rf [OF _ refl] live pend R(2,3) g' by (intro exI [of _ paused]) (auto simp: slot_of_def)
  next
    case empty
    have g': "g' = g\<lparr>g_rows := [], g_incoming := [], g_states := [], g_logits := [], g_sampler := []\<rparr>" "s' = s2"
      using rb empty by (simp_all add: rebuild_def 1 2 Let_def)
    have jn: "join_fate s s' g' r" if "r \<in> set (g_incoming g)" for r
      using jf [OF that] empty by (auto simp: in_fate_def join_fate_def g' split: if_splits)
    have "set (map fst ?live) = {}" using empty by simp
    then show ?thesis
      using jn rf [OF _ refl] pend R(2,3) g' by (intro exI [of _ paused]) (simp add: group_ok_def)
  next
    case new
    define slots where "slots = map (\<lambda>(i, entry). slot_source E g s2 i entry) (zip [0..<length ?live] ?live)"
    have "rebuild E p g s = (g\<lparr>g_rows := map fst ?live, g_incoming := [],
           g_states := map fst slots, g_logits := map (fst \<circ> snd) slots, g_sampler := map (snd \<circ> snd) slots,
           g_options := map (\<lambda>r. rq_options (request_of s2 r)) (map fst ?live)\<rparr>,
         s3\<lparr>sc_seed := Suc (sc_seed s2)\<rparr>)"
      unfolding rebuild_def 1 2 Let_def prod.case if_not_P [OF new(1)] if_not_P [OF new(2)] slots_def s3_def
      by (rule refl)
    then have g': "g' = g\<lparr>g_rows := map fst ?live, g_incoming := [],
           g_states := map fst slots, g_logits := map (fst \<circ> snd) slots, g_sampler := map (snd \<circ> snd) slots,
           g_options := map (\<lambda>r. rq_options (request_of s2 r)) (map fst ?live)\<rparr>"
      and s': "s' = s3\<lparr>sc_seed := Suc (sc_seed s2)\<rparr>"
      using rb by simp_all
    have slot: "\<exists>i. slot_of g' r = Some (slot_source E g s2 i (r, old))" if "(r, old) \<in> set ?live" for r old
      by (rule slot_of_slots [OF dl that]) (simp_all add: g' slots_def)
    have rows3: "loc s3 r = loc s2 r" if "r \<in> set (g_rows g)" for r
      using s3 [of r] that sub2 d(3) by auto
    have rows: "slot_of g' r = slot_of g r \<and> loc s3 r = loc s r \<and> r \<in> set (g_rows g)" if live: "r \<in> set (map fst live1)" for r
    proof -
      obtain old where old: "(r, old) \<in> set live1" using live by auto
      then have "(r, old) \<in> (\<lambda>(slot, r). (r, Some slot)) ` set ?zip" using live1 by blast
      then obtain sl where "old = Some sl" "(sl, r) \<in> set ?zip" by auto
      then have "(r, Some sl) \<in> set live1" "(sl, r) \<in> set ?zip" using old by simp_all
      moreover from this obtain i where "slot_of g' r = Some (slot_source E g s2 i (r, Some sl))" using slot [of r "Some sl"] by auto
      moreover have r: "r \<in> set (g_rows g)" using that sub1 by auto
      moreover have "loc s3 r = loc s r"
      proof -
        have "row_fate p s s3 g (set (map fst ?live)) (set paused) r" by (rule rf [OF r rows3 [OF r]])
        then show ?thesis using that by (auto simp: row_fate_def split: if_splits)
      qed
      ultimately show ?thesis using slot_of_rows [OF ok] by (simp add: slot_source_def)
    qed
    have jn: "join_fate s s' g' r" if r: "r \<in> set (g_incoming g)" for r
    proof (cases "r \<in> set (map fst live2)")
      case True
      then have "(r, None) \<in> set ?live" using none by simp
      then obtain i where i: "slot_of g' r = Some (slot_source E g s2 i (r, None))" using slot by blast
      have "loc s2 r = loc s r" "\<not> rq_cancelled (request_of s r)" "\<not> go_max_tokens (rq_options (request_of s r)) \<le> 0"
        using jf [OF r] True by (auto simp: in_fate_def split: if_splits)
      moreover obtain row st lg rest where l: "loc s r = (row, st, lg, rest)" by (metis prod_cases4)
      ultimately have "slot_of g' r = Some (st, lg, case rw_saved row of None \<Rightarrow> be_fresh E (sc_seed s2) i | Some sp \<Rightarrow> sp)"
        "loc s3 r = (row\<lparr>rw_saved := None\<rparr>, st, lg, rest)"
        using i s3 [of r] True slot_source_incoming [of s2 r row st lg rest E g i] by simp_all
      then show ?thesis
        using True l \<open>\<not> rq_cancelled (request_of s r)\<close> \<open>\<not> go_max_tokens (rq_options (request_of s r)) \<le> 0\<close>
        by (auto simp: join_fate_def g' s')
    next
      case False
      then have "r \<notin> set (map fst ?live)" using r sub1 d(3) by auto
      moreover have "loc s3 r = loc s2 r" "rw_completed (sc_rows s3 r) = rw_completed (sc_rows s2 r)"
        using s3 [of r] False by (simp_all add: loc_row)
      ultimately show ?thesis
        using jf [OF r] by (auto simp: in_fate_def join_fate_def g' s' split: if_splits)
    qed
    have new_rows: "\<not> rw_completed (sc_rows s3 r) \<and> rw_saved (sc_rows s3 r) = None \<and> r < sc_next_row s" if "r \<in> set (map fst ?live)" for r
    proof (cases "r \<in> set (map fst live1)")
      case True
      then have "loc s3 r = loc s r" "r \<in> set (g_rows g)" using rows by auto
      then show ?thesis using ok by (auto simp: group_ok_def loc_row)
    next
      case False
      then have r: "r \<in> set (map fst live2)" "r \<in> set (g_incoming g)" using that sub2 by auto
      then have "loc s2 r = loc s r" using jf [of r] by (auto simp: in_fate_def split: if_splits)
      then have "loc s3 r = (case loc s r of (row, rest) \<Rightarrow> (row\<lparr>rw_saved := None\<rparr>, rest))" using s3 [of r] r by simp
      then have "sc_rows s3 r = (sc_rows s r)\<lparr>rw_saved := None\<rparr>" by (simp add: loc_def)
      then show ?thesis using old [of r] r by simp
    qed
    have "static (request_of s3 r) = static (request_of s2 r)" for r
      using touches_request_of [OF reset_saved_touches [of ?live s2]] by (simp add: s3_def)
    then have op: "rq_options (request_of s3 r) = rq_options (request_of s2 r)" for r by (rule static_fields(1))
    have n3: "sc_next_row s3 = sc_next_row s" using t3 by (simp add: touches_def)
    have "group_ok s' g'"
      unfolding group_ok_def
    proof (intro conjI)
      show "\<forall>r \<in> set (g_rows g' @ g_incoming g'). r < sc_next_row s' \<and> \<not> rw_completed (sc_rows s' r)"
        using new_rows n3 by (auto simp: g' s')
      show "\<forall>r \<in> set (g_rows g'). rw_saved (sc_rows s' r) = None" using new_rows by (auto simp: g' s')
    qed (use dl op in \<open>simp_all add: g' s' slots_def\<close>)
    moreover have "set (map fst ?live) \<subseteq> set (g_rows g) \<union> set (g_incoming g)" using sub1 sub2 by auto
    moreover have "row_fate p s s' g (set (g_rows g')) (set paused) r" if "r \<in> set (g_rows g)" for r
      using rf [OF that, of s'] rows3 [OF that] by (simp add: g' s')
    moreover have "slot_of g' r = slot_of g r" if "r \<in> set (g_rows g)" "r \<in> set (g_rows g')" for r
      using rows [of r] that sub2 d(3) by (auto simp: g')
    moreover have "sc_pending s' = sc_pending s @ paused"
      using pend by (simp add: s' s3_def)
    ultimately show ?thesis using jn R(2,3) by (intro exI [of _ paused]) (simp add: g')
  qed
qed

end
