(* ===== verification/SchedulerSim.thy ===== *)
theory SchedulerSim
  imports SchedulerRebuild
begin

text \<open>
  One decode step of a batch against rows decoded alone: every row of the batch moves as the
  machine \<open>solo_step\<close> that knows of no other row.
\<close>

section \<open>A row decoded alone\<close>

text \<open>
  The reference: one row with its own state, logits and sampler, stepped by itself. The sampler is
  \<open>None\<close> until the row is first packed into a batch and after it has ended.
\<close>

record ('st, 'lg, 'sp) view =
  vw_state :: 'st
  vw_logits :: 'lg
  vw_sampler :: "'sp option"
  vw_step :: nat
  vw_pending :: bytes
  vw_tail :: bytes
  vw_buffered :: nat
  vw_done :: bool
  vw_matched :: bytes
  vw_text :: bytes
  vw_reason :: string

definition solo_flush :: "bool \<Rightarrow> ('st, 'lg, 'sp) view \<Rightarrow> ('st, 'lg, 'sp) view" where
  "solo_flush final v =
     (let (out, p) = take_complete_utf8 (vw_pending v) final
      in v\<lparr>vw_pending := p, vw_buffered := 0, vw_text := vw_text v @ out\<rparr>)"

definition solo_finish :: "('st, 'lg, 'sp) view \<Rightarrow> ('st, 'lg, 'sp) view" where
  "solo_finish v = (solo_flush True v)\<lparr>vw_done := True, vw_sampler := None\<rparr>"

definition solo_token ::
    "('st, 'lg, 'sp, 'o) engine \<Rightarrow> (token \<Rightarrow> 'st \<Rightarrow> 'st \<times> 'lg) \<Rightarrow> ('st, 'lg, 'o) request \<Rightarrow> 'sp \<Rightarrow>
     ('st, 'lg, 'sp) view \<Rightarrow> ('st, 'lg, 'sp) view" where
  "solo_token E f rq sp u =
     (let opts = rq_options rq;
          (tok, sp') = be_sample E (go_sampling opts) (vw_step u) (vw_logits u) sp;
          v = u\<lparr>vw_sampler := Some sp'\<rparr>
      in
      if go_stop opts = None \<and> tok \<in> set (go_stop_tokens opts) then solo_finish (v\<lparr>vw_reason := ''stop''\<rparr>)
      else
        let (matched, tail) =
              (case go_stop opts of None \<Rightarrow> ([], vw_tail v)
               | Some _ \<Rightarrow> stop_append (rq_stops rq) (vw_tail v) (be_text E tok));
            v1 = v\<lparr>vw_step := Suc (vw_step v), vw_pending := vw_pending v @ be_text E tok,
                   vw_buffered := Suc (vw_buffered v), vw_tail := (if matched \<noteq> [] then [] else tail),
                   vw_matched := (if matched \<noteq> [] then matched else vw_matched v),
                   vw_reason := (if matched \<noteq> [] then ''stop'' else vw_reason v)\<rparr>;
            v2 = (if rq_chunk rq > 0 \<and> int (vw_buffered v1) \<ge> rq_chunk rq then solo_flush False v1 else v1);
            v3 = v2\<lparr>vw_state := fst (f tok (vw_state v2)), vw_logits := snd (f tok (vw_state v2))\<rparr>
        in if int (vw_step v3) \<ge> go_max_tokens opts \<or> vw_reason v3 = ''stop'' then solo_finish v3 else v3)"

definition solo_step ::
    "('st, 'lg, 'sp, 'o) engine \<Rightarrow> (token \<Rightarrow> 'st \<Rightarrow> 'st \<times> 'lg) \<Rightarrow> ('st, 'lg, 'o) request \<Rightarrow> 'sp \<Rightarrow>
     ('st, 'lg, 'sp) view \<Rightarrow> ('st, 'lg, 'sp) view" where
  "solo_step E f rq sp v =
     (if vw_done v then v
      else if go_max_tokens (rq_options rq) \<le> 0 then solo_finish v
      else solo_token E f rq (case vw_sampler v of Some sp' \<Rightarrow> sp' | None \<Rightarrow> sp) v)"

text \<open>What \<open>forward_decode\<close> is relied on for: it may throw, but otherwise acts row by row.\<close>

definition rowwise_decode :: "('st, 'lg, 'sp, 'o) engine \<Rightarrow> (token \<Rightarrow> 'st \<Rightarrow> 'st \<times> 'lg) \<Rightarrow> bool" where
  "rowwise_decode E f \<longleftrightarrow>
     (\<forall>toks sts r. length toks = length sts \<longrightarrow> be_decode E toks sts = Some r \<longrightarrow>
        r = (map2 (\<lambda>t st. fst (f t st)) toks sts, map2 (\<lambda>t st. snd (f t st)) toks sts))"

text \<open>A row of the scheduler as such a row: in a slot of a batch, or with its request.\<close>

definition view_of :: "('st \<times> 'lg \<times> 'sp) option \<Rightarrow> 'sp row \<times> 'st \<times> 'lg \<times> bytes \<times> bytes \<times> string \<Rightarrow> ('st, 'lg, 'sp) view" where
  "view_of slot l =
     (case l of (row, st, lg, mt, tx, rs) \<Rightarrow>
        \<lparr>vw_state = (case slot of Some (st', _, _) \<Rightarrow> st' | None \<Rightarrow> st),
         vw_logits = (case slot of Some (_, lg', _) \<Rightarrow> lg' | None \<Rightarrow> lg),
         vw_sampler = (if rw_completed row then None
                       else case slot of Some (_, _, sp) \<Rightarrow> Some sp | None \<Rightarrow> rw_saved row),
         vw_step = rw_step row, vw_pending = rw_pending row, vw_tail = rw_tail row,
         vw_buffered = rw_buffered row, vw_done = rw_completed row, vw_matched = mt, vw_text = tx,
         vw_reason = rs\<rparr>)"

lemma view_of_complete:
  "\<not> rw_completed (fst l) \<Longrightarrow>
     view_of None (loc_complete (loc_export st lg l)) = solo_finish (view_of (Some (st, lg, sp)) l)"
  by (auto simp: view_of_def loc_complete_def loc_flush_def loc_export_def solo_finish_def solo_flush_def split: prod.splits)

lemma view_of_complete_waiting:
  "\<not> rw_completed (fst l) \<Longrightarrow> view_of None (loc_complete l) = solo_finish (view_of None l)"
  by (auto simp: view_of_def loc_complete_def loc_flush_def solo_finish_def solo_flush_def split: prod.splits)

lemma view_of_pause:
  "view_of None (case loc_export st lg l of (row, rest) \<Rightarrow> (row\<lparr>rw_saved := Some sp\<rparr>, rest)) =
     view_of (Some (st, lg, sp)) l"
  by (auto simp: view_of_def loc_export_def split: prod.splits)

lemma view_of_seed:
  "\<not> rw_completed row \<Longrightarrow>
     view_of (Some (st, lg, case rw_saved row of None \<Rightarrow> new | Some sp \<Rightarrow> sp)) (row\<lparr>rw_saved := None\<rparr>, st, lg, rest) =
     (view_of None (row, st, lg, rest))
       \<lparr>vw_sampler := Some (case vw_sampler (view_of None (row, st, lg, rest)) of None \<Rightarrow> new | Some sp \<Rightarrow> sp)\<rparr>"
  by (auto simp: view_of_def split: prod.splits option.splits)

section \<open>One decode step of a batch\<close>

lemma fold_local:
  assumes "keyed s" "distinct (map k xs)" "\<And>x. x \<in> set xs \<Longrightarrow> k x < sc_next_row s"
    and "\<And>x s. touches {k x} s (h x s)"
    and "\<And>x s'. x \<in> set xs \<Longrightarrow> touches (k ` set xs) s s' \<Longrightarrow> loc s' (k x) = loc s (k x) \<Longrightarrow>
       loc (h x s') (k x) = H x (loc s (k x))"
  shows "\<forall>x \<in> set xs. loc (fold h xs s) (k x) = H x (loc s (k x))"
  using assms
proof (induction xs arbitrary: s)
  case (Cons x xs)
  have t: "touches {k x} s (h x s)" using Cons.prems(4) by blast
  then have k': "keyed (h x s)" and n: "sc_next_row (h x s) = sc_next_row s"
    using touches_keyed [OF t] Cons.prems(1) by (simp_all add: touches_def)
  have same: "loc (h x s) (k y) = loc s (k y)" if "y \<in> set xs" for y
  proof (rule touches_other [OF t Cons.prems(1)])
    show "k y \<notin> {k x}" using Cons.prems(2) imageI [OF that, of k] by auto
  qed (use Cons.prems(3) that in auto)
  have tail: "touches (set (map k ys)) s' (fold h ys s')" for ys s'
  proof (induction ys arbitrary: s')
    case (Cons y ys)
    have "touches {k y} s' (h y s')" by (rule assms(4))
    from touches_trans_mono [OF this Cons.IH [of "h y s'"], of "set (map k (y # ys))"] show ?case by auto
  qed simp
  have "\<forall>y \<in> set xs. loc (fold h xs (h x s)) (k y) = H y (loc (h x s) (k y))"
  proof (rule Cons.IH [OF k'])
    show "loc (h y s') (k y) = H y (loc (h x s) (k y))"
      if y: "y \<in> set xs" and s': "touches (k ` set xs) (h x s) s'" "loc s' (k y) = loc (h x s) (k y)" for y s'
    proof -
      have "touches (k ` set (x # xs)) s s'" by (rule touches_trans_mono [OF t s'(1)]) auto
      then show ?thesis using Cons.prems(5) [of y s'] s'(2) same [OF y] y by simp
    qed
  qed (use Cons.prems n in auto)
  moreover have "loc (fold h xs (h x s)) (k x) = loc (h x s) (k x)"
  proof (rule touches_other [OF tail k'])
    show "k x \<notin> set (map k xs)" using Cons.prems(2) by simp
  qed (use Cons.prems(3) n in auto)
  moreover have "loc (h x s) (k x) = H x (loc s (k x))" using Cons.prems(5) by simp
  ultimately show ?case using same by simp
qed simp

definition loc_mark where
  "loc_mark max_tokens l =
     (case l of (row, st, lg, mt, tx, rs) \<Rightarrow>
        (if int (rw_step row) \<ge> max_tokens \<or> rs = ''stop'' then row\<lparr>rw_finished := True\<rparr> else row, st, lg, mt, tx, rs))"

lemma keyed_valid: "keyed s \<Longrightarrow> r < sc_next_row s \<Longrightarrow> valid_row s r"
  by (simp add: keyed_def)

lemma loc_apply_tokens:
  assumes "keyed s" "distinct (map fst rts)" "\<And>r tok. (r, tok) \<in> set rts \<Longrightarrow> r < sc_next_row s"
    and "\<And>r tok. (r, tok) \<in> set rts \<Longrightarrow> \<not> rq_cancelled (request_of s r)"
    and "(r, tok) \<in> set rts"
  shows "loc (apply_tokens E rts s) r =
    loc_token E (rq_options (request_of s r)) (rq_stops (request_of s r)) (rq_chunk (request_of s r)) tok (loc s r)"
proof -
  have "\<forall>x \<in> set rts. loc (fold (\<lambda>(r, tok). apply_token E r tok) rts s) (fst x) =
      loc_token E (rq_options (request_of s (fst x))) (rq_stops (request_of s (fst x))) (rq_chunk (request_of s (fst x)))
        (snd x) (loc s (fst x))"
  proof (rule fold_local [OF assms(1,2)])
    show "touches {fst x} s' ((case x of (r, tok) \<Rightarrow> apply_token E r tok) s')" for x s'
      by (cases x) (simp add: apply_token_touches)
    show "loc ((case x of (r, tok) \<Rightarrow> apply_token E r tok) s') (fst x) =
        loc_token E (rq_options (request_of s (fst x))) (rq_stops (request_of s (fst x)))
          (rq_chunk (request_of s (fst x))) (snd x) (loc s (fst x))"
      if "x \<in> set rts" and t: "touches (fst ` set rts) s s'" and l: "loc s' (fst x) = loc s (fst x)" for x s'
    proof -
      obtain r tok where x: "x = (r, tok)" by (cases x) auto
      have "valid_row s' r" using touches_valid [OF t] keyed_valid [OF assms(1)] assms(3) that(1) x by blast
      moreover have "\<not> rq_cancelled (request_of s' r)"
        using touches_cancelled [OF t] assms(4) that(1) x by blast
      ultimately show ?thesis
        using loc_apply_token [of s' r E tok] static_fields(1-3) [OF touches_request_of [OF t, of r]] l x by simp
    qed
  qed (use assms(3) in auto)
  then show ?thesis using assms(5) by (force simp: apply_tokens_def)
qed

lemma loc_mark_finished:
  assumes "keyed s" "distinct rows" "\<And>r. r \<in> set rows \<Longrightarrow> r < sc_next_row s"
    and "\<And>r. r \<in> set rows \<Longrightarrow> \<not> rq_cancelled (request_of s r)" "r \<in> set rows"
  shows "loc (mark_finished rows s) r = loc_mark (go_max_tokens (rq_options (request_of s r))) (loc s r)"
proof -
  let ?h = "\<lambda>r s. if int (rw_step (sc_rows s r)) \<ge> go_max_tokens (rq_options (request_of s r)) \<or>
                    gs_reasons (rq_stats (request_of s r)) ! rw_index (sc_rows s r) = ''stop''
                 then upd_row r (\<lambda>row. row\<lparr>rw_finished := True\<rparr>) s else s"
  have "\<forall>r \<in> set rows. loc (fold ?h rows s) r = loc_mark (go_max_tokens (rq_options (request_of s r))) (loc s r)"
  proof (rule fold_local [where k = "\<lambda>r. r", OF assms(1)])
    show "touches {r} s' (?h r s')" for r s' by (auto intro!: upd_row_touches)
    show "loc (?h r s') r = loc_mark (go_max_tokens (rq_options (request_of s r))) (loc s r)"
      if r: "r \<in> set rows" and t: "touches ((\<lambda>r. r) ` set rows) s s'" and l: "loc s' r = loc s r" for r s'
    proof -
      have "\<not> rq_cancelled (request_of s' r)" using touches_cancelled [OF t] assms(4) r by blast
      moreover have "loc (upd_row r (\<lambda>row. row\<lparr>rw_finished := True\<rparr>) s') r =
          (case loc s' r of (row, rest) \<Rightarrow> (row\<lparr>rw_finished := True\<rparr>, rest))"
        by (rule loc_upd_row) simp_all
      ultimately show ?thesis
        unfolding l [symmetric] touches_options [OF t, of r, symmetric]
        by (simp add: loc_mark_def loc_def part_def)
    qed
  qed (use assms in auto)
  then show ?thesis using assms(5) by (simp add: mark_finished_def)
qed

text \<open>The loc-level step agrees with the row decoded alone.\<close>

lemma view_of_token:
  assumes "\<not> rw_completed row" "\<not> rw_finished row" "l = (row, st0, lg0, mt, tx, rs)"
    and "be_sample E (go_sampling (rq_options rq)) (rw_step row) lg sp = (tok, sp')"
  defines "l2 \<equiv> loc_token E (rq_options rq) (rq_stops rq) (rq_chunk rq) tok l"
  shows "if rw_finished (fst l2)
    then solo_token E f rq sp (view_of (Some (st, lg, sp)) l) = solo_finish (view_of (Some (st, lg, sp')) l2)
    else solo_token E f rq sp (view_of (Some (st, lg, sp)) l) =
      (let l4 = loc_mark (go_max_tokens (rq_options rq)) l2;
           v = view_of (Some (fst (f tok st), snd (f tok st), sp')) l4
       in if rw_finished (fst l4) then solo_finish v else v)"
proof (cases "go_stop (rq_options rq) = None \<and> tok \<in> set (go_stop_tokens (rq_options rq))")
  case True
  then show ?thesis
    using assms(1-4) by (simp add: l2_def loc_token_def solo_token_def view_of_def solo_finish_def solo_flush_def
        Let_def split: prod.splits)
next
  case False
  obtain matched tail where m: "(case go_stop (rq_options rq) of None \<Rightarrow> ([], rw_tail row)
      | Some _ \<Rightarrow> stop_append (rq_stops rq) (rw_tail row) (be_text E tok)) = (matched, tail)" by fastforce
  obtain out p where fl: "take_complete_utf8 (rw_pending row @ be_text E tok) False = (out, p)" by fastforce
  let ?flush = "rq_chunk rq > 0 \<and> int (Suc (rw_buffered row)) \<ge> rq_chunk rq"
  let ?row = "row\<lparr>rw_token := tok, rw_step := Suc (rw_step row), rw_pending := rw_pending row @ be_text E tok,
      rw_buffered := Suc (rw_buffered row), rw_tail := (if matched \<noteq> [] then [] else tail)\<rparr>"
  let ?row' = "if ?flush then ?row\<lparr>rw_pending := p, rw_buffered := 0\<rparr> else ?row"
  have l2: "l2 = (?row', st0, lg0, if matched \<noteq> [] then matched else mt, if ?flush then tx @ out else tx,
      if matched \<noteq> [] then ''stop'' else rs)"
    unfolding l2_def loc_token_def assms(3) prod.case if_not_P [OF False] m Let_def loc_flush_def using fl by simp
  let ?v = "view_of (Some (st, lg, sp)) l"
  have v: "vw_tail ?v = rw_tail row" "vw_logits ?v = lg" "vw_step ?v = rw_step row" "vw_pending ?v = rw_pending row"
    "vw_state ?v = st" "vw_matched ?v = mt" "vw_reason ?v = rs" "vw_buffered ?v = rw_buffered row" "vw_text ?v = tx"
    by (simp_all add: view_of_def assms(3))
  have w: "vw_tail (?v\<lparr>vw_sampler := Some sp'\<rparr>) = rw_tail row" "vw_step (?v\<lparr>vw_sampler := Some sp'\<rparr>) = rw_step row"
    "vw_pending (?v\<lparr>vw_sampler := Some sp'\<rparr>) = rw_pending row" "vw_matched (?v\<lparr>vw_sampler := Some sp'\<rparr>) = mt"
    "vw_reason (?v\<lparr>vw_sampler := Some sp'\<rparr>) = rs" "vw_buffered (?v\<lparr>vw_sampler := Some sp'\<rparr>) = rw_buffered row"
    by (simp_all add: v)
  have "\<not> rw_finished (fst l2)" using assms(2) l2 by simp
  moreover have "solo_token E f rq sp ?v =
      (let l4 = loc_mark (go_max_tokens (rq_options rq)) l2;
           w = view_of (Some (fst (f tok st), snd (f tok st), sp')) l4
       in if rw_finished (fst l4) then solo_finish w else w)"
    unfolding solo_token_def v assms(4) prod.case Let_def w if_not_P [OF False] m l2 loc_mark_def
    using assms(1,2) fl
    by (simp add: solo_flush_def v, simp add: view_of_def assms(3))
  ultimately show ?thesis by simp
qed

lemma loc_token_keeps:
  "rw_completed (fst (loc_token E opts ms chunk tok l)) = rw_completed (fst l)"
  "rw_saved (fst (loc_token E opts ms chunk tok l)) = rw_saved (fst l)"
  by (auto simp: loc_token_def loc_flush_def Let_def split: prod.split)

lemma loc_token_token: "rw_token (fst (loc_token E opts ms chunk tok l)) = tok"
  by (auto simp: loc_token_def loc_flush_def Let_def split: prod.split)

lemma loc_mark_keeps:
  "rw_completed (fst (loc_mark n l)) = rw_completed (fst l)" "rw_saved (fst (loc_mark n l)) = rw_saved (fst l)"
  by (auto simp: loc_mark_def split: prod.split)

lemma group_okI:
  assumes "group_ok s g" "touches R s s'" "g_incoming g' = []" "g_rows g' = g_rows g" "g_options g' = g_options g"
    and "length (g_states g') = length (g_rows g)" "length (g_logits g') = length (g_rows g)"
    and "length (g_sampler g') = length (g_rows g)"
    and "\<And>r. r \<in> set (g_rows g) \<Longrightarrow> rw_completed (sc_rows s' r) = rw_completed (sc_rows s r) \<and>
      rw_saved (sc_rows s' r) = rw_saved (sc_rows s r)"
  shows "group_ok s' g'"
  using assms touches_options [OF assms(2)] unfolding group_ok_def by (simp add: touches_def)

text \<open>Where a row of the batch is in the result of the sampling.\<close>

lemma sampled_slot:
  fixes E :: "('st, 'lg, 'sp, 'o) engine"
  assumes "group_ok s g" "i < length (g_rows g)" "r = g_rows g ! i" "slot_of g r = Some (st, lg, sp)"
  defines "sampled \<equiv> sample_rows E (g_logits g) (g_sampler g) (g_options g) (map (\<lambda>r. rw_step (sc_rows s r)) (g_rows g))"
  shows "length sampled = length (g_rows g)"
    "sampled ! i = be_sample E (go_sampling (rq_options (request_of s r))) (rw_step (sc_rows s r)) lg sp"
    "slot_of (g\<lparr>g_sampler := map snd sampled\<rparr>) r =
       Some (st, lg, snd (be_sample E (go_sampling (rq_options (request_of s r))) (rw_step (sc_rows s r)) lg sp))"
proof -
  have ok: "distinct (g_rows g)" "length (g_states g) = length (g_rows g)" "length (g_logits g) = length (g_rows g)"
    "length (g_sampler g) = length (g_rows g)" "g_options g = map (\<lambda>r. rq_options (request_of s r)) (g_rows g)"
    using assms(1,2) by (auto simp: group_ok_def)
  then show len: "length sampled = length (g_rows g)" by (simp add: sampled_def sample_rows_def)
  have slot: "(st, lg, sp) = (g_states g ! i, g_logits g ! i, g_sampler g ! i)"
    using slot_of_nth [OF ok(1-4) assms(2)] assms(3,4) by simp
  then show nth: "sampled ! i = be_sample E (go_sampling (rq_options (request_of s r))) (rw_step (sc_rows s r)) lg sp"
    using ok assms(2,3) by (simp add: sampled_def sample_rows_def)
  show "slot_of (g\<lparr>g_sampler := map snd sampled\<rparr>) r =
       Some (st, lg, snd (be_sample E (go_sampling (rq_options (request_of s r))) (rw_step (sc_rows s r)) lg sp))"
    using slot_of_nth [of "g\<lparr>g_sampler := map snd sampled\<rparr>" i] ok(1-4) assms(2,3) len nth slot by simp
qed

lemma request_solo:
  assumes "static rq = static rq'"
  shows "solo_token E f rq sp v = solo_token E f rq' sp v" "solo_step E f rq sp v = solo_step E f rq' sp v"
  unfolding solo_step_def solo_token_def static_fields(1-3) [OF assms] by (rule refl)+

lemma rebuild_settled:
  assumes "keyed s" "group_ok s g" "g_incoming g = []" "rebuild E False g s = (g', s')"
  shows "sc_pending s' = sc_pending s" "group_ok s' g'" "g_incoming g' = []"
    "set (g_rows g') \<subseteq> set (g_rows g)" "g_adapter g' = g_adapter g" "g_wkv32 g' = g_wkv32 g"
    "\<And>r. r \<in> set (g_rows g) \<Longrightarrow> row_fate False s s' g (set (g_rows g')) {} r \<and>
       (r \<in> set (g_rows g') \<longrightarrow> slot_of g' r = slot_of g r)"
proof -
  obtain paused where p: "sc_pending s' = sc_pending s @ paused" "set paused \<subseteq> set (g_rows g)"
    "\<forall>r \<in> set (g_rows g). row_fate False s s' g (set (g_rows g')) (set paused) r \<and>
       (r \<in> set (g_rows g') \<longrightarrow> slot_of g' r = slot_of g r)"
    and rest: "group_ok s' g'" "g_incoming g' = []" "set (g_rows g') \<subseteq> set (g_rows g) \<union> set (g_incoming g)"
    "g_adapter g' = g_adapter g" "g_wkv32 g' = g_wkv32 g"
    using rebuild_spec [OF assms(1,2,4)] by blast
  have "r \<notin> set paused" if "r \<in> set (g_rows g)" for r
    using p(3) that by (auto simp: row_fate_def split: if_splits)
  then have "paused = []" using p(2) by (cases paused) auto
  then show "sc_pending s' = sc_pending s" "group_ok s' g'" "g_incoming g' = []"
    "set (g_rows g') \<subseteq> set (g_rows g)" "g_adapter g' = g_adapter g" "g_wkv32 g' = g_wkv32 g"
    "\<And>r. r \<in> set (g_rows g) \<Longrightarrow> row_fate False s s' g (set (g_rows g')) {} r \<and>
       (r \<in> set (g_rows g') \<longrightarrow> slot_of g' r = slot_of g r)"
    using p rest assms(3) by auto
qed

lemma upd_pending [simp]: "sc_pending (upd_row r h s) = sc_pending s" "sc_pending (upd_request q h' s) = sc_pending s"
  by (simp_all add: upd_row_def upd_request_def)

lemma apply_token_pending [simp]: "sc_pending (apply_token E r tok s) = sc_pending s"
  by (auto simp: apply_token_def Let_def split: option.split prod.split)

lemma apply_tokens_pending [simp]: "sc_pending (apply_tokens E rts s) = sc_pending s"
  unfolding apply_tokens_def by (induction rts arbitrary: s) (auto split: prod.split)

lemma mark_finished_pending [simp]: "sc_pending (mark_finished rows s) = sc_pending s"
  unfolding mark_finished_def by (induction rows arbitrary: s) auto

lemma decode_batch_spec:
  fixes s1 :: "('st, 'lg, 'sp, 'o) sched"
  assumes k: "keyed s1" and ok: "group_ok s1 g1" and inc: "g_incoming g1 = []" and fwd: "rowwise_decode E f"
    and live: "\<forall>r \<in> set (g_rows g1). \<not> rq_cancelled (request_of s1 r) \<and> \<not> rw_finished (sc_rows s1 r)"
    and st: "decode_batch E g1 s1 = (threw, g', s')"
  shows "touches (set (g_rows g1)) s1 s' \<and> sc_pending s' = sc_pending s1 \<and> group_ok s' g' \<and> g_incoming g' = [] \<and>
    set (g_rows g') \<subseteq> set (g_rows g1) \<and> g_adapter g' = g_adapter g1 \<and> g_wkv32 g' = g_wkv32 g1 \<and>
    (\<forall>r \<in> set (g_rows g1). r \<notin> set (g_rows g') \<longrightarrow> rw_completed (sc_rows s' r)) \<and>
    (\<forall>r \<in> set (g_rows g1). \<not> threw \<or> r \<notin> set (g_rows g') \<longrightarrow>
       (r \<in> set (g_rows g') \<longrightarrow> \<not> rw_finished (sc_rows s' r) \<and>
          int (rw_step (sc_rows s' r)) < go_max_tokens (rq_options (request_of s1 r))) \<and>
       (\<forall>st lg sp. slot_of g1 r = Some (st, lg, sp) \<longrightarrow>
          view_of (slot_of g' r) (loc s' r) =
            solo_token E f (request_of s1 r) sp (view_of (Some (st, lg, sp)) (loc s1 r))))"
proof -
  define sampled where "sampled = sample_rows E (g_logits g1) (g_sampler g1) (g_options g1)
    (map (\<lambda>r. rw_step (sc_rows s1 r)) (g_rows g1))"
  define g2 where "g2 = g1\<lparr>g_sampler := map snd sampled\<rparr>"
  define s2 where "s2 = apply_tokens E (zip (g_rows g1) (map fst sampled)) s1"
  obtain g3 s3 where rb3: "rebuild E False g2 s2 = (g3, s3)" by fastforce
  have rows: "distinct (g_rows g1)" "\<And>r. r \<in> set (g_rows g1) \<Longrightarrow> r < sc_next_row s1 \<and> \<not> rw_completed (sc_rows s1 r)"
    using ok by (auto simp: group_ok_def)
  have lens: "length (g_states g1) = length (g_rows g1)" "length (g_logits g1) = length (g_rows g1)"
    "length (g_sampler g1) = length (g_rows g1)" "length sampled = length (g_rows g1)"
    using ok by (auto simp: group_ok_def sampled_def sample_rows_def)
  have t2: "touches (set (g_rows g1)) s1 s2"
    using apply_tokens_touches [of "zip (g_rows g1) (map fst sampled)" s1 E] lens(4) by (simp add: s2_def)
  let ?tok = "\<lambda>r st lg sp. be_sample E (go_sampling (rq_options (request_of s1 r))) (rw_step (sc_rows s1 r)) lg sp"
  let ?l2 = "\<lambda>r tok. loc_token E (rq_options (request_of s1 r)) (rq_stops (request_of s1 r)) (rq_chunk (request_of s1 r)) tok (loc s1 r)"
  have phase2: "slot_of g2 r = Some (st, lg, snd (?tok r st lg sp)) \<and> loc s2 r = ?l2 r (fst (?tok r st lg sp))"
    if r: "r \<in> set (g_rows g1)" and sl: "slot_of g1 r = Some (st, lg, sp)" for r st lg sp
  proof -
    obtain i where i: "i < length (g_rows g1)" "g_rows g1 ! i = r" using r by (auto simp: in_set_conv_nth)
    note sm = sampled_slot [OF ok i(1) i(2) [symmetric] sl, of E, folded sampled_def g2_def]
    have "(r, fst (sampled ! i)) \<in> set (zip (g_rows g1) (map fst sampled))"
      using i lens(4) by (auto simp: in_set_zip)
    then have "loc s2 r = ?l2 r (fst (sampled ! i))"
      unfolding s2_def
      by (intro loc_apply_tokens [OF k]) (use rows live lens(4) in \<open>auto dest: set_zip_leftD\<close>)
    then show ?thesis using sm by simp
  qed
  have slots: "\<exists>st lg sp. slot_of g1 r = Some (st, lg, sp)" if "r \<in> set (g_rows g1)" for r
    using slot_of_nth [OF rows(1) lens(1-3)] that by (auto simp: in_set_conv_nth)
  have ok2: "group_ok s2 g2"
  proof (rule group_okI [OF ok t2])
    show "rw_completed (sc_rows s2 r) = rw_completed (sc_rows s1 r) \<and> rw_saved (sc_rows s2 r) = rw_saved (sc_rows s1 r)"
      if "r \<in> set (g_rows g1)" for r
      using slots [OF that] phase2 [OF that] by (auto simp: loc_row [of s2] loc_token_keeps) (simp_all add: loc_def)
  qed (use inc lens in \<open>simp_all add: g2_def\<close>)
  have k2: "keyed s2" using touches_keyed [OF t2] k by simp
  have g2: "g_rows g2 = g_rows g1" "g_incoming g2 = []" "g_adapter g2 = g_adapter g1" "g_wkv32 g2 = g_wkv32 g1"
    using inc by (simp_all add: g2_def)
  have c2: "\<not> rq_cancelled (request_of s2 r)" if "r \<in> set (g_rows g1)" for r
    using touches_cancelled [OF t2] live that by simp
  note r3 = rebuild_settled [OF k2 ok2 g2(2) rb3, unfolded g2]
  have t3: "touches (set (g_rows g1)) s1 s3"
    using touches_trans [OF t2] rebuild_touches [OF rb3] g2 by simp
  have pend2: "sc_pending s2 = sc_pending s1" by (simp add: s2_def)
  have gone: "view_of None (loc s3 r) = solo_token E f (request_of s1 r) sp (view_of (Some (st, lg, sp)) (loc s1 r)) \<and>
      rw_completed (sc_rows s3 r)"
    if r: "r \<in> set (g_rows g1)" "r \<notin> set (g_rows g3)" and sl: "slot_of g1 r = Some (st, lg, sp)" for r st lg sp
  proof -
    obtain row st0 lg0 mt tx rs where l: "loc s1 r = (row, st0, lg0, mt, tx, rs)" by (metis prod_cases6)
    then have row: "row = sc_rows s1 r" by (simp add: loc_def)
    obtain tok sp' where tk: "?tok r st lg sp = (tok, sp')" by fastforce
    note p2 = phase2 [OF r(1) sl, unfolded tk]
    have "rw_finished (fst (?l2 r tok)) \<and> loc s3 r = loc_complete (loc_export st lg (?l2 r tok))"
      using r3(7) [OF r(1)] p2 c2 [OF r(1)] r(2) by (auto simp: row_fate_def loc_row [of s2] split: if_splits)
    moreover have "\<not> rw_completed (fst (?l2 r tok))" using rows(2) [OF r(1)] by (simp add: loc_token_keeps loc_row)
    ultimately show ?thesis
      using view_of_token [OF _ _ l, where rq = "request_of s1 r" and f = f and st = st and lg = lg and sp = sp and E = E and tok = tok and sp' = sp'] tk row
        view_of_complete [of "?l2 r tok" st lg sp'] live r(1) rows(2) [OF r(1)] l
      by (simp add: loc_row [of s3] loc_complete_completed)
  qed
  have gone3: "rw_completed (sc_rows s3 r)"
    "slot_of g1 r = Some (st, lg, sp) \<Longrightarrow> view_of (slot_of g3 r) (loc s3 r) =
       solo_token E f (request_of s1 r) sp (view_of (Some (st, lg, sp)) (loc s1 r))"
    if "r \<in> set (g_rows g1)" "r \<notin> set (g_rows g3)" for r st lg sp
    using gone [OF that] slots [OF that(1)] slot_of_None [OF that(2)] by auto
  have threw_or_empty: "\<forall>r \<in> set (g_rows g1). \<not> threw \<or> r \<notin> set (g_rows g3) \<longrightarrow>
       (r \<in> set (g_rows g3) \<longrightarrow> \<not> rw_finished (sc_rows s3 r) \<and>
          int (rw_step (sc_rows s3 r)) < go_max_tokens (rq_options (request_of s1 r))) \<and>
       (\<forall>st lg sp. slot_of g1 r = Some (st, lg, sp) \<longrightarrow>
          view_of (slot_of g3 r) (loc s3 r) =
            solo_token E f (request_of s1 r) sp (view_of (Some (st, lg, sp)) (loc s1 r)))"
    if "threw \<or> g_rows g3 = []"
    using that gone3(2) by auto
  have first3: "touches (set (g_rows g1)) s1 s3 \<and> sc_pending s3 = sc_pending s1 \<and> group_ok s3 g3 \<and> g_incoming g3 = [] \<and>
    set (g_rows g3) \<subseteq> set (g_rows g1) \<and> g_adapter g3 = g_adapter g1 \<and> g_wkv32 g3 = g_wkv32 g1 \<and>
    (\<forall>r \<in> set (g_rows g1). r \<notin> set (g_rows g3) \<longrightarrow> rw_completed (sc_rows s3 r))"
    using t3 r3(1-6) pend2 gone3(1) by auto
  show ?thesis
  proof (cases "g_rows g3 = []")
    case True
    have "decode_batch E g1 s1 = (False, g3, s3)"
      using True unfolding decode_batch_def Let_def sampled_def [symmetric] g2_def [symmetric] s2_def [symmetric] rb3
      by simp
    then have res: "threw = False" "g' = g3" "s' = s3" using st by simp_all
    show ?thesis
      using first3 threw_or_empty True unfolding res by blast
  next
    case False
    have len3: "length (g_states g3) = length (g_rows g3)" "length (g_logits g3) = length (g_rows g3)"
      "length (g_sampler g3) = length (g_rows g3)" "distinct (g_rows g3)"
      using r3(2) by (auto simp: group_ok_def)
    let ?toks = "map (\<lambda>r. rw_token (sc_rows s3 r)) (g_rows g3)"
    have unfold: "decode_batch E g1 s1 = (case be_decode E ?toks (g_states g3) of
         None \<Rightarrow> (True, g3, s3)
       | Some (states, logits) \<Rightarrow>
           let (g4, s4) = rebuild E False (g3\<lparr>g_states := states, g_logits := logits\<rparr>) (mark_finished (g_rows g3) s3)
           in (False, g4, s4))"
      using False unfolding decode_batch_def Let_def sampled_def [symmetric] g2_def [symmetric] s2_def [symmetric] rb3
      by simp
    show ?thesis
    proof (cases "be_decode E ?toks (g_states g3)")
      case None
      then have res: "threw = True" "g' = g3" "s' = s3" using st unfold by simp_all
      show ?thesis using first3 threw_or_empty unfolding res by blast
    next
      case (Some sl)
      obtain states logits where sl: "sl = (states, logits)" by (cases sl)
      define h3 where "h3 = g3\<lparr>g_states := states, g_logits := logits\<rparr>"
      define u3 where "u3 = mark_finished (g_rows g3) s3"
      obtain g4 s4 where rb4: "rebuild E False h3 u3 = (g4, s4)" by fastforce
      have res: "threw = False" "g' = g4" "s' = s4"
        using st unfold Some sl rb4 by (simp_all add: h3_def u3_def)
      have dec: "states = map2 (\<lambda>t st. fst (f t st)) ?toks (g_states g3)" "logits = map2 (\<lambda>t st. snd (f t st)) ?toks (g_states g3)"
        using fwd Some sl len3(1) unfolding rowwise_decode_def by auto
      have tu: "touches (set (g_rows g3)) s3 u3" unfolding u3_def by (rule mark_finished_touches)
      have k3: "keyed s3" "keyed u3" using touches_keyed [OF t3] touches_keyed [OF tu] k by simp_all
      have n3: "sc_next_row s3 = sc_next_row s1" using t3 by (simp add: touches_def)
      have in3: "r < sc_next_row s3 \<and> \<not> rq_cancelled (request_of s3 r)" if "r \<in> set (g_rows g3)" for r
        using that r3(4) rows(2) n3 live touches_cancelled [OF t3] by auto
      have mark: "loc u3 r = loc_mark (go_max_tokens (rq_options (request_of s1 r))) (loc s3 r)" if "r \<in> set (g_rows g3)" for r
        using loc_mark_finished [OF k3(1) len3(4) _ _ that] in3 touches_options [OF t3] by (simp add: u3_def)
      have ok4: "group_ok u3 h3"
      proof (rule group_okI [OF r3(2) tu])
        show "rw_completed (sc_rows u3 r) = rw_completed (sc_rows s3 r) \<and> rw_saved (sc_rows u3 r) = rw_saved (sc_rows s3 r)"
          if "r \<in> set (g_rows g3)" for r
          using mark [OF that] by (simp add: loc_row loc_mark_keeps)
      qed (use len3 dec r3(3) in \<open>simp_all add: h3_def\<close>)
      have h3: "g_rows h3 = g_rows g3" "g_incoming h3 = []" "g_adapter h3 = g_adapter g1" "g_wkv32 h3 = g_wkv32 g1"
        using r3 by (simp_all add: h3_def)
      note r4 = rebuild_settled [OF k3(2) ok4 h3(2) rb4, unfolded h3]
      have t4: "touches (set (g_rows g3)) s3 s4"
        using touches_trans [OF tu] rebuild_touches [OF rb4] h3 by simp
      have t4': "touches (set (g_rows g1)) s1 s4"
        using touches_trans [OF t3 touches_mono [OF t4 r3(4)]] .
      have stay: "view_of (slot_of g4 r) (loc s4 r) = solo_token E f (request_of s1 r) sp (view_of (Some (st, lg, sp)) (loc s1 r)) \<and>
          (if r \<in> set (g_rows g4) then \<not> rw_finished (sc_rows s4 r) \<and>
             int (rw_step (sc_rows s4 r)) < go_max_tokens (rq_options (request_of s1 r)) else rw_completed (sc_rows s4 r))"
        if r: "r \<in> set (g_rows g3)" and sl: "slot_of g1 r = Some (st, lg, sp)" for r st lg sp
      proof -
        have r1: "r \<in> set (g_rows g1)" using r r3(4) by auto
        obtain row st0 lg0 mt tx rs where l: "loc s1 r = (row, st0, lg0, mt, tx, rs)" by (metis prod_cases6)
        then have row: "row = sc_rows s1 r" by (simp add: loc_def)
        obtain tok sp' where tk: "?tok r st lg sp = (tok, sp')" by fastforce
        note p2 = phase2 [OF r1 sl, unfolded tk]
        let ?l4 = "loc_mark (go_max_tokens (rq_options (request_of s1 r))) (?l2 r tok)"
        have s3r: "\<not> rw_finished (fst (?l2 r tok))" "loc s3 r = ?l2 r tok" "slot_of g3 r = Some (st, lg, sp')"
          using r3(7) [OF r1] p2 c2 [OF r1] r by (auto simp: row_fate_def loc_row [of s2] split: if_splits)
        have tok: "rw_token (sc_rows s3 r) = tok" using s3r(2) by (simp add: loc_row loc_token_token)
        obtain i where i: "i < length (g_rows g3)" "g_rows g3 ! i = r" using r by (auto simp: in_set_conv_nth)
        have "g_states g3 ! i = st \<and> g_sampler g3 ! i = sp'"
          using slot_of_nth [OF len3(4,1-3) i(1)] s3r(3) i(2) by simp
        then have slot: "slot_of h3 r = Some (fst (f tok st), snd (f tok st), sp')"
          using slot_of_nth [of h3 i] len3 i dec tok by (simp add: h3_def)
        have l4: "loc u3 r = ?l4" using mark [OF r] s3r(2) by simp
        have nc: "\<not> rq_cancelled (request_of u3 r)" using touches_cancelled [OF tu] in3 [OF r] by simp
        have cm: "\<not> rw_completed (fst ?l4)" using rows(2) [OF r1] by (simp add: loc_mark_keeps loc_token_keeps loc_row)
        have solo: "solo_token E f (request_of s1 r) sp (view_of (Some (st, lg, sp)) (loc s1 r)) =
            (let v = view_of (Some (fst (f tok st), snd (f tok st), sp')) ?l4
             in if rw_finished (fst ?l4) then solo_finish v else v)"
          using view_of_token [OF _ _ l, where rq = "request_of s1 r" and f = f and st = st and lg = lg and sp = sp and E = E
              and tok = tok and sp' = sp'] tk row live r1 rows(2) [OF r1] l s3r(1) by (simp add: Let_def)
        show ?thesis
        proof (cases "rw_finished (fst ?l4)")
          case True
          then have "loc s4 r = loc_complete (loc_export (fst (f tok st)) (snd (f tok st)) ?l4)" "r \<notin> set (g_rows g4)"
            using r4(7) [OF r] slot l4 nc by (auto simp: row_fate_def loc_row [of u3] split: if_splits)
          then show ?thesis
            using solo True view_of_complete [OF cm] slot_of_None [of r g4]
            by (simp add: Let_def loc_row [of s4] loc_complete_completed)
        next
          case False
          then have s4: "loc s4 r = ?l4" "r \<in> set (g_rows g4)" "slot_of g4 r = slot_of h3 r"
            using r4(7) [OF r] slot l4 nc by (auto simp: row_fate_def loc_row [of u3] split: if_splits)
          have "int (rw_step (fst ?l4)) < go_max_tokens (rq_options (request_of s1 r))"
            using False by (auto simp: loc_mark_def split: prod.splits if_splits)
          then show ?thesis using solo False s4 slot by (simp add: Let_def loc_row [of s4])
        qed
      qed
      have keep: "loc s4 r = loc s3 r \<and> slot_of g4 r = None" if "r \<in> set (g_rows g1)" "r \<notin> set (g_rows g3)" for r
        using touches_other [OF t4 k3(1) _ _ that(2)] in3 rows(2) [OF that(1)] n3 r4(4) that(2) slot_of_None [of r g4] by auto
      have pend4: "sc_pending s4 = sc_pending s1" using r4(1) r3(1) pend2 by (simp add: u3_def)
      have old: "r \<in> set (g_rows g1)" if "r \<in> set (g_rows g4)" for r using that r4(4) r3(4) by auto
      have final: "(r \<notin> set (g_rows g4) \<longrightarrow> rw_completed (sc_rows s4 r)) \<and>
          (r \<in> set (g_rows g4) \<longrightarrow> \<not> rw_finished (sc_rows s4 r) \<and>
             int (rw_step (sc_rows s4 r)) < go_max_tokens (rq_options (request_of s1 r))) \<and>
          (\<forall>st lg sp. slot_of g1 r = Some (st, lg, sp) \<longrightarrow>
             view_of (slot_of g4 r) (loc s4 r) = solo_token E f (request_of s1 r) sp (view_of (Some (st, lg, sp)) (loc s1 r)))"
        if r: "r \<in> set (g_rows g1)" for r
      proof (cases "r \<in> set (g_rows g3)")
        case True
        then show ?thesis using stay [OF True] slots [OF r] by (auto split: if_splits)
      next
        case False
        then have "r \<notin> set (g_rows g4)" using r4(4) by auto
        moreover have "rw_completed (sc_rows s4 r)" if "rw_completed (sc_rows s3 r)"
          using keep [OF r False] that by (simp add: loc_row)
        ultimately show ?thesis using keep [OF r False] gone [OF r False] slots [OF r] by auto
      qed
      show ?thesis
        unfolding res using t4' r4(2,3,5,6) pend4 old final by blast
    qed
  qed
qed

text \<open>\<open>solo_token\<close> is given the sampler state, so that of the row does not matter.\<close>

lemma solo_token_sampler: "solo_token E f rq sp (v\<lparr>vw_sampler := x\<rparr>) = solo_token E f rq sp v"
proof -
  have "(v\<lparr>vw_sampler := x\<rparr>)\<lparr>vw_sampler := y\<rparr> = v\<lparr>vw_sampler := y\<rparr>" "vw_step (v\<lparr>vw_sampler := x\<rparr>) = vw_step v"
    "vw_logits (v\<lparr>vw_sampler := x\<rparr>) = vw_logits v" for y by simp_all
  then show ?thesis by (simp only: solo_token_def)
qed

definition view_in where
  "view_in g s r = view_of (slot_of g r) (loc s r)"

lemma group_step_spec:
  fixes s :: "('st, 'lg, 'sp, 'o) sched"
  assumes k: "keyed s" and ok: "group_ok s g" and fwd: "rowwise_decode E f"
    and fresh: "\<And>r. r \<in> set (g_rows g @ g_incoming g) \<Longrightarrow> \<not> rw_finished (sc_rows s r)"
    and pos: "\<And>r. r \<in> set (g_rows g) \<Longrightarrow> 0 < go_max_tokens (rq_options (request_of s r))"
    and st: "group_step E g s = (threw, g', s')"
  shows "\<exists>paused. sc_pending s' = sc_pending s @ paused \<and> distinct paused \<and>
    set paused \<subseteq> set (g_rows g) - set (g_rows g') \<and>
    touches (set (g_rows g) \<union> set (g_incoming g)) s s' \<and> group_ok s' g' \<and> g_incoming g' = [] \<and>
    set (g_rows g') \<subseteq> set (g_rows g) \<union> set (g_incoming g) \<and> g_adapter g' = g_adapter g \<and> g_wkv32 g' = g_wkv32 g \<and>
    (\<forall>r \<in> set (g_rows g) \<union> set (g_incoming g).
       (r \<in> set (g_rows g') \<longrightarrow> 0 < go_max_tokens (rq_options (request_of s r)) \<and> \<not> rq_cancelled (request_of s r)) \<and>
       (r \<in> set paused \<longrightarrow> \<not> rw_completed (sc_rows s' r) \<and> \<not> rw_finished (sc_rows s' r)) \<and>
       (r \<notin> set (g_rows g') \<and> r \<notin> set paused \<longrightarrow> rw_completed (sc_rows s' r)) \<and>
       (\<not> threw \<or> r \<notin> set (g_rows g') \<longrightarrow> (r \<in> set (g_rows g') \<longrightarrow> \<not> rw_finished (sc_rows s' r) \<and>
                       int (rw_step (sc_rows s' r)) < go_max_tokens (rq_options (request_of s r))) \<and>
         (\<not> rq_cancelled (request_of s r) \<longrightarrow>
           (if r \<in> set paused then view_in g' s' r = view_in g s r
            else \<exists>sp. view_in g' s' r = solo_step E f (request_of s r) sp (view_in g s r)))))"
proof -
  obtain g1 s1 where rb: "rebuild E True g s = (g1, s1)" by fastforce
  obtain paused where p: "sc_pending s1 = sc_pending s @ paused" "distinct paused" "set paused \<subseteq> set (g_rows g)"
    "group_ok s1 g1" "g_incoming g1 = []" "set (g_rows g1) \<subseteq> set (g_rows g) \<union> set (g_incoming g)"
    "g_adapter g1 = g_adapter g" "g_wkv32 g1 = g_wkv32 g"
    "\<And>r. r \<in> set (g_rows g) \<Longrightarrow> row_fate True s s1 g (set (g_rows g1)) (set paused) r \<and>
       (r \<in> set (g_rows g1) \<longrightarrow> slot_of g1 r = slot_of g r)"
    "\<And>r. r \<in> set (g_incoming g) \<Longrightarrow> join_fate s s1 g1 r"
    using rebuild_spec [OF k ok rb] by blast
  have t1: "touches (set (g_rows g) \<union> set (g_incoming g)) s s1" by (rule rebuild_touches [OF rb])
  have k1: "keyed s1" using touches_keyed [OF t1] k by simp
  have old: "r < sc_next_row s" "\<not> rw_completed (sc_rows s r)" "\<not> rw_completed (fst (loc s r))"
    if "r \<in> set (g_rows g) \<union> set (g_incoming g)" for r
    using ok that by (auto simp: group_ok_def loc_row)
  have disj: "set (g_rows g) \<inter> set (g_incoming g) = {}" using ok by (auto simp: group_ok_def)
  let ?V = "view_in g s"
  have live: "\<not> rq_cancelled (request_of s r) \<and> \<not> rw_finished (sc_rows s1 r) \<and> 0 < go_max_tokens (rq_options (request_of s r)) \<and>
      (\<exists>st lg sp new. slot_of g1 r = Some (st, lg, sp) \<and>
         solo_step E f (request_of s r) new (?V r) = solo_token E f (request_of s r) sp (view_of (Some (st, lg, sp)) (loc s1 r)))"
    if r: "r \<in> set (g_rows g1)" for r
  proof (cases "r \<in> set (g_rows g)")
    case True
    obtain st lg sp where sl: "slot_of g r = Some (st, lg, sp)" "loc s1 r = loc s r" "\<not> rq_cancelled (request_of s r)"
      using p(9) [OF True] r by (auto simp: row_fate_def split: if_splits)
    have "\<not> vw_done (?V r)" "vw_sampler (?V r) = Some sp"
      using old [of r] True sl(1) by (auto simp: view_in_def view_of_def split: prod.splits)
    then have "solo_step E f (request_of s r) sp (?V r) = solo_token E f (request_of s r) sp (view_of (Some (st, lg, sp)) (loc s1 r))"
      using pos [OF True] sl by (simp add: solo_step_def view_in_def)
    then show ?thesis using p(9) [OF True] r sl fresh [of r] pos [OF True] True by (auto simp: loc_row)
  next
    case False
    then have inc: "r \<in> set (g_incoming g)" using r p(6) by auto
    obtain row st lg rest where l: "loc s r = (row, st, lg, rest)" by (metis prod_cases4)
    obtain new where n: "slot_of g1 r = Some (st, lg, case rw_saved row of None \<Rightarrow> new | Some sp \<Rightarrow> sp)"
      "loc s1 r = (row\<lparr>rw_saved := None\<rparr>, st, lg, rest)" "\<not> rq_cancelled (request_of s r)"
      "0 < go_max_tokens (rq_options (request_of s r))"
      using p(10) [OF inc] r l by (auto simp: join_fate_def split: if_splits)
    have c: "\<not> rw_completed row" using old [of r] inc l by simp
    have v: "?V r = view_of None (row, st, lg, rest)" using slot_of_None [OF False] l by (simp add: view_in_def)
    have "vw_sampler (?V r) = rw_saved row" "\<not> vw_done (?V r)" using c by (simp_all add: v view_of_def split: prod.splits)
    then have "solo_step E f (request_of s r) new (?V r) =
        solo_token E f (request_of s r) (case rw_saved row of None \<Rightarrow> new | Some sp \<Rightarrow> sp)
          (view_of (Some (st, lg, case rw_saved row of None \<Rightarrow> new | Some sp \<Rightarrow> sp)) (loc s1 r))"
      unfolding n(2) view_of_seed [OF c] solo_token_sampler v [symmetric] using n(4)
      by (simp add: solo_step_def split: option.split)
    moreover have "\<not> rw_finished (sc_rows s1 r)" using fresh [of r] inc l n(2) by (simp add: loc_def)
    ultimately show ?thesis using n by blast
  qed
  have pz: "\<not> rw_completed (sc_rows s1 r) \<and> \<not> rw_finished (sc_rows s1 r) \<and> view_of None (loc s1 r) = ?V r \<and> r \<notin> set (g_rows g1)"
    if r: "r \<in> set paused" for r
  proof -
    have rg: "r \<in> set (g_rows g)" using r p(3) by auto
    obtain st lg sp where sl: "slot_of g r = Some (st, lg, sp)" "r \<notin> set (g_rows g1)"
      "loc s1 r = (case loc_export st lg (loc s r) of (row, rest) \<Rightarrow> (row\<lparr>rw_saved := Some sp\<rparr>, rest))"
      using p(9) [OF rg] r by (auto simp: row_fate_def split: if_splits)
    then have "view_of None (loc s1 r) = ?V r" by (simp only: view_of_pause view_in_def)
    moreover have "rw_completed (sc_rows s1 r) = rw_completed (sc_rows s r)" "rw_finished (sc_rows s1 r) = rw_finished (sc_rows s r)"
      using sl(3) by (auto simp: loc_row loc_export_def split: prod.splits)
    ultimately show ?thesis using sl(2) old [of r] fresh [of r] rg by auto
  qed
  have out: "rw_completed (sc_rows s1 r) \<and> (\<not> rq_cancelled (request_of s r) \<longrightarrow>
      (\<exists>sp. view_of None (loc s1 r) = solo_step E f (request_of s r) sp (?V r)))"
    if r: "r \<in> set (g_rows g) \<union> set (g_incoming g)" "r \<notin> set (g_rows g1)" "r \<notin> set paused" for r
  proof (cases "r \<in> set (g_rows g)")
    case True
    then show ?thesis using p(9) [OF True] r fresh [of r] by (auto simp: row_fate_def split: if_splits)
  next
    case False
    then have inc: "r \<in> set (g_incoming g)" using r by auto
    have v: "?V r = view_of None (loc s r)" using slot_of_None [OF False] by (simp add: view_in_def)
    have "\<not> vw_done (?V r)" using old [of r] inc by (auto simp: v view_of_def split: prod.splits)
    then show ?thesis
      using p(10) [OF inc] r(2) view_of_complete_waiting [of "loc s r"] old [of r] inc v
      by (auto simp: join_fate_def solo_step_def loc_row [of s1] loc_complete_completed split: if_splits)
  qed
  show ?thesis
  proof (cases "g_rows g1 = []")
    case True
    have res: "threw = False" "g' = g1" "s' = s1" using st rb True by (simp_all add: group_step_def)
    show ?thesis
      unfolding res using p(1-8) t1 pz out True slot_of_None [of _ g1]
      by (intro exI [of _ paused]) (auto simp: view_in_def)
  next
    case False
    have db: "decode_batch E g1 s1 = (threw, g', s')" using st rb False by (simp add: group_step_def)
    have lv: "\<forall>r \<in> set (g_rows g1). \<not> rq_cancelled (request_of s1 r) \<and> \<not> rw_finished (sc_rows s1 r)"
      using live touches_cancelled [OF t1] by auto
    note D = decode_batch_spec [OF k1 p(4,5) fwd lv db]
    have td: "touches (set (g_rows g1)) s1 s'" using D by blast
    have n1: "sc_next_row s1 = sc_next_row s" using t1 by (simp add: touches_def)
    have same: "loc s' r = loc s1 r" if "r \<in> set (g_rows g) \<union> set (g_incoming g)" "r \<notin> set (g_rows g1)" for r
    proof (rule touches_other [OF td k1 _ _ that(2)])
      show "set (g_rows g1) \<subseteq> {..<sc_next_row s1}" using p(6) old(1) n1 by auto
    qed (use old(1) that(1) n1 in simp)
    have sub: "set (g_rows g') \<subseteq> set (g_rows g1)" using D by blast
    have dp: "set paused \<inter> set (g_rows g1) = {}" using pz by auto
    have t: "touches (set (g_rows g) \<union> set (g_incoming g)) s s'"
      by (rule touches_trans [OF t1 touches_mono [OF td p(6)]])
    have each: "(r \<in> set (g_rows g') \<longrightarrow> 0 < go_max_tokens (rq_options (request_of s r)) \<and> \<not> rq_cancelled (request_of s r)) \<and>
       (r \<in> set paused \<longrightarrow> \<not> rw_completed (sc_rows s' r) \<and> \<not> rw_finished (sc_rows s' r)) \<and>
       (r \<notin> set (g_rows g') \<and> r \<notin> set paused \<longrightarrow> rw_completed (sc_rows s' r)) \<and>
       (\<not> threw \<or> r \<notin> set (g_rows g') \<longrightarrow> (r \<in> set (g_rows g') \<longrightarrow> \<not> rw_finished (sc_rows s' r) \<and>
                       int (rw_step (sc_rows s' r)) < go_max_tokens (rq_options (request_of s r))) \<and>
         (\<not> rq_cancelled (request_of s r) \<longrightarrow>
           (if r \<in> set paused then view_in g' s' r = ?V r
            else \<exists>sp. view_in g' s' r = solo_step E f (request_of s r) sp (?V r))))"
      if r: "r \<in> set (g_rows g) \<union> set (g_incoming g)" for r
    proof (cases "r \<in> set (g_rows g1)")
      case True
      obtain st lg sp new where sl: "slot_of g1 r = Some (st, lg, sp)"
        "solo_step E f (request_of s r) new (?V r) = solo_token E f (request_of s r) sp (view_of (Some (st, lg, sp)) (loc s1 r))"
        using live [OF True] by blast
      note rs = request_solo(1) [OF touches_request_of [OF t1, of r]]
      have "view_in g' s' r = solo_step E f (request_of s r) new (?V r)" if "\<not> threw \<or> r \<notin> set (g_rows g')"
        using D True sl that by (simp add: view_in_def rs)
      moreover have "rq_options (request_of s1 r) = rq_options (request_of s r)" by (rule touches_options [OF t1])
      ultimately show ?thesis using D True live [OF True] dp by auto
    next
      case False
      then have "r \<notin> set (g_rows g')" using sub by auto
      then have "view_in g' s' r = view_of None (loc s1 r)" "sc_rows s' r = sc_rows s1 r"
        using same [OF r False] slot_of_None [of r g'] by (simp_all add: view_in_def loc_row)
      then show ?thesis using \<open>r \<notin> set (g_rows g')\<close> pz [of r] out [OF r False] by auto
    qed
    show ?thesis
    proof (intro exI [of _ paused] conjI)
      show "sc_pending s' = sc_pending s @ paused" using D p(1) by simp
      show "set paused \<subseteq> set (g_rows g) - set (g_rows g')" using p(3) dp sub by auto
      show "set (g_rows g') \<subseteq> set (g_rows g) \<union> set (g_incoming g)" using sub p(6) by auto
      show "\<forall>r \<in> set (g_rows g) \<union> set (g_incoming g).
       (r \<in> set (g_rows g') \<longrightarrow> 0 < go_max_tokens (rq_options (request_of s r)) \<and> \<not> rq_cancelled (request_of s r)) \<and>
       (r \<in> set paused \<longrightarrow> \<not> rw_completed (sc_rows s' r) \<and> \<not> rw_finished (sc_rows s' r)) \<and>
       (r \<notin> set (g_rows g') \<and> r \<notin> set paused \<longrightarrow> rw_completed (sc_rows s' r)) \<and>
       (\<not> threw \<or> r \<notin> set (g_rows g') \<longrightarrow> (r \<in> set (g_rows g') \<longrightarrow> \<not> rw_finished (sc_rows s' r) \<and>
                       int (rw_step (sc_rows s' r)) < go_max_tokens (rq_options (request_of s r))) \<and>
         (\<not> rq_cancelled (request_of s r) \<longrightarrow>
           (if r \<in> set paused then view_in g' s' r = ?V r
            else \<exists>sp. view_in g' s' r = solo_step E f (request_of s r) sp (?V r))))"
        using each by (intro ballI)
      show "group_ok s' g'" "g_incoming g' = []" "g_adapter g' = g_adapter g" "g_wkv32 g' = g_wkv32 g"
        using D p(7,8) by simp_all
    qed (rule p(2) t)+
  qed
qed

end
