(* ===== verification/SchedulerLoop.thy ===== *)
theory SchedulerLoop
  imports SchedulerSim
begin

text \<open>
  The owner loop and the request side: the invariant of the scheduler, preserved by every
  submission, drain, cancellation and sweep, and the theorems about whole runs.
\<close>

section \<open>Effects that may cancel requests\<close>

text \<open>
  As \<open>touches\<close>, for operations that may also set a request's \<open>cancelled\<close> flag: the parts of a
  request are then only kept while it is not cancelled.
\<close>

definition fixed :: "('st, 'lg, 'o) request \<Rightarrow> _" where
  "fixed rq =
     ((rq_options rq, rq_stops rq, rq_chunk rq, rq_notify rq, rq_adapter rq, rq_wkv32 rq),
      length (rq_states rq), length (rq_logits rq),
      length (gs_reasons (rq_stats rq)), length (gs_matched (rq_stats rq)))"

definition mild :: "nat set \<Rightarrow> ('st, 'lg, 'sp, 'o) sched \<Rightarrow> ('st, 'lg, 'sp, 'o) sched \<Rightarrow> bool" where
  "mild R s s' \<longleftrightarrow>
     (\<forall>r. r \<notin> R \<longrightarrow> sc_rows s' r = sc_rows s r) \<and>
     (\<forall>r. key s' r = key s r) \<and>
     (\<forall>r. rw_completed (sc_rows s r) \<longrightarrow> rw_completed (sc_rows s' r)) \<and>
     (\<forall>q. fixed (sc_requests s' q) = fixed (sc_requests s q)) \<and>
     (\<forall>q. rq_cancelled (sc_requests s q) \<longrightarrow> rq_cancelled (sc_requests s' q)) \<and>
     (\<forall>q j. \<not> rq_cancelled (sc_requests s' q) \<longrightarrow> (\<forall>r \<in> R. key s r \<noteq> (q, j)) \<longrightarrow>
        part (sc_requests s' q) j = part (sc_requests s q) j) \<and>
     (\<forall>q. done_ok (sc_requests s q) \<longrightarrow> done_ok (sc_requests s' q)) \<and>
     (R \<subseteq> {..<sc_next_row s} \<longrightarrow> (\<forall>q. balance s' q = balance s q)) \<and>
     sc_incoming s' = sc_incoming s \<and>
     sc_next_request s' = sc_next_request s \<and> sc_next_row s' = sc_next_row s \<and>
     sc_max_rows s' = sc_max_rows s \<and> sc_stopping s' = sc_stopping s"

lemma mild_refl [simp]: "mild R s s"
  by (simp add: mild_def)

lemma mild_trans: "mild R s s' \<Longrightarrow> mild R s' s'' \<Longrightarrow> mild R s s''"
  unfolding mild_def by (intro conjI; simp; metis)

lemma mild_mono: "mild R s s' \<Longrightarrow> R \<subseteq> R' \<Longrightarrow> mild R' s s'"
  unfolding mild_def by (intro conjI; blast)

lemma mild_trans_mono: "mild R s s' \<Longrightarrow> mild R' s' s'' \<Longrightarrow> R \<subseteq> R'' \<Longrightarrow> R' \<subseteq> R'' \<Longrightarrow> mild R'' s s''"
  by (meson mild_mono mild_trans)

lemma static_fixed: "static rq = static rq' \<Longrightarrow> fixed rq = fixed rq' \<and> rq_cancelled rq = rq_cancelled rq'"
  by (simp add: static_def fixed_def)

lemma touches_mild: "touches R s s' \<Longrightarrow> mild R s s'"
proof -
  assume t: "touches R s s'"
  have "fixed (sc_requests s' q) = fixed (sc_requests s q)" "rq_cancelled (sc_requests s' q) = rq_cancelled (sc_requests s q)" for q
    using static_fixed [OF touches_static [OF t, of q]] by auto
  then show ?thesis using t by (simp add: touches_def mild_def)
qed

lemma mild_same [simp]:
  "mild R s (s'\<lparr>sc_pending := p\<rparr>) = mild R s s'" "mild R (s\<lparr>sc_pending := p\<rparr>) s' = mild R s s'"
  "mild R s (s'\<lparr>sc_groups := gs\<rparr>) = mild R s s'" "mild R (s\<lparr>sc_groups := gs\<rparr>) s' = mild R s s'"
  by (simp_all add: mild_def key_def balance_def open_rows_def)

lemma mild_row: "mild R s s' \<Longrightarrow> r \<notin> R \<Longrightarrow> sc_rows s' r = sc_rows s r"
  by (simp add: mild_def)

lemma mild_key: "mild R s s' \<Longrightarrow> key s' r = key s r"
  by (simp add: mild_def)

lemma mild_request:
  "mild R s s' \<Longrightarrow> rw_request (sc_rows s' r) = rw_request (sc_rows s r)"
  "mild R s s' \<Longrightarrow> rw_index (sc_rows s' r) = rw_index (sc_rows s r)"
  by (auto dest: mild_key [of R s s' r] simp: key_def)

lemma mild_fixed: "mild R s s' \<Longrightarrow> fixed (request_of s' r) = fixed (request_of s r)"
  using mild_request(1) [of R s s' r] by (simp add: mild_def)

lemma fixed_fields:
  assumes "fixed rq = fixed rq'"
  shows "rq_options rq = rq_options rq'" "rq_stops rq = rq_stops rq'" "rq_chunk rq = rq_chunk rq'"
    "rq_adapter rq = rq_adapter rq'" "rq_wkv32 rq = rq_wkv32 rq'"
    "length (rq_states rq) = length (rq_states rq')" "length (rq_logits rq) = length (rq_logits rq')"
    "length (gs_reasons (rq_stats rq)) = length (gs_reasons (rq_stats rq'))"
    "length (gs_matched (rq_stats rq)) = length (gs_matched (rq_stats rq'))"
  using assms by (simp_all add: fixed_def)

lemma mild_options: "mild R s s' \<Longrightarrow> rq_options (request_of s' r) = rq_options (request_of s r)"
  using fixed_fields(1) [OF mild_fixed] .

lemma mild_cancelled: "mild R s s' \<Longrightarrow> rq_cancelled (request_of s r) \<Longrightarrow> rq_cancelled (request_of s' r)"
  using mild_request(1) [of R s s' r] by (simp add: mild_def)

lemma fixed_solo:
  assumes "fixed rq = fixed rq'"
  shows "solo_step E f rq sp v = solo_step E f rq' sp v"
  unfolding solo_step_def solo_token_def fixed_fields(1-3) [OF assms] by (rule refl)

lemma mild_keyed: "mild R s s' \<Longrightarrow> keyed s' = keyed s"
proof -
  assume m: "mild R s s'"
  have "valid_row s' r = valid_row s r" for r
    using fixed_fields(6-9) [OF mild_fixed [OF m, of r]] mild_request(2) [OF m, of r] by (simp add: valid_row_def Let_def)
  moreover have "key s' = key s" using mild_key [OF m] by blast
  ultimately show ?thesis using m by (simp add: keyed_def mild_def)
qed

lemma mild_loc:
  assumes "mild R s s'" "keyed s" "R \<subseteq> {..<sc_next_row s}" "r < sc_next_row s" "r \<notin> R"
    and "\<not> rq_cancelled (request_of s' r)"
  shows "loc s' r = loc s r"
proof -
  have "\<forall>r' \<in> R. key s r' \<noteq> key s r" using assms(2-5) keyed_neq [OF assms(2)] by blast
  then have "part (request_of s' r) (rw_index (sc_rows s r)) = part (request_of s r) (rw_index (sc_rows s r))"
    using assms(1,6) mild_request(1) [OF assms(1), of r] by (simp add: mild_def key_def)
  then show ?thesis using mild_row [OF assms(1,5)] by (simp add: loc_def)
qed

lemma mild_group_ok:
  assumes "mild R s s'" "group_ok s g" "set (g_rows g @ g_incoming g) \<inter> R = {}"
  shows "group_ok s' g"
proof -
  have "sc_rows s' r = sc_rows s r" if "r \<in> set (g_rows g @ g_incoming g)" for r
    using mild_row [OF assms(1)] that assms(3) by auto
  moreover have "sc_next_row s' = sc_next_row s" using assms(1) by (simp add: mild_def)
  ultimately show ?thesis using assms(2) mild_options [OF assms(1)] by (auto simp: group_ok_def)
qed

lemma cancel_mild: "mild R s (upd_request q (\<lambda>rq. rq\<lparr>rq_cancelled := True\<rparr>) s)"
  "mild R s (upd_request q (\<lambda>rq. rq\<lparr>rq_error := True, rq_cancelled := True\<rparr>) s)"
  by (auto simp: mild_def upd_request_def fixed_def key_def balance_def open_rows_def done_ok_def part_def row_text_def)

lemma fold_mild:
  assumes "\<And>x s. x \<in> set xs \<Longrightarrow> mild R s (h x s)"
  shows "mild R s (fold h xs s)"
  using assms by (induction xs arbitrary: s) (auto intro: mild_trans)

lemma cancel_rows_mild: "mild {} s (cancel_rows rows s)"
  unfolding cancel_rows_def by (rule fold_mild) (rule cancel_mild)

lemma check_stops_mild: "mild {} s (check_stops answers rows s)"
  unfolding check_stops_def
  by (rule fold_mild) (auto simp: Let_def intro: cancel_mild split: stop_answer.split)

section \<open>The invariant of the loop\<close>

definition all_rows :: "('st, 'lg, 'sp, 'o) group list \<Rightarrow> nat list" where
  "all_rows gs = concat (map (\<lambda>g. g_rows g @ g_incoming g) gs)"

text \<open>Every open row is in exactly one batch, waiting to join one, or pending.\<close>

definition core :: "('st, 'lg, 'sp, 'o) group list \<Rightarrow> nat list \<Rightarrow> ('st, 'lg, 'sp, 'o) sched \<Rightarrow> bool" where
  "core gs pend s \<longleftrightarrow>
     keyed s \<and> distinct (all_rows gs @ pend) \<and> (\<forall>g \<in> set gs. group_ok s g) \<and>
     (\<forall>r \<in> set (all_rows gs @ pend).
        r < sc_next_row s \<and> \<not> rw_completed (sc_rows s r) \<and> \<not> rw_finished (sc_rows s r)) \<and>
     (\<forall>g \<in> set gs. \<forall>r \<in> set (g_rows g). int (rw_step (sc_rows s r)) < go_max_tokens (rq_options (request_of s r))) \<and>
     (\<forall>r < sc_next_row s. \<not> rw_completed (sc_rows s r) \<longrightarrow> r \<in> set (all_rows gs @ pend))"

definition find_slot :: "('st, 'lg, 'sp, 'o) group list \<Rightarrow> nat \<Rightarrow> ('st \<times> 'lg \<times> 'sp) option" where
  "find_slot gs r = (case find (\<lambda>g. r \<in> set (g_rows g)) gs of None \<Rightarrow> None | Some g \<Rightarrow> slot_of g r)"

definition view_at where
  "view_at gs s r = view_of (find_slot gs r) (loc s r)"

lemma all_rows_simps [simp]:
  "all_rows [] = []" "all_rows (g # gs) = g_rows g @ g_incoming g @ all_rows gs"
  "all_rows (A @ B) = all_rows A @ all_rows B"
  by (simp_all add: all_rows_def)

lemma find_append: "find P (xs @ ys) = (case find P xs of None \<Rightarrow> find P ys | Some x \<Rightarrow> Some x)"
  by (induction xs) auto

lemma find_slot_skip: "r \<notin> set (g_rows g) \<Longrightarrow> find_slot (A @ g # B) r = find_slot (A @ B) r"
  by (auto simp: find_slot_def find_append split: option.split)

lemma find_slot_out: "r \<notin> set (all_rows gs) \<Longrightarrow> find_slot gs r = None"
  by (induction gs) (auto simp: find_slot_def)

lemma find_slot_here:
  assumes "r \<notin> set (all_rows A)" "r \<notin> set (all_rows B)"
  shows "find_slot (A @ g # B) r = slot_of g r"
proof (cases "r \<in> set (g_rows g)")
  case True
  have "find (\<lambda>g. r \<in> set (g_rows g)) A = None" using assms(1) by (induction A) auto
  then show ?thesis using True by (simp add: find_slot_def find_append)
next
  case False
  then show ?thesis using find_slot_out [of r "A @ B"] assms by (simp add: find_slot_skip slot_of_None)
qed

lemma fail_fold:
  defines "h \<equiv> (\<lambda>r s. if rw_completed (sc_rows s r) then s
     else complete r (upd_request (rw_request (sc_rows s r)) (\<lambda>rq. rq\<lparr>rq_error := True, rq_cancelled := True\<rparr>) s))"
  shows "mild (set rs) s (fold h rs s) \<and> sc_pending (fold h rs s) = sc_pending s \<and>
    (\<forall>r \<in> set rs. rw_completed (sc_rows (fold h rs s) r) \<and>
       (\<not> rw_completed (sc_rows s r) \<longrightarrow> rq_cancelled (request_of (fold h rs s) r)))"
proof (induction rs arbitrary: s)
  case (Cons r rs)
  let ?c = "upd_request (rw_request (sc_rows s r)) (\<lambda>rq. rq\<lparr>rq_error := True, rq_cancelled := True\<rparr>) s"
  have "mild {r} s (complete r ?c)"
    by (rule mild_trans [OF cancel_mild(2) touches_mild [OF complete_touches]])
  then have hm: "mild {r} s (h r s)" by (simp add: h_def)
  have hc: "rw_completed (sc_rows (h r s) r)" by (simp add: h_def complete_completed)
  have hq: "rq_cancelled (request_of (h r s) r)" if "\<not> rw_completed (sc_rows s r)"
  proof -
    have "rq_cancelled (request_of ?c r)" by (simp add: upd_request_def)
    then show ?thesis using touches_cancelled [OF complete_touches [of r ?c], of r] that by (simp add: h_def)
  qed
  let ?s = "fold h rs (h r s)"
  have m: "mild (set rs) (h r s) ?s" using Cons.IH by blast
  have "mild (set (r # rs)) s ?s" by (rule mild_trans_mono [OF hm m]) auto
  moreover have "rw_completed (sc_rows ?s r)" using m hc by (simp add: mild_def)
  moreover have "rq_cancelled (request_of ?s r)" if "\<not> rw_completed (sc_rows s r)"
    using mild_cancelled [OF m hq [OF that]] .
  moreover have "sc_pending (h r s) = sc_pending s" by (simp add: h_def)
  moreover have "\<not> rw_completed (sc_rows (h r s) r')" if "\<not> rw_completed (sc_rows s r')" "r' \<noteq> r" for r'
    using mild_row [OF hm, of r'] that by simp
  ultimately show ?case using Cons.IH [of "h r s"] by (auto; metis)
qed simp

lemma fail_group_spec:
  assumes "fail_group g s = (g', s')" "g_incoming g = []"
  shows "mild (set (g_rows g)) s s'" "sc_pending s' = sc_pending s"
    "r \<in> set (g_rows g) \<Longrightarrow> rw_completed (sc_rows s' r)"
    "r \<in> set (g_rows g) \<Longrightarrow> \<not> rw_completed (sc_rows s r) \<Longrightarrow> rq_cancelled (request_of s' r)"
    "g_rows g' = []" "g_incoming g' = []" "group_ok s' g'"
    "g_adapter g' = g_adapter g" "g_wkv32 g' = g_wkv32 g"
  using assms fail_fold [of "g_rows g" s] by (auto simp: fail_group_def group_ok_def)

lemma distinct_replace:
  assumes "distinct (As @ Xs @ Bs @ Ps)" "set Ys \<subseteq> set Xs" "set Zs \<subseteq> set Xs" "distinct Ys" "distinct Zs"
    and "set Ys \<inter> set Zs = {}"
  shows "distinct (As @ Ys @ Bs @ Ps @ Zs)"
proof -
  have "distinct As" "distinct Bs" "distinct Ps" "set As \<inter> set Xs = {}" "set As \<inter> set Bs = {}" "set As \<inter> set Ps = {}"
    "set Xs \<inter> set Bs = {}" "set Xs \<inter> set Ps = {}" "set Bs \<inter> set Ps = {}"
    using assms(1) by auto
  moreover from this assms(2,3) have "set As \<inter> set Ys = {}" "set As \<inter> set Zs = {}" "set Ys \<inter> set Bs = {}"
    "set Ys \<inter> set Ps = {}" "set Bs \<inter> set Zs = {}" "set Ps \<inter> set Zs = {}" by blast+
  ultimately show ?thesis using assms(4-6) by (simp add: Int_Un_distrib Int_Un_distrib2)
qed

text \<open>One group of a sweep.\<close>

lemma step_one:
  fixes s :: "('st, 'lg, 'sp, 'o) sched"
  assumes c: "core (A @ g # B) (sc_pending s) s" and fwd: "rowwise_decode E f"
    and st: "group_step E g s = (threw, g2, s2)"
    and fl: "(if threw then fail_group g2 s2 else (g2, s2)) = (g3, s3)"
  shows "core (A @ g3 # B) (sc_pending s3) s3" "mild (set (g_rows g @ g_incoming g)) s s3" "g_incoming g3 = []"
    "set (g_rows g3) \<subseteq> set (g_rows g @ g_incoming g)" "g_adapter g3 = g_adapter g" "g_wkv32 g3 = g_wkv32 g"
    "\<And>r. r < sc_next_row s \<Longrightarrow> \<not> rq_cancelled (request_of s3 r) \<Longrightarrow>
      (if r \<in> set (g_rows g @ g_incoming g)
       then view_at (A @ g3 # B) s3 r = view_at (A @ g # B) s r \<or>
         (\<exists>sp. view_at (A @ g3 # B) s3 r = solo_step E f (request_of s r) sp (view_at (A @ g # B) s r))
       else view_at (A @ g3 # B) s3 r = view_at (A @ g # B) s r)"
proof -
  let ?R = "set (g_rows g @ g_incoming g)"
  have k: "keyed s" and ok: "group_ok s g" and d: "distinct (all_rows (A @ g # B) @ sc_pending s)"
    and old: "\<And>r. r \<in> set (all_rows (A @ g # B) @ sc_pending s) \<Longrightarrow>
      r < sc_next_row s \<and> \<not> rw_completed (sc_rows s r) \<and> \<not> rw_finished (sc_rows s r)"
    and stp: "\<And>g' r. g' \<in> set (A @ g # B) \<Longrightarrow> r \<in> set (g_rows g') \<Longrightarrow>
      int (rw_step (sc_rows s r)) < go_max_tokens (rq_options (request_of s r))"
    and all: "\<And>r. r < sc_next_row s \<Longrightarrow> \<not> rw_completed (sc_rows s r) \<Longrightarrow> r \<in> set (all_rows (A @ g # B) @ sc_pending s)"
    using c unfolding core_def by auto
  have fresh: "\<not> rw_finished (sc_rows s r)" if "r \<in> ?R" for r using old that by auto
  have pos: "0 < go_max_tokens (rq_options (request_of s r))" if "r \<in> set (g_rows g)" for r
    using stp [of g r] that by simp
  obtain paused where G: "sc_pending s2 = sc_pending s @ paused" "distinct paused" "set paused \<subseteq> set (g_rows g) - set (g_rows g2)"
    "touches ?R s s2" "group_ok s2 g2" "g_incoming g2 = []" "set (g_rows g2) \<subseteq> ?R"
    "g_adapter g2 = g_adapter g" "g_wkv32 g2 = g_wkv32 g"
    "\<And>r. r \<in> ?R \<Longrightarrow> (r \<in> set paused \<longrightarrow> \<not> rw_completed (sc_rows s2 r) \<and> \<not> rw_finished (sc_rows s2 r)) \<and>
       (r \<notin> set (g_rows g2) \<and> r \<notin> set paused \<longrightarrow> rw_completed (sc_rows s2 r)) \<and>
       (\<not> threw \<or> r \<notin> set (g_rows g2) \<longrightarrow> (r \<in> set (g_rows g2) \<longrightarrow> \<not> rw_finished (sc_rows s2 r) \<and>
            int (rw_step (sc_rows s2 r)) < go_max_tokens (rq_options (request_of s r))) \<and>
         (\<not> rq_cancelled (request_of s r) \<longrightarrow>
           (if r \<in> set paused then view_in g2 s2 r = view_in g s r
            else \<exists>sp. view_in g2 s2 r = solo_step E f (request_of s r) sp (view_in g s r))))"
    using group_step_spec [OF k ok fwd fresh pos st] by (simp only: set_append) blast
  have m2: "mild ?R s s2" by (rule touches_mild [OF G(4)])
  have F: "mild (set (g_rows g2)) s2 s3 \<and> sc_pending s3 = sc_pending s2 \<and> group_ok s3 g3 \<and> g_incoming g3 = [] \<and>
      set (g_rows g3) \<subseteq> set (g_rows g2) \<and> g_adapter g3 = g_adapter g2 \<and> g_wkv32 g3 = g_wkv32 g2 \<and>
      (\<forall>r \<in> set (g_rows g2). r \<notin> set (g_rows g3) \<longrightarrow> rw_completed (sc_rows s3 r) \<and> rq_cancelled (request_of s3 r)) \<and>
      (\<forall>r \<in> set (g_rows g3). \<not> threw \<and> sc_rows s3 r = sc_rows s2 r) \<and>
      (\<not> threw \<longrightarrow> g3 = g2 \<and> s3 = s2)"
  proof (cases threw)
    case True
    then have f: "fail_group g2 s2 = (g3, s3)" using fl by simp
    have "\<not> rw_completed (sc_rows s2 r)" if "r \<in> set (g_rows g2)" for r using G(5) that by (auto simp: group_ok_def)
    then show ?thesis using fail_group_spec [OF f G(6)] True by auto
  next
    case False
    then show ?thesis using fl G(5,6) by auto
  qed
  have m3: "mild ?R s s3" using mild_trans_mono [OF m2 conjunct1 [OF F] order_refl G(7)] .
  have sub3: "set (g_rows g3) \<subseteq> ?R" using F G(7) by blast
  have n3: "sc_next_row s3 = sc_next_row s" using m3 by (simp add: mild_def)
  have disj: "?R \<inter> set (all_rows (A @ B) @ sc_pending s) = {}" using d by auto
  have pz: "sc_rows s3 r = sc_rows s2 r \<and> loc s3 r = loc s2 r \<or> rq_cancelled (request_of s3 r) \<and> sc_rows s3 r = sc_rows s2 r"
    if "r \<in> ?R" "r \<notin> set (g_rows g2)" for r
  proof (cases "rq_cancelled (request_of s3 r)")
    case True
    then show ?thesis using mild_row [OF conjunct1 [OF F] that(2)] by simp
  next
    case False
    have "keyed s2" "sc_next_row s2 = sc_next_row s" using mild_keyed [OF m2] k m2 by (simp_all add: mild_def)
    then show ?thesis
      using mild_row [OF conjunct1 [OF F] that(2)] mild_loc [OF conjunct1 [OF F] _ _ _ that(2) False] old that(1) G(7)
      by (auto simp: subset_iff)
  qed
  show "mild ?R s s3" by (rule m3)
  show "g_incoming g3 = []" "g_adapter g3 = g_adapter g" "g_wkv32 g3 = g_wkv32 g" using F G(8,9) by auto
  show "set (g_rows g3) \<subseteq> ?R" by (rule sub3)
  have inc3: "g_incoming g3 = []" using F by simp
  have pend3: "sc_pending s3 = sc_pending s @ paused" using F G(1) by simp
  have d3: "distinct (all_rows (A @ g3 # B) @ sc_pending s3)"
  proof -
    have g3: "distinct (g_rows g3)" "g_incoming g3 = []" using F by (auto simp: group_ok_def)
    have pg: "set paused \<inter> set (g_rows g3) = {}" using F G(3) by blast
    have "distinct (all_rows A @ (g_rows g @ g_incoming g) @ all_rows B @ sc_pending s)" using d by simp
    from distinct_replace [OF this _ _ g3(1) G(2)] have "distinct (all_rows A @ g_rows g3 @ all_rows B @ sc_pending s @ paused)"
      using sub3 G(3) pg by auto
    then show ?thesis using g3(2) unfolding pend3 by simp
  qed
  have other: "sc_rows s3 r = sc_rows s r" if "r \<notin> ?R" for r using mild_row [OF m3 that] .
  have grp: "group_ok s3 g'" if "g' \<in> set A \<union> set B" for g'
  proof (rule mild_group_ok [OF m3])
    show "group_ok s g'" using c that by (auto simp: core_def)
    show "set (g_rows g' @ g_incoming g') \<inter> ?R = {}"
      using that disj by (auto simp: all_rows_def)
  qed
  have open3: "r < sc_next_row s3 \<and> \<not> rw_completed (sc_rows s3 r) \<and> \<not> rw_finished (sc_rows s3 r)"
    if r: "r \<in> set (all_rows (A @ g3 # B) @ sc_pending s3)" for r
  proof -
    consider "r \<in> set (g_rows g3)" | "r \<in> set paused" | "r \<in> set (all_rows (A @ B) @ sc_pending s)"
      using r inc3 unfolding pend3 by auto
    then show ?thesis
    proof cases
      case 1
      then have "\<not> rw_finished (sc_rows s3 r)" using F G(10) [of r] sub3 by auto
      then show ?thesis using 1 F by (auto simp: group_ok_def)
    next
      case 2
      then have "r \<in> ?R" "r \<notin> set (g_rows g2)" using G(3) by auto
      then show ?thesis using G(10) [of r] 2 pz [of r] old [of r] n3 by auto
    next
      case 3
      then have "r \<notin> ?R" using disj by auto
      then show ?thesis using other old [of r] 3 n3 by auto
    qed
  qed
  have step3: "int (rw_step (sc_rows s3 r)) < go_max_tokens (rq_options (request_of s3 r))"
    if g': "g' \<in> set (A @ g3 # B)" and r: "r \<in> set (g_rows g')" for g' r
  proof (cases "g' = g3")
    case True
    then have r3: "r \<in> set (g_rows g3)" "r \<in> ?R" using r sub3 by auto
    then have "\<not> threw" "sc_rows s3 r = sc_rows s2 r" "r \<in> set (g_rows g2)" using F by auto
    then show ?thesis using G(10) [OF r3(2)] mild_options [OF m3, of r] by simp
  next
    case False
    then have "g' \<in> set A \<union> set B" using g' by auto
    moreover have "r \<notin> ?R" using calculation r disj by (auto simp: all_rows_def)
    ultimately show ?thesis using stp [of g' r] r other mild_options [OF m3, of r] by auto
  qed
  have all3: "r \<in> set (all_rows (A @ g3 # B) @ sc_pending s3)"
    if "r < sc_next_row s3" "\<not> rw_completed (sc_rows s3 r)" for r
  proof (cases "r \<in> ?R")
    case True
    have "\<not> rw_completed (sc_rows s2 r)" using that(2) F by (auto simp: mild_def)
    then have "r \<in> set (g_rows g2) \<or> r \<in> set paused" using G(10) [OF True] by blast
    then have "r \<in> set (g_rows g3) \<or> r \<in> set paused" using F that(2) by blast
    then show ?thesis unfolding pend3 by auto
  next
    case False
    then have "r \<in> set (all_rows (A @ g # B) @ sc_pending s)" using all [of r] that other n3 by simp
    then show ?thesis using False unfolding pend3 by auto
  qed
  show "core (A @ g3 # B) (sc_pending s3) s3"
    unfolding core_def using mild_keyed [OF m3] k d3 grp F open3 step3 all3 by auto
  show "if r \<in> ?R
      then view_at (A @ g3 # B) s3 r = view_at (A @ g # B) s r \<or>
        (\<exists>sp. view_at (A @ g3 # B) s3 r = solo_step E f (request_of s r) sp (view_at (A @ g # B) s r))
      else view_at (A @ g3 # B) s3 r = view_at (A @ g # B) s r"
    if r: "r < sc_next_row s" and nc: "\<not> rq_cancelled (request_of s3 r)" for r
  proof (cases "r \<in> ?R")
    case True
    have out: "r \<notin> set (all_rows A)" "r \<notin> set (all_rows B)" using True disj by auto
    have v: "view_at (A @ g # B) s r = view_in g s r" "view_at (A @ g3 # B) s3 r = view_in g3 s3 r"
      using find_slot_here [OF out] by (simp_all add: view_at_def view_in_def)
    have nc0: "\<not> rq_cancelled (request_of s r)" using nc mild_cancelled [OF m3] by blast
    have "view_in g3 s3 r = view_in g2 s2 r \<and> (\<not> threw \<or> r \<notin> set (g_rows g2))"
    proof (cases threw)
      case True
      then have "r \<notin> set (g_rows g3)" "r \<notin> set (g_rows g2)" using F nc by auto
      then show ?thesis using pz [OF \<open>r \<in> ?R\<close>] nc True by (simp add: view_in_def slot_of_None)
    qed (use F in simp)
    then have "view_at (A @ g3 # B) s3 r = view_at (A @ g # B) s r \<or>
        (\<exists>sp. view_at (A @ g3 # B) s3 r = solo_step E f (request_of s r) sp (view_at (A @ g # B) s r))"
      using G(10) [OF True] nc0 unfolding v by (metis (full_types))
    then show ?thesis using True by simp
  next
    case False
    then have "r \<notin> set (g_rows g)" "r \<notin> set (g_rows g3)" using sub3 by auto
    moreover have "loc s3 r = loc s r" using mild_loc [OF m3 k _ r False nc] old by auto
    ultimately show ?thesis using False by (simp add: view_at_def find_slot_skip)
  qed
qed

lemma core_mild:
  assumes "core gs pend s" "mild {} s s'"
  shows "core gs pend s'"
proof -
  have rows: "sc_rows s' = sc_rows s" using mild_row [OF assms(2)] by blast
  have "group_ok s' g" if "group_ok s g" for g by (rule mild_group_ok [OF assms(2) that]) simp
  then show ?thesis
    using assms(1) mild_keyed [OF assms(2)] mild_options [OF assms(2)] assms(2)
    unfolding core_def rows mild_def by simp
qed

lemma view_mild:
  assumes "mild {} s s'" "keyed s" "r < sc_next_row s" "\<not> rq_cancelled (request_of s' r)"
  shows "view_at gs s' r = view_at gs s r"
  using mild_loc [OF assms(1,2) _ assms(3) _ assms(4)] by (simp add: view_at_def)

lemma cancel_rows_pending [simp]: "sc_pending (cancel_rows rows s) = sc_pending s"
  unfolding cancel_rows_def by (induction rows arbitrary: s) auto

lemma check_stops_pending [simp]: "sc_pending (check_stops answers rows s) = sc_pending s"
  unfolding check_stops_def
  by (induction rows arbitrary: s) (auto simp: Let_def split: stop_answer.split)

lemma occupied_all_rows: "occupied_rows gs = length (all_rows gs)"
  by (induction gs) (auto simp: occupied_rows_def)

lemma card_rows_le: "distinct xs \<Longrightarrow> set xs \<subseteq> set ys \<Longrightarrow> length xs \<le> length ys"
  using card_mono [of "set ys" "set xs"] card_length [of ys] distinct_card [of xs] by simp

text \<open>What a sweep may do to a row: some steps of the row by itself.\<close>

definition moves where
  "moves E f rq v v' \<longleftrightarrow> (\<exists>sps. v' = fold (solo_step E f rq) sps v)"

lemma moves_refl [simp]: "moves E f rq v v"
  unfolding moves_def by (rule exI [of _ "[]"]) simp

lemma moves_step: "moves E f rq v (solo_step E f rq sp v)"
  unfolding moves_def by (rule exI [of _ "[sp]"]) simp

lemma moves_trans: "moves E f rq v v' \<Longrightarrow> moves E f rq v' v'' \<Longrightarrow> moves E f rq v v''"
  unfolding moves_def by (elim exE) (rule exI [of _ "_ @ _"], simp)

lemma moves_fixed: "fixed rq = fixed rq' \<Longrightarrow> moves E f rq = moves E f rq'"
proof -
  assume "fixed rq = fixed rq'"
  then have "solo_step E f rq = solo_step E f rq'" by (intro ext fixed_solo)
  then show ?thesis by (intro ext) (simp add: moves_def)
qed

lemma step_groups_spec:
  fixes s :: "('st, 'lg, 'sp, 'o) sched"
  assumes fwd: "rowwise_decode E f" and "core (A @ gs) (sc_pending s) s" "step_groups E shutdown gs s = (gs', s')"
  shows "core (A @ gs') (sc_pending s') s' \<and> mild (set (all_rows gs)) s s' \<and> length (all_rows gs') \<le> length (all_rows gs) \<and>
    map g_adapter gs' = map g_adapter gs \<and> map g_wkv32 gs' = map g_wkv32 gs \<and>
    (\<forall>g \<in> set gs'. g_incoming g = []) \<and>
    (\<forall>r. r < sc_next_row s \<longrightarrow> \<not> rq_cancelled (request_of s' r) \<longrightarrow>
       (if r \<in> set (all_rows gs) then moves E f (request_of s r) (view_at (A @ gs) s r) (view_at (A @ gs') s' r)
        else view_at (A @ gs') s' r = view_at (A @ gs) s r))"
  using assms(2,3)
proof (induction gs arbitrary: A s gs')
  case (Cons g gs)
  define s1 where "s1 = (if shutdown then cancel_rows (g_rows g @ g_incoming g) s else s)"
  obtain threw g2 s2 where st: "group_step E g s1 = (threw, g2, s2)" by (metis prod_cases3)
  obtain g3 s3 where fl: "(if threw then fail_group g2 s2 else (g2, s2)) = (g3, s3)" by fastforce
  obtain hs s4 where rec: "step_groups E shutdown gs s3 = (hs, s4)" by fastforce
  have res: "gs' = g3 # hs" "s' = s4"
    using Cons.prems(2) st fl rec by (simp_all add: s1_def [symmetric] Let_def)
  have m1: "mild {} s s1" by (simp add: s1_def cancel_rows_mild)
  have k: "keyed s" using Cons.prems(1) by (simp add: core_def)
  have p1: "sc_pending s1 = sc_pending s" by (simp add: s1_def)
  have rows1: "sc_rows s1 = sc_rows s" using mild_row [OF m1] by blast
  have n1: "sc_next_row s1 = sc_next_row s" using m1 by (simp add: mild_def)
  have c1: "core (A @ g # gs) (sc_pending s1) s1" using core_mild [OF Cons.prems(1) m1] by (simp add: p1)
  note S = step_one [OF c1 fwd st fl]
  let ?R = "set (g_rows g @ g_incoming g)"
  have c3: "core ((A @ [g3]) @ gs) (sc_pending s3) s3" using S(1) by simp
  note IH = Cons.IH [OF c3 rec [folded res(2)], unfolded append_assoc append.simps]
  have I: "core (A @ gs') (sc_pending s') s'" "mild (set (all_rows gs)) s3 s'"
    "length (all_rows hs) \<le> length (all_rows gs)" "map g_adapter hs = map g_adapter gs" "map g_wkv32 hs = map g_wkv32 gs"
    "\<forall>g \<in> set hs. g_incoming g = []"
    "\<And>r. r < sc_next_row s3 \<Longrightarrow> \<not> rq_cancelled (request_of s' r) \<Longrightarrow>
       (if r \<in> set (all_rows gs) then moves E f (request_of s3 r) (view_at (A @ g3 # gs) s3 r) (view_at (A @ gs') s' r)
        else view_at (A @ gs') s' r = view_at (A @ g3 # gs) s3 r)"
    using IH by (simp_all only: res(1)) blast+
  have n3: "sc_next_row s3 = sc_next_row s" using S(2) n1 by (simp add: mild_def)
  have d: "set (all_rows gs) \<inter> ?R = {}" using c1 by (auto simp: core_def)
  have "mild (set (all_rows (g # gs))) s s'"
    using mild_trans_mono [OF m1 mild_trans_mono [OF S(2) I(2), of "set (all_rows (g # gs))"], of "set (all_rows (g # gs))"] by auto
  moreover have "length (all_rows gs') \<le> length (all_rows (g # gs))"
  proof -
    have "distinct (g_rows g3)" using S(1) by (simp add: core_def)
    from card_rows_le [OF this S(4)] show ?thesis using I(3) S(3) by (simp add: res)
  qed
  moreover have "if r \<in> set (all_rows (g # gs)) then moves E f (request_of s r) (view_at (A @ g # gs) s r) (view_at (A @ gs') s' r)
      else view_at (A @ gs') s' r = view_at (A @ g # gs) s r"
    if r: "r < sc_next_row s" and nc: "\<not> rq_cancelled (request_of s' r)" for r
  proof -
    have nc3: "\<not> rq_cancelled (request_of s3 r)" using nc mild_cancelled [OF I(2)] by blast
    have nc1: "\<not> rq_cancelled (request_of s1 r)" using nc3 mild_cancelled [OF S(2)] by blast
    have v1: "view_at (A @ g # gs) s1 r = view_at (A @ g # gs) s r" by (rule view_mild [OF m1 k r nc1])
    have rq: "moves E f (request_of s1 r) = moves E f (request_of s r)" "moves E f (request_of s3 r) = moves E f (request_of s r)"
      by (rule moves_fixed [OF mild_fixed [OF m1]],
        rule trans [OF moves_fixed [OF mild_fixed [OF S(2)]] moves_fixed [OF mild_fixed [OF m1]]])
    have "moves E f (request_of s r) (view_at (A @ g # gs) s r) (view_at (A @ g3 # gs) s3 r)" if "r \<in> ?R"
      using S(7) [of r] that r nc3 n1 v1 unfolding rq(1) [symmetric] by (auto intro: moves_step)
    then have here: "moves E f (request_of s r) (view_at (A @ g # gs) s r) (view_at (A @ gs') s' r)" if "r \<in> ?R"
      using I(7) [of r] that d r nc n3 by (auto split: if_splits)
    have "view_at (A @ g3 # gs) s3 r = view_at (A @ g # gs) s r" if "r \<notin> ?R"
      using S(7) [of r] that r nc3 n1 v1 by simp
    then show ?thesis using here I(7) [of r] r nc n3 unfolding rq by (cases "r \<in> ?R") auto
  qed
  ultimately show ?case using I(1,4-6) S(3,5,6) unfolding res(1)
    by (intro conjI allI impI) (simp_all only: list.simps ball_simps)
qed simp

end
