(* ===== verification/SchedulerRuns.thy ===== *)
theory SchedulerRuns
  imports SchedulerLoop "HOL-Library.Multiset"
begin

text \<open>
  Admission, the whole sweep and whole runs: the invariant of the scheduler, what a run may do
  to a row of an uncancelled request, the accounting of the rows of a request, and the limit on
  the rows that are decoded together.
\<close>

section \<open>Joining a batch\<close>

lemma join_rows: "mset (all_rows (join_group a w r gs)) = add_mset r (mset (all_rows gs))"
  by (induction gs) (auto simp: new_group_def)

lemma join_set: "set (all_rows (join_group a w r gs)) = insert r (set (all_rows gs))"
  using arg_cong [OF join_rows, of set_mset] by simp

lemma join_length: "length (all_rows (join_group a w r gs)) = Suc (length (all_rows gs))"
  using arg_cong [OF join_rows, of size] by simp

lemma join_distinct: "distinct (all_rows gs @ r # X) \<Longrightarrow> distinct (all_rows (join_group a w r gs) @ X)"
  by (metis join_rows mset.simps(2) mset_append mset_eq_imp_distinct_iff union_mset_add_mset_left union_mset_add_mset_right)

lemma find_slot_Cons: "find_slot (g # gs) r = (if r \<in> set (g_rows g) then slot_of g r else find_slot gs r)"
  by (simp add: find_slot_def)

lemma slot_of_incoming [simp]: "slot_of (g\<lparr>g_incoming := rs\<rparr>) r = slot_of g r"
  by (simp add: slot_of_def)

lemma join_find_slot: "find_slot (join_group a w r gs) r' = find_slot gs r'"
  by (induction gs) (auto simp: find_slot_Cons, auto simp: find_slot_def new_group_def)

lemma group_ok_incoming:
  assumes "group_ok s g" "r < sc_next_row s" "\<not> rw_completed (sc_rows s r)" "r \<notin> set (g_rows g @ g_incoming g)"
  shows "group_ok s (g\<lparr>g_incoming := g_incoming g @ [r]\<rparr>)"
  using assms unfolding group_ok_def by simp

lemma group_ok_new:
  assumes "r < sc_next_row s" "\<not> rw_completed (sc_rows s r)"
  shows "group_ok s ((new_group a w)\<lparr>g_incoming := [r]\<rparr>)"
  using assms by (simp add: group_ok_def new_group_def)

lemma join_ok:
  assumes "\<forall>g \<in> set gs. group_ok s g" "r < sc_next_row s" "\<not> rw_completed (sc_rows s r)" "r \<notin> set (all_rows gs)"
  shows "\<forall>g \<in> set (join_group a w r gs). group_ok s g"
  using assms
proof (induction gs)
  case (Cons g gs)
  then show ?case using group_ok_incoming [of s g r] by simp
qed (simp add: group_ok_new)

lemma join_members:
  assumes "\<forall>g \<in> set gs. \<forall>r \<in> set (g_rows g). P r"
  shows "\<forall>g \<in> set (join_group a w r gs). \<forall>r \<in> set (g_rows g). P r"
  using assms by (induction gs) (auto simp: new_group_def)

lemma core_join:
  assumes "core gs (P @ r # rest) s"
  shows "core (join_group a w r gs) (P @ rest) s"
proof -
  have d: "distinct (all_rows gs @ r # (P @ rest))" using assms by (auto simp: core_def)
  have r: "r < sc_next_row s" "\<not> rw_completed (sc_rows s r)" "r \<notin> set (all_rows gs)"
    using assms by (auto simp: core_def)
  have "\<forall>g \<in> set (join_group a w r gs). \<forall>r \<in> set (g_rows g).
      int (rw_step (sc_rows s r)) < go_max_tokens (rq_options (request_of s r))"
    by (rule join_members) (use assms in \<open>auto simp: core_def\<close>)
  moreover have "\<forall>g \<in> set (join_group a w r gs). group_ok s g"
    by (rule join_ok [OF _ r]) (use assms in \<open>auto simp: core_def\<close>)
  ultimately show ?thesis
    using assms join_distinct [OF d] unfolding core_def set_append join_set by auto
qed

text \<open>Completing a row that waits.\<close>

lemma core_complete:
  assumes "core gs (P @ r # rest) s"
  shows "core gs (P @ rest) (complete r s)"
proof -
  let ?s = "complete r s"
  have m: "mild {r} s ?s" by (rule touches_mild [OF complete_touches])
  have out: "r \<notin> set (all_rows gs @ P @ rest)" using assms by (auto simp: core_def)
  have rows: "sc_rows ?s r' = sc_rows s r'" if "r' \<noteq> r" for r' using mild_row [OF m, of r'] that by simp
  have n: "sc_next_row ?s = sc_next_row s" using m by (simp add: mild_def)
  have k: "keyed s" and d: "distinct (all_rows gs @ P @ r # rest)" and ok: "\<forall>g \<in> set gs. group_ok s g"
    and old: "\<And>r'. r' \<in> set (all_rows gs @ P @ r # rest) \<Longrightarrow>
      r' < sc_next_row s \<and> \<not> rw_completed (sc_rows s r') \<and> \<not> rw_finished (sc_rows s r')"
    and stp: "\<And>g r'. g \<in> set gs \<Longrightarrow> r' \<in> set (g_rows g) \<Longrightarrow>
      int (rw_step (sc_rows s r')) < go_max_tokens (rq_options (request_of s r'))"
    and all: "\<And>r'. r' < sc_next_row s \<Longrightarrow> \<not> rw_completed (sc_rows s r') \<Longrightarrow> r' \<in> set (all_rows gs @ P @ r # rest)"
    using assms unfolding core_def by blast+
  have same: "sc_rows ?s r' = sc_rows s r'" if "r' \<in> set (all_rows gs @ P @ rest)" for r'
    by (rule rows) (use out that in blast)
  have grp: "r' \<in> set (all_rows gs @ P @ rest)" if "g \<in> set gs" "r' \<in> set (g_rows g)" for g r'
    using that by (auto simp: all_rows_def)
  show ?thesis
    unfolding core_def
  proof (intro conjI allI ballI impI)
    show "keyed ?s" using k mild_keyed [OF m] by simp
    show "distinct (all_rows gs @ P @ rest)" using d by simp
    show "group_ok ?s g" if "g \<in> set gs" for g
      by (rule mild_group_ok [OF m]) (use ok out that in \<open>auto simp: all_rows_def\<close>)
    show "r' < sc_next_row ?s" "\<not> rw_completed (sc_rows ?s r')" "\<not> rw_finished (sc_rows ?s r')"
      if "r' \<in> set (all_rows gs @ P @ rest)" for r'
      using old [of r'] that unfolding same [OF that] n by auto
    show "int (rw_step (sc_rows ?s r')) < go_max_tokens (rq_options (request_of ?s r'))"
      if "g \<in> set gs" "r' \<in> set (g_rows g)" for g r'
      using stp [OF that] mild_options [OF m, of r'] unfolding same [OF grp [OF that]] by simp
    show "r' \<in> set (all_rows gs @ P @ rest)" if "r' < sc_next_row ?s" "\<not> rw_completed (sc_rows ?s r')" for r'
    proof (cases "r' = r")
      case True
      then show ?thesis using that(2) complete_completed [of r s] by simp
    next
      case False
      then show ?thesis using all [of r'] that rows [OF False] n by auto
    qed
  qed
qed

lemma view_complete:
  assumes c: "core gs (P @ r # rest) s" and r': "r' < sc_next_row s" and nc: "\<not> rq_cancelled (request_of (complete r s) r')"
  shows "view_at gs (complete r s) r' = (if r' = r then solo_finish (view_at gs s r) else view_at gs s r')"
proof -
  have m: "mild {r} s (complete r s)" by (rule touches_mild [OF complete_touches])
  have k: "keyed s" and r: "r < sc_next_row s" "\<not> rw_completed (sc_rows s r)" "r \<notin> set (all_rows gs)"
    using c by (auto simp: core_def)
  show ?thesis
  proof (cases "r' = r")
    case True
    have "\<not> rq_cancelled (request_of s r)" using nc True mild_cancelled [OF m] by blast
    then show ?thesis
      using view_of_complete_waiting [of "loc s r"] loc_complete_row [OF r(2)] r(2,3)
      by (simp add: True view_at_def find_slot_out) (simp add: loc_def)
  next
    case False
    then show ?thesis using mild_loc [OF m k _ r' _ nc] r(1) by (simp add: view_at_def)
  qed
qed

lemma solo_finish_step:
  assumes "go_max_tokens (rq_options rq) \<le> 0" "\<not> vw_done v"
  shows "solo_step E f rq sp v = solo_finish v"
  using assms by (simp add: solo_step_def)

lemma view_done: "vw_done (view_at gs s r) = rw_completed (sc_rows s r)"
  by (simp add: view_at_def view_of_def loc_def split: prod.split)

lemma admit_loop_spec:
  assumes "core (sc_groups s) (P @ pend) s" "admit_loop pend (occupied_rows (sc_groups s)) s = (kept, s')"
  shows "core (sc_groups s') (P @ kept) s' \<and> mild (set pend) s s' \<and>
    (occupied_rows (sc_groups s) \<le> sc_max_rows s \<longrightarrow> occupied_rows (sc_groups s') \<le> sc_max_rows s) \<and>
    (\<forall>r < sc_next_row s. \<not> rq_cancelled (request_of s' r) \<longrightarrow>
       moves E f (request_of s r) (view_at (sc_groups s) s r) (view_at (sc_groups s') s' r))"
  using assms
proof (induction pend arbitrary: P s kept)
  case (Cons r rest)
  let ?rq = "request_of s r" and ?occ = "occupied_rows (sc_groups s)"
  show ?case
  proof (cases "rq_cancelled ?rq \<or> go_max_tokens (rq_options ?rq) \<le> 0")
    case True
    let ?s = "complete r s"
    have m: "mild {r} s ?s" and g: "sc_groups ?s = sc_groups s"
      using touches_mild [OF complete_touches [of r s]] complete_touches [of r s] by (simp_all add: touches_def)
    have run: "admit_loop rest (occupied_rows (sc_groups ?s)) ?s = (kept, s')"
      using Cons.prems(2) True g by (simp add: Let_def)
    have c: "core (sc_groups ?s) (P @ rest) ?s" using core_complete [OF Cons.prems(1)] g by simp
    note I = Cons.IH [OF c run]
    have n: "sc_next_row ?s = sc_next_row s" "sc_max_rows ?s = sc_max_rows s" using m by (simp_all add: mild_def)
    have "moves E f (request_of s r') (view_at (sc_groups s) s r') (view_at (sc_groups s') s' r')"
      if r': "r' < sc_next_row s" and nc: "\<not> rq_cancelled (request_of s' r')" for r'
    proof -
      have nc1: "\<not> rq_cancelled (request_of ?s r')" using I nc mild_cancelled by blast
      have 1: "moves E f (request_of s r') (view_at (sc_groups ?s) ?s r') (view_at (sc_groups s') s' r')"
        using I r' nc n moves_fixed [OF mild_fixed [OF m, of r'], of E f] by auto
      show ?thesis
      proof (cases "r' = r")
        case False
        then show ?thesis using 1 view_complete [OF Cons.prems(1) r' nc1] g by simp
      next
        case same: True
        have "\<not> rq_cancelled (request_of s r)" using nc1 same mild_cancelled [OF m] by blast
        then have z: "go_max_tokens (rq_options ?rq) \<le> 0" using True by simp
        have o: "\<not> vw_done (view_at (sc_groups s) s r)" using Cons.prems(1) by (simp add: view_done core_def)
        have "view_at (sc_groups ?s) ?s r = solo_step E f ?rq undefined (view_at (sc_groups s) s r)"
          using view_complete [OF Cons.prems(1) r' nc1] same g solo_finish_step [OF z o] by simp
        then show ?thesis using 1 moves_trans [OF moves_step] unfolding same by simp
      qed
    qed
    then show ?thesis
      using I n mild_trans_mono [OF m, of "set rest" s' "set (r # rest)"] g by auto
  next
    case live: False
    show ?thesis
    proof (cases "?occ \<ge> sc_max_rows s \<or> backpressured ?rq")
      case True
      obtain kept' where k: "kept = r # kept'" "admit_loop rest ?occ s = (kept', s')"
        using Cons.prems(2) live True by (auto simp: Let_def split: prod.splits)
      have "core (sc_groups s) ((P @ [r]) @ rest) s" using Cons.prems(1) by simp
      from Cons.IH [OF this k(2)] show ?thesis
        using mild_mono [of "set rest" s s' "set (r # rest)"] k(1) by auto
    next
      case False
      let ?gs = "join_group (rq_adapter ?rq) (rq_wkv32 ?rq) r (sc_groups s)"
      let ?s = "s\<lparr>sc_groups := ?gs\<rparr>"
      have occ: "occupied_rows ?gs = Suc ?occ" by (simp add: occupied_all_rows join_length)
      have run: "admit_loop rest (occupied_rows (sc_groups ?s)) ?s = (kept, s')"
        using Cons.prems(2) live False occ by (simp add: Let_def)
      have k: "keyed ?s = keyed s" "group_ok ?s = group_ok s"
        by (simp_all add: keyed_def valid_row_def key_def [abs_def] fun_eq_iff group_ok_def)
      have c: "core (sc_groups ?s) (P @ rest) ?s"
        using core_join [OF Cons.prems(1), of "rq_adapter ?rq" "rq_wkv32 ?rq"] unfolding core_def k by simp
      note I = Cons.IH [OF c run]
      have v: "view_at (sc_groups ?s) ?s r' = view_at (sc_groups s) s r'" for r'
        by (simp add: view_at_def join_find_slot loc_def)
      have "mild (set rest) s s'" using I by simp
      then have "mild (set (r # rest)) s s'" by (rule mild_mono) auto
      then show ?thesis using I v occ False by simp
    qed
  qed
qed simp

section \<open>Admitting a request\<close>

lemma open_rows_finite [simp]: "finite (open_rows s q)"
  by (rule finite_subset [of _ "{..<sc_next_row s}"]) (auto simp: open_rows_def)

lemma group_ok_new_row:
  assumes "group_ok s g" "sc_requests s' = sc_requests s" "sc_next_row s \<le> sc_next_row s'"
    and "\<And>r. r < sc_next_row s \<Longrightarrow> sc_rows s' r = sc_rows s r"
  shows "group_ok s' g"
proof -
  have "sc_rows s' r = sc_rows s r" if "r \<in> set (g_rows g @ g_incoming g)" for r
    using assms(1,4) that by (auto simp: group_ok_def)
  then show ?thesis using assms(1,2,3) unfolding group_ok_def by (auto intro: less_le_trans)
qed

lemma core_new_row:
  assumes c: "core gs (sc_pending s) s" and r: "r = sc_next_row s"
    and row: "rw_request row = q" "rw_index row = i" "\<not> rw_finished row" "\<not> rw_completed row"
    and new: "\<And>r'. r' < sc_next_row s \<Longrightarrow> key s r' \<noteq> (q, i)"
    and i: "i < length (rq_states (sc_requests s q))" "i < length (rq_logits (sc_requests s q))"
      "i < length (gs_reasons (rq_stats (sc_requests s q)))" "i < length (gs_matched (rq_stats (sc_requests s q)))"
    and s': "s' = s\<lparr>sc_rows := (sc_rows s)(r := row), sc_pending := sc_pending s @ [r], sc_next_row := Suc r\<rparr>"
  shows "core gs (sc_pending s') s'" "balance s' q' = balance s q' - (if q' = q then 1 else 0)"
    "r' < sc_next_row s \<Longrightarrow> view_at gs s' r' = view_at gs s r'"
proof -
  have k: "keyed s" and d: "distinct (all_rows gs @ sc_pending s)" and ok: "\<And>g. g \<in> set gs \<Longrightarrow> group_ok s g"
    and was: "\<And>r'. r' \<in> set (all_rows gs @ sc_pending s) \<Longrightarrow>
      r' < sc_next_row s \<and> \<not> rw_completed (sc_rows s r') \<and> \<not> rw_finished (sc_rows s r')"
    and stp: "\<And>g r'. g \<in> set gs \<Longrightarrow> r' \<in> set (g_rows g) \<Longrightarrow>
      int (rw_step (sc_rows s r')) < go_max_tokens (rq_options (request_of s r'))"
    and all: "\<And>r'. r' < sc_next_row s \<Longrightarrow> \<not> rw_completed (sc_rows s r') \<Longrightarrow> r' \<in> set (all_rows gs @ sc_pending s)"
    using c unfolding core_def by blast+
  have old: "sc_rows s' r' = sc_rows s r'" if "r' < sc_next_row s" for r' using that r s' by simp
  have rqs: "sc_requests s' = sc_requests s" using s' by simp
  have next_row: "sc_next_row s' = Suc (sc_next_row s)" "sc_rows s' (sc_next_row s) = row" using s' r by simp_all
  have in_groups: "r' < sc_next_row s" if "g \<in> set gs" "r' \<in> set (g_rows g)" for g r'
    using ok [OF that(1)] that(2) by (auto simp: group_ok_def)
  have less: "r' < sc_next_row s \<or> r' = sc_next_row s" if "r' < sc_next_row s'" for r' using that next_row by auto
  have keys: "key s' r' = (if r' = sc_next_row s then (q, i) else key s r')" if "r' < sc_next_row s'" for r'
    using less [OF that] old [of r'] next_row row by (auto simp: key_def)
  have pend: "sc_pending s' = sc_pending s @ [sc_next_row s]" using s' r by simp
  show "core gs (sc_pending s') s'"
    unfolding core_def pend
  proof (intro conjI allI ballI impI)
    show "keyed s'"
      unfolding keyed_def
    proof (intro conjI allI impI inj_onI)
      show "valid_row s' r'" if "r' < sc_next_row s'" for r'
        using less [OF that] old [of r'] next_row row i rqs keyed_valid [OF k, of r'] by (auto simp: valid_row_def Let_def)
      show "x = y" if "x \<in> {..<sc_next_row s'}" "y \<in> {..<sc_next_row s'}" "key s' x = key s' y" for x y
        using that less [of x] less [of y] keys [of x] keys [of y] new [of x] new [of y] keyed_neq [OF k, of x y]
        by (simp split: if_splits) metis+
    qed
    show "group_ok s' g" if "g \<in> set gs" for g
      by (rule group_ok_new_row [OF ok [OF that] rqs]) (use next_row old in auto)
    show "distinct (all_rows gs @ sc_pending s @ [sc_next_row s])" using d was by auto
    show "r' < sc_next_row s'" "\<not> rw_completed (sc_rows s' r')" "\<not> rw_finished (sc_rows s' r')"
      if "r' \<in> set (all_rows gs @ sc_pending s @ [sc_next_row s])" for r'
      using that was [of r'] old [of r'] next_row row by auto
    show "int (rw_step (sc_rows s' r')) < go_max_tokens (rq_options (request_of s' r'))"
      if "g \<in> set gs" "r' \<in> set (g_rows g)" for g r'
      using stp [OF that] in_groups [OF that] old [of r'] rqs by simp
    show "r' \<in> set (all_rows gs @ sc_pending s @ [sc_next_row s])"
      if "r' < sc_next_row s'" "\<not> rw_completed (sc_rows s' r')" for r'
      using that(2) less [OF that(1)] old [of r'] all [of r'] by auto
  qed
  have "r' \<in> open_rows s' q' \<longleftrightarrow> r' = sc_next_row s \<and> q' = q \<or> r' \<in> open_rows s q'" for r'
  proof (cases "r' < sc_next_row s")
    case True
    then show ?thesis using old [OF True] next_row by (simp add: open_rows_def)
  next
    case False
    then show ?thesis using next_row row by (auto simp: open_rows_def less_Suc_eq)
  qed
  then have "open_rows s' q' = (if q' = q then insert (sc_next_row s) (open_rows s q') else open_rows s q')" by auto
  moreover have "sc_next_row s \<notin> open_rows s q'" by (simp add: open_rows_def)
  ultimately show "balance s' q' = balance s q' - (if q' = q then 1 else 0)"
    by (cases "q' = q") (simp_all add: balance_def rqs)
  show "view_at gs s' r' = view_at gs s r'" if "r' < sc_next_row s"
    using old [OF that] rqs by (simp add: view_at_def loc_def)
qed

lemma admit_rows_spec:
  fixes s :: "('st, 'lg, 'sp, 'o) sched"
  assumes "core gs (sc_pending s) s" "distinct is"
    and "\<And>i r. i \<in> set is \<Longrightarrow> r < sc_next_row s \<Longrightarrow> key s r \<noteq> (q, i)"
    and "\<And>i. i \<in> set is \<Longrightarrow> i < length (rq_states (sc_requests s q)) \<and> i < length (rq_logits (sc_requests s q)) \<and>
      i < length (gs_reasons (rq_stats (sc_requests s q))) \<and> i < length (gs_matched (rq_stats (sc_requests s q)))"
  defines "s' \<equiv> admit_rows q is s"
  shows "core gs (sc_pending s') s' \<and> (\<forall>q'. balance s' q' = balance s q' - (if q' = q then int (length is) else 0)) \<and>
    (\<forall>r < sc_next_row s. view_at gs s' r = view_at gs s r \<and> sc_rows s' r = sc_rows s r) \<and>
    (\<forall>r. sc_next_row s \<le> r \<longrightarrow> r < sc_next_row s' \<longrightarrow> rw_request (sc_rows s' r) = q) \<and>
    sc_next_row s \<le> sc_next_row s' \<and>
    sc_requests s' = sc_requests s \<and> sc_groups s' = sc_groups s \<and> sc_incoming s' = sc_incoming s \<and>
    sc_next_request s' = sc_next_request s \<and> sc_max_rows s' = sc_max_rows s \<and> sc_stopping s' = sc_stopping s"
  using assms(1-4) unfolding s'_def
proof (induction "is" arbitrary: s)
  case (Cons i rest)
  let ?r = "sc_next_row s"
  define row where "row = \<lparr>rw_request = q, rw_index = i, rw_step = 0, rw_token = 0, rw_finished = False,
                 rw_completed = False, rw_pending = [],
                 rw_tail = (if length (rq_states (sc_requests s q)) = 1 then rq_tail (sc_requests s q) else []),
                 rw_buffered = 0, rw_saved = None :: 'sp option\<rparr>"
  define s1 where "s1 = s\<lparr>sc_rows := (sc_rows s)(?r := row), sc_pending := sc_pending s @ [?r], sc_next_row := Suc ?r\<rparr>"
  have run: "admit_rows q (i # rest) s = admit_rows q rest s1"
    by (simp add: s1_def row_def Let_def)
  have row: "rw_request row = q" "rw_index row = i" "\<not> rw_finished row" "\<not> rw_completed row" by (simp_all add: row_def)
  note N = core_new_row [OF Cons.prems(1) refl row _ _ _ _ _ s1_def]
  have c1: "core gs (sc_pending s1) s1" by (rule N(1)) (use Cons.prems(3,4) in auto)
  have b1: "balance s1 q' = balance s q' - (if q' = q then 1 else 0)" for q'
    by (rule N(2)) (use Cons.prems(3,4) in auto)
  have v1: "view_at gs s1 r = view_at gs s r" if "r < ?r" for r
    by (rule N(3)) (use Cons.prems(3,4) that in auto)
  have k1: "key s1 r \<noteq> (q, j)" if "j \<in> set rest" "r < sc_next_row s1" for j r
    using Cons.prems(2,3) that row by (auto simp: s1_def key_def less_Suc_eq)
  have "i < length (rq_states (sc_requests s1 q)) \<and> i < length (rq_logits (sc_requests s1 q)) \<and>
      i < length (gs_reasons (rq_stats (sc_requests s1 q))) \<and> i < length (gs_matched (rq_stats (sc_requests s1 q)))"
    if "i \<in> set rest" for i
    using Cons.prems(4) [of i] that by (simp add: s1_def)
  note I = Cons.IH [OF c1 _ k1 this]
  have s1: "sc_requests s1 = sc_requests s" "sc_groups s1 = sc_groups s" "sc_incoming s1 = sc_incoming s"
    "sc_next_request s1 = sc_next_request s" "sc_max_rows s1 = sc_max_rows s" "sc_stopping s1 = sc_stopping s"
    "sc_next_row s1 = Suc ?r" "\<And>r. r < ?r \<Longrightarrow> sc_rows s1 r = sc_rows s r" "sc_rows s1 ?r = row"
    by (simp_all add: s1_def)
  have "rw_request (sc_rows (admit_rows q rest s1) r) = q" if "?r \<le> r" "r < sc_next_row (admit_rows q rest s1)" for r
  proof (cases "r = ?r")
    case True
    then show ?thesis using I Cons.prems(2) s1 row by simp
  next
    case False
    then show ?thesis using I Cons.prems(2) s1 that by simp
  qed
  then show ?case
    using I Cons.prems(2) b1 v1 unfolding run s1 by (auto simp: s1)
qed simp

section \<open>The invariant of runs\<close>

text \<open>What holds of the requests, while those in \<open>inc\<close> are not admitted yet.\<close>

definition reqs :: "nat list \<Rightarrow> ('st, 'lg, 'sp, 'o) sched \<Rightarrow> bool" where
  "reqs inc s \<longleftrightarrow>
     distinct inc \<and> (\<forall>q \<in> set inc. q < sc_next_request s) \<and>
     (\<forall>r < sc_next_row s. rw_request (sc_rows s r) < sc_next_request s \<and> rw_request (sc_rows s r) \<notin> set inc) \<and>
     (\<forall>q < sc_next_request s.
        length (rq_logits (sc_requests s q)) = length (rq_states (sc_requests s q)) \<and>
        length (gs_reasons (rq_stats (sc_requests s q))) = length (rq_states (sc_requests s q)) \<and>
        length (gs_matched (rq_stats (sc_requests s q))) = length (rq_states (sc_requests s q)) \<and>
        done_ok (sc_requests s q) \<and>
        balance s q = (if q \<in> set inc then int (length (rq_states (sc_requests s q))) else 0))"

definition sched_inv :: "('st, 'lg, 'sp, 'o) sched \<Rightarrow> bool" where
  "sched_inv s \<longleftrightarrow>
     core (sc_groups s) (sc_pending s) s \<and> reqs (sc_incoming s) s \<and>
     occupied_rows (sc_groups s) \<le> sc_max_rows s"

lemma reqs_mild:
  assumes "reqs inc s" "mild R s s'" "R \<subseteq> {..<sc_next_row s}"
  shows "reqs inc s'"
proof -
  have f: "length (rq_states (sc_requests s' q)) = length (rq_states (sc_requests s q))"
    "length (rq_logits (sc_requests s' q)) = length (rq_logits (sc_requests s q))"
    "length (gs_reasons (rq_stats (sc_requests s' q))) = length (gs_reasons (rq_stats (sc_requests s q)))"
    "length (gs_matched (rq_stats (sc_requests s' q))) = length (gs_matched (rq_stats (sc_requests s q)))" for q
    using assms(2) fixed_fields [of "sc_requests s' q" "sc_requests s q"] by (auto simp: mild_def)
  have "balance s' q = balance s q" "done_ok (sc_requests s q) \<Longrightarrow> done_ok (sc_requests s' q)" for q
    using assms(2,3) by (simp_all add: mild_def)
  moreover have "sc_next_row s' = sc_next_row s" "sc_next_request s' = sc_next_request s"
    using assms(2) by (simp_all add: mild_def)
  ultimately show ?thesis
    using assms(1) mild_request(1) [OF assms(2)] unfolding reqs_def f by simp
qed

lemma admit_spec:
  assumes c: "core gs (sc_pending s) s" and r: "reqs (q # inc) s"
  defines "s' \<equiv> admit q s"
  shows "core gs (sc_pending s') s' \<and> reqs inc s' \<and>
    (\<forall>r < sc_next_row s. view_at gs s' r = view_at gs s r \<and> sc_rows s' r = sc_rows s r) \<and>
    sc_next_row s \<le> sc_next_row s' \<and>
    sc_requests s' = sc_requests s \<and> sc_groups s' = sc_groups s \<and> sc_incoming s' = sc_incoming s \<and>
    sc_next_request s' = sc_next_request s \<and> sc_max_rows s' = sc_max_rows s \<and> sc_stopping s' = sc_stopping s"
proof -
  let ?is = "[0..<length (rq_states (sc_requests s q))]"
  have q: "q < sc_next_request s" "q \<notin> set inc" and new: "rw_request (sc_rows s r) \<noteq> q" if "r < sc_next_row s" for r
    using r that by (auto simp: reqs_def)
  have q': "q < sc_next_request s" "q \<notin> set inc" using r by (auto simp: reqs_def)
  have A: "core gs (sc_pending s') s' \<and> (\<forall>q'. balance s' q' = balance s q' - (if q' = q then int (length ?is) else 0)) \<and>
    (\<forall>r < sc_next_row s. view_at gs s' r = view_at gs s r \<and> sc_rows s' r = sc_rows s r) \<and>
    (\<forall>r. sc_next_row s \<le> r \<longrightarrow> r < sc_next_row s' \<longrightarrow> rw_request (sc_rows s' r) = q) \<and>
    sc_next_row s \<le> sc_next_row s' \<and>
    sc_requests s' = sc_requests s \<and> sc_groups s' = sc_groups s \<and> sc_incoming s' = sc_incoming s \<and>
    sc_next_request s' = sc_next_request s \<and> sc_max_rows s' = sc_max_rows s \<and> sc_stopping s' = sc_stopping s"
    unfolding s'_def admit_def
    by (rule admit_rows_spec [OF c]) (use r q' new in \<open>auto simp: key_def reqs_def\<close>)
  have "rw_request (sc_rows s' r) < sc_next_request s \<and> rw_request (sc_rows s' r) \<notin> set inc" if "r < sc_next_row s'" for r
    using A that r q' by (cases "r < sc_next_row s") (auto simp: reqs_def)
  then have "reqs inc s'" using A r q' unfolding reqs_def by auto
  then show ?thesis using A by blast
qed

lemma admit_all_spec:
  assumes "core gs (sc_pending s) s" "reqs inc s"
  defines "s' \<equiv> fold admit inc s"
  shows "core gs (sc_pending s') s' \<and> reqs [] s' \<and>
    (\<forall>r < sc_next_row s. view_at gs s' r = view_at gs s r \<and> sc_rows s' r = sc_rows s r) \<and>
    sc_next_row s \<le> sc_next_row s' \<and>
    sc_requests s' = sc_requests s \<and> sc_groups s' = sc_groups s \<and> sc_incoming s' = sc_incoming s \<and>
    sc_next_request s' = sc_next_request s \<and> sc_max_rows s' = sc_max_rows s \<and> sc_stopping s' = sc_stopping s"
  using assms(1,2) unfolding s'_def
proof (induction inc arbitrary: s)
  case (Cons q inc)
  note A = admit_spec [OF Cons.prems]
  note I = Cons.IH [of "admit q s"]
  show ?case using A I by (auto intro: less_le_trans le_trans)
qed simp

section \<open>The sweep\<close>

definition evolves where
  "evolves E f gs s gs' s' \<longleftrightarrow>
     sc_next_row s \<le> sc_next_row s' \<and>
     (\<forall>r < sc_next_row s. key s' r = key s r \<and> fixed (request_of s' r) = fixed (request_of s r) \<and>
        (rq_cancelled (request_of s r) \<longrightarrow> rq_cancelled (request_of s' r)) \<and>
        (\<not> rq_cancelled (request_of s' r) \<longrightarrow>
           moves E f (request_of s r) (view_at gs s r) (view_at gs' s' r)))"

lemma evolves_trans:
  assumes "evolves E f gs s gs' s'" "evolves E f gs' s' gs'' s''"
  shows "evolves E f gs s gs'' s''"
  unfolding evolves_def
proof (intro conjI allI impI)
  show "sc_next_row s \<le> sc_next_row s''" using assms by (simp add: evolves_def)
  fix r assume r: "r < sc_next_row s"
  then have r': "r < sc_next_row s'" using assms(1) by (auto simp: evolves_def intro: less_le_trans)
  note A = assms(1) [unfolded evolves_def, THEN conjunct2, rule_format, OF r]
  note B = assms(2) [unfolded evolves_def, THEN conjunct2, rule_format, OF r']
  show "key s'' r = key s r" "fixed (request_of s'' r) = fixed (request_of s r)" using A B by simp_all
  show "rq_cancelled (request_of s'' r)" if "rq_cancelled (request_of s r)" using A B that by blast
  show "moves E f (request_of s r) (view_at gs s r) (view_at gs'' s'' r)" if nc: "\<not> rq_cancelled (request_of s'' r)"
  proof -
    have nc': "\<not> rq_cancelled (request_of s' r)" using B nc by blast
    have "moves E f (request_of s' r) = moves E f (request_of s r)" using A by (intro moves_fixed) simp
    then show ?thesis using A B nc nc' moves_trans by metis
  qed
qed

lemma mild_evolves:
  assumes "mild R s s'" "\<And>r. r < sc_next_row s \<Longrightarrow> \<not> rq_cancelled (request_of s' r) \<Longrightarrow>
    moves E f (request_of s r) (view_at gs s r) (view_at gs' s' r)"
  shows "evolves E f gs s gs' s'"
  unfolding evolves_def
  using assms mild_key [OF assms(1)] mild_fixed [OF assms(1)] mild_cancelled [OF assms(1)] by (simp add: mild_def)

lemma all_rows_filter:
  "all_rows (filter (\<lambda>g. \<not> (g_rows g = [] \<and> g_incoming g = [])) gs) = all_rows gs"
  by (induction gs) auto

lemma find_slot_filter:
  "find_slot (filter (\<lambda>g. \<not> (g_rows g = [] \<and> g_incoming g = [])) gs) r = find_slot gs r"
  by (induction gs) (auto simp: find_slot_Cons)

lemma cancel_rows_groups [simp]: "sc_groups (cancel_rows rows s) = sc_groups s"
  unfolding cancel_rows_def by (induction rows arbitrary: s) (auto simp: upd_request_def)

lemma check_stops_groups [simp]: "sc_groups (check_stops answers rows s) = sc_groups s"
  unfolding check_stops_def
  by (induction rows arbitrary: s) (auto simp: upd_request_def Let_def split: stop_answer.split)

lemma core_groups: "core gs pend (s\<lparr>sc_groups := x\<rparr>) = core gs pend s" "core gs pend (s\<lparr>sc_incoming := y\<rparr>) = core gs pend s"
  "core gs pend (s\<lparr>sc_pending := z\<rparr>) = core gs pend s"
  by (simp_all add: core_def keyed_def valid_row_def key_def [abs_def] group_ok_def)

lemma reqs_groups: "reqs inc (s\<lparr>sc_groups := x\<rparr>) = reqs inc s" "reqs inc (s\<lparr>sc_incoming := y\<rparr>) = reqs inc s"
  "reqs inc (s\<lparr>sc_pending := z\<rparr>) = reqs inc s"
  by (simp_all add: reqs_def balance_def open_rows_def)

lemma view_groups: "view_at gs (s\<lparr>sc_groups := x\<rparr>) r = view_at gs s r" "view_at gs (s\<lparr>sc_incoming := y\<rparr>) r = view_at gs s r"
  "view_at gs (s\<lparr>sc_pending := z\<rparr>) r = view_at gs s r"
  by (simp_all add: view_at_def loc_def)

lemma evolves_groups: "evolves E f gs s gs' (s'\<lparr>sc_groups := x\<rparr>) = evolves E f gs s gs' s'"
  "evolves E f gs s gs' (s'\<lparr>sc_incoming := y\<rparr>) = evolves E f gs s gs' s'"
  "evolves E f gs s gs' (s'\<lparr>sc_pending := z\<rparr>) = evolves E f gs s gs' s'"
  "evolves E f gs (s\<lparr>sc_incoming := y\<rparr>) gs' s' = evolves E f gs s gs' s'"
  by (simp_all add: evolves_def view_groups key_def)

lemma core_subset: "core gs pend s \<Longrightarrow> set (all_rows gs @ pend) \<subseteq> {..<sc_next_row s}"
  by (auto simp: core_def)

lemma sweep_spec:
  fixes s :: "('st, 'lg, 'sp, 'o) sched"
  assumes inv: "sched_inv s" and fwd: "rowwise_decode E f"
  shows "sched_inv (sweep E answers s) \<and> evolves E f (sc_groups s) s (sc_groups (sweep E answers s)) (sweep E answers s) \<and>
    sc_next_request (sweep E answers s) = sc_next_request s \<and> sc_max_rows (sweep E answers s) = sc_max_rows s \<and>
    sc_stopping (sweep E answers s) = sc_stopping s \<and> sc_incoming (sweep E answers s) = [] \<and>
    evolves E f (sc_groups s) (fold admit (sc_incoming s) (s\<lparr>sc_incoming := []\<rparr>)) (sc_groups (sweep E answers s)) (sweep E answers s) \<and>
    (let s1 = fold admit (sc_incoming s) (s\<lparr>sc_incoming := []\<rparr>) in mild {..<sc_next_row s1} s1 (sweep E answers s))"
proof -
  define s1 where "s1 = fold admit (sc_incoming s) (s\<lparr>sc_incoming := []\<rparr>)"
  define s2 where "s2 = (if sc_stopping s then cancel_rows (sc_pending s1) s1 else s1)"
  obtain kept s2' where al: "admit_loop (sc_pending s2) (occupied_rows (sc_groups s2)) s2 = (kept, s2')" by fastforce
  define s3 where "s3 = s2'\<lparr>sc_pending := kept\<rparr>"
  have s3: "admit_pending s2 = s3" by (simp add: admit_pending_def al s3_def)
  define s4 where "s4 = check_stops answers (concat (map (\<lambda>g. g_rows g @ g_incoming g) (sc_groups s3)) @ sc_pending s3) s3"
  obtain gs s5 where sg: "step_groups E (sc_stopping s) (sc_groups s4) s4 = (gs, s5)" by fastforce
  let ?gs = "filter (\<lambda>g. \<not> (g_rows g = [] \<and> g_incoming g = [])) gs"
  have sweep: "sweep E answers s = s5\<lparr>sc_groups := ?gs\<rparr>"
    unfolding sweep_def Let_def s1_def [symmetric] s2_def [symmetric] s3 s4_def [symmetric] sg by simp
  have A1: "core (sc_groups s) (sc_pending s1) s1 \<and> reqs [] s1 \<and>
    (\<forall>r < sc_next_row s. view_at (sc_groups s) s1 r = view_at (sc_groups s) s r \<and> sc_rows s1 r = sc_rows s r) \<and>
    sc_next_row s \<le> sc_next_row s1 \<and> sc_requests s1 = sc_requests s \<and> sc_groups s1 = sc_groups s \<and> sc_incoming s1 = [] \<and>
    sc_next_request s1 = sc_next_request s \<and> sc_max_rows s1 = sc_max_rows s \<and> sc_stopping s1 = sc_stopping s"
    using admit_all_spec [of "sc_groups s" "s\<lparr>sc_incoming := []\<rparr>" "sc_incoming s"] inv
    unfolding sched_inv_def s1_def core_groups reqs_groups view_groups by simp
  have e1: "evolves E f (sc_groups s) s (sc_groups s) s1" using A1 unfolding evolves_def key_def by simp
  have m2: "mild {} s1 s2" unfolding s2_def by (simp add: cancel_rows_mild)
  have p2: "sc_pending s2 = sc_pending s1" by (simp add: s2_def)
  have g2: "sc_groups s2 = sc_groups s1" by (simp add: s2_def)
  have n2: "sc_next_row s2 = sc_next_row s1" "sc_max_rows s2 = sc_max_rows s1" using m2 by (simp_all add: mild_def)
  have c2: "core (sc_groups s2) ([] @ sc_pending s2) s2" using core_mild [OF _ m2] A1 g2 p2 by simp
  have k1: "keyed s1" using A1 by (simp add: core_def)
  have e2: "evolves E f (sc_groups s) s1 (sc_groups s2) s2"
    by (rule mild_evolves [OF m2]) (simp add: view_mild [OF m2 k1] A1 g2)
  note A3 = admit_loop_spec [OF c2 al, of E f]
  have m3: "mild (set (sc_pending s2)) s2 s2'" using A3 by blast
  have e3: "evolves E f (sc_groups s2) s2 (sc_groups s3) s3"
    unfolding s3_def evolves_groups by (simp, rule mild_evolves [OF m3]) (simp add: A3)
  have c3: "core (sc_groups s3) (sc_pending s3) s3" using A3 by (simp add: s3_def core_groups)
  have r2: "reqs [] s2" using reqs_mild [OF _ m2] A1 by blast
  have r3: "reqs [] s3"
    using reqs_mild [OF r2 m3] core_subset [OF c2] by (simp add: s3_def reqs_groups)
  have m4: "mild {} s3 s4" by (simp add: s4_def check_stops_mild)
  have g4: "sc_groups s4 = sc_groups s3" "sc_pending s4 = sc_pending s3" by (simp_all add: s4_def)
  have c4: "core ([] @ sc_groups s4) (sc_pending s4) s4" using core_mild [OF c3 m4] g4 by simp
  have r4: "reqs [] s4" using reqs_mild [OF r3 m4] by simp
  have k3: "keyed s3" using c3 by (simp add: core_def)
  have e4: "evolves E f (sc_groups s3) s3 (sc_groups s4) s4"
    by (rule mild_evolves [OF m4]) (simp add: view_mild [OF m4 k3] g4)
  note A5 = step_groups_spec [OF fwd c4 sg, unfolded append_Nil]
  have m5: "mild (set (all_rows (sc_groups s4))) s4 s5" using A5 by blast
  have e5: "evolves E f (sc_groups s4) s4 gs s5"
  proof (rule mild_evolves [OF m5])
    fix r assume r: "r < sc_next_row s4" "\<not> rq_cancelled (request_of s5 r)"
    show "moves E f (request_of s4 r) (view_at (sc_groups s4) s4 r) (view_at gs s5 r)"
      using A5 r by (cases "r \<in> set (all_rows (sc_groups s4))") auto
  qed
  have r5: "reqs [] s5" by (rule reqs_mild [OF r4 m5]) (use core_subset [OF c4] in auto)
  have "evolves E f (sc_groups s) s1 gs s5"
    using evolves_trans [OF evolves_trans [OF evolves_trans [OF e2 e3] e4] e5] .
  then have ev1: "evolves E f (sc_groups s) s1 ?gs s5"
    unfolding evolves_def view_at_def find_slot_filter .
  have ev: "evolves E f (sc_groups s) s ?gs s5" by (rule evolves_trans [OF e1 ev1])
  have same: "sc_next_request s5 = sc_next_request s" "sc_max_rows s5 = sc_max_rows s" "sc_stopping s5 = sc_stopping s"
    "sc_incoming s5 = []" "sc_max_rows s2 = sc_max_rows s" "sc_max_rows s2' = sc_max_rows s"
    using A1 m2 m3 m4 m5 by (simp_all add: mild_def s3_def)
  have "core ?gs (sc_pending s5) s5"
    using A5 unfolding core_def all_rows_filter by auto
  moreover have "occupied_rows ?gs \<le> sc_max_rows s5"
  proof -
    have "occupied_rows (sc_groups s2) \<le> sc_max_rows s2" using inv A1 g2 same by (simp add: sched_inv_def)
    then have "occupied_rows (sc_groups s2') \<le> sc_max_rows s2" using A3 by simp
    then have "length (all_rows (sc_groups s4)) \<le> sc_max_rows s" using g4 same by (simp add: occupied_all_rows s3_def)
    then show ?thesis unfolding occupied_all_rows all_rows_filter using A5 same by simp
  qed
  ultimately have "sched_inv (sweep E answers s)"
    using r5 same unfolding sched_inv_def sweep by (simp add: core_groups reqs_groups)
  moreover have "mild {..<sc_next_row s1} s1 s5"
  proof -
    have n: "sc_next_row s3 = sc_next_row s1" "sc_next_row s4 = sc_next_row s1"
      using m2 m3 m4 by (simp_all add: mild_def s3_def)
    have "mild {..<sc_next_row s1} s1 s2" by (rule mild_mono [OF m2]) simp
    moreover have "mild {..<sc_next_row s1} s2 s3"
      unfolding s3_def mild_same by (rule mild_mono [OF m3]) (use core_subset [OF c2] n2 in auto)
    moreover have "mild {..<sc_next_row s1} s3 s4" by (rule mild_mono [OF m4]) simp
    moreover have "mild {..<sc_next_row s1} s4 s5" by (rule mild_mono [OF m5]) (use core_subset [OF c4] n in auto)
    ultimately show ?thesis by (meson mild_trans)
  qed
  ultimately show ?thesis using ev ev1 same unfolding sweep evolves_groups s1_def [symmetric] Let_def by simp
qed

section \<open>The request side\<close>

lemma touches_mild_groups: "mild R s s' \<Longrightarrow> sc_groups s' = sc_groups s \<Longrightarrow> sc_pending s' = sc_pending s \<Longrightarrow> R = {} \<Longrightarrow>
    sched_inv s \<Longrightarrow> sched_inv s' \<and> evolves E f (sc_groups s) s (sc_groups s') s'"
  apply (intro conjI)
  subgoal unfolding sched_inv_def using core_mild [of _ _ s s'] reqs_mild [of _ s R s'] by (auto simp: mild_def)
  subgoal by (rule mild_evolves) (auto simp: sched_inv_def core_def view_mild)
  done

lemma drain_part: "part (rq\<lparr>rq_taken := rq_taken rq @ rq_events rq, rq_events := []\<rparr>) j = part rq j"
  by (simp add: SchedulerRows.part_def row_text_def)

lemma drain_mild: "mild {} s (drain q s)"
  by (auto simp: mild_def drain_def upd_request_def fixed_def key_def balance_def open_rows_def done_ok_def drain_part)

lemma submit_cases [consumes 1, case_names ok]:
  assumes "submit ok su s = Inr s'"
  obtains rq where "length (su_states su) = length (su_logits su)" "su_logits su \<noteq> []" "\<not> sc_stopping s"
    "s' = s\<lparr>sc_requests := (sc_requests s)(sc_next_request s := rq), sc_next_request := Suc (sc_next_request s),
            sc_incoming := sc_incoming s @ [sc_next_request s]\<rparr>"
    "length (rq_states rq) = length (su_logits su)" "length (rq_logits rq) = length (su_logits su)"
    "length (gs_reasons (rq_stats rq)) = length (su_logits su)" "length (gs_matched (rq_stats rq)) = length (su_logits su)"
    "\<not> rq_done rq" "rq_remaining rq = int (length (su_logits su))"
  using assms unfolding submit_def Let_def by (auto split: if_splits)

lemma submit_spec:
  assumes "submit ok su s = Inr s'" "sched_inv s"
  shows "sched_inv s' \<and> evolves E f (sc_groups s) s (sc_groups s') s'"
  using assms(1)
proof (cases rule: submit_cases)
  case (ok rq)
  let ?q = "sc_next_request s"
  have c: "core (sc_groups s) (sc_pending s) s" and r: "reqs (sc_incoming s) s" and occ: "occupied_rows (sc_groups s) \<le> sc_max_rows s"
    using assms(2) by (auto simp: sched_inv_def)
  have rows: "sc_rows s' = sc_rows s" "sc_next_row s' = sc_next_row s" "sc_groups s' = sc_groups s" "sc_pending s' = sc_pending s"
    "sc_max_rows s' = sc_max_rows s" "sc_incoming s' = sc_incoming s @ [?q]" "sc_next_request s' = Suc ?q"
    "sc_requests s' = (sc_requests s)(?q := rq)"
    using ok(4) by simp_all
  have old: "request_of s' r = request_of s r" if "r < sc_next_row s" for r
    using r that rows by (auto simp: reqs_def)
  have key: "key s' = key s" by (simp add: key_def [abs_def] rows)
  have "open_rows s ?q = {}" using r by (auto simp: reqs_def open_rows_def)
  then have b: "balance s' q = (if q = ?q then int (length (su_logits su)) else balance s q)" for q
    using ok(10) by (simp add: balance_def open_rows_def rows)
  have "keyed s'" using c old unfolding core_def keyed_def key valid_row_def Let_def by (simp add: rows)
  moreover have "group_ok s' g" if "g \<in> set (sc_groups s)" for g
  proof -
    have g: "group_ok s g" using c that by (simp add: core_def)
    then have "request_of s' r = request_of s r" if "r \<in> set (g_rows g)" for r
      using old that by (auto simp: group_ok_def)
    then show ?thesis using g unfolding group_ok_def by (simp add: rows cong: map_cong)
  qed
  moreover have "int (rw_step (sc_rows s r)) < go_max_tokens (rq_options (request_of s' r))"
    if "g \<in> set (sc_groups s)" "r \<in> set (g_rows g)" for g r
    using c old [of r] that by (auto simp: core_def group_ok_def)
  ultimately have "core (sc_groups s') (sc_pending s') s'"
    using c unfolding core_def by (simp add: rows)
  moreover have "reqs (sc_incoming s') s'"
    using r b ok(2,5-10) unfolding reqs_def rows by (auto simp: less_Suc_eq done_ok_def intro: less_trans)
  moreover have "evolves E f (sc_groups s) s (sc_groups s') s'"
    unfolding evolves_def key using old by (simp add: rows view_at_def loc_def)
  ultimately show ?thesis using occ by (simp add: sched_inv_def rows)
qed

lemma sched_apply_spec:
  assumes "sched_inv s" "rowwise_decode E f"
  shows "sched_inv (sched_apply E ok l s) \<and>
    evolves E f (sc_groups s) s (sc_groups (sched_apply E ok l s)) (sched_apply E ok l s)"
proof (cases l)
  case (Submit su)
  show ?thesis
  proof (cases "submit ok su s")
    case (Inr s')
    then show ?thesis using submit_spec [OF Inr assms(1)] Submit by simp
  qed (use assms(1) Submit in \<open>simp add: evolves_def\<close>)
next
  case (Sweep answers)
  then show ?thesis using sweep_spec [OF assms] by simp
next
  case (Drain q)
  have "sc_groups (drain q s) = sc_groups s" "sc_pending (drain q s) = sc_pending s" by (simp_all add: drain_def upd_request_def)
  from touches_mild_groups [OF drain_mild this refl assms(1)] show ?thesis using Drain by simp
next
  case (Cancel q)
  have "mild {} s (cancel q s)" "sc_groups (cancel q s) = sc_groups s" "sc_pending (cancel q s) = sc_pending s"
    unfolding cancel_def by (rule cancel_mild(1)) (simp_all add: upd_request_def)
  from touches_mild_groups [OF this refl assms(1)] show ?thesis using Cancel by simp
next
  case Shutdown
  have "sched_inv (s\<lparr>sc_stopping := True\<rparr>)"
    using assms(1)
    by (simp add: sched_inv_def core_def keyed_def valid_row_def key_def [abs_def] group_ok_def reqs_def balance_def open_rows_def)
  moreover have "evolves E f (sc_groups s) s (sc_groups s) (s\<lparr>sc_stopping := True\<rparr>)"
    by (simp add: evolves_def key_def view_at_def loc_def)
  ultimately show ?thesis using Shutdown by simp
qed

lemma sched_apply_max_rows:
  assumes "sched_inv s" "rowwise_decode E f"
  shows "sc_max_rows (sched_apply E ok l s) = sc_max_rows s"
  using sweep_spec [OF assms]
  by (cases l) (auto simp: drain_def cancel_def upd_request_def submit_def Let_def)

lemma sched_fold_spec:
  assumes "sched_inv s" "rowwise_decode E f"
  shows "sched_inv (fold (sched_apply E ok) ls s) \<and>
    evolves E f (sc_groups s) s (sc_groups (fold (sched_apply E ok) ls s)) (fold (sched_apply E ok) ls s)"
  using assms(1)
proof (induction ls arbitrary: s)
  case (Cons l ls)
  note A = sched_apply_spec [OF Cons.prems assms(2), of ok l]
  show ?case using A Cons.IH [of "sched_apply E ok l s"] evolves_trans by (metis fold_Cons_rev fold_simps(2))
qed (simp add: evolves_def)

lemma scheduler_inv: "sched_inv (scheduler max_rows)"
  by (simp add: sched_inv_def scheduler_def core_def keyed_def reqs_def occupied_rows_def)

lemma run_sched_inv: "rowwise_decode E f \<Longrightarrow> sched_inv (run_sched E ok max_rows ls)"
  unfolding run_sched_def using sched_fold_spec [OF scheduler_inv] by blast

lemma run_sched_append: "run_sched E ok max_rows (ls @ ls') = fold (sched_apply E ok) ls' (run_sched E ok max_rows ls)"
  by (simp add: run_sched_def)

section \<open>Shutting down\<close>

lemma cancel_rows_cancelled: "r \<in> set rows \<Longrightarrow> rq_cancelled (request_of (cancel_rows rows s) r)"
proof (induction rows arbitrary: s)
  case (Cons x rows)
  let ?s = "upd_request (rw_request (sc_rows s x)) (\<lambda>rq. rq\<lparr>rq_cancelled := True\<rparr>) s"
  have eq: "cancel_rows (x # rows) s = cancel_rows rows ?s" by (simp add: cancel_rows_def)
  show ?case
  proof (cases "r = x")
    case True
    have "rq_cancelled (request_of ?s x)" by (simp add: upd_request_def)
    then show ?thesis using mild_cancelled [OF cancel_rows_mild] True unfolding eq by blast
  qed (use Cons in \<open>simp add: eq\<close>)
qed simp

lemma group_step_all_cancelled:
  assumes "keyed s" "group_ok s g" "group_step E g s = (threw, g', s')"
    and "\<forall>r \<in> set (g_rows g @ g_incoming g). rq_cancelled (request_of s r)"
  shows "\<not> threw" "g_rows g' = []" "g_incoming g' = []" "sc_pending s' = sc_pending s"
proof -
  obtain g1 s1 where rb: "rebuild E True g s = (g1, s1)" by fastforce
  obtain paused where p: "sc_pending s1 = sc_pending s @ paused" "set paused \<subseteq> set (g_rows g)" "g_incoming g1 = []"
    "set (g_rows g1) \<subseteq> set (g_rows g) \<union> set (g_incoming g)"
    "\<And>r. r \<in> set (g_rows g) \<Longrightarrow> row_fate True s s1 g (set (g_rows g1)) (set paused) r"
    "\<And>r. r \<in> set (g_incoming g) \<Longrightarrow> join_fate s s1 g1 r"
    using rebuild_spec [OF assms(1,2) rb] by blast
  have "r \<notin> set (g_rows g1)" if "r \<in> set (g_rows g) \<union> set (g_incoming g)" for r
    using that p(5,6) [of r] assms(4) by (auto simp: row_fate_def join_fate_def)
  then have e: "g_rows g1 = []" using p(4) by (metis list.set_intros(1) neq_Nil_conv subsetD)
  have "r \<notin> set paused" for r
    using p(2) p(5) [of r] assms(4) by (auto simp: row_fate_def)
  then have "paused = []" by (metis list.set_intros(1) neq_Nil_conv)
  then show "\<not> threw" "g_rows g' = []" "g_incoming g' = []" "sc_pending s' = sc_pending s"
    using assms(3) rb e p(1,3) by (simp_all add: group_step_def)
qed

lemma step_groups_shutdown:
  assumes "rowwise_decode E f" "core (A @ gs) (sc_pending s) s" "step_groups E True gs s = (gs', s')"
  shows "(\<forall>g \<in> set gs'. g_rows g = [] \<and> g_incoming g = []) \<and> sc_pending s' = sc_pending s"
  using assms(2,3)
proof (induction gs arbitrary: A s gs')
  case (Cons g gs)
  define s1 where "s1 = cancel_rows (g_rows g @ g_incoming g) s"
  obtain threw g2 s2 where st: "group_step E g s1 = (threw, g2, s2)" by (metis prod_cases3)
  obtain g3 s3 where fl: "(if threw then fail_group g2 s2 else (g2, s2)) = (g3, s3)" by fastforce
  obtain hs s4 where rec: "step_groups E True gs s3 = (hs, s4)" by fastforce
  have res: "gs' = g3 # hs" "s' = s4"
    using Cons.prems(2) st fl rec by (simp_all add: s1_def [symmetric] Let_def)
  have m1: "mild {} s s1" by (simp add: s1_def cancel_rows_mild)
  have p1: "sc_pending s1 = sc_pending s" by (simp add: s1_def)
  have c1: "core (A @ g # gs) (sc_pending s1) s1" using core_mild [OF Cons.prems(1) m1] by (simp add: p1)
  have k1: "keyed s1" "group_ok s1 g" using c1 by (auto simp: core_def)
  have "\<forall>r \<in> set (g_rows g @ g_incoming g). rq_cancelled (request_of s1 r)"
    unfolding s1_def by (intro ballI cancel_rows_cancelled)
  note G = group_step_all_cancelled [OF k1 st this]
  have g3: "g3 = g2" "s3 = s2" using fl G(1) by auto
  have c3: "core ((A @ [g3]) @ gs) (sc_pending s3) s3" using step_one(1) [OF c1 assms(1) st fl] by simp
  show ?case using Cons.IH [OF c3 rec [folded res(2)]] G(2-4) g3 p1 by (simp add: res(1))
qed simp

lemma admit_loop_all_cancelled:
  assumes "core (sc_groups s) (P @ pend) s" "\<forall>r \<in> set pend. rq_cancelled (request_of s r)"
  shows "fst (admit_loop pend occupied s) = []"
  using assms
proof (induction pend arbitrary: s)
  case (Cons r rest)
  have m: "mild {r} s (complete r s)" and g: "sc_groups (complete r s) = sc_groups s"
    using touches_mild [OF complete_touches [of r s]] complete_touches [of r s] by (simp_all add: touches_def)
  have "core (sc_groups (complete r s)) (P @ rest) (complete r s)" using core_complete [OF Cons.prems(1)] g by simp
  moreover have "\<forall>r' \<in> set rest. rq_cancelled (request_of (complete r s) r')"
    using mild_cancelled [OF m] Cons.prems(2) by auto
  ultimately show ?case using Cons.IH [of "complete r s"] Cons.prems(2) by (simp add: Let_def)
qed simp

lemma sweep_shutdown:
  fixes s :: "('st, 'lg, 'sp, 'o) sched"
  assumes inv: "sched_inv s" and fwd: "rowwise_decode E f" and stop: "sc_stopping s"
  shows "sc_groups (sweep E answers s) = [] \<and> sc_pending (sweep E answers s) = []"
proof -
  define s1 where "s1 = fold admit (sc_incoming s) (s\<lparr>sc_incoming := []\<rparr>)"
  define s2 where "s2 = cancel_rows (sc_pending s1) s1"
  obtain kept s2' where al: "admit_loop (sc_pending s2) (occupied_rows (sc_groups s2)) s2 = (kept, s2')" by fastforce
  define s3 where "s3 = s2'\<lparr>sc_pending := kept\<rparr>"
  have s3: "admit_pending s2 = s3" by (simp add: admit_pending_def al s3_def)
  define s4 where "s4 = check_stops answers (concat (map (\<lambda>g. g_rows g @ g_incoming g) (sc_groups s3)) @ sc_pending s3) s3"
  obtain gs s5 where sg: "step_groups E True (sc_groups s4) s4 = (gs, s5)" by fastforce
  have sweep: "sweep E answers s = s5\<lparr>sc_groups := filter (\<lambda>g. \<not> (g_rows g = [] \<and> g_incoming g = [])) gs\<rparr>"
    using stop unfolding sweep_def Let_def by (simp only: if_True s1_def [symmetric] s2_def [symmetric] s3 s4_def [symmetric] sg prod.case)
  have A1: "core (sc_groups s) (sc_pending s1) s1" "sc_groups s1 = sc_groups s"
    using admit_all_spec [of "sc_groups s" "s\<lparr>sc_incoming := []\<rparr>" "sc_incoming s"] inv
    unfolding sched_inv_def s1_def core_groups reqs_groups view_groups by simp_all
  have g2: "sc_groups s2 = sc_groups s1" "sc_pending s2 = sc_pending s1" by (simp_all add: s2_def)
  have c2: "core (sc_groups s2) ([] @ sc_pending s2) s2"
    using core_mild [OF A1(1) cancel_rows_mild] A1(2) g2 by (simp add: s2_def)
  have "\<forall>r \<in> set (sc_pending s2). rq_cancelled (request_of s2 r)"
    unfolding g2 unfolding s2_def by (intro ballI cancel_rows_cancelled)
  from admit_loop_all_cancelled [OF c2 this] al have kept: "kept = []" by (metis fst_conv)
  have "core (sc_groups s3) (sc_pending s3) s3"
    using admit_loop_spec [OF c2 al] by (simp add: s3_def core_groups)
  then have c4: "core ([] @ sc_groups s4) (sc_pending s4) s4"
    using core_mild [OF _ check_stops_mild] by (simp add: s4_def)
  have "sc_pending s4 = []" by (simp add: s4_def s3_def kept)
  then show ?thesis using step_groups_shutdown [OF fwd c4 sg] by (simp add: sweep)
qed

section \<open>Whole runs\<close>

definition row_view :: "('st, 'lg, 'sp, 'o) sched \<Rightarrow> nat \<Rightarrow> ('st, 'lg, 'sp) view" where
  "row_view s r = view_at (sc_groups s) s r"

lemma solo_step_sampler: "vw_done (solo_step E f rq sp v) \<or> vw_sampler (solo_step E f rq sp v) \<noteq> None"
  by (auto simp: solo_step_def solo_token_def solo_finish_def solo_flush_def Let_def split: prod.split)

lemma solo_step_seed:
  assumes "vw_done v \<or> vw_sampler v \<noteq> None"
  shows "solo_step E f rq sp v = solo_step E f rq sp' v"
  using assms by (auto simp: solo_step_def)

lemma moves_iterated: "moves E f rq v v' \<Longrightarrow> \<exists>sp k. v' = (solo_step E f rq sp ^^ k) v"
proof -
  have settled: "fold (solo_step E f rq) sps v = (solo_step E f rq sp ^^ length sps) v"
    if "vw_done v \<or> vw_sampler v \<noteq> None" for sps sp v
    using that
  proof (induction sps arbitrary: v)
    case (Cons x sps)
    then show ?case
      using solo_step_seed [OF Cons.prems, of E f rq x sp] solo_step_sampler [of E f rq sp v]
      by (simp add: funpow_swap1)
  qed simp
  assume "moves E f rq v v'"
  then obtain sps where v': "v' = fold (solo_step E f rq) sps v" by (auto simp: moves_def)
  show ?thesis
  proof (cases sps)
    case Nil
    then show ?thesis using v' by (intro exI [of _ undefined] exI [of _ 0]) simp
  next
    case (Cons sp rest)
    then have "v' = (solo_step E f rq sp ^^ Suc (length rest)) v"
      using v' settled [OF solo_step_sampler, of rest E f rq sp v sp] by (simp add: funpow_swap1)
    then show ?thesis by blast
  qed
qed

lemma row_view_results:
  assumes "sched_inv s" "rw_completed (sc_rows s r)"
  shows "row_view s r = view_of None (loc s r)"
proof -
  have "r \<notin> set (all_rows (sc_groups s))" using assms by (auto simp: sched_inv_def core_def)
  then show ?thesis by (simp add: row_view_def view_at_def find_slot_out)
qed



text \<open>
  C37. The rows decoded together, those joining a batch included, never exceed the limit the
  scheduler was built with.
\<close>

theorem scheduler_capacity:
  assumes "rowwise_decode E f"
  shows "occupied_rows (sc_groups (run_sched E ok max_rows ls)) \<le> max_rows"
proof -
  have "sc_max_rows (fold (sched_apply E ok) ls s) = sc_max_rows s" if "sched_inv s" for s
    using that
  proof (induction ls arbitrary: s)
    case (Cons l ls)
    then show ?case using sched_apply_spec [OF Cons.prems assms, of ok l] sched_apply_max_rows [OF Cons.prems assms, of ok l] by simp
  qed simp
  from this [OF scheduler_inv] have "sc_max_rows (run_sched E ok max_rows ls) = max_rows"
    by (simp add: run_sched_def) (simp add: scheduler_def)
  then show ?thesis using run_sched_inv [OF assms, of ok max_rows ls] by (simp add: sched_inv_def)
qed

text \<open>
  C16. Shutting down ends everything in one turn of the loop: after it no batch, no pending row and
  no arrival is left, so the loop exits, and every request ever accepted is done, so no caller is
  left waiting.
\<close>

theorem shutdown_drains:
  assumes "rowwise_decode E f" "s = run_sched E ok max_rows ls" "sc_stopping s"
  shows "let s' = sweep E answers s in sc_groups s' = [] \<and> sc_pending s' = [] \<and> sc_incoming s' = [] \<and>
    sc_next_request s' = sc_next_request s \<and> (\<forall>q < sc_next_request s. rq_done (sc_requests s' q))"
proof -
  have inv: "sched_inv s" unfolding assms(2) by (rule run_sched_inv [OF assms(1)])
  define s' where "s' = sweep E answers s"
  have e: "sc_groups s' = []" "sc_pending s' = []" using sweep_shutdown [OF inv assms(1,3)] by (simp_all add: s'_def)
  have inv': "sched_inv s'" and n: "sc_next_request s' = sc_next_request s"
    using sweep_spec [OF inv assms(1)] by (simp_all add: s'_def)
  have i: "sc_incoming s' = []" using sweep_spec [OF inv assms(1)] by (simp add: s'_def)
  have "rq_done (sc_requests s' q)" if "q < sc_next_request s" for q
  proof -
    have "open_rows s' q = {}" using inv' e by (auto simp: sched_inv_def core_def open_rows_def)
    then show ?thesis using inv' i n that by (auto simp: sched_inv_def reqs_def balance_def done_ok_def)
  qed
  then show ?thesis using e i n unfolding s'_def [symmetric] Let_def by blast
qed

section \<open>Witnesses\<close>

definition demo_row :: "token \<Rightarrow> int \<Rightarrow> int \<times> int" where
  "demo_row t st = (3 * st + t, 3 * st + t + 1)"

definition demo_engine :: "(int, int, nat, unit) engine" where
  "demo_engine =
     \<lparr>be_decode = (\<lambda>toks sts. Some (map2 (\<lambda>t st. fst (demo_row t st)) toks sts, map2 (\<lambda>t st. snd (demo_row t st)) toks sts)),
      be_sample = (\<lambda>_ n lg sp. ((lg + int sp) mod 7, Suc (n + sp))),
      be_text = (\<lambda>t. [word_of_int (65 + t)]),
      be_fresh = (\<lambda>seed i. seed + i)\<rparr>"

lemma demo_engine_rowwise: "rowwise_decode demo_engine demo_row"
  by (simp add: rowwise_decode_def demo_engine_def)

definition demo_submission :: "int list \<Rightarrow> int \<Rightarrow> (int, int, unit) submission" where
  "demo_submission sts n =
     \<lparr>su_states = sts, su_logits = sts, su_tail = [], su_adapter = [], su_wkv32 = False,
      su_options = \<lparr>go_max_tokens = n, go_stop_tokens = [6], go_stop = None, go_sampling = ()\<rparr>,
      su_chunk = 1, su_notify = True\<rparr>"

abbreviation demo_run :: "(int, int, unit) sched_label list \<Rightarrow> (int, int, nat, unit) sched" where
  "demo_run \<equiv> run_sched demo_engine (\<lambda>_. True) 3"

abbreviation demo_before :: "(int, int, unit) sched_label list" where
  "demo_before \<equiv> [Submit (demo_submission [1] 2), Sweep (\<lambda>_. Continue)]"

abbreviation demo_after :: "(int, int, unit) sched_label list" where
  "demo_after \<equiv> [Drain 0, Submit (demo_submission [5] 1), Sweep (\<lambda>_. Continue)]"

lemma demo_before_facts:
  "(let s = demo_run demo_before in (sc_next_row s, rw_step (sc_rows s 0), sc_next_request s)) = (1, 1, 1)"
  by code_simp

lemma demo_after_facts:
  "(let s = demo_run (demo_before @ demo_after) in (rq_cancelled (request_of s 0), rw_completed (sc_rows s 0))) = (False, True)"
  by code_simp



theorem scheduler_capacity_witness: "occupied_rows (sc_groups (demo_run demo_before)) \<le> 3"
  by (rule scheduler_capacity [OF demo_engine_rowwise])

theorem shutdown_drains_witness:
  "rq_done (sc_requests (sweep demo_engine (\<lambda>_. Continue) (demo_run (demo_before @ [Shutdown]))) 0)"
proof -
  have s: "demo_run (demo_before @ [Shutdown]) = (demo_run demo_before)\<lparr>sc_stopping := True\<rparr>"
    by (simp only: run_sched_append fold_simps sched_apply.simps)
  then have "sc_stopping (demo_run (demo_before @ [Shutdown]))" "0 < sc_next_request (demo_run (demo_before @ [Shutdown]))"
    using demo_before_facts unfolding s Let_def prod.inject by auto
  then show ?thesis
    using shutdown_drains [OF demo_engine_rowwise refl, of "\<lambda>_. True" 3 "demo_before @ [Shutdown]" "\<lambda>_. Continue"]
    unfolding Let_def by blast
qed

end
