(* ===== verification/SchedulerRequests.thy ===== *)
theory SchedulerRequests
  imports SchedulerRuns
begin

text \<open>
  A request from its submission to its result: the rows that are admitted for it start from what was
  submitted, and when the request is done each of them has run the lone generation to its end, which
  comes after at most \<open>max_tokens\<close> steps.
\<close>

section \<open>The start of a request\<close>

definition request_for :: "('st, 'lg, 'o) submission \<Rightarrow> ('st, 'lg, 'o) request" where
  "request_for su =
     (let n = length (su_logits su) in
      \<lparr>rq_states = su_states su, rq_logits = su_logits su, rq_tail = su_tail su,
       rq_adapter = su_adapter su, rq_wkv32 = su_wkv32 su, rq_options = su_options su,
       rq_stops = text_stop_matcher (case go_stop (su_options su) of None \<Rightarrow> [] | Some ss \<Rightarrow> ss),
       rq_chunk = su_chunk su, rq_notify = su_notify su,
       rq_stats = \<lparr>gs_generated = 0, gs_stopped = False, gs_stop_token = False,
                   gs_reasons = replicate n ''length'', gs_matched = replicate n []\<rparr>,
       rq_events = [], rq_taken = [], rq_cancelled = False, rq_done = False, rq_error = False,
       rq_remaining = int n\<rparr>)"

lemma submit_request:
  assumes "submit ok su s = Inr s'"
  shows "s' = s\<lparr>sc_requests := (sc_requests s)(sc_next_request s := request_for su),
      sc_next_request := Suc (sc_next_request s), sc_incoming := sc_incoming s @ [sc_next_request s]\<rparr>"
    "length (su_states su) = length (su_logits su)"
  using assms by (auto simp: submit_def request_for_def Let_def split: if_splits)

text \<open>A row of a request before its first step.\<close>

definition first_view :: "('st, 'lg, 'o) request \<Rightarrow> nat \<Rightarrow> ('st, 'lg, 'sp) view" where
  "first_view rq i =
     \<lparr>vw_state = rq_states rq ! i, vw_logits = rq_logits rq ! i, vw_sampler = None, vw_step = 0, vw_pending = [],
      vw_tail = (if length (rq_states rq) = 1 then rq_tail rq else []), vw_buffered = 0, vw_done = False,
      vw_matched = gs_matched (rq_stats rq) ! i, vw_text = [], vw_reason = gs_reasons (rq_stats rq) ! i\<rparr>"

definition first_row :: "('st, 'lg, 'o) request \<Rightarrow> nat \<Rightarrow> nat \<Rightarrow> 'sp row" where
  "first_row rq q i =
     \<lparr>rw_request = q, rw_index = i, rw_step = 0, rw_token = 0, rw_finished = False, rw_completed = False,
      rw_pending = [], rw_tail = (if length (rq_states rq) = 1 then rq_tail rq else []), rw_buffered = 0, rw_saved = None\<rparr>"

lemma admit_rows_rows:
  "sc_next_row (admit_rows q is s) = sc_next_row s + length is \<and>
   (\<forall>j < length is. sc_rows (admit_rows q is s) (sc_next_row s + j) = first_row (sc_requests s q) q (is ! j)) \<and>
   (\<forall>r < sc_next_row s. sc_rows (admit_rows q is s) r = sc_rows s r)"
proof (induction "is" arbitrary: s)
  case (Cons i rest)
  define s1 where "s1 = s\<lparr>sc_rows := (sc_rows s)(sc_next_row s := first_row (sc_requests s q) q i),
    sc_pending := sc_pending s @ [sc_next_row s], sc_next_row := Suc (sc_next_row s)\<rparr>"
  have run: "admit_rows q (i # rest) s = admit_rows q rest s1" by (simp add: s1_def first_row_def Let_def)
  have s1: "sc_next_row s1 = Suc (sc_next_row s)" "sc_requests s1 = sc_requests s"
    "sc_rows s1 (sc_next_row s) = first_row (sc_requests s q) q i" "\<And>r. r < sc_next_row s \<Longrightarrow> sc_rows s1 r = sc_rows s r"
    by (simp_all add: s1_def)
  note I = Cons.IH [of s1, unfolded s1(1,2)]
  have "sc_rows (admit_rows q rest s1) (sc_next_row s + j) = first_row (sc_requests s q) q ((i # rest) ! j)"
    if "j < length (i # rest)" for j
    using I s1(3) that by (cases j) auto
  then show ?case unfolding run using I s1(4) by auto
qed simp

lemma admit_all_rows:
  assumes "core gs (sc_pending s) s" "reqs inc s" "q \<in> set inc"
  shows "\<exists>r0 \<ge> sc_next_row s. \<forall>i < length (rq_states (sc_requests s q)).
    r0 + i < sc_next_row (fold admit inc s) \<and> sc_rows (fold admit inc s) (r0 + i) = first_row (sc_requests s q) q i"
  using assms
proof (induction inc arbitrary: s)
  case (Cons x inc)
  note A = admit_spec [OF Cons.prems(1,2)]
  show ?case
  proof (cases "x = q")
    case True
    let ?n = "length (rq_states (sc_requests s q))"
    note R = admit_rows_rows [of q "[0..<?n]" s, folded admit_def]
    have A': "core gs (sc_pending (admit q s)) (admit q s)" "reqs inc (admit q s)" using A True by simp_all
    note B = admit_all_spec [OF A']
    have "sc_next_row s + i < sc_next_row (fold admit inc (admit q s)) \<and>
        sc_rows (fold admit inc (admit q s)) (sc_next_row s + i) = first_row (sc_requests s q) q i" if "i < ?n" for i
    proof -
      have lt: "sc_next_row s + i < sc_next_row (admit q s)" using R that by simp
      then have "sc_rows (fold admit inc (admit q s)) (sc_next_row s + i) = sc_rows (admit q s) (sc_next_row s + i)"
        using B by blast
      moreover have "sc_next_row s + i < sc_next_row (fold admit inc (admit q s))" using B lt by (auto intro: less_le_trans)
      ultimately show ?thesis using R that by simp
    qed
    then show ?thesis using True by auto
  next
    case False
    then have "q \<in> set inc" using Cons.prems(3) by simp
    moreover have "core gs (sc_pending (admit x s)) (admit x s)" "reqs inc (admit x s)" using A by simp_all
    ultimately obtain r0 where "r0 \<ge> sc_next_row (admit x s)"
      "\<forall>i < length (rq_states (sc_requests (admit x s) q)). r0 + i < sc_next_row (fold admit inc (admit x s)) \<and>
         sc_rows (fold admit inc (admit x s)) (r0 + i) = first_row (sc_requests (admit x s) q) q i"
      using Cons.IH by blast
    then show ?thesis using A by (intro exI [of _ r0]) auto
  qed
qed simp

section \<open>A request on its way\<close>

text \<open>Waiting for admission, or admitted with its rows started from the submission \<open>rq0\<close>.\<close>

definition waiting :: "('st, 'lg, 'o) request \<Rightarrow> ('st, 'lg, 'o) request \<Rightarrow> bool" where
  "waiting rq0 rq \<longleftrightarrow>
     fixed rq = fixed rq0 \<and> rq_states rq = rq_states rq0 \<and> rq_logits rq = rq_logits rq0 \<and> rq_tail rq = rq_tail rq0 \<and>
     gs_matched (rq_stats rq) = gs_matched (rq_stats rq0) \<and> gs_reasons (rq_stats rq) = gs_reasons (rq_stats rq0) \<and>
     rq_events rq = [] \<and> rq_taken rq = []"

definition carried where
  "carried E f rq0 q s \<longleftrightarrow>
     q < sc_next_request s \<and>
     (if q \<in> set (sc_incoming s) then waiting rq0 (sc_requests s q)
      else \<exists>r0. \<forall>i < length (rq_states rq0).
        r0 + i < sc_next_row s \<and> key s (r0 + i) = (q, i) \<and> fixed (sc_requests s q) = fixed rq0 \<and>
        (\<not> rq_cancelled (sc_requests s q) \<longrightarrow> moves E f rq0 (first_view rq0 i) (row_view s (r0 + i))))"

lemma carried_evolves:
  assumes c: "carried E f rq0 q s" and ni: "q \<notin> set (sc_incoming s)" "q \<notin> set (sc_incoming s')"
    and ev: "evolves E f (sc_groups s) s (sc_groups s') s'" and n: "sc_next_request s \<le> sc_next_request s'"
  shows "carried E f rq0 q s'"
proof -
  obtain r0 where r0: "\<forall>i < length (rq_states rq0).
      r0 + i < sc_next_row s \<and> key s (r0 + i) = (q, i) \<and> fixed (sc_requests s q) = fixed rq0 \<and>
      (\<not> rq_cancelled (sc_requests s q) \<longrightarrow> moves E f rq0 (first_view rq0 i) (row_view s (r0 + i)))"
    using c ni(1) by (auto simp: carried_def)
  have "r0 + i < sc_next_row s' \<and> key s' (r0 + i) = (q, i) \<and> fixed (sc_requests s' q) = fixed rq0 \<and>
      (\<not> rq_cancelled (sc_requests s' q) \<longrightarrow> moves E f rq0 (first_view rq0 i) (row_view s' (r0 + i)))"
    if i: "i < length (rq_states rq0)" for i
  proof -
    let ?r = "r0 + i"
    have r: "?r < sc_next_row s" "key s ?r = (q, i)" "fixed (sc_requests s q) = fixed rq0" using r0 i by auto
    have e: "key s' ?r = key s ?r" "fixed (request_of s' ?r) = fixed (request_of s ?r)"
      "rq_cancelled (request_of s ?r) \<longrightarrow> rq_cancelled (request_of s' ?r)"
      "\<not> rq_cancelled (request_of s' ?r) \<longrightarrow> moves E f (request_of s ?r) (row_view s ?r) (row_view s' ?r)"
      "sc_next_row s \<le> sc_next_row s'"
      using ev r(1) unfolding evolves_def row_view_def by blast+
    have q: "rw_request (sc_rows s ?r) = q" "rw_request (sc_rows s' ?r) = q" using r(2) e(1) by (simp_all add: key_def)
    have "moves E f rq0 = moves E f (sc_requests s q)" by (rule moves_fixed) (use r(3) in simp)
    then show ?thesis using e r r0 i unfolding q using moves_trans by (metis order_less_le_trans)
  qed
  then have "\<exists>r0. \<forall>i < length (rq_states rq0).
      r0 + i < sc_next_row s' \<and> key s' (r0 + i) = (q, i) \<and> fixed (sc_requests s' q) = fixed rq0 \<and>
      (\<not> rq_cancelled (sc_requests s' q) \<longrightarrow> moves E f rq0 (first_view rq0 i) (row_view s' (r0 + i)))" by blast
  then show ?thesis using c n ni(2) by (simp add: carried_def)
qed

lemma carried_sweep:
  assumes inv: "sched_inv s" and fwd: "rowwise_decode E f" and c: "carried E f rq0 q s" and i: "q \<in> set (sc_incoming s)"
  shows "carried E f rq0 q (sweep E answers s)"
proof -
  let ?s' = "sweep E answers s"
  define s1 where "s1 = fold admit (sc_incoming s) (s\<lparr>sc_incoming := []\<rparr>)"
  have w: "waiting rq0 (sc_requests s q)" and q: "q < sc_next_request s" using c i by (simp_all add: carried_def)
  have co: "core (sc_groups s) (sc_pending s) s" and re: "reqs (sc_incoming s) s" using inv by (auto simp: sched_inv_def)
  have c0: "core (sc_groups s) (sc_pending (s\<lparr>sc_incoming := []\<rparr>)) (s\<lparr>sc_incoming := []\<rparr>)" "reqs (sc_incoming s) (s\<lparr>sc_incoming := []\<rparr>)"
    using co re by (simp_all add: core_groups reqs_groups)
  obtain r0 where r0: "r0 \<ge> sc_next_row s" "\<forall>i < length (rq_states (sc_requests s q)).
      r0 + i < sc_next_row s1 \<and> sc_rows s1 (r0 + i) = first_row (sc_requests s q) q i"
    using admit_all_rows [OF c0 i] by (auto simp: s1_def)
  have req: "sc_requests s1 = sc_requests s" "sc_groups s1 = sc_groups s" "sc_next_request s1 = sc_next_request s" "sc_incoming s1 = []"
    using admit_all_spec [OF c0] by (simp_all add: s1_def)
  have ev: "evolves E f (sc_groups s1) s1 (sc_groups ?s') ?s'" and si: "sc_incoming ?s' = []" "sc_next_request ?s' = sc_next_request s"
    using sweep_spec [OF inv fwd, of answers] unfolding s1_def [symmetric] req(2) by blast+
  have st: "rq_states (sc_requests s q) = rq_states rq0" "fixed (sc_requests s q) = fixed rq0" using w by (simp_all add: waiting_def)
  have "carried E f rq0 q s1"
  proof -
    have "r0 + i < sc_next_row s1 \<and> key s1 (r0 + i) = (q, i) \<and> fixed (sc_requests s1 q) = fixed rq0 \<and>
        (\<not> rq_cancelled (sc_requests s1 q) \<longrightarrow> moves E f rq0 (first_view rq0 i) (row_view s1 (r0 + i)))"
      if i: "i < length (rq_states rq0)" for i
    proof -
      have r: "r0 + i < sc_next_row s1" "sc_rows s1 (r0 + i) = first_row (sc_requests s q) q i" using r0(2) i st by simp_all
      have k: "key s1 (r0 + i) = (q, i)" by (simp add: key_def r(2) first_row_def)
      have "r0 + i \<notin> set (all_rows (sc_groups s))" using core_subset [OF co] r0(1) by auto
      then have "row_view s1 (r0 + i) = view_of None (loc s1 (r0 + i))" by (simp add: row_view_def view_at_def find_slot_out req(2))
      then have "row_view s1 (r0 + i) = first_view rq0 i" if "\<not> rq_cancelled (sc_requests s1 q)"
        using that w by (simp add: loc_def r(2) first_row_def view_of_def first_view_def SchedulerRows.part_def req waiting_def row_text_def)
      then show ?thesis using r(1) k st(2) by (simp add: req)
    qed
    then have "\<exists>r0. \<forall>i < length (rq_states rq0). r0 + i < sc_next_row s1 \<and> key s1 (r0 + i) = (q, i) \<and>
        fixed (sc_requests s1 q) = fixed rq0 \<and>
        (\<not> rq_cancelled (sc_requests s1 q) \<longrightarrow> moves E f rq0 (first_view rq0 i) (row_view s1 (r0 + i)))" by blast
    then show ?thesis using q req by (simp add: carried_def)
  qed
  then show ?thesis by (rule carried_evolves [OF _ _ _ ev]) (use req si in simp_all)
qed


lemma sched_apply_arrivals:
  assumes "sched_inv s" "rowwise_decode E f"
  shows "sc_next_request s \<le> sc_next_request (sched_apply E ok l s)"
    "q \<notin> set (sc_incoming s) \<Longrightarrow> q < sc_next_request s \<Longrightarrow> q \<notin> set (sc_incoming (sched_apply E ok l s))"
proof -
  have "sc_next_request s \<le> sc_next_request (sched_apply E ok l s) \<and>
      (q \<notin> set (sc_incoming s) \<longrightarrow> q < sc_next_request s \<longrightarrow> q \<notin> set (sc_incoming (sched_apply E ok l s)))"
  proof (cases l)
    case (Submit su)
    show ?thesis
    proof (cases "submit ok su s")
      case (Inr s')
      then show ?thesis using submit_request(1) [OF Inr] Submit by simp
    qed (use Submit in simp)
  next
    case (Sweep answers)
    then show ?thesis using sweep_spec [OF assms, of answers] by simp
  qed (simp_all add: drain_def cancel_def upd_request_def)
  then show "sc_next_request s \<le> sc_next_request (sched_apply E ok l s)"
    "q \<notin> set (sc_incoming s) \<Longrightarrow> q < sc_next_request s \<Longrightarrow> q \<notin> set (sc_incoming (sched_apply E ok l s))"
    by blast+
qed

lemma carried_waiting:
  assumes c: "carried E f rq0 q s" and i: "q \<in> set (sc_incoming s)" and l: "\<forall>answers. l \<noteq> Sweep answers"
  shows "carried E f rq0 q (sched_apply E ok l s)"
proof -
  have w: "waiting rq0 (sc_requests s q)" and q: "q < sc_next_request s" using c i by (simp_all add: carried_def)
  show ?thesis
  proof (cases l)
    case (Submit su)
    show ?thesis
    proof (cases "submit ok su s")
      case (Inr s')
      then show ?thesis using submit_request(1) [OF Inr] Submit w q i by (simp add: carried_def)
    qed (use c Submit in simp)
  next
    case (Drain q')
    then show ?thesis using w q i by (auto simp: carried_def drain_def upd_request_def waiting_def fixed_def)
  next
    case (Cancel q')
    then show ?thesis using w q i by (auto simp: carried_def cancel_def upd_request_def waiting_def fixed_def)
  next
    case Shutdown
    then show ?thesis using w q i by (simp add: carried_def)
  qed (use l in blast)
qed

lemma carried_apply:
  assumes inv: "sched_inv s" and fwd: "rowwise_decode E f" and c: "carried E f rq0 q s"
  shows "carried E f rq0 q (sched_apply E ok l s)"
proof (cases "q \<in> set (sc_incoming s)")
  case True
  then show ?thesis
    using carried_waiting [OF c True, of l ok] carried_sweep [OF inv fwd c True] by (cases l) auto
next
  case False
  have q: "q < sc_next_request s" using c by (simp add: carried_def)
  have ev: "evolves E f (sc_groups s) s (sc_groups (sched_apply E ok l s)) (sched_apply E ok l s)"
    using sched_apply_spec [OF inv fwd] by blast
  show ?thesis
    by (rule carried_evolves [OF c False sched_apply_arrivals(2) [OF inv fwd False q] ev sched_apply_arrivals(1) [OF inv fwd]])
qed

lemma carried_run:
  assumes "sched_inv s" "rowwise_decode E f" "carried E f rq0 q s"
  shows "carried E f rq0 q (fold (sched_apply E ok) ls s)"
  using assms(1,3)
proof (induction ls arbitrary: s)
  case (Cons l ls)
  have "sched_inv (sched_apply E ok l s)" using sched_apply_spec [OF Cons.prems(1) assms(2)] by blast
  then show ?case using Cons.IH carried_apply [OF Cons.prems(1) assms(2) Cons.prems(2)] by simp
qed simp

lemma carried_start:
  assumes "submit ok su s = Inr s'"
  shows "carried E f (request_for su) (sc_next_request s) s'"
  unfolding submit_request(1) [OF assms] by (simp add: carried_def waiting_def) (simp add: request_for_def Let_def)

section \<open>No text for rows that do not exist\<close>

definition quiet :: "nat \<Rightarrow> ('st, 'lg, 'sp, 'o) sched \<Rightarrow> bool" where
  "quiet q s \<longleftrightarrow>
     q < sc_next_request s \<and>
     (\<not> rq_cancelled (sc_requests s q) \<longrightarrow>
       (\<forall>j \<ge> length (rq_states (sc_requests s q)). row_text (sc_requests s q) j = []))"

lemma quiet_sweep:
  assumes inv: "sched_inv s" and fwd: "rowwise_decode E f" and qu: "quiet q s"
  shows "quiet q (sweep E answers s)"
proof -
  let ?s' = "sweep E answers s"
  define s1 where "s1 = fold admit (sc_incoming s) (s\<lparr>sc_incoming := []\<rparr>)"
  have "core (sc_groups s) (sc_pending (s\<lparr>sc_incoming := []\<rparr>)) (s\<lparr>sc_incoming := []\<rparr>)" "reqs (sc_incoming s) (s\<lparr>sc_incoming := []\<rparr>)"
    using inv by (auto simp: sched_inv_def core_groups reqs_groups)
  from admit_all_spec [OF this] have req: "sc_requests s1 = sc_requests s" and k: "keyed s1"
    by (auto simp: s1_def core_def)
  have m: "mild {..<sc_next_row s1} s1 ?s'" and n: "sc_next_request ?s' = sc_next_request s"
    using sweep_spec [OF inv fwd, of answers] unfolding s1_def [symmetric] Let_def by blast+
  have len: "length (rq_states (sc_requests ?s' q)) = length (rq_states (sc_requests s q))"
    using m fixed_fields(6) unfolding mild_def req by blast
  have "row_text (sc_requests ?s' q) j = []"
    if j: "length (rq_states (sc_requests s q)) \<le> j" and nc: "\<not> rq_cancelled (sc_requests ?s' q)" for j
  proof -
    have c: "\<not> rq_cancelled (sc_requests s q)" using m nc unfolding mild_def req by blast
    have "key s1 r \<noteq> (q, j)" if "r < sc_next_row s1" for r
    proof -
      have "valid_row s1 r" using k that by (simp add: keyed_def)
      then show ?thesis using j by (auto simp: valid_row_def key_def Let_def req)
    qed
    then have "SchedulerRows.part (sc_requests ?s' q) j = SchedulerRows.part (sc_requests s1 q) j"
      using m nc unfolding mild_def by blast
    then show ?thesis using qu c j by (simp add: SchedulerRows.part_def quiet_def req)
  qed
  then show ?thesis using qu n len by (simp add: quiet_def)
qed

lemma row_text_drained: "row_text (rq\<lparr>rq_taken := rq_taken rq @ rq_events rq, rq_events := []\<rparr>) j = row_text rq j"
  by (simp add: row_text_def)

lemma quiet_apply:
  assumes "sched_inv s" "rowwise_decode E f" "quiet q s"
  shows "quiet q (sched_apply E ok l s)"
proof (cases l)
  case (Submit su)
  show ?thesis
  proof (cases "submit ok su s")
    case (Inr s')
    then show ?thesis using submit_request(1) [OF Inr] Submit assms(3) by (simp add: quiet_def)
  qed (use assms(3) Submit in simp)
next
  case (Sweep answers)
  then show ?thesis using quiet_sweep [OF assms] by simp
next
  case (Drain q')
  then show ?thesis
    using assms(3) row_text_drained [of "sc_requests s q"] by (cases "q' = q") (simp_all add: quiet_def drain_def upd_request_def)
next
  case (Cancel q')
  then show ?thesis
    using assms(3) by (cases "q' = q") (simp_all add: quiet_def cancel_def upd_request_def row_text_def)
next
  case Shutdown
  then show ?thesis using assms(3) by (simp add: quiet_def)
qed

lemma quiet_run:
  assumes "sched_inv s" "rowwise_decode E f" "quiet q s"
  shows "quiet q (fold (sched_apply E ok) ls s)"
  using assms(1,3)
proof (induction ls arbitrary: s)
  case (Cons l ls)
  have "sched_inv (sched_apply E ok l s)" using sched_apply_spec [OF Cons.prems(1) assms(2)] by blast
  then show ?case using Cons.IH quiet_apply [OF Cons.prems(1) assms(2) Cons.prems(2)] by simp
qed simp

section \<open>The lone generation\<close>

text \<open>
  Row \<open>i\<close> of a request generated by itself from one seed; \<open>max_tokens\<close> steps and one more are enough
  for it to end.
\<close>

definition lone ::
    "('st, 'lg, 'sp, 'o) engine \<Rightarrow> (token \<Rightarrow> 'st \<Rightarrow> 'st \<times> 'lg) \<Rightarrow> ('st, 'lg, 'o) request \<Rightarrow> nat \<Rightarrow> 'sp \<Rightarrow>
     ('st, 'lg, 'sp) view" where
  "lone E f rq i seed =
     (solo_step E f rq seed ^^ Suc (nat (go_max_tokens (rq_options rq)))) (first_view rq i)"

lemma solo_flush_fields [simp]:
  "vw_step (solo_flush b v) = vw_step v" "vw_done (solo_flush b v) = vw_done v"
  "vw_reason (solo_flush b v) = vw_reason v"
  by (simp_all add: solo_flush_def split: prod.split)

lemma solo_finish_done [simp]: "vw_done (solo_finish v)"
  by (simp add: solo_finish_def)

lemma solo_token_ends:
  "vw_done (solo_token E f rq sp v) \<or>
   vw_step (solo_token E f rq sp v) = Suc (vw_step v) \<and> int (Suc (vw_step v)) < go_max_tokens (rq_options rq)"
  by (auto simp: solo_token_def Let_def split: prod.split)

lemma solo_step_ends:
  "vw_done (solo_step E f rq sp v) \<or>
   vw_step (solo_step E f rq sp v) = Suc (vw_step v) \<and> int (Suc (vw_step v)) < go_max_tokens (rq_options rq)"
  using solo_token_ends [of E f rq _ v] by (simp add: solo_step_def)

lemma solo_steps_end:
  "vw_done ((solo_step E f rq sp ^^ Suc n) v) \<or>
   vw_step ((solo_step E f rq sp ^^ Suc n) v) = Suc (vw_step v + n) \<and>
   int (Suc (vw_step v + n)) < go_max_tokens (rq_options rq)"
proof (induction n)
  case 0
  show ?case using solo_step_ends [of E f rq sp v] by simp
next
  case (Suc n)
  define u where "u = (solo_step E f rq sp ^^ Suc n) v"
  have s: "(solo_step E f rq sp ^^ Suc (Suc n)) v = solo_step E f rq sp u" by (simp add: u_def)
  show ?case
  proof (cases "vw_done u")
    case True
    then have "solo_step E f rq sp u = u" by (simp add: solo_step_def)
    then show ?thesis unfolding s using True by simp
  next
    case False
    then show ?thesis unfolding s using Suc.IH [folded u_def] solo_step_ends [of E f rq sp u] by simp
  qed
qed

lemma lone_done: "vw_done (lone E f rq i seed)"
proof -
  have "vw_step (first_view rq i) = 0" by (simp add: first_view_def)
  then show ?thesis
    using solo_steps_end [of "nat (go_max_tokens (rq_options rq))" E f rq seed "first_view rq i"]
    unfolding lone_def by linarith
qed

lemma done_fixpoint: "vw_done v \<Longrightarrow> (solo_step E f rq sp ^^ k) v = v"
  by (induction k) (simp_all add: solo_step_def)

lemma done_unique:
  assumes "vw_done ((solo_step E f rq sp ^^ m) v)" "vw_done ((solo_step E f rq sp ^^ n) v)"
  shows "(solo_step E f rq sp ^^ m) v = (solo_step E f rq sp ^^ n) v"
  using assms
proof (induction m n rule: linorder_wlog)
  case (le m n)
  have "(solo_step E f rq sp ^^ n) v = (solo_step E f rq sp ^^ (n - m)) ((solo_step E f rq sp ^^ m) v)"
    using le(1) funpow_add [of "n - m" m "solo_step E f rq sp"] by simp
  also have "\<dots> = (solo_step E f rq sp ^^ m) v" by (rule done_fixpoint [OF le(2)])
  finally show ?case by simp
qed simp

lemma moves_lone:
  assumes "moves E f rq (first_view rq i) v" "vw_done v"
  shows "\<exists>seed. v = lone E f rq i seed"
proof -
  obtain sp k where v: "v = (solo_step E f rq sp ^^ k) (first_view rq i)" using moves_iterated [OF assms(1)] by blast
  have "v = lone E f rq i sp"
    unfolding v lone_def by (rule done_unique) (use assms(2) v lone_done [unfolded lone_def] in \<open>simp_all del: funpow.simps\<close>)
  then show ?thesis ..
qed

section \<open>The result of a request\<close>

text \<open>
  A request that is done and was not cancelled: each row ran its lone generation to the end, and the
  results are where the request keeps them.
\<close>

lemma request_result:
  fixes E :: "('st, 'lg, 'sp, 'o) engine"
  assumes fwd: "rowwise_decode E f"
    and su: "submit ok su (run_sched E ok max_rows before) = Inr s1" "q = sc_next_request (run_sched E ok max_rows before)"
    and rq: "rq = sc_requests (run_sched E ok max_rows (before @ Submit su # after)) q"
    and fin: "rq_done rq" "\<not> rq_cancelled rq" and i: "i < length (su_states su)"
  shows "\<exists>seed. let v = lone E f (request_for su) i seed in
    rq_states rq ! i = vw_state v \<and> rq_logits rq ! i = vw_logits v \<and> row_text rq i = vw_text v \<and>
    gs_matched (rq_stats rq) ! i = vw_matched v \<and> gs_reasons (rq_stats rq) ! i = vw_reason v"
    "length (gs_matched (rq_stats rq)) = length (su_states su)" "length (gs_reasons (rq_stats rq)) = length (su_states su)"
    "length (rq_states rq) = length (su_states su)" "length (rq_logits rq) = length (su_states su)"
    "length (su_states su) \<le> j \<Longrightarrow> row_text rq j = []"
proof -
  define s where "s = run_sched E ok max_rows (before @ Submit su # after)"
  let ?rq0 = "request_for su"
  have rq': "rq = sc_requests s q" by (simp add: rq s_def)
  have s0: "sched_inv (run_sched E ok max_rows before)" "sched_inv s" unfolding s_def by (rule run_sched_inv [OF fwd])+
  have s1: "sched_inv s1" using sched_apply_spec [OF s0(1) fwd, of ok "Submit su"] su(1) by simp
  have c: "carried E f ?rq0 q s"
    using carried_run [OF s1 fwd carried_start [OF su(1)], of ok after] su by (simp add: s_def run_sched_append)
  then have q: "q < sc_next_request s" by (simp add: carried_def)
  have n: "length (rq_states ?rq0) = length (su_states su)" by (simp add: request_for_def Let_def)
  have pos: "0 < length (su_states su)" using i by linarith
  have R: "reqs (sc_incoming s) s" using s0(2) by (simp add: sched_inv_def)
  have bal: "rq_remaining rq - int (card (open_rows s q)) =
      (if q \<in> set (sc_incoming s) then int (length (rq_states rq)) else 0)" and d: "rq_remaining rq \<le> 0"
    and len: "length (rq_logits rq) = length (rq_states rq)" "length (gs_reasons (rq_stats rq)) = length (rq_states rq)"
      "length (gs_matched (rq_stats rq)) = length (rq_states rq)"
    using R q fin(1) unfolding reqs_def balance_def done_ok_def rq' by simp_all
  have ni: "q \<notin> set (sc_incoming s)"
  proof
    assume i: "q \<in> set (sc_incoming s)"
    have f: "fixed rq = fixed ?rq0" using c i by (simp add: carried_def waiting_def rq')
    have "rq_remaining rq - int (card (open_rows s q)) = int (length (rq_states rq))" using bal i by simp
    then have "length (rq_states rq) = 0" using d by linarith
    then show False using f n pos by (simp add: fixed_def)
  qed
  then have e: "open_rows s q = {}" using bal d by simp
  obtain r0 where r0: "\<And>i. i < length (su_states su) \<Longrightarrow> r0 + i < sc_next_row s \<and> key s (r0 + i) = (q, i) \<and>
      fixed rq = fixed ?rq0 \<and> moves E f ?rq0 (first_view ?rq0 i) (row_view s (r0 + i))"
    using c ni fin(2) unfolding carried_def n rq' by auto
  let ?r = "r0 + i"
  have r: "?r < sc_next_row s" "rw_request (sc_rows s ?r) = q" "rw_index (sc_rows s ?r) = i"
    "moves E f ?rq0 (first_view ?rq0 i) (row_view s ?r)"
    using r0 [OF i] by (simp_all add: key_def)
  have comp: "rw_completed (sc_rows s ?r)" using e r(1,2) by (auto simp: open_rows_def)
  have "vw_done (row_view s ?r)" using comp by (simp add: row_view_def view_done)
  then obtain seed where v: "row_view s ?r = lone E f ?rq0 i seed" using moves_lone [OF r(4)] by blast
  have "row_view s ?r = view_of None (loc s ?r)" by (rule row_view_results [OF s0(2) comp])
  then show "\<exists>seed. let v = lone E f (request_for su) i seed in
    rq_states rq ! i = vw_state v \<and> rq_logits rq ! i = vw_logits v \<and> row_text rq i = vw_text v \<and>
    gs_matched (rq_stats rq) ! i = vw_matched v \<and> gs_reasons (rq_stats rq) ! i = vw_reason v"
    unfolding v using fin(2) r(2,3)
    by (intro exI [of _ seed]) (simp add: view_of_def loc_def SchedulerRows.part_def rq' Let_def)
  have l: "length (rq_states rq) = length (su_states su)" using r0 [OF i] n by (simp add: fixed_def)
  have "quiet q s1" unfolding submit_request(1) [OF su(1)] su(2) by (simp add: quiet_def request_for_def Let_def row_text_def)
  then have "quiet q s" using quiet_run [OF s1 fwd, of q ok after] su(1) by (simp add: s_def run_sched_append)
  then show "row_text rq j = []" if "length (su_states su) \<le> j" using that fin(2) l by (simp add: quiet_def rq')
  from l show "length (gs_matched (rq_stats rq)) = length (su_states su)" "length (gs_reasons (rq_stats rq)) = length (su_states su)"
    "length (rq_states rq) = length (su_states su)" "length (rq_logits rq) = length (su_states su)"
    using len by simp_all
qed

end
