(* ===== verification/Engine.thy ===== *)
theory Engine
  imports Prefill SchedulerRequests
begin

text \<open>
  The generation entry points of \<open>InferenceEngine\<close> (\<open>src/inference/rwkv_inference_engine.cpp\<close>), the
  code between the HTTP handlers and the scheduler: bind the adapter, encode and order the
  prompts, prefill them through the prompt cache or without it, submit the batch, and put the events
  and the statistics of the scheduler's rows back into the order of the prompts. Everything up to the
  submission is \<open>stream_prepare\<close> or \<open>single_prepare\<close>; what is done with the finished request
  is \<open>remap\<close>, \<open>stream_result\<close> and \<open>batch_outputs\<close>. The loops in between are the scheduler's.
\<close>

section \<open>Data\<close>

datatype engine_error =
    AdapterMismatch | StateBatchMismatch | SinglePromptOnly
  | PrefillFailed prefill_error | SubmitFailed submit_error

record 'st generation_state =
  gn_rows :: "'st list"
  gn_request :: request_state
  gn_tail :: bytes

text \<open>
  The options of a request beside those of the sampler: the adapter the caller names and the identity
  of the handle it resolved to, empty without one.
\<close>

record 'o request_options =
  ro_adapter_id :: string
  ro_adapter :: string
  ro_generate :: "'o gen_options"

text \<open>
  The members of the engine: its tokenizer and model backend (\<open>in_create\<close> is \<open>create_state\<close>) and
  the chunk size of the prefill.
\<close>

record ('st, 'a) inference =
  in_encode :: "bytes \<Rightarrow> token list"
  in_prefill :: "('st, 'a list) forward"
  in_chunk :: nat
  in_vocab :: nat
  in_wkv32 :: bool
  in_fresh :: "'a list"
  in_create :: "nat \<Rightarrow> 'st generation_state"

section \<open>Preparing a request\<close>

definition bind_adapter :: "string \<Rightarrow> 'st generation_state \<Rightarrow> engine_error + 'st generation_state" where
  "bind_adapter adapter st =
     (if rs_advanced (gn_request st) \<and> rs_adapter_identity (gn_request st) \<noteq> adapter then Inl AdapterMismatch
      else Inr (st\<lparr>gn_request := (gn_request st)\<lparr>rs_adapter_identity := adapter\<rparr>\<rparr>))"

definition submission_of ::
    "'st generation_state \<Rightarrow> 'lg list \<Rightarrow> 'o gen_options \<Rightarrow> int \<Rightarrow> bool \<Rightarrow> ('st, 'lg, 'o) submission" where
  "submission_of st logits opts chunk notify =
     \<lparr>su_states = gn_rows st, su_logits = logits, su_tail = gn_tail st,
      su_adapter = rs_adapter_identity (gn_request st), su_wkv32 = rs_wkv32 (gn_request st),
      su_options = opts, su_chunk = chunk, su_notify = notify\<rparr>"

definition encode_prompt :: "('st, 'a) inference \<Rightarrow> bytes \<Rightarrow> engine_error + token list" where
  "encode_prompt N prompt =
     (let ids = in_encode N prompt in if ids = [] then Inl (PrefillFailed EmptyPrompt) else Inr ids)"

definition prefill_prompt ::
    "('st, 'a) inference \<Rightarrow> bytes \<Rightarrow> 'st generation_state \<Rightarrow>
     (engine_error + nat \<times> 'st generation_state \<times> 'a list list) option" where
  "prefill_prompt N prompt st =
     (let st1 = st\<lparr>gn_tail := []\<rparr> in
      case encode_prompt N prompt of
        Inl e \<Rightarrow> Some (Inl e)
      | Inr ids \<Rightarrow>
          (case prefill_batch_chunked (in_prefill N) (in_chunk N) [ids] (gn_rows st1) [] of
             None \<Rightarrow> None
           | Some (Inl e) \<Rightarrow> Some (Inl (PrefillFailed e))
           | Some (Inr (rows, logits)) \<Rightarrow> Some (Inr (length ids, st1\<lparr>gn_rows := rows\<rparr>, logits))))"

text \<open>\<open>generate_one\<close> up to the scheduler: the prompt tokens and the submission.\<close>

definition generate_one ::
    "('st, 'a) inference \<Rightarrow> bytes \<Rightarrow> 'st generation_state \<Rightarrow> 'o request_options \<Rightarrow> int \<Rightarrow>
     (engine_error + nat \<times> ('st, 'a list, 'o) submission) option" where
  "generate_one N prompt st ro chunk =
     (case bind_adapter (ro_adapter ro) st of
        Inl e \<Rightarrow> Some (Inl e)
      | Inr st1 \<Rightarrow>
          map_option (map_sum id (\<lambda>(n, st2, logits). (n, submission_of st2 logits (ro_generate ro) chunk False)))
            (prefill_prompt N prompt st1))"

definition batch_generate_state ::
    "('st, 'a) inference \<Rightarrow> bytes list \<Rightarrow> 'st generation_state \<Rightarrow> 'o request_options \<Rightarrow>
     (engine_error + nat \<times> ('st, 'a list, 'o) submission) option" where
  "batch_generate_state N prompts st ro =
     (if length prompts \<noteq> 1 \<or> length (gn_rows st) \<noteq> 1 then Some (Inl SinglePromptOnly)
      else generate_one N (hd prompts) st ro 0)"

definition batch_generate_state_stream ::
    "('st, 'a) inference \<Rightarrow> bytes list \<Rightarrow> 'st generation_state \<Rightarrow> 'o request_options \<Rightarrow> int \<Rightarrow>
     (engine_error + nat \<times> ('st, 'a list, 'o) submission) option" where
  "batch_generate_state_stream N prompts st ro chunk =
     (if length prompts \<noteq> 1 \<or> length (gn_rows st) \<noteq> 1 then Some (Inl SinglePromptOnly)
      else generate_one N (hd prompts) st ro chunk)"

definition generate_from_logits_stream ::
    "'st generation_state \<Rightarrow> 'lg list \<Rightarrow> 'o request_options \<Rightarrow> int \<Rightarrow> engine_error + ('st, 'lg, 'o) submission" where
  "generate_from_logits_stream st logits ro chunk =
     (case bind_adapter (ro_adapter ro) st of
        Inl e \<Rightarrow> Inl e
      | Inr st1 \<Rightarrow>
          if length (gn_rows st1) \<noteq> 1 \<or> length logits \<noteq> 1 then Inl SinglePromptOnly
          else Inr (submission_of st1 logits (ro_generate ro) chunk False))"

text \<open>
  \<open>batch_generate_stream_with_state\<close> up to the scheduler; \<open>None\<close> inside is its early return for no
  prompts. \<open>jb_original\<close> is \<open>sorted_to_original\<close>.
\<close>

record ('st, 'a, 'o) job =
  jb_original :: "nat list"
  jb_prompt_tokens :: nat
  jb_cached_tokens :: nat
  jb_submission :: "('st, 'a list, 'o) submission"

definition stream_prefill ::
    "('st, 'a) inference \<Rightarrow> string option \<Rightarrow> string \<Rightarrow> 'st generation_state \<Rightarrow> token list list \<Rightarrow> nat list \<Rightarrow>
     ('st, 'a) snapshot prefix_cache \<Rightarrow>
     ((prefill_error + nat list \<times> nat \<times> 'st list \<times> 'a list list) \<times> ('st, 'a) snapshot prefix_cache) option" where
  "stream_prefill N cache_id adapter_id st ids order c =
     (case cache_id of
        Some state_id \<Rightarrow>
          if pc_capacity c > 0 then
            map_option (map_prod (map_sum id (\<lambda>pf. (pf_original pf, pf_cached_tokens pf, pf_states pf, pf_logits pf))) id)
              (prefill_cached (in_prefill N) (in_chunk N) (in_vocab N) (in_wkv32 N) (in_fresh N) state_id adapter_id
                 (gn_request st) ids order (gn_rows st) c)
          else map_option (\<lambda>r. (map_sum id (\<lambda>(rows, logits). (order, 0, rows, logits)) r, c))
                 (prefill_batch_chunked (in_prefill N) (in_chunk N) ids (gn_rows st) [])
      | None \<Rightarrow>
          map_option (\<lambda>r. (map_sum id (\<lambda>(rows, logits). (order, 0, rows, logits)) r, c))
            (prefill_batch_chunked (in_prefill N) (in_chunk N) ids (gn_rows st) []))"

definition stream_prepare ::
    "('st, 'a) inference \<Rightarrow> bytes list \<Rightarrow> 'st generation_state \<Rightarrow> 'o request_options \<Rightarrow> int \<Rightarrow> string option \<Rightarrow> bool \<Rightarrow>
     ('st, 'a) snapshot prefix_cache \<Rightarrow>
     ((engine_error + ('st, 'a, 'o) job option) \<times> ('st, 'a) snapshot prefix_cache) option" where
  "stream_prepare N prompts st ro chunk cache_id notify c =
     (case bind_adapter (ro_adapter ro) st of
        Inl e \<Rightarrow> Some (Inl e, c)
      | Inr st1 \<Rightarrow>
          if prompts = [] then Some (Inr None, c)
          else if length (gn_rows st1) \<noteq> length prompts then Some (Inl StateBatchMismatch, c)
          else
            (case encode_prompts_sorted (in_encode N) prompts of
               Inl e \<Rightarrow> Some (Inl (PrefillFailed e), c)
             | Inr (ids, order) \<Rightarrow>
                 (case stream_prefill N cache_id (ro_adapter_id ro) st1 ids order c of
                    None \<Rightarrow> None
                  | Some (Inl e, c') \<Rightarrow> Some (Inl (PrefillFailed e), c')
                  | Some (Inr (original, cached, rows, logits), c') \<Rightarrow>
                      Some (Inr (Some
                        \<lparr>jb_original = original, jb_prompt_tokens = sum_list (map length ids), jb_cached_tokens = cached,
                         jb_submission = submission_of (st1\<lparr>gn_rows := rows\<rparr>) logits (ro_generate ro) chunk notify\<rparr>), c'))))"

definition batch_generate_stream ::
    "('st, 'a) inference \<Rightarrow> bytes list \<Rightarrow> 'o request_options \<Rightarrow> int \<Rightarrow> ('st, 'a) snapshot prefix_cache \<Rightarrow>
     ((engine_error + ('st, 'a, 'o) job option) \<times> ('st, 'a) snapshot prefix_cache) option" where
  "batch_generate_stream N prompts ro chunk c =
     (if prompts = [] then Some (Inr None, c)
      else stream_prepare N prompts (in_create N (length prompts)) ro chunk None False c)"

definition batch_generate_with_state ::
    "('st, 'a) inference \<Rightarrow> bytes list \<Rightarrow> 'st generation_state \<Rightarrow> 'o request_options \<Rightarrow> ('st, 'a) snapshot prefix_cache \<Rightarrow>
     ((engine_error + ('st, 'a, 'o) job option) \<times> ('st, 'a) snapshot prefix_cache) option" where
  "batch_generate_with_state N prompts st ro c = stream_prepare N prompts st ro 32 None False c"

definition batch_generate ::
    "('st, 'a) inference \<Rightarrow> bytes list \<Rightarrow> 'o request_options \<Rightarrow> ('st, 'a) snapshot prefix_cache \<Rightarrow>
     ((engine_error + ('st, 'a, 'o) job option) \<times> ('st, 'a) snapshot prefix_cache) option" where
  "batch_generate N prompts ro c =
     (if prompts = [] then Some (Inr None, c)
      else batch_generate_with_state N prompts (in_create N (length prompts)) ro c)"

section \<open>Delivering the result\<close>

definition remap :: "nat list \<Rightarrow> gen_stats \<Rightarrow> gen_stats" where
  "remap original decoded =
     (let reasons = gs_reasons decoded; stops = gs_matched decoded in
      fold (\<lambda>i d. d\<lparr>gs_reasons := (gs_reasons d)[original ! i := reasons ! i],
                    gs_matched := (gs_matched d)[original ! i := stops ! i]\<rparr>)
        [0..<length original] decoded)"

text \<open>The statistics the caller receives, with the prompt token counts; \<open>None\<close> when the request failed.\<close>

definition stream_result ::
    "('st, 'a, 'o) job \<Rightarrow> ('st, 'a list, 'o) request \<Rightarrow> (gen_stats \<times> nat \<times> nat) option" where
  "stream_result job rq =
     map_option (\<lambda>decoded. (remap (jb_original job) decoded, jb_prompt_tokens job, jb_cached_tokens job)) (gen_result rq)"

text \<open>The texts that \<open>batch_generate_with_state\<close> collects from the events, in the order of the prompts.\<close>

definition batch_outputs :: "nat list \<Rightarrow> nat \<Rightarrow> event list \<Rightarrow> bytes list" where
  "batch_outputs original n events =
     fold (\<lambda>e outputs. outputs[original ! ev_row e := outputs ! (original ! ev_row e) @ ev_text e])
       events (replicate n [])"

section \<open>Reordering\<close>

lemma fold_update_length [simp]: "length (fold (\<lambda>i xs. xs[p i := y i]) is xs) = length xs"
  by (induction "is" arbitrary: xs) auto

lemma fold_update_other: "k \<notin> p ` set is \<Longrightarrow> fold (\<lambda>i xs. xs[p i := y i]) is xs ! k = xs ! k"
  by (induction "is" arbitrary: xs) auto

lemma fold_update_nth:
  assumes "inj_on p (set is)" "distinct is" "j \<in> set is" "p j < length xs"
  shows "fold (\<lambda>i xs. xs[p i := y i]) is xs ! p j = y j"
  using assms
proof (induction "is" arbitrary: xs)
  case (Cons i rest)
  show ?case
  proof (cases "j = i")
    case True
    then have "p j \<notin> p ` set rest" using Cons.prems(1,2) by (auto simp: inj_on_def)
    then show ?thesis using fold_update_other [of "p j" p rest y] Cons.prems(4) True by simp
  next
    case False
    then show ?thesis using Cons by simp
  qed
qed simp

lemma remap_fold:
  "gs_reasons (remap p d) = fold (\<lambda>i xs. xs[p ! i := gs_reasons d ! i]) [0..<length p] (gs_reasons d)"
  "gs_matched (remap p d) = fold (\<lambda>i xs. xs[p ! i := gs_matched d ! i]) [0..<length p] (gs_matched d)"
proof -
  let ?g = "\<lambda>i (d' :: gen_stats). d'\<lparr>gs_reasons := (gs_reasons d')[p ! i := gs_reasons d ! i],
    gs_matched := (gs_matched d')[p ! i := gs_matched d ! i]\<rparr>"
  have "gs_reasons (fold ?g is e) = fold (\<lambda>i xs. xs[p ! i := gs_reasons d ! i]) is (gs_reasons e) \<and>
      gs_matched (fold ?g is e) = fold (\<lambda>i xs. xs[p ! i := gs_matched d ! i]) is (gs_matched e)" for "is" e
    by (induction "is" arbitrary: e) simp_all
  then show "gs_reasons (remap p d) = fold (\<lambda>i xs. xs[p ! i := gs_reasons d ! i]) [0..<length p] (gs_reasons d)"
    "gs_matched (remap p d) = fold (\<lambda>i xs. xs[p ! i := gs_matched d ! i]) [0..<length p] (gs_matched d)"
    by (simp_all add: remap_def)
qed

lemma remap_nth:
  assumes "distinct p" "j < length p" "p ! j < length (gs_reasons d)" "p ! j < length (gs_matched d)"
  shows "gs_reasons (remap p d) ! (p ! j) = gs_reasons d ! j" "gs_matched (remap p d) ! (p ! j) = gs_matched d ! j"
proof -
  have i: "inj_on ((!) p) (set [0..<length p])" using assms(1) by (simp add: inj_on_nth)
  show "gs_reasons (remap p d) ! (p ! j) = gs_reasons d ! j" "gs_matched (remap p d) ! (p ! j) = gs_matched d ! j"
    unfolding remap_fold using assms(2-4) by (auto intro!: fold_update_nth [OF i])
qed

text \<open>The text of one prompt is that of the row it was decoded in.\<close>

lemma outputs_row:
  assumes p: "distinct p" "j < length p" "p ! j < length outs"
    and quiet: "\<forall>e \<in> set es. ev_row e < length p \<or> ev_text e = []"
  shows "fold (\<lambda>e outs. outs[p ! ev_row e := outs ! (p ! ev_row e) @ ev_text e]) es outs ! (p ! j) =
    outs ! (p ! j) @ concat (map ev_text (filter (\<lambda>e. ev_row e = j) es))"
  using p(3) quiet
proof (induction es arbitrary: outs)
  case (Cons e es)
  let ?outs = "outs[p ! ev_row e := outs ! (p ! ev_row e) @ ev_text e]"
  have "?outs ! (p ! j) = outs ! (p ! j) @ (if ev_row e = j then ev_text e else [])"
  proof (cases "ev_row e < length p")
    case True
    then show ?thesis using Cons.prems(1) p(1,2) by (auto simp: nth_eq_iff_index_eq nth_list_update)
  next
    case False
    then show ?thesis using Cons.prems(2) p(2) by auto
  qed
  then show ?case using Cons.IH [of ?outs] Cons.prems by simp
qed simp

lemma batch_outputs_row:
  assumes "distinct p" "j < length p" "p ! j < n"
    and quiet: "\<And>k. length p \<le> k \<Longrightarrow> concat (map ev_text (filter (\<lambda>e. ev_row e = k) es)) = []"
  shows "batch_outputs p n es ! (p ! j) = concat (map ev_text (filter (\<lambda>e. ev_row e = j) es))"
proof -
  have "\<forall>e \<in> set es. ev_row e < length p \<or> ev_text e = []"
  proof
    fix e assume e: "e \<in> set es"
    show "ev_row e < length p \<or> ev_text e = []"
      using quiet [of "ev_row e"] e by (cases "ev_row e < length p") auto
  qed
  from outputs_row [OF assms(1,2) _ this, of "replicate n []"] show ?thesis
    using assms(3) by (simp add: batch_outputs_def)
qed


section \<open>What a job holds\<close>

text \<open>The request of one prompt submitted by itself, from its own state and logits.\<close>

definition alone ::
    "('st, 'a) inference \<Rightarrow> (token \<Rightarrow> 'st \<Rightarrow> 'st \<times> 'a list) \<Rightarrow> bytes \<Rightarrow> 'st \<Rightarrow> bytes \<Rightarrow> 'o gen_options \<Rightarrow> int \<Rightarrow>
     ('st, 'a list, 'o) submission" where
  "alone N f prompt row tail opts chunk =
     (let ids = in_encode N prompt in
      submission_of \<lparr>gn_rows = [feed f ids row], gn_request = \<lparr>rs_advanced = True, rs_initial_identity = [],
          rs_adapter_identity = [], rs_wkv32 = in_wkv32 N\<rparr>, gn_tail = tail\<rparr>
        [row_logits f ids row []] opts chunk False)"

lemma first_view_alone:
  assumes "su_states su ! j = feed f (in_encode N prompt) row" "su_logits su ! j = row_logits f (in_encode N prompt) row []"
    and "j < length (su_states su)" "length (su_logits su) = length (su_states su)" "su_options su = opts" "su_chunk su = chunk"
    and "tail = (if length (su_states su) = 1 then su_tail su else [])"
  shows "lone E f (request_for su) j seed = lone E f (request_for (alone N f prompt row tail opts chunk)) 0 seed"
proof -
  let ?a = "request_for (alone N f prompt row tail opts chunk)"
  have v: "first_view (request_for su) j = first_view ?a 0"
    using assms by (simp add: first_view_def request_for_def alone_def submission_of_def Let_def)
  have o: "rq_options (request_for su) = rq_options ?a" "rq_stops (request_for su) = rq_stops ?a"
    "rq_chunk (request_for su) = rq_chunk ?a"
    using assms(5,6) by (simp_all add: request_for_def alone_def submission_of_def Let_def)
  have "solo_step E f (request_for su) seed = solo_step E f ?a seed"
    by (intro ext) (simp only: solo_step_def solo_token_def o)
  then show ?thesis unfolding lone_def v o(1) by simp
qed

definition fills ::
    "('st, 'a) inference \<Rightarrow> (token \<Rightarrow> 'st \<Rightarrow> 'st \<times> 'a list) \<Rightarrow> bytes list \<Rightarrow> 'st \<Rightarrow> nat list \<Rightarrow> 'st list \<Rightarrow> 'a list list \<Rightarrow> bool" where
  "fills N f prompts row original rows logits \<longleftrightarrow>
     distinct original \<and> set original = {0..<length prompts} \<and>
     rows = map (\<lambda>i. feed f (in_encode N (prompts ! i)) row) original \<and>
     logits = map (\<lambda>i. row_logits f (in_encode N (prompts ! i)) row []) original"

lemma stream_prefill_plain:
  assumes "encode_prompts_sorted (in_encode N) prompts = Inr (ids, order)" "prompts \<noteq> []"
    and "rowwise (in_prefill N) f" "0 < in_chunk N" "rows = replicate (length prompts) row"
  shows "\<exists>rows' logits'. prefill_batch_chunked (in_prefill N) (in_chunk N) ids rows [] = Some (Inr (rows', logits')) \<and>
    fills N f prompts row order rows' logits'"
proof -
  note enc = encode_prompts_sorted_Inr [OF assms(1)]
  have len: "length order = length prompts" using enc(1,2) distinct_card by fastforce
  have ids: "length ids = length prompts" "ids \<noteq> []" "\<And>j. j < length prompts \<Longrightarrow> ids ! j = in_encode N (prompts ! (order ! j))"
    using enc(3) len assms(2) by auto
  have "prefill_batch_chunked (in_prefill N) (in_chunk N) ids rows [] =
      Some (Inr (map2 (feed f) ids rows, map (\<lambda>i. row_logits f (ids ! i) (rows ! i) ([] ! i)) [0..<length ids]))"
    by (rule prefill_batch_chunked_correct [OF assms(3) enc(5) assms(4)]) (use assms(5) ids enc(4) in simp_all)
  moreover have "map2 (feed f) ids rows = map (\<lambda>i. feed f (in_encode N (prompts ! i)) row) order"
    using len ids(1,3) assms(5) by (intro nth_equalityI) auto
  moreover have "map (\<lambda>i. row_logits f (ids ! i) (rows ! i) ([] ! i)) [0..<length ids] =
      map (\<lambda>i. row_logits f (in_encode N (prompts ! i)) row []) order"
  proof (rule nth_equalityI)
    fix j assume "j < length (map (\<lambda>i. row_logits f (ids ! i) (rows ! i) ([] ! i)) [0..<length ids])"
    then have j: "j < length prompts" using ids(1) by simp
    then have "ids ! j \<noteq> []" using enc(4) ids(1) by (metis nth_mem)
    from row_logits_nonempty [OF this, of f row "[] ! j" "[]"] show
      "map (\<lambda>i. row_logits f (ids ! i) (rows ! i) ([] ! i)) [0..<length ids] ! j =
       map (\<lambda>i. row_logits f (in_encode N (prompts ! i)) row []) order ! j"
      using j ids len assms(5) by simp
  qed (use ids len in simp)
  ultimately show ?thesis using enc(1,2) by (simp add: fills_def)
qed

text \<open>When the prompt cache is used, and the state its snapshots start from.\<close>

definition caching :: "string option \<Rightarrow> 'v prefix_cache \<Rightarrow> bool" where
  "caching cache_id c \<longleftrightarrow> cache_id \<noteq> None \<and> pc_capacity c > 0"

definition starts_in :: "(string \<Rightarrow> 'st) \<Rightarrow> string option \<Rightarrow> string \<Rightarrow> request_state \<Rightarrow> 'st \<Rightarrow> bool" where
  "starts_in st0 cache_id adapter_id rs row =
     (case cache_id of None \<Rightarrow> True
      | Some state_id \<Rightarrow> row = st0 (prompt_identity (identity_parts state_id adapter_id rs)))"

lemma stream_prefill_fills:
  fixes f :: "token \<Rightarrow> 'st \<Rightarrow> 'st \<times> 'a list"
  assumes enc: "encode_prompts_sorted (in_encode N) prompts = Inr (ids, order)" "prompts \<noteq> []"
    and fwd: "rowwise (in_prefill N) f" "\<forall>t st. length (snd (f t st)) = in_vocab N" "0 < in_chunk N"
    and st: "gn_rows st = replicate (length prompts) row" "\<not> (caching cache_id c \<and> rs_advanced (gn_request st))"
    and coh: "coherent f (in_vocab N) (in_wkv32 N) st0 c"
    and init: "starts_in st0 cache_id adapter_id (gn_request st) row"
  shows "\<exists>original cached rows logits c'.
    stream_prefill N cache_id adapter_id st ids order c = Some (Inr (original, cached, rows, logits), c') \<and>
    coherent f (in_vocab N) (in_wkv32 N) st0 c' \<and> fills N f prompts row original rows logits"
proof (cases "caching cache_id c")
  case True
  then obtain state_id where cid: "cache_id = Some state_id" "pc_capacity c > 0" by (auto simp: caching_def)
  have row: "row = st0 (prompt_identity (identity_parts state_id adapter_id (gn_request st)))" "\<not> rs_advanced (gn_request st)"
    using init st(2) True cid(1) by (simp_all add: starts_in_def)
  note e = encode_prompts_sorted_Inr [OF enc(1)]
  have len: "length order = length prompts" using e(1,2) distinct_card by fastforce
  have ids: "length ids = length prompts" "ids \<noteq> []" using e(3) len enc(2) by auto
  obtain pf c' order2 where pf: "prefill_cached (in_prefill N) (in_chunk N) (in_vocab N) (in_wkv32 N) (in_fresh N) state_id
      adapter_id (gn_request st) ids order (replicate (length ids) row) c = Some (Inr pf, c')"
    "coherent f (in_vocab N) (in_wkv32 N) st0 c'" "distinct order2" "set order2 = {0..<length ids}"
    "pf_original pf = map (\<lambda>i. order ! i) order2" "pf_states pf = map (\<lambda>i. feed f (ids ! i) row) order2"
    "pf_logits pf = map (\<lambda>i. row_logits f (ids ! i) row []) order2"
    using prefill_cached_spec [OF fwd coh ids(2) e(4) _ row(2,1), of order] ids(1) len by metis
  have "distinct (pf_original pf)"
    using pf(3,4) e(1) ids(1) len unfolding pf(5) by (auto simp: distinct_map inj_on_def nth_eq_iff_index_eq)
  moreover have "set (pf_original pf) = {0..<length prompts}"
    unfolding pf(5) set_map pf(4) ids(1) using e(2) nth_image [of "length prompts" order] len by simp
  moreover have "ids ! i = in_encode N (prompts ! (order ! i))" if "i \<in> set order2" for i
    using that pf(4) ids(1) len e(3) by simp
  then have "pf_states pf = map (\<lambda>i. feed f (in_encode N (prompts ! i)) row) (pf_original pf)"
    "pf_logits pf = map (\<lambda>i. row_logits f (in_encode N (prompts ! i)) row []) (pf_original pf)"
    unfolding pf(5-7) by simp_all
  ultimately have "fills N f prompts row (pf_original pf) (pf_states pf) (pf_logits pf)" by (simp add: fills_def)
  then show ?thesis using pf(1,2) cid st(1) ids(1) by (simp add: stream_prefill_def)
next
  case False
  obtain rows' logits' where p: "prefill_batch_chunked (in_prefill N) (in_chunk N) ids (gn_rows st) [] = Some (Inr (rows', logits'))"
    "fills N f prompts row order rows' logits'"
    using stream_prefill_plain [OF enc fwd(1,3) st(1)] by blast
  have "stream_prefill N cache_id adapter_id st ids order c = Some (Inr (order, 0, rows', logits'), c)"
    using False p(1) by (auto simp: stream_prefill_def caching_def split: option.split)
  then show ?thesis using p(2) coh by blast
qed

lemma stream_prefill_advanced:
  assumes "caching cache_id c" "rs_advanced (gn_request st)"
  shows "stream_prefill N cache_id adapter_id st ids order c = Some (Inl AdvancedState, c)"
  using assms by (auto simp: stream_prefill_def caching_def prefill_cached_def)

abbreviation bound :: "'o request_options \<Rightarrow> 'st generation_state \<Rightarrow> request_state" where
  "bound ro st \<equiv> (gn_request st)\<lparr>rs_adapter_identity := ro_adapter ro\<rparr>"

definition job_of where
  "job_of N f prompts st row ro chunk notify job \<longleftrightarrow>
     (let su = jb_submission job in
      fills N f prompts row (jb_original job) (su_states su) (su_logits su) \<and>
      su_tail su = gn_tail st \<and> su_options su = ro_generate ro \<and> su_chunk su = chunk \<and> su_notify su = notify \<and>
      su_adapter su = ro_adapter ro \<and> su_wkv32 su = rs_wkv32 (gn_request st) \<and>
      jb_prompt_tokens job = (\<Sum>p\<leftarrow>prompts. length (in_encode N p)))"

lemma prompt_tokens:
  assumes "encode_prompts_sorted encode ps = Inr (ids, order)"
  shows "sum_list (map length ids) = (\<Sum>p\<leftarrow>ps. length (encode p))"
proof -
  note enc = encode_prompts_sorted_Inr [OF assms]
  have "mset order = mset [0..<length ps]" using enc(1,2) by (metis distinct_upt set_eq_iff_mset_eq_distinct set_upt)
  then have "mset (map (\<lambda>i. length (encode (ps ! i))) order) = mset (map (\<lambda>i. length (encode (ps ! i))) [0..<length ps])"
    by (metis mset_map)
  moreover have "map (\<lambda>i. length (encode (ps ! i))) [0..<length ps] = map (\<lambda>p. length (encode p)) ps"
    by (rule nth_equalityI) simp_all
  ultimately have "mset (map (\<lambda>i. length (encode (ps ! i))) order) = mset (map (\<lambda>p. length (encode p)) ps)" by simp
  then have "sum_list (map (\<lambda>i. length (encode (ps ! i))) order) = (\<Sum>p\<leftarrow>ps. length (encode p))"
    by (metis sum_mset_sum_list)
  then show ?thesis unfolding enc(3) by (simp add: comp_def)
qed

lemma stream_prepare_cases:
  fixes f :: "token \<Rightarrow> 'st \<Rightarrow> 'st \<times> 'a list"
  assumes fwd: "rowwise (in_prefill N) f" "\<forall>t st. length (snd (f t st)) = in_vocab N" "0 < in_chunk N"
    and coh: "coherent f (in_vocab N) (in_wkv32 N) st0 c"
    and st: "gn_rows st = replicate m row" and init: "starts_in st0 cache_id (ro_adapter_id ro) (bound ro st) row"
  shows "\<exists>r c'. stream_prepare N prompts st ro chunk cache_id notify c = Some (r, c') \<and>
    coherent f (in_vocab N) (in_wkv32 N) st0 c' \<and>
    (if rs_advanced (gn_request st) \<and> rs_adapter_identity (gn_request st) \<noteq> ro_adapter ro then r = Inl AdapterMismatch
     else if prompts = [] then r = Inr None
     else if m \<noteq> length prompts then r = Inl StateBatchMismatch
     else if [] \<in> in_encode N ` set prompts then r = Inl (PrefillFailed EmptyPrompt)
     else if caching cache_id c \<and> rs_advanced (gn_request st) then r = Inl (PrefillFailed AdvancedState)
     else \<exists>job. r = Inr (Some job) \<and> job_of N f prompts st row ro chunk notify job)"
proof (cases "rs_advanced (gn_request st) \<and> rs_adapter_identity (gn_request st) \<noteq> ro_adapter ro \<or> prompts = [] \<or>
    m \<noteq> length prompts \<or> [] \<in> in_encode N ` set prompts")
  case True
  have "encode_prompts_sorted (in_encode N) prompts = Inl EmptyPrompt" if "[] \<in> in_encode N ` set prompts"
    by (rule encode_prompts_sorted_empty [OF that])
  then show ?thesis using True coh st by (auto simp: stream_prepare_def bind_adapter_def)
next
  case False
  let ?st = "st\<lparr>gn_request := bound ro st\<rparr>"
  have b: "bind_adapter (ro_adapter ro) st = Inr ?st" using False by (auto simp: bind_adapter_def)
  have ne: "prompts \<noteq> []" and rows: "gn_rows ?st = replicate (length prompts) row" using False st by auto
  obtain ids order where enc: "encode_prompts_sorted (in_encode N) prompts = Inr (ids, order)"
    using encode_prompts_sorted_ok False by blast
  have adv: "rs_advanced (bound ro st) = rs_advanced (gn_request st)" by simp
  show ?thesis
  proof (cases "caching cache_id c \<and> rs_advanced (gn_request st)")
    case True
    then have "stream_prefill N cache_id (ro_adapter_id ro) ?st ids order c = Some (Inl AdvancedState, c)"
      using stream_prefill_advanced [of cache_id c ?st] by simp
    then have "stream_prepare N prompts st ro chunk cache_id notify c = Some (Inl (PrefillFailed AdvancedState), c)"
      using b ne enc rows by (simp add: stream_prepare_def)
    then show ?thesis using True False coh by simp
  next
    case plain: False
    have "\<not> (caching cache_id c \<and> rs_advanced (gn_request ?st))"
      "starts_in st0 cache_id (ro_adapter_id ro) (gn_request ?st) row" using plain init by simp_all
    then obtain original cached rows' logits c' where p:
      "stream_prefill N cache_id (ro_adapter_id ro) ?st ids order c = Some (Inr (original, cached, rows', logits), c')"
      "coherent f (in_vocab N) (in_wkv32 N) st0 c'" "fills N f prompts row original rows' logits"
      using stream_prefill_fills [OF enc ne fwd rows _ coh] by blast
    let ?job = "\<lparr>jb_original = original, jb_prompt_tokens = sum_list (map length ids), jb_cached_tokens = cached,
      jb_submission = submission_of (?st\<lparr>gn_rows := rows'\<rparr>) logits (ro_generate ro) chunk notify\<rparr>"
    have "stream_prepare N prompts st ro chunk cache_id notify c = Some (Inr (Some ?job), c')"
      using b ne enc rows p(1) by (simp add: stream_prepare_def)
    moreover have "job_of N f prompts st row ro chunk notify ?job"
      using p(3) prompt_tokens [OF enc] by (simp add: job_of_def submission_of_def)
    ultimately show ?thesis using False plain p(2) by auto
  qed
qed

section \<open>Generation is per prompt\<close>

lemma job_result:
  fixes E :: "('st, 'a list, 'sp, 'o) engine"
  assumes dec: "rowwise_decode E f" and job: "job_of N f prompts st row ro chunk notify job"
    and su: "submit ok (jb_submission job) (run_sched E ok max_rows before) = Inr s1"
    and rq: "rq = sc_requests (run_sched E ok max_rows (before @ Submit (jb_submission job) # after))
      (sc_next_request (run_sched E ok max_rows before))"
    and fin: "rq_done rq" "\<not> rq_cancelled rq" and res: "stream_result job rq = Some (stats, tokens, cached)"
    and i: "i < length prompts"
  shows "\<exists>seed. let v = lone E f (request_for (alone N f (prompts ! i) row
        (if length prompts = 1 then gn_tail st else []) (ro_generate ro) chunk)) 0 seed in
    batch_outputs (jb_original job) (length prompts) (rq_taken rq @ rq_events rq) ! i = vw_text v \<and>
    gs_reasons stats ! i = vw_reason v \<and> gs_matched stats ! i = vw_matched v"
proof -
  let ?su = "jb_submission job" and ?p = "jb_original job"
  have F: "distinct ?p" "set ?p = {0..<length prompts}"
    "su_states ?su = map (\<lambda>i. feed f (in_encode N (prompts ! i)) row) ?p"
    "su_logits ?su = map (\<lambda>i. row_logits f (in_encode N (prompts ! i)) row []) ?p"
    "su_tail ?su = gn_tail st" "su_options ?su = ro_generate ro" "su_chunk ?su = chunk"
    using job by (simp_all add: job_of_def fills_def Let_def)
  have len: "length ?p = length prompts" using F(1,2) distinct_card by fastforce
  obtain j where j: "j < length ?p" "?p ! j = i" using F(2) i by (metis atLeastLessThan_iff in_set_conv_nth zero_le)
  have j': "j < length (su_states ?su)" using j(1) F(3) by simp
  note R = request_result [OF dec su refl rq fin j']
  obtain seed where v: "row_text rq j = vw_text (lone E f (request_for ?su) j seed)"
    "gs_matched (rq_stats rq) ! j = vw_matched (lone E f (request_for ?su) j seed)"
    "gs_reasons (rq_stats rq) ! j = vw_reason (lone E f (request_for ?su) j seed)"
    using R(1) unfolding Let_def by blast
  let ?tail = "if length prompts = 1 then gn_tail st else []"
  have l: "lone E f (request_for ?su) j seed =
      lone E f (request_for (alone N f (prompts ! i) row ?tail (ro_generate ro) chunk)) 0 seed"
    by (rule first_view_alone) (use F j len in \<open>simp_all\<close>)
  have stats: "stats = remap ?p (rq_stats rq)" using res fin(2) by (auto simp: stream_result_def gen_result_def split: if_splits)
  have "gs_reasons stats ! i = gs_reasons (rq_stats rq) ! j" "gs_matched stats ! i = gs_matched (rq_stats rq) ! j"
    using remap_nth [OF F(1) j(1), of "rq_stats rq"] R(2,3) j(2) i F(3) len by (simp_all add: stats)
  moreover have "batch_outputs ?p (length prompts) (rq_taken rq @ rq_events rq) ! i = row_text rq j"
    using batch_outputs_row [OF F(1) j(1), of "length prompts" "rq_taken rq @ rq_events rq"] R(6) j(2) i F(3) len
    unfolding row_text_def by simp
  ultimately show ?thesis using v unfolding l by (intro exI [of _ seed]) (simp add: Let_def)
qed



section \<open>Witnesses\<close>

definition sum_engine :: "(token list, int list, nat, unit) engine" where
  "sum_engine =
     \<lparr>be_decode = (\<lambda>toks sts. Some (map2 (\<lambda>t st. fst (sum_row t st)) toks sts, map2 (\<lambda>t st. snd (sum_row t st)) toks sts)),
      be_sample = (\<lambda>_ n lg sp. ((hd lg + int sp) mod 7, Suc (n + sp))),
      be_text = (\<lambda>t. [word_of_int (65 + t)]),
      be_fresh = (\<lambda>seed i. seed + i)\<rparr>"

definition sum_inference :: "(token list, int) inference" where
  "sum_inference =
     \<lparr>in_encode = map uint, in_prefill = sum_forward, in_chunk = 2, in_vocab = 1, in_wkv32 = True, in_fresh = [0],
      in_create = (\<lambda>n. \<lparr>gn_rows = replicate n [], gn_request = fresh_request, gn_tail = []\<rparr>)\<rparr>"

abbreviation two_prompts :: "bytes list" where
  "two_prompts \<equiv> [[7], [1, 2, 3]]"

definition one_token :: "unit request_options" where
  "one_token =
     \<lparr>ro_adapter_id = [], ro_adapter = [],
      ro_generate = \<lparr>go_max_tokens = 1, go_stop_tokens = [6], go_stop = None, go_sampling = ()\<rparr>\<rparr>"

definition two_job :: "(token list, int, unit) job" where
  "two_job =
     \<lparr>jb_original = [1, 0], jb_prompt_tokens = 4, jb_cached_tokens = 0,
      jb_submission = \<lparr>su_states = [[1, 2, 3], [7]], su_logits = [[6], [7]], su_tail = [], su_adapter = [],
        su_wkv32 = True, su_options = ro_generate one_token, su_chunk = 1, su_notify = False\<rparr>\<rparr>"

abbreviation two_run :: "(token list, int list, nat, unit) sched" where
  "two_run \<equiv> run_sched sum_engine (\<lambda>_. True) 3
     ([] @ Submit (jb_submission two_job) # [Sweep (\<lambda>_. Continue)])"

lemma two_encode: "encode_prompts_sorted (map uint) two_prompts = Inr ([[1, 2, 3], [7]], [1, 0])"
  by (simp add: encode_prompts_sorted_def longest_first_def upt_rec)

lemma two_prefill:
  "prefill_batch_chunked sum_forward 2 [[1, 2, 3], [7]] [[], []] [] = Some (Inr ([[1, 2, 3], [7]], [[6], [7]]))"
  using prefill_batch_chunked_correct [OF rowwise_sum, of "[[1, 2, 3], [7]]" 2 "[[], []]" "[]"]
  by (simp add: feed_def row_logits_def sum_row_def upt_rec)

lemma two_prepare:
  "stream_prepare sum_inference two_prompts (in_create sum_inference 2) one_token 1 None False c = Some (Inr (Some two_job), c)"
proof -
  have "replicate 2 [] = [[], [] :: token list]" by (simp add: numeral_2_eq_2)
  then show ?thesis
    using two_encode two_prefill
    by (simp add: stream_prepare_def sum_inference_def bind_adapter_def fresh_request_def one_token_def stream_prefill_def
        two_job_def submission_of_def)
qed

lemma two_done:
  "(rq_done (sc_requests two_run 0), rq_cancelled (sc_requests two_run 0), rq_error (sc_requests two_run 0)) = (True, False, False)"
  by code_simp

lemma two_submit: "\<exists>s1. submit (\<lambda>_. True) (jb_submission two_job) (run_sched sum_engine (\<lambda>_. True) 3 []) = Inr s1"
  by (simp add: submit_def run_sched_def scheduler_def two_job_def Let_def)

lemma two_next: "sc_next_request (run_sched sum_engine (\<lambda>_. True) 3 []) = 0"
  by (simp add: run_sched_def scheduler_def)

lemma sum_setting:
  "rowwise (in_prefill sum_inference) sum_row" "rowwise_decode sum_engine sum_row" "0 < in_chunk sum_inference"
  "\<forall>t st. length (snd (sum_row t st)) = in_vocab sum_inference"
  "coherent sum_row (in_vocab sum_inference) (in_wkv32 sum_inference) (\<lambda>_. []) (prefix_cache 2)"
  "gn_rows (in_create sum_inference m) = replicate m []"
  using rowwise_sum
  by (auto simp: sum_inference_def sum_engine_def rowwise_decode_def sum_row_def coherent_def pc_inv_empty)



end
