(* ===== verification/ChatPrompt.thy ===== *)
theory ChatPrompt
  imports Prelude
begin

text \<open>
  The text of a prompt: the thinking modes with their headers and footers
  (\<open>think_prompt_config\<close> in \<open>src/inference/rwkv_inference_engine.cpp\<close>, \<open>parse_think_type\<close> and
  \<open>create_translation_prompt\<close> in \<open>src/server/router/generation_helpers.cpp\<close>) and
  \<open>format_openai_prompt\<close>. A C++ string is the list of its bytes as characters. The JSON body of
  a request is read through JsonCpp, whose accessors are the parameter \<open>json_body\<close>.
\<close>

section \<open>Thinking modes\<close>

datatype think_type = NoThink | Fast | Free | PreferChinese | En | EnShort | EnLong

definition think_prompt_config :: "think_type \<Rightarrow> string \<times> string \<times> bool" where
  "think_prompt_config t =
     (case t of
        NoThink \<Rightarrow> ([], [], False)
      | Fast \<Rightarrow> (''<think></think'', [], False)
      | Free \<Rightarrow> (''<think'', [], True)
      | PreferChinese \<Rightarrow> (''<think>'' @ [CHR 0xE5, CHR 0x97, CHR 0xAF], [], True)
      | En \<Rightarrow> (''<think'', '' (think)'', True)
      | EnShort \<Rightarrow> (''<think'', '' (think a bit)'', True)
      | EnLong \<Rightarrow> (''<think'', '' (think a lot)'', True))"

text \<open>
  \<open>bd_string k\<close> and \<open>bd_bool k d\<close> are \<open>get(k, d)\<close> converted; \<open>None\<close> is the exception of a value that
  cannot be converted.
\<close>

record json_body =
  bd_member :: "string \<Rightarrow> bool"
  bd_string :: "string \<Rightarrow> string option"
  bd_bool :: "string \<Rightarrow> bool \<Rightarrow> bool option"

definition named_think_type :: "string \<Rightarrow> think_type option" where
  "named_think_type name =
     (if name = ''none'' \<or> name = ''off'' \<or> name = ''disabled'' then Some NoThink
      else if name = ''fast'' then Some Fast
      else if name = ''free'' then Some Free
      else if name = ''preferChinese'' \<or> name = ''prefer_chinese'' then Some PreferChinese
      else if name = ''en'' then Some En
      else if name = ''enShort'' \<or> name = ''en_short'' then Some EnShort
      else if name = ''enLong'' \<or> name = ''en_long'' then Some EnLong
      else None)"

definition think_flag :: "json_body \<Rightarrow> think_type option" where
  "think_flag body =
     map_option (\<lambda>on. if on then Free else Fast)
       (if bd_member body ''think'' then bd_bool body ''think'' False else bd_bool body ''enable_think'' False)"

definition parse_think_type :: "json_body \<Rightarrow> think_type option" where
  "parse_think_type body =
     (if bd_member body ''think_type'' then
        (case bd_string body ''think_type'' of
           None \<Rightarrow> None
         | Some name \<Rightarrow> (case named_think_type name of Some t \<Rightarrow> Some t | None \<Rightarrow> think_flag body))
      else think_flag body)"

definition force_reasoning_for_think_type :: "think_type \<Rightarrow> bool" where
  "force_reasoning_for_think_type t \<longleftrightarrow> t \<noteq> NoThink \<and> t \<noteq> Fast"

definition has_explicit_think_type :: "json_body \<Rightarrow> bool" where
  "has_explicit_think_type body \<longleftrightarrow>
     bd_member body ''think_type'' \<or> bd_member body ''think'' \<or> bd_member body ''enable_think''"

section \<open>The prompt\<close>

abbreviation gap :: string where
  "gap \<equiv> [CHR 0x0A, CHR 0x0A]"

text \<open>The search for the last user message, counting down.\<close>

fun footer_scan :: "(string \<times> string) list \<Rightarrow> nat \<Rightarrow> nat" where
  "footer_scan messages 0 = length messages"
| "footer_scan messages (Suc i) =
     (if fst (messages ! i) = ''User'' then i else footer_scan messages i)"

definition put_message ::
    "(string \<times> string) list \<Rightarrow> nat \<Rightarrow> string \<Rightarrow> nat \<Rightarrow> string \<times> bool \<Rightarrow> string \<times> bool" where
  "put_message messages footer_index footer i out =
     (case out of (oss, has_prefix) \<Rightarrow>
        (oss @ (if has_prefix then gap else []) @ fst (messages ! i) @ '': '' @ snd (messages ! i) @
           (if i = footer_index then footer else []), True))"

definition format_openai_prompt :: "string \<Rightarrow> (string \<times> string) list \<Rightarrow> think_type \<Rightarrow> string" where
  "format_openai_prompt system messages t =
     (case think_prompt_config t of (header, footer, _) \<Rightarrow>
        let footer_index = (if footer \<noteq> [] then footer_scan messages (length messages) else length messages);
            start = (if system \<noteq> [] then (''System: '' @ system, True) else ([], False));
            (oss, has_prefix) = fold (put_message messages footer_index footer) [0..<length messages] start
        in oss @ (if has_prefix then gap else []) @ ''Assistant: '' @ header)"

definition create_translation_prompt :: "string \<Rightarrow> string \<Rightarrow> string \<Rightarrow> string" where
  "create_translation_prompt source_lang target_lang body = source_lang @ '': '' @ body @ gap @ target_lang @ '':''"

section \<open>What the prompt is\<close>

text \<open>One block per turn; the footer belongs to the last message of the user.\<close>

definition last_user :: "(string \<times> string) list \<Rightarrow> nat \<Rightarrow> bool" where
  "last_user messages i \<longleftrightarrow> fst (messages ! i) = ''User'' \<and> ''User'' \<notin> fst ` set (drop (Suc i) messages)"

definition turns :: "string \<Rightarrow> (string \<times> string) list \<Rightarrow> string \<Rightarrow> string list" where
  "turns system messages footer =
     (if system = [] then [] else [''System: '' @ system]) @
     map (\<lambda>i. fst (messages ! i) @ '': '' @ snd (messages ! i) @ (if last_user messages i then footer else []))
       [0..<length messages]"

lemma footer_scan_last:
  assumes "n \<le> length messages" "''User'' \<notin> fst ` set (drop n messages)" "i < length messages"
  shows "footer_scan messages n = i \<longleftrightarrow> last_user messages i"
  using assms
proof (induction n)
  case 0
  then show ?case by (auto simp: last_user_def image_iff) (metis nth_mem)
next
  case (Suc n)
  have d: "drop n messages = messages ! n # drop (Suc n) messages" using Suc.prems(1) by (simp add: Cons_nth_drop_Suc)
  show ?case
  proof (cases "fst (messages ! n) = ''User''")
    case True
    have "last_user messages i \<longleftrightarrow> n = i"
    proof (cases i n rule: linorder_cases)
      case less
      then have "messages ! n \<in> set (drop (Suc i) messages)"
        using Suc.prems(1) by (auto simp: in_set_conv_nth intro!: exI [of _ "n - Suc i"])
      then show ?thesis using True less by (force simp: last_user_def)
    next
      case equal
      then show ?thesis using True Suc.prems(2) by (simp add: last_user_def)
    next
      case greater
      then have "messages ! i \<in> set (drop (Suc n) messages)"
        using Suc.prems(3) by (auto simp: in_set_conv_nth intro!: exI [of _ "i - Suc n"])
      then show ?thesis using Suc.prems(2) greater by (force simp: last_user_def)
    qed
    then show ?thesis using True by simp
  next
    case False
    then show ?thesis using Suc d by simp
  qed
qed

abbreviation closed :: "string \<times> bool \<Rightarrow> string" where
  "closed out \<equiv> fst out @ (if snd out then gap else [])"

lemma put_messages:
  "closed (fold (put_message messages k footer) is out) =
   closed out @ concat (map (\<lambda>i. fst (messages ! i) @ '': '' @ snd (messages ! i) @ (if i = k then footer else []) @ gap) is)"
  by (induction "is" arbitrary: out) (simp_all add: put_message_def split: prod.split)

text \<open>
  A chat prompt is its turns, each ended by an empty line, and the opening of the assistant's
  turn with the header of the thinking mode: the system text if there is any, every message as role
  and content, and the footer of the mode on the last message of the user and on no other.
\<close>

theorem format_openai_prompt_turns:
  "format_openai_prompt system messages t =
   concat (map (\<lambda>turn. turn @ gap) (turns system messages (fst (snd (think_prompt_config t))))) @
   ''Assistant: '' @ fst (think_prompt_config t)"
proof -
  obtain header footer force where c: "think_prompt_config t = (header, footer, force)" by (metis prod_cases3)
  let ?k = "if footer \<noteq> [] then footer_scan messages (length messages) else length messages"
  let ?start = "if system \<noteq> [] then (''System: '' @ system, True) else ([], False)"
  have "(if i = ?k then footer else []) = (if last_user messages i then footer else [])" if "i < length messages" for i
    using footer_scan_last [of "length messages" messages i] that by auto
  then have "concat (map (\<lambda>i. fst (messages ! i) @ '': '' @ snd (messages ! i) @ (if i = ?k then footer else []) @ gap) [0..<length messages]) =
      concat (map (\<lambda>i. fst (messages ! i) @ '': '' @ snd (messages ! i) @ (if last_user messages i then footer else []) @ gap)
        [0..<length messages])"
    by (intro arg_cong [where f = concat] map_cong) auto
  then have "closed (fold (put_message messages ?k footer) [0..<length messages] ?start) =
      concat (map (\<lambda>turn. turn @ gap) (turns system messages footer))"
    unfolding put_messages by (simp add: turns_def comp_def)
  then show ?thesis
    unfolding format_openai_prompt_def c by (simp add: Let_def case_prod_beta)
qed

text \<open>The table of the prompts and the predicate of the handlers agree on which modes force reasoning.\<close>

lemma force_reasoning_tables: "force_reasoning_for_think_type t = snd (snd (think_prompt_config t))"
  by (cases t) (simp_all add: force_reasoning_for_think_type_def think_prompt_config_def)

end
