(* ===== verification/RequestRegistry.thy ===== *)
theory RequestRegistry
  imports Prelude
begin


text \<open>
  The registry of running and paused requests (\<open>RequestRegistry\<close> in
  \<open>include/rwkv/server/router/request_registry.hpp\<close>) and what the chat handler
  (\<open>src/server/router/chat_routes.cpp\<close>) and the resume handler
  (\<open>src/server/router/server_routes.cpp\<close>) do with it. A running request is an object shared
  with its worker: the state keeps a heap of them and the registry holds addresses. Every operation
  runs under the mutex, the flags and counters are atomics, so a run is a sequence of operations. The
  speeds and progress figures are left out.
\<close>

section \<open>Data\<close>

record active_request =
  ar_id :: string
  ar_endpoint :: string
  ar_model :: string
  ar_state_key :: string
  ar_created :: nat
  ar_prompt_tokens :: int
  ar_max_tokens :: int
  ar_generated :: int
  ar_stop :: bool
  ar_pause :: bool
  ar_prefilled :: int

record finished_request =
  fr_request :: active_request
  fr_finished :: nat

text \<open>\<open>'p\<close> is what a paused request keeps of its options, its generation state and its logits.\<close>

record 'p paused_request =
  pq_id :: string
  pq_endpoint :: string
  pq_model :: string
  pq_created :: nat
  pq_generated :: int
  pq_chunk_size :: int
  pq_max_tokens :: int
  pq_payload :: 'p

record 'p registry =
  rg_heap :: "nat \<Rightarrow> active_request"
  rg_fresh :: nat
  rg_active :: "nat list"
  rg_last :: "finished_request option"
  rg_paused :: "string \<Rightarrow> 'p paused_request option"
  rg_next_id :: "64 word"

definition empty_registry :: "'p registry" where
  "empty_registry =
     \<lparr>rg_heap = (\<lambda>_. undefined), rg_fresh = 0, rg_active = [], rg_last = None, rg_paused = Map.empty, rg_next_id = 0\<rparr>"

section \<open>Operations\<close>

definition make_id :: "nat \<Rightarrow> 64 word \<Rightarrow> string" where
  "make_id now n = ''req-'' @ dec_string now @ ''-'' @ dec_string (unat n)"

definition start ::
    "string \<Rightarrow> string \<Rightarrow> int \<Rightarrow> int \<Rightarrow> string \<Rightarrow> string \<Rightarrow> nat \<Rightarrow> 'p registry \<Rightarrow> nat \<times> 'p registry" where
  "start endpoint model max_tokens prompt_tokens state_key request_id now s =
     (let next_id = (if request_id = [] then rg_next_id s + 1 else rg_next_id s);
          a = \<lparr>ar_id = (if request_id = [] then make_id now next_id else request_id), ar_endpoint = endpoint,
               ar_model = model, ar_state_key = state_key, ar_created = now, ar_prompt_tokens = prompt_tokens,
               ar_max_tokens = max_tokens, ar_generated = 0, ar_stop = False, ar_pause = False, ar_prefilled = 0\<rparr>;
          r = rg_fresh s
      in (r, s\<lparr>rg_heap := (rg_heap s)(r := a), rg_fresh := Suc r, rg_active := rg_active s @ [r], rg_next_id := next_id\<rparr>))"

definition active :: "string \<Rightarrow> 'p registry \<Rightarrow> nat option" where
  "active request_id s =
     (if request_id = [] then (if rg_active s = [] then None else Some (last (rg_active s)))
      else find (\<lambda>r. ar_id (rg_heap s r) = request_id) (rev (rg_active s)))"

definition update_active :: "nat \<Rightarrow> (active_request \<Rightarrow> active_request) \<Rightarrow> 'p registry \<Rightarrow> 'p registry" where
  "update_active r h s = s\<lparr>rg_heap := (rg_heap s)(r := h (rg_heap s r))\<rparr>"

definition stop_active :: "string \<Rightarrow> 'p registry \<Rightarrow> bool \<times> 'p registry" where
  "stop_active request_id s =
     (if request_id \<noteq> [] then
        (case active request_id s of
           None \<Rightarrow> (False, s)
         | Some r \<Rightarrow> (True, update_active r (\<lambda>a. a\<lparr>ar_stop := True\<rparr>) s))
      else (rg_active s \<noteq> [], fold (\<lambda>r. update_active r (\<lambda>a. a\<lparr>ar_stop := True\<rparr>)) (rg_active s) s))"

definition pause_active :: "string \<Rightarrow> 'p registry \<Rightarrow> string option \<times> 'p registry" where
  "pause_active request_id s =
     (case active request_id s of
        None \<Rightarrow> (None, s)
      | Some r \<Rightarrow> (Some (ar_id (rg_heap s r)), update_active r (\<lambda>a. a\<lparr>ar_pause := True\<rparr>) s))"

definition finish :: "nat \<Rightarrow> nat \<Rightarrow> 'p registry \<Rightarrow> 'p registry" where
  "finish r now s =
     (if r \<in> set (rg_active s) then
        s\<lparr>rg_last := Some \<lparr>fr_request = rg_heap s r, fr_finished = now\<rparr>, rg_active := remove1 r (rg_active s)\<rparr>
      else s)"

definition put_paused :: "'p paused_request \<Rightarrow> 'p registry \<Rightarrow> 'p registry" where
  "put_paused p s = s\<lparr>rg_paused := (rg_paused s)(pq_id p \<mapsto> p)\<rparr>"

definition take_paused :: "string \<Rightarrow> 'p registry \<Rightarrow> 'p paused_request option \<times> 'p registry" where
  "take_paused i s =
     (case rg_paused s i of
        None \<Rightarrow> (None, s)
      | Some p \<Rightarrow> (Some p, s\<lparr>rg_paused := (rg_paused s)(i := None)\<rparr>))"

section \<open>Runs\<close>

datatype 'p reg_label =
    RStart string string int int string string nat
  | RStop string
  | RPause string
  | RCount nat int
  | RFinish nat nat
  | RPut "'p paused_request"
  | RTake string

fun reg_apply :: "'p reg_label \<Rightarrow> 'p registry \<Rightarrow> 'p registry" where
  "reg_apply (RStart endpoint model mx pt key i now) s = snd (start endpoint model mx pt key i now s)"
| "reg_apply (RStop i) s = snd (stop_active i s)"
| "reg_apply (RPause i) s = snd (pause_active i s)"
| "reg_apply (RCount r n) s = update_active r (\<lambda>a. a\<lparr>ar_generated := n\<rparr>) s"
| "reg_apply (RFinish r now) s = finish r now s"
| "reg_apply (RPut p) s = put_paused p s"
| "reg_apply (RTake i) s = snd (take_paused i s)"

definition run_registry :: "'p reg_label list \<Rightarrow> 'p registry" where
  "run_registry ls = fold reg_apply ls empty_registry"

lemma run_registry_snoc: "run_registry (ls @ [l]) = reg_apply l (run_registry ls)"
  by (simp add: run_registry_def)

lemma run_registry_Nil: "run_registry [] = empty_registry"
  by (simp add: run_registry_def)

text \<open>What the operations on single requests leave alone.\<close>

lemma update_active_same [simp]:
  "rg_fresh (update_active r h s) = rg_fresh s" "rg_active (update_active r h s) = rg_active s"
  "rg_paused (update_active r h s) = rg_paused s" "rg_next_id (update_active r h s) = rg_next_id s"
  by (simp_all add: update_active_def)

lemma fold_update_same [simp]:
  "rg_fresh (fold (\<lambda>r. update_active r h) rs s) = rg_fresh s" "rg_active (fold (\<lambda>r. update_active r h) rs s) = rg_active s"
  "rg_paused (fold (\<lambda>r. update_active r h) rs s) = rg_paused s" "rg_next_id (fold (\<lambda>r. update_active r h) rs s) = rg_next_id s"
  by (induction rs arbitrary: s) simp_all

lemma update_active_id:
  "(\<And>a. ar_id (h a) = ar_id a) \<Longrightarrow> ar_id (rg_heap (update_active r h s) r') = ar_id (rg_heap s r')"
  by (simp add: update_active_def)

lemma fold_update_id:
  "(\<And>a. ar_id (h a) = ar_id a) \<Longrightarrow> ar_id (rg_heap (fold (\<lambda>r. update_active r h) rs s) r') = ar_id (rg_heap s r')"
  by (induction rs arbitrary: s) (simp_all add: update_active_id)

lemmas registry_defs = start_def stop_active_def pause_active_def finish_def put_paused_def take_paused_def

section \<open>Running requests\<close>

fun is_start :: "'p reg_label \<Rightarrow> bool" where
  "is_start (RStart _ _ _ _ _ _ _) = True"
| "is_start _ = False"

abbreviation starts :: "'p reg_label list \<Rightarrow> nat" where
  "starts ls \<equiv> length (filter is_start ls)"

text \<open>Request \<open>r\<close>, counted from 0, has been started and not been finished since.\<close>

definition live :: "'p reg_label list \<Rightarrow> nat \<Rightarrow> bool" where
  "live ls r \<longleftrightarrow>
     (\<exists>before l after. ls = before @ l # after \<and> is_start l \<and> starts before = r \<and> (\<forall>now. RFinish r now \<notin> set after))"

lemma live_Nil [simp]: "\<not> live [] r"
  by (simp add: live_def)

lemma live_snoc:
  "live (ls @ [l]) r \<longleftrightarrow> is_start l \<and> r = starts ls \<or> live ls r \<and> (\<forall>now. l \<noteq> RFinish r now)"
proof
  assume "live (ls @ [l]) r"
  then obtain before x after where x: "ls @ [l] = before @ x # after" "is_start x" "starts before = r"
    "\<forall>now. RFinish r now \<notin> set after"
    unfolding live_def by blast
  show "is_start l \<and> r = starts ls \<or> live ls r \<and> (\<forall>now. l \<noteq> RFinish r now)"
  proof (cases after rule: rev_cases)
    case Nil
    then show ?thesis using x by simp
  next
    case (snoc after' y)
    then have "ls = before @ x # after'" "y = l" using x(1) by (simp_all flip: append_assoc append_Cons)
    then show ?thesis using x(2-4) snoc unfolding live_def by auto
  qed
next
  assume "is_start l \<and> r = starts ls \<or> live ls r \<and> (\<forall>now. l \<noteq> RFinish r now)"
  then show "live (ls @ [l]) r"
  proof
    assume "is_start l \<and> r = starts ls"
    then have "ls @ [l] = ls @ l # [] \<and> is_start l \<and> starts ls = r \<and> (\<forall>now. RFinish r now \<notin> set [])" by simp
    then show ?thesis unfolding live_def by blast
  next
    assume l: "live ls r \<and> (\<forall>now. l \<noteq> RFinish r now)"
    then obtain before x after where x: "ls = before @ x # after" "is_start x" "starts before = r"
      "\<forall>now. RFinish r now \<notin> set after"
      unfolding live_def by blast
    then have "ls @ [l] = before @ x # (after @ [l])" "\<forall>now. RFinish r now \<notin> set (after @ [l])" using l by auto
    then show ?thesis using x(2,3) unfolding live_def by blast
  qed
qed

lemma live_started: "live ls r \<Longrightarrow> r < starts ls"
  by (auto simp: live_def)

lemma registry_live:
  "rg_fresh (run_registry ls) = starts ls \<and> sorted_wrt (<) (rg_active (run_registry ls)) \<and>
   (\<forall>r. r \<in> set (rg_active (run_registry ls)) \<longleftrightarrow> live ls r)"
proof (induction ls rule: rev_induct)
  case Nil
  show ?case by (simp add: run_registry_Nil empty_registry_def)
next
  case (snoc l ls)
  let ?s = "run_registry ls"
  have s: "rg_fresh ?s = starts ls" "sorted_wrt (<) (rg_active ?s)" "\<And>r. r \<in> set (rg_active ?s) \<longleftrightarrow> live ls r"
    using snoc by blast+
  have lt: "r < starts ls" if "r \<in> set (rg_active ?s)" for r using s(3) that live_started by blast
  have d: "distinct (rg_active ?s)" using s(2) by (simp add: strict_sorted_iff)
  have quiet: ?case if "rg_fresh (reg_apply l ?s) = rg_fresh ?s" "rg_active (reg_apply l ?s) = rg_active ?s"
    "\<not> is_start l" "\<forall>r now. l \<noteq> RFinish r now"
    using that s by (auto simp: run_registry_snoc live_snoc)
  show ?case
  proof (cases l)
    case (RStart endpoint model mx pt key i now)
    then have "rg_fresh (reg_apply l ?s) = Suc (starts ls)" "rg_active (reg_apply l ?s) = rg_active ?s @ [starts ls]"
      using s(1) by (simp_all add: start_def Let_def)
    then show ?thesis using RStart s(2,3) lt by (auto simp: run_registry_snoc live_snoc sorted_wrt_append)
  next
    case (RFinish r now)
    have "sorted_wrt (<) (remove1 r (rg_active ?s))"
      using s(2) by (simp add: strict_sorted_iff sorted_remove1)
    then show ?thesis
      using RFinish s d by (auto simp: run_registry_snoc live_snoc finish_def set_remove1_eq)
  qed (use quiet in \<open>auto simp: registry_defs split: option.split\<close>)
qed

lemma find_rev_sorted:
  fixes xs :: "nat list"
  assumes "sorted_wrt (<) xs"
  shows "find P (rev xs) = (let S = {x \<in> set xs. P x} in if S = {} then None else Some (Max S))"
  using assms
proof (induction xs rule: rev_induct)
  case (snoc x xs)
  have lt: "\<And>y. y \<in> set xs \<Longrightarrow> y < x" and IH: "sorted_wrt (<) xs" using snoc.prems by (auto simp: sorted_wrt_append)
  show ?case
  proof (cases "P x")
    case True
    have "Max {y \<in> set (xs @ [x]). P y} = x"
      by (rule Max_eqI) (use lt True in \<open>auto intro: less_imp_le\<close>)
    then show ?thesis using True by (auto simp: Let_def)
  next
    case False
    then have "{y \<in> set (xs @ [x]). P y} = {y \<in> set xs. P y}" by auto
    then show ?thesis using False snoc.IH [OF IH] by simp
  qed
qed simp

text \<open>
  C39. Whatever has happened, \<open>active\<close> finds the newest request that was started and not finished
  since, among those with the given id or, for an empty id, among all of them; and it finds none
  only if there is none.
\<close>

theorem active_is_newest:
  "active i (run_registry ls) =
   (let found = {r. live ls r \<and> (i = [] \<or> ar_id (rg_heap (run_registry ls) r) = i)}
    in if found = {} then None else Some (Max found))"
proof -
  let ?s = "run_registry ls"
  have so: "sorted_wrt (<) (rg_active ?s)" and li: "\<And>r. r \<in> set (rg_active ?s) \<longleftrightarrow> live ls r"
    using registry_live [of ls] by blast+
  have "active i ?s = find (\<lambda>r. i = [] \<or> ar_id (rg_heap ?s r) = i) (rev (rg_active ?s))"
  proof (cases "i = []")
    case True
    then show ?thesis by (cases "rg_active ?s" rule: rev_cases) (simp_all add: active_def)
  qed (simp add: active_def)
  then show ?thesis unfolding find_rev_sorted [OF so] li .
qed

section \<open>Paused requests\<close>

fun concerns :: "string \<Rightarrow> 'p reg_label \<Rightarrow> bool" where
  "concerns i (RPut p) = (pq_id p = i)"
| "concerns i (RTake j) = (j = i)"
| "concerns i _ = False"

lemma paused_history:
  "rg_paused (run_registry ls) i = (case rev (filter (concerns i) ls) of RPut p # _ \<Rightarrow> Some p | _ \<Rightarrow> None)"
proof (induction ls rule: rev_induct)
  case Nil
  show ?case by (simp add: run_registry_Nil empty_registry_def)
next
  case (snoc l ls)
  then show ?case
    by (cases l) (auto simp: run_registry_snoc registry_defs Let_def split: option.splits)
qed

text \<open>
  A paused request can be taken exactly once: what \<open>take_paused\<close> gives for an id is the request
  last put under it, if it has not been taken since, whatever happened to other ids and to the
  running requests.
\<close>

theorem take_paused_last_put:
  "fst (take_paused i (run_registry ls)) = (case rev (filter (concerns i) ls) of RPut p # _ \<Rightarrow> Some p | _ \<Rightarrow> None) \<and>
   fst (take_paused i (snd (take_paused i (run_registry ls)))) = None"
  using paused_history [of ls i] by (auto simp: take_paused_def split: option.splits)

section \<open>Generated ids\<close>

fun self_named :: "'p reg_label \<Rightarrow> bool" where
  "self_named (RStart _ _ _ _ _ i _) = (i = [])"
| "self_named _ = False"

abbreviation gens :: "'p reg_label list \<Rightarrow> nat" where
  "gens ls \<equiv> length (filter self_named ls)"

lemma self_named_start: "self_named l \<Longrightarrow> is_start l"
  by (cases l) auto

text \<open>Request \<open>r\<close> received its id from the registry.\<close>

definition named_here :: "'p reg_label list \<Rightarrow> nat \<Rightarrow> bool" where
  "named_here ls r \<longleftrightarrow> (\<exists>before l after. ls = before @ l # after \<and> self_named l \<and> starts before = r)"

lemma id_kept: "r < rg_fresh s \<Longrightarrow> ar_id (rg_heap (reg_apply l s) r) = ar_id (rg_heap s r)"
  by (cases l) (auto simp: registry_defs Let_def update_active_id fold_update_id split: option.split)

lemma next_id_run: "rg_next_id (run_registry ls) = of_nat (gens ls)"
proof (induction ls rule: rev_induct)
  case Nil
  show ?case by (simp add: run_registry_Nil empty_registry_def)
next
  case (snoc l ls)
  then show ?case by (cases l) (auto simp: run_registry_snoc registry_defs Let_def split: option.split)
qed

lemma generated_id:
  assumes "self_named l"
  shows "\<exists>now. ar_id (rg_heap (run_registry (before @ l # after)) (starts before)) = make_id now (of_nat (Suc (gens before)))"
proof (induction after rule: rev_induct)
  case Nil
  have "rg_fresh (run_registry before) = starts before" using registry_live by blast
  then show ?case
    using assms by (cases l) (auto simp: run_registry_snoc start_def Let_def next_id_run add.commute)
next
  case (snoc x xs)
  have "starts before < rg_fresh (run_registry (before @ l # xs))"
    using registry_live [of "before @ l # xs"] self_named_start [OF assms] by simp
  from id_kept [OF this, of x] show ?case
    using snoc run_registry_snoc [of "before @ l # xs" x] by simp
qed

lemma make_id_inj: "make_id a m = make_id b n \<Longrightarrow> m = n"
proof -
  have digits: "CHR ''-'' \<notin> set (rev (dec_string k))" for k using dec_string_digits [of "CHR ''-''" k] by auto
  have tail: "takeWhile (\<lambda>c. c \<noteq> CHR ''-'') (rev (make_id c k)) = rev (dec_string (unat k))" for c k
  proof -
    have "rev (make_id c k) = rev (dec_string (unat k)) @ CHR ''-'' # rev (''req-'' @ dec_string c)"
      by (simp add: make_id_def)
    moreover have "takeWhile (\<lambda>c. c \<noteq> CHR ''-'') (xs @ CHR ''-'' # ys) = xs" if "CHR ''-'' \<notin> set xs" for xs ys
      using that by (induction xs) auto
    ultimately show ?thesis using digits [of "unat k"] by metis
  qed
  assume "make_id a m = make_id b n"
  then have "rev (dec_string (unat m)) = rev (dec_string (unat n))" using tail by metis
  then have "unat m = unat n" by simp
  then show "m = n" by (simp only: word_unat_eq_iff)
qed

text \<open>
  Two requests that the registry named itself have different ids, whatever the clock says and
  whatever ids the clients choose, as long as it has not named more than \<open>2 ^ 64\<close>.
\<close>

theorem generated_ids_distinct:
  assumes "named_here ls r" "named_here ls r'" "r \<noteq> r'" "gens ls \<le> 2 ^ 64"
  shows "ar_id (rg_heap (run_registry ls) r) \<noteq> ar_id (rg_heap (run_registry ls) r')"
  using assms(1-3)
proof (induction r r' rule: linorder_wlog)
  case (le r r')
  obtain b l a where 1: "ls = b @ l # a" "self_named l" "starts b = r" using le(2) by (auto simp: named_here_def)
  obtain b' l' a' where 2: "ls = b' @ l' # a'" "self_named l'" "starts b' = r'" using le(3) by (auto simp: named_here_def)
  have ls: "b = take (length b) ls" "b' = take (length b') ls" "ls ! length b = l" "length b < length ls" "length b' < length ls"
    subgoal by (simp add: 1(1))
    subgoal by (simp add: 2(1))
    by (simp add: 1(1), simp add: 1(1), simp add: 2(1))
  have mono: "starts (take m ls) \<le> starts (take n ls) \<and> gens (take m ls) \<le> gens (take n ls)" if "m \<le> n" for m n
    using that by (metis filter_append le_Suc_ex le_add1 length_append take_add)
  have "length b < length b'"
  proof (rule ccontr)
    assume "\<not> length b < length b'"
    then have "starts b' \<le> starts b" using mono ls(1,2) by (metis not_less)
    then show False using le(1,4) 1(3) 2(3) by simp
  qed
  moreover have "gens (take (Suc (length b)) ls) = Suc (gens b)"
    using ls(1,3,4) 1(2) by (simp add: take_Suc_conv_app_nth)
  moreover have "gens (take (Suc (length b')) ls) = Suc (gens b')"
    using ls(2,5) 2(1,2) by (simp add: take_Suc_conv_app_nth)
  ultimately have lt: "gens b < gens b'" "gens b' < gens ls"
    using mono [of "Suc (length b)" "length b'"] mono [of "Suc (length b')" "length ls"] ls(2,5) by simp_all
  obtain now now' where "ar_id (rg_heap (run_registry ls) r) = make_id now (of_nat (Suc (gens b)))"
    "ar_id (rg_heap (run_registry ls) r') = make_id now' (of_nat (Suc (gens b')))"
    using generated_id [OF 1(2), of b a] generated_id [OF 2(2), of b' a'] 1 2 by auto
  moreover have "(of_nat (Suc (gens b)) :: 64 word) \<noteq> of_nat (Suc (gens b'))"
  proof
    assume "(of_nat (Suc (gens b)) :: 64 word) = of_nat (Suc (gens b'))"
    then have "(of_nat (gens b) :: 64 word) = of_nat (gens b')" by simp
    then show False using lt assms(4) by (simp add: word_of_nat_eq_iff take_bit_nat_eq_self)
  qed
  ultimately show ?case using make_id_inj by metis
next
  case (sym r r')
  then show ?case by metis
qed

section \<open>Pausing and resuming\<close>

definition pause_record :: "active_request \<Rightarrow> int \<Rightarrow> int \<Rightarrow> 'p \<Rightarrow> 'p paused_request" where
  "pause_record a chunk_size max_tokens payload =
     \<lparr>pq_id = ar_id a, pq_endpoint = ar_endpoint a, pq_model = ar_model a, pq_created = ar_created a,
      pq_generated = ar_generated a, pq_chunk_size = chunk_size, pq_max_tokens = max_tokens, pq_payload = payload\<rparr>"

text \<open>
  The end of a streamed chat request: \<open>granted\<close> says whether its prefill was admitted, the payload
  is what its generation left.
\<close>

definition chat_end ::
    "bool \<Rightarrow> int \<Rightarrow> int \<Rightarrow> int \<Rightarrow> 'p \<Rightarrow> nat \<Rightarrow> nat \<Rightarrow> 'p registry \<Rightarrow> 'p registry" where
  "chat_end granted generated chunk_size max_tokens payload r now s =
     (if \<not> granted then finish r now s
      else
        let s1 = (if generated > 0 then update_active r (\<lambda>a. a\<lparr>ar_generated := generated\<rparr>) s else s);
            s2 = (if ar_pause (rg_heap s1 r)
                  then put_paused (pause_record (rg_heap s1 r) chunk_size max_tokens payload) s1 else s1)
        in finish r now s2)"

datatype resume_error = NoRequestId | NotPaused | BadOptions

text \<open>
  The resume handler up to the response: the body may give \<open>max_tokens\<close>, and \<open>options_ok\<close> is the
  answer of \<open>parse_options\<close> and \<open>bind_adapter\<close>.
\<close>

definition resume_begin ::
    "string \<Rightarrow> int option \<Rightarrow> bool \<Rightarrow> string \<Rightarrow> nat \<Rightarrow> 'p registry \<Rightarrow>
     (resume_error + nat \<times> 'p paused_request \<times> int) \<times> 'p registry" where
  "resume_begin request_id given options_ok model now s =
     (if request_id = [] then (Inl NoRequestId, s)
      else
        case take_paused request_id s of
          (None, s1) \<Rightarrow> (Inl NotPaused, s1)
        | (Some p, s1) \<Rightarrow>
            if \<not> options_ok then (Inl BadOptions, put_paused p s1)
            else
              let max_tokens = (case given of Some n \<Rightarrow> n | None \<Rightarrow> max 0 (pq_max_tokens p - pq_generated p));
                  (r, s2) = start ''server.resume'' model max_tokens 0 request_id request_id now s1
              in (Inr (r, p, max_tokens), update_active r (\<lambda>a. a\<lparr>ar_generated := pq_generated p\<rparr>) s2))"

text \<open>Its task: the generation and the end of the stream.\<close>

definition resume_end ::
    "bool \<Rightarrow> int \<Rightarrow> int \<Rightarrow> 'p \<Rightarrow> 'p paused_request \<Rightarrow> nat \<Rightarrow> nat \<Rightarrow> 'p registry \<Rightarrow> 'p registry" where
  "resume_end granted chunk_size max_tokens payload p r now s =
     (if \<not> granted then finish r now s
      else
        let s1 = (if ar_pause (rg_heap s r)
                  then put_paused (pause_record (rg_heap s r) chunk_size (max_tokens + pq_generated p) payload) s else s)
        in finish r now s1)"

lemma resume_begin_start:
  assumes "resume_begin i given ok model now s = (Inr (r, p, mx), s1)"
  shows "active i s1 = Some r" "rg_paused s1 i = None" "r \<in> set (rg_active s1)"
    "mx = (case given of Some n \<Rightarrow> n | None \<Rightarrow> max 0 (pq_max_tokens p - pq_generated p))"
    "rg_heap s1 r = \<lparr>ar_id = i, ar_endpoint = ''server.resume'', ar_model = model, ar_state_key = i, ar_created = now,
       ar_prompt_tokens = 0, ar_max_tokens = mx, ar_generated = pq_generated p, ar_stop = False, ar_pause = False, ar_prefilled = 0\<rparr>"
    "rg_paused s i = Some p" "i \<noteq> []"
  using assms
  by (auto simp: resume_begin_def start_def take_paused_def active_def update_active_def Let_def split: if_splits option.splits)


text \<open>Options that are refused leave the paused request as it was.\<close>

theorem resume_refused_keeps:
  "fst (resume_begin i given False model now s) =
     (if i = [] then Inl NoRequestId else if rg_paused s i = None then Inl NotPaused else Inl BadOptions) \<and>
   rg_active (snd (resume_begin i given False model now s)) = rg_active s"
  by (auto simp: resume_begin_def take_paused_def put_paused_def split: option.split)

section \<open>Witnesses\<close>

definition two_starts :: "unit reg_label list" where
  "two_starts = [RStart ''chat'' ''m'' 8 3 [] [] 17, RStart ''chat'' ''m'' 8 3 [] [] 17]"

theorem generated_ids_distinct_witness:
  "ar_id (rg_heap (run_registry two_starts) 0) \<noteq> ar_id (rg_heap (run_registry two_starts) 1)"
proof (rule generated_ids_distinct)
  let ?l = "RStart ''chat'' ''m'' 8 3 [] [] 17"
  have "two_starts = [] @ ?l # [?l]" "two_starts = [?l] @ ?l # []" by (simp_all add: two_starts_def)
  moreover have "self_named ?l" "starts ([] :: unit reg_label list) = 0" "starts [?l] = 1" by simp_all
  ultimately show "named_here two_starts 0" "named_here two_starts 1" unfolding named_here_def by blast+
qed (simp_all add: two_starts_def)

definition one_paused :: "unit paused_request" where
  "one_paused =
     \<lparr>pq_id = ''a'', pq_endpoint = ''chat'', pq_model = ''m'', pq_created = 3, pq_generated = 5, pq_chunk_size = 2,
      pq_max_tokens = 8, pq_payload = ()\<rparr>"


end
