(* ===== verification/AdapterCache.thy ===== *)
theory AdapterCache
  imports Prelude "HOL-Library.AList"
begin

text \<open>
  The cache of adapters (\<open>AdapterCache\<close> in \<open>src/miss/adapter.cpp\<close>): the packages registered under
  an id, with the order of their versions; the handles and leases that requests hold; and the
  packages resident on the GPU, evicted by age under a budget when nobody holds their lease. A
  package is a shared object: the state keeps a heap of them, and what requests hold outside the cache
  is counted in the state. Reading a package from disk, the free device memory and the outcome of
  an upload are parameters of the steps.
\<close>

section \<open>Data\<close>

record 'p package =
  pk_version :: string
  pk_words :: nat
  pk_payload :: 'p

text \<open>The data of a package are 16-bit words.\<close>

abbreviation pk_bytes :: "'p package \<Rightarrow> nat" where
  "pk_bytes p \<equiv> 2 * pk_words p"

record resident =
  rs_words :: nat
  rs_used :: nat
  rs_out :: nat

text \<open>
  \<open>ac_registry\<close> flattens the map of maps, whose inner maps are never left empty. \<open>ac_host\<close> is
  \<open>host_lifetimes_\<close>, a list of weak pointers; \<open>ac_handles\<close> counts the handles of a package and
  \<open>rs_out\<close> the leases of a resident one that are held outside.
\<close>

record 'p adapter_cache =
  ac_ram_budget :: nat
  ac_gpu_budget :: nat
  ac_staging_budget :: nat
  ac_clock :: nat
  ac_objects :: "nat \<Rightarrow> 'p package"
  ac_next :: nat
  ac_handles :: "nat \<Rightarrow> nat"
  ac_registry :: "((string \<times> string) \<times> nat) list"
  ac_latest :: "string \<Rightarrow> string option"
  ac_order :: "string \<Rightarrow> string list"
  ac_host :: "nat list"
  ac_gpu :: "(string \<times> resident) list"
  ac_ram_hits :: nat
  ac_gpu_hits :: nat
  ac_gpu_misses :: nat
  ac_uploads :: nat
  ac_evictions :: nat
  ac_ram_bytes :: nat
  ac_gpu_bytes :: nat
  ac_gpu_peak :: nat

datatype adapter_error =
    EmptyId | LoadFailed | RamDenied | UnknownId | UnknownVersion | BadScale
  | ExceedsStaging | ExceedsGpu | GpuDenied | GpuOom | UploadFailed

definition adapter_cache :: "nat \<Rightarrow> nat \<Rightarrow> nat \<Rightarrow> 'p adapter_cache" where
  "adapter_cache ram gpu staging =
     \<lparr>ac_ram_budget = ram, ac_gpu_budget = gpu, ac_staging_budget = staging, ac_clock = 0,
      ac_objects = (\<lambda>_. undefined), ac_next = 0, ac_handles = (\<lambda>_. 0), ac_registry = [], ac_latest = Map.empty,
      ac_order = (\<lambda>_. []), ac_host = [], ac_gpu = [], ac_ram_hits = 0, ac_gpu_hits = 0, ac_gpu_misses = 0,
      ac_uploads = 0, ac_evictions = 0, ac_ram_bytes = 0, ac_gpu_bytes = 0, ac_gpu_peak = 0\<rparr>"

section \<open>Packages in memory\<close>

text \<open>A package lives as long as the registry or a handle refers to it.\<close>

definition live_package :: "'p adapter_cache \<Rightarrow> nat \<Rightarrow> bool" where
  "live_package s a \<longleftrightarrow> a \<in> snd ` set (ac_registry s) \<or> 0 < ac_handles s a"

definition account_ram :: "'p adapter_cache \<Rightarrow> 'p adapter_cache" where
  "account_ram s =
     (let host = filter (live_package s) (ac_host s)
      in s\<lparr>ac_host := host, ac_ram_bytes := (\<Sum>a\<leftarrow>host. pk_bytes (ac_objects s a))\<rparr>)"

definition set_latest :: "string \<Rightarrow> string \<Rightarrow> 'p adapter_cache \<Rightarrow> 'p adapter_cache" where
  "set_latest i v s =
     s\<lparr>ac_order := (ac_order s)(i := filter (\<lambda>w. w \<noteq> v) (ac_order s i) @ [v]), ac_latest := (ac_latest s)(i \<mapsto> v)\<rparr>"

text \<open>\<open>load\<close> is \<open>load_package\<close> of the directory under a limit of bytes.\<close>

definition register_adapter ::
    "string \<Rightarrow> (nat \<Rightarrow> 'p package option) \<Rightarrow> 'p adapter_cache \<Rightarrow> (adapter_error + string) \<times> 'p adapter_cache" where
  "register_adapter i load s =
     (if i = [] then (Inl EmptyId, s)
      else
        let s1 = account_ram s in
        case load (ac_ram_budget s1 - min (ac_ram_budget s1) (ac_ram_bytes s1)) of
          None \<Rightarrow> (Inl LoadFailed, s1)
        | Some p \<Rightarrow>
            let v = pk_version p in
            if map_of (ac_registry s1) (i, v) \<noteq> None then
              (Inr v, set_latest i v (s1\<lparr>ac_ram_hits := Suc (ac_ram_hits s1)\<rparr>))
            else
              (case find (\<lambda>a. live_package s1 a \<and> pk_version (ac_objects s1 a) = v) (ac_host s1) of
                 Some a \<Rightarrow>
                   let s2 = set_latest i v (s1\<lparr>ac_registry := AList.update (i, v) a (ac_registry s1)\<rparr>)
                   in (Inr v, s2\<lparr>ac_ram_hits := Suc (ac_ram_hits s2)\<rparr>)
               | None \<Rightarrow>
                   let s2 = account_ram s1 in
                   if pk_bytes p > ac_ram_budget s2 - min (ac_ram_budget s2) (ac_ram_bytes s2) then (Inl RamDenied, s2)
                   else
                     let a = ac_next s2;
                         s3 = set_latest i v
                           (s2\<lparr>ac_objects := (ac_objects s2)(a := p), ac_next := Suc a,
                               ac_registry := AList.update (i, v) a (ac_registry s2)\<rparr>)
                     in (Inr v, account_ram (s3\<lparr>ac_host := ac_host s3 @ [a]\<rparr>))))"

text \<open>
  An empty version means the latest one; \<open>scale_ok\<close> says that the scale is finite. The result is
  the package of the handle, which the caller then holds.
\<close>

definition resolve ::
    "string \<Rightarrow> string \<Rightarrow> bool \<Rightarrow> 'p adapter_cache \<Rightarrow> ((adapter_error + nat) \<times> 'p adapter_cache) option" where
  "resolve i version scale_ok s =
     (if i \<notin> (fst \<circ> fst) ` set (ac_registry s) then Some (Inl UnknownId, s)
      else
        case (if version = [] then ac_latest s i else Some version) of
          None \<Rightarrow> None
        | Some v \<Rightarrow>
            (case map_of (ac_registry s) (i, v) of
               None \<Rightarrow> Some (Inl UnknownVersion, s)
             | Some a \<Rightarrow>
                 let s1 = s\<lparr>ac_ram_hits := Suc (ac_ram_hits s)\<rparr> in
                 if \<not> scale_ok then Some (Inl BadScale, s1)
                 else Some (Inr a, s1\<lparr>ac_handles := (ac_handles s1)(a := Suc (ac_handles s1 a))\<rparr>)))"

text \<open>\<open>order.back()\<close> of an empty vector is undefined: \<open>None\<close>. An empty version erases the id.\<close>

definition forget :: "string \<Rightarrow> 'p adapter_cache \<Rightarrow> 'p adapter_cache" where
  "forget i s =
     s\<lparr>ac_registry := filter (\<lambda>e. fst (fst e) \<noteq> i) (ac_registry s), ac_latest := (ac_latest s)(i := None),
       ac_order := (ac_order s)(i := [])\<rparr>"

definition erase :: "string \<Rightarrow> string \<Rightarrow> 'p adapter_cache \<Rightarrow> 'p adapter_cache option" where
  "erase i version s =
     (if i \<notin> (fst \<circ> fst) ` set (ac_registry s) then Some s
      else if version = [] then Some (account_ram (forget i s))
      else
        let s1 = s\<lparr>ac_registry := AList.delete (i, version) (ac_registry s),
                   ac_order := (ac_order s)(i := filter (\<lambda>w. w \<noteq> version) (ac_order s i))\<rparr>
        in
        if i \<notin> (fst \<circ> fst) ` set (ac_registry s1) then Some (account_ram (forget i s1))
        else if ac_latest s1 i = Some version then
          (if ac_order s1 i = [] then None
           else Some (account_ram (s1\<lparr>ac_latest := (ac_latest s1)(i \<mapsto> last (ac_order s1 i))\<rparr>)))
        else Some (account_ram s1))"

section \<open>Packages on the GPU\<close>

text \<open>The search for the least recently used entry that only the cache refers to.\<close>

fun scan_free :: "(string \<times> resident) option \<Rightarrow> (string \<times> resident) list \<Rightarrow> (string \<times> resident) option" where
  "scan_free best [] = best"
| "scan_free best ((v, r) # rest) =
     scan_free
       (if rs_out r = 0 \<and> (case best of None \<Rightarrow> True | Some (_, b) \<Rightarrow> rs_used r < rs_used b) then Some (v, r) else best) rest"

definition evict :: "string \<Rightarrow> resident \<Rightarrow> 'p adapter_cache \<Rightarrow> 'p adapter_cache" where
  "evict v r s =
     s\<lparr>ac_gpu_bytes := ac_gpu_bytes s - 2 * rs_words r, ac_gpu := AList.delete v (ac_gpu s),
       ac_evictions := Suc (ac_evictions s)\<rparr>"

lemma scan_free_in:
  "scan_free best xs = Some (v, r) \<Longrightarrow> best = Some (v, r) \<or> (v, r) \<in> set xs \<and> rs_out r = 0"
  by (induction best xs rule: scan_free.induct) (auto split: if_splits)

lemma length_delete_less: "v \<in> fst ` set xs \<Longrightarrow> length (AList.delete v xs) < length xs"
  by (induction xs) (auto simp: AList.delete_eq intro: le_imp_less_Suc length_filter_le)

function admit_loop :: "nat \<Rightarrow> 'p adapter_cache \<Rightarrow> bool \<times> 'p adapter_cache" where
  "admit_loop limit s =
     (if ac_gpu_bytes s > limit then
        (case scan_free None (ac_gpu s) of
           None \<Rightarrow> (False, s)
         | Some (v, r) \<Rightarrow> admit_loop limit (evict v r s))
      else (True, s))"
  by pat_completeness auto

termination
  by (relation "measure (\<lambda>(limit, s). length (ac_gpu s))")
    (auto simp: evict_def dest!: scan_free_in intro!: length_delete_less image_eqI)

declare admit_loop.simps [simp del]

definition admit_gpu :: "nat \<Rightarrow> 'p adapter_cache \<Rightarrow> adapter_error option \<times> 'p adapter_cache" where
  "admit_gpu bytes s =
     (if bytes > ac_gpu_budget s then (Some ExceedsGpu, s)
      else
        let (ok, s1) = admit_loop (ac_gpu_budget s - bytes) s
        in (if ok then None else Some GpuDenied, s1))"

text \<open>A lease whose upload is complete becomes resident; the caller holds it.\<close>

definition publish_lease :: "'p package \<Rightarrow> 'p adapter_cache \<Rightarrow> 'p adapter_cache" where
  "publish_lease p s =
     (let clock = Suc (ac_clock s); total = ac_gpu_bytes s + pk_bytes p in
      s\<lparr>ac_clock := clock,
        ac_gpu := AList.update (pk_version p) \<lparr>rs_words = pk_words p, rs_used = clock, rs_out = 1\<rparr> (ac_gpu s),
        ac_gpu_bytes := total, ac_gpu_peak := max (ac_gpu_peak s) total, ac_uploads := Suc (ac_uploads s)\<rparr>)"

text \<open>
  \<open>acquire\<close> for the package at \<open>a\<close>; the result says whether the lease was cold. The lease returned
  is held by the caller.
\<close>

definition acquire ::
    "nat \<Rightarrow> nat \<Rightarrow> bool \<Rightarrow> 'p adapter_cache \<Rightarrow> (adapter_error + bool) \<times> 'p adapter_cache" where
  "acquire a free_bytes upload_ok s =
     (let p = ac_objects s a; v = pk_version p in
      case map_of (ac_gpu s) v of
        Some r \<Rightarrow>
          let clock = Suc (ac_clock s) in
          (Inr False, s\<lparr>ac_gpu_hits := Suc (ac_gpu_hits s), ac_clock := clock,
             ac_gpu := AList.update v (r\<lparr>rs_used := clock, rs_out := Suc (rs_out r)\<rparr>) (ac_gpu s)\<rparr>)
      | None \<Rightarrow>
          let s1 = s\<lparr>ac_gpu_misses := Suc (ac_gpu_misses s)\<rparr> in
          if pk_bytes p > ac_staging_budget s1 then (Inl ExceedsStaging, s1)
          else
            case admit_gpu (pk_bytes p) s1 of
              (Some e, s2) \<Rightarrow> (Inl e, s2)
            | (None, s2) \<Rightarrow>
                if pk_bytes p > free_bytes then (Inl GpuOom, s2)
                else if \<not> upload_ok then (Inl UploadFailed, s2)
                else
                  (Inr True, publish_lease p s2))"

fun trim_loop :: "(string \<times> resident) list \<Rightarrow> 'p adapter_cache \<Rightarrow> 'p adapter_cache" where
  "trim_loop [] s = s"
| "trim_loop ((v, r) # rest) s = trim_loop rest (if rs_out r = 0 then evict v r s else s)"

definition trim :: "'p adapter_cache \<Rightarrow> 'p adapter_cache" where
  "trim s = account_ram (trim_loop (ac_gpu s) s)"

definition stats_ram_bytes :: "'p adapter_cache \<Rightarrow> nat" where
  "stats_ram_bytes s = (\<Sum>a\<leftarrow>filter (live_package s) (ac_host s). pk_bytes (ac_objects s a))"

section \<open>What requests do with handles and leases\<close>

definition drop_handle :: "nat \<Rightarrow> 'p adapter_cache \<Rightarrow> 'p adapter_cache" where
  "drop_handle a s = s\<lparr>ac_handles := (ac_handles s)(a := ac_handles s a - 1)\<rparr>"

definition drop_lease :: "string \<Rightarrow> 'p adapter_cache \<Rightarrow> 'p adapter_cache" where
  "drop_lease v s =
     (case map_of (ac_gpu s) v of
        None \<Rightarrow> s
      | Some r \<Rightarrow> s\<lparr>ac_gpu := AList.update v (r\<lparr>rs_out := rs_out r - 1\<rparr>) (ac_gpu s)\<rparr>)"

text \<open>A lease is only acquired through a handle that is held.\<close>

datatype 'p adapter_label =
    ARegister string "nat \<Rightarrow> 'p package option"
  | AResolve string string bool
  | ADropHandle nat
  | AAcquire nat nat bool
  | ADropLease string
  | AErase string string
  | ATrim

fun adapter_step :: "'p adapter_label \<Rightarrow> 'p adapter_cache \<Rightarrow> 'p adapter_cache option" where
  "adapter_step (ARegister i load) s = Some (snd (register_adapter i load s))"
| "adapter_step (AResolve i v ok) s = map_option snd (resolve i v ok s)"
| "adapter_step (ADropHandle a) s = Some (drop_handle a s)"
| "adapter_step (AAcquire a free ok) s = Some (if 0 < ac_handles s a then snd (acquire a free ok s) else s)"
| "adapter_step (ADropLease v) s = Some (drop_lease v s)"
| "adapter_step (AErase i v) s = erase i v s"
| "adapter_step ATrim s = Some (trim s)"

definition run_adapters :: "'p adapter_label list \<Rightarrow> 'p adapter_cache \<Rightarrow> 'p adapter_cache option" where
  "run_adapters ls s = fold (\<lambda>l r. Option.bind r (adapter_step l)) ls (Some s)"

section \<open>Invariant\<close>

definition ram_ok ::
    "nat \<Rightarrow> (nat \<Rightarrow> 'p package) \<Rightarrow> nat \<Rightarrow> nat list \<Rightarrow> (nat \<Rightarrow> bool) \<Rightarrow> bool" where
  "ram_ok budget objs fresh host L \<longleftrightarrow>
     distinct host \<and> (\<forall>a. L a \<longrightarrow> a \<in> set host) \<and> (\<forall>a \<in> set host. a < fresh) \<and>
     inj_on (pk_version \<circ> objs) {a. L a} \<and> (\<Sum>a\<leftarrow>filter L host. pk_bytes (objs a)) \<le> budget"

definition names_ok ::
    "((string \<times> string) \<times> nat) list \<Rightarrow> (string \<Rightarrow> string option) \<Rightarrow> (string \<Rightarrow> string list) \<Rightarrow> (nat \<Rightarrow> 'p package) \<Rightarrow> bool" where
  "names_ok registry latest order objs \<longleftrightarrow>
     distinct (map fst registry) \<and>
     (\<forall>i v a. map_of registry (i, v) = Some a \<longrightarrow> pk_version (objs a) = v) \<and>
     (\<forall>i. distinct (order i) \<and> (\<forall>v. v \<in> set (order i) \<longleftrightarrow> map_of registry (i, v) \<noteq> None) \<and>
        latest i = (if order i = [] then None else Some (last (order i))))"

definition gpu_total :: "(string \<times> resident) list \<Rightarrow> nat" where
  "gpu_total gpu = (\<Sum>(v, r)\<leftarrow>gpu. 2 * rs_words r)"

definition gpu_ok :: "nat \<Rightarrow> (string \<times> resident) list \<Rightarrow> nat \<Rightarrow> nat \<Rightarrow> bool" where
  "gpu_ok budget gpu bytes peak \<longleftrightarrow>
     distinct (map fst gpu) \<and> bytes = gpu_total gpu \<and> bytes \<le> budget \<and> bytes \<le> peak \<and> peak \<le> budget"

definition cache_ok :: "'p adapter_cache \<Rightarrow> bool" where
  "cache_ok s \<longleftrightarrow>
     ram_ok (ac_ram_budget s) (ac_objects s) (ac_next s) (ac_host s) (live_package s) \<and>
     names_ok (ac_registry s) (ac_latest s) (ac_order s) (ac_objects s) \<and>
     gpu_ok (ac_gpu_budget s) (ac_gpu s) (ac_gpu_bytes s) (ac_gpu_peak s)"

lemma filter_sum_mono:
  "(\<And>a. L' a \<Longrightarrow> L a) \<Longrightarrow> (\<Sum>a\<leftarrow>filter L' xs. f a) \<le> (\<Sum>a\<leftarrow>filter L xs. f a :: nat)"
  by (induction xs) (auto intro: le_trans trans_le_add2)

lemma ram_ok_shrink:
  assumes "ram_ok b objs n host L" "\<And>a. L' a \<Longrightarrow> L a"
  shows "ram_ok b objs n host L'" "ram_ok b objs n (filter L' host) L'"
proof -
  have "(\<Sum>a\<leftarrow>filter L' host. pk_bytes (objs a)) \<le> b"
    using assms(1) filter_sum_mono [of L' L "\<lambda>a. pk_bytes (objs a)" host] assms(2) by (auto simp: ram_ok_def)
  moreover have "inj_on (pk_version \<circ> objs) {a. L' a}"
    by (rule inj_on_subset [of _ "{a. L a}"]) (use assms in \<open>auto simp: ram_ok_def\<close>)
  ultimately show "ram_ok b objs n host L'" "ram_ok b objs n (filter L' host) L'"
    using assms by (auto simp: ram_ok_def)
qed

lemma ram_ok_add:
  assumes "ram_ok b objs n host L" "\<And>a. L a \<Longrightarrow> pk_version (objs a) \<noteq> pk_version p"
    and "(\<Sum>a\<leftarrow>filter L host. pk_bytes (objs a)) + pk_bytes p \<le> b"
  shows "ram_ok b (objs(n := p)) (Suc n) (host @ [n]) (\<lambda>a. L a \<or> a = n)"
proof -
  have lt: "a < n" if "a \<in> set host \<or> L a" for a using assms(1) that by (auto simp: ram_ok_def)
  have f: "filter (\<lambda>a. L a \<or> a = n) host = filter L host" using lt by (auto intro: filter_cong)
  have s: "(\<Sum>a\<leftarrow>filter L host. pk_bytes ((objs(n := p)) a)) = (\<Sum>a\<leftarrow>filter L host. pk_bytes (objs a))"
    using lt by (intro arg_cong [where f = sum_list] map_cong) auto
  have "inj_on (pk_version \<circ> objs(n := p)) {a. L a \<or> a = n}"
    using assms(1,2) assms(2) [symmetric] lt unfolding ram_ok_def inj_on_def by (auto split: if_splits)
  then show ?thesis
    using assms(1,3) lt s by (auto simp: ram_ok_def f less_Suc_eq fun_upd_same simp del: fun_upd_apply)
qed

lemma account_ram_fields [simp]:
  "ac_ram_budget (account_ram s) = ac_ram_budget s" "ac_objects (account_ram s) = ac_objects s"
  "ac_next (account_ram s) = ac_next s" "ac_registry (account_ram s) = ac_registry s"
  "ac_latest (account_ram s) = ac_latest s" "ac_order (account_ram s) = ac_order s" "ac_handles (account_ram s) = ac_handles s"
  "ac_gpu_budget (account_ram s) = ac_gpu_budget s" "ac_gpu (account_ram s) = ac_gpu s"
  "ac_gpu_bytes (account_ram s) = ac_gpu_bytes s" "ac_gpu_peak (account_ram s) = ac_gpu_peak s"
  "live_package (account_ram s) = live_package s" "ac_host (account_ram s) = filter (live_package s) (ac_host s)"
  "ac_ram_bytes (account_ram s) = stats_ram_bytes s" "stats_ram_bytes (account_ram s) = stats_ram_bytes s"
  by (simp_all add: account_ram_def live_package_def [abs_def] stats_ram_bytes_def Let_def)

lemma account_ram_ok [simp]: "cache_ok s \<Longrightarrow> cache_ok (account_ram s)"
  by (simp add: cache_ok_def) (auto intro: ram_ok_shrink(2))

text \<open>An operation that only lets go of packages.\<close>

lemma cache_ok_release:
  assumes "cache_ok s" "\<And>a. live_package s' a \<Longrightarrow> live_package s a"
    and "ac_ram_budget s' = ac_ram_budget s" "ac_objects s' = ac_objects s" "ac_next s' = ac_next s" "ac_host s' = ac_host s"
    and "names_ok (ac_registry s') (ac_latest s') (ac_order s') (ac_objects s')"
    and "ac_gpu_budget s' = ac_gpu_budget s" "ac_gpu s' = ac_gpu s" "ac_gpu_bytes s' = ac_gpu_bytes s" "ac_gpu_peak s' = ac_gpu_peak s"
  shows "cache_ok s'"
  using assms by (simp add: cache_ok_def) (auto intro: ram_ok_shrink(1))

lemma names_version: "names_ok reg lat ord objs \<Longrightarrow> map_of reg (i, v) = Some a \<Longrightarrow> pk_version (objs a) = v"
  unfolding names_ok_def by blast

text \<open>Adding a version under an id.\<close>

lemma names_ok_add:
  assumes n: "names_ok reg lat ord objs" and v: "pk_version (objs' a) = v"
    and same: "\<And>i' v' a'. map_of reg (i', v') = Some a' \<Longrightarrow> objs' a' = objs a'"
  shows "names_ok (AList.update (i, v) a reg) (lat(i \<mapsto> v)) (ord(i := filter (\<lambda>w. w \<noteq> v) (ord i) @ [v])) objs'"
  using n v same unfolding names_ok_def by (auto simp: distinct_update)

lemma names_ok_latest:
  assumes "names_ok reg lat ord objs" "map_of reg (i, v) \<noteq> None"
  shows "names_ok reg (lat(i \<mapsto> v)) (ord(i := filter (\<lambda>w. w \<noteq> v) (ord i) @ [v])) objs"
  using assms unfolding names_ok_def by auto

lemma snd_update_new:
  "map_of xs k = None \<Longrightarrow> snd ` set (AList.update k a xs) = insert a (snd ` set xs)"
proof (induction xs)
  case (Cons p xs)
  then show ?case by (simp add: insert_commute split: if_splits)
qed simp

lemma cache_ok_register:
  assumes "cache_ok s"
  shows "cache_ok (snd (register_adapter i load s))"
proof (cases "i = []")
  case False
  define s1 where "s1 = account_ram s"
  have ok: "cache_ok s1" using assms by (simp add: s1_def)
  have R: "ram_ok (ac_ram_budget s1) (ac_objects s1) (ac_next s1) (ac_host s1) (live_package s1)"
    and N: "names_ok (ac_registry s1) (ac_latest s1) (ac_order s1) (ac_objects s1)"
    and G: "gpu_ok (ac_gpu_budget s1) (ac_gpu s1) (ac_gpu_bytes s1) (ac_gpu_peak s1)" using ok by (simp_all add: cache_ok_def)
  have total: "ac_ram_bytes s1 = stats_ram_bytes s1" by (simp add: s1_def)
  show ?thesis
  proof (cases "load (ac_ram_budget s1 - min (ac_ram_budget s1) (ac_ram_bytes s1))")
    case None
    then show ?thesis using False ok by (simp add: register_adapter_def s1_def [symmetric] Let_def)
  next
    case load: (Some p)
    let ?v = "pk_version p"
    show ?thesis
    proof (cases "map_of (ac_registry s1) (i, ?v)")
      case (Some a)
      let ?s = "set_latest i ?v (s1\<lparr>ac_ram_hits := Suc (ac_ram_hits s1)\<rparr>)"
      have "cache_ok ?s"
        by (rule cache_ok_release [OF ok]) (use names_ok_latest [OF N] Some in \<open>simp_all add: set_latest_def live_package_def\<close>)
      then show ?thesis using False load Some by (simp add: register_adapter_def s1_def [symmetric] Let_def)
    next
      case new: None
      show ?thesis
      proof (cases "find (\<lambda>a. live_package s1 a \<and> pk_version (ac_objects s1 a) = ?v) (ac_host s1)")
        case (Some a)
        have a: "live_package s1 a" "pk_version (ac_objects s1 a) = ?v" using find_SomeD [OF Some] by auto
        let ?s = "set_latest i ?v (s1\<lparr>ac_registry := AList.update (i, ?v) a (ac_registry s1)\<rparr>)"
        have "cache_ok (?s\<lparr>ac_ram_hits := Suc (ac_ram_hits ?s)\<rparr>)"
          by (rule cache_ok_release [OF ok])
            (use names_ok_add [OF N, where objs' = "ac_objects s1" and a = a and v = ?v and i = i] a in \<open>auto simp: set_latest_def live_package_def snd_update_new [OF new]\<close>)
        then show ?thesis using False load new Some by (simp add: register_adapter_def s1_def [symmetric] Let_def)
      next
        case fresh: None
        let ?s2 = "account_ram s1"
        show ?thesis
        proof (cases "pk_bytes p > ac_ram_budget ?s2 - min (ac_ram_budget ?s2) (ac_ram_bytes ?s2)")
          case True
          then show ?thesis using False load new fresh ok by (simp add: register_adapter_def s1_def [symmetric] Let_def)
        next
          case room: False
          let ?a = "ac_next s1"
          define s3 where "s3 = set_latest i ?v (?s2\<lparr>ac_objects := (ac_objects ?s2)(?a := p), ac_next := Suc ?a,
            ac_registry := AList.update (i, ?v) ?a (ac_registry ?s2)\<rparr>)"
          define s4 where "s4 = s3\<lparr>ac_host := ac_host s3 @ [?a]\<rparr>"
          have host: "filter (live_package s1) (ac_host s1) = ac_host s1" by (simp add: s1_def)
          have nl: "live_package s1 b \<Longrightarrow> b \<in> set (ac_host s1) \<and> b < ?a" for b using R by (auto simp: ram_ok_def)
          have live: "live_package s4 = (\<lambda>b. live_package s1 b \<or> b = ?a)"
            using snd_update_new [OF new, of ?a] by (auto simp: s4_def s3_def set_latest_def live_package_def fun_eq_iff)
          have "pk_version (ac_objects s1 b) \<noteq> ?v" if "live_package s1 b" for b
            using fresh nl [OF that] that by (auto simp: find_None_iff)
          moreover have "(\<Sum>b\<leftarrow>filter (live_package s1) (ac_host s1). pk_bytes (ac_objects s1 b)) + pk_bytes p \<le> ac_ram_budget s1"
            using room R unfolding ram_ok_def stats_ram_bytes_def account_ram_fields by linarith
          ultimately have "ram_ok (ac_ram_budget s4) (ac_objects s4) (ac_next s4) (ac_host s4) (live_package s4)"
            using ram_ok_add [OF R] unfolding live by (simp add: s4_def s3_def set_latest_def host)
          moreover have "names_ok (ac_registry s4) (ac_latest s4) (ac_order s4) (ac_objects s4)"
          proof -
            have "b \<noteq> ?a" if "map_of (ac_registry s1) (i', v') = Some b" for i' v' b
              using that nl [of b] by (force simp: live_package_def dest: map_of_SomeD)
            then show ?thesis
              using names_ok_add [OF N, of "(ac_objects s1)(?a := p)" ?a ?v i] by (simp add: s4_def s3_def set_latest_def)
          qed
          ultimately have "cache_ok s4" using G by (simp add: cache_ok_def s4_def s3_def set_latest_def)
          then show ?thesis
            using False load new fresh room
            by (simp add: register_adapter_def s1_def [symmetric] Let_def s4_def s3_def)
        qed
      qed
    qed
  qed
qed (use assms in \<open>simp add: register_adapter_def\<close>)

text \<open>Handles: a package that is held was registered when the handle was made.\<close>

lemma registered_latest:
  assumes "names_ok reg lat ord objs" "i \<in> (fst \<circ> fst) ` set reg"
  shows "\<exists>v a. lat i = Some v \<and> map_of reg (i, v) = Some a"
proof -
  obtain v a where "((i, v), a) \<in> set reg" using assms(2) by force
  then have "map_of reg (i, v) \<noteq> None" by (auto dest: weak_map_of_SomeI)
  then have "v \<in> set (ord i)" using assms(1) by (simp add: names_ok_def)
  then have "ord i \<noteq> []" by auto
  then have "lat i = Some (last (ord i))" using assms(1) by (simp add: names_ok_def)
  moreover have "last (ord i) \<in> set (ord i)" using \<open>ord i \<noteq> []\<close> by simp
  moreover have "map_of reg (i, last (ord i)) \<noteq> None" using calculation(2) assms(1) unfolding names_ok_def by blast
  then have "\<exists>a. map_of reg (i, last (ord i)) = Some a" by simp
  ultimately show ?thesis by blast
qed

lemma cache_ok_resolve:
  assumes "cache_ok s"
  shows "\<exists>r s'. resolve i version ok s = Some (r, s') \<and> cache_ok s'"
proof (cases "i \<in> (fst \<circ> fst) ` set (ac_registry s)")
  case True
  have N: "names_ok (ac_registry s) (ac_latest s) (ac_order s) (ac_objects s)" using assms by (simp add: cache_ok_def)
  obtain l where l: "ac_latest s i = Some l" using registered_latest [OF N True] by blast
  define v where "v = (if version = [] then l else version)"
  have v: "(if version = [] then ac_latest s i else Some version) = Some v" using l by (simp add: v_def)
  have hits: "cache_ok (s\<lparr>ac_ram_hits := Suc (ac_ram_hits s)\<rparr>)"
    by (rule cache_ok_release [OF assms]) (use N in \<open>auto simp: live_package_def\<close>)
  show ?thesis
  proof (cases "map_of (ac_registry s) (i, v)")
    case None
    then show ?thesis using True assms v by (simp add: resolve_def)
  next
    case (Some a)
    have a: "a \<in> snd ` set (ac_registry s)" using map_of_SomeD [OF Some] by force
    have "cache_ok (s\<lparr>ac_ram_hits := Suc (ac_ram_hits s), ac_handles := (ac_handles s)(a := Suc (ac_handles s a))\<rparr>)"
      by (rule cache_ok_release [OF assms]) (use N a in \<open>auto simp: live_package_def split: if_splits\<close>)
    then show ?thesis using True v Some hits by (simp add: resolve_def Let_def)
  qed
qed (use assms in \<open>simp add: resolve_def\<close>)

lemma map_of_filter_keys: "map_of (filter (\<lambda>e. P (fst e)) xs) k = (if P k then map_of xs k else None)"
  by (induction xs) auto

lemma distinct_filter_keys: "distinct (map fst xs) \<Longrightarrow> distinct (map fst (filter P xs))"
  by (induction xs) auto

lemma last_filter: "xs \<noteq> [] \<Longrightarrow> P (last xs) \<Longrightarrow> last (filter P xs) = last xs"
  by (induction xs rule: rev_induct) auto

lemma names_ok_forget:
  assumes "names_ok reg lat ord objs"
  shows "names_ok (filter (\<lambda>e. fst (fst e) \<noteq> i) reg) (lat(i := None)) (ord(i := [])) objs"
  using assms unfolding names_ok_def by (auto simp: map_of_filter_keys [where P = "\<lambda>k. fst k \<noteq> i"] distinct_filter_keys)

lemma cache_ok_forget:
  assumes "cache_ok s"
  shows "cache_ok (forget i s)"
  by (rule cache_ok_release [OF assms])
    (use assms names_ok_forget in \<open>auto simp: forget_def live_package_def cache_ok_def\<close>)

lemma names_ok_delete:
  assumes n: "names_ok reg lat ord objs" and i: "i \<in> (fst \<circ> fst) ` set (AList.delete (i, v) reg)"
  defines "ord' \<equiv> ord(i := filter (\<lambda>w. w \<noteq> v) (ord i))"
  shows "ord' i \<noteq> []"
    and "names_ok (AList.delete (i, v) reg) (if lat i = Some v then lat(i \<mapsto> last (ord' i)) else lat) ord' objs"
proof -
  have nonempty: "ord' i \<noteq> []"
  proof -
    obtain w a where w: "((i, w), a) \<in> set (AList.delete (i, v) reg)" using i by force
    then have "w \<noteq> v" "map_of reg (i, w) \<noteq> None" by (auto simp: AList.delete_eq dest: weak_map_of_SomeI)
    then have "w \<in> set (ord' i)" using n by (simp add: ord'_def names_ok_def)
    then show ?thesis by auto
  qed
  then show "ord' i \<noteq> []" .
  have "ord i \<noteq> []" using nonempty by (auto simp: ord'_def)
  then have "lat i = Some (last (ord i))" using n by (simp add: names_ok_def)
  then have lat: "(if lat i = Some v then Some (last (ord' i)) else lat i) = Some (last (ord' i))"
    using last_filter [OF \<open>ord i \<noteq> []\<close>, of "\<lambda>w. w \<noteq> v"] by (simp add: ord'_def)
  show "names_ok (AList.delete (i, v) reg) (if lat i = Some v then lat(i \<mapsto> last (ord' i)) else lat) ord' objs"
    unfolding names_ok_def
  proof (intro conjI allI impI)
    show "distinct (map fst (AList.delete (i, v) reg))" using n by (simp add: names_ok_def distinct_delete)
  next
    fix j w a assume "map_of (AList.delete (i, v) reg) (j, w) = Some a"
    then show "pk_version (objs a) = w" using n by (auto simp: names_ok_def delete_conv split: if_splits)
  next
    fix j w show "(w \<in> set (ord' j)) = (map_of (AList.delete (i, v) reg) (j, w) \<noteq> None)"
      using n by (auto simp: ord'_def names_ok_def delete_conv)
  next
    fix j show "distinct (ord' j)" using n by (simp add: ord'_def names_ok_def)
    show "(if lat i = Some v then lat(i \<mapsto> last (ord' i)) else lat) j = (if ord' j = [] then None else Some (last (ord' j)))"
    proof (cases "j = i")
      case True
      then show ?thesis using lat nonempty by (auto split: if_splits)
    next
      case False
      then show ?thesis using n by (simp add: ord'_def names_ok_def)
    qed
  qed
qed

lemma cache_ok_erase:
  assumes "cache_ok s"
  shows "\<exists>s'. erase i version s = Some s' \<and> cache_ok s'"
proof (cases "i \<notin> (fst \<circ> fst) ` set (ac_registry s) \<or> version = []")
  case True
  then show ?thesis using assms cache_ok_forget [OF assms] by (auto simp: erase_def)
next
  case False
  let ?reg = "AList.delete (i, version) (ac_registry s)"
  let ?ord = "(ac_order s)(i := filter (\<lambda>w. w \<noteq> version) (ac_order s i))"
  define s1 where "s1 = s\<lparr>ac_registry := ?reg, ac_order := ?ord\<rparr>"
  have N: "names_ok (ac_registry s) (ac_latest s) (ac_order s) (ac_objects s)" using assms by (simp add: cache_ok_def)
  show ?thesis
  proof (cases "i \<in> (fst \<circ> fst) ` set ?reg")
    case True
    let ?lat = "if ac_latest s i = Some version then (ac_latest s)(i \<mapsto> last (?ord i)) else ac_latest s"
    have "cache_ok (s1\<lparr>ac_latest := ?lat\<rparr>)"
      by (rule cache_ok_release [OF assms])
        (use names_ok_delete(2) [OF N True] in \<open>auto simp: s1_def live_package_def AList.delete_eq\<close>)
    then show ?thesis
      using False True names_ok_delete(1) [OF N True]
      by (cases "ac_latest s i = Some version") (auto simp: erase_def s1_def Let_def simp del: o_apply)
  next
    case gone: False
    have "filter (\<lambda>e. fst (fst e) \<noteq> i) ?reg = filter (\<lambda>e. fst (fst e) \<noteq> i) (ac_registry s)"
      by (simp add: AList.delete_eq) (rule filter_cong, auto)
    then have "forget i s1 = forget i s" by (simp add: forget_def s1_def fun_eq_iff)
    then show ?thesis using False gone cache_ok_forget [OF assms, of i] by (simp add: erase_def s1_def [symmetric] Let_def) (simp add: s1_def)
  qed
qed

section \<open>Invariant of the packages on the GPU\<close>

lemma gpu_total_simps [simp]:
  "gpu_total [] = 0" "gpu_total (e # xs) = 2 * rs_words (snd e) + gpu_total xs"
  by (simp_all add: gpu_total_def case_prod_beta)

lemma gpu_total_update_new:
  "map_of xs v = None \<Longrightarrow> gpu_total (AList.update v r xs) = gpu_total xs + 2 * rs_words r"
  by (induction xs) (auto split: if_splits)

lemma gpu_total_update_same:
  "map_of xs v = Some r \<Longrightarrow> rs_words r' = rs_words r \<Longrightarrow> gpu_total (AList.update v r' xs) = gpu_total xs"
  by (induction xs) (auto split: if_splits)

lemma gpu_delete_absent: "v \<notin> fst ` set xs \<Longrightarrow> AList.delete v xs = xs"
  by (induction xs) auto

lemma delete_updated: "AList.delete v (AList.update v r xs) = AList.delete v xs"
  by (induction xs) auto

lemma gpu_total_delete:
  "distinct (map fst xs) \<Longrightarrow> (v, r) \<in> set xs \<Longrightarrow> gpu_total (AList.delete v xs) + 2 * rs_words r = gpu_total xs"
proof (induction xs)
  case (Cons e xs)
  show ?case
  proof (cases "fst e = v")
    case True
    then have "v \<notin> fst ` set xs" using Cons.prems(1) by auto
    then show ?thesis using True Cons.prems(2) by (cases e) (auto simp: gpu_delete_absent image_iff)
  next
    case False
    then show ?thesis using Cons by (cases e) auto
  qed
qed simp

lemma gpu_ok_evict:
  assumes "gpu_ok b gpu bytes peak" "(v, r) \<in> set gpu"
  shows "gpu_ok b (AList.delete v gpu) (bytes - 2 * rs_words r) peak"
  using assms gpu_total_delete [of gpu v r] by (auto simp: gpu_ok_def distinct_delete)

text \<open>An operation on the leases only.\<close>

lemma cache_ok_gpu:
  assumes "cache_ok s"
    and "ac_ram_budget s' = ac_ram_budget s" "ac_objects s' = ac_objects s" "ac_next s' = ac_next s" "ac_host s' = ac_host s"
    and "ac_registry s' = ac_registry s" "ac_handles s' = ac_handles s" "ac_latest s' = ac_latest s" "ac_order s' = ac_order s"
    and "gpu_ok (ac_gpu_budget s') (ac_gpu s') (ac_gpu_bytes s') (ac_gpu_peak s')"
  shows "cache_ok s'"
proof -
  have "live_package s' = live_package s" using assms by (simp add: live_package_def [abs_def])
  then show ?thesis using assms by (simp add: cache_ok_def)
qed

lemma cache_ok_gpuD: "cache_ok s \<Longrightarrow> gpu_ok (ac_gpu_budget s) (ac_gpu s) (ac_gpu_bytes s) (ac_gpu_peak s)"
  by (simp add: cache_ok_def)

lemma cache_ok_evict: "cache_ok s \<Longrightarrow> (v, r) \<in> set (ac_gpu s) \<Longrightarrow> cache_ok (evict v r s)"
  by (rule cache_ok_gpu [of s]) (auto simp: evict_def intro: gpu_ok_evict cache_ok_gpuD)

lemma admit_loop_ok:
  "cache_ok s \<Longrightarrow> admit_loop limit s = (ok, s') \<Longrightarrow>
     cache_ok s' \<and> (ok \<longrightarrow> ac_gpu_bytes s' \<le> limit) \<and> ac_gpu_budget s' = ac_gpu_budget s \<and>
     ac_staging_budget s' = ac_staging_budget s \<and> (map_of (ac_gpu s) v = None \<longrightarrow> map_of (ac_gpu s') v = None)"
proof (induction limit s rule: admit_loop.induct)
  case (1 limit s)
  show ?case
  proof (cases "ac_gpu_bytes s > limit \<and> scan_free None (ac_gpu s) \<noteq> None")
    case True
    then obtain w r where b: "ac_gpu_bytes s > limit" and w: "scan_free None (ac_gpu s) = Some (w, r)" by auto
    have "admit_loop limit (evict w r s) = (ok, s')"
      using 1(3) b w by (simp add: admit_loop.simps [of limit s])
    moreover have "(w, r) \<in> set (ac_gpu s)" using scan_free_in [OF w] by simp
    ultimately show ?thesis using 1(1) [OF b w refl cache_ok_evict [OF 1(2)]] by (auto simp: evict_def delete_conv)
  next
    case False
    then show ?thesis using 1(2,3) by (subst (asm) admit_loop.simps) (auto split: if_splits option.splits)
  qed
qed

lemma cache_ok_acquire:
  assumes "cache_ok s"
  shows "cache_ok (snd (acquire a free ok s))"
proof -
  let ?p = "ac_objects s a"
  let ?v = "pk_version ?p"
  let ?s1 = "s\<lparr>ac_gpu_misses := Suc (ac_gpu_misses s)\<rparr>"
  show ?thesis
  proof (cases "map_of (ac_gpu s) ?v")
    case (Some r)
    then show ?thesis
      using cache_ok_gpuD [OF assms]
      by (auto simp: acquire_def publish_lease_def Let_def gpu_ok_def distinct_update gpu_total_update_same intro!: cache_ok_gpu [OF assms])
  next
    case None
    have s1: "cache_ok ?s1" by (rule cache_ok_gpu [OF assms]) (use cache_ok_gpuD [OF assms] in simp_all)
    obtain good s2 where l: "admit_loop (ac_gpu_budget s - pk_bytes ?p) ?s1 = (good, s2)" by force
    have s2: "cache_ok s2" "good \<Longrightarrow> ac_gpu_bytes s2 \<le> ac_gpu_budget s2 - pk_bytes ?p" "ac_gpu_budget s2 = ac_gpu_budget s"
      "map_of (ac_gpu s2) ?v = None"
      using admit_loop_ok [OF s1 l, of ?v] None by auto
    have "gpu_ok (ac_gpu_budget s2) (AList.update ?v \<lparr>rs_words = pk_words ?p, rs_used = c, rs_out = 1\<rparr> (ac_gpu s2))
       (ac_gpu_bytes s2 + pk_bytes ?p) (max (ac_gpu_peak s2) (ac_gpu_bytes s2 + pk_bytes ?p))"
      if "pk_bytes ?p \<le> ac_gpu_budget s" "good" for c
      using cache_ok_gpuD [OF s2(1)] s2(2) [OF that(2)] s2(3,4) that(1)
      by (auto simp: gpu_ok_def distinct_update gpu_total_update_new)
    then show ?thesis
      using None s1 l s2 by (auto simp: acquire_def publish_lease_def admit_gpu_def Let_def intro!: cache_ok_gpu [OF s2(1)])
  qed
qed

lemma trim_loop_ok:
  "cache_ok s \<Longrightarrow> set gpu \<subseteq> set (ac_gpu s) \<Longrightarrow> distinct (map fst gpu) \<Longrightarrow> cache_ok (trim_loop gpu s)"
proof (induction gpu arbitrary: s)
  case (Cons e gpu)
  obtain v r where e: "e = (v, r)" by (cases e)
  show ?case
  proof (cases "rs_out r = 0")
    case True
    have "set gpu \<subseteq> set (ac_gpu (evict v r s))"
      using Cons.prems(2,3) e by (force simp: evict_def AList.delete_eq)
    then show ?thesis
      using True Cons.IH [of "evict v r s"] cache_ok_evict [OF Cons.prems(1), of v r] Cons.prems(2,3) by (simp add: e)
  next
    case False
    then show ?thesis using Cons.IH [OF Cons.prems(1)] Cons.prems(2,3) by (simp add: e)
  qed
qed simp

lemma cache_ok_trim: "cache_ok s \<Longrightarrow> cache_ok (trim s)"
  unfolding trim_def by (intro account_ram_ok trim_loop_ok) (use cache_ok_gpuD [of s] in \<open>auto simp: gpu_ok_def\<close>)

lemma cache_ok_drop_lease: "cache_ok s \<Longrightarrow> cache_ok (drop_lease v s)"
  using cache_ok_gpuD [of s]
  by (auto simp: drop_lease_def gpu_ok_def distinct_update gpu_total_update_same split: option.splits intro!: cache_ok_gpu [of s])

lemma cache_ok_drop_handle:
  assumes "cache_ok s"
  shows "cache_ok (drop_handle a s)"
  by (rule cache_ok_release [OF assms])
    (use assms in \<open>auto simp: drop_handle_def live_package_def cache_ok_def split: if_splits\<close>)

lemma adapter_step_ok:
  assumes "cache_ok s"
  shows "\<exists>s'. adapter_step l s = Some s' \<and> cache_ok s'"
proof (cases l)
  case (AResolve i v ok)
  then show ?thesis using cache_ok_resolve [OF assms, of i v ok] by auto
next
  case (AErase i v)
  then show ?thesis using cache_ok_erase [OF assms, of i v] by auto
qed (use assms in \<open>simp_all add: cache_ok_register cache_ok_acquire cache_ok_trim cache_ok_drop_lease cache_ok_drop_handle\<close>)

lemma cache_ok_new: "cache_ok (adapter_cache ram gpu staging)"
  by (simp add: cache_ok_def adapter_cache_def ram_ok_def names_ok_def gpu_ok_def live_package_def)

lemma run_adapters_Some: "fold (\<lambda>l r. Option.bind r (adapter_step l)) ls None = None"
  by (induction ls) auto

lemma run_adapters_ok:
  assumes "cache_ok s"
  shows "\<exists>s'. run_adapters ls s = Some s' \<and> cache_ok s'"
  using assms
proof (induction ls arbitrary: s)
  case (Cons l ls)
  obtain s1 where "adapter_step l s = Some s1" "cache_ok s1" using adapter_step_ok [OF Cons.prems] by blast
  then show ?case using Cons.IH [of s1] by (simp add: run_adapters_def)
qed (simp add: run_adapters_def)

section \<open>Leases and admission\<close>

text \<open>What every step but dropping the lease keeps of a resident package.\<close>

definition lease_kept :: "resident option \<Rightarrow> resident option \<Rightarrow> bool" where
  "lease_kept old new \<longleftrightarrow>
     (\<forall>r. old = Some r \<longrightarrow> 0 < rs_out r \<longrightarrow> (\<exists>r'. new = Some r' \<and> rs_words r' = rs_words r \<and> rs_out r \<le> rs_out r'))"

lemma lease_kept_refl [simp]: "lease_kept r r" by (simp add: lease_kept_def)

lemma lease_kept_trans: "lease_kept r1 r2 \<Longrightarrow> lease_kept r2 r3 \<Longrightarrow> lease_kept r1 r3"
  unfolding lease_kept_def by (cases r1; cases r2) fastforce+

lemma lease_kept_evict:
  "distinct (map fst (ac_gpu s)) \<Longrightarrow> (w, r) \<in> set (ac_gpu s) \<Longrightarrow> rs_out r = 0 \<Longrightarrow>
     lease_kept (map_of (ac_gpu s) v) (map_of (ac_gpu (evict w r s)) v)"
  by (cases "v = w") (use map_of_is_SomeI [of "ac_gpu s" w r] in \<open>auto simp: lease_kept_def evict_def delete_conv\<close>)

lemma admit_loop_keeps:
  "distinct (map fst (ac_gpu s)) \<Longrightarrow> lease_kept (map_of (ac_gpu s) v) (map_of (ac_gpu (snd (admit_loop limit s))) v)"
proof (induction limit s rule: admit_loop.induct)
  case (1 limit s)
  show ?case
  proof (cases "ac_gpu_bytes s > limit \<and> scan_free None (ac_gpu s) \<noteq> None")
    case True
    then obtain w r where b: "ac_gpu_bytes s > limit" and w: "scan_free None (ac_gpu s) = Some (w, r)" by auto
    have step: "admit_loop limit s = admit_loop limit (evict w r s)" using b w by (simp add: admit_loop.simps [of limit s])
    have wr: "(w, r) \<in> set (ac_gpu s)" "rs_out r = 0" using scan_free_in [OF w] by simp_all
    show ?thesis unfolding step
      by (rule lease_kept_trans [OF lease_kept_evict [OF 1(2) wr] 1(1) [OF b w refl]])
        (use 1(2) in \<open>simp add: evict_def distinct_delete\<close>)
  next
    case False
    then show ?thesis by (subst admit_loop.simps) (auto split: option.splits)
  qed
qed

lemma acquire_keeps:
  assumes "distinct (map fst (ac_gpu s))"
  shows "lease_kept (map_of (ac_gpu s) v) (map_of (ac_gpu (snd (acquire a free ok s))) v)"
proof (cases "map_of (ac_gpu s) (pk_version (ac_objects s a))")
  case (Some r)
  then show ?thesis by (auto simp: acquire_def publish_lease_def Let_def lease_kept_def)
next
  case None
  let ?w = "pk_version (ac_objects s a)"
  let ?s1 = "s\<lparr>ac_gpu_misses := Suc (ac_gpu_misses s)\<rparr>"
  obtain good s2 where l: "admit_loop (ac_gpu_budget s - pk_bytes (ac_objects s a)) ?s1 = (good, s2)" by force
  have k: "lease_kept (map_of (ac_gpu s) v) (map_of (ac_gpu s2) v)"
    using admit_loop_keeps [of ?s1 v "ac_gpu_budget s - pk_bytes (ac_objects s a)"] assms l by simp
  have "lease_kept (map_of (ac_gpu s) v) (map_of (AList.update ?w r (ac_gpu s2)) v)" for r
    using k None by (cases "v = ?w") (auto simp: lease_kept_def)
  then show ?thesis using None l k by (auto simp: acquire_def publish_lease_def admit_gpu_def Let_def)
qed

lemma trim_loop_keeps:
  "set gpu \<subseteq> set (ac_gpu s) \<Longrightarrow> distinct (map fst gpu) \<Longrightarrow> distinct (map fst (ac_gpu s)) \<Longrightarrow>
     lease_kept (map_of (ac_gpu s) v) (map_of (ac_gpu (trim_loop gpu s)) v)"
proof (induction gpu arbitrary: s)
  case (Cons e gpu)
  obtain w r where e: "e = (w, r)" by (cases e)
  show ?case
  proof (cases "rs_out r = 0")
    case True
    have "set gpu \<subseteq> set (ac_gpu (evict w r s))"
      using Cons.prems(1,2) e by (force simp: evict_def AList.delete_eq)
    then have "lease_kept (map_of (ac_gpu (evict w r s)) v) (map_of (ac_gpu (trim_loop gpu (evict w r s))) v)"
      using Cons.IH [of "evict w r s"] Cons.prems(2,3) by (simp add: evict_def distinct_delete)
    then show ?thesis
      using lease_kept_trans [OF lease_kept_evict [of s w r v]] True Cons.prems e by simp
  next
    case False
    then show ?thesis using Cons.IH [of s] Cons.prems by (simp add: e)
  qed
qed simp

lemma register_gpu: "ac_gpu (snd (register_adapter i load s)) = ac_gpu s"
  by (auto simp: register_adapter_def Let_def set_latest_def split: option.splits)

lemma step_keeps_lease:
  assumes "distinct (map fst (ac_gpu s))" "adapter_step l s = Some s'" "l \<noteq> ADropLease v"
  shows "lease_kept (map_of (ac_gpu s) v) (map_of (ac_gpu s') v)"
proof (cases l)
  case (AResolve i w ok)
  then show ?thesis using assms by (auto simp: resolve_def Let_def split: if_splits option.splits)
next
  case (AErase i w)
  then show ?thesis using assms by (auto simp: erase_def forget_def Let_def split: if_splits)
next
  case (ADropLease w)
  then show ?thesis using assms by (auto simp: drop_lease_def split: option.splits)
next
  case ATrim
  then show ?thesis using assms trim_loop_keeps [of "ac_gpu s" s v] by (auto simp: trim_def)
qed (use assms acquire_keeps [OF assms(1), of v] in \<open>auto simp: register_gpu drop_handle_def\<close>)

text \<open>The bytes of the packages that requests hold, which no admission can free.\<close>

definition held_bytes :: "(string \<times> resident) list \<Rightarrow> nat" where
  "held_bytes gpu = gpu_total (filter (\<lambda>e. 0 < rs_out (snd e)) gpu)"

lemma gpu_total_filter: "gpu_total (filter P xs) \<le> gpu_total xs"
  by (induction xs) auto

lemma scan_free_None: "scan_free best xs = None \<longleftrightarrow> best = None \<and> (\<forall>e \<in> set xs. 0 < rs_out (snd e))"
  by (induction best xs rule: scan_free.induct) (auto split: option.splits)

lemma held_delete:
  "distinct (map fst xs) \<Longrightarrow> (v, r) \<in> set xs \<Longrightarrow> rs_out r = 0 \<Longrightarrow> held_bytes (AList.delete v xs) = held_bytes xs"
proof (induction xs)
  case (Cons e xs)
  show ?case
  proof (cases "fst e = v")
    case True
    then have "v \<notin> fst ` set xs" using Cons.prems(1) by auto
    then show ?thesis using True Cons.prems(2,3) by (cases e) (auto simp: held_bytes_def gpu_delete_absent image_iff)
  next
    case False
    then show ?thesis using Cons by (cases e) (auto simp: held_bytes_def)
  qed
qed simp

lemma admit_loop_iff:
  "distinct (map fst (ac_gpu s)) \<Longrightarrow> ac_gpu_bytes s = gpu_total (ac_gpu s) \<Longrightarrow>
     fst (admit_loop limit s) \<longleftrightarrow> held_bytes (ac_gpu s) \<le> limit"
proof (induction limit s rule: admit_loop.induct)
  case (1 limit s)
  show ?case
  proof (cases "ac_gpu_bytes s > limit \<and> scan_free None (ac_gpu s) \<noteq> None")
    case True
    then obtain w r where b: "ac_gpu_bytes s > limit" and w: "scan_free None (ac_gpu s) = Some (w, r)" by auto
    have wr: "(w, r) \<in> set (ac_gpu s)" "rs_out r = 0" using scan_free_in [OF w] by simp_all
    have "admit_loop limit s = admit_loop limit (evict w r s)" using b w by (simp add: admit_loop.simps [of limit s])
    moreover have "gpu_total (ac_gpu s) - 2 * rs_words r = gpu_total (AList.delete w (ac_gpu s))"
      using gpu_total_delete [OF 1(2) wr(1)] by simp
    ultimately show ?thesis
      using 1(1) [OF b w refl] 1(2,3) held_delete [OF 1(2) wr] by (simp add: evict_def distinct_delete)
  next
    case False
    consider "ac_gpu_bytes s \<le> limit" | "ac_gpu_bytes s > limit" "scan_free None (ac_gpu s) = None" using False by force
    then show ?thesis
    proof cases
      case 1
      have "held_bytes (ac_gpu s) \<le> limit"
        using 1 \<open>ac_gpu_bytes s = gpu_total (ac_gpu s)\<close> gpu_total_filter le_trans unfolding held_bytes_def by metis
      then show ?thesis using 1 by (subst admit_loop.simps) simp
    next
      case 2
      have "filter (\<lambda>e. 0 < rs_out (snd e)) (ac_gpu s) = ac_gpu s" using 2(2) by (simp add: scan_free_None filter_id_conv)
      then show ?thesis using 2 \<open>ac_gpu_bytes s = gpu_total (ac_gpu s)\<close> by (subst admit_loop.simps) (simp add: held_bytes_def)
    qed
  qed
qed

text \<open>The order of evictions: least recently used first.\<close>

lemma scan_free_least:
  "scan_free best xs = Some (v, r) \<Longrightarrow>
     (\<forall>e \<in> set xs. rs_out (snd e) = 0 \<longrightarrow> rs_used r \<le> rs_used (snd e)) \<and> (\<forall>b. best = Some b \<longrightarrow> rs_used r \<le> rs_used (snd b))"
proof (induction best xs rule: scan_free.induct)
  case (2 best w q rest)
  then show ?case by (cases best) (auto split: if_splits prod.splits)
qed auto

definition evicted_oldest :: "(string \<times> resident) list \<Rightarrow> (string \<times> resident) list \<Rightarrow> bool" where
  "evicted_oldest gpu gpu' \<longleftrightarrow>
     set gpu' \<subseteq> set gpu \<and>
     (\<forall>e \<in> set gpu - set gpu'. rs_out (snd e) = 0 \<and> (\<forall>f \<in> set gpu'. rs_out (snd f) = 0 \<longrightarrow> rs_used (snd e) \<le> rs_used (snd f)))"

lemma admit_loop_oldest:
  "distinct (map fst (ac_gpu s)) \<Longrightarrow> evicted_oldest (ac_gpu s) (ac_gpu (snd (admit_loop limit s)))"
proof (induction limit s rule: admit_loop.induct)
  case (1 limit s)
  show ?case
  proof (cases "ac_gpu_bytes s > limit \<and> scan_free None (ac_gpu s) \<noteq> None")
    case True
    then obtain w r where b: "ac_gpu_bytes s > limit" and w: "scan_free None (ac_gpu s) = Some (w, r)" by auto
    have step: "admit_loop limit s = admit_loop limit (evict w r s)" using b w by (simp add: admit_loop.simps [of limit s])
    have wr: "(w, r) \<in> set (ac_gpu s)" "rs_out r = 0" using scan_free_in [OF w] by simp_all
    have gone: "set (ac_gpu s) = insert (w, r) (set (ac_gpu (evict w r s)))"
      using 1(2) wr(1) by (auto simp: evict_def AList.delete_eq dest: eq_key_imp_eq_value)
    define gpu' where "gpu' = ac_gpu (snd (admit_loop limit (evict w r s)))"
    have ih: "evicted_oldest (ac_gpu (evict w r s)) gpu'"
      using 1(1) [OF b w refl] 1(2) by (simp add: gpu'_def evict_def distinct_delete)
    have "rs_used r \<le> rs_used (snd f)" if "f \<in> set gpu'" "rs_out (snd f) = 0" for f
      using that ih scan_free_least [OF w] gone unfolding evicted_oldest_def by blast
    then show ?thesis
      using ih wr(2) unfolding step gpu'_def [symmetric] evicted_oldest_def gone by auto
  next
    case False
    then show ?thesis by (subst admit_loop.simps) (auto simp: evicted_oldest_def split: option.splits)
  qed
qed

section \<open>Budgets\<close>

definition same_budgets :: "'p adapter_cache \<Rightarrow> 'p adapter_cache \<Rightarrow> bool" where
  "same_budgets s s' \<longleftrightarrow>
     ac_ram_budget s' = ac_ram_budget s \<and> ac_gpu_budget s' = ac_gpu_budget s \<and> ac_staging_budget s' = ac_staging_budget s"

lemma same_budgets_evict [simp]: "same_budgets s (evict v r s)" by (simp add: same_budgets_def evict_def)

lemma same_budgets_trans: "same_budgets s1 s2 \<Longrightarrow> same_budgets s2 s3 \<Longrightarrow> same_budgets s1 s3"
  by (simp add: same_budgets_def)

lemma admit_loop_budgets: "same_budgets s (snd (admit_loop limit s))"
proof (induction limit s rule: admit_loop.induct)
  case (1 limit s)
  then show ?case
    by (subst admit_loop.simps)
      (auto simp: same_budgets_def evict_def split: option.splits)
qed

lemma trim_loop_budgets: "same_budgets s (trim_loop gpu s)"
proof (induction gpu s rule: trim_loop.induct)
  case (2 v r rest s)
  then show ?case by (auto intro: same_budgets_trans [OF same_budgets_evict])
qed (simp add: same_budgets_def)

lemma account_staging [simp]: "ac_staging_budget (account_ram s) = ac_staging_budget s"
  by (simp add: account_ram_def Let_def)

lemma acquire_budgets: "same_budgets s (snd (acquire a free ok s))"
  using admit_loop_budgets [of "s\<lparr>ac_gpu_misses := Suc (ac_gpu_misses s)\<rparr>" "ac_gpu_budget s - pk_bytes (ac_objects s a)"]
  by (auto simp: acquire_def publish_lease_def admit_gpu_def Let_def same_budgets_def split: option.splits prod.splits)

lemma step_budgets:
  assumes "adapter_step l s = Some s'"
  shows "same_budgets s s'"
proof (cases l)
  case (ARegister i load)
  then show ?thesis
    using assms by (auto simp: register_adapter_def Let_def set_latest_def same_budgets_def split: option.splits)
next
  case (AResolve i w ok)
  then show ?thesis using assms by (auto simp: resolve_def Let_def same_budgets_def split: if_splits option.splits)
next
  case (AAcquire a free ok)
  then show ?thesis using assms acquire_budgets [of s a free ok] by (auto simp: same_budgets_def)
next
  case (AErase i w)
  then show ?thesis using assms by (auto simp: erase_def forget_def Let_def same_budgets_def split: if_splits)
next
  case ATrim
  then show ?thesis using assms trim_loop_budgets [of s "ac_gpu s"] by (auto simp: trim_def same_budgets_def)
qed (use assms in \<open>auto simp: drop_handle_def drop_lease_def same_budgets_def split: option.splits\<close>)

lemma run_adapters_Cons:
  "run_adapters (l # ls) s = Option.bind (adapter_step l s) (run_adapters ls)"
  by (cases "adapter_step l s") (simp_all add: run_adapters_def run_adapters_Some)

lemma run_reachable:
  assumes "run_adapters ls (adapter_cache ram gpu staging) = Some s"
  shows "cache_ok s" "ac_ram_budget s = ram" "ac_gpu_budget s = gpu" "ac_staging_budget s = staging"
proof -
  show "cache_ok s" using run_adapters_ok [OF cache_ok_new, of ls ram gpu staging] assms by auto
  have "same_budgets s0 s" if "run_adapters ls s0 = Some s" for s0 s and ls :: "'a adapter_label list"
    using that
  proof (induction ls arbitrary: s0)
    case (Cons l ls)
    then show ?case
      by (auto simp: run_adapters_Cons bind_eq_Some_conv intro: same_budgets_trans [OF step_budgets])
  qed (simp add: run_adapters_def same_budgets_def)
  from this [OF assms] show "ac_ram_budget s = ram" "ac_gpu_budget s = gpu" "ac_staging_budget s = staging"
    by (simp_all add: same_budgets_def adapter_cache_def)
qed

section \<open>Properties\<close>

text \<open>
  C25. Whatever sequence of registrations, resolutions, acquisitions, erasures and trims runs on a new
  cache, no step reads a missing entry, and in the state reached the live packages fit the RAM
  budget, no two of them have the same version, the counter of GPU bytes is the total of the
  resident packages, it and its peak fit the GPU budget, and the latest version of every id is
  registered under it.
\<close>

theorem adapter_cache_budgets:
  "\<exists>s. run_adapters ls (adapter_cache ram gpu staging) = Some s \<and>
     stats_ram_bytes s \<le> ram \<and> inj_on (pk_version \<circ> ac_objects s) {a. live_package s a} \<and>
     ac_gpu_bytes s = gpu_total (ac_gpu s) \<and> ac_gpu_bytes s \<le> ac_gpu_peak s \<and> ac_gpu_peak s \<le> gpu \<and>
     (\<forall>i. case ac_latest s i of None \<Rightarrow> True
       | Some v \<Rightarrow> \<exists>a. map_of (ac_registry s) (i, v) = Some a \<and> pk_version (ac_objects s a) = v)"
proof -
  obtain s where s: "run_adapters ls (adapter_cache ram gpu staging) = Some s"
    using run_adapters_ok [OF cache_ok_new] by blast
  note r = run_reachable [OF s]
  have "\<exists>a. map_of (ac_registry s) (i, v) = Some a \<and> pk_version (ac_objects s a) = v" if "ac_latest s i = Some v" for i v
  proof -
    have n: "names_ok (ac_registry s) (ac_latest s) (ac_order s) (ac_objects s)" using r(1) by (simp add: cache_ok_def)
    then have "ac_order s i \<noteq> []" "v = last (ac_order s i)" using that by (auto simp: names_ok_def split: if_splits)
    then have "v \<in> set (ac_order s i)" by simp
    then have "map_of (ac_registry s) (i, v) \<noteq> None" using n unfolding names_ok_def by blast
    then show ?thesis using names_version [OF n] by auto
  qed
  then show ?thesis using s r by (auto simp: cache_ok_def ram_ok_def gpu_ok_def stats_ram_bytes_def split: option.split)
qed

text \<open>
  A registration that succeeds makes its version the one an empty version resolves to.
\<close>

theorem registered_is_latest:
  assumes "run_adapters ls (adapter_cache ram gpu staging) = Some s" "register_adapter i load s = (Inr v, s')"
  shows "\<exists>a s''. resolve i [] True s' = Some (Inr a, s'') \<and> pk_version (ac_objects s'' a) = v \<and> 0 < ac_handles s'' a"
proof -
  have ok: "cache_ok s'" using cache_ok_register [OF run_reachable(1) [OF assms(1)], of i load] assms(2) by simp
  have n: "names_ok (ac_registry s') (ac_latest s') (ac_order s') (ac_objects s')" using ok by (simp add: cache_ok_def)
  have l: "ac_latest s' i = Some v"
    using assms(2) by (auto simp: register_adapter_def Let_def set_latest_def split: if_splits option.splits)
  then have "ac_order s' i \<noteq> []" "v = last (ac_order s' i)" using n by (auto simp: names_ok_def split: if_splits)
  then have "v \<in> set (ac_order s' i)" by simp
  then have "map_of (ac_registry s') (i, v) \<noteq> None" using n unfolding names_ok_def by blast
  then obtain a where a: "map_of (ac_registry s') (i, v) = Some a" by blast
  have "i \<in> (fst \<circ> fst) ` set (ac_registry s')" using map_of_SomeD [OF a] by force
  then show ?thesis using l a names_version [OF n a] by (simp add: resolve_def)
qed

text \<open>
  C32. No step but its own release takes a resident package from a request that holds its lease, and
  the lease refers to the same data.
\<close>

theorem held_leases_stay:
  assumes "run_adapters ls (adapter_cache ram gpu staging) = Some s" "ADropLease v \<notin> set ls'" "run_adapters ls' s = Some s'"
    and "map_of (ac_gpu s) v = Some r" "0 < rs_out r"
  shows "\<exists>r'. map_of (ac_gpu s') v = Some r' \<and> rs_words r' = rs_words r \<and> rs_out r \<le> rs_out r'"
proof -
  have "lease_kept (map_of (ac_gpu s) v) (map_of (ac_gpu s') v)"
    using assms(2,3) run_reachable(1) [OF assms(1)]
  proof (induction ls' arbitrary: s)
    case (Cons l ls')
    then obtain s1 where s1: "adapter_step l s = Some s1" "run_adapters ls' s1 = Some s'"
      by (auto simp: run_adapters_Cons bind_eq_Some_conv)
    have "cache_ok s1" using adapter_step_ok [OF Cons.prems(3), of l] s1(1) by auto
    then have "lease_kept (map_of (ac_gpu s1) v) (map_of (ac_gpu s') v)" using Cons s1 by simp
    moreover have "lease_kept (map_of (ac_gpu s) v) (map_of (ac_gpu s1) v)"
      by (rule step_keeps_lease [OF _ s1(1)]) (use Cons.prems(1) cache_ok_gpuD [OF Cons.prems(3)] in \<open>auto simp: gpu_ok_def\<close>)
    ultimately show ?case using lease_kept_trans by blast
  qed (simp add: run_adapters_def)
  then show ?thesis using assms(4,5) by (simp add: lease_kept_def)
qed

text \<open>
  C27. A package that is not resident is admitted exactly when it fits the staging budget, the free
  device memory and the GPU budget beside the packages whose leases are held, and its upload
  succeeds; what was evicted was held by nobody and no more recently used than any package left
  that nobody holds.
\<close>

theorem adapter_admission:
  assumes "run_adapters ls (adapter_cache ram gpu staging) = Some s" "map_of (ac_gpu s) (pk_version (ac_objects s a)) = None"
  shows "(fst (acquire a free ok s) = Inr True \<longleftrightarrow>
      pk_bytes (ac_objects s a) \<le> staging \<and> pk_bytes (ac_objects s a) + held_bytes (ac_gpu s) \<le> gpu \<and>
      pk_bytes (ac_objects s a) \<le> free \<and> ok) \<and>
    evicted_oldest (ac_gpu s) (AList.delete (pk_version (ac_objects s a)) (ac_gpu (snd (acquire a free ok s))))"
proof -
  let ?b = "pk_bytes (ac_objects s a)"
  let ?v = "pk_version (ac_objects s a)"
  let ?s1 = "s\<lparr>ac_gpu_misses := Suc (ac_gpu_misses s)\<rparr>"
  note r = run_reachable [OF assms(1)]
  have d: "distinct (map fst (ac_gpu s))" "ac_gpu_bytes s = gpu_total (ac_gpu s)"
    using cache_ok_gpuD [OF r(1)] by (simp_all add: gpu_ok_def)
  obtain good s2 where l: "admit_loop (gpu - ?b) ?s1 = (good, s2)" by force
  have good: "good \<longleftrightarrow> held_bytes (ac_gpu s) \<le> gpu - ?b" using admit_loop_iff [of ?s1 "gpu - ?b"] d l by simp
  have old: "evicted_oldest (ac_gpu s) (ac_gpu s2)" using admit_loop_oldest [of ?s1 "gpu - ?b"] d l by simp
  have gone: "AList.delete ?v (ac_gpu s') = ac_gpu s'" if "evicted_oldest (ac_gpu s) (ac_gpu s')" for s' :: "'a adapter_cache"
    using that assms(2) by (intro gpu_delete_absent) (auto simp: evicted_oldest_def map_of_eq_None_iff)
  have same: "evicted_oldest (ac_gpu s) (ac_gpu s)" by (simp add: evicted_oldest_def)
  show ?thesis
    using assms(2) l good r(3,4) old same gone [OF old] gone [OF same]
    by (auto simp: acquire_def publish_lease_def admit_gpu_def Let_def delete_updated)
qed

section \<open>Witnesses\<close>

text \<open>Two packages of six and eight bytes under a GPU budget of ten; the first is leased.\<close>

definition first_package :: "unit package" where
  "first_package = \<lparr>pk_version = ''v1'', pk_words = 3, pk_payload = ()\<rparr>"

definition second_package :: "unit package" where
  "second_package = \<lparr>pk_version = ''v2'', pk_words = 4, pk_payload = ()\<rparr>"

definition lease_steps :: "unit adapter_label list" where
  "lease_steps = [ARegister ''a'' (\<lambda>_. Some first_package), AResolve ''a'' [] True, AAcquire 0 100 True]"

definition rival_steps :: "unit adapter_label list" where
  "rival_steps = [ARegister ''b'' (\<lambda>_. Some second_package), AResolve ''b'' ''v2'' True, AAcquire 1 100 True, AErase ''a'' [], ATrim]"

definition leased :: "unit adapter_cache" where
  "leased = the (run_adapters lease_steps (adapter_cache 20 10 100))"

lemmas adapter_eval =
  run_adapters_def register_adapter_def resolve_def acquire_def publish_lease_def admit_gpu_def admit_loop.simps erase_def forget_def trim_def
  account_ram_def set_latest_def live_package_def stats_ram_bytes_def adapter_cache_def evict_def
  first_package_def second_package_def lease_steps_def rival_steps_def

lemma leased_run: "run_adapters lease_steps (adapter_cache 20 10 100) = Some leased"
proof -
  have "run_adapters lease_steps (adapter_cache 20 10 100) \<noteq> None" by (simp add: adapter_eval Let_def)
  then show ?thesis by (simp add: leased_def)
qed

lemma leased_gpu: "ac_gpu leased = [(''v1'', \<lparr>rs_words = 3, rs_used = 1, rs_out = 1\<rparr>)]"
  by (simp add: leased_def adapter_eval Let_def)

lemma registered_is_latest_witness:
  "\<exists>a s''. resolve ''b'' [] True (snd (register_adapter ''b'' (\<lambda>_. Some second_package) leased)) = Some (Inr a, s'') \<and>
     pk_version (ac_objects s'' a) = ''v2'' \<and> 0 < ac_handles s'' a"
proof -
  have "fst (register_adapter ''b'' (\<lambda>_. Some second_package) leased) = Inr ''v2''"
    by (simp add: leased_def adapter_eval Let_def)
  then show ?thesis
    by (intro registered_is_latest [OF leased_run, where load = "\<lambda>_. Some second_package"] prod_eqI) simp_all
qed

lemma held_leases_stay_witness:
  "\<exists>s' r'. run_adapters rival_steps leased = Some s' \<and> map_of (ac_gpu s') ''v1'' = Some r' \<and> rs_words r' = 3 \<and> 1 \<le> rs_out r'"
proof -
  have "run_adapters rival_steps leased \<noteq> None" by (simp add: leased_def adapter_eval Let_def)
  then obtain s' where s': "run_adapters rival_steps leased = Some s'" by auto
  have free: "ADropLease ''v1'' \<notin> set rival_steps" by (simp add: rival_steps_def)
  show ?thesis
    using held_leases_stay [OF leased_run free s', of "\<lparr>rs_words = 3, rs_used = 1, rs_out = 1\<rparr>"] s' leased_gpu by auto
qed

lemma adapter_admission_witness:
  "fst (acquire 1 100 True (snd (register_adapter ''b'' (\<lambda>_. Some second_package) leased))) \<noteq> Inr True"
proof -
  let ?s = "snd (register_adapter ''b'' (\<lambda>_. Some second_package) leased)"
  have run: "run_adapters (lease_steps @ [ARegister ''b'' (\<lambda>_. Some second_package)]) (adapter_cache 20 10 100) = Some ?s"
    using leased_run by (simp add: run_adapters_def)
  have obj: "ac_objects ?s 1 = second_package" "ac_gpu ?s = ac_gpu leased"
    by (simp_all add: leased_def adapter_eval Let_def)
  have "map_of (ac_gpu ?s) (pk_version (ac_objects ?s 1)) = None"
    unfolding obj leased_gpu by (simp add: second_package_def)
  then have "fst (acquire 1 100 True ?s) = Inr True \<longleftrightarrow>
      pk_bytes (ac_objects ?s 1) \<le> 100 \<and> pk_bytes (ac_objects ?s 1) + held_bytes (ac_gpu ?s) \<le> 10 \<and>
      pk_bytes (ac_objects ?s 1) \<le> 100 \<and> True"
    using adapter_admission [OF run, of 1 100 True] by blast
  then show ?thesis unfolding obj leased_gpu by (simp add: second_package_def held_bytes_def)
qed

end
