(* ===== verification/PthArchive.thy ===== *)
theory PthArchive
  imports Prelude
begin

text \<open>
  The reader of PyTorch checkpoint archives (\<open>src/io/pth_archive.cpp\<close>): a ZIP central directory
  with the ZIP64 extensions, opened from memory or in chunks, and the reading of stored entries.
  A file is its list of bytes. Offsets and sizes are natural numbers below \<open>2 ^ 64\<close>; an addition
  that can wrap in \<open>uint64_t\<close> or \<open>size_t\<close> is written with \<open>mod 2 ^ 64\<close>. \<open>UndefinedRead\<close> is no
  status of the code: it says that a read is outside the buffer.
\<close>

section \<open>Results and little-endian integers\<close>

datatype archive_error =
    FileTooSmall | NoEndOfDirectory | NoZip64Locator | MultiDiskZip64 | Zip64OutOfBounds | Zip64Signature
  | MultiDisk | DirectoryOutOfBounds | HeaderTruncated | HeaderSignature nat | NameTruncated
  | ExtraTruncated bytes | BlockTruncated bytes | Zip64Truncated bytes | Zip64Missing bytes
  | LocalOutOfRange bytes | LocalSignature bytes | DataOutOfBounds bytes | NotStored bytes
  | RangeOutOfEntry bytes | RangeTooLarge | ReadFailed | NoViews bytes | UndefinedRead

definition ensure :: "bool \<Rightarrow> 'e \<Rightarrow> 'e + unit" where
  "ensure b e = (if b then Inr () else Inl e)"

lemma ensure_simps [simp]: "ensure True e = Inr ()" "ensure False e = Inl e"
  by (simp_all add: ensure_def)

definition le_value :: "bytes \<Rightarrow> nat" where
  "le_value bs = foldr (\<lambda>b acc. unat b + 256 * acc) bs 0"

text \<open>\<open>read_u16\<close>, \<open>read_u32\<close> and \<open>read_u64\<close> are \<open>rd 2\<close>, \<open>rd 4\<close> and \<open>rd 8\<close>.\<close>

definition rd :: "nat \<Rightarrow> bytes \<Rightarrow> nat \<Rightarrow> archive_error + nat" where
  "rd k bytes off = (if off + k \<le> length bytes then Inr (le_value (take k (drop off bytes))) else Inl UndefinedRead)"

abbreviation wrap64 :: "nat \<Rightarrow> nat" where
  "wrap64 n \<equiv> n mod 2 ^ 64"

section \<open>The end of the central directory\<close>

fun scan_eocd :: "bytes \<Rightarrow> nat \<Rightarrow> nat \<Rightarrow> archive_error + nat" where
  "scan_eocd bytes min_pos pos =
     bind_res (rd 4 bytes pos) (\<lambda>sig.
       if sig = 0x06054b50 then Inr pos
       else if pos \<le> min_pos then Inl NoEndOfDirectory
       else scan_eocd bytes min_pos (pos - 1))"

declare scan_eocd.simps [simp del]

definition find_eocd :: "bytes \<Rightarrow> archive_error + nat" where
  "find_eocd bytes =
     (if length bytes < 22 then Inl FileTooSmall
      else scan_eocd bytes (if length bytes > 22 + 65535 then length bytes - (22 + 65535) else 0) (length bytes - 22))"

text \<open>The entry count, the size and the offset of the central directory.\<close>

type_synonym directory = "nat \<times> nat \<times> nat"

definition read_zip64_eocd :: "bytes \<Rightarrow> nat \<Rightarrow> archive_error + directory" where
  "read_zip64_eocd bytes eocd =
     bind_res (if eocd < 20 then Inl NoZip64Locator else rd 4 bytes (eocd - 20)) (\<lambda>sig.
     bind_res (ensure (sig = 0x07064b50) NoZip64Locator) (\<lambda>_.
     let loc = eocd - 20 in
     bind_res (rd 4 bytes (loc + 4)) (\<lambda>locator_disk.
     bind_res (rd 8 bytes (loc + 8)) (\<lambda>z.
     bind_res (rd 4 bytes (loc + 16)) (\<lambda>total_disks.
     bind_res (ensure (locator_disk = 0 \<and> total_disks = 1) MultiDiskZip64) (\<lambda>_.
     bind_res (ensure (wrap64 (z + 56) \<le> length bytes) Zip64OutOfBounds) (\<lambda>_.
     bind_res (rd 4 bytes z) (\<lambda>sig64.
     bind_res (ensure (sig64 = 0x06064b50) Zip64Signature) (\<lambda>_.
     bind_res (rd 4 bytes (z + 16)) (\<lambda>disk_no.
     bind_res (rd 4 bytes (z + 20)) (\<lambda>cd_disk.
     bind_res (ensure (disk_no = 0 \<and> cd_disk = 0) MultiDiskZip64) (\<lambda>_.
     bind_res (rd 8 bytes (z + 32)) (\<lambda>entry_count.
     bind_res (rd 8 bytes (z + 40)) (\<lambda>cd_size.
     bind_res (rd 8 bytes (z + 48)) (\<lambda>cd_offset.
     Inr (entry_count, cd_size, cd_offset))))))))))))))))"

section \<open>Entries\<close>

record pth_entry =
  pe_name :: bytes
  pe_method :: nat
  pe_crc :: nat
  pe_compressed :: nat
  pe_uncompressed :: nat
  pe_local :: nat
  pe_data :: nat

definition is_stored :: "pth_entry \<Rightarrow> bool" where
  "is_stored e \<longleftrightarrow> pe_method e = 0"

text \<open>The three 64-bit fields of the extra block, each present only if its 32-bit field overflowed.\<close>

definition take_u64 :: "bytes \<Rightarrow> nat \<Rightarrow> bool \<Rightarrow> bytes \<Rightarrow> nat \<Rightarrow> nat \<Rightarrow> archive_error + nat \<times> nat" where
  "take_u64 bytes block_end needed name old p =
     (if \<not> needed then Inr (old, p)
      else if p + 8 > block_end then Inl (Zip64Truncated name)
      else bind_res (rd 8 bytes p) (\<lambda>v. Inr (v, p + 8)))"

definition zip64_block :: "bytes \<Rightarrow> nat \<Rightarrow> nat \<Rightarrow> bool \<Rightarrow> bool \<Rightarrow> bool \<Rightarrow> pth_entry \<Rightarrow> archive_error + pth_entry" where
  "zip64_block bytes pos block_end need_uncompressed need_compressed need_local e =
     bind_res (take_u64 bytes block_end need_uncompressed (pe_name e) (pe_uncompressed e) pos) (\<lambda>(u, p).
     bind_res (take_u64 bytes block_end need_compressed (pe_name e) (pe_compressed e) p) (\<lambda>(c, p).
     bind_res (take_u64 bytes block_end need_local (pe_name e) (pe_local e) p) (\<lambda>(l, p).
     Inr (e\<lparr>pe_uncompressed := u, pe_compressed := c, pe_local := l\<rparr>))))"

text \<open>The loop over the blocks of the extra field.\<close>

function extra_blocks :: "bytes \<Rightarrow> nat \<Rightarrow> nat \<Rightarrow> bool \<Rightarrow> bool \<Rightarrow> bool \<Rightarrow> pth_entry \<Rightarrow> archive_error + pth_entry" where
  "extra_blocks bytes pos extra_end need_uncompressed need_compressed need_local e =
     (if pos + 4 \<le> extra_end then
        bind_res (rd 2 bytes pos) (\<lambda>tag. bind_res (rd 2 bytes (pos + 2)) (\<lambda>len.
          if pos + 4 + len > extra_end then Inl (BlockTruncated (pe_name e))
          else if tag = 1 then
            zip64_block bytes (pos + 4) (pos + 4 + len) need_uncompressed need_compressed need_local e
          else extra_blocks bytes (pos + 4 + len) extra_end need_uncompressed need_compressed need_local e))
      else if need_uncompressed \<or> need_compressed \<or> need_local then Inl (Zip64Missing (pe_name e))
      else Inr e)"
  by pat_completeness auto

termination by (relation "measure (\<lambda>(_, pos, extra_end, _). extra_end - pos)") auto

declare extra_blocks.simps [simp del]

definition apply_zip64_extra :: "bytes \<Rightarrow> nat \<Rightarrow> nat \<Rightarrow> bool \<Rightarrow> bool \<Rightarrow> bool \<Rightarrow> pth_entry \<Rightarrow> archive_error + pth_entry" where
  "apply_zip64_extra bytes extra_pos extra_len need_uncompressed need_compressed need_local e =
     (if extra_pos + extra_len > length bytes then Inl (ExtraTruncated (pe_name e))
      else extra_blocks bytes extra_pos (extra_pos + extra_len) need_uncompressed need_compressed need_local e)"

text \<open>One header of the central directory, with the position of the next one.\<close>

definition central_entry :: "bytes \<Rightarrow> nat \<Rightarrow> nat \<Rightarrow> archive_error + pth_entry \<times> nat" where
  "central_entry bytes i pos =
     (if wrap64 (pos + 46) > length bytes then Inl HeaderTruncated else
     bind_res (rd 4 bytes pos) (\<lambda>sig.
     bind_res (ensure (sig = 0x02014b50) (HeaderSignature i)) (\<lambda>_.
     bind_res (rd 2 bytes (pos + 10)) (\<lambda>method.
     bind_res (rd 4 bytes (pos + 16)) (\<lambda>crc.
     bind_res (rd 4 bytes (pos + 20)) (\<lambda>compressed.
     bind_res (rd 4 bytes (pos + 24)) (\<lambda>uncompressed.
     bind_res (rd 2 bytes (pos + 28)) (\<lambda>name_len.
     bind_res (rd 2 bytes (pos + 30)) (\<lambda>extra_len.
     bind_res (rd 2 bytes (pos + 32)) (\<lambda>comment_len.
     bind_res (rd 4 bytes (pos + 42)) (\<lambda>local.
     let name_pos = pos + 46 in
     if name_pos + name_len > length bytes then Inl NameTruncated else
     bind_res
       (apply_zip64_extra bytes (name_pos + name_len) extra_len (uncompressed = 0xffffffff)
          (compressed = 0xffffffff) (local = 0xffffffff)
          \<lparr>pe_name = take name_len (drop name_pos bytes), pe_method = method, pe_crc = crc,
           pe_compressed = compressed, pe_uncompressed = uncompressed, pe_local = local, pe_data = 0\<rparr>) (\<lambda>e.
     Inr (e, name_pos + name_len + extra_len + comment_len)))))))))))))"

text \<open>The loop over the headers: \<open>n\<close> of them are left, the next one has number \<open>i\<close>.\<close>

fun central_entries :: "bytes \<Rightarrow> nat \<Rightarrow> nat \<Rightarrow> nat \<Rightarrow> archive_error + pth_entry list" where
  "central_entries bytes 0 i pos = Inr []"
| "central_entries bytes (Suc n) i pos =
     bind_res (central_entry bytes i pos) (\<lambda>(e, pos').
     bind_res (central_entries bytes n (Suc i) pos') (\<lambda>es. Inr (e # es)))"

section \<open>Opening from memory\<close>

text \<open>\<open>local + 30\<close>, \<open>data_offset\<close> and the end of the data are computed in \<open>uint64_t\<close>.\<close>

definition data_offset :: "bytes \<Rightarrow> pth_entry \<Rightarrow> archive_error + pth_entry" where
  "data_offset bytes e =
     (let local = pe_local e in
      if wrap64 (local + 30) > length bytes then Inl (LocalOutOfRange (pe_name e)) else
      bind_res (rd 4 bytes local) (\<lambda>sig.
      bind_res (ensure (sig = 0x04034b50) (LocalSignature (pe_name e))) (\<lambda>_.
      bind_res (rd 2 bytes (local + 26)) (\<lambda>name_len.
      bind_res (rd 2 bytes (local + 28)) (\<lambda>extra_len.
      let data = local + 30 + name_len + extra_len in
      if wrap64 (data + pe_compressed e) > length bytes then Inl (DataOutOfBounds (pe_name e))
      else Inr (e\<lparr>pe_data := data\<rparr>))))))"

definition compute_data_offsets :: "bytes \<Rightarrow> pth_entry list \<Rightarrow> archive_error + pth_entry list" where
  "compute_data_offsets bytes es = map_res (data_offset bytes) es"

record pth_archive =
  ar_file :: bytes
  ar_chunked :: bool
  ar_entries :: "pth_entry list"

definition open_in_memory :: "bytes \<Rightarrow> archive_error + pth_archive" where
  "open_in_memory bytes =
     bind_res (find_eocd bytes) (\<lambda>eocd.
     bind_res (rd 2 bytes (eocd + 4)) (\<lambda>disk_no.
     bind_res (rd 2 bytes (eocd + 6)) (\<lambda>cd_disk.
     bind_res (rd 2 bytes (eocd + 10)) (\<lambda>entry_count.
     bind_res (rd 4 bytes (eocd + 12)) (\<lambda>cd_size.
     bind_res (rd 4 bytes (eocd + 16)) (\<lambda>cd_offset.
     bind_res (ensure (disk_no = 0 \<and> cd_disk = 0) MultiDisk) (\<lambda>_.
     bind_res (if entry_count = 0xffff \<or> cd_size = 0xffffffff \<or> cd_offset = 0xffffffff
               then read_zip64_eocd bytes eocd else Inr (entry_count, cd_size, cd_offset)) (\<lambda>(entry_count, cd_size, cd_offset).
     bind_res (ensure (wrap64 (cd_offset + cd_size) \<le> length bytes) DirectoryOutOfBounds) (\<lambda>_.
     bind_res (central_entries bytes entry_count 0 cd_offset) (\<lambda>es.
     bind_res (compute_data_offsets bytes es) (\<lambda>es.
     Inr \<lparr>ar_file = bytes, ar_chunked = False, ar_entries = es\<rparr>)))))))))))"

section \<open>Opening in chunks\<close>

text \<open>\<open>StreamReader::read\<close>: a position beyond the end of the file makes a read of no bytes succeed.\<close>

definition stream_read :: "bytes \<Rightarrow> nat \<Rightarrow> nat \<Rightarrow> archive_error + bytes" where
  "stream_read file off len =
     (if off \<ge> 2 ^ 63 \<or> len \<ge> 2 ^ 63 then Inl RangeTooLarge
      else if len = 0 then Inr []
      else if off + len \<le> length file then Inr (take len (drop off file))
      else Inl ReadFailed)"

definition chunked_directory :: "bytes \<Rightarrow> bytes \<Rightarrow> nat \<Rightarrow> archive_error + directory" where
  "chunked_directory file tail eocd =
     bind_res (rd 2 tail (eocd + 4)) (\<lambda>disk_no.
     bind_res (rd 2 tail (eocd + 6)) (\<lambda>cd_disk.
     bind_res (rd 2 tail (eocd + 10)) (\<lambda>entry_count.
     bind_res (rd 4 tail (eocd + 12)) (\<lambda>cd_size.
     bind_res (rd 4 tail (eocd + 16)) (\<lambda>cd_offset.
     bind_res (ensure (disk_no = 0 \<and> cd_disk = 0) MultiDisk) (\<lambda>_.
     if \<not> (entry_count = 0xffff \<or> cd_size = 0xffffffff \<or> cd_offset = 0xffffffff)
     then Inr (entry_count, cd_size, cd_offset) else
     bind_res (if eocd < 20 then Inl NoZip64Locator else rd 4 tail (eocd - 20)) (\<lambda>sig.
     bind_res (ensure (sig = 0x07064b50) NoZip64Locator) (\<lambda>_.
     let loc = eocd - 20 in
     bind_res (rd 4 tail (loc + 4)) (\<lambda>locator_disk.
     bind_res (rd 4 tail (loc + 16)) (\<lambda>total_disks.
     bind_res (ensure (locator_disk = 0 \<and> total_disks = 1) MultiDiskZip64) (\<lambda>_.
     bind_res (rd 8 tail (loc + 8)) (\<lambda>z.
     bind_res (stream_read file z 56) (\<lambda>zip64.
     bind_res (rd 4 zip64 0) (\<lambda>sig64.
     bind_res (ensure (sig64 = 0x06064b50) Zip64Signature) (\<lambda>_.
     bind_res (rd 4 zip64 16) (\<lambda>disk_no.
     bind_res (rd 4 zip64 20) (\<lambda>cd_disk.
     bind_res (ensure (disk_no = 0 \<and> cd_disk = 0) MultiDiskZip64) (\<lambda>_.
     bind_res (rd 8 zip64 32) (\<lambda>entry_count.
     bind_res (rd 8 zip64 40) (\<lambda>cd_size.
     bind_res (rd 8 zip64 48) (\<lambda>cd_offset.
     Inr (entry_count, cd_size, cd_offset))))))))))))))))))))))"

definition chunked_data_offset :: "bytes \<Rightarrow> pth_entry \<Rightarrow> archive_error + pth_entry" where
  "chunked_data_offset file e =
     bind_res (stream_read file (pe_local e) 30) (\<lambda>header.
     bind_res (rd 4 header 0) (\<lambda>sig.
     bind_res (ensure (sig = 0x04034b50) (LocalSignature (pe_name e))) (\<lambda>_.
     bind_res (rd 2 header 26) (\<lambda>name_len.
     bind_res (rd 2 header 28) (\<lambda>extra_len.
     let data = pe_local e + 30 + name_len + extra_len in
     if data > length file \<or> pe_compressed e > length file - data then Inl (DataOutOfBounds (pe_name e))
     else Inr (e\<lparr>pe_data := data\<rparr>))))))"

definition open_chunked :: "bytes \<Rightarrow> archive_error + pth_archive" where
  "open_chunked file =
     (if length file < 22 then Inl FileTooSmall else
      let tail_size = min (length file) (20 + 22 + 65535) in
      bind_res (stream_read file (length file - tail_size) tail_size) (\<lambda>tail.
      bind_res (find_eocd tail) (\<lambda>eocd.
      bind_res (chunked_directory file tail eocd) (\<lambda>(entry_count, cd_size, cd_offset).
      if cd_offset > length file \<or> cd_size > length file - cd_offset then Inl DirectoryOutOfBounds else
      bind_res (stream_read file cd_offset cd_size) (\<lambda>cd.
      bind_res (central_entries cd entry_count 0 0) (\<lambda>es.
      bind_res (map_res (chunked_data_offset file) es) (\<lambda>es.
      Inr \<lparr>ar_file = file, ar_chunked = True, ar_entries = es\<rparr>)))))))"

definition open_archive :: "bytes \<Rightarrow> bool \<Rightarrow> archive_error + pth_archive" where
  "open_archive file chunk_load = (if chunk_load then open_chunked file else open_in_memory file)"

section \<open>Reading entries\<close>

definition find_entry :: "pth_archive \<Rightarrow> bytes \<Rightarrow> pth_entry option" where
  "find_entry ar name = find (\<lambda>e. pe_name e = name) (ar_entries ar)"

definition read_stored_entry_range :: "pth_archive \<Rightarrow> pth_entry \<Rightarrow> nat \<Rightarrow> nat \<Rightarrow> archive_error + bytes" where
  "read_stored_entry_range ar e entry_offset len =
     (let size = length (ar_file ar) in
      if \<not> is_stored e then Inl (NotStored (pe_name e))
      else if entry_offset > pe_uncompressed e \<or> len > pe_uncompressed e - entry_offset then Inl (RangeOutOfEntry (pe_name e))
      else if pe_data e > size \<or> entry_offset > size - pe_data e \<or> len > size - pe_data e - entry_offset then
        Inl (DataOutOfBounds (pe_name e))
      else if ar_chunked ar then stream_read (ar_file ar) (pe_data e + entry_offset) len
      else if len = 0 then Inr []
      else if pe_data e + entry_offset + len \<le> size then Inr (take len (drop (pe_data e + entry_offset) (ar_file ar)))
      else Inl UndefinedRead)"

definition read_stored_entry :: "pth_archive \<Rightarrow> pth_entry \<Rightarrow> archive_error + bytes" where
  "read_stored_entry ar e =
     (let size = length (ar_file ar) in
      if \<not> is_stored e then Inl (NotStored (pe_name e))
      else if pe_data e > size \<or> pe_uncompressed e > size - pe_data e then Inl (DataOutOfBounds (pe_name e))
      else if ar_chunked ar then read_stored_entry_range ar e 0 (pe_uncompressed e)
      else if pe_data e + pe_uncompressed e \<le> size then Inr (take (pe_uncompressed e) (drop (pe_data e) (ar_file ar)))
      else Inl UndefinedRead)"

text \<open>A view is the position and the length of its bytes.\<close>

definition stored_entry_view :: "pth_archive \<Rightarrow> pth_entry \<Rightarrow> archive_error + nat \<times> nat" where
  "stored_entry_view ar e =
     (if \<not> is_stored e then Inl (NotStored (pe_name e))
      else if ar_chunked ar then Inl (NoViews (pe_name e))
      else if pe_data e > length (ar_file ar) \<or> pe_uncompressed e > length (ar_file ar) - pe_data e then
        Inl (DataOutOfBounds (pe_name e))
      else Inr (pe_data e, pe_uncompressed e))"

section \<open>Reads stay in bounds\<close>

definition safe :: "archive_error + 'a \<Rightarrow> bool" where
  "safe r \<longleftrightarrow> r \<noteq> Inl UndefinedRead"

named_theorems safety "operations that cannot read out of bounds"

lemma safe_Inr [safety, simp]: "safe (Inr x)"
  by (simp add: safe_def)

lemma safe_Inl [simp]: "safe (Inl e) \<longleftrightarrow> e \<noteq> UndefinedRead"
  by (simp add: safe_def)

lemma safe_bind [safety]:
  assumes "safe r" "\<And>x. r = Inr x \<Longrightarrow> safe (f x)"
  shows "safe (bind_res r f)"
  using assms by (cases r) auto

lemma safe_rd [simp]: "safe (rd k bytes off) \<longleftrightarrow> off + k \<le> length bytes"
  by (simp add: rd_def)

lemma rd_Inr: "rd k bytes off = Inr n \<Longrightarrow> off + k \<le> length bytes"
  by (simp add: rd_def split: if_splits)

lemma ensure_Inr [simp]: "ensure b e = Inr x \<longleftrightarrow> b"
  by (simp add: ensure_def)

lemma safe_ensure [simp]: "e \<noteq> UndefinedRead \<Longrightarrow> safe (ensure b e)"
  by (simp add: ensure_def)

lemma safe_stream_read [simp]: "safe (stream_read file off len)"
  by (simp add: stream_read_def)

lemma stream_read_Inr: "stream_read file off len = Inr bs \<Longrightarrow> length bs = len"
  by (auto simp: stream_read_def split: if_splits)

lemma scan_eocd_spec:
  "pos + 22 \<le> length bytes \<Longrightarrow> safe (scan_eocd bytes min_pos pos) \<and>
    (\<forall>p. scan_eocd bytes min_pos pos = Inr p \<longrightarrow> p + 22 \<le> length bytes)"
proof (induction bytes min_pos pos rule: scan_eocd.induct)
  case (1 bytes min_pos pos)
  obtain sig where "rd 4 bytes pos = Inr sig" using 1(2) by (simp add: rd_def)
  then show ?case using 1 by (subst (1 2) scan_eocd.simps) auto
qed

lemma find_eocd_spec: "safe (find_eocd bytes) \<and> (\<forall>p. find_eocd bytes = Inr p \<longrightarrow> p + 22 \<le> length bytes)"
  unfolding find_eocd_def using scan_eocd_spec [of "length bytes - 22" bytes] by auto

lemma take_u64_safe: "block_end \<le> length bytes \<Longrightarrow> safe (take_u64 bytes block_end needed name old p)"
  by (auto simp: take_u64_def intro!: safe_bind)

lemma zip64_block_safe: "block_end \<le> length bytes \<Longrightarrow> safe (zip64_block bytes pos block_end u c l e)"
  unfolding zip64_block_def by (auto intro!: safe_bind take_u64_safe)

lemma extra_blocks_safe: "extra_end \<le> length bytes \<Longrightarrow> safe (extra_blocks bytes pos extra_end u c l e)"
proof (induction bytes pos extra_end u c l e rule: extra_blocks.induct)
  case (1 bytes pos extra_end u c l e)
  show ?case
  proof (cases "pos + 4 \<le> extra_end")
    case True
    show ?thesis
      using True 1(2)
      by (subst extra_blocks.simps) (auto intro!: safe_bind zip64_block_safe 1(1) split: if_splits)
  qed (subst extra_blocks.simps, simp)
qed

lemma apply_zip64_extra_safe: "safe (apply_zip64_extra bytes pos len u c l e)"
  by (simp add: apply_zip64_extra_def extra_blocks_safe)

lemma le_value_simps [simp]: "le_value [] = 0" "le_value (b # bs) = unat b + 256 * le_value bs"
  by (simp_all add: le_value_def)

lemma le_value_less: "le_value bs < 256 ^ length bs"
proof (induction bs)
  case (Cons b bs)
  define n where "n = unat b"
  define x where "x = (256 :: nat) ^ length bs"
  have "le_value bs < x" "n < 256" using Cons unat_byte_less [of b] by (simp_all add: x_def n_def)
  then have "n + 256 * le_value bs < 256 * x" by linarith
  then show ?case by (simp add: n_def x_def)
qed simp

lemma rd_less: "rd k bytes off = Inr n \<Longrightarrow> n < 256 ^ k"
  using le_value_less [of "take k (drop off bytes)"] by (auto simp: rd_def split: if_splits)

lemma central_entry_safe: "pos + 46 < 2 ^ 64 \<Longrightarrow> safe (central_entry bytes i pos)"
  unfolding central_entry_def
  by (auto intro!: safe_bind apply_zip64_extra_safe simp: Let_def)

lemma central_entry_next:
  assumes "central_entry bytes i pos = Inr (e, pos')" "pos + 46 < 2 ^ 64"
  shows "pos' < length bytes + 2 ^ 17"
proof -
  obtain name_len extra_len comment_len where p: "pos' = pos + 46 + name_len + extra_len + comment_len"
    "pos + 46 + name_len \<le> length bytes" "extra_len < 256 ^ 2" "comment_len < 256 ^ 2"
    using assms(1) unfolding central_entry_def Let_def
    by (auto split: if_splits dest!: rd_less [where k = 2])
  then show ?thesis by simp
qed

lemma central_entries_safe:
  "pos < length bytes + 2 ^ 17 \<Longrightarrow> length bytes < 2 ^ 63 \<Longrightarrow> safe (central_entries bytes n i pos)"
proof (induction n arbitrary: i pos)
  case (Suc n)
  have pos: "pos + 46 < 2 ^ 64" using Suc.prems by simp
  show ?case
  proof (unfold central_entries.simps, rule safe_bind [OF central_entry_safe [OF pos]])
    fix x assume x: "central_entry bytes i pos = Inr x"
    obtain e pos' where e: "x = (e, pos')" by (cases x)
    have "safe (central_entries bytes n (Suc i) pos')"
      using Suc.IH [OF central_entry_next] x e pos Suc.prems(2) by blast
    then show "safe (case x of (e, pos') \<Rightarrow> bind_res (central_entries bytes n (Suc i) pos') (\<lambda>es. Inr (e # es)))"
      by (auto simp: e intro!: safe_bind)
  qed
qed simp

lemma map_res_safe: "(\<And>x. x \<in> set xs \<Longrightarrow> safe (f x)) \<Longrightarrow> safe (map_res f xs)"
  by (induction xs) (auto intro!: safe_bind)

lemma chunked_data_offset_safe: "safe (chunked_data_offset file e)"
  unfolding chunked_data_offset_def
  by (auto intro!: safe_bind dest!: stream_read_Inr simp: Let_def)

lemma chunked_data_offset_range:
  "chunked_data_offset file e = Inr e' \<Longrightarrow> pe_data e' + pe_compressed e' \<le> length file"
  unfolding chunked_data_offset_def by (auto simp: Let_def split: if_splits)


lemma chunked_directory_safe: "eocd + 22 \<le> length tail \<Longrightarrow> safe (chunked_directory file tail eocd)"
  unfolding chunked_directory_def
  by (auto intro!: safe_bind dest!: stream_read_Inr simp: Let_def)

lemma open_chunked_safe:
  assumes "length file < 2 ^ 63"
  shows "safe (open_chunked file)"
  unfolding open_chunked_def Let_def
  using assms find_eocd_spec
  by (auto intro!: safe_bind chunked_directory_safe central_entries_safe map_res_safe chunked_data_offset_safe
      dest!: stream_read_Inr)

text \<open>
  C23. Opening an archive in chunks and reading its entries never reads outside a buffer, whatever
  the file holds: not in the scan for the end record, not in the central directory, its extra
  fields or the ZIP64 records, and not in the local headers; and the data of every entry of the
  opened archive lies inside the file.
\<close>

theorem chunked_reads_in_bounds:
  assumes "length file < 2 ^ 63"
  shows "open_chunked file \<noteq> Inl UndefinedRead \<and>
    (\<forall>ar. open_chunked file = Inr ar \<longrightarrow>
       list_all (\<lambda>e. pe_data e + pe_compressed e \<le> length file) (ar_entries ar) \<and>
       (\<forall>e off len. read_stored_entry ar e \<noteq> Inl UndefinedRead \<and>
          read_stored_entry_range ar e off len \<noteq> Inl UndefinedRead))"
proof -
  have "safe (open_chunked file)" by (rule open_chunked_safe [OF assms])
  moreover have "pe_data e + pe_compressed e \<le> length file" if "open_chunked file = Inr ar" "e \<in> set (ar_entries ar)" for ar e
    using that unfolding open_chunked_def Let_def
    by (auto split: if_splits dest!: map_res_Inr chunked_data_offset_range)
  moreover have "safe (read_stored_entry ar e)" "safe (read_stored_entry_range ar e off len)" for ar e off len
    by (auto simp: read_stored_entry_def read_stored_entry_range_def Let_def)
  ultimately show ?thesis unfolding safe_def by (auto simp: list_all_iff)
qed

section \<open>Opening from memory can leave the buffer\<close>

text \<open>
  A file of 98 bytes: a ZIP64 end record, its locator and the end record. The offset of the
  central directory is \<open>2 ^ 64 - 1\<close> and its size 1, so their sum wraps to 0 and passes the range
  check, as does the offset plus 46; the header is then read outside the buffer. The chunked
  reader, which compares without adding, rejects the same file.
\<close>

definition wrapping_archive :: bytes where
  "wrapping_archive =
     [80, 75, 6, 6, 0, 0, 0, 0, 0, 0, 0, 0, 0, 0, 0, 0, 0, 0, 0, 0, 0, 0, 0, 0,
      0, 0, 0, 0, 0, 0, 0, 0, 1, 0, 0, 0, 0, 0, 0, 0, 1, 0, 0, 0, 0, 0, 0, 0,
      255, 255, 255, 255, 255, 255, 255, 255, 80, 75, 6, 7, 0, 0, 0, 0, 0, 0, 0, 0, 0, 0, 0, 0,
      1, 0, 0, 0, 80, 75, 5, 6, 0, 0, 0, 0, 255, 255, 255, 255, 255, 255, 255, 255, 255, 255, 255, 255,
      0, 0]"

lemma wrapping_archive_undefined:
  "open_in_memory wrapping_archive = Inl UndefinedRead" "open_chunked wrapping_archive = Inl DirectoryOutOfBounds"
   apply (simp add: open_in_memory_def wrapping_archive_def find_eocd_def scan_eocd.simps rd_def read_zip64_eocd_def
      central_entry_def Let_def cong: bind_res_cong if_weak_cong)
  apply (simp add: open_chunked_def wrapping_archive_def find_eocd_def scan_eocd.simps rd_def chunked_directory_def
      stream_read_def Let_def cong: bind_res_cong if_weak_cong)
  done

end
