(* ===== verification/Pickle.thy ===== *)
theory Pickle
  imports PthArchive
begin

text \<open>
  The pickle interpreter of the checkpoint reader (\<open>PickleTensorParser\<close> in
  \<open>src/io/pth_tensor.cpp\<close>): a stack machine for the opcodes that PyTorch state dictionaries use,
  which collects the tensor records. The unread bytes stand for the cursor, the stack is a list
  with its top first. A thrown exception and an error status both reach the caller as a status,
  so both are errors here.
\<close>

section \<open>Values\<close>

datatype dtype = BFloat16 | Float32 | Float16

record tensor_record =
  tr_name :: bytes
  tr_dtype :: dtype
  tr_key :: bytes
  tr_size :: nat
  tr_offset :: nat
  tr_shape :: "int list"
  tr_stride :: "int list"

datatype pvalue =
    VNone | VMark | VInt int | VBool bool | VString bytes | VGlobal bytes bytes | VTuple "pvalue list"
  | VDict | VStorage bytes nat dtype | VTensor tensor_record | VOrderedDict

datatype pickle_error =
    Truncated | BadOpcode byte | BadGlobal | TupleUnderflow | TupleWithoutMark | PersistentIdNoTuple
  | PersistentIdShape | StorageDtype bytes bytes | ReduceUnderflow | ReduceOperands | RebuildArguments
  | RankMismatch | ReduceCallable bytes bytes | SetItemsTarget | SetItemsPairs | SetItemUnderflow
  | SetItemTarget | BuildUnderflow | PutUnderflow | GetMissing nat | LongTooWide | NoStop

record pickle_state =
  ps_rest :: bytes
  ps_stack :: "pvalue list"
  ps_memo :: "nat \<Rightarrow> pvalue option"
  ps_tensors :: "tensor_record list"
  ps_stopped :: bool

type_synonym pickle_step = "pickle_error + pickle_state"

section \<open>Reading operands\<close>

text \<open>The next \<open>n\<close> bytes and the state after them.\<close>

definition take_bytes :: "nat \<Rightarrow> pickle_state \<Rightarrow> pickle_error + bytes \<times> pickle_state" where
  "take_bytes n ps =
     (if n > length (ps_rest ps) then Inl Truncated
      else Inr (take n (ps_rest ps), ps\<lparr>ps_rest := drop n (ps_rest ps)\<rparr>))"

definition read_number :: "nat \<Rightarrow> pickle_state \<Rightarrow> pickle_error + nat \<times> pickle_state" where
  "read_number k ps = bind_res (take_bytes k ps) (\<lambda>(bs, ps'). Inr (le_value bs, ps'))"

text \<open>Two's complement of \<open>8 * k\<close> bits.\<close>

definition signed_value :: "nat \<Rightarrow> nat \<Rightarrow> int" where
  "signed_value k n = (if 2 * n \<ge> 256 ^ k then int n - 256 ^ k else int n)"

definition read_i32 :: "pickle_state \<Rightarrow> pickle_error + int \<times> pickle_state" where
  "read_i32 ps = bind_res (read_number 4 ps) (\<lambda>(n, ps'). Inr (signed_value 4 n, ps'))"

definition read_long :: "nat \<Rightarrow> pickle_state \<Rightarrow> pickle_error + int \<times> pickle_state" where
  "read_long n ps =
     (if n > length (ps_rest ps) then Inl Truncated
      else if n = 0 then Inr (0, ps)
      else if n > 8 then Inl LongTooWide
      else bind_res (read_number n ps) (\<lambda>(v, ps'). Inr (signed_value n v, ps')))"

text \<open>A line without its newline; nothing is read when there is no newline left, and the cursor is at the end.\<close>

definition read_line :: "pickle_state \<Rightarrow> bytes \<times> pickle_state" where
  "read_line ps =
     (let l = takeWhile (\<lambda>b. b \<noteq> 10) (ps_rest ps)
      in if length l = length (ps_rest ps) then ([], ps\<lparr>ps_rest := []\<rparr>)
         else (l, ps\<lparr>ps_rest := drop (Suc (length l)) (ps_rest ps)\<rparr>))"

section \<open>Opcodes\<close>

definition push :: "pvalue \<Rightarrow> pickle_state \<Rightarrow> pickle_state" where
  "push v ps = ps\<lparr>ps_stack := v # ps_stack ps\<rparr>"

definition push_global :: "pickle_state \<Rightarrow> pickle_step" where
  "push_global ps =
     (let (module, ps1) = read_line ps; (name, ps2) = read_line ps1
      in if module = [] \<or> name = [] then Inl BadGlobal else Inr (push (VGlobal module name) ps2))"

definition make_tuple_n :: "nat \<Rightarrow> pickle_state \<Rightarrow> pickle_step" where
  "make_tuple_n n ps =
     (if length (ps_stack ps) < n then Inl TupleUnderflow
      else Inr (push (VTuple (rev (take n (ps_stack ps)))) (ps\<lparr>ps_stack := drop n (ps_stack ps)\<rparr>)))"

text \<open>The values above the topmost mark (in push order) and the stack below it.\<close>

definition pop_mark :: "pvalue list \<Rightarrow> (pvalue list \<times> pvalue list) option" where
  "pop_mark st =
     (if VMark \<in> set st then Some (rev (takeWhile (\<lambda>v. v \<noteq> VMark) st), tl (dropWhile (\<lambda>v. v \<noteq> VMark) st)) else None)"

definition make_tuple_from_mark :: "pickle_state \<Rightarrow> pickle_step" where
  "make_tuple_from_mark ps =
     (case pop_mark (ps_stack ps) of
        None \<Rightarrow> Inl TupleWithoutMark
      | Some (items, below) \<Rightarrow> Inr (push (VTuple items) (ps\<lparr>ps_stack := below\<rparr>)))"

definition storage_dtype :: "bytes \<Rightarrow> bytes \<Rightarrow> dtype option" where
  "storage_dtype module name =
     (if module \<noteq> bytes_of ''torch'' then None
      else if name = bytes_of ''BFloat16Storage'' then Some BFloat16
      else if name = bytes_of ''HalfStorage'' then Some Float16
      else if name = bytes_of ''FloatStorage'' then Some Float32 else None)"

definition to_u64 :: "int \<Rightarrow> nat" where
  "to_u64 i = nat (i mod 2 ^ 64)"

definition make_persistent_id :: "pickle_state \<Rightarrow> pickle_step" where
  "make_persistent_id ps =
     (case ps_stack ps of
        VTuple pid # st \<Rightarrow>
          (case pid of
             [VString tag, VGlobal module name, VString key, _, VInt n] \<Rightarrow>
               if tag \<noteq> bytes_of ''storage'' then Inl PersistentIdShape
               else (case storage_dtype module name of
                       None \<Rightarrow> Inl (StorageDtype module name)
                     | Some dt \<Rightarrow> Inr (push (VStorage key (to_u64 n) dt) (ps\<lparr>ps_stack := st\<rparr>)))
           | _ \<Rightarrow> Inl PersistentIdShape)
      | _ \<Rightarrow> Inl PersistentIdNoTuple)"

fun tuple_ints :: "pvalue list \<Rightarrow> int list option" where
  "tuple_ints [] = Some []"
| "tuple_ints (VInt i # vs) = map_option (Cons i) (tuple_ints vs)"
| "tuple_ints _ = None"

text \<open>\<open>tuple_to_ints\<close>: a tuple with anything else than integers counts as empty.\<close>

definition tuple_to_ints :: "pvalue \<Rightarrow> int list" where
  "tuple_to_ints v = (case v of VTuple vs \<Rightarrow> (case tuple_ints vs of Some is \<Rightarrow> is | None \<Rightarrow> []) | _ \<Rightarrow> [])"

definition rebuild_tensor :: "pvalue list \<Rightarrow> pickle_error + tensor_record" where
  "rebuild_tensor args =
     (case args of
        VStorage key n dt # VInt off # VTuple shape # VTuple stride # _ \<Rightarrow>
          let sh = tuple_to_ints (VTuple shape); sd = tuple_to_ints (VTuple stride) in
          if length sh \<noteq> length sd then Inl RankMismatch
          else Inr \<lparr>tr_name = [], tr_dtype = dt, tr_key = key, tr_size = n, tr_offset = to_u64 off,
                    tr_shape = sh, tr_stride = sd\<rparr>
      | _ \<Rightarrow> Inl RebuildArguments)"

definition reduce :: "pickle_state \<Rightarrow> pickle_step" where
  "reduce ps =
     (case ps_stack ps of
        args # callable # st \<Rightarrow>
          (case (callable, args) of
             (VGlobal module name, VTuple items) \<Rightarrow>
               let ps' = ps\<lparr>ps_stack := st\<rparr> in
               if module = bytes_of ''collections'' \<and> name = bytes_of ''OrderedDict'' then Inr (push VOrderedDict ps')
               else if module = bytes_of ''torch._utils'' \<and> name = bytes_of ''_rebuild_tensor_v2'' then
                 bind_res (rebuild_tensor items) (\<lambda>t. Inr (push (VTensor t) ps'))
               else Inl (ReduceCallable module name)
           | _ \<Rightarrow> Inl ReduceOperands)
      | _ \<Rightarrow> Inl ReduceUnderflow)"

abbreviation is_dict :: "pvalue \<Rightarrow> bool" where
  "is_dict v \<equiv> v = VDict \<or> v = VOrderedDict"

text \<open>Key and value pairs that are all a string and a tensor.\<close>

fun tensor_items :: "pvalue list \<Rightarrow> tensor_record list option" where
  "tensor_items [] = Some []"
| "tensor_items (VString name # VTensor t # rest) = map_option (Cons (t\<lparr>tr_name := name\<rparr>)) (tensor_items rest)"
| "tensor_items _ = None"

definition setitems :: "pickle_state \<Rightarrow> pickle_step" where
  "setitems ps =
     (case pop_mark (ps_stack ps) of
        Some (items, container # below) \<Rightarrow>
          if \<not> is_dict container then Inl SetItemsTarget
          else if odd (length items) then Inl SetItemsPairs
          else Inr (push container (ps\<lparr>ps_stack := below,
                 ps_tensors := ps_tensors ps @ (case tensor_items items of Some ts \<Rightarrow> ts | None \<Rightarrow> [])\<rparr>))
      | _ \<Rightarrow> Inl SetItemsTarget)"

definition setitem :: "pickle_state \<Rightarrow> pickle_step" where
  "setitem ps =
     (case ps_stack ps of
        _ # _ # target # st \<Rightarrow> if is_dict target then Inr (ps\<lparr>ps_stack := target # st\<rparr>) else Inl SetItemTarget
      | _ \<Rightarrow> Inl SetItemUnderflow)"

definition build :: "pickle_state \<Rightarrow> pickle_step" where
  "build ps = (case ps_stack ps of _ # v # st \<Rightarrow> Inr (ps\<lparr>ps_stack := v # st\<rparr>) | _ \<Rightarrow> Inl BuildUnderflow)"

definition memo_put :: "nat \<Rightarrow> pickle_state \<Rightarrow> pickle_step" where
  "memo_put i ps = (case ps_stack ps of [] \<Rightarrow> Inl PutUnderflow | v # _ \<Rightarrow> Inr (ps\<lparr>ps_memo := (ps_memo ps)(i \<mapsto> v)\<rparr>))"

definition memo_get :: "nat \<Rightarrow> pickle_state \<Rightarrow> pickle_step" where
  "memo_get i ps = (case ps_memo ps i of None \<Rightarrow> Inl (GetMissing i) | Some v \<Rightarrow> Inr (push v ps))"

text \<open>An opcode with its operands read first.\<close>

definition dispatch :: "byte \<Rightarrow> pickle_state \<Rightarrow> pickle_step" where
  "dispatch op ps =
     (if op = 0x80 then bind_res (take_bytes 1 ps) (\<lambda>(_, ps). Inr ps)
      else if op = 125 then Inr (push VDict ps)
      else if op = 40 then Inr (push VMark ps)
      else if op = 113 then bind_res (read_number 1 ps) (\<lambda>(n, ps). memo_put n ps)
      else if op = 114 then bind_res (read_number 4 ps) (\<lambda>(n, ps). memo_put n ps)
      else if op = 104 then bind_res (read_number 1 ps) (\<lambda>(n, ps). memo_get n ps)
      else if op = 106 then bind_res (read_number 4 ps) (\<lambda>(n, ps). memo_get n ps)
      else if op = 88 then
        bind_res (read_number 4 ps) (\<lambda>(n, ps). bind_res (take_bytes n ps) (\<lambda>(s, ps). Inr (push (VString s) ps)))
      else if op = 99 then push_global ps
      else if op = 75 then bind_res (read_number 1 ps) (\<lambda>(n, ps). Inr (push (VInt (int n)) ps))
      else if op = 77 then bind_res (read_number 2 ps) (\<lambda>(n, ps). Inr (push (VInt (int n)) ps))
      else if op = 74 then bind_res (read_i32 ps) (\<lambda>(i, ps). Inr (push (VInt i) ps))
      else if op = 0x8a then
        bind_res (read_number 1 ps) (\<lambda>(n, ps). bind_res (read_long n ps) (\<lambda>(i, ps). Inr (push (VInt i) ps)))
      else if op = 0x8b then
        bind_res (read_number 4 ps) (\<lambda>(n, ps). bind_res (read_long n ps) (\<lambda>(i, ps). Inr (push (VInt i) ps)))
      else if op = 116 then make_tuple_from_mark ps
      else if op = 41 then Inr (push (VTuple []) ps)
      else if op = 0x85 then make_tuple_n 1 ps
      else if op = 0x86 then make_tuple_n 2 ps
      else if op = 0x87 then make_tuple_n 3 ps
      else if op = 0x88 then Inr (push (VBool True) ps)
      else if op = 0x89 then Inr (push (VBool False) ps)
      else if op = 81 then make_persistent_id ps
      else if op = 82 then reduce ps
      else if op = 115 then setitem ps
      else if op = 117 then setitems ps
      else if op = 98 then build ps
      else if op = 46 then Inr (ps\<lparr>ps_stopped := True\<rparr>)
      else Inl (BadOpcode op))"

lemma take_bytes_rest: "take_bytes n ps = Inr (bs, ps') \<Longrightarrow> length (ps_rest ps') \<le> length (ps_rest ps)"
  by (auto simp: take_bytes_def split: if_splits)

lemma read_number_rest: "read_number n ps = Inr (v, ps') \<Longrightarrow> length (ps_rest ps') \<le> length (ps_rest ps)"
  by (auto simp: read_number_def dest!: take_bytes_rest)

lemma read_i32_rest: "read_i32 ps = Inr (v, ps') \<Longrightarrow> length (ps_rest ps') \<le> length (ps_rest ps)"
  by (auto simp: read_i32_def dest!: read_number_rest)

lemma read_long_rest: "read_long n ps = Inr (v, ps') \<Longrightarrow> length (ps_rest ps') \<le> length (ps_rest ps)"
  by (auto simp: read_long_def dest!: read_number_rest split: if_splits)

lemma read_line_rest: "length (ps_rest (snd (read_line ps))) \<le> length (ps_rest ps)"
  by (simp add: read_line_def Let_def)

lemma push_rest [simp]: "ps_rest (push v ps) = ps_rest ps"
  by (simp add: push_def)

lemma rest_simps:
  "memo_get i ps = Inr ps' \<Longrightarrow> ps_rest ps' = ps_rest ps"
  "memo_put i ps = Inr ps' \<Longrightarrow> ps_rest ps' = ps_rest ps" "build ps = Inr ps' \<Longrightarrow> ps_rest ps' = ps_rest ps"
  "setitem ps = Inr ps' \<Longrightarrow> ps_rest ps' = ps_rest ps" "setitems ps = Inr ps' \<Longrightarrow> ps_rest ps' = ps_rest ps"
  "reduce ps = Inr ps' \<Longrightarrow> ps_rest ps' = ps_rest ps" "make_tuple_n n ps = Inr ps' \<Longrightarrow> ps_rest ps' = ps_rest ps"
  "make_tuple_from_mark ps = Inr ps' \<Longrightarrow> ps_rest ps' = ps_rest ps" "make_persistent_id ps = Inr ps' \<Longrightarrow> ps_rest ps' = ps_rest ps"
  by (auto simp: push_def memo_get_def memo_put_def build_def setitem_def setitems_def reduce_def make_tuple_n_def
      make_tuple_from_mark_def make_persistent_id_def Let_def split: option.splits list.splits if_splits prod.splits pvalue.splits)

lemma push_global_rest: "push_global ps = Inr ps' \<Longrightarrow> length (ps_rest ps') \<le> length (ps_rest ps)"
  using read_line_rest [of ps] read_line_rest [of "snd (read_line ps)"]
  by (auto simp: push_global_def Let_def split: prod.splits if_splits)

lemma dispatch_rest: "dispatch op ps = Inr ps' \<Longrightarrow> length (ps_rest ps') \<le> length (ps_rest ps)"
  unfolding dispatch_def
  by (auto simp: rest_simps split: if_splits
      dest!: take_bytes_rest read_number_rest read_i32_rest read_long_rest push_global_rest)

text \<open>The loop of \<open>parse\<close>.\<close>

function parse_from :: "pickle_state \<Rightarrow> pickle_error + tensor_record list" where
  "parse_from ps =
     (case ps_rest ps of
        [] \<Rightarrow> Inl NoStop
      | op # rest \<Rightarrow>
          (case dispatch op (ps\<lparr>ps_rest := rest\<rparr>) of
             Inl e \<Rightarrow> Inl e
           | Inr ps' \<Rightarrow> if ps_stopped ps' then Inr (ps_tensors ps') else parse_from ps'))"
  by pat_completeness auto

termination
proof (relation "measure (\<lambda>ps. length (ps_rest ps))")
  fix ps op rest ps'
  assume "ps_rest ps = op # rest" "dispatch op (ps\<lparr>ps_rest := rest\<rparr>) = Inr ps'"
  then show "(ps', ps) \<in> measure (\<lambda>ps. length (ps_rest ps))" using dispatch_rest by fastforce
qed simp

declare parse_from.simps [simp del]

definition parse_pickle :: "bytes \<Rightarrow> pickle_error + tensor_record list" where
  "parse_pickle bytes =
     parse_from \<lparr>ps_rest = bytes, ps_stack = [], ps_memo = (\<lambda>_. None), ps_tensors = [], ps_stopped = False\<rparr>"

end
