(* ===== verification/FloatBits.thy ===== *)
theory FloatBits
  imports Prelude
begin

text \<open>
  The conversions between \<open>float\<close>, \<open>bfloat16\<close> and \<open>float16\<close> bit patterns
  (\<open>src/io/pth_tensor.cpp\<close>). A \<open>float\<close> is its 32 bits, which is what the code moves in and out
  with \<open>memcpy\<close>. The shift amounts and the exponents, which stay small, are integers.
\<close>

section \<open>Conversions\<close>

definition bf16_bits_to_float :: "u16 \<Rightarrow> u32" where
  "bf16_bits_to_float bits = push_bit 16 (ucast bits)"

definition float_to_bf16_bits :: "u32 \<Rightarrow> u16" where
  "float_to_bf16_bits bits =
     (let lsb = drop_bit 16 bits AND 1 in ucast (drop_bit 16 (bits + (0x7fff + lsb))))"

text \<open>The normalising loop; it shifts at most ten times, since a bit of the mantissa is set.\<close>

fun normalize :: "nat \<Rightarrow> u32 \<Rightarrow> u32 \<Rightarrow> u32 \<times> u32" where
  "normalize 0 m e = (m, e)"
| "normalize (Suc fuel) m e = (if m AND 0x400 = 0 then normalize fuel (push_bit 1 m) (e - 1) else (m, e))"

definition f16_bits_to_float :: "u16 \<Rightarrow> u32" where
  "f16_bits_to_float bits =
     (let sign = push_bit 16 (ucast (bits AND 0x8000) :: u32);
          exp = (ucast (drop_bit 10 bits) :: u32) AND 0x1f;
          mant = (ucast bits :: u32) AND 0x3ff
      in if exp = 0 then
           (if mant = 0 then sign
            else let (m, e) = normalize 10 mant 113 in sign OR push_bit 23 e OR push_bit 13 (m AND 0x3ff))
         else if exp = 0x1f then sign OR 0x7f800000 OR push_bit 13 mant
         else sign OR push_bit 23 (exp + 112) OR push_bit 13 mant)"

definition float_to_f16_bits :: "u32 \<Rightarrow> u16" where
  "float_to_f16_bits bits =
     (let sign = drop_bit 16 bits AND 0x8000;
          exp = uint (drop_bit 23 bits AND 0xff) - 127;
          mant = bits AND 0x7fffff
      in if exp = 128 then ucast (sign OR (if mant = 0 then 0x7c00 else 0x7e00))
         else if exp > 15 then ucast (sign OR 0x7c00)
         else if exp \<ge> -14 then
           (let half_exp = word_of_int (exp + 15); half_mant = mant + 0x1000 in
            if half_mant AND 0x800000 \<noteq> 0 then
              (if half_exp + 1 \<ge> 31 then ucast (sign OR 0x7c00)
               else ucast (sign OR push_bit 10 (half_exp + 1)))
            else ucast (sign OR push_bit 10 half_exp OR drop_bit 13 half_mant))
         else if exp < -24 then ucast sign
         else
           (let m = mant OR 0x800000; shift = nat (- exp - 14)
            in ucast (sign OR (drop_bit (shift + 13) m + (drop_bit (shift + 12) m AND 1)))))"

text \<open>\<open>isnan\<close> and the order of floats that are no NaN: sign and magnitude, with one zero.\<close>

definition float_nan :: "u32 \<Rightarrow> bool" where
  "float_nan w \<longleftrightarrow> w AND 0x7fffffff > 0x7f800000"

definition float_key :: "u32 \<Rightarrow> int" where
  "float_key w = (if bit w 31 then - uint (w AND 0x7fffffff) else uint (w AND 0x7fffffff))"

definition float_less :: "u32 \<Rightarrow> u32 \<Rightarrow> bool" where
  "float_less a b \<longleftrightarrow> \<not> float_nan a \<and> \<not> float_nan b \<and> float_key a < float_key b"

section \<open>Rounding to bfloat16\<close>

lemma unat_ucast_u16: "unat (ucast (h :: u16) :: u32) = unat h"
  using unsigned_less [of h, where ?'a = nat] by (simp add: unsigned_ucast_eq take_bit_eq_mod)

lemma unat_and_1: "unat (w AND 1 :: 'a::len word) = unat w mod 2"
  by (simp only: unsigned_and_eq) (simp add: and_one_eq)

lemma bf16_round_value:
  assumes "unat w + 0x8000 < 2 ^ 32"
  shows "unat (float_to_bf16_bits w) = (unat w + 0x7fff + (unat w div 65536) mod 2) div 65536"
proof -
  define l where "l = (drop_bit 16 w AND 1 :: u32)"
  have l: "unat l = (unat w div 65536) mod 2" unfolding l_def unat_and_1 unat_drop_bit by simp
  then have l1: "unat l \<le> 1" by simp
  have 1: "unat (0x7fff + l) = 0x7fff + unat l" using l1 by (subst unat_add_lem [THEN iffD1]) simp_all
  have "unat (w + (0x7fff + l)) = unat w + (0x7fff + unat l)"
    using assms l1 by (subst unat_add_lem [THEN iffD1]) (simp_all only: 1, simp_all)
  then have "unat (drop_bit 16 (w + (0x7fff + l))) = (unat w + (0x7fff + unat l)) div 65536"
    unfolding unat_drop_bit by simp
  moreover have "(unat w + (0x7fff + unat l)) div 65536 < 65536" using assms l1 by simp
  ultimately show ?thesis
    unfolding float_to_bf16_bits_def Let_def l_def [symmetric] l [symmetric]
    by (simp add: unsigned_ucast_eq take_bit_eq_mod add.assoc)
qed

lemma bf16_float_value: "unat (bf16_bits_to_float b) = unat b * 65536"
  using unsigned_less [of b, where ?'a = nat] unat_push_bit [of "ucast b :: u32" 16]
  unfolding bf16_bits_to_float_def unat_ucast_u16 by simp

lemma bf16_roundtrip: "float_to_bf16_bits (bf16_bits_to_float b) = b"
proof -
  have "unat (float_to_bf16_bits (bf16_bits_to_float b)) = unat b"
    using unsigned_less [of b, where ?'a = nat] by (subst bf16_round_value) (simp_all add: bf16_float_value)
  then show ?thesis by (simp add: word_unat_eq_iff)
qed

section \<open>The round trip of float16\<close>

lemma nat_and_bit: "(n :: nat) AND 2 ^ k = n div 2 ^ k mod 2 * 2 ^ k"
proof -
  have "n div 2 ^ k mod 2 = of_bool (bit n k)" by (simp add: bit_iff_odd mod2_eq_if)
  moreover have "n AND 2 ^ k = of_bool (bit n k) * 2 ^ k"
    by (rule bit_eqI) (auto simp: bit_simps)
  ultimately show ?thesis by simp
qed

lemmas and_fields =
  nat_and_mask [of _ 8, simplified] nat_and_mask [of _ 5, simplified] nat_and_mask [of _ 10, simplified]
  nat_and_mask [of _ 23, simplified] nat_and_bit [of _ 15, simplified] nat_and_bit [of _ 23, simplified]
  nat_and_bit [of _ 10, simplified]

lemma float_fields:
  fixes w :: u32
  assumes w: "unat w = s * 2147483648 + e * 8388608 + m" and b: "s < 2" "e < 256" "m < 8388608"
  shows "unat (drop_bit 16 w AND 0x8000) = s * 32768" "uint (drop_bit 23 w AND 0xff) = int e" "unat (w AND 0x7fffff) = m"
proof -
  have "unat w div 65536 div 32768 = s" using w b by simp
  then have "unat w div 2 ^ 16 div 32768 mod 2 * 32768 = s * 32768" using b by simp
  then show "unat (drop_bit 16 w AND 0x8000) = s * 32768"
    by (simp only: unsigned_and_eq unat_drop_bit) (simp add: and_fields)
  have "unat w div 8388608 = s * 256 + e" using w b by simp
  then have "unat w div 2 ^ 23 mod 256 = e" using b by simp
  then have "unat (drop_bit 23 w AND 0xff) = e"
    by (simp only: unsigned_and_eq unat_drop_bit) (simp add: and_fields)
  then show "uint (drop_bit 23 w AND 0xff) = int e" by (simp only: uint_nat)
  have "unat w = (s * 256 + e) * 8388608 + m" using w by simp
  then have "unat w mod 8388608 = m" using b by (simp only: mod_mult_self3) simp
  then show "unat (w AND 0x7fffff) = m" by (simp only: unsigned_and_eq) (simp add: and_fields)
qed

lemma half_fields:
  fixes h :: u16
  assumes h: "unat h = s * 32768 + e * 1024 + m" and b: "s < 2" "e < 32" "m < 1024"
  shows "unat (push_bit 16 (ucast (h AND 0x8000) :: u32)) = s * 2147483648"
    "unat ((ucast (drop_bit 10 h) :: u32) AND 0x1f) = e" "unat ((ucast h :: u32) AND 0x3ff) = m"
proof -
  have "unat h div 32768 = s" using h b by simp
  then have "unat (h AND 0x8000) = s * 32768" using b by (simp only: unsigned_and_eq) (simp add: and_fields)
  then show "unat (push_bit 16 (ucast (h AND 0x8000) :: u32)) = s * 2147483648"
    using b unat_push_bit [of "ucast (h AND 0x8000) :: u32" 16] by (simp add: unat_ucast_u16)
  have "unat h div 1024 = s * 32 + e" using h b by simp
  then have "unat h div 2 ^ 10 mod 32 = e" using b by simp
  then show "unat ((ucast (drop_bit 10 h) :: u32) AND 0x1f) = e"
    by (simp only: unsigned_and_eq unat_ucast_u16 unat_drop_bit) (simp add: and_fields)
  have "unat h = (s * 32 + e) * 1024 + m" using h by simp
  then have "unat h mod 1024 = m" using b by (simp only: mod_mult_self3) simp
  then show "unat ((ucast h :: u32) AND 0x3ff) = m"
    by (simp only: unsigned_and_eq unat_ucast_u16) (simp add: and_fields)
qed

lemma or_fields:
  fixes a b c :: u32
  assumes "unat a = s * 2147483648" "s < 2" "unat b < 256" "unat c < 1024"
  shows "unat (a OR push_bit 23 b OR push_bit 13 c) = s * 2147483648 + unat b * 8388608 + unat c * 8192"
proof -
  have p: "unat (push_bit 23 b) = unat b * 2 ^ 23" "unat (push_bit 13 c) = unat c * 2 ^ 13"
    using assms unat_push_bit [of b 23] unat_push_bit [of c 13] by simp_all
  have 1: "unat b * 2 ^ 23 OR unat c * 2 ^ 13 = unat b * 2 ^ 23 + unat c * 2 ^ 13"
    by (rule nat_or_add) (use assms in simp)
  have "s * 2 ^ 31 OR (unat b * 2 ^ 23 + unat c * 2 ^ 13) = s * 2 ^ 31 + (unat b * 2 ^ 23 + unat c * 2 ^ 13)"
    by (rule nat_or_add) (use assms in simp)
  then show ?thesis by (simp only: unsigned_or_eq p 1) (simp add: assms(1))
qed

lemma normalize_spec:
  assumes "unat m < 2048" "1024 \<le> unat m * 2 ^ fuel" "fuel \<le> unat e" "normalize fuel m e = (m', e')"
  shows "\<exists>k \<le> fuel. unat m' = unat m * 2 ^ k \<and> unat e' = unat e - k \<and> 1024 \<le> unat m' \<and> unat m' < 2048"
  using assms
proof (induction fuel arbitrary: m e)
  case (Suc fuel)
  have a: "m AND 0x400 = 0 \<longleftrightarrow> unat m < 1024"
  proof -
    have "m AND 0x400 = 0 \<longleftrightarrow> unat (m AND 0x400) = 0" by (simp add: unat_eq_0)
    also have "\<dots> \<longleftrightarrow> unat m div 1024 mod 2 = 0" by (simp only: unsigned_and_eq) (simp add: and_fields)
    also have "\<dots> \<longleftrightarrow> unat m < 1024" using Suc.prems(1) by (auto simp: div_eq_0_iff dest: less_mult_imp_div_less)
    finally show ?thesis .
  qed
  show ?case
  proof (cases "unat m < 1024")
    case True
    have p: "unat (push_bit 1 m) = unat m * 2" using True unat_push_bit [of m 1] by simp
    have e: "unat (e - 1) = unat e - 1" using Suc.prems(3) by (simp add: unat_sub word_le_nat_alt)
    obtain k where "k \<le> fuel" "unat m' = unat (push_bit 1 m) * 2 ^ k" "unat e' = unat (e - 1) - k"
      "1024 \<le> unat m' \<and> unat m' < 2048"
    proof -
      have "unat (push_bit 1 m) < 2048" "1024 \<le> unat (push_bit 1 m) * 2 ^ fuel" "fuel \<le> unat (e - 1)"
        "normalize fuel (push_bit 1 m) (e - 1) = (m', e')" using Suc.prems True a p e by simp_all
      from Suc.IH [OF this] show thesis using that by blast
    qed
    then show ?thesis using p e by (intro exI [of _ "Suc k"]) simp
  next
    case False
    then show ?thesis using Suc.prems a by (intro exI [of _ 0]) simp
  qed
qed auto

lemma f16_float_value:
  assumes h: "unat h = s * 32768 + e * 1024 + m" and b: "s < 2" "e < 32" "m < 1024"
  shows "e = 0 \<Longrightarrow> m = 0 \<Longrightarrow> unat (f16_bits_to_float h) = s * 2147483648"
    "e = 0 \<Longrightarrow> m > 0 \<Longrightarrow> \<exists>k x. 1 \<le> k \<and> k \<le> 10 \<and> x + 1024 = m * 2 ^ k \<and> x < 1024 \<and>
       unat (f16_bits_to_float h) = s * 2147483648 + (113 - k) * 8388608 + x * 8192"
    "e = 31 \<Longrightarrow> unat (f16_bits_to_float h) = s * 2147483648 + 255 * 8388608 + m * 8192"
    "0 < e \<Longrightarrow> e < 31 \<Longrightarrow> unat (f16_bits_to_float h) = s * 2147483648 + (e + 112) * 8388608 + m * 8192"
proof -
  define sg ex mt where "sg = push_bit 16 (ucast (h AND 0x8000) :: u32)" and
    "ex = (ucast (drop_bit 10 h) :: u32) AND 0x1f" and "mt = (ucast h :: u32) AND 0x3ff"
  have f: "unat sg = s * 2147483648" "unat ex = e" "unat mt = m"
    unfolding sg_def ex_def mt_def by (rule half_fields [OF h b])+
  have def: "f16_bits_to_float h =
      (if ex = 0 then
         (if mt = 0 then sg else let (m, e) = normalize 10 mt 113 in sg OR push_bit 23 e OR push_bit 13 (m AND 0x3ff))
       else if ex = 0x1f then sg OR 0x7f800000 OR push_bit 13 mt
       else sg OR push_bit 23 (ex + 112) OR push_bit 13 mt)"
    unfolding f16_bits_to_float_def Let_def sg_def ex_def mt_def ..
  have z: "ex = 0 \<longleftrightarrow> e = 0" "mt = 0 \<longleftrightarrow> m = 0" "ex = 0x1f \<longleftrightarrow> e = 31"
    using f by (auto simp: word_unat_eq_iff)
  show "unat (f16_bits_to_float h) = s * 2147483648" if "e = 0" "m = 0" using that f z by (simp add: def)
  show "unat (f16_bits_to_float h) = s * 2147483648 + 255 * 8388608 + m * 8192" if "e = 31"
  proof -
    have "(0x7f800000 :: u32) = push_bit 23 255" by simp
    then show ?thesis using that z or_fields [OF f(1) b(1), of 255 mt] f b by (simp add: def)
  qed
  show "unat (f16_bits_to_float h) = s * 2147483648 + (e + 112) * 8388608 + m * 8192" if "0 < e" "e < 31"
  proof -
    have "unat (ex + 112) = e + 112" using f b by (subst unat_add_lem [THEN iffD1]) simp_all
    then show ?thesis using that z or_fields [OF f(1) b(1), of "ex + 112" mt] f b by (simp add: def)
  qed
  assume e: "e = 0" "m > 0"
  obtain m' e' where n: "normalize 10 mt 113 = (m', e')" by fastforce
  obtain k where k: "k \<le> 10" "unat m' = m * 2 ^ k" "unat e' = 113 - k" "1024 \<le> unat m'" "unat m' < 2048"
    using normalize_spec [OF _ _ _ n] f b e by auto
  have "k \<noteq> 0" using k(2,4) b by (intro notI) simp
  moreover have x: "unat (m' AND 0x3ff) = m * 2 ^ k - 1024"
  proof -
    have "unat m' mod 1024 = unat m' - 1024" using k(4,5) by (simp add: mod_if le_mod_geq)
    then show ?thesis using k(2) by (simp only: unsigned_and_eq) (simp add: and_fields)
  qed
  moreover have "unat (f16_bits_to_float h) = s * 2147483648 + (113 - k) * 8388608 + (m * 2 ^ k - 1024) * 8192"
    using or_fields [OF f(1) b(1), of e' "m' AND 0x3ff"] k x e z n by (simp add: def)
  ultimately show "\<exists>k x. 1 \<le> k \<and> k \<le> 10 \<and> x + 1024 = m * 2 ^ k \<and> x < 1024 \<and>
       unat (f16_bits_to_float h) = s * 2147483648 + (113 - k) * 8388608 + x * 8192"
    using k by (intro exI [of _ k] exI [of _ "m * 2 ^ k - 1024"]) simp
qed

lemma unat_ucast_or:
  fixes a b :: u32
  assumes "unat a = s * 32768" "s < 2" "unat b < 32768"
  shows "unat (ucast (a OR b) :: u16) = s * 32768 + unat b"
proof -
  have "s * 2 ^ 15 OR unat b = s * 2 ^ 15 + unat b" by (rule nat_or_add) (use assms in simp)
  then have "unat (a OR b) = s * 32768 + unat b" by (simp only: unsigned_or_eq) (simp add: assms(1))
  then show ?thesis using assms by (simp add: unsigned_ucast_eq take_bit_eq_mod)
qed

lemma float_to_f16_value:
  fixes w :: u32
  assumes w: "unat w = s * 2147483648 + E * 8388608 + M * 8192" and b: "s < 2" "E < 256" "M < 1024"
  shows "E = 255 \<Longrightarrow> M = 0 \<Longrightarrow> unat (float_to_f16_bits w) = s * 32768 + 31744"
    "113 \<le> E \<Longrightarrow> E \<le> 142 \<Longrightarrow> unat (float_to_f16_bits w) = s * 32768 + (E - 112) * 1024 + M"
    "E = 113 - k \<Longrightarrow> 1 \<le> k \<Longrightarrow> k \<le> 10 \<Longrightarrow> M + 1024 = n * 2 ^ k \<Longrightarrow> n < 1024 \<Longrightarrow>
       unat (float_to_f16_bits w) = s * 32768 + n"
    "E = 0 \<Longrightarrow> unat (float_to_f16_bits w) = s * 32768"
proof -
  define sg ex mt where "sg = drop_bit 16 w AND 0x8000" and
    "ex = uint (drop_bit 23 w AND 0xff) - 127" and "mt = w AND 0x7fffff"
  have f: "unat sg = s * 32768" "unat mt = M * 8192" "ex = int E - 127"
    using float_fields [of w s E "M * 8192"] w b by (simp_all add: sg_def mt_def ex_def)
  have def: "float_to_f16_bits w =
      (if ex = 128 then ucast (sg OR (if mt = 0 then 0x7c00 else 0x7e00))
       else if ex > 15 then ucast (sg OR 0x7c00)
       else if ex \<ge> -14 then
         (let half_exp = word_of_int (ex + 15); half_mant = mt + 0x1000 in
          if half_mant AND 0x800000 \<noteq> 0 then
            (if half_exp + 1 \<ge> 31 then ucast (sg OR 0x7c00) else ucast (sg OR push_bit 10 (half_exp + 1)))
          else ucast (sg OR push_bit 10 half_exp OR drop_bit 13 half_mant))
       else if ex < -24 then ucast sg
       else
         (let m = mt OR 0x800000; shift = nat (- ex - 14)
          in ucast (sg OR (drop_bit (shift + 13) m + (drop_bit (shift + 12) m AND 1)))))"
    unfolding float_to_f16_bits_def Let_def sg_def ex_def mt_def ..
  show "unat (float_to_f16_bits w) = s * 32768 + 31744" if "E = 255" "M = 0"
  proof -
    have "mt = 0" "ex = 128" using f that by (auto simp: word_unat_eq_iff)
    then show ?thesis using unat_ucast_or [OF f(1) b(1), of "0x7c00"] by (simp add: def)
  qed
  show "unat (float_to_f16_bits w) = s * 32768" if "E = 0"
    using that f unat_ucast_or [OF f(1) b(1), where b = 0] by (simp add: def)
  show "unat (float_to_f16_bits w) = s * 32768 + (E - 112) * 1024 + M" if E: "113 \<le> E" "E \<le> 142"
  proof -
    define he hm where "he = (word_of_int (ex + 15) :: u32)" and "hm = mt + 0x1000"
    have e: "unat he = E - 112"
    proof -
      have "ex + 15 = int (E - 112)" using f E by simp
      then have "he = of_nat (E - 112)" by (simp only: he_def of_int_of_nat_eq)
      then show ?thesis using E by (simp only: unat_of_nat) simp
    qed
    have m: "unat hm = M * 8192 + 4096"
      unfolding hm_def using f(2) b by (subst unat_add_lem [THEN iffD1]) simp_all
    have "unat (hm AND 0x800000) = unat hm div 8388608 mod 2 * 8388608"
      by (simp only: unsigned_and_eq) (simp add: and_fields)
    then have "hm AND 0x800000 = 0" using m b by (simp add: word_unat_eq_iff)
    moreover have "ex \<noteq> 128" "\<not> ex > 15" "ex \<ge> -14" using f E by simp_all
    ultimately have d: "float_to_f16_bits w = ucast (sg OR push_bit 10 he OR drop_bit 13 hm)"
      unfolding def Let_def he_def hm_def by simp
    have dm: "unat (drop_bit 13 hm) = M" unfolding unat_drop_bit m by simp
    have pe: "unat (push_bit 10 he) = (E - 112) * 2 ^ 10" using e E unat_push_bit [of he 10] by simp
    have "unat (push_bit 10 he OR drop_bit 13 hm) = (E - 112) * 2 ^ 10 + M"
      unfolding unsigned_or_eq pe dm by (rule nat_or_add) (use b in simp)
    then show ?thesis using unat_ucast_or [OF f(1) b(1), where b = "push_bit 10 he OR drop_bit 13 hm"] E b by (simp add: d)
  qed
  show "unat (float_to_f16_bits w) = s * 32768 + n"
    if E: "E = 113 - k" and k: "1 \<le> k" "k \<le> 10" and M: "M + 1024 = n * 2 ^ k" and n: "n < 1024"
  proof -
    define m where "m = mt OR 0x800000"
    have x: "ex = - 14 - int k" using f E k by simp
    then have "float_to_f16_bits w = ucast (sg OR (drop_bit (k + 13) m + (drop_bit (k + 12) m AND 1)))"
      using k unfolding def Let_def m_def by simp
    moreover have um: "unat m = n * 2 ^ (k + 13)"
    proof -
      have "1 * 2 ^ 23 OR M * 8192 = 1 * 2 ^ 23 + M * 8192" by (rule nat_or_add) (use b in simp)
      then have "unat m = (M + 1024) * 8192" using f(2) by (simp add: m_def unsigned_or_eq or.commute)
      then show ?thesis by (simp add: M power_add)
    qed
    moreover have "unat (drop_bit (k + 13) m) = n" unfolding unat_drop_bit um by simp
    moreover have "unat (drop_bit (k + 12) m AND 1) = 0"
    proof -
      have "n * 2 ^ (k + 13) div 2 ^ (k + 12) = n * 2" by (simp add: power_add)
      then show ?thesis unfolding unat_and_1 unat_drop_bit um by simp
    qed
    ultimately show ?thesis
      using unat_ucast_or [OF f(1) b(1), where b = "drop_bit (k + 13) m + (drop_bit (k + 12) m AND 1)"] n
      by (simp add: unat_eq_0)
  qed
qed

lemma f16_roundtrip:
  fixes h :: u16
  assumes nan: "\<not> (unat h div 1024 mod 32 = 31 \<and> unat h mod 1024 \<noteq> 0)"
  shows "float_to_f16_bits (f16_bits_to_float h) = h"
proof -
  define s e m where "s = unat h div 32768" and "e = unat h div 1024 mod 32" and "m = unat h mod 1024"
  have "unat h < 65536" using unsigned_less [of h, where ?'a = nat] by simp
  then have b: "s < 2" "e < 32" "m < 1024" by (simp_all add: s_def e_def m_def)
  have "unat h div 1024 div 32 = s" by (simp add: s_def div_mult2_eq [symmetric])
  then have h: "unat h = s * 32768 + e * 1024 + m"
    using div_mult_mod_eq [of "unat h" 1024] div_mult_mod_eq [of "unat h div 1024" 32] unfolding e_def m_def by linarith
  let ?w = "f16_bits_to_float h"
  have "unat (float_to_f16_bits ?w) = unat h"
  proof (cases "e = 0")
    case True
    show ?thesis
    proof (cases "m = 0")
      case True
      with \<open>e = 0\<close> have "unat ?w = s * 2147483648 + 0 * 8388608 + 0 * 8192" using f16_float_value(1) [OF h b] by simp
      from float_to_f16_value(4) [OF this b(1)] show ?thesis using h True \<open>e = 0\<close> by simp
    next
      case False
      then obtain k x where k: "1 \<le> k" "k \<le> 10" "x + 1024 = m * 2 ^ k" "x < 1024"
        "unat ?w = s * 2147483648 + (113 - k) * 8388608 + x * 8192"
        using f16_float_value(2) [OF h b] \<open>e = 0\<close> by auto
      have "113 - k < 256" by simp
      from float_to_f16_value(3) [OF k(5) b(1) this k(4) refl k(1-3) b(3)] show ?thesis using h \<open>e = 0\<close> by simp
    qed
  next
    case False
    show ?thesis
    proof (cases "e = 31")
      case True
      then have m: "m = 0" using nan by (simp add: e_def m_def)
      then have "unat ?w = s * 2147483648 + 255 * 8388608 + 0 * 8192" using f16_float_value(3) [OF h b True] by simp
      from float_to_f16_value(1) [OF this b(1)] show ?thesis using h True m by simp
    next
      case F: False
      with False b have "e < 31" "0 < e" by simp_all
      with f16_float_value(4) [OF h b] have "unat ?w = s * 2147483648 + (e + 112) * 8388608 + m * 8192" by simp
      from float_to_f16_value(2) [OF this b(1) _ b(3)] show ?thesis using h \<open>e < 31\<close> \<open>0 < e\<close> by simp
    qed
  qed
  then show ?thesis by (simp add: word_unat_eq_iff)
qed

text \<open>
  A half-precision number survives the way through \<open>float\<close>: every bfloat16 pattern, and every
  float16 pattern that is no NaN (the subnormal numbers included), is the conversion of its
  conversion.
\<close>

theorem half_floats_roundtrip:
  assumes "unat (h :: u16) mod 32768 \<le> 31744"
  shows "float_to_f16_bits (f16_bits_to_float h) = h \<and> float_to_bf16_bits (bf16_bits_to_float b) = b"
proof -
  have m: "unat h mod 32768 = (unat h div 1024 mod 32) * 1024 + unat h mod 1024"
    using mod_mult2_eq [of "unat h" 1024 32] by simp
  have "\<not> (unat h div 1024 mod 32 = 31 \<and> unat h mod 1024 \<noteq> 0)" using assms unfolding m by auto
  then show ?thesis by (simp add: f16_roundtrip bf16_roundtrip)
qed

text \<open>
  Rounding to bfloat16 is to nearest, and to the even neighbour of a tie: below the topmost
  patterns (the last NaNs) the result, taken as the upper half of a \<open>float\<close>, differs from the
  pattern by at most half a unit of the upper half, and is even when the difference is exactly that.
\<close>

theorem bf16_rounds_to_nearest_even:
  assumes "unat w + 0x8000 < 2 ^ 32"
  shows "\<bar>int (unat (float_to_bf16_bits w)) * 65536 - int (unat w)\<bar> \<le> 32768 \<and>
    (\<bar>int (unat (float_to_bf16_bits w)) * 65536 - int (unat w)\<bar> = 32768 \<longrightarrow> even (unat (float_to_bf16_bits w)))"
proof -
  define q r where "q = unat w div 65536" and "r = unat w mod 65536"
  have w: "unat w = q * 65536 + r" "r < 65536" by (simp_all add: q_def r_def)
  define f where "f = unat (float_to_bf16_bits w)"
  have f: "f = (q * 65536 + (r + 0x7fff + q mod 2)) div 65536"
    unfolding f_def bf16_round_value [OF assms] q_def [symmetric] using w(1) by (simp add: add.assoc)
  then have "f = q + (r + 0x7fff + q mod 2) div 65536" by simp
  moreover have "(r + 0x7fff + q mod 2) div 65536 = of_bool (r > 0x8000 \<or> r = 0x8000 \<and> odd q)"
    using w(2) by (cases "even q") (auto simp: div_eq_dividend_iff even_iff_mod_2_eq_zero odd_iff_mod_2_eq_one Suc_le_eq)
  ultimately have "f = q + of_bool (r > 0x8000 \<or> r = 0x8000 \<and> odd q)" by simp
  then show ?thesis unfolding f_def [symmetric] w(1) using w(2) by (auto split: if_splits)
qed

theorem half_floats_roundtrip_witness:
  "float_to_f16_bits (f16_bits_to_float 0x83ff) = 0x83ff \<and> float_to_bf16_bits (bf16_bits_to_float 0x7fc0) = 0x7fc0"
  using half_floats_roundtrip [of "0x83ff" "0x7fc0"] by simp

theorem bf16_rounds_to_nearest_even_witness:
  "\<bar>int (unat (float_to_bf16_bits 0x3f818000)) * 65536 - int (unat (0x3f818000 :: u32))\<bar> \<le> 32768 \<and>
   float_to_bf16_bits 0x3f818000 = 0x3f82"
proof
  show "\<bar>int (unat (float_to_bf16_bits 0x3f818000)) * 65536 - int (unat (0x3f818000 :: u32))\<bar> \<le> 32768"
    by (rule bf16_rounds_to_nearest_even [of "0x3f818000", THEN conjunct1]) simp
qed (simp add: float_to_bf16_bits_def Let_def)

section \<open>Rounding errors at the edges\<close>

text \<open>The carry of the rounding runs through the exponent: this NaN becomes the negative zero.\<close>

lemma bf16_nan_becomes_zero: "float_nan 0x7fffffff \<and> float_to_bf16_bits 0x7fffffff = 0x8000"
  by (simp add: float_nan_def float_to_bf16_bits_def Let_def)

text \<open>One and a half times two to the minus 25 is nearer to the least subnormal than to zero, and becomes zero.\<close>

lemma f16_flushes_early: "float_to_f16_bits 0x33400000 = 0 \<and> f16_bits_to_float 1 = 0x33800000"
  by code_simp

end
