(* ===== verification/PthTensor.thy ===== *)
theory PthTensor
  imports Pickle FloatBits
begin

text \<open>
  Reading tensors out of a checkpoint (the public functions of \<open>src/io/pth_tensor.cpp\<close>): the
  records of the pickle entry, and the elements of a record, contiguous or strided, in the
  formats the caller asks for. \<open>UndefinedAccess\<close> is no status of the code: it says that an element
  outside the storage is read. \<open>std::vector::reserve\<close> is taken to succeed.
\<close>

section \<open>The tensor records of an archive\<close>

datatype tensor_error =
    NoPickle | NoPrefix | NoStorage bytes | StorageSize bytes | RangeExceeds bytes
  | ArchiveError archive_error | PickleError pickle_error | UndefinedAccess

definition archive_prefix :: "pth_archive \<Rightarrow> bytes" where
  "archive_prefix ar =
     (let suffix_bytes = bytes_of ''/data.pkl'' in
      case find (\<lambda>e. suffix suffix_bytes (pe_name e)) (ar_entries ar) of
        Some e \<Rightarrow> take (length (pe_name e) - length suffix_bytes) (pe_name e)
      | None \<Rightarrow> [])"

definition parse_pth_tensor_records :: "pth_archive \<Rightarrow> tensor_error + tensor_record list" where
  "parse_pth_tensor_records ar =
     (let pre = archive_prefix ar in
      if pre = [] then Inl NoPickle
      else case find_entry ar (pre @ bytes_of ''/data.pkl'') of
             None \<Rightarrow> Inl NoPickle
           | Some e \<Rightarrow>
               bind_res (lift_error ArchiveError (read_stored_entry ar e)) (\<lambda>bytes.
               lift_error PickleError (parse_pickle bytes)))"

section \<open>Shapes and elements\<close>

definition dtype_size_bytes :: "dtype \<Rightarrow> nat" where
  "dtype_size_bytes dt = (case dt of Float16 \<Rightarrow> 2 | BFloat16 \<Rightarrow> 2 | Float32 \<Rightarrow> 4)"

text \<open>The product in \<open>uint64_t\<close>; a negative dimension counts as no element.\<close>

fun numel_from :: "nat \<Rightarrow> int list \<Rightarrow> nat" where
  "numel_from n [] = n"
| "numel_from n (dim # dims) = (if dim < 0 then 0 else numel_from (wrap64 (n * nat dim)) dims)"

definition numel :: "int list \<Rightarrow> nat" where
  "numel shape = numel_from 1 shape"

text \<open>From the last dimension to the first; the product wraps as \<open>int64_t\<close> does on the target.\<close>

fun contiguous_from :: "(int \<times> int) list \<Rightarrow> int \<Rightarrow> bool" where
  "contiguous_from [] expected = True"
| "contiguous_from ((dim, stride) # rest) expected =
     (if dim = 0 then True
      else if dim \<noteq> 1 \<and> stride \<noteq> expected then False
      else contiguous_from rest (signed_take_bit 63 (expected * dim)))"

definition is_contiguous :: "int list \<Rightarrow> int list \<Rightarrow> bool" where
  "is_contiguous shape stride \<longleftrightarrow>
     length shape = length stride \<and> contiguous_from (rev (zip shape stride)) 1"

definition load_scalar :: "bytes \<Rightarrow> nat \<Rightarrow> nat \<Rightarrow> tensor_error + nat" where
  "load_scalar data k off =
     (if off + k \<le> length data then Inr (le_value (take k (drop off data))) else Inl UndefinedAccess)"

definition read_element_as_float :: "bytes \<Rightarrow> dtype \<Rightarrow> nat \<Rightarrow> tensor_error + u32" where
  "read_element_as_float data dt i =
     bind_res (load_scalar data (dtype_size_bytes dt) (wrap64 (i * dtype_size_bytes dt))) (\<lambda>n.
       Inr (case dt of
              BFloat16 \<Rightarrow> bf16_bits_to_float (of_nat n)
            | Float16 \<Rightarrow> f16_bits_to_float (of_nat n)
            | Float32 \<Rightarrow> of_nat n))"

definition read_element_as_bf16 :: "bytes \<Rightarrow> dtype \<Rightarrow> nat \<Rightarrow> tensor_error + u16" where
  "read_element_as_bf16 data dt i =
     (if dt = BFloat16 then bind_res (load_scalar data 2 (wrap64 (i * 2))) (\<lambda>n. Inr (of_nat n))
      else bind_res (read_element_as_float data dt i) (\<lambda>v. Inr (float_to_bf16_bits v)))"

section \<open>Strided traversal\<close>

text \<open>
  The recursion of \<open>scan_strided\<close>, \<open>load_strided_float\<close> and \<open>load_strided_bf16\<close>, which differ in
  what they do with an element.
\<close>

fun strided :: "(nat \<Rightarrow> tensor_error + 'a) \<Rightarrow> int list \<Rightarrow> int list \<Rightarrow> nat \<Rightarrow> tensor_error + 'a list" where
  "strided leaf [] stride offset = bind_res (leaf offset) (\<lambda>x. Inr [x])"
| "strided leaf (dim # shape) [] offset = Inl UndefinedAccess"
| "strided leaf (dim # shape) (st # stride) offset =
     bind_res (map_res (\<lambda>i. strided leaf shape stride (nat ((int offset + i * st) mod 2 ^ 64))) [0..dim - 1])
       (\<lambda>xss. Inr (concat xss))"

definition load_strided_float :: "bytes \<Rightarrow> dtype \<Rightarrow> int list \<Rightarrow> int list \<Rightarrow> nat \<Rightarrow> tensor_error + u32 list" where
  "load_strided_float data dt shape stride offset = strided (read_element_as_float data dt) shape stride offset"

definition load_strided_bf16 :: "bytes \<Rightarrow> dtype \<Rightarrow> int list \<Rightarrow> int list \<Rightarrow> nat \<Rightarrow> tensor_error + u16 list" where
  "load_strided_bf16 data dt shape stride offset = strided (read_element_as_bf16 data dt) shape stride offset"

section \<open>Statistics and loading\<close>

text \<open>The storage of a record, found and measured.\<close>

definition tensor_storage :: "pth_archive \<Rightarrow> tensor_record \<Rightarrow> tensor_error + bytes" where
  "tensor_storage ar r =
     (let pre = archive_prefix ar in
      if pre = [] then Inl NoPrefix
      else case find_entry ar (pre @ bytes_of ''/data/'' @ tr_key r) of
             None \<Rightarrow> Inl (NoStorage (tr_name r))
           | Some e \<Rightarrow>
               bind_res (lift_error ArchiveError (read_stored_entry ar e)) (\<lambda>storage.
               if wrap64 (tr_size r * dtype_size_bytes (tr_dtype r)) \<noteq> length storage then Inl (StorageSize (tr_name r))
               else Inr storage))"

text \<open>The elements \<open>storage_offset + i\<close> of a contiguous record.\<close>

definition linear :: "tensor_record \<Rightarrow> nat list" where
  "linear r = map (\<lambda>i. wrap64 (tr_offset r + i)) [0..<numel (tr_shape r)]"

type_synonym tensor_stats = "(u32 \<times> u32) option"

text \<open>The minimum and the maximum, \<open>None\<close> without \<open>has_value\<close>; the doubles compared are floats.\<close>

definition update_minmax :: "tensor_stats \<Rightarrow> u32 \<Rightarrow> tensor_stats" where
  "update_minmax stats v =
     (if float_nan v then stats
      else case stats of
             None \<Rightarrow> Some (v, v)
           | Some (lo, hi) \<Rightarrow> Some (if float_less v lo then v else lo, if float_less hi v then v else hi))"

definition compute_tensor_stats :: "pth_archive \<Rightarrow> tensor_record \<Rightarrow> tensor_error + tensor_stats" where
  "compute_tensor_stats ar r =
     bind_res (tensor_storage ar r) (\<lambda>data.
       let n = numel (tr_shape r) in
       if n = 0 then Inr None
       else if is_contiguous (tr_shape r) (tr_stride r) then
         if wrap64 (tr_offset r + n) > tr_size r then Inl (RangeExceeds (tr_name r))
         else bind_res (map_res (read_element_as_float data (tr_dtype r)) (linear r)) (\<lambda>vs. Inr (foldl update_minmax None vs))
       else bind_res (load_strided_float data (tr_dtype r) (tr_shape r) (tr_stride r) (tr_offset r))
              (\<lambda>vs. Inr (foldl update_minmax None vs)))"

record tensor_data =
  td_name :: bytes
  td_shape :: "int list"
  td_bf16 :: "u16 list"
  td_f16 :: "u16 list"
  td_floats :: "u32 list"

text \<open>The contiguous loop reads every element as a float, whether or not a float is asked for.\<close>

definition load_tensor_select :: "pth_archive \<Rightarrow> tensor_record \<Rightarrow> bool \<Rightarrow> bool \<Rightarrow> bool \<Rightarrow> tensor_error + tensor_data" where
  "load_tensor_select ar r need_bf16 need_f16 need_float =
     bind_res (tensor_storage ar r) (\<lambda>data.
       let dt = tr_dtype r; contiguous = is_contiguous (tr_shape r) (tr_stride r) in
       if contiguous \<and> wrap64 (tr_offset r + numel (tr_shape r)) > tr_size r then Inl (RangeExceeds (tr_name r))
       else
         bind_res
           (if \<not> need_bf16 then Inr []
            else if contiguous then map_res (read_element_as_bf16 data dt) (linear r)
            else load_strided_bf16 data dt (tr_shape r) (tr_stride r) (tr_offset r)) (\<lambda>bs.
         bind_res
           (if contiguous then map_res (read_element_as_float data dt) (linear r)
            else if need_float \<or> need_f16 then load_strided_float data dt (tr_shape r) (tr_stride r) (tr_offset r)
            else Inr []) (\<lambda>vs.
         Inr \<lparr>td_name = tr_name r, td_shape = tr_shape r, td_bf16 = bs,
              td_f16 = (if need_f16 then map float_to_f16_bits vs else []),
              td_floats = (if need_float then vs else [])\<rparr>)))"

section \<open>The contiguous loop and the strided recursion agree\<close>

lemma numel_from_eq: "list_all (\<lambda>d. 0 \<le> d) sh \<Longrightarrow> numel_from (wrap64 n) sh = wrap64 (n * nat (prod_list sh))"
proof (induction sh arbitrary: n)
  case (Cons d sh)
  have p: "0 \<le> prod_list sh" using Cons.prems by (induction sh) auto
  have "numel_from (wrap64 n) (d # sh) = numel_from (wrap64 (n * nat d)) sh"
    using Cons.prems by (simp add: mod_mult_left_eq)
  then show ?case using Cons p by (simp add: nat_mult_distrib mult.assoc)
qed simp

lemma numel_eq:
  assumes "list_all (\<lambda>d. 0 \<le> d) sh" "prod_list sh < 2 ^ 64"
  shows "numel sh = nat (prod_list sh)"
  using numel_from_eq [of sh 1] assms by (simp add: numel_def nat_less_iff)

lemma prod_pos: "list_all (\<lambda>d. 1 \<le> d) sh \<Longrightarrow> 1 \<le> prod_list (sh :: int list)"
proof (induction sh)
  case (Cons d sh)
  then show ?case using mult_mono [of 1 d 1 "prod_list sh"] by simp
qed simp

lemma prod_tail_less:
  assumes "1 \<le> d" "1 \<le> prod_list ds" "d * prod_list ds < (n :: int)"
  shows "prod_list ds < n"
proof -
  have "1 * prod_list ds \<le> d * prod_list ds" by (rule mult_right_mono) (use assms in auto)
  then show ?thesis using assms(3) by simp
qed

lemma wrap63: "0 \<le> x \<Longrightarrow> x < 2 ^ 63 \<Longrightarrow> signed_take_bit 63 (x :: int) = x"
  by (simp add: signed_take_bit_int_eq_self)

lemma contiguous_from_snoc:
  assumes "list_all (\<lambda>d. 1 \<le> d) (map fst xs)" "1 \<le> e" "e * prod_list (map fst xs) < 2 ^ 63" "1 \<le> d"
  shows "contiguous_from (xs @ [(d, s)]) e \<longleftrightarrow> contiguous_from xs e \<and> (d = 1 \<or> s = e * prod_list (map fst xs))"
  using assms
proof (induction xs arbitrary: e)
  case (Cons x xs)
  obtain d' s' where x: "x = (d', s')" by fastforce
  have d: "1 \<le> d'" "1 \<le> prod_list (map fst xs)" using Cons.prems prod_pos by (auto simp: x)
  have m: "1 \<le> e * d'" using mult_mono [of 1 e 1 d'] d Cons.prems(2) by simp
  have "e * d' * 1 \<le> e * d' * prod_list (map fst xs)" by (rule mult_left_mono) (use d m in auto)
  then have lt: "e * d' < 2 ^ 63" using Cons.prems(3) by (simp add: x mult.assoc)
  have w: "signed_take_bit 63 (e * d') = e * d'" by (rule wrap63) (use m lt in auto)
  have "contiguous_from (xs @ [(d, s)]) (e * d') \<longleftrightarrow>
      contiguous_from xs (e * d') \<and> (d = 1 \<or> s = e * d' * prod_list (map fst xs))"
    by (rule Cons.IH) (use Cons.prems m in \<open>auto simp: x mult.assoc\<close>)
  then show ?case by (cases "d' = 1") (use w d in \<open>simp_all add: x mult.assoc\<close>)
qed auto

lemma is_contiguous_Cons:
  assumes "list_all (\<lambda>d. 1 \<le> d) (d # ds)" "prod_list (d # ds) < 2 ^ 63"
  shows "is_contiguous (d # ds) (s # ss) \<longleftrightarrow> is_contiguous ds ss \<and> (d = 1 \<or> s = prod_list ds)"
proof (cases "length ds = length ss")
  case True
  have p: "1 \<le> prod_list ds" using assms(1) prod_pos by simp
  have m: "map fst (rev (zip ds ss)) = rev ds" using True by (simp flip: rev_map)
  have r: "prod_list (rev ds) = prod_list ds" by (rule prod_list.rev)
  have "prod_list ds < 2 ^ 63" using prod_tail_less [of d ds] assms p by simp
  then show ?thesis
    using contiguous_from_snoc [of "rev (zip ds ss)" 1 d s] assms(1) True unfolding m r
    by (simp add: is_contiguous_def list_all_iff)
qed (simp add: is_contiguous_def)

lemma map_res_append: "map_res f (xs @ ys) = bind_res (map_res f xs) (\<lambda>us. bind_res (map_res f ys) (\<lambda>vs. Inr (us @ vs)))"
  by (induction xs) (simp_all add: bind_res_def split: sum.splits)

lemma map_res_concat:
  "bind_res (map_res (\<lambda>x. map_res f (g x)) xs) (\<lambda>yss. Inr (concat yss)) = map_res f (concat (map g xs))"
  by (induction xs) (auto simp: map_res_append bind_res_def split: sum.splits)

lemma map_res_cong: "(\<And>x. x \<in> set xs \<Longrightarrow> f x = g x) \<Longrightarrow> map_res f xs = map_res g xs"
  by (induction xs) simp_all

lemma map_res_map: "map_res f (map g xs) = map_res (\<lambda>x. f (g x)) xs"
  by (induction xs) simp_all

lemma concat_ranges: "concat (map (\<lambda>i. [off + i * p..<off + i * p + p]) [0..<n]) = [off..<off + n * p]"
proof (induction n)
  case (Suc n)
  have "[off..<off + Suc n * p] = [off..<off + n * p] @ [off + n * p..<off + n * p + p]"
    using upt_add_eq_append [of off "off + n * p" p] by (simp add: ac_simps)
  then show ?case using Suc by simp
qed simp

lemma upto_upt: "1 \<le> d \<Longrightarrow> [0..d - 1] = map int [0..<nat d]"
proof (induction d rule: int_ge_induct)
  case (step d)
  have "nat (d + 1) = Suc (nat d)" using step(1) by simp
  then show ?case using step upto_rec2 [of 0 d] by simp
qed simp

lemma wrap_offset: "j = int k \<Longrightarrow> off + k < 2 ^ 64 \<Longrightarrow> nat ((int off + j) mod 2 ^ 64) = off + k"
  by (simp add: nat_mod_distrib nat_add_distrib)

lemma strided_contiguous:
  "is_contiguous sh st \<Longrightarrow> list_all (\<lambda>d. 1 \<le> d) sh \<Longrightarrow> prod_list sh < 2 ^ 63 \<Longrightarrow> off + nat (prod_list sh) \<le> 2 ^ 64 \<Longrightarrow>
    strided leaf sh st off = map_res leaf [off..<off + nat (prod_list sh)]"
proof (induction leaf sh st off rule: strided.induct)
  case (3 leaf d sh s st off)
  let ?p = "nat (prod_list sh)"
  have c: "is_contiguous sh st" "d = 1 \<or> s = prod_list sh" using 3(2-4) is_contiguous_Cons by auto
  have p: "1 \<le> prod_list sh" "1 \<le> d" using 3(3) prod_pos by auto
  have lt: "prod_list sh < 2 ^ 63"
    using prod_tail_less [of d sh] 3(4) p by simp
  have tot: "nat (prod_list (d # sh)) = nat d * ?p" using p by (simp add: nat_mult_distrib)
  have "strided leaf sh st (nat ((int off + int i * s) mod 2 ^ 64)) = map_res leaf [off + i * ?p..<off + i * ?p + ?p]"
    if "i < nat d" for i
  proof -
    have "i * ?p + ?p \<le> nat d * ?p" using that mult_le_mono1 [of "Suc i" "nat d" ?p] by simp
    then have b: "off + i * ?p + ?p \<le> 2 ^ 64" using 3(5) tot by simp
    have "int i * s = int (i * ?p)" using c(2) that p by auto
    then have e: "nat ((int off + int i * s) mod 2 ^ 64) = off + i * ?p"
      by (rule wrap_offset) (use b p in simp)
    have "off + i * ?p + ?p \<le> 2 ^ 64 \<Longrightarrow>
        strided leaf sh st (off + i * ?p) = map_res leaf [off + i * ?p..<off + i * ?p + ?p]"
      using 3(1) [of "int i"] that p c(1) 3(3) lt unfolding e by simp
    then show ?thesis unfolding e using b by blast
  qed
  then have "map_res (\<lambda>i. strided leaf sh st (nat ((int off + i * s) mod 2 ^ 64))) [0..d - 1] =
      map_res (\<lambda>i. map_res leaf [off + i * ?p..<off + i * ?p + ?p]) [0..<nat d]"
    using p by (simp only: upto_upt map_res_map) (rule map_res_cong, simp)
  then show ?case using map_res_concat [of leaf "\<lambda>i. [off + i * ?p..<off + i * ?p + ?p]" "[0..<nat d]"]
    unfolding tot by (simp add: concat_ranges)
qed (auto simp: is_contiguous_def)

lemma map_res_const: "map_res (\<lambda>_. Inr y) xs = Inr (map (\<lambda>_. y) xs)"
  by (induction xs) simp_all

lemma prod_list_zero: "0 \<in> set xs \<Longrightarrow> prod_list xs = (0 :: int)"
  by (induction xs) auto

lemma strided_zero:
  "length sh = length st \<Longrightarrow> 0 \<in> set sh \<Longrightarrow> strided leaf sh st off = Inr []"
proof (induction leaf sh st off rule: strided.induct)
  case (3 leaf d sh s st off)
  show ?case
  proof (cases "d = 0")
    case False
    then have "map_res (\<lambda>i. strided leaf sh st (nat ((int off + i * s) mod 2 ^ 64))) [0..d - 1] =
        map_res (\<lambda>i. Inr []) [0..d - 1]"
      by (intro map_res_cong 3(1)) (use 3 in auto)
    then show ?thesis by (simp add: map_res_const concat_eq_Nil_conv)
  qed simp
qed auto

text \<open>The layouts for which the contiguous loop and the strided recursion are compared.\<close>

definition plain_layout :: "tensor_record \<Rightarrow> bool" where
  "plain_layout r \<longleftrightarrow> is_contiguous (tr_shape r) (tr_stride r) \<and> list_all (\<lambda>d. 0 \<le> d) (tr_shape r) \<and>
     prod_list (tr_shape r) < 2 ^ 63 \<and> tr_offset r + numel (tr_shape r) \<le> 2 ^ 64"

lemma linear_eq: "tr_offset r + numel (tr_shape r) \<le> 2 ^ 64 \<Longrightarrow> linear r = [tr_offset r..<tr_offset r + numel (tr_shape r)]"
  unfolding linear_def by (intro nth_equalityI) auto

lemma strided_linear:
  assumes "plain_layout r"
  shows "strided leaf (tr_shape r) (tr_stride r) (tr_offset r) = map_res leaf (linear r)"
proof -
  let ?sh = "tr_shape r"
  have a: "is_contiguous ?sh (tr_stride r)" "list_all (\<lambda>d. 0 \<le> d) ?sh" "prod_list ?sh < 2 ^ 63"
    "tr_offset r + numel ?sh \<le> 2 ^ 64" using assms by (simp_all add: plain_layout_def)
  have n: "numel ?sh = nat (prod_list ?sh)" using numel_eq [OF a(2)] a(3) by simp
  show ?thesis
  proof (cases "0 \<in> set ?sh")
    case True
    then have "numel ?sh = 0" unfolding n by (simp add: prod_list_zero)
    then show ?thesis using True a(1) by (simp add: linear_def is_contiguous_def strided_zero)
  next
    case False
    have "1 \<le> d" if "d \<in> set ?sh" for d
    proof -
      have "0 \<le> d" using a(2) that by (simp add: list_all_iff)
      moreover have "d \<noteq> 0" using False that by auto
      ultimately show ?thesis by simp
    qed
    then show ?thesis
      using strided_contiguous [OF a(1) _ a(3), of "tr_offset r" leaf] a(4) unfolding linear_eq [OF a(4)] n
      by (simp add: list_all_iff)
  qed
qed

text \<open>
  C31. The fast path is the general one: for a record whose strides are those of a contiguous
  layout, with no negative dimension, fewer than two to the 63 elements and an end that does not
  wrap, the strided recursion reads the same elements in the same order as the contiguous loop,
  as floats and as bfloat16, or fails where it fails.
\<close>

theorem contiguous_is_strided:
  assumes "is_contiguous (tr_shape r) (tr_stride r)" "list_all (\<lambda>d. 0 \<le> d) (tr_shape r)"
    "prod_list (tr_shape r) < 2 ^ 63" "tr_offset r + numel (tr_shape r) \<le> 2 ^ 64"
  shows "load_strided_float data dt (tr_shape r) (tr_stride r) (tr_offset r) =
      map_res (read_element_as_float data dt) (linear r) \<and>
    load_strided_bf16 data dt (tr_shape r) (tr_stride r) (tr_offset r) =
      map_res (read_element_as_bf16 data dt) (linear r)"
proof -
  have "plain_layout r" using assms by (simp add: plain_layout_def)
  then show ?thesis by (simp add: load_strided_float_def load_strided_bf16_def strided_linear)
qed

section \<open>Reading inside the storage\<close>

lemma load_scalar_Inr:
  "off + k \<le> length data \<Longrightarrow> load_scalar data k off = Inr (le_value (take k (drop off data)))"
  by (simp add: load_scalar_def)

lemma map_res_total:
  "(\<And>x. x \<in> set xs \<Longrightarrow> \<exists>y. f x = Inr y) \<Longrightarrow> \<exists>ys. map_res f xs = Inr ys \<and> length ys = length xs"
proof (induction xs)
  case (Cons x xs)
  obtain y ys where "f x = Inr y" "map_res f xs = Inr ys" "length ys = length xs"
    using Cons by (metis list.set_intros)
  then show ?case by simp
qed simp

lemma element_in_storage:
  assumes "i < n" "n * dtype_size_bytes dt = length data" "length data < 2 ^ 64"
  shows "i * dtype_size_bytes dt + dtype_size_bytes dt \<le> length data"
    "wrap64 (i * dtype_size_bytes dt) = i * dtype_size_bytes dt"
proof -
  have "Suc i * dtype_size_bytes dt \<le> n * dtype_size_bytes dt" using assms(1) by (intro mult_le_mono1) simp
  moreover have "0 < dtype_size_bytes dt" by (simp add: dtype_size_bytes_def split: dtype.splits)
  ultimately show 1: "i * dtype_size_bytes dt + dtype_size_bytes dt \<le> length data" using assms(2) by simp
  then have "i * dtype_size_bytes dt < 2 ^ 64" using assms(3) \<open>0 < dtype_size_bytes dt\<close> by linarith
  then show "wrap64 (i * dtype_size_bytes dt) = i * dtype_size_bytes dt" by simp
qed

lemma read_element_total:
  assumes "i < n" "n * dtype_size_bytes dt = length data" "length data < 2 ^ 64"
  shows "\<exists>v. read_element_as_float data dt i = Inr v" "\<exists>b. read_element_as_bf16 data dt i = Inr b"
proof -
  show 1: "\<exists>v. read_element_as_float data dt i = Inr v"
    using load_scalar_Inr element_in_storage [OF assms] unfolding read_element_as_float_def by simp
  show "\<exists>b. read_element_as_bf16 data dt i = Inr b"
  proof (cases "dt = BFloat16")
    case True
    then show ?thesis using element_in_storage [OF assms] load_scalar_Inr
      by (simp add: read_element_as_bf16_def dtype_size_bytes_def)
  next
    case False
    then show ?thesis using 1 by (auto simp: read_element_as_bf16_def)
  qed
qed

lemma tensor_storage_size: "tensor_storage ar r = Inr data \<Longrightarrow> wrap64 (tr_size r * dtype_size_bytes (tr_dtype r)) = length data"
  by (auto simp: tensor_storage_def Let_def split: option.splits if_splits)

text \<open>
  Loading a contiguous record whose end and whose storage size in bytes do not wrap stays
  inside the storage: it never reads an element outside, and what it returns has as many elements
  of each wanted kind as the shape says.
\<close>

theorem contiguous_load_in_bounds:
  assumes "is_contiguous (tr_shape r) (tr_stride r)" "tr_offset r + numel (tr_shape r) < 2 ^ 64"
    "tr_size r * dtype_size_bytes (tr_dtype r) < 2 ^ 64"
  shows "load_tensor_select ar r b h f \<noteq> Inl UndefinedAccess \<and>
    (\<forall>td. load_tensor_select ar r b h f = Inr td \<longrightarrow>
       (if b then length (td_bf16 td) = numel (tr_shape r) else td_bf16 td = []) \<and>
       (if h then length (td_f16 td) = numel (tr_shape r) else td_f16 td = []) \<and>
       (if f then length (td_floats td) = numel (tr_shape r) else td_floats td = []))"
proof (cases "tensor_storage ar r")
  case (Inl e)
  then show ?thesis
    by (auto simp: load_tensor_select_def tensor_storage_def Let_def lift_error_def bind_res_def
        split: option.splits if_splits sum.splits)
next
  case (Inr data)
  have sz: "tr_size r * dtype_size_bytes (tr_dtype r) = length data" "length data < 2 ^ 64"
    using tensor_storage_size [OF Inr] assms(3) by simp_all
  have lin: "linear r = [tr_offset r..<tr_offset r + numel (tr_shape r)]" using linear_eq assms(2) by simp
  show ?thesis
  proof (cases "tr_offset r + numel (tr_shape r) > tr_size r")
    case True
    then show ?thesis using Inr assms(1,2) by (simp add: load_tensor_select_def Let_def)
  next
    case False
    then have i: "i < tr_size r" if "i \<in> set (linear r)" for i using that by (simp add: lin)
    obtain vs where vs: "map_res (read_element_as_float data (tr_dtype r)) (linear r) = Inr vs" "length vs = length (linear r)"
      using map_res_total read_element_total(1) [OF i sz] by metis
    obtain bs where bs: "map_res (read_element_as_bf16 data (tr_dtype r)) (linear r) = Inr bs" "length bs = length (linear r)"
      using map_res_total read_element_total(2) [OF i sz] by metis
    show ?thesis using Inr False assms(1,2) vs bs by (simp add: load_tensor_select_def Let_def lin)
  qed
qed

section \<open>Statistics\<close>

definition stats_of :: "u32 list \<Rightarrow> tensor_stats \<Rightarrow> bool" where
  "stats_of vs st \<longleftrightarrow>
     (case st of
        None \<Rightarrow> \<forall>v \<in> set vs. float_nan v
      | Some (lo, hi) \<Rightarrow> lo \<in> set vs \<and> hi \<in> set vs \<and> \<not> float_nan lo \<and> \<not> float_nan hi \<and>
          (\<forall>v \<in> set vs. float_nan v \<or> float_key lo \<le> float_key v \<and> float_key v \<le> float_key hi))"

lemma stats_of_update: "stats_of vs st \<Longrightarrow> stats_of (vs @ [v]) (update_minmax st v)"
  by (auto simp: stats_of_def update_minmax_def float_less_def split: option.splits)

lemma stats_of_foldl: "stats_of us st \<Longrightarrow> stats_of (us @ vs) (foldl update_minmax st vs)"
proof (induction vs arbitrary: us st)
  case (Cons v vs)
  show ?case using Cons.IH [OF stats_of_update [OF Cons.prems, of v]] by simp
qed simp

text \<open>
  The statistics of a tensor are those of its elements: when its elements are loaded as floats
  and its element count is not zero, the minimum and the maximum are elements that are no NaN and
  bound every other one, and there are none exactly when every element is a NaN.
\<close>

theorem stats_bound_elements:
  assumes "compute_tensor_stats ar r = Inr st" "load_tensor_select ar r b h True = Inr td" "numel (tr_shape r) \<noteq> 0"
  shows "case st of
      None \<Rightarrow> \<forall>v \<in> set (td_floats td). float_nan v
    | Some (lo, hi) \<Rightarrow> lo \<in> set (td_floats td) \<and> hi \<in> set (td_floats td) \<and> \<not> float_nan lo \<and> \<not> float_nan hi \<and>
        (\<forall>v \<in> set (td_floats td). float_nan v \<or> float_key lo \<le> float_key v \<and> float_key v \<le> float_key hi)"
proof -
  have "st = foldl update_minmax None (td_floats td)"
    using assms by (auto simp: compute_tensor_stats_def load_tensor_select_def Let_def split: if_splits)
  moreover have "stats_of [] None" by (simp add: stats_of_def)
  ultimately have "stats_of (td_floats td) st" using stats_of_foldl [of "[]" None "td_floats td"] by simp
  then show ?thesis by (simp add: stats_of_def)
qed

section \<open>Reads outside the storage\<close>

text \<open>
  Neither hypothesis of \<open>contiguous_load_in_bounds\<close> is checked by the code: a strided record is
  never compared with its storage, and the sum that is compared can wrap. Both records are
  well-formed pickle values.
\<close>

lemma strided_load_undefined:
  "tensor_storage ar \<lparr>tr_name = [], tr_dtype = BFloat16, tr_key = [48], tr_size = 2, tr_offset = 0,
      tr_shape = [2, 2], tr_stride = [1, 100]\<rparr> = Inr [1, 2, 3, 4] \<Longrightarrow>
   load_tensor_select ar \<lparr>tr_name = [], tr_dtype = BFloat16, tr_key = [48], tr_size = 2, tr_offset = 0,
      tr_shape = [2, 2], tr_stride = [1, 100]\<rparr> True False False = Inl UndefinedAccess"
  by (simp add: load_tensor_select_def Let_def is_contiguous_def load_strided_bf16_def upto_rec1 numel_def
      read_element_as_bf16_def load_scalar_def)

lemma wrapping_load_undefined:
  "tensor_storage ar \<lparr>tr_name = [], tr_dtype = BFloat16, tr_key = [48], tr_size = 2, tr_offset = 2 ^ 64 - 1,
      tr_shape = [1], tr_stride = [1]\<rparr> = Inr [1, 2, 3, 4] \<Longrightarrow>
   load_tensor_select ar \<lparr>tr_name = [], tr_dtype = BFloat16, tr_key = [48], tr_size = 2, tr_offset = 2 ^ 64 - 1,
      tr_shape = [1], tr_stride = [1]\<rparr> True False False = Inl UndefinedAccess"
  by (simp add: load_tensor_select_def Let_def is_contiguous_def numel_def linear_def
      read_element_as_bf16_def load_scalar_def)

section \<open>Witnesses\<close>

definition demo_tensor_archive :: pth_archive where
  "demo_tensor_archive =
     \<lparr>ar_file = [0x80, 0x3f, 0, 0xc0, 0xc0, 0x7f, 0, 0x3f], ar_chunked = False, ar_entries =
       [\<lparr>pe_name = bytes_of ''a/data.pkl'', pe_method = 0, pe_crc = 0, pe_compressed = 0, pe_uncompressed = 0, pe_local = 0, pe_data = 0\<rparr>,
        \<lparr>pe_name = bytes_of ''a/data/0'', pe_method = 0, pe_crc = 0, pe_compressed = 8, pe_uncompressed = 8, pe_local = 0, pe_data = 0\<rparr>]\<rparr>"

definition demo_tensor_record :: tensor_record where
  "demo_tensor_record =
     \<lparr>tr_name = [119], tr_dtype = BFloat16, tr_key = [48], tr_size = 4, tr_offset = 0, tr_shape = [2, 2], tr_stride = [2, 1]\<rparr>"

lemma demo_tensor_storage:
  "tensor_storage demo_tensor_archive demo_tensor_record = Inr [0x80, 0x3f, 0, 0xc0, 0xc0, 0x7f, 0, 0x3f]"
  by (simp add: tensor_storage_def demo_tensor_archive_def demo_tensor_record_def archive_prefix_def bytes_of_def Let_def
      suffix_def find_entry_def read_stored_entry_def is_stored_def dtype_size_bytes_def)

lemma demo_contiguous: "is_contiguous [2, 2] [2, 1]" "numel [2, 2] = 4"
  by (simp_all add: is_contiguous_def numel_def)

theorem contiguous_is_strided_witness:
  "load_strided_float [0x80, 0x3f, 0, 0xc0, 0xc0, 0x7f, 0, 0x3f] BFloat16 [2, 2] [2, 1] 0 =
     map_res (read_element_as_float [0x80, 0x3f, 0, 0xc0, 0xc0, 0x7f, 0, 0x3f] BFloat16) (linear demo_tensor_record)"
  using contiguous_is_strided [of demo_tensor_record "[0x80, 0x3f, 0, 0xc0, 0xc0, 0x7f, 0, 0x3f]" BFloat16] demo_contiguous
  by (simp add: demo_tensor_record_def)

lemma demo_linear: "linear demo_tensor_record = [0, 1, 2, 3]"
  using demo_contiguous by (simp add: linear_def demo_tensor_record_def upt_rec)

lemma demo_load:
  "load_tensor_select demo_tensor_archive demo_tensor_record True False True =
     Inr \<lparr>td_name = [119], td_shape = [2, 2], td_bf16 = [0x3f80, 0xc000, 0x7fc0, 0x3f00], td_f16 = [],
          td_floats = [0x3f800000, 0xc0000000, 0x7fc00000, 0x3f000000]\<rparr>"
  using demo_tensor_storage demo_contiguous demo_linear
  by (simp add: load_tensor_select_def Let_def demo_tensor_record_def read_element_as_bf16_def read_element_as_float_def
      load_scalar_def dtype_size_bytes_def bf16_bits_to_float_def)

lemma demo_stats: "compute_tensor_stats demo_tensor_archive demo_tensor_record = Inr (Some (0xc0000000, 0x3f800000))"
  using demo_tensor_storage demo_contiguous demo_linear
  by (simp add: compute_tensor_stats_def Let_def demo_tensor_record_def read_element_as_float_def
      load_scalar_def dtype_size_bytes_def bf16_bits_to_float_def update_minmax_def float_nan_def float_less_def float_key_def)

theorem contiguous_load_in_bounds_witness:
  "load_tensor_select demo_tensor_archive demo_tensor_record True False True \<noteq> Inl UndefinedAccess \<and>
   length [0x3f80, 0xc000, 0x7fc0, 0x3f00 :: u16] = numel [2, 2]"
  using contiguous_load_in_bounds [of demo_tensor_record demo_tensor_archive True False True] demo_contiguous demo_load
  by (simp add: demo_tensor_record_def dtype_size_bytes_def)

theorem stats_bound_elements_witness:
  "float_key 0xc0000000 \<le> float_key 0x3f000000 \<and> float_key 0x3f000000 \<le> float_key 0x3f800000"
  using stats_bound_elements [OF demo_stats demo_load] demo_contiguous
  by (simp add: demo_tensor_record_def float_nan_def float_key_def)

end
