(* ===== verification/StateUpload.thy ===== *)
theory StateUpload
  imports PthTensor
begin

text \<open>
  Checking an uploaded RWKV state before it is accepted (\<open>is_time_state_tensor\<close> and
  \<open>validate_state_pth\<close> of \<open>src/server/rwkv_uploaded_state_store.cpp\<close>): the archive is opened in
  chunks, every state tensor is checked against its storage and scanned, and the layers must be
  numbered from zero without a gap. A thrown exception is an error value.
\<close>

section \<open>The validator\<close>

datatype upload_error =
    EmptyFile | FileTooLarge | BadFilename | BadUuid | UuidConflict bytes
  | InvalidArchive archive_error | InvalidRecords tensor_error | BadTensorName bytes | LayerOutOfRange bytes
  | DuplicateTensor bytes | BadShapeOrDtype bytes | InconsistentShape bytes | BadStorage bytes
  | BadStride bytes | RangeExceedsStorage bytes | ScanFailed tensor_error | NoStateTensors | LayersNotContiguous

definition max_uploaded_bytes :: nat where
  "max_uploaded_bytes = 512 * 1024 * 1024"

definition is_time_state_tensor :: "bytes \<Rightarrow> bool" where
  "is_time_state_tensor name \<longleftrightarrow>
     prefix (bytes_of ''blocks.'') name \<and> length name > 7 + 15 \<and> suffix (bytes_of ''.att.time_state'') name"

definition is_digit :: "byte \<Rightarrow> bool" where
  "is_digit b \<longleftrightarrow> 48 \<le> b \<and> b \<le> 57"

definition digits_value :: "bytes \<Rightarrow> nat" where
  "digits_value ds = foldl (\<lambda>n d. 10 * n + (unat d - 48)) 0 ds"

text \<open>\<open>std::stoi\<close> throws when the number does not fit in an \<open>int\<close>.\<close>

definition state_layer :: "bytes \<Rightarrow> upload_error + nat" where
  "state_layer name =
     (let layer_text = take (length name - 7 - 15) (drop 7 name) in
      if layer_text = [] \<or> \<not> list_all is_digit layer_text then Inl (BadTensorName name)
      else if digits_value layer_text > 0x7fffffff then Inl (LayerOutOfRange name)
      else Inr (digits_value layer_text))"

record state_shape =
  ss_layers :: "nat list"
  ss_heads :: int
  ss_head_size :: int

text \<open>The loop over the three dimensions, with the last element and the number of elements so far.\<close>

fun bound_dims :: "bytes \<Rightarrow> nat \<Rightarrow> nat \<Rightarrow> (int \<times> int) list \<Rightarrow> nat \<Rightarrow> nat \<Rightarrow> upload_error + nat" where
  "bound_dims name storage_size dtype_bytes [] last_el elements = Inr last_el"
| "bound_dims name storage_size dtype_bytes ((shape, stride) # rest) last_el elements =
     (let dim = nat shape in
      if stride < 0 \<or> elements > max_uploaded_bytes div dtype_bytes div dim then Inl (BadStride name)
      else if dim > 1 \<and> nat stride > (storage_size - 1 - last_el) div (dim - 1) then Inl (RangeExceedsStorage name)
      else bound_dims name storage_size dtype_bytes rest (last_el + (dim - 1) * nat stride) (elements * dim))"

definition shape_ok :: "tensor_record \<Rightarrow> bool" where
  "shape_ok r \<longleftrightarrow>
     tr_dtype r \<in> {BFloat16, Float32} \<and> length (tr_shape r) = 3 \<and> tr_shape r ! 0 > 0 \<and> tr_shape r ! 1 > 0 \<and>
     tr_shape r ! 0 \<le> 0x7fffffff \<and> tr_shape r ! 1 \<le> 0x7fffffff \<and> tr_shape r ! 1 = tr_shape r ! 2"

text \<open>One iteration of the loop over the records.\<close>

definition check_state_tensor :: "pth_archive \<Rightarrow> state_shape \<Rightarrow> tensor_record \<Rightarrow> upload_error + state_shape" where
  "check_state_tensor ar info r =
     (let name = tr_name r; dtype_bytes = dtype_size_bytes (tr_dtype r) in
      if \<not> is_time_state_tensor name then Inr info
      else bind_res (state_layer name) (\<lambda>layer.
        if layer \<in> set (ss_layers info) then Inl (DuplicateTensor name)
        else if \<not> shape_ok r then Inl (BadShapeOrDtype name)
        else if ss_heads info \<noteq> 0 \<and> (ss_heads info \<noteq> tr_shape r ! 0 \<or> ss_head_size info \<noteq> tr_shape r ! 1) then
          Inl (InconsistentShape name)
        else if length (tr_stride r) \<noteq> 3 \<or> tr_size r > max_uploaded_bytes div dtype_bytes \<or> tr_offset r \<ge> tr_size r then
          Inl (BadStorage name)
        else bind_res (bound_dims name (tr_size r) dtype_bytes (zip (tr_shape r) (tr_stride r)) (tr_offset r) 1) (\<lambda>_.
          bind_res (lift_error ScanFailed (compute_tensor_stats ar r)) (\<lambda>_.
            Inr (info\<lparr>ss_layers := layer # ss_layers info, ss_heads := tr_shape r ! 0, ss_head_size := tr_shape r ! 1\<rparr>)))))"

fun check_records :: "pth_archive \<Rightarrow> state_shape \<Rightarrow> tensor_record list \<Rightarrow> upload_error + state_shape" where
  "check_records ar info [] = Inr info"
| "check_records ar info (r # rs) = bind_res (check_state_tensor ar info r) (\<lambda>info. check_records ar info rs)"

definition validate_state_pth :: "bytes \<Rightarrow> upload_error + state_shape" where
  "validate_state_pth file =
     bind_res (lift_error InvalidArchive (open_archive file True)) (\<lambda>ar.
     bind_res (lift_error InvalidRecords (parse_pth_tensor_records ar)) (\<lambda>records.
     bind_res (check_records ar \<lparr>ss_layers = [], ss_heads = 0, ss_head_size = 0\<rparr> records) (\<lambda>info.
       let layers = ss_layers info in
       if layers = [] then Inl NoStateTensors
       else if Min (set layers) \<noteq> 0 \<or> Max (set layers) \<noteq> length layers - 1 then Inl LayersNotContiguous
       else Inr info)))"

section \<open>Scanning inside the storage\<close>

text \<open>How far the last element of a strided tensor is from its first.\<close>

fun extent :: "int list \<Rightarrow> int list \<Rightarrow> nat" where
  "extent (d # ds) (s # ss) = (nat d - 1) * nat s + extent ds ss"
| "extent _ _ = 0"

lemma map_res_exists:
  "(\<And>x. x \<in> set xs \<Longrightarrow> \<exists>y. f x = Inr y) \<Longrightarrow> \<exists>ys. map_res f xs = Inr ys"
  using map_res_total [of xs f] by blast

lemma strided_total:
  assumes "length sh = length st" "list_all (\<lambda>s. 0 \<le> s) st" "list_all (\<lambda>d. 1 \<le> d) sh" "off + extent sh st < 2 ^ 64"
    "\<And>j. off \<le> j \<Longrightarrow> j \<le> off + extent sh st \<Longrightarrow> \<exists>y. leaf j = Inr y"
  shows "\<exists>ys. strided leaf sh st off = Inr ys"
  using assms
proof (induction leaf sh st off rule: strided.induct)
  case (1 leaf st off)
  then show ?case by (metis bind_res_simps(2) add_leE le_add1 strided.simps(1) dual_order.refl)
next
  case (3 leaf d sh s st off)
  have 1: "\<exists>ys. strided leaf sh st (nat ((int off + i * s) mod 2 ^ 64)) = Inr ys" if i: "i \<in> set [0..d - 1]" for i
  proof -
    have ds: "0 \<le> i" "i \<le> d - 1" "0 \<le> s" "1 \<le> d" using i 3(3,4) by auto
    have "nat i * nat s \<le> (nat d - 1) * nat s" using ds by (intro mult_le_mono1) (simp add: nat_le_iff)
    then have le: "nat i * nat s + extent sh st \<le> extent (d # sh) (s # st)" by simp
    have "i * s = int (nat i * nat s)" using ds by simp
    then have e: "nat ((int off + i * s) mod 2 ^ 64) = off + nat i * nat s"
      by (rule wrap_offset) (use le 3(5) in linarith)
    show ?thesis
    proof (rule 3(1))
      show "length sh = length st" "list_all (\<lambda>s. 0 \<le> s) st" "list_all (\<lambda>d. 1 \<le> d) sh" using 3(2-4) by simp_all
      show "nat ((int off + i * s) mod 2 ^ 64) + extent sh st < 2 ^ 64" unfolding e using le 3(5) by linarith
      show "\<exists>y. leaf j = Inr y"
        if "nat ((int off + i * s) mod 2 ^ 64) \<le> j" "j \<le> nat ((int off + i * s) mod 2 ^ 64) + extent sh st" for j
        using that le unfolding e by (intro 3(6)) linarith+
    qed
  qed
  have "\<exists>ys. map_res (\<lambda>i. strided leaf sh st (nat ((int off + i * s) mod 2 ^ 64))) [0..d - 1] = Inr ys"
    by (rule map_res_exists, rule 1)
  then obtain ys where "map_res (\<lambda>i. strided leaf sh st (nat ((int off + i * s) mod 2 ^ 64))) [0..d - 1] = Inr ys"
    by blast
  then show ?case unfolding strided.simps by simp
qed simp

lemma bound_dims_spec:
  assumes "bound_dims name sz db (zip sh st) last_el elements = Inr l" "length sh = length st"
    "list_all (\<lambda>d. 1 \<le> d) sh" "last_el < sz" "elements \<le> max_uploaded_bytes div db"
  shows "list_all (\<lambda>s. 0 \<le> s) st \<and> l = last_el + extent sh st \<and> l < sz \<and>
    elements * nat (prod_list sh) \<le> max_uploaded_bytes div db"
  using assms
proof (induction sh arbitrary: st last_el elements)
  case (Cons d sh)
  obtain s ss where st: "st = s # ss" using Cons.prems(2) by (cases st) auto
  define m where "m = max_uploaded_bytes div db"
  have "1 \<le> d" using Cons.prems(3) by simp
  then have d: "1 \<le> nat d" "1 \<le> d" by simp_all
  have s: "0 \<le> s" "elements \<le> m div nat d" "\<not> (nat d > 1 \<and> nat s > (sz - 1 - last_el) div (nat d - 1))"
    and r: "bound_dims name sz db (zip sh ss) (last_el + (nat d - 1) * nat s) (elements * nat d) = Inr l"
    using Cons.prems(1) unfolding st m_def by (auto simp: Let_def split: if_splits)
  have em: "elements * nat d \<le> m" using s(2) d(1) by (simp add: less_eq_div_iff_mult_less_eq)
  have "(nat d - 1) * nat s \<le> sz - 1 - last_el"
  proof (cases "nat d > 1")
    case True
    then have "nat s \<le> (sz - 1 - last_el) div (nat d - 1)" using s(3) by simp
    then show ?thesis using True by (simp add: less_eq_div_iff_mult_less_eq mult.commute)
  next
    case False
    then have "nat d = 1" using d by simp
    then show ?thesis by simp
  qed
  then have lt: "last_el + (nat d - 1) * nat s < sz" using Cons.prems(4) by linarith
  have ih: "list_all (\<lambda>s. 0 \<le> s) ss \<and> l = last_el + (nat d - 1) * nat s + extent sh ss \<and> l < sz \<and>
      elements * nat d * nat (prod_list sh) \<le> m"
    using Cons.IH [OF r _ _ lt] Cons.prems(2,3) em by (simp add: st m_def)
  have "nat (prod_list (d # sh)) = nat d * nat (prod_list sh)" using d(2) by (simp add: nat_mult_distrib)
  then show ?case using ih s(1) by (simp add: st m_def mult.assoc del: prod_list.Cons)
qed simp

text \<open>What the checks on a record say about its storage.\<close>

definition bounded :: "tensor_record \<Rightarrow> bool" where
  "bounded r \<longleftrightarrow>
     length (tr_shape r) = length (tr_stride r) \<and> list_all (\<lambda>d. 1 \<le> d) (tr_shape r) \<and> list_all (\<lambda>s. 0 \<le> s) (tr_stride r) \<and>
     tr_offset r + extent (tr_shape r) (tr_stride r) < tr_size r \<and>
     nat (prod_list (tr_shape r)) \<le> max_uploaded_bytes \<and> tr_size r * dtype_size_bytes (tr_dtype r) \<le> max_uploaded_bytes"

lemma bounded_stats_in_bounds:
  assumes b: "bounded r"
  shows "compute_tensor_stats ar r \<noteq> Inl UndefinedAccess"
proof (cases "tensor_storage ar r")
  case (Inl e)
  then show ?thesis
    by (auto simp: compute_tensor_stats_def tensor_storage_def Let_def lift_error_def bind_res_def
        split: option.splits if_splits sum.splits)
next
  case (Inr data)
  have M: "max_uploaded_bytes < 2 ^ 30" by (simp add: max_uploaded_bytes_def)
  then have sz: "tr_size r * dtype_size_bytes (tr_dtype r) = length data" "length data < 2 ^ 64"
    using tensor_storage_size [OF Inr] b by (simp_all add: bounded_def)
  have pos: "0 < dtype_size_bytes (tr_dtype r)" by (simp add: dtype_size_bytes_def split: dtype.split)
  have "tr_size r * 1 \<le> tr_size r * dtype_size_bytes (tr_dtype r)" by (rule mult_le_mono2) (use pos in simp)
  also have "\<dots> \<le> max_uploaded_bytes" using b by (simp add: bounded_def)
  finally have small: "tr_size r < 2 ^ 30" using M by simp
  have rd: "\<exists>v. read_element_as_float data (tr_dtype r) i = Inr v" if "i < tr_size r" for i
    by (rule read_element_total(1) [OF that sz])
  have sh: "list_all (\<lambda>d. 0 \<le> d) (tr_shape r)" using b by (auto simp: bounded_def list_all_iff)
  have "prod_list (tr_shape r) < 2 ^ 64" using b M by (simp add: bounded_def nat_le_iff)
  then have n: "numel (tr_shape r) = nat (prod_list (tr_shape r))" by (rule numel_eq [OF sh])
  have lin: "linear r = [tr_offset r..<tr_offset r + numel (tr_shape r)]"
    by (rule linear_eq) (use b M small n in \<open>simp add: bounded_def\<close>)
  have st: "\<exists>ys. load_strided_float data (tr_dtype r) (tr_shape r) (tr_stride r) (tr_offset r) = Inr ys"
    unfolding load_strided_float_def
    by (rule strided_total) (use b small rd in \<open>auto simp: bounded_def intro!: rd\<close>)
  have li: "\<exists>ys. map_res (read_element_as_float data (tr_dtype r)) (linear r) = Inr ys"
    if "tr_offset r + numel (tr_shape r) \<le> tr_size r"
    by (rule map_res_exists, rule rd) (use that in \<open>simp add: lin\<close>)
  have w: "wrap64 (tr_offset r + numel (tr_shape r)) = tr_offset r + numel (tr_shape r)"
    using b M small n by (simp add: bounded_def)
  show ?thesis
    using Inr st li w by (auto simp: compute_tensor_stats_def Let_def)
qed

section \<open>The checks on a record\<close>

definition record_error :: "upload_error \<Rightarrow> bool" where
  "record_error e \<longleftrightarrow> (\<forall>t u v. e \<noteq> ScanFailed t \<and> e \<noteq> InvalidArchive u \<and> e \<noteq> InvalidRecords v)"

lemma check_state_tensor_cases:
  assumes "check_state_tensor ar info r = res"
  obtains
    (Skip) "\<not> is_time_state_tensor (tr_name r)" "res = Inr info"
  | (Rejected) e where "is_time_state_tensor (tr_name r)" "res = Inl e" "record_error e"
  | (Scanned) layer where "is_time_state_tensor (tr_name r)" "state_layer (tr_name r) = Inr layer"
      "layer \<notin> set (ss_layers info)" "shape_ok r" "bounded r"
      "ss_heads info = 0 \<or> ss_heads info = tr_shape r ! 0 \<and> ss_head_size info = tr_shape r ! 1"
      "res = bind_res (lift_error ScanFailed (compute_tensor_stats ar r)) (\<lambda>_. Inr (info\<lparr>ss_layers := layer # ss_layers info,
         ss_heads := tr_shape r ! 0, ss_head_size := tr_shape r ! 1\<rparr>))"
proof (cases "is_time_state_tensor (tr_name r)")
  case False
  then show thesis using Skip assms by (simp add: check_state_tensor_def Let_def)
next
  case T: True
  have sl: "state_layer (tr_name r) = Inl e \<Longrightarrow> record_error e" for e
    by (auto simp: state_layer_def record_error_def Let_def split: if_splits)
  have bd: "bound_dims n a d xs l el = Inl e \<Longrightarrow> record_error e" for n a d xs l el e
    by (induction n a d xs l el rule: bound_dims.induct) (auto simp: record_error_def Let_def split: if_splits)
  show thesis
  proof (cases "state_layer (tr_name r)")
    case (Inl e)
    then show thesis using Rejected T sl assms by (auto simp: check_state_tensor_def Let_def)
  next
    case (Inr layer)
    define db where "db = dtype_size_bytes (tr_dtype r)"
    define ok where "ok \<longleftrightarrow> layer \<notin> set (ss_layers info) \<and> shape_ok r \<and>
      \<not> (ss_heads info \<noteq> 0 \<and> (ss_heads info \<noteq> tr_shape r ! 0 \<or> ss_head_size info \<noteq> tr_shape r ! 1)) \<and>
      \<not> (length (tr_stride r) \<noteq> 3 \<or> tr_size r > max_uploaded_bytes div db \<or> tr_offset r \<ge> tr_size r)"
    show thesis
    proof (cases ok)
      case False
      then show thesis using Rejected T Inr assms
        by (auto simp: check_state_tensor_def record_error_def ok_def db_def Let_def split: if_splits)
    next
      case True
      let ?bd = "bound_dims (tr_name r) (tr_size r) db (zip (tr_shape r) (tr_stride r)) (tr_offset r) 1"
      have res: "res = bind_res ?bd (\<lambda>_. bind_res (lift_error ScanFailed (compute_tensor_stats ar r)) (\<lambda>_.
          Inr (info\<lparr>ss_layers := layer # ss_layers info, ss_heads := tr_shape r ! 0, ss_head_size := tr_shape r ! 1\<rparr>)))"
        using assms T Inr True unfolding check_state_tensor_def ok_def db_def by (auto simp: Let_def)
      show thesis
      proof (cases ?bd)
        case (Inl e)
        then show thesis using Rejected T bd res by auto
      next
        case B: (Inr l)
        have db: "db = 2 \<or> db = 4" by (simp add: db_def dtype_size_bytes_def split: dtype.split)
        then have db1: "1 \<le> max_uploaded_bytes div db" "max_uploaded_bytes div db * db \<le> max_uploaded_bytes"
          "max_uploaded_bytes div db \<le> max_uploaded_bytes"
          by (auto simp: max_uploaded_bytes_def)
        have sh: "shape_ok r" "length (tr_stride r) = 3" "tr_size r \<le> max_uploaded_bytes div db" "tr_offset r < tr_size r"
          using True by (auto simp: ok_def)
        then have l3: "length (tr_shape r) = 3" by (simp add: shape_ok_def)
        then obtain x y z where xyz: "tr_shape r = [x, y, z]" by (metis (no_types) length_0_conv length_Suc_conv numeral_3_eq_3)
        have pos: "list_all (\<lambda>d. 1 \<le> d) (tr_shape r)" using sh(1) by (simp add: xyz shape_ok_def)
        have spec: "list_all (\<lambda>s. 0 \<le> s) (tr_stride r)" "l = tr_offset r + extent (tr_shape r) (tr_stride r)" "l < tr_size r"
          "1 * nat (prod_list (tr_shape r)) \<le> max_uploaded_bytes div db"
          using bound_dims_spec [OF B _ pos sh(4) db1(1)] l3 sh(2) by auto
        have "tr_size r * db \<le> max_uploaded_bytes" by (rule le_trans [OF mult_le_mono1 [OF sh(3)] db1(2)])
        moreover have "nat (prod_list (tr_shape r)) \<le> max_uploaded_bytes" using spec(4) db1(3) by linarith
        ultimately have "bounded r" using spec(1-3) l3 sh(2) pos by (simp add: bounded_def db_def)
        moreover have "ss_heads info = 0 \<or> ss_heads info = tr_shape r ! 0 \<and> ss_head_size info = tr_shape r ! 1"
          "layer \<notin> set (ss_layers info)" using True by (auto simp: ok_def)
        ultimately show thesis using Scanned [OF T Inr _ sh(1)] res B by auto
      qed
    qed
  qed
qed

lemma chunked_read_defined: "ar_chunked ar \<Longrightarrow> read_stored_entry ar e \<noteq> Inl UndefinedRead"
  by (auto simp: read_stored_entry_def read_stored_entry_range_def stream_read_def Let_def split: if_splits)

lemma map_res_defined:
  "(\<And>x. x \<in> set xs \<Longrightarrow> f x \<noteq> Inl (ArchiveError UndefinedRead)) \<Longrightarrow> map_res f xs \<noteq> Inl (ArchiveError UndefinedRead)"
proof (induction xs)
  case (Cons x xs)
  then show ?case by (cases "f x"; cases "map_res f xs") auto
qed simp

lemma read_element_defined: "read_element_as_float data dt i \<noteq> Inl (ArchiveError UndefinedRead)"
  by (simp add: read_element_as_float_def load_scalar_def)

lemma strided_defined:
  "(\<And>x. leaf x \<noteq> Inl (ArchiveError UndefinedRead)) \<Longrightarrow> strided leaf sh st off \<noteq> Inl (ArchiveError UndefinedRead)"
proof (induction leaf sh st off rule: strided.induct)
  case (1 leaf st off)
  then show ?case by (cases "leaf off") auto
next
  case (3 leaf d sh s st off)
  have "map_res (\<lambda>i. strided leaf sh st (nat ((int off + i * s) mod 2 ^ 64))) [0..d - 1] \<noteq> Inl (ArchiveError UndefinedRead)"
    by (rule map_res_defined, rule 3(1)) (use 3(2) in auto)
  then show ?case
    by (cases "map_res (\<lambda>i. strided leaf sh st (nat ((int off + i * s) mod 2 ^ 64))) [0..d - 1]")
      (simp_all del: upto.simps)
qed simp

lemma chunked_stats_defined:
  assumes "ar_chunked ar"
  shows "compute_tensor_stats ar r \<noteq> Inl (ArchiveError UndefinedRead)"
proof (cases "tensor_storage ar r")
  case (Inl e)
  have "read_stored_entry ar x \<noteq> Inl UndefinedRead" for x by (rule chunked_read_defined [OF assms])
  then have "tensor_storage ar r \<noteq> Inl (ArchiveError UndefinedRead)"
    by (auto simp: tensor_storage_def Let_def lift_error_def bind_res_def split: option.splits if_splits sum.splits)
  then show ?thesis using Inl by (simp add: compute_tensor_stats_def)
next
  case (Inr data)
  have 1: "map_res (read_element_as_float data (tr_dtype r)) (linear r) \<noteq> Inl (ArchiveError UndefinedRead)"
    by (rule map_res_defined) (rule read_element_defined)
  have 2: "load_strided_float data (tr_dtype r) (tr_shape r) (tr_stride r) (tr_offset r) \<noteq> Inl (ArchiveError UndefinedRead)"
    unfolding load_strided_float_def by (rule strided_defined) (rule read_element_defined)
  show ?thesis
    using Inr 1 2 by (cases "map_res (read_element_as_float data (tr_dtype r)) (linear r)";
      cases "load_strided_float data (tr_dtype r) (tr_shape r) (tr_stride r) (tr_offset r)")
      (auto simp: compute_tensor_stats_def Let_def)
qed

lemma check_records_defined:
  assumes "ar_chunked ar"
  shows "check_records ar info rs = Inl e \<Longrightarrow>
    record_error e \<or> (\<exists>t. e = ScanFailed t \<and> t \<noteq> UndefinedAccess \<and> t \<noteq> ArchiveError UndefinedRead)"
proof (induction rs arbitrary: info)
  case (Cons r rs)
  show ?case
  proof (cases rule: check_state_tensor_cases [of ar info r "check_state_tensor ar info r", OF refl, case_names Skip Rejected Scanned])
    case (Scanned layer)
    then show ?thesis
      using bounded_stats_in_bounds [OF Scanned(5), of ar] chunked_stats_defined [OF assms, of r] Cons
      by (cases "compute_tensor_stats ar r") auto
  qed (use Cons in auto)
qed simp

text \<open>
  C21. Checking an upload is safe whatever its bytes: for a file below two to the 63 bytes, opening
  the archive, parsing its pickle and scanning every state tensor, strided or not, never read
  outside a buffer.
\<close>

theorem upload_check_in_bounds:
  assumes "length file < 2 ^ 63"
  shows "validate_state_pth file \<notin>
    {Inl (InvalidArchive UndefinedRead), Inl (InvalidRecords (ArchiveError UndefinedRead)),
     Inl (ScanFailed UndefinedAccess), Inl (ScanFailed (ArchiveError UndefinedRead))}"
proof (cases "open_archive file True")
  case (Inl e)
  have "safe (open_chunked file)" using open_chunked_safe [OF assms] by simp
  then show ?thesis using Inl by (auto simp: validate_state_pth_def open_archive_def)
next
  case (Inr ar)
  then have ch: "ar_chunked ar" by (auto simp: open_archive_def open_chunked_def Let_def split: if_splits prod.splits)
  have "parse_pth_tensor_records ar \<noteq> Inl (ArchiveError UndefinedRead)"
    using chunked_read_defined [OF ch]
    by (auto simp: parse_pth_tensor_records_def Let_def lift_error_def bind_res_def split: option.splits if_splits sum.splits)
  then show ?thesis
    using Inr
    by (cases "parse_pth_tensor_records ar")
      (auto simp: validate_state_pth_def Let_def bind_res_def record_error_def split: sum.splits if_splits
        dest!: check_records_defined [OF ch])
qed

section \<open>What an accepted upload holds\<close>

lemma check_records_accept:
  "check_records ar info rs = Inr info' \<Longrightarrow> distinct (ss_layers info) \<Longrightarrow> 0 \<le> ss_heads info \<Longrightarrow>
    distinct (ss_layers info') \<and>
    rev (ss_layers info') = rev (ss_layers info) @
      map (\<lambda>r. projr (state_layer (tr_name r))) (filter (\<lambda>r. is_time_state_tensor (tr_name r)) rs) \<and>
    (ss_heads info \<noteq> 0 \<longrightarrow> ss_heads info' = ss_heads info \<and> ss_head_size info' = ss_head_size info) \<and>
    (\<forall>r \<in> set rs. is_time_state_tensor (tr_name r) \<longrightarrow>
       0 < ss_heads info' \<and> tr_shape r = [ss_heads info', ss_head_size info', ss_head_size info'] \<and> bounded r \<and>
       (\<exists>st. compute_tensor_stats ar r = Inr st))"
proof (induction rs arbitrary: info)
  case (Cons r rs)
  show ?case
  proof (cases rule: check_state_tensor_cases [of ar info r "check_state_tensor ar info r", OF refl, case_names Skip Rejected Scanned])
    case (Scanned layer)
    define info1 where "info1 = info\<lparr>ss_layers := layer # ss_layers info, ss_heads := tr_shape r ! 0, ss_head_size := tr_shape r ! 1\<rparr>"
    obtain st where st: "compute_tensor_stats ar r = Inr st" "check_records ar info1 rs = Inr info'"
      using Cons.prems(1) Scanned(7) unfolding info1_def by (cases "compute_tensor_stats ar r") auto
    have sh: "length (tr_shape r) = 3" "0 < tr_shape r ! 0" "tr_shape r ! 1 = tr_shape r ! 2"
      using Scanned(4) by (simp_all add: shape_ok_def)
    then have shape: "tr_shape r = [tr_shape r ! 0, tr_shape r ! 1, tr_shape r ! 1]"
      by (intro nth_equalityI) (auto simp: less_Suc_eq numeral_3_eq_3 numeral_2_eq_2)
    have ih: "distinct (ss_layers info')"
      "rev (ss_layers info') = rev (ss_layers info1) @
         map (\<lambda>r. projr (state_layer (tr_name r))) (filter (\<lambda>r. is_time_state_tensor (tr_name r)) rs)"
      "ss_heads info' = tr_shape r ! 0" "ss_head_size info' = tr_shape r ! 1"
      "\<forall>r \<in> set rs. is_time_state_tensor (tr_name r) \<longrightarrow>
         0 < ss_heads info' \<and> tr_shape r = [ss_heads info', ss_head_size info', ss_head_size info'] \<and> bounded r \<and>
         (\<exists>st. compute_tensor_stats ar r = Inr st)"
      using Cons.IH [OF st(2)] Cons.prems(2) Scanned(3) sh(2) by (simp_all add: info1_def)
    have "tr_shape r = [ss_heads info', ss_head_size info', ss_head_size info']" using shape by (simp only: ih(3,4))
    then show ?thesis
      using ih Scanned(1,2,5,6) st(1) sh(2) by (auto simp: info1_def)
  qed (use Cons in auto)
qed simp

text \<open>
  C29. An accepted upload is a complete model state: its archive opens and parses, its state tensors
  are numbered by exactly the layers from zero on, each layer once, all of them have the one shape
  of the heads and the head size that are reported, and every element of every one of them lies in
  its storage.
\<close>

theorem accepted_state_complete:
  assumes "validate_state_pth file = Inr info"
  shows "\<exists>ar recs. open_archive file True = Inr ar \<and> parse_pth_tensor_records ar = Inr recs \<and>
    0 < length (ss_layers info) \<and> distinct (ss_layers info) \<and> set (ss_layers info) = {0..<length (ss_layers info)} \<and>
    rev (ss_layers info) =
      map (\<lambda>r. projr (state_layer (tr_name r))) (filter (\<lambda>r. is_time_state_tensor (tr_name r)) recs) \<and>
    0 < ss_heads info \<and>
    list_all (\<lambda>r. tr_shape r = [ss_heads info, ss_head_size info, ss_head_size info] \<and>
        tr_offset r + extent (tr_shape r) (tr_stride r) < tr_size r \<and> (\<exists>st. compute_tensor_stats ar r = Inr st))
      (filter (\<lambda>r. is_time_state_tensor (tr_name r)) recs)"
proof -
  obtain ar recs where a: "open_archive file True = Inr ar" "parse_pth_tensor_records ar = Inr recs"
    "check_records ar \<lparr>ss_layers = [], ss_heads = 0, ss_head_size = 0\<rparr> recs = Inr info"
    and l: "ss_layers info \<noteq> []" "Max (set (ss_layers info)) = length (ss_layers info) - 1"
    using assms by (auto simp: validate_state_pth_def Let_def split: if_splits)
  note c = check_records_accept [OF a(3)]
  have d: "distinct (ss_layers info)" using c by simp
  have sub: "set (ss_layers info) \<subseteq> {0..<length (ss_layers info)}"
  proof
    fix x assume "x \<in> set (ss_layers info)"
    then have "x \<le> length (ss_layers info) - 1" using l(2) by (metis List.finite_set Max_ge)
    then show "x \<in> {0..<length (ss_layers info)}" using l(1) by (cases "ss_layers info") auto
  qed
  have "card (set (ss_layers info)) = card {0..<length (ss_layers info)}" using d by (simp add: distinct_card)
  then have eq: "set (ss_layers info) = {0..<length (ss_layers info)}" using sub by (simp add: card_subset_eq)
  have r: "rev (ss_layers info) =
      map (\<lambda>r. projr (state_layer (tr_name r))) (filter (\<lambda>r. is_time_state_tensor (tr_name r)) recs)" using c by simp
  then have "filter (\<lambda>r. is_time_state_tensor (tr_name r)) recs \<noteq> []" using l(1) by auto
  then obtain r0 where "r0 \<in> set recs" "is_time_state_tensor (tr_name r0)" by (auto simp: filter_empty_conv)
  then have "0 < ss_heads info" using c by auto
  moreover have "list_all (\<lambda>r. tr_shape r = [ss_heads info, ss_head_size info, ss_head_size info] \<and>
        tr_offset r + extent (tr_shape r) (tr_stride r) < tr_size r \<and> (\<exists>st. compute_tensor_stats ar r = Inr st))
      (filter (\<lambda>r. is_time_state_tensor (tr_name r)) recs)"
    using c by (auto simp: list_all_iff bounded_def)
  ultimately show ?thesis using a l(1) d eq r by auto
qed

end
