(* ===== verification/PthZip.thy ===== *)
theory PthZip
  imports PthArchive
begin

text \<open>
  The archive writer (\<open>write_zip\<close> of \<open>src/io/pth_writer.cpp\<close>): stored entries with their CRC, a
  central directory and an end record; and the proof that both readers open what it writes.
\<close>

section \<open>Little-endian output\<close>

text \<open>\<open>u16\<close> and \<open>u32\<close> append \<open>le_out 2\<close> and \<open>le_out 4\<close> of a value cast to that width.\<close>

fun le_out :: "nat \<Rightarrow> nat \<Rightarrow> bytes" where
  "le_out 0 n = []"
| "le_out (Suc k) n = of_nat n # le_out k (n div 256)"

lemma length_le_out [simp]: "length (le_out k n) = k"
  by (induction k arbitrary: n) auto

lemma le_value_le_out [simp]: "le_value (le_out k n) = n mod 256 ^ k"
proof (induction k arbitrary: n)
  case (Suc k)
  have "unat (of_nat n :: byte) = n mod 256" by (simp add: unat_of_nat)
  then show ?case using Suc by (simp add: mod_mult2_eq)
qed simp

section \<open>CRC\<close>

fun crc_bits :: "nat \<Rightarrow> u32 \<Rightarrow> u32" where
  "crc_bits 0 crc = crc"
| "crc_bits (Suc n) crc = crc_bits n (xor (drop_bit 1 crc) (and 0xedb88320 (0 - and crc 1)))"

definition crc32 :: "bytes \<Rightarrow> u32" where
  "crc32 data = not (foldl (\<lambda>crc b. crc_bits 8 (xor crc (ucast b))) 0xffffffff data)"

section \<open>The archive\<close>

record zip_entry =
  ze_name :: bytes
  ze_data :: bytes
  ze_crc :: u32
  ze_offset :: nat

definition zip_entry :: "bytes \<Rightarrow> bytes \<Rightarrow> zip_entry" where
  "zip_entry name data = \<lparr>ze_name = name, ze_data = data, ze_crc = 0, ze_offset = 0\<rparr>"

definition local_header :: "zip_entry \<Rightarrow> bytes" where
  "local_header e =
     le_out 4 0x04034b50 @ le_out 2 20 @ le_out 2 0 @ le_out 2 0 @ le_out 2 0 @ le_out 2 0 @
     le_out 4 (unat (ze_crc e)) @ le_out 4 (length (ze_data e)) @ le_out 4 (length (ze_data e)) @
     le_out 2 (length (ze_name e)) @ le_out 2 0"

text \<open>The first loop; \<open>None\<close>: it throws. The entries come back with their CRC and offset.\<close>

fun write_locals :: "zip_entry list \<Rightarrow> bytes \<Rightarrow> (zip_entry list \<times> bytes) option" where
  "write_locals [] out = Some ([], out)"
| "write_locals (e # es) out =
     (if length (ze_data e) > 0xffffffff \<or> length out > 0xffffffff \<or> length (ze_name e) > 0xffff then None
      else
        let e' = e\<lparr>ze_crc := crc32 (ze_data e), ze_offset := length out\<rparr>
        in map_option (\<lambda>(es', out'). (e' # es', out'))
             (write_locals es (out @ local_header e' @ ze_name e' @ ze_data e')))"

definition central_header :: "zip_entry \<Rightarrow> bytes" where
  "central_header e =
     le_out 4 0x02014b50 @ le_out 2 20 @ le_out 2 20 @ le_out 2 0 @ le_out 2 0 @ le_out 2 0 @ le_out 2 0 @
     le_out 4 (unat (ze_crc e)) @ le_out 4 (length (ze_data e)) @ le_out 4 (length (ze_data e)) @
     le_out 2 (length (ze_name e)) @ le_out 2 0 @ le_out 2 0 @ le_out 2 0 @ le_out 2 0 @ le_out 4 0 @
     le_out 4 (ze_offset e)"

definition end_record :: "nat \<Rightarrow> nat \<Rightarrow> nat \<Rightarrow> bytes" where
  "end_record count central_size central_offset =
     le_out 4 0x06054b50 @ le_out 2 0 @ le_out 2 0 @ le_out 2 count @ le_out 2 count @
     le_out 4 central_size @ le_out 4 central_offset @ le_out 2 0"

text \<open>\<open>central_offset\<close> and \<open>central_size\<close> are \<open>uint32_t\<close>.\<close>

definition write_zip :: "zip_entry list \<Rightarrow> bytes option" where
  "write_zip entries =
     (if length entries > 0xffff then None
      else map_option
        (\<lambda>(es, out).
           let central = concat (map (\<lambda>e. central_header e @ ze_name e) es);
               central_offset = length out mod 2 ^ 32;
               central_size = (length (out @ central) + (2 ^ 32 - central_offset)) mod 2 ^ 32
           in out @ central @ end_record (length es) central_size central_offset)
        (write_locals entries []))"

section \<open>Reading what was written\<close>

lemma rd_at:
  assumes "off = length a + j" "j + k \<le> length h"
  shows "rd k (a @ h @ b) off = rd k h j"
  using assms by (auto simp: rd_def)

lemma rd_le_out: "rd k (le_out k n @ b) 0 = Inr (n mod 256 ^ k)"
  by (simp add: rd_def)

lemma rd_skip: "length x \<le> j \<Longrightarrow> rd k (x @ b) j = rd k b (j - length x)"
  by (auto simp: rd_def)

lemma local_header_length [simp]: "length (local_header e) = 30"
  by (simp add: local_header_def)

lemma central_header_length [simp]: "length (central_header e) = 46"
  by (simp add: central_header_def)

lemma end_record_length [simp]: "length (end_record n c d) = 22"
  by (simp add: end_record_def)

lemma rd_local_header:
  "rd 4 (local_header e @ b) 0 = Inr 0x04034b50" "rd 2 (local_header e @ b) 26 = Inr (length (ze_name e) mod 65536)"
  "rd 2 (local_header e @ b) 28 = Inr 0"
  by (simp_all add: local_header_def rd_skip rd_le_out)

lemma rd_central_header:
  "rd 4 (central_header e @ b) 0 = Inr 0x02014b50"
  "rd 2 (central_header e @ b) 10 = Inr 0"
  "rd 4 (central_header e @ b) 16 = Inr (unat (ze_crc e))"
  "rd 4 (central_header e @ b) 20 = Inr (length (ze_data e) mod 2 ^ 32)"
  "rd 4 (central_header e @ b) 24 = Inr (length (ze_data e) mod 2 ^ 32)"
  "rd 2 (central_header e @ b) 28 = Inr (length (ze_name e) mod 65536)"
  "rd 2 (central_header e @ b) 30 = Inr 0" "rd 2 (central_header e @ b) 32 = Inr 0"
  "rd 4 (central_header e @ b) 42 = Inr (ze_offset e mod 2 ^ 32)"
  using unsigned_less [of "ze_crc e", where ?'a = nat]
  by (simp_all add: central_header_def rd_skip rd_le_out)

lemma rd_end_record:
  "rd 4 (end_record n c d) 0 = Inr 0x06054b50" "rd 2 (end_record n c d) 4 = Inr 0" "rd 2 (end_record n c d) 6 = Inr 0"
  "rd 2 (end_record n c d) 10 = Inr (n mod 65536)" "rd 4 (end_record n c d) 12 = Inr (c mod 2 ^ 32)"
  "rd 4 (end_record n c d) 16 = Inr (d mod 2 ^ 32)"
  by (simp_all add: end_record_def rd_skip rd_le_out)

definition entry_of :: "zip_entry \<Rightarrow> pth_entry" where
  "entry_of e =
     \<lparr>pe_name = ze_name e, pe_method = 0, pe_crc = unat (ze_crc e), pe_compressed = length (ze_data e),
      pe_uncompressed = length (ze_data e), pe_local = ze_offset e, pe_data = 0\<rparr>"

definition fits :: "zip_entry \<Rightarrow> bool" where
  "fits e \<longleftrightarrow> length (ze_name e) \<le> 65535 \<and> length (ze_data e) < 2 ^ 32 - 1 \<and> ze_offset e < 2 ^ 32 - 1"

lemma central_entry_written:
  assumes "fits e" "length A + 46 < 2 ^ 64" "pos = length A"
  shows "central_entry (A @ central_header e @ ze_name e @ B) i pos = Inr (entry_of e, pos + 46 + length (ze_name e))"
proof -
  have m: "length (ze_name e) mod 65536 = length (ze_name e)" "length (ze_data e) mod 4294967296 = length (ze_data e)"
    "ze_offset e mod 4294967296 = ze_offset e" "length (ze_data e) \<noteq> 0xffffffff" "ze_offset e \<noteq> 0xffffffff"
    using assms(1) by (simp_all add: fits_def)
  have w: "wrap64 (length A + 46) = length A + 46" using assms(2) by simp
  show ?thesis
    unfolding central_entry_def assms(3) w
    by (simp add: rd_skip rd_central_header m Let_def apply_zip64_extra_def extra_blocks.simps entry_of_def)
qed

abbreviation centrals :: "zip_entry list \<Rightarrow> bytes" where
  "centrals es \<equiv> concat (map (\<lambda>e. central_header e @ ze_name e) es)"

lemma central_entries_written:
  "list_all fits es \<Longrightarrow> length (A @ centrals es) < 2 ^ 64 \<Longrightarrow>
    central_entries (A @ centrals es @ B) (length es) i (length A) = Inr (map entry_of es)"
proof (induction es arbitrary: A i)
  case (Cons e es)
  have 1: "central_entry (A @ centrals (e # es) @ B) i (length A) = Inr (entry_of e, length A + 46 + length (ze_name e))"
    using central_entry_written [of e A "length A" "centrals es @ B" i] Cons.prems by simp
  have 2: "central_entries ((A @ central_header e @ ze_name e) @ centrals es @ B) (length es) (Suc i)
      (length (A @ central_header e @ ze_name e)) = Inr (map entry_of es)"
    by (rule Cons.IH) (use Cons.prems in auto)
  show ?case using 1 2 by (simp add: add.assoc)
qed simp

text \<open>The local headers: where each entry's header and data are.\<close>

definition placed :: "bytes \<Rightarrow> zip_entry \<Rightarrow> bool" where
  "placed file e \<longleftrightarrow> (\<exists>A B. file = A @ local_header e @ ze_name e @ ze_data e @ B \<and> ze_offset e = length A)"

definition opened :: "zip_entry \<Rightarrow> pth_entry" where
  "opened e = (entry_of e)\<lparr>pe_data := ze_offset e + 30 + length (ze_name e)\<rparr>"

lemma write_locals_spec:
  "write_locals es out = Some (es', out') \<Longrightarrow>
    (\<exists>x. out' = out @ x) \<and> map ze_name es' = map ze_name es \<and> map ze_data es' = map ze_data es \<and>
    (\<forall>e \<in> set es'. placed out' e \<and> ze_crc e = crc32 (ze_data e) \<and> length (ze_name e) \<le> 65535)"
proof (induction es out arbitrary: es' out' rule: write_locals.induct)
  case (2 e es out)
  define e' where "e' = e\<lparr>ze_crc := crc32 (ze_data e), ze_offset := length out\<rparr>"
  obtain es'' where w: "write_locals es (out @ local_header e' @ ze_name e' @ ze_data e') = Some (es'', out')"
    "es' = e' # es''" "\<not> (length (ze_data e) > 0xffffffff \<or> length out > 0xffffffff \<or> length (ze_name e) > 0xffff)"
    using 2(2) by (auto simp: e'_def Let_def split: if_splits)
  obtain x where x: "out' = (out @ local_header e' @ ze_name e' @ ze_data e') @ x"
    "map ze_name es'' = map ze_name es" "map ze_data es'' = map ze_data es"
    "\<forall>e \<in> set es''. placed out' e \<and> ze_crc e = crc32 (ze_data e) \<and> length (ze_name e) \<le> 65535"
    using 2(1) [OF w(3) e'_def] w(1) by (auto simp: e'_def)
  have "placed out' e'" unfolding placed_def using x(1) by (intro exI [of _ out] exI [of _ x]) (simp add: e'_def)
  then show ?case using x w(2,3) by (auto simp: e'_def)
qed simp

lemma placed_append: "placed file e \<Longrightarrow> placed (file @ x) e"
  unfolding placed_def by (metis append_assoc)

lemma data_offset_written:
  assumes "placed file e" "length file < 2 ^ 64" "length (ze_name e) \<le> 65535"
  shows "data_offset file (entry_of e) = Inr (opened e)" "length file < 2 ^ 63 \<Longrightarrow> chunked_data_offset file (entry_of e) = Inr (opened e)"
proof -
  obtain A B where f: "file = A @ local_header e @ ze_name e @ ze_data e @ B" "ze_offset e = length A"
    using assms(1) by (auto simp: placed_def)
  have m: "length (ze_name e) mod 65536 = length (ze_name e)" using assms(3) by simp
  have w: "wrap64 (length A + 30) = length A + 30"
    "wrap64 (length A + 30 + length (ze_name e) + length (ze_data e)) = length A + 30 + length (ze_name e) + length (ze_data e)"
    using assms(2) f(1) by simp_all
  show "data_offset file (entry_of e) = Inr (opened e)"
    unfolding data_offset_def f(1) using f(2) w m by (simp add: entry_of_def opened_def rd_skip rd_local_header Let_def)
  assume "length file < 2 ^ 63"
  then have "stream_read file (length A) 30 = Inr (local_header e)" by (simp add: stream_read_def f(1))
  then show "chunked_data_offset file (entry_of e) = Inr (opened e)"
    unfolding chunked_data_offset_def using f m rd_local_header [of e "[]"]
    by (simp add: entry_of_def opened_def Let_def)
qed

lemma map_res_Inr_map: "(\<And>x. x \<in> set xs \<Longrightarrow> f (g x) = Inr (h x)) \<Longrightarrow> map_res f (map g xs) = Inr (map h xs)"
  by (induction xs) auto

lemma placed_fits:
  assumes "placed file e" "length file < 2 ^ 32 - 1" "length (ze_name e) \<le> 65535"
  shows "fits e"
  using assms by (auto simp: placed_def fits_def)

lemma find_eocd_written: "find_eocd (A @ end_record n c d) = Inr (length A)"
  by (simp add: find_eocd_def scan_eocd.simps rd_skip rd_end_record)

lemma write_zip_parts:
  assumes "write_zip es = Some file" "length file < 2 ^ 32 - 1"
  obtains es' out where "write_locals es [] = Some (es', out)"
    "file = out @ centrals es' @ end_record (length es) (length (centrals es')) (length out)"
    "map ze_name es' = map ze_name es" "map ze_data es' = map ze_data es" "length es' = length es"
    "\<forall>e \<in> set es'. placed file e \<and> fits e \<and> ze_crc e = crc32 (ze_data e) \<and> length (ze_name e) \<le> 65535"
    "\<forall>e \<in> set es'. pe_data (opened e) + length (ze_data e) \<le> length file"
proof -
  obtain es' out where w: "write_locals es [] = Some (es', out)"
    and f: "file = (let central_offset = length out mod 2 ^ 32;
               central_size = (length (out @ centrals es') + (2 ^ 32 - central_offset)) mod 2 ^ 32
           in out @ centrals es' @ end_record (length es') central_size central_offset)"
    using assms(1) by (auto simp: write_zip_def Let_def split: if_splits)
  have S: "map ze_name es' = map ze_name es" "map ze_data es' = map ze_data es"
    "\<forall>e \<in> set es'. placed out e \<and> ze_crc e = crc32 (ze_data e) \<and> length (ze_name e) \<le> 65535"
    using write_locals_spec [OF w] by auto
  have n: "length es' = length es" using S(1) by (metis length_map)
  have small: "length out + length (centrals es') < 2 ^ 32 - 1" using assms(2) f by (simp add: Let_def)
  then have o: "length out mod 2 ^ 32 = length out" by simp
  have "(length (out @ centrals es') + (2 ^ 32 - length out)) mod 2 ^ 32 = (2 ^ 32 + length (centrals es')) mod 2 ^ 32"
    using small by simp
  also have "\<dots> = length (centrals es')" using small by simp
  finally have c: "(length (out @ centrals es') + (2 ^ 32 - length out)) mod 2 ^ 32 = length (centrals es')" .
  have fl: "file = out @ centrals es' @ end_record (length es) (length (centrals es')) (length out)"
    unfolding f Let_def o c n ..
  have p: "placed file e" if "e \<in> set es'" for e
    using S(3) that placed_append [of out e] unfolding fl by blast
  have "pe_data (opened e) + length (ze_data e) \<le> length file" if "e \<in> set es'" for e
    using p [OF that] by (auto simp: placed_def opened_def)
  then show thesis using that [OF w fl S(1,2) n] S(3) p placed_fits [OF p assms(2)] by blast
qed

text \<open>
  C17. What the writer writes both readers open: an archive of fewer than 65535 entries and less
  than four gigabytes is opened, from memory and in chunks, to stored entries with the written
  names in the written order and the CRC of their data, and reading an entry gives back its data.
\<close>

theorem write_zip_opens:
  assumes "write_zip es = Some file" "length file < 2 ^ 32 - 1" "length es < 65535"
  shows "\<exists>ar. open_archive file chunk_load = Inr ar \<and> ar_file ar = file \<and> ar_chunked ar = chunk_load \<and>
    map pe_name (ar_entries ar) = map ze_name es \<and>
    map pe_crc (ar_entries ar) = map (\<lambda>e. unat (crc32 (ze_data e))) es \<and>
    map (read_stored_entry ar) (ar_entries ar) = map (\<lambda>e. Inr (ze_data e)) es"
proof -
  obtain es' out where wl: "write_locals es [] = Some (es', out)" and
    w: "file = out @ centrals es' @ end_record (length es) (length (centrals es')) (length out)"
    "map ze_name es' = map ze_name es" "map ze_data es' = map ze_data es" "length es' = length es"
    "\<forall>e \<in> set es'. placed file e \<and> fits e \<and> ze_crc e = crc32 (ze_data e) \<and> length (ze_name e) \<le> 65535"
    "\<forall>e \<in> set es'. pe_data (opened e) + length (ze_data e) \<le> length file"
    by (rule write_zip_parts [OF assms(1,2)])
  let ?c = "centrals es'"
  let ?fin = "end_record (length es) (length ?c) (length out)"
  have len: "length file = length out + length ?c + 22" by (simp add: w(1))
  have small: "length es mod 65536 = length es" "length ?c mod 4294967296 = length ?c" "length out mod 4294967296 = length out"
    "length es \<noteq> 65535" "length ?c \<noteq> 4294967295" "length out \<noteq> 4294967295"
    using assms(2,3) len by simp_all
  have fits: "list_all fits es'" using w(5) by (simp add: list_all_iff)
  have ent: "central_entries file (length es) 0 (length out) = Inr (map entry_of es')"
    using central_entries_written [OF fits, of out ?fin 0] assms(2) w(4) len unfolding w(1) by simp
  have cent: "central_entries ?c (length es) 0 0 = Inr (map entry_of es')"
    using central_entries_written [OF fits, of "[]" "[]" 0] assms(2) w(4) len by simp
  have doff: "compute_data_offsets file (map entry_of es') = Inr (map opened es')"
    unfolding compute_data_offsets_def
    by (rule map_res_Inr_map, rule data_offset_written(1)) (use w(5) assms(2) in auto)
  have cdoff: "map_res (chunked_data_offset file) (map entry_of es') = Inr (map opened es')"
    by (rule map_res_Inr_map, rule data_offset_written(2)) (use w(5) assms(2) in auto)
  have mem: "open_in_memory file = Inr \<lparr>ar_file = file, ar_chunked = False, ar_entries = map opened es'\<rparr>"
  proof -
    have "find_eocd file = Inr (length out + length ?c)" using find_eocd_written [of "out @ ?c"] by (simp add: w(1))
    moreover have "rd k file (length out + length ?c + j) = rd k ?fin j" for k j
      by (simp add: w(1) rd_skip)
    ultimately show ?thesis
      using ent doff len assms(2) by (simp add: open_in_memory_def rd_end_record small)
  qed
  have chunk: "open_chunked file = Inr \<lparr>ar_file = file, ar_chunked = True, ar_entries = map opened es'\<rparr>"
  proof -
    let ?t = "min (length file) (20 + 22 + 65535)"
    obtain A where t: "stream_read file (length file - ?t) ?t = Inr (A @ ?fin)"
    proof
      have "drop (length file - ?t) file = drop (length file - ?t) (out @ ?c) @ ?fin"
        unfolding w(1) using len by simp
      then show "stream_read file (length file - ?t) ?t = Inr (drop (length file - ?t) (out @ ?c) @ ?fin)"
        using len assms(2) by (auto simp: stream_read_def)
    qed
    have d: "chunked_directory file (A @ ?fin) (length A) = Inr (length es, length ?c, length out)"
      by (simp add: chunked_directory_def rd_skip rd_end_record small)
    have cd: "stream_read file (length out) (length ?c) = Inr ?c"
      using len assms(2) by (simp add: stream_read_def w(1))
    show ?thesis
      using t d cd cent cdoff len by (simp add: open_chunked_def find_eocd_written Let_def)
  qed
  have rd: "read_stored_entry ar (opened e) = Inr (ze_data e)"
    if e: "e \<in> set es'" and ar: "ar_file ar = file" for e ar
  proof -
    obtain A B where f: "file = A @ local_header e @ ze_name e @ ze_data e @ B" "ze_offset e = length A"
      using bspec [OF w(5) e] unfolding placed_def by blast
    have "pe_data (opened e) = length A + 30 + length (ze_name e)" using f(2) by (simp add: opened_def)
    moreover have "take (length (ze_data e)) (drop (length A + 30 + length (ze_name e)) file) = ze_data e"
      by (simp add: f(1))
    ultimately show ?thesis
      using bspec [OF w(6) e] ar assms(2) f(1)
      by (auto simp: read_stored_entry_def read_stored_entry_range_def stream_read_def opened_def entry_of_def is_stored_def Let_def)
  qed
  let ?ar = "\<lparr>ar_file = file, ar_chunked = chunk_load, ar_entries = map opened es'\<rparr>"
  have "map pe_crc (map opened es') = map (\<lambda>e. unat (crc32 (ze_data e))) es'"
    using w(5) by (simp add: opened_def entry_of_def)
  also have "\<dots> = map (\<lambda>d. unat (crc32 d)) (map ze_data es')" by simp
  also have "\<dots> = map (\<lambda>e. unat (crc32 (ze_data e))) es" by (simp add: w(3))
  finally have crc: "map pe_crc (ar_entries ?ar) = map (\<lambda>e. unat (crc32 (ze_data e))) es" by simp
  have "map (read_stored_entry ?ar) (map opened es') = map (\<lambda>e. Inr (ze_data e)) es'"
    using rd [of _ ?ar] by simp
  also have "\<dots> = map Inr (map ze_data es')" by simp
  also have "\<dots> = map (\<lambda>e. Inr (ze_data e)) es" by (simp add: w(3))
  finally have "map (read_stored_entry ?ar) (ar_entries ?ar) = map (\<lambda>e. Inr (ze_data e)) es" by simp
  moreover have "map pe_name (ar_entries ?ar) = map ze_name es"
    using w(2) by (simp add: opened_def entry_of_def comp_def)
  moreover have "open_archive file chunk_load = Inr ?ar"
    using mem chunk by (cases chunk_load) (simp_all add: open_archive_def)
  ultimately show ?thesis using crc by (intro exI [of _ ?ar]) simp
qed

section \<open>Witnesses\<close>

definition demo_zip :: "zip_entry list" where
  "demo_zip = [zip_entry [97] [1, 2, 3], zip_entry [98, 47] [], zip_entry [99] [255]]"

lemma demo_zip_written: "\<exists>file. write_zip demo_zip = Some file \<and> length file < 2 ^ 32 - 1"
  by (simp add: write_zip_def demo_zip_def zip_entry_def Let_def)

theorem write_zip_opens_witness:
  "\<exists>ar. open_archive (the (write_zip demo_zip)) True = Inr ar \<and>
     map (read_stored_entry ar) (ar_entries ar) = [Inr [1, 2, 3], Inr [], Inr [255]]"
proof -
  obtain z where "write_zip demo_zip = Some z" "length z < 2 ^ 32 - 1" using demo_zip_written by blast
  from write_zip_opens [OF this, of True] this(1) show ?thesis by (auto simp: demo_zip_def zip_entry_def)
qed

theorem chunked_reads_in_bounds_witness:
  "open_chunked wrapping_archive \<noteq> Inl UndefinedRead \<and>
   (\<exists>ar. open_chunked (the (write_zip demo_zip)) = Inr ar \<and>
      list_all (\<lambda>e. pe_data e + pe_compressed e \<le> length (the (write_zip demo_zip))) (ar_entries ar))"
proof -
  obtain z where z: "write_zip demo_zip = Some z" "length z < 2 ^ 32 - 1" using demo_zip_written by blast
  obtain ar where "open_chunked z = Inr ar"
    using write_zip_opens [OF z, of True] by (auto simp: demo_zip_def open_archive_def)
  moreover have "length wrapping_archive < 2 ^ 63" by (simp add: wrapping_archive_def)
  ultimately show ?thesis
    using chunked_reads_in_bounds [of wrapping_archive] chunked_reads_in_bounds [of z] z by auto
qed

end
