(* ===== verification/PickleTypes.thy ===== *)
theory PickleTypes
  imports Pickle
begin

text \<open>
  The values on the stack of the pickle interpreter are well typed, and every opcode keeps them so.
\<close>

section \<open>Well-typed values\<close>

text \<open>
  The types of the values: integers of 64 bits, storage sizes and offsets of \<open>uint64_t\<close>, tensors
  whose shape and stride have the same rank.
\<close>

definition int64 :: "int \<Rightarrow> bool" where
  "int64 i \<longleftrightarrow> - (2 ^ 63) \<le> i \<and> i < 2 ^ 63"

definition wf_record :: "tensor_record \<Rightarrow> bool" where
  "wf_record t \<longleftrightarrow>
     length (tr_shape t) = length (tr_stride t) \<and> tr_size t < 2 ^ 64 \<and> tr_offset t < 2 ^ 64 \<and>
     list_all int64 (tr_shape t) \<and> list_all int64 (tr_stride t)"

fun wf_value :: "pvalue \<Rightarrow> bool" where
  "wf_value (VInt i) = int64 i"
| "wf_value (VTuple vs) = list_all wf_value vs"
| "wf_value (VStorage key n dt) = (n < 2 ^ 64)"
| "wf_value (VTensor t) = wf_record t"
| "wf_value _ = True"

definition wf_state :: "pickle_state \<Rightarrow> bool" where
  "wf_state ps \<longleftrightarrow>
     list_all wf_value (ps_stack ps) \<and> (\<forall>i v. ps_memo ps i = Some v \<longrightarrow> wf_value v) \<and> list_all wf_record (ps_tensors ps)"

lemma wf_stack: "wf_state ps \<Longrightarrow> list_all wf_value (ps_stack ps)"
  by (simp add: wf_state_def)

lemma wf_stackI: "wf_state ps \<Longrightarrow> list_all wf_value st \<Longrightarrow> wf_state (ps\<lparr>ps_stack := st\<rparr>)"
  by (simp add: wf_state_def)

lemma push_wf: "wf_state ps \<Longrightarrow> wf_value v \<Longrightarrow> wf_state (push v ps)"
  by (simp add: push_def wf_state_def)

lemma wf_rest [simp]: "wf_state (ps\<lparr>ps_rest := bs\<rparr>) = wf_state ps" "wf_state (ps\<lparr>ps_stopped := b\<rparr>) = wf_state ps"
  by (simp_all add: wf_state_def)

subsection \<open>Operands\<close>

lemma take_bytes_wf: "take_bytes n ps = Inr (bs, ps') \<Longrightarrow> wf_state ps' = wf_state ps \<and> length bs = n"
  by (auto simp: take_bytes_def split: if_splits)

lemma read_number_wf: "read_number k ps = Inr (n, ps') \<Longrightarrow> wf_state ps' = wf_state ps \<and> n < 256 ^ k"
  unfolding read_number_def using le_value_less by (auto dest!: take_bytes_wf)

lemma signed_value_int64:
  assumes "n < 256 ^ k" "k \<le> 8"
  shows "int64 (signed_value k n)"
proof -
  define m where "m = (256 :: nat) ^ k"
  have "m \<le> 256 ^ 8" unfolding m_def by (rule power_increasing) (use assms(2) in auto)
  moreover have "signed_value k n = (if 2 * n \<ge> m then int n - int m else int n)" by (simp add: signed_value_def m_def)
  moreover have "n < m" using assms(1) by (simp add: m_def)
  ultimately show ?thesis by (simp add: int64_def)
qed

lemma read_i32_wf: "read_i32 ps = Inr (i, ps') \<Longrightarrow> wf_state ps' = wf_state ps \<and> int64 i"
  unfolding read_i32_def by (auto dest!: read_number_wf intro: signed_value_int64)

lemma int64_small: "n < 256 \<Longrightarrow> int64 (int n)" "n < 65536 \<Longrightarrow> int64 (int n)"
  by (simp_all add: int64_def)

lemma read_long_wf:
  assumes "read_long n ps = Inr (i, ps')"
  shows "wf_state ps' = wf_state ps \<and> int64 i"
proof (cases "n = 0")
  case True
  then show ?thesis using assms by (auto simp: read_long_def int64_def)
next
  case False
  then obtain v where "read_number n ps = Inr (v, ps')" "i = signed_value n v" "n \<le> 8"
    using assms by (auto simp: read_long_def split: if_splits)
  then show ?thesis using read_number_wf signed_value_int64 by blast
qed

lemma read_line_wf: "wf_state (snd (read_line ps)) = wf_state ps"
  by (simp add: read_line_def Let_def)

subsection \<open>Opcodes\<close>

lemma push_global_wf: "wf_state ps \<Longrightarrow> push_global ps = Inr ps' \<Longrightarrow> wf_state ps'"
  using read_line_wf [of ps] read_line_wf [of "snd (read_line ps)"]
  by (auto simp: push_global_def Let_def case_prod_unfold intro!: push_wf split: if_splits)

lemma list_all_take_drop: "list_all P xs \<Longrightarrow> list_all P (take n xs)" "list_all P xs \<Longrightarrow> list_all P (drop n xs)"
  by (auto simp: list_all_iff dest: in_set_takeD in_set_dropD)

lemma pop_mark_wf:
  assumes "list_all P st" "pop_mark st = Some (items, below)"
  shows "list_all P items" "list_all P below"
proof -
  have e: "items = rev (takeWhile (\<lambda>v. v \<noteq> VMark) st)" "below = tl (dropWhile (\<lambda>v. v \<noteq> VMark) st)"
    using assms(2) by (simp_all add: pop_mark_def split: if_splits)
  have "set items \<subseteq> set st" unfolding e by (auto dest: set_takeWhileD)
  then show "list_all P items" using assms(1) by (auto simp: list_all_iff)
  have "set below \<subseteq> set st" unfolding e by (metis dropWhile_eq_drop set_drop_subset tl_drop drop_Suc)
  then show "list_all P below" using assms(1) by (auto simp: list_all_iff)
qed

lemma make_tuple_n_wf: "wf_state ps \<Longrightarrow> make_tuple_n n ps = Inr ps' \<Longrightarrow> wf_state ps'"
  using wf_stack [of ps] list_all_take_drop [of wf_value "ps_stack ps" n]
  by (auto simp: make_tuple_n_def intro!: push_wf wf_stackI split: if_splits)

lemma make_tuple_from_mark_wf:
  assumes "wf_state ps" "make_tuple_from_mark ps = Inr ps'"
  shows "wf_state ps'"
proof -
  obtain items below where "pop_mark (ps_stack ps) = Some (items, below)"
    "ps' = push (VTuple items) (ps\<lparr>ps_stack := below\<rparr>)"
    using assms(2) by (auto simp: make_tuple_from_mark_def split: option.splits)
  then show ?thesis using pop_mark_wf [OF wf_stack [OF assms(1)]] assms(1) by (simp add: push_wf wf_stackI)
qed

lemma to_u64_less: "to_u64 i < 2 ^ 64"
  by (simp add: to_u64_def nat_less_iff)

lemma make_persistent_id_wf:
  assumes "wf_state ps" "make_persistent_id ps = Inr ps'"
  shows "wf_state ps'"
proof -
  obtain v st where st: "ps_stack ps = v # st"
    using assms(2) by (cases "ps_stack ps") (auto simp: make_persistent_id_def)
  obtain key n dt where "ps' = push (VStorage key (to_u64 n) dt) (ps\<lparr>ps_stack := st\<rparr>)"
    using assms(2) unfolding make_persistent_id_def st
    by (cases v) (auto split: list.split_asm pvalue.split_asm if_split_asm option.split_asm)
  moreover have "wf_value (VStorage key (to_u64 n) dt)" using to_u64_less by simp
  ultimately show ?thesis using wf_stack [OF assms(1)] assms(1) by (auto simp: st intro!: push_wf wf_stackI)
qed

lemma tuple_ints_wf: "tuple_ints vs = Some is \<Longrightarrow> list_all wf_value vs \<Longrightarrow> list_all int64 is"
  by (induction vs arbitrary: "is" rule: tuple_ints.induct) auto

lemma tuple_to_ints_wf: "list_all wf_value vs \<Longrightarrow> list_all int64 (tuple_to_ints (VTuple vs))"
  using tuple_ints_wf [of vs] by (simp add: tuple_to_ints_def split: option.splits)

lemma rebuild_tensor_wf:
  assumes "rebuild_tensor args = Inr t" "list_all wf_value args"
  shows "wf_record t"
proof -
  obtain key n dt off shape stride more where a: "args = VStorage key n dt # VInt off # VTuple shape # VTuple stride # more"
    using assms(1) unfolding rebuild_tensor_def by (auto split: list.split_asm pvalue.split_asm)
  have "list_all int64 (tuple_to_ints (VTuple shape))" "list_all int64 (tuple_to_ints (VTuple stride))" "n < 2 ^ 64"
    using assms(2) tuple_to_ints_wf by (simp_all add: a)
  then show ?thesis
    using assms(1) to_u64_less [of off] unfolding a by (auto simp: rebuild_tensor_def Let_def wf_record_def split: if_split_asm)
qed

lemma reduce_wf:
  assumes "wf_state ps" "reduce ps = Inr ps'"
  shows "wf_state ps'"
proof -
  obtain a c st where st: "ps_stack ps = a # c # st"
    using assms(2) by (auto simp: reduce_def split: list.splits)
  obtain m n items where v: "c = VGlobal m n" "a = VTuple items"
    using assms(2) unfolding reduce_def st by (cases c; cases a) auto
  have wf: "list_all wf_value items" "wf_state (ps\<lparr>ps_stack := st\<rparr>)"
    using wf_stack [OF assms(1)] assms(1) by (simp_all add: st v wf_stackI)
  show ?thesis
    using assms(2) rebuild_tensor_wf [OF _ wf(1)] push_wf [OF wf(2)] unfolding reduce_def st v
    by (auto simp: Let_def split: if_split_asm)
qed

lemma tensor_items_wf: "tensor_items vs = Some ts \<Longrightarrow> list_all wf_value vs \<Longrightarrow> list_all wf_record ts"
  by (induction vs arbitrary: ts rule: tensor_items.induct) (auto simp: wf_record_def)

lemma setitems_wf:
  assumes "wf_state ps" "setitems ps = Inr ps'"
  shows "wf_state ps'"
proof -
  obtain items container below where p: "pop_mark (ps_stack ps) = Some (items, container # below)"
    using assms(2) by (auto simp: setitems_def split: option.splits list.splits)
  define ts where "ts = (case tensor_items items of Some ts \<Rightarrow> ts | None \<Rightarrow> [])"
  have wf: "list_all wf_value items" "wf_value container" "list_all wf_value below"
    using pop_mark_wf [OF wf_stack [OF assms(1)] p] by simp_all
  have "list_all wf_record ts" using tensor_items_wf [OF _ wf(1)] by (auto simp: ts_def split: option.split)
  moreover have "ps' = push container (ps\<lparr>ps_stack := below, ps_tensors := ps_tensors ps @ ts\<rparr>)"
    using assms(2) unfolding setitems_def p ts_def by (auto split: if_split_asm)
  ultimately show ?thesis using wf assms(1) by (simp add: wf_state_def push_def)
qed

lemma small_steps_wf:
  "wf_state ps \<Longrightarrow> setitem ps = Inr ps' \<Longrightarrow> wf_state ps'" "wf_state ps \<Longrightarrow> build ps = Inr ps' \<Longrightarrow> wf_state ps'"
  "wf_state ps \<Longrightarrow> memo_put i ps = Inr ps' \<Longrightarrow> wf_state ps'" "wf_state ps \<Longrightarrow> memo_get i ps = Inr ps' \<Longrightarrow> wf_state ps'"
  by (auto simp: setitem_def build_def memo_put_def memo_get_def wf_state_def push_def
      split: list.splits if_split_asm option.splits)

lemmas step_wf = push_global_wf make_tuple_n_wf make_tuple_from_mark_wf make_persistent_id_wf reduce_wf setitems_wf
  small_steps_wf

lemma dispatch_wf:
  assumes "wf_state ps" "dispatch op ps = Inr ps'"
  shows "wf_state ps'"
  using assms(2) assms(1) unfolding dispatch_def
  by (auto simp: int64_small intro!: push_wf split: if_split_asm
      dest!: take_bytes_wf read_number_wf read_i32_wf read_long_wf dest: step_wf)

lemma parse_from_wf: "wf_state ps \<Longrightarrow> parse_from ps = Inr ts \<Longrightarrow> list_all wf_record ts"
proof (induction ps rule: parse_from.induct)
  case (1 ps)
  obtain op rest ps' where p: "ps_rest ps = op # rest" "dispatch op (ps\<lparr>ps_rest := rest\<rparr>) = Inr ps'"
    using 1(3) by (subst (asm) parse_from.simps) (auto split: list.splits sum.splits)
  have "wf_state ps'" using dispatch_wf [OF _ p(2)] 1(2) by simp
  then show ?case using 1(1) [OF p] 1(3) p
    by (subst (asm) (2) parse_from.simps) (auto simp: wf_state_def split: if_splits)
qed

text \<open>
  C34. What the pickle interpreter returns is well typed: shape and stride of every tensor record
  have the same rank and hold integers of 64 bits, and its size and offset are below two to the 64,
  whatever the bytes.
\<close>

theorem parsed_records_typed:
  assumes "parse_pickle bytes = Inr ts"
  shows "list_all (\<lambda>t. length (tr_shape t) = length (tr_stride t) \<and> tr_size t < 2 ^ 64 \<and> tr_offset t < 2 ^ 64 \<and>
    list_all int64 (tr_shape t) \<and> list_all int64 (tr_stride t)) ts"
proof -
  have "list_all wf_record ts"
    by (rule parse_from_wf [OF _ assms [unfolded parse_pickle_def]]) (simp add: wf_state_def)
  then show ?thesis by (simp add: list_all_iff wf_record_def)
qed

end
