(* ===== verification/PthWriter.thy ===== *)
theory PthWriter
  imports PthZip PthTensor PickleTypes
begin

text \<open>
  Writing a checkpoint (\<open>write_pth\<close> of \<open>src/io/pth_writer.cpp\<close>): the pickle program of the
  tensor records, the entries of the archive, and the self-check before the file is renamed to its
  name. The file system is a map from paths to contents; creating, writing and renaming succeed.
\<close>

section \<open>The pickle program\<close>

definition pickle_string :: "bytes \<Rightarrow> bytes" where
  "pickle_string s = 88 # le_out 4 (length s) @ s"

definition pickle_int :: "int \<Rightarrow> bytes" where
  "pickle_int i =
     (if 0 \<le> i \<and> i \<le> 255 then [75, of_int i]
      else if 0 \<le> i \<and> i \<le> 65535 then 77 # le_out 2 (nat i)
      else 74 # le_out 4 (nat (i mod 2 ^ 32)))"

definition pickle_global :: "string \<Rightarrow> string \<Rightarrow> bytes" where
  "pickle_global module name = 99 # bytes_of module @ [10] @ bytes_of name @ [10]"

record write_tensor =
  wt_name :: bytes
  wt_shape :: "int list"
  wt_fp16 :: bool
  wt_bf16 :: bool
  wt_data :: bytes

datatype write_error =
    AmbiguousDtype | InvalidShape | DataSizeMismatch | ZipLimits | SelfCheckFailed | SelfCheckCount

text \<open>The number of elements; \<open>None\<close>: a dimension is not positive or the product exceeds \<open>INT32_MAX\<close>.\<close>

fun shape_count :: "nat \<Rightarrow> int list \<Rightarrow> nat option" where
  "shape_count n [] = Some n"
| "shape_count n (d # ds) =
     (if d \<le> 0 \<or> n > 0x7fffffff div nat d then None else shape_count (n * nat d) ds)"

text \<open>The contiguous strides and the final \<open>step\<close>.\<close>

fun shape_strides :: "int list \<Rightarrow> int list \<times> int" where
  "shape_strides [] = ([], 1)"
| "shape_strides (d # ds) = (let (stride, step) = shape_strides ds in (step # stride, step * d))"

definition storage_name :: "write_tensor \<Rightarrow> string" where
  "storage_name t = (if wt_bf16 t then ''BFloat16Storage'' else if wt_fp16 t then ''HalfStorage'' else ''FloatStorage'')"

definition element_size :: "write_tensor \<Rightarrow> nat" where
  "element_size t = (if wt_fp16 t \<or> wt_bf16 t then 2 else 4)"

definition tensor_program :: "nat \<Rightarrow> write_tensor \<Rightarrow> nat \<Rightarrow> bytes" where
  "tensor_program i t n =
     pickle_string (wt_name t) @ pickle_global ''torch._utils'' ''_rebuild_tensor_v2'' @ [40, 40] @
     pickle_string (bytes_of ''storage'') @ pickle_global ''torch'' (storage_name t) @
     pickle_string (bytes_of (dec_string i)) @ pickle_string (bytes_of ''cpu'') @ pickle_int (int n) @ [116, 81] @
     pickle_int 0 @ [40] @ concat (map pickle_int (wt_shape t)) @ [116] @
     [40] @ concat (map pickle_int (fst (shape_strides (wt_shape t)))) @ [116, 0x89, 125, 116, 82]"

definition data_entry :: "nat \<Rightarrow> write_tensor \<Rightarrow> zip_entry" where
  "data_entry i t = zip_entry (bytes_of ''archive/data/'' @ bytes_of (dec_string i)) (wt_data t)"

text \<open>The loop over the tensors from the \<open>i\<close>-th on, with the program and the entries so far.\<close>

fun write_tensors :: "nat \<Rightarrow> write_tensor list \<Rightarrow> bytes \<Rightarrow> zip_entry list \<Rightarrow> write_error + bytes \<times> zip_entry list" where
  "write_tensors i [] p entries = Inr (p, entries)"
| "write_tensors i (t # ts) p entries =
     (if wt_fp16 t \<and> wt_bf16 t then Inl AmbiguousDtype
      else case shape_count 1 (wt_shape t) of
             None \<Rightarrow> Inl InvalidShape
           | Some n \<Rightarrow>
               if length (wt_data t) \<noteq> n * element_size t then Inl DataSizeMismatch
               else write_tensors (Suc i) ts (p @ tensor_program i t n) (entries @ [data_entry i t]))"

type_synonym files = "string \<Rightarrow> bytes option"

definition write_pth ::
  "string \<Rightarrow> write_tensor list \<Rightarrow> bytes \<Rightarrow> bytes \<Rightarrow> files \<Rightarrow> write_error option \<times> files" where
  "write_pth path ts adapter_manifest manifest_entry fs =
     (case write_tensors 0 ts [0x80, 2, 125, 40] [] of
        Inl e \<Rightarrow> (Some e, fs)
      | Inr (p, entries) \<Rightarrow>
          let all_entries = entries @ [zip_entry (bytes_of ''archive/data.pkl'') (p @ [117, 46]),
                zip_entry (bytes_of ''archive/byteorder'') (bytes_of ''little''),
                zip_entry (bytes_of ''archive/version'') (bytes_of ''3'' @ [10])] @
                (if adapter_manifest = [] then [] else [zip_entry manifest_entry adapter_manifest]);
              temp = path @ ''.tmp''
          in (case write_zip all_entries of
                None \<Rightarrow> (Some ZipLimits, fs)
              | Some file \<Rightarrow>
                  let fs1 = fs(temp \<mapsto> file) in
                  (case open_archive file False of
                     Inl _ \<Rightarrow> (Some SelfCheckFailed, fs1)
                   | Inr ar \<Rightarrow>
                       (case parse_pth_tensor_records ar of
                          Inl _ \<Rightarrow> (Some SelfCheckCount, fs1)
                        | Inr records \<Rightarrow>
                            if length records \<noteq> length ts then (Some SelfCheckCount, fs1)
                            else (None, (fs1(path \<mapsto> file))(temp := None))))))"

section \<open>Running the program\<close>

definition pstate :: "bytes \<Rightarrow> pvalue list \<Rightarrow> tensor_record list \<Rightarrow> pickle_state" where
  "pstate bs st ts = \<lparr>ps_rest = bs, ps_stack = st, ps_memo = (\<lambda>_. None), ps_tensors = ts, ps_stopped = False\<rparr>"

lemma pstate_simps [simp]:
  "ps_rest (pstate bs st ts) = bs" "ps_stack (pstate bs st ts) = st" "ps_tensors (pstate bs st ts) = ts"
  "ps_stopped (pstate bs st ts) = False" "(pstate bs st ts)\<lparr>ps_rest := r\<rparr> = pstate r st ts"
  "(pstate bs st ts)\<lparr>ps_stack := s\<rparr> = pstate bs s ts" "push v (pstate bs st ts) = pstate bs (v # st) ts"
  "(pstate bs st ts)\<lparr>ps_tensors := u\<rparr> = pstate bs st u"
  by (simp_all add: pstate_def push_def)

lemma step_op:
  "dispatch op (pstate r st ts) = Inr (pstate r' st' ts') \<Longrightarrow>
     parse_from (pstate (op # r) st ts) = parse_from (pstate r' st' ts')"
  by (subst parse_from.simps) simp

lemma take_bytes_pstate [simp]:
  "take_bytes n (pstate bs st ts) = (if n > length bs then Inl Truncated else Inr (take n bs, pstate (drop n bs) st ts))"
  by (simp add: take_bytes_def)

lemma read_le_out [simp]: "read_number k (pstate (le_out k n @ r) st ts) = Inr (n mod 256 ^ k, pstate r st ts)"
  by (simp add: read_number_def)

lemma read_line_pstate [simp]:
  "10 \<notin> set l \<Longrightarrow> read_line (pstate (l @ 10 # r) st ts) = (l, pstate r st ts)"
proof -
  assume "10 \<notin> set l"
  then have "takeWhile (\<lambda>b. b \<noteq> 10) (l @ 10 # r) = l" by (induction l) auto
  then show ?thesis by (simp add: read_line_def)
qed

lemma run_string:
  "length s < 2 ^ 32 \<Longrightarrow> parse_from (pstate (pickle_string s @ r) st ts) = parse_from (pstate r (VString s # st) ts)"
  unfolding pickle_string_def append_Cons append_assoc by (rule step_op) (simp add: dispatch_def)

lemma run_global:
  assumes "10 \<notin> set (bytes_of m)" "10 \<notin> set (bytes_of n)" "m \<noteq> []" "n \<noteq> []"
  shows "parse_from (pstate (pickle_global m n @ r) st ts) = parse_from (pstate r (VGlobal (bytes_of m) (bytes_of n) # st) ts)"
proof -
  have "bytes_of m \<noteq> []" "bytes_of n \<noteq> []" using assms(3,4) by (simp_all add: bytes_of_def)
  then show ?thesis
    unfolding pickle_global_def append_Cons append_assoc append_Nil using assms(1,2)
    by (intro step_op) (simp add: dispatch_def push_global_def Let_def)
qed

lemma run_int:
  assumes "0 \<le> i" "i < 2 ^ 31"
  shows "parse_from (pstate (pickle_int i @ r) st ts) = parse_from (pstate r (VInt i # st) ts)"
proof -
  consider "i \<le> 255" | "255 < i" "i \<le> 65535" | "65535 < i" by linarith
  then show ?thesis
  proof cases
    case 1
    have "uint (word_of_int i :: byte) = i" using 1 assms(1) by (simp add: uint_word_of_int)
    then have "int (unat (word_of_int i :: byte)) = i" by (simp only: uint_nat)
    then show ?thesis unfolding pickle_int_def using 1 assms
      by (simp, intro step_op) (simp add: dispatch_def read_number_def)
  next
    case 2
    then show ?thesis unfolding pickle_int_def using assms
      by (simp, intro step_op) (simp add: dispatch_def)
  next
    case 3
    have "i mod 2 ^ 32 = i" using assms by simp
    then show ?thesis unfolding pickle_int_def using 3 assms
      by (simp, intro step_op) (simp add: dispatch_def read_i32_def signed_value_def)
  qed
qed

lemma run_ints:
  "list_all (\<lambda>i. 0 \<le> i \<and> i < 2 ^ 31) is \<Longrightarrow>
     parse_from (pstate (concat (map pickle_int is) @ r) st ts) = parse_from (pstate r (rev (map VInt is) @ st) ts)"
proof (induction "is" arbitrary: st)
  case (Cons i "is")
  then show ?case using run_int [of i] by simp
qed simp

lemma pop_mark_at: "VMark \<notin> set items \<Longrightarrow> pop_mark (rev items @ VMark # st) = Some (items, st)"
proof -
  assume m: "VMark \<notin> set items"
  have "takeWhile (\<lambda>v. v \<noteq> VMark) (xs @ VMark # st) = xs \<and> dropWhile (\<lambda>v. v \<noteq> VMark) (xs @ VMark # st) = VMark # st"
    if "VMark \<notin> set xs" for xs
    using that by (induction xs) auto
  from this [of "rev items"] m show ?thesis by (simp add: pop_mark_def)
qed

lemma run_tuple:
  "VMark \<notin> set items \<Longrightarrow>
     parse_from (pstate (116 # r) (rev items @ VMark # st) ts) = parse_from (pstate r (VTuple items # st) ts)"
  by (rule step_op) (simp add: dispatch_def make_tuple_from_mark_def pop_mark_at)

lemma run_mark: "parse_from (pstate (40 # r) st ts) = parse_from (pstate r (VMark # st) ts)"
  by (rule step_op) (simp add: dispatch_def)

text \<open>A tuple of integers.\<close>

lemma run_int_tuple:
  assumes "list_all (\<lambda>i. 0 \<le> i \<and> i < 2 ^ 31) is"
  shows "parse_from (pstate (40 # concat (map pickle_int is) @ 116 # r) st ts) = parse_from (pstate r (VTuple (map VInt is) # st) ts)"
proof -
  have "VMark \<notin> set (map VInt is)" by auto
  from run_tuple [OF this] show ?thesis by (simp add: run_mark run_ints [OF assms])
qed

definition written_dtype :: "write_tensor \<Rightarrow> dtype" where
  "written_dtype t = (if wt_bf16 t then BFloat16 else if wt_fp16 t then Float16 else Float32)"

definition written_record :: "nat \<Rightarrow> write_tensor \<Rightarrow> tensor_record" where
  "written_record i t =
     \<lparr>tr_name = wt_name t, tr_dtype = written_dtype t, tr_key = bytes_of (dec_string i),
      tr_size = length (wt_data t) div element_size t, tr_offset = 0, tr_shape = wt_shape t,
      tr_stride = fst (shape_strides (wt_shape t))\<rparr>"

lemma tuple_ints_VInt [simp]: "tuple_ints (map VInt is) = Some is"
  by (induction "is") auto

lemma bytes_of_eq_iff [simp]: "bytes_of s = bytes_of t \<longleftrightarrow> s = t"
proof -
  have "of_nat (of_char c) = (of_nat (of_char d) :: byte) \<longleftrightarrow> c = d" for c d
  proof -
    have "(of_char c :: nat) < 256" "(of_char d :: nat) < 256" by (simp_all add: nat_of_char_less_256)
    then show ?thesis using unat_of_nat_byte by (metis of_char_eq_iff)
  qed
  then show ?thesis by (simp add: bytes_of_def inj_map_eq_map inj_def)
qed

lemma storage_dtype_name: "storage_dtype (bytes_of ''torch'') (bytes_of (storage_name t)) = Some (written_dtype t)"
  by (simp add: storage_dtype_def storage_name_def written_dtype_def)

lemma no_newline:
  "10 \<notin> set (bytes_of ''torch'')" "10 \<notin> set (bytes_of ''torch._utils'')" "10 \<notin> set (bytes_of ''_rebuild_tensor_v2'')"
  "10 \<notin> set (bytes_of (storage_name t))"
  by (simp_all add: bytes_of_def storage_name_def)

lemma storage_name_nonempty: "storage_name t \<noteq> []"
  by (simp add: storage_name_def)

lemma dec_string_short: "length (dec_string i) \<le> Suc i"
proof (induction i rule: dec_string.induct)
  case (1 i)
  then show ?case by (subst dec_string.simps) (auto intro: le_trans)
qed

text \<open>The program of one tensor leaves its name and its record on the stack.\<close>

lemma run_tensor:
  assumes name: "length (wt_name t) < 2 ^ 32" and i: "i < 2 ^ 31" and n: "n < 2 ^ 31"
    and sh: "list_all (\<lambda>i. 0 \<le> i \<and> i < 2 ^ 31) (wt_shape t)"
    and st: "list_all (\<lambda>i. 0 \<le> i \<and> i < 2 ^ 31) (fst (shape_strides (wt_shape t)))"
      "length (fst (shape_strides (wt_shape t))) = length (wt_shape t)"
    and len: "length (wt_data t) = n * element_size t"
  shows "parse_from (pstate (tensor_program i t n @ r) stk ts) =
    parse_from (pstate r (VTensor ((written_record i t)\<lparr>tr_name := []\<rparr>) # VString (wt_name t) # stk) ts)"
proof -
  let ?key = "bytes_of (dec_string i)" and ?sh = "wt_shape t" and ?sd = "fst (shape_strides (wt_shape t))"
  let ?pid = "[VString (bytes_of ''storage''), VGlobal (bytes_of ''torch'') (bytes_of (storage_name t)), VString ?key,
    VString (bytes_of ''cpu''), VInt (int n)]"
  let ?storage = "VStorage ?key n (written_dtype t)"
  let ?args = "[?storage, VInt 0, VTuple (map VInt ?sh), VTuple (map VInt ?sd), VBool False, VDict]"
  let ?fn = "VGlobal (bytes_of ''torch._utils'') (bytes_of ''_rebuild_tensor_v2'')"
  let ?stk = "?fn # VString (wt_name t) # stk"
  have key: "length ?key < 2 ^ 32" using dec_string_short [of i] i by simp
  have pid: "parse_from (pstate (116 # 81 # r) (rev ?pid @ VMark # s) ts) = parse_from (pstate r (?storage # s) ts)" for r s
  proof -
    have "to_u64 (int n) = n" using n by (simp add: to_u64_def)
    then have "parse_from (pstate (81 # r) (VTuple ?pid # s) ts) = parse_from (pstate r (?storage # s) ts)"
      by (intro step_op) (simp add: dispatch_def make_persistent_id_def storage_dtype_name)
    then show ?thesis by (subst run_tuple) simp_all
  qed
  have fin: "parse_from (pstate (0x89 # 125 # 116 # 82 # r) (VTuple (map VInt ?sd) # VTuple (map VInt ?sh) # VInt 0 # ?storage # VMark # ?stk) ts) =
      parse_from (pstate r (VTensor ((written_record i t)\<lparr>tr_name := []\<rparr>) # VString (wt_name t) # stk) ts)"
  proof -
    have e: "0 < element_size t" by (simp add: element_size_def)
    have "parse_from (pstate (82 # r) (VTuple ?args # ?stk) ts) =
        parse_from (pstate r (VTensor ((written_record i t)\<lparr>tr_name := []\<rparr>) # VString (wt_name t) # stk) ts)"
      using st(2) len e
      by (intro step_op) (simp add: dispatch_def reduce_def rebuild_tensor_def Let_def tuple_to_ints_def to_u64_def written_record_def)
    moreover have "parse_from (pstate (116 # 82 # r) (rev ?args @ VMark # ?stk) ts) = parse_from (pstate (82 # r) (VTuple ?args # ?stk) ts)"
      by (rule run_tuple) simp
    moreover have "parse_from (pstate (0x89 # r') s ts) = parse_from (pstate r' (VBool False # s) ts)"
      "parse_from (pstate (125 # r') s ts) = parse_from (pstate r' (VDict # s) ts)" for r' s
      by (rule step_op, simp add: dispatch_def)+
    ultimately show ?thesis by simp
  qed
  have "parse_from (pstate (tensor_program i t n @ r) stk ts) =
      parse_from (pstate (40 # concat (map pickle_int ?sh) @ 116 # 40 # concat (map pickle_int ?sd) @ 116 # 0x89 # 125 # 116 # 82 # r)
        (VInt 0 # ?storage # VMark # ?stk) ts)"
    using pid [of "pickle_int 0 @ 40 # concat (map pickle_int ?sh) @ 116 # 40 # concat (map pickle_int ?sd) @ 116 # 0x89 # 125 # 116 # 82 # r"]
    unfolding tensor_program_def append_assoc append_Cons append_Nil
    using name key n by (simp add: run_string run_global run_int run_mark no_newline storage_name_nonempty)
  also have "\<dots> = parse_from (pstate (0x89 # 125 # 116 # 82 # r) (VTuple (map VInt ?sd) # VTuple (map VInt ?sh) # VInt 0 # ?storage # VMark # ?stk) ts)"
    by (simp only: run_int_tuple [OF sh] run_int_tuple [OF st(1)])
  finally show ?thesis unfolding fin .
qed

section \<open>Shapes and strides\<close>

lemma shape_count_spec:
  "shape_count n0 sh = Some n \<Longrightarrow> 1 \<le> n0 \<Longrightarrow> n0 < 2 ^ 31 \<Longrightarrow>
    list_all (\<lambda>d. 1 \<le> d \<and> d < 2 ^ 31) sh \<and> int n = int n0 * prod_list sh \<and> 1 \<le> n \<and> n < 2 ^ 31"
proof (induction n0 sh rule: shape_count.induct)
  case (2 n0 d ds)
  have d: "1 \<le> nat d" "n0 \<le> 0x7fffffff div nat d" "shape_count (n0 * nat d) ds = Some n"
    using 2(2) by (auto split: if_splits)
  then have m: "n0 * nat d \<le> 0x7fffffff" using le_trans [OF mult_le_mono1 div_times_less_eq_dividend] by blast
  moreover have "1 * nat d \<le> n0 * nat d" by (rule mult_le_mono1) (use 2(3) in simp)
  moreover have "nat d \<le> 0x7fffffff" using m \<open>1 * nat d \<le> n0 * nat d\<close> by linarith
  moreover have "1 * 1 \<le> n0 * nat d" by (rule mult_le_mono) (use 2(3) d in simp_all)
  ultimately have ih: "list_all (\<lambda>d. 1 \<le> d \<and> d < 2 ^ 31) ds" "int n = int (n0 * nat d) * prod_list ds" "1 \<le> n" "n < 2 ^ 31"
    using 2(1) [OF _ d(3)] 2(2) by (auto split: if_splits)
  have "int (nat d) = d" "1 \<le> d" "d < 2 ^ 31" using d(1) \<open>nat d \<le> 0x7fffffff\<close> by simp_all
  then show ?case using ih by (simp add: mult.assoc)
qed auto

lemma shape_strides_length [simp]: "length (fst (shape_strides sh)) = length sh"
  by (induction sh) (auto simp: Let_def split: prod.splits)

lemma shape_strides_step: "snd (shape_strides sh) = prod_list sh"
  by (induction sh) (simp_all add: case_prod_unfold mult.commute)

lemma shape_strides_Cons [simp]:
  "fst (shape_strides (d # ds)) = prod_list ds # fst (shape_strides ds)"
  by (simp add: case_prod_unfold shape_strides_step)

declare shape_strides.simps(2) [simp del]

lemma shape_strides_bound:
  "list_all (\<lambda>d. 1 \<le> d) sh \<Longrightarrow> prod_list sh < n \<Longrightarrow> list_all (\<lambda>i. 0 \<le> i \<and> i < n) (fst (shape_strides sh))"
proof (induction sh)
  case (Cons d ds)
  have p: "1 \<le> prod_list ds" using Cons.prems prod_pos by simp
  then show ?case using Cons prod_tail_less [of d ds n] by simp
qed simp

lemma written_contiguous:
  "list_all (\<lambda>d. 1 \<le> d) sh \<Longrightarrow> prod_list sh < 2 ^ 63 \<Longrightarrow> is_contiguous sh (fst (shape_strides sh))"
proof (induction sh)
  case (Cons d ds)
  have p: "1 \<le> prod_list ds" using Cons.prems prod_pos by simp
  have "prod_list ds < 2 ^ 63" using Cons.prems prod_tail_less [of d ds] p by simp
  then have "is_contiguous ds (fst (shape_strides ds))" using Cons by simp
  then show ?case using is_contiguous_Cons [OF Cons.prems] by simp
qed (simp add: is_contiguous_def)

section \<open>The loop over the tensors\<close>

definition element_count :: "write_tensor \<Rightarrow> nat" where
  "element_count t = length (wt_data t) div element_size t"

definition writable :: "write_tensor \<Rightarrow> bool" where
  "writable t \<longleftrightarrow> \<not> (wt_fp16 t \<and> wt_bf16 t) \<and> shape_count 1 (wt_shape t) = Some (element_count t) \<and>
     length (wt_data t) = element_count t * element_size t"

definition program_of :: "nat \<times> write_tensor \<Rightarrow> bytes" where
  "program_of it = tensor_program (fst it) (snd it) (element_count (snd it))"

definition record_of :: "nat \<times> write_tensor \<Rightarrow> tensor_record" where
  "record_of it = written_record (fst it) (snd it)"

definition entry_for :: "nat \<times> write_tensor \<Rightarrow> zip_entry" where
  "entry_for it = data_entry (fst it) (snd it)"

lemma element_size_pos [simp]: "0 < element_size t"
  by (simp add: element_size_def)

lemma write_tensors_spec:
  "write_tensors i ts p es = Inr (p', es') \<longleftrightarrow>
     list_all writable ts \<and> p' = p @ concat (map program_of (enumerate i ts)) \<and> es' = es @ map entry_for (enumerate i ts)"
proof (induction i ts p es rule: write_tensors.induct)
  case (2 i t ts p es)
  show ?case
  proof (cases "writable t")
    case True
    then show ?thesis using 2 by (simp add: writable_def program_of_def entry_for_def) auto
  next
    case False
    have "length (wt_data t) = n * element_size t \<Longrightarrow> n = element_count t" for n by (simp add: element_count_def)
    then show ?thesis using False by (auto simp: writable_def split: option.splits)
  qed
qed auto

lemma writable_shape:
  assumes "writable t"
  shows "list_all (\<lambda>d. 1 \<le> d \<and> d < 2 ^ 31) (wt_shape t)" "int (element_count t) = prod_list (wt_shape t)"
    "1 \<le> element_count t" "element_count t < 2 ^ 31"
  using shape_count_spec [of 1 "wt_shape t" "element_count t"] assms by (simp_all add: writable_def)

lemma run_program_of:
  assumes "writable t" "length (wt_name t) < 2 ^ 32" "i < 2 ^ 31"
  shows "parse_from (pstate (program_of (i, t) @ r) stk ts) =
    parse_from (pstate r (VTensor ((record_of (i, t))\<lparr>tr_name := []\<rparr>) # VString (wt_name t) # stk) ts)"
proof -
  have sh: "list_all (\<lambda>d. 1 \<le> d) (wt_shape t)" "list_all (\<lambda>d. 0 \<le> d \<and> d < 2 ^ 31) (wt_shape t)"
    using writable_shape(1) [OF assms(1)] by (auto simp: list_all_iff)
  have "prod_list (wt_shape t) < 2 ^ 31" using writable_shape(2,4) [OF assms(1)] by simp
  then have "list_all (\<lambda>i. 0 \<le> i \<and> i < 2 ^ 31) (fst (shape_strides (wt_shape t)))"
    by (rule shape_strides_bound [OF sh(1)])
  then show ?thesis
    using run_tensor [OF assms(2,3) writable_shape(4) [OF assms(1)] sh(2), of r stk ts] assms(1)
    by (simp add: program_of_def record_of_def writable_def)
qed

definition items_of :: "nat \<times> write_tensor \<Rightarrow> pvalue list" where
  "items_of it = [VString (wt_name (snd it)), VTensor ((record_of it)\<lparr>tr_name := []\<rparr>)]"

lemma run_programs:
  "list_all writable ts \<Longrightarrow> list_all (\<lambda>t. length (wt_name t) < 2 ^ 32) ts \<Longrightarrow> i + length ts \<le> 2 ^ 31 \<Longrightarrow>
    parse_from (pstate (concat (map program_of (enumerate i ts)) @ r) stk tr) =
    parse_from (pstate r (rev (concat (map items_of (enumerate i ts))) @ stk) tr)"
proof (induction ts arbitrary: i stk)
  case (Cons t ts)
  then show ?case using run_program_of [of t i] by (simp add: items_of_def)
qed simp

lemma tensor_items_of: "tensor_items (concat (map items_of its)) = Some (map record_of its)"
  by (induction its) (simp_all add: items_of_def record_of_def written_record_def)

lemma parse_written:
  assumes "list_all writable ts" "list_all (\<lambda>t. length (wt_name t) < 2 ^ 32) ts" "length ts \<le> 2 ^ 31"
  shows "parse_pickle ([0x80, 2, 125, 40] @ concat (map program_of (enumerate 0 ts)) @ [117, 46]) =
    Inr (map record_of (enumerate 0 ts))"
proof -
  let ?items = "concat (map items_of (enumerate 0 ts))" and ?recs = "map record_of (enumerate 0 ts)"
  have m: "VMark \<notin> set ?items" by (auto simp: items_of_def)
  have ev: "even (length ?items)"
  proof -
    have "even (length (concat (map items_of its)))" for its by (induction its) (simp_all add: items_of_def)
    then show ?thesis .
  qed
  have "parse_from (pstate (0x80 # 2 # r) st tr) = parse_from (pstate r st tr)" for r st tr
    by (rule step_op) (simp add: dispatch_def)
  moreover have "parse_from (pstate (125 # r) st tr) = parse_from (pstate r (VDict # st) tr)" for r st tr
    by (rule step_op) (simp add: dispatch_def)
  moreover have "parse_from (pstate (117 # r) (rev ?items @ [VMark, VDict]) []) = parse_from (pstate r [VDict] ?recs)" for r
    by (rule step_op) (simp add: dispatch_def setitems_def pop_mark_at [OF m, of "[VDict]"] ev tensor_items_of)
  moreover have "parse_from (pstate (46 # r) st ?recs) = Inr ?recs" for r st
    by (subst parse_from.simps) (simp add: dispatch_def)
  moreover have "i \<le> 2 ^ 31 \<Longrightarrow> 0 + length ts \<le> 2 ^ 31" for i :: nat using assms(3) by simp
  ultimately show ?thesis
    unfolding parse_pickle_def pstate_def [symmetric]
    using run_programs [OF assms(1,2), of 0 "[117, 46]" "[VMark, VDict]" "[]"] assms(3)
    by (simp add: run_mark)
qed

section \<open>The archive of a checkpoint\<close>

definition pth_entries :: "write_tensor list \<Rightarrow> bytes \<Rightarrow> bytes \<Rightarrow> zip_entry list" where
  "pth_entries ts manifest manifest_entry =
     map entry_for (enumerate 0 ts) @
     [zip_entry (bytes_of ''archive/data.pkl'') ([0x80, 2, 125, 40] @ concat (map program_of (enumerate 0 ts)) @ [117, 46]),
      zip_entry (bytes_of ''archive/byteorder'') (bytes_of ''little''),
      zip_entry (bytes_of ''archive/version'') (bytes_of ''3'' @ [10])] @
     (if manifest = [] then [] else [zip_entry manifest_entry manifest])"

lemma write_tensors_entries:
  "write_tensors 0 ts [0x80, 2, 125, 40] [] =
     (if list_all writable ts
      then Inr ([0x80, 2, 125, 40] @ concat (map program_of (enumerate 0 ts)), map entry_for (enumerate 0 ts))
      else Inl (projl (write_tensors 0 ts [0x80, 2, 125, 40] [])))"
  by (cases "write_tensors 0 ts [0x80, 2, 125, 40] []")
    (use write_tensors_spec [of 0 ts "[0x80, 2, 125, 40]" "[]"] in auto)

lemma entry_found:
  assumes "map pe_name (ar_entries ar) = map ze_name es"
    and "map (read_stored_entry ar) (ar_entries ar) = map (\<lambda>e. Inr (ze_data e)) es"
    and "j < length es" "P (ze_name (es ! j))" "\<And>k. k < j \<Longrightarrow> \<not> P (ze_name (es ! k))"
  shows "\<exists>e. find (\<lambda>e. P (pe_name e)) (ar_entries ar) = Some e \<and> pe_name e = ze_name (es ! j) \<and>
    read_stored_entry ar e = Inr (ze_data (es ! j))"
proof -
  have l: "length (ar_entries ar) = length es" using assms(1) by (metis length_map)
  have n: "pe_name (ar_entries ar ! k) = ze_name (es ! k)"
    "read_stored_entry ar (ar_entries ar ! k) = Inr (ze_data (es ! k))" if "k < length es" for k
    using that assms(1,2) l by (metis nth_map)+
  have "find (\<lambda>e. P (pe_name e)) (ar_entries ar) = Some (ar_entries ar ! j)"
    unfolding find_Some_iff using assms(3-5) l n by (intro exI [of _ j]) auto
  then show ?thesis using n [OF assms(3)] by blast
qed

lemma data_name_no_pickle: "\<not> suffix (bytes_of ''/data.pkl'') (bytes_of ''archive/data/'' @ bytes_of (dec_string i))"
proof
  assume "suffix (bytes_of ''/data.pkl'') (bytes_of ''archive/data/'' @ bytes_of (dec_string i))"
  moreover have "bytes_of ''/data.pkl'' \<noteq> []" by (simp add: bytes_of_def)
  ultimately have "last (bytes_of ''archive/data/'' @ bytes_of (dec_string i)) = last (bytes_of ''/data.pkl'')"
    unfolding suffix_def by (metis last_appendR)
  moreover have "bytes_of (dec_string i) \<noteq> []" using dec_string_not_Nil by (simp add: bytes_of_def)
  moreover have "last (bytes_of (dec_string i)) = of_nat (of_char (last (dec_string i)))"
    using dec_string_not_Nil by (simp add: bytes_of_def last_map)
  moreover have "48 \<le> (of_char (last (dec_string i)) :: nat) \<and> (of_char (last (dec_string i)) :: nat) \<le> 57"
    using dec_string_digits last_in_set dec_string_not_Nil by blast
  ultimately have "(of_nat (of_char (last (dec_string i))) :: byte) = 108" by (simp add: bytes_of_def)
  then have "(of_char (last (dec_string i)) :: nat) = 108"
    using byte_eq_iff [of 108 "of_nat (of_char (last (dec_string i)))"] unat_of_nat_byte [of "of_char (last (dec_string i))"] by simp
  then show False using \<open>48 \<le> _ \<and> _\<close> by simp
qed

lemma pth_entries_nth:
  "k < length ts \<Longrightarrow> ze_name (pth_entries ts man me ! k) = bytes_of ''archive/data/'' @ bytes_of (dec_string k)"
  "k < length ts \<Longrightarrow> ze_data (pth_entries ts man me ! k) = wt_data (ts ! k)"
  "ze_name (pth_entries ts man me ! length ts) = bytes_of ''archive/data.pkl''"
  "ze_data (pth_entries ts man me ! length ts) = [0x80, 2, 125, 40] @ concat (map program_of (enumerate 0 ts)) @ [117, 46]"
  by (simp_all add: pth_entries_def nth_append nth_enumerate_eq entry_for_def data_entry_def zip_entry_def)

lemma pth_entries_length: "length ts + 3 \<le> length (pth_entries ts man me)" "length (pth_entries ts man me) \<le> length ts + 4"
  by (simp_all add: pth_entries_def)

text \<open>An archive opened to the entries of a checkpoint.\<close>

definition holds :: "pth_archive \<Rightarrow> zip_entry list \<Rightarrow> bool" where
  "holds ar es \<longleftrightarrow> map pe_name (ar_entries ar) = map ze_name es \<and>
     map (read_stored_entry ar) (ar_entries ar) = map (\<lambda>e. Inr (ze_data e)) es"

lemma holds_prefix: "holds ar (pth_entries ts man me) \<Longrightarrow> archive_prefix ar = bytes_of ''archive''"
proof -
  assume h: "holds ar (pth_entries ts man me)"
  have "suffix (bytes_of ''/data.pkl'') (bytes_of ''archive/data.pkl'')"
    unfolding suffix_def by (rule exI [of _ "bytes_of ''archive''"]) (simp flip: bytes_of_append)
  then obtain e where "find (\<lambda>e. suffix (bytes_of ''/data.pkl'') (pe_name e)) (ar_entries ar) = Some e"
    "pe_name e = bytes_of ''archive/data.pkl''"
    using entry_found [of ar "pth_entries ts man me" "length ts" "suffix (bytes_of ''/data.pkl'')"] h
      pth_entries_nth [where ts = ts and man = man and me = me] pth_entries_length [of ts man me] data_name_no_pickle
    by (auto simp: holds_def)
  then show ?thesis by (simp add: archive_prefix_def bytes_of_def)
qed

lemma holds_pickle:
  assumes "holds ar (pth_entries ts man me)"
  shows "\<exists>e. find_entry ar (bytes_of ''archive/data.pkl'') = Some e \<and>
    read_stored_entry ar e = Inr ([0x80, 2, 125, 40] @ concat (map program_of (enumerate 0 ts)) @ [117, 46])"
proof -
  have ne: "bytes_of ''archive/data/'' @ bytes_of (dec_string k) \<noteq> bytes_of ''archive/data.pkl''" for k
    by (simp flip: bytes_of_append)
  show ?thesis
    using entry_found [of ar "pth_entries ts man me" "length ts" "\<lambda>n. n = bytes_of ''archive/data.pkl''"] assms
      pth_entries_nth [where ts = ts and man = man and me = me] pth_entries_length [of ts man me] ne
    unfolding holds_def find_entry_def by auto
qed

lemma holds_data:
  assumes "holds ar (pth_entries ts man me)" "i < length ts"
  shows "\<exists>e. find_entry ar (bytes_of ''archive/data/'' @ bytes_of (dec_string i)) = Some e \<and>
    read_stored_entry ar e = Inr (wt_data (ts ! i))"
  using entry_found [of ar "pth_entries ts man me" i "\<lambda>n. n = bytes_of ''archive/data/'' @ bytes_of (dec_string i)"] assms
    pth_entries_nth [where ts = ts and man = man and me = me] pth_entries_length [of ts man me]
  unfolding holds_def find_entry_def by fastforce

section \<open>Names and sizes\<close>

lemma write_locals_sizes: "write_locals es out = Some r \<Longrightarrow> list_all (\<lambda>e. length (ze_data e) \<le> 0xffffffff) es"
  by (induction es out arbitrary: r rule: write_locals.induct) (auto simp: Let_def split: if_splits)

lemma write_zip_sizes: "write_zip es = Some file \<Longrightarrow> list_all (\<lambda>e. length (ze_data e) \<le> 0xffffffff) es"
  by (auto simp: write_zip_def dest: write_locals_sizes split: if_splits)

lemma name_in_program: "t \<in> set ts \<Longrightarrow> length (wt_name t) \<le> length (concat (map program_of (enumerate i ts)))"
proof (induction ts arbitrary: i)
  case (Cons u ts)
  have "length (wt_name u) \<le> length (program_of (i, u))" by (simp add: program_of_def tensor_program_def pickle_string_def)
  then show ?case using Cons.IH [of "Suc i"] Cons.prems by auto
qed simp

lemma names_fit:
  assumes "write_zip (pth_entries ts man me) = Some file"
  shows "list_all (\<lambda>t. length (wt_name t) < 2 ^ 32) ts"
proof -
  have "length (concat (map program_of (enumerate 0 ts))) \<le> 0xffffffff"
    using write_zip_sizes [OF assms] by (simp add: pth_entries_def zip_entry_def)
  then show ?thesis using name_in_program [of _ ts 0] by (fastforce simp: list_all_iff)
qed

lemma holds_records:
  assumes "holds ar (pth_entries ts man me)" "list_all writable ts" "list_all (\<lambda>t. length (wt_name t) < 2 ^ 32) ts"
    "length ts \<le> 2 ^ 31"
  shows "parse_pth_tensor_records ar = Inr (map record_of (enumerate 0 ts))"
proof -
  obtain e where "find_entry ar (bytes_of ''archive'' @ bytes_of ''/data.pkl'') = Some e"
    "read_stored_entry ar e = Inr ([0x80, 2, 125, 40] @ concat (map program_of (enumerate 0 ts)) @ [117, 46])"
    using holds_pickle [OF assms(1)] by (auto simp flip: bytes_of_append)
  moreover have "bytes_of ''archive'' \<noteq> []" by (simp add: bytes_of_def)
  ultimately show ?thesis
    using parse_written [OF assms(2-4)] by (simp add: parse_pth_tensor_records_def holds_prefix [OF assms(1)])
qed

section \<open>Loading what was written\<close>

definition words :: "nat \<Rightarrow> bytes \<Rightarrow> nat list" where
  "words k data = map (\<lambda>i. le_value (take k (drop (i * k) data))) [0..<length data div k]"

lemma le_out_le_value: "length bs = k \<Longrightarrow> le_out k (le_value bs) = bs"
proof (induction k arbitrary: bs)
  case (Suc k)
  then obtain b bs' where bs: "bs = b # bs'" "length bs' = k" by (cases bs) auto
  have "(of_nat (unat b + 256 * le_value bs') :: byte) = b"
  proof -
    have z: "(256 :: byte) = 0" by simp
    have "(of_nat (unat b + 256 * le_value bs') :: byte) = b + 256 * of_nat (le_value bs')" by simp
    then show ?thesis unfolding z by simp
  qed
  moreover have "(unat b + 256 * le_value bs') div 256 = le_value bs'" by simp
  ultimately show ?case using Suc.IH [OF bs(2)] by (simp add: bs(1))
qed simp

lemma concat_words:
  assumes "0 < k" "length data = n * k"
  shows "concat (map (le_out k) (words k data)) = data"
  using assms(2)
proof (induction n arbitrary: data)
  case (Suc n)
  let ?d = "drop k data"
  have l: "length ?d = n * k" "length data div k = Suc n" "length ?d div k = n" using Suc.prems assms(1) by simp_all
  have "words k data = le_value (take k data) # words k ?d"
  proof -
    have "[0..<Suc n] = 0 # map Suc [0..<n]" by (simp only: upt_conv_Cons map_Suc_upt)
    then show ?thesis unfolding words_def l(2,3) by (simp add: add.commute del: upt_Suc)
  qed
  moreover have "le_out k (le_value (take k data)) = take k data" using Suc.prems by (intro le_out_le_value) simp
  ultimately show ?case using Suc.IH [OF l(1)] by simp
qed (simp add: words_def)

lemma words_bound: "x \<in> set (words k data) \<Longrightarrow> x < 256 ^ k"
proof -
  have "le_value bs < 256 ^ k" if "length bs \<le> k" for bs
    using le_value_less [of bs] power_increasing [OF that, of "256 :: nat"] by (simp add: less_le_trans)
  then show "x \<in> set (words k data) \<Longrightarrow> x < 256 ^ k" by (auto simp: words_def)
qed

lemma map_res_words:
  assumes "length data = n * k" "length data < 2 ^ 64" "0 < k"
    and "\<And>i. i < n \<Longrightarrow> f i = bind_res (load_scalar data k (wrap64 (i * k))) (\<lambda>v. Inr (g v))"
  shows "map_res f [0..<n] = Inr (map g (words k data))"
proof -
  have "f i = Inr (g (le_value (take k (drop (i * k) data))))" if "i < n" for i
  proof -
    have "Suc i * k \<le> n * k" using that by (intro mult_le_mono1) simp
    then have "i * k + k \<le> length data" using assms(1) by simp
    moreover have "i * k < 2 ^ 64" using calculation assms(2,3) by linarith
    ultimately show ?thesis using assms(4) [OF that] by (simp add: load_scalar_def)
  qed
  then have "map_res f [0..<n] = Inr (map (\<lambda>i. g (le_value (take k (drop (i * k) data)))) [0..<n])"
    by (induction n) (simp_all add: map_res_append)
  then show ?thesis using assms(1,3) by (simp add: words_def comp_def)
qed

lemma enumerate_index: "i < length ts \<Longrightarrow> map record_of (enumerate 0 ts) ! i = written_record i (ts ! i)"
  by (simp add: nth_enumerate_eq record_of_def)

lemma written_dtype_size: "writable t \<Longrightarrow> dtype_size_bytes (written_dtype t) = element_size t"
  by (auto simp: dtype_size_bytes_def written_dtype_def element_size_def writable_def)

lemma written_layout:
  assumes "writable t"
  shows "is_contiguous (tr_shape (written_record i t)) (tr_stride (written_record i t))"
    "numel (tr_shape (written_record i t)) = element_count t" "linear (written_record i t) = [0..<element_count t]"
    "tr_size (written_record i t) = element_count t"
proof -
  have sh: "list_all (\<lambda>d. 1 \<le> d) (wt_shape t)" "list_all (\<lambda>d. 0 \<le> d) (wt_shape t)"
    using writable_shape(1) [OF assms] by (auto simp: list_all_iff)
  have p: "int (element_count t) = prod_list (wt_shape t)" "element_count t < 2 ^ 31"
    using writable_shape [OF assms] by simp_all
  then have lt: "prod_list (wt_shape t) < 2 ^ 63" "prod_list (wt_shape t) < 2 ^ 64" by simp_all
  show "is_contiguous (tr_shape (written_record i t)) (tr_stride (written_record i t))"
    using written_contiguous [OF sh(1) lt(1)] by (simp add: written_record_def)
  show n: "numel (tr_shape (written_record i t)) = element_count t"
  proof -
    have "numel (wt_shape t) = nat (int (element_count t))" unfolding p(1) by (rule numel_eq [OF sh(2) lt(2)])
    then show ?thesis by (simp add: written_record_def)
  qed
  show "linear (written_record i t) = [0..<element_count t]"
    using linear_eq [of "written_record i t"] n p(2) by (simp add: written_record_def)
  show "tr_size (written_record i t) = element_count t" by (simp add: written_record_def element_count_def)
qed

lemma holds_storage:
  assumes "holds ar (pth_entries ts man me)" "i < length ts" "writable (ts ! i)"
  shows "tensor_storage ar (written_record i (ts ! i)) = Inr (wt_data (ts ! i))"
proof -
  let ?t = "ts ! i"
  have sz: "element_count ?t * element_size ?t = length (wt_data ?t)" using assms(3) by (simp add: writable_def)
  have "length (wt_data ?t) < 2 ^ 64"
    using writable_shape(4) [OF assms(3)] unfolding sz [symmetric] by (simp add: element_size_def)
  moreover have "bytes_of ''archive'' \<noteq> []" by (simp add: bytes_of_def)
  moreover have "tr_dtype (written_record i ?t) = written_dtype ?t" "tr_key (written_record i ?t) = bytes_of (dec_string i)"
    by (simp_all add: written_record_def)
  moreover obtain e where "find_entry ar (bytes_of ''archive'' @ bytes_of ''/data/'' @ bytes_of (dec_string i)) = Some e"
    "read_stored_entry ar e = Inr (wt_data ?t)"
    using holds_data [OF assms(1,2)] by (auto simp flip: bytes_of_append append_assoc)
  ultimately show ?thesis
    using written_layout [OF assms(3), where i = i] written_dtype_size [OF assms(3)] sz
    by (simp add: tensor_storage_def holds_prefix [OF assms(1)])
qed

text \<open>What a loaded tensor has of the bytes that were written.\<close>

definition loaded :: "write_tensor \<Rightarrow> tensor_data \<Rightarrow> bool" where
  "loaded t td \<longleftrightarrow>
     td_name td = wt_name t \<and> td_shape td = wt_shape t \<and>
     (case written_dtype t of
        BFloat16 \<Rightarrow> concat (map (\<lambda>w. le_out 2 (unat w)) (td_bf16 td)) = wt_data t
      | Float32 \<Rightarrow> concat (map (\<lambda>w. le_out 4 (unat w)) (td_floats td)) = wt_data t
      | Float16 \<Rightarrow> (\<exists>hs. concat (map (\<lambda>w. le_out 2 (unat w)) hs) = wt_data t \<and> td_floats td = map f16_bits_to_float hs))"

lemma concat_cast:
  assumes "length data = n * k" "0 < k" "(256 :: nat) ^ k \<le> 2 ^ LENGTH('a::len)"
  shows "concat (map (\<lambda>w. le_out k (unat w)) (map (of_nat :: nat \<Rightarrow> 'a word) (words k data))) = data"
proof -
  have "unat (of_nat v :: 'a word) = v" if "v \<in> set (words k data)" for v
  proof -
    have "v < 2 ^ LENGTH('a)" using words_bound [OF that] assms(3) by (rule less_le_trans)
    then show ?thesis by (simp add: unat_of_nat)
  qed
  then have "map (\<lambda>w. le_out k (unat w)) (map (of_nat :: nat \<Rightarrow> 'a word) (words k data)) = map (le_out k) (words k data)" by simp
  then show ?thesis using concat_words [OF assms(2,1)] by (simp only:)
qed

lemma load_written:
  assumes t: "writable t" and s: "tensor_storage ar (written_record i t) = Inr (wt_data t)"
  shows "\<exists>td. load_tensor_select ar (written_record i t) True h True = Inr td \<and> loaded t td"
proof -
  let ?r = "written_record i t" and ?n = "element_count t" and ?k = "element_size t" and ?data = "wt_data t"
  note lay = written_layout [OF t, where i = i] and sd = written_dtype_size [OF t]
  have dt: "tr_dtype ?r = written_dtype t" "tr_offset ?r = 0" "tr_name ?r = wt_name t" "tr_shape ?r = wt_shape t"
    by (simp_all add: written_record_def)
  have sz: "length ?data = ?n * ?k" using t by (simp add: writable_def)
  have lt: "?n < 2 ^ 31" by (rule writable_shape(4) [OF t])
  then have sm: "length ?data < 2 ^ 64" unfolding sz by (simp add: element_size_def)
  define dec where "dec = (\<lambda>v. case written_dtype t of BFloat16 \<Rightarrow> bf16_bits_to_float (of_nat v)
    | Float16 \<Rightarrow> f16_bits_to_float (of_nat v) | Float32 \<Rightarrow> of_nat v)"
  define half where "half = (\<lambda>v. if written_dtype t = BFloat16 then of_nat v else float_to_bf16_bits (dec v))"
  have fl: "map_res (read_element_as_float ?data (written_dtype t)) [0..<?n] = Inr (map dec (words ?k ?data))"
    by (rule map_res_words [OF sz sm element_size_pos]) (simp add: read_element_as_float_def sd dec_def)
  have bf: "map_res (read_element_as_bf16 ?data (written_dtype t)) [0..<?n] = Inr (map half (words ?k ?data))"
  proof (rule map_res_words [OF sz sm element_size_pos])
    show "read_element_as_bf16 ?data (written_dtype t) j =
        bind_res (load_scalar ?data ?k (wrap64 (j * ?k))) (\<lambda>v. Inr (half v))" for j
    proof (cases "written_dtype t = BFloat16")
      case True
      then have "?k = 2" using sd by (simp add: dtype_size_bytes_def)
      then show ?thesis using True by (simp add: read_element_as_bf16_def half_def)
    next
      case False
      then show ?thesis
        by (simp add: read_element_as_bf16_def read_element_as_float_def half_def sd dec_def bind_res_def split: sum.split)
    qed
  qed
  let ?td = "\<lparr>td_name = wt_name t, td_shape = wt_shape t, td_bf16 = map half (words ?k ?data),
    td_f16 = (if h then map float_to_f16_bits (map dec (words ?k ?data)) else []), td_floats = map dec (words ?k ?data)\<rparr>"
  have "load_tensor_select ar ?r True h True = Inr ?td"
    using s lay fl bf lt by (simp add: load_tensor_select_def Let_def dt)
  moreover have "loaded t ?td"
  proof (cases "written_dtype t")
    case BFloat16
    then have "?k = 2" using sd by (simp add: dtype_size_bytes_def)
    then show ?thesis using concat_cast [of ?data ?n 2, where ?'a = 16] sz BFloat16
      by (simp add: loaded_def half_def)
  next
    case Float32
    then have "?k = 4" using sd by (simp add: dtype_size_bytes_def)
    then show ?thesis using concat_cast [of ?data ?n 4, where ?'a = 32] sz Float32
      by (simp add: loaded_def dec_def)
  next
    case Float16
    then have "?k = 2" using sd by (simp add: dtype_size_bytes_def)
    then show ?thesis using concat_cast [of ?data ?n 2, where ?'a = 16] sz Float16
      by (auto simp: loaded_def dec_def intro!: exI [of _ "map of_nat (words 2 ?data)"])
  qed
  ultimately show ?thesis by blast
qed

section \<open>Writing and reading back\<close>

lemma write_pth_writable:
  assumes "list_all writable ts"
  shows "write_pth path ts man me fs =
    (case write_zip (pth_entries ts man me) of
       None \<Rightarrow> (Some ZipLimits, fs)
     | Some z \<Rightarrow>
         (case open_archive z False of
            Inl _ \<Rightarrow> (Some SelfCheckFailed, fs(path @ ''.tmp'' \<mapsto> z))
          | Inr ar \<Rightarrow>
              (case parse_pth_tensor_records ar of
                 Inl _ \<Rightarrow> (Some SelfCheckCount, fs(path @ ''.tmp'' \<mapsto> z))
               | Inr records \<Rightarrow>
                   if length records \<noteq> length ts then (Some SelfCheckCount, fs(path @ ''.tmp'' \<mapsto> z))
                   else (None, (fs(path @ ''.tmp'' \<mapsto> z, path \<mapsto> z))(path @ ''.tmp'' := None)))))"
proof -
  have w: "write_tensors 0 ts [0x80, 2, 125, 40] [] =
      Inr ([0x80, 2, 125, 40] @ concat (map program_of (enumerate 0 ts)), map entry_for (enumerate 0 ts))"
    using write_tensors_entries [of ts] unfolding if_P [OF assms] .
  show ?thesis
    unfolding write_pth_def w sum.case prod.case Let_def pth_entries_def append_assoc ..
qed

lemma write_pth_unwritable:
  assumes "\<not> list_all writable ts"
  shows "write_pth path ts man me fs = (Some (projl (write_tensors 0 ts [0x80, 2, 125, 40] [])), fs)"
proof -
  obtain e where e: "write_tensors 0 ts [0x80, 2, 125, 40] [] = Inl e"
    using write_tensors_entries [of ts] unfolding if_not_P [OF assms] by blast
  show ?thesis unfolding write_pth_def e by simp
qed

lemma write_tensors_error: "write_tensors i ts p es = Inl e \<Longrightarrow> e \<in> {AmbiguousDtype, InvalidShape, DataSizeMismatch}"
  by (induction i ts p es rule: write_tensors.induct) (auto split: if_splits option.splits)

lemma written_holds:
  assumes "write_zip (pth_entries ts man me) = Some z" "length z < 2 ^ 32 - 1" "length ts + 4 < 65535"
  shows "\<exists>ar. open_archive z chunk_load = Inr ar \<and> holds ar (pth_entries ts man me)"
  using write_zip_opens [OF assms(1,2), of chunk_load] pth_entries_length(2) [of ts man me] assms(3)
  by (auto simp: holds_def)

text \<open>
  C6. A checkpoint that was written is read back: the file at the path opens, from memory and in
  chunks, its records are the tensors in order with their names, shapes and types, and every tensor
  loads to the bytes that were given (its bfloat16 patterns, its floats, or the floats of its
  float16 patterns). The file has fewer than four gigabytes and 65531 tensors; other files of the
  file system are unchanged.
\<close>

theorem write_pth_roundtrip:
  assumes "write_pth path ts man me fs = (None, fs')" "length ts + 4 < 65535"
    "\<And>z. fs' path = Some z \<Longrightarrow> length z < 2 ^ 32 - 1"
  shows "\<exists>z ar recs. fs' = (fs(path \<mapsto> z))(path @ ''.tmp'' := None) \<and> open_archive z chunk_load = Inr ar \<and>
    parse_pth_tensor_records ar = Inr recs \<and>
    list_all2 (\<lambda>r t. tr_name r = wt_name t \<and> tr_shape r = wt_shape t \<and> tr_dtype r = written_dtype t \<and>
      (\<exists>td. load_tensor_select ar r True h True = Inr td \<and> loaded t td)) recs ts"
proof -
  have w: "list_all writable ts" using assms(1) write_pth_unwritable [of ts path man me fs] by auto
  obtain z where z: "write_zip (pth_entries ts man me) = Some z"
    using assms(1) unfolding write_pth_writable [OF w] by (auto split: option.splits)
  then have fs: "fs' = (fs(path \<mapsto> z))(path @ ''.tmp'' := None)"
    using assms(1) unfolding write_pth_writable [OF w] by (auto split: sum.splits if_splits)
  have sm: "length z < 2 ^ 32 - 1" using assms(3) [of z] fs by simp
  obtain ar where ar: "open_archive z chunk_load = Inr ar" "holds ar (pth_entries ts man me)"
    using written_holds [OF z sm assms(2)] by blast
  have rs: "parse_pth_tensor_records ar = Inr (map record_of (enumerate 0 ts))"
    by (rule holds_records [OF ar(2) w names_fit [OF z]]) (use assms(2) in simp)
  have "list_all2 (\<lambda>r t. tr_name r = wt_name t \<and> tr_shape r = wt_shape t \<and> tr_dtype r = written_dtype t \<and>
      (\<exists>td. load_tensor_select ar r True h True = Inr td \<and> loaded t td)) (map record_of (enumerate 0 ts)) ts"
  proof (unfold list_all2_conv_all_nth, intro conjI allI impI)
    show "length (map record_of (enumerate 0 ts)) = length ts" by simp
    fix i
    assume "i < length (map record_of (enumerate 0 ts))"
    then have i: "i < length ts" by simp
    then have t: "writable (ts ! i)" using w by (simp add: list_all_length)
    have r: "map record_of (enumerate 0 ts) ! i = written_record i (ts ! i)" by (rule enumerate_index [OF i])
    show "tr_name (map record_of (enumerate 0 ts) ! i) = wt_name (ts ! i)"
      "tr_shape (map record_of (enumerate 0 ts) ! i) = wt_shape (ts ! i)"
      "tr_dtype (map record_of (enumerate 0 ts) ! i) = written_dtype (ts ! i)"
      unfolding r by (simp_all add: written_record_def)
    show "\<exists>td. load_tensor_select ar (map record_of (enumerate 0 ts) ! i) True h True = Inr td \<and> loaded (ts ! i) td"
      unfolding r by (rule load_written [OF t holds_storage [OF ar(2) i t]])
  qed
  then show ?thesis using fs ar(1) rs by blast
qed


section \<open>Witnesses\<close>

definition demo_tensors :: "write_tensor list" where
  "demo_tensors =
     [\<lparr>wt_name = [119], wt_shape = [2, 1], wt_fp16 = False, wt_bf16 = True, wt_data = [0x80, 0x3f, 0, 0xc0]\<rparr>,
      \<lparr>wt_name = [98], wt_shape = [], wt_fp16 = False, wt_bf16 = False, wt_data = [0, 0, 0x80, 0x3f]\<rparr>]"

lemma demo_writable: "list_all writable demo_tensors"
  by (simp add: demo_tensors_def writable_def element_count_def element_size_def)

lemma demo_file: "\<exists>z. write_zip (pth_entries demo_tensors [] []) = Some z \<and> length z < 2 ^ 32 - 1"
  by (simp add: write_zip_def pth_entries_def demo_tensors_def zip_entry_def entry_for_def data_entry_def program_of_def
      tensor_program_def pickle_string_def pickle_global_def pickle_int_def element_count_def element_size_def
      storage_name_def shape_strides.simps dec_string.simps Let_def)

lemma demo_written: "\<exists>fs' z. write_pth ''m.pth'' demo_tensors [] [] (\<lambda>_. None) = (None, fs') \<and> fs' ''m.pth'' = Some z \<and> length z < 2 ^ 32 - 1"
proof -
  obtain z where z: "write_zip (pth_entries demo_tensors [] []) = Some z" "length z < 2 ^ 32 - 1" using demo_file by blast
  have n: "length demo_tensors + 4 < 65535" by (simp add: demo_tensors_def)
  obtain ar where ar: "open_archive z False = Inr ar" "holds ar (pth_entries demo_tensors [] [])"
    using written_holds [OF z n] by blast
  have "parse_pth_tensor_records ar = Inr (map record_of (enumerate 0 demo_tensors))"
    by (rule holds_records [OF ar(2) demo_writable names_fit [OF z(1)]]) (simp add: demo_tensors_def)
  then show ?thesis unfolding write_pth_writable [OF demo_writable] z(1) using ar(1) z(2) by simp
qed

theorem write_pth_roundtrip_witness:
  "\<exists>fs' z ar recs. write_pth ''m.pth'' demo_tensors [] [] (\<lambda>_. None) = (None, fs') \<and> fs' ''m.pth'' = Some z \<and>
     open_archive z True = Inr ar \<and> parse_pth_tensor_records ar = Inr recs \<and> map tr_name recs = [[119], [98]] \<and>
     map tr_shape recs = [[2, 1], []]"
proof -
  obtain fs' z where w: "write_pth ''m.pth'' demo_tensors [] [] (\<lambda>_. None) = (None, fs')"
    "fs' ''m.pth'' = Some z" "length z < 2 ^ 32 - 1" using demo_written by blast
  then obtain ar recs where "open_archive z True = Inr ar" "parse_pth_tensor_records ar = Inr recs"
    "list_all2 (\<lambda>r t. tr_name r = wt_name t \<and> tr_shape r = wt_shape t) recs demo_tensors"
    using write_pth_roundtrip [OF w(1), of True False] by (fastforce simp: demo_tensors_def list_all2_conv_all_nth)
  moreover from this(3) have "map tr_name recs = [[119], [98]]" "map tr_shape recs = [[2, 1], []]"
    by (auto simp: demo_tensors_def list_all2_Cons2)
  ultimately show ?thesis using w(1,2) by - (intro exI conjI, assumption+)
qed


theorem parsed_records_typed_witness:
  "\<exists>ts. parse_pickle ([0x80, 2, 125, 40] @ concat (map program_of (enumerate 0 demo_tensors)) @ [117, 46]) = Inr ts \<and>
     map (\<lambda>t. length (tr_shape t)) ts = [2, 0] \<and> map (\<lambda>t. length (tr_stride t)) ts = map (\<lambda>t. length (tr_shape t)) ts"
proof -
  have "parse_pickle ([0x80, 2, 125, 40] @ concat (map program_of (enumerate 0 demo_tensors)) @ [117, 46]) =
      Inr (map record_of (enumerate 0 demo_tensors))"
    by (rule parse_written [OF demo_writable]) (simp_all add: demo_tensors_def)
  moreover from parsed_records_typed [OF this]
  have "list_all (\<lambda>t. length (tr_shape t) = length (tr_stride t)) (map record_of (enumerate 0 demo_tensors))"
    by (simp add: list_all_iff)
  ultimately show ?thesis by (simp add: demo_tensors_def record_of_def written_record_def)
qed

end
