(* ===== verification/StateStore.thy ===== *)
theory StateStore
  imports StateUpload PthWriter
begin

text \<open>
  The store of uploaded states (\<open>UploadedStateStore\<close> of \<open>src/server/rwkv_uploaded_state_store.cpp\<close>):
  public names, idempotent uploads, and entries that live, with their file, until the last handle is
  dropped. The hash function (OpenSSL), the random bytes and the clock are parameters; a file that
  is created can be written, and the random name of a new directory is fresh.
\<close>

section \<open>Names\<close>

text \<open>The last component of the path, with backslashes taken as slashes.\<close>

definition upload_basename :: "bytes \<Rightarrow> bytes" where
  "upload_basename filename =
     (let slashes = map (\<lambda>c. if c = 92 then 47 else c) filename;
          base = rev (takeWhile (\<lambda>c. c \<noteq> 47) (rev slashes))
      in if base = [] \<or> base = bytes_of ''.'' \<or> base = bytes_of ''..'' then bytes_of ''state.pth'' else base)"

definition portable_name :: "bytes \<Rightarrow> bool" where
  "portable_name base \<longleftrightarrow>
     length base \<le> 180 \<and> list_all (\<lambda>c. 32 \<le> c \<and> c \<notin> {60, 62, 58, 34, 124, 63, 42}) base"

text \<open>\<open>std::filesystem::path::stem\<close> of a file name that is not a dot name.\<close>

definition path_stem :: "bytes \<Rightarrow> bytes" where
  "path_stem base =
     (let ext = takeWhile (\<lambda>c. c \<noteq> 46) (rev base); k = length base - length ext
      in if k \<le> 1 then base else take (k - 1) base)"

definition hex_char :: "nat \<Rightarrow> byte" where
  "hex_char n = (if n < 10 then of_nat (48 + n) else of_nat (87 + n))"

text \<open>The loop that prints the bytes, from byte \<open>i\<close> on.\<close>

fun uuid_text :: "nat \<Rightarrow> bytes \<Rightarrow> bytes" where
  "uuid_text i [] = []"
| "uuid_text i (b # bs) =
     (if i = 4 \<or> i = 6 \<or> i = 8 \<or> i = 10 then [45] else []) @
     [hex_char (unat b div 16), hex_char (unat b mod 16)] @ uuid_text (Suc i) bs"

text \<open>\<open>RAND_bytes\<close> gives the sixteen bytes; the first six are overwritten with the timestamp.\<close>

definition uuid_v7 :: "bytes \<Rightarrow> int \<Rightarrow> bytes" where
  "uuid_v7 random timestamp =
     (let stamp = map (\<lambda>i. of_int (timestamp div 2 ^ (8 * (5 - i))) :: byte) [0..<6];
          bytes = stamp @ drop 6 random;
          bytes = bytes[6 := (bytes ! 6 AND 0x0f) OR 0x70];
          bytes = bytes[8 := (bytes ! 8 AND 0x3f) OR 0x80]
      in uuid_text 0 bytes)"

definition is_uuid_v7 :: "bytes \<Rightarrow> bool" where
  "is_uuid_v7 uuid \<longleftrightarrow>
     length uuid = 36 \<and> uuid ! 14 = 55 \<and> uuid ! 19 \<in> set (bytes_of ''89ab'') \<and>
     list_all (\<lambda>(i, c). if i \<in> {8, 13, 18, 23} then c = 45 else c \<in> set (bytes_of ''0123456789abcdef''))
       (enumerate 0 uuid)"

section \<open>The store\<close>

record upload_info =
  ui_id :: bytes
  ui_original :: bytes
  ui_size :: nat
  ui_layers :: nat
  ui_heads :: int
  ui_head_size :: int
  ui_created_ms :: int

record stored_state =
  sd_info :: upload_info
  sd_digest :: bytes
  sd_dir :: nat

text \<open>
  The \<open>Entry\<close> objects that are alive have numbers; \<open>states_\<close> maps public ids to them, and a handle
  is the number of the entry it keeps alive. Directories are numbered too.
\<close>

record state_store =
  st_entries :: "(nat \<times> stored_state) list"
  st_index :: "(bytes \<times> nat) list"
  st_handles :: "nat list"
  st_next :: nat
  st_dir :: "nat option"
  st_dirs :: nat
  st_files :: "nat \<times> bytes \<Rightarrow> bytes option"

definition empty_store :: state_store where
  "empty_store = \<lparr>st_entries = [], st_index = [], st_handles = [], st_next = 0, st_dir = None, st_dirs = 0, st_files = (\<lambda>_. None)\<rparr>"

definition ensure_directory :: "state_store \<Rightarrow> nat \<times> state_store" where
  "ensure_directory s =
     (case st_dir s of Some d \<Rightarrow> (d, s) | None \<Rightarrow> (st_dirs s, s\<lparr>st_dir := Some (st_dirs s), st_dirs := Suc (st_dirs s)\<rparr>))"

text \<open>The destructor of an entry that neither the index nor a handle holds any more.\<close>

definition drop_unheld :: "nat \<Rightarrow> state_store \<Rightarrow> state_store" where
  "drop_unheld n s =
     (if n \<in> snd ` set (st_index s) \<or> n \<in> set (st_handles s) then s
      else case map_of (st_entries s) n of
             None \<Rightarrow> s
           | Some e \<Rightarrow> s\<lparr>st_entries := AList.delete n (st_entries s),
                        st_files := (st_files s)((sd_dir e, ui_id (sd_info e)) := None)\<rparr>)"

text \<open>The public id: the stem of the name, a dash and the UUID.\<close>

definition upload_uuid_of :: "bytes \<Rightarrow> int \<Rightarrow> bytes \<Rightarrow> bytes" where
  "upload_uuid_of random now_ms upload_uuid = (if upload_uuid = [] then uuid_v7 random now_ms else upload_uuid)"

definition upload_id :: "bytes \<Rightarrow> bytes \<Rightarrow> bytes" where
  "upload_id base uuid = (if path_stem base = [] then bytes_of ''state'' else path_stem base) @ [45] @ uuid"

definition upload ::
  "(bytes \<Rightarrow> bytes) \<Rightarrow> bytes \<Rightarrow> int \<Rightarrow> bytes \<Rightarrow> bytes \<Rightarrow> bytes \<Rightarrow> state_store \<Rightarrow> (upload_error + upload_info) \<times> state_store" where
  "upload digest random now_ms filename data upload_uuid s =
     (if data = [] then (Inl EmptyFile, s)
      else if length data > max_uploaded_bytes then (Inl FileTooLarge, s)
      else
        let (dir, s) = ensure_directory s;
            base = upload_basename filename;
            uuid = upload_uuid_of random now_ms upload_uuid;
            state_id = upload_id base uuid
        in if \<not> portable_name base then (Inl BadFilename, s)
           else if \<not> is_uuid_v7 uuid then (Inl BadUuid, s)
           else case map_of (st_index s) state_id of
             Some n \<Rightarrow>
               (case map_of (st_entries s) n of
                  Some e \<Rightarrow>
                    if upload_uuid \<noteq> [] \<and> ui_original (sd_info e) = base \<and> ui_size (sd_info e) = length data \<and>
                       sd_digest e = digest data then (Inr (sd_info e), s)
                    else (Inl (UuidConflict state_id), s)
                | None \<Rightarrow> (Inl (UuidConflict state_id), s))
           | None \<Rightarrow>
               (case validate_state_pth data of
                  Inl err \<Rightarrow> (Inl err, s\<lparr>st_files := (st_files s)((dir, state_id) := None)\<rparr>)
                | Inr shape \<Rightarrow>
                    let info = \<lparr>ui_id = state_id, ui_original = base, ui_size = length data,
                          ui_layers = length (ss_layers shape), ui_heads = ss_heads shape,
                          ui_head_size = ss_head_size shape, ui_created_ms = now_ms\<rparr>
                    in (Inr info, s\<lparr>st_entries := (st_next s, \<lparr>sd_info = info, sd_digest = digest data, sd_dir = dir\<rparr>) # st_entries s,
                          st_index := (state_id, st_next s) # st_index s, st_next := Suc (st_next s),
                          st_files := (st_files s)((dir, state_id) \<mapsto> data)\<rparr>)))"

definition acquire :: "bytes \<Rightarrow> state_store \<Rightarrow> nat option \<times> state_store" where
  "acquire state_id s =
     (case map_of (st_index s) state_id of
        None \<Rightarrow> (None, s)
      | Some n \<Rightarrow> (Some n, s\<lparr>st_handles := n # st_handles s\<rparr>))"

text \<open>A handle goes out of scope.\<close>

definition release :: "nat \<Rightarrow> state_store \<Rightarrow> state_store" where
  "release n s = drop_unheld n (s\<lparr>st_handles := remove1 n (st_handles s)\<rparr>)"

definition erase :: "bytes \<Rightarrow> state_store \<Rightarrow> bool \<times> state_store" where
  "erase state_id s =
     (case map_of (st_index s) state_id of
        None \<Rightarrow> (False, s)
      | Some n \<Rightarrow> (True, drop_unheld n (s\<lparr>st_index := AList.delete state_id (st_index s)\<rparr>)))"

text \<open>The comparison of \<open>list\<close>: newest first, then by id.\<close>

definition listed_before :: "upload_info \<Rightarrow> upload_info \<Rightarrow> bool" where
  "listed_before a b \<longleftrightarrow>
     (if ui_created_ms a = ui_created_ms b then lexordp (<) (ui_id a) (ui_id b)
      else ui_created_ms a > ui_created_ms b)"

fun insert_info :: "upload_info \<Rightarrow> upload_info list \<Rightarrow> upload_info list" where
  "insert_info x [] = [x]"
| "insert_info x (y # ys) = (if listed_before y x then y # insert_info x ys else x # y # ys)"

definition list_states :: "state_store \<Rightarrow> upload_info list" where
  "list_states s =
     foldr insert_info (List.map_filter (\<lambda>(_, n). map_option sd_info (map_of (st_entries s) n)) (st_index s)) []"

definition shutdown :: "state_store \<Rightarrow> state_store" where
  "shutdown s =
     (let s1 = fold drop_unheld (map snd (st_index s)) (s\<lparr>st_index := []\<rparr>)
      in case st_dir s of
           None \<Rightarrow> s1
         | Some d \<Rightarrow> s1\<lparr>st_files := (\<lambda>(d', f). if d' = d then None else st_files s1 (d', f)), st_dir := None\<rparr>)"

section \<open>UUIDs\<close>

lemma hex_char_in_digits: "n < 16 \<Longrightarrow> hex_char n \<in> set (bytes_of ''0123456789abcdef'')"
proof -
  assume "n < 16"
  then have "n \<in> set [0..<16]" by simp
  then show ?thesis by (auto simp: upt_rec hex_char_def bytes_of_def)
qed

lemma nibbles: "unat (b :: byte) div 16 < 16" "unat b mod 16 < 16"
  by (simp_all add: less_mult_imp_div_less)

lemma version_nibble: "unat ((b AND 0x0f) OR 0x70 :: byte) div 16 = 7"
proof -
  have a: "unat (b AND 0x0f) < 16" by (simp only: unsigned_and_eq) (simp add: nat_and_mask [of _ 4, simplified])
  have "7 * 2 ^ 4 OR unat (b AND 0x0f) = 7 * 2 ^ 4 + unat (b AND 0x0f)" by (rule nat_or_add) (use a in simp)
  then have "unat ((b AND 0x0f) OR 0x70) = 112 + unat (b AND 0x0f)" by (simp add: unsigned_or_eq or.commute)
  then show ?thesis using a by simp
qed

lemma variant_nibble: "unat ((b AND 0x3f) OR 0x80 :: byte) div 16 \<in> {8, 9, 10, 11}"
proof -
  have a: "unat (b AND 0x3f) < 64" by (simp only: unsigned_and_eq) (simp add: nat_and_mask [of _ 6, simplified])
  have "1 * 2 ^ 7 OR unat (b AND 0x3f) = 1 * 2 ^ 7 + unat (b AND 0x3f)" by (rule nat_or_add) (use a in simp)
  then have "unat ((b AND 0x3f) OR 0x80) = 128 + unat (b AND 0x3f)" by (simp add: unsigned_or_eq or.commute)
  then show ?thesis using a by auto
qed

lemma uuid_v7_canonical:
  assumes "length random = 16"
  shows "is_uuid_v7 (uuid_v7 random now_ms)"
proof -
  obtain a b c d e f g h i j where r: "drop 6 random = [a, b, c, d, e, f, g, h, i, j]"
  proof -
    have "\<exists>a b c d e f g h i j. xs = [a, b, c, d, e, f, g, h, i, j]" if "length xs = 10" for xs :: bytes
      using that by (auto simp: length_Suc_conv eval_nat_numeral)
    moreover have "length (drop 6 random) = 10" using assms by simp
    ultimately show thesis using that by blast
  qed
  define t where "t = map (\<lambda>i. of_int (now_ms div 2 ^ (8 * (5 - i))) :: byte) [0..<6]"
  obtain t0 t1 t2 t3 t4 t5 where t: "t = [t0, t1, t2, t3, t4, t5]"
  proof -
    have "\<exists>a b c d e f. xs = [a, b, c, d, e, f]" if "length xs = 6" for xs :: bytes
      using that by (auto simp: length_Suc_conv eval_nat_numeral)
    moreover have "length t = 6" by (simp add: t_def)
    ultimately show thesis using that by blast
  qed
  define a' c' where "a' = (a AND 0x0f) OR 0x70" and "c' = (c AND 0x3f) OR 0x80"
  have "uuid_v7 random now_ms = uuid_text 0 [t0, t1, t2, t3, t4, t5, a', b, c', d, e, f, g, h, i, j]"
    unfolding uuid_v7_def t_def [symmetric] t r Let_def a'_def c'_def by simp
  moreover have "unat a' div 16 = 7" unfolding a'_def by (rule version_nibble)
  moreover have "hex_char (unat c' div 16) \<in> set (bytes_of ''89ab'')"
    using variant_nibble [of c] unfolding c'_def [symmetric] by (auto simp: hex_char_def bytes_of_def)
  moreover have "hex_char 7 = 55" by (simp add: hex_char_def)
  ultimately show ?thesis
    unfolding is_uuid_v7_def using hex_char_in_digits [OF nibbles(1)] hex_char_in_digits [OF nibbles(2)] hex_char_in_digits [of 7]
    by simp
qed

section \<open>Safe names\<close>

text \<open>A name that stays in its directory: no separator, and no dot name.\<close>

definition safe_name :: "bytes \<Rightarrow> bool" where
  "safe_name f \<longleftrightarrow> list_all (\<lambda>c. 32 \<le> c \<and> c \<noteq> 47 \<and> c \<noteq> 92) f \<and> f \<noteq> [] \<and> f \<noteq> bytes_of ''.'' \<and> f \<noteq> bytes_of ''..''"

lemma basename_no_separator: "list_all (\<lambda>c. c \<noteq> 47 \<and> c \<noteq> 92) (upload_basename filename)"
proof -
  define slashes where "slashes = map (\<lambda>c. if c = 92 then 47 else c) filename"
  define base where "base = rev (takeWhile (\<lambda>c. c \<noteq> 47) (rev slashes))"
  have no: "92 \<notin> set slashes" by (auto simp: slashes_def split: if_splits)
  have "list_all (\<lambda>c. c \<noteq> 47 \<and> c \<noteq> 92) base"
    unfolding list_all_iff base_def using no by (metis set_rev set_takeWhileD)
  moreover have "list_all (\<lambda>c. c \<noteq> 47 \<and> c \<noteq> 92) (bytes_of ''state.pth'')" by (simp add: bytes_of_def)
  ultimately show ?thesis
    unfolding upload_basename_def slashes_def [symmetric] Let_def base_def [symmetric] by (simp only: split: if_split) blast
qed

lemma path_stem_subset: "set (path_stem base) \<subseteq> set base"
proof -
  have "set (if P then xs else take n xs) \<subseteq> set xs" for P n and xs :: bytes by (simp add: set_take_subset)
  then show ?thesis unfolding path_stem_def Let_def .
qed

lemma uuid_chars: "is_uuid_v7 uuid \<Longrightarrow> list_all (\<lambda>c. 32 \<le> c \<and> c \<noteq> 47 \<and> c \<noteq> 92) uuid"
proof -
  assume u: "is_uuid_v7 uuid"
  have hex: "\<forall>c \<in> set (bytes_of ''0123456789abcdef''). 32 \<le> c \<and> c \<noteq> 47 \<and> c \<noteq> 92" by (simp add: bytes_of_def)
  have "32 \<le> uuid ! i \<and> uuid ! i \<noteq> 47 \<and> uuid ! i \<noteq> 92" if "i < length uuid" for i
  proof -
    have "(i, uuid ! i) \<in> set (enumerate 0 uuid)" using that by (force simp: in_set_enumerate_eq)
    then have "if i \<in> {8, 13, 18, 23} then uuid ! i = 45 else uuid ! i \<in> set (bytes_of ''0123456789abcdef'')"
      using u unfolding is_uuid_v7_def list_all_iff by blast
    then show ?thesis using hex by (cases "i \<in> {8, 13, 18, 23}") auto
  qed
  then show ?thesis by (simp add: list_all_length)
qed

lemma upload_id_safe:
  assumes "portable_name (upload_basename filename)" "is_uuid_v7 uuid"
  shows "safe_name (upload_id (upload_basename filename) uuid)"
proof -
  let ?b = "upload_basename filename"
  have b: "list_all (\<lambda>c. 32 \<le> c \<and> c \<noteq> 47 \<and> c \<noteq> 92) ?b"
    using assms(1) basename_no_separator [of filename] by (auto simp: portable_name_def list_all_iff)
  then have "list_all (\<lambda>c. 32 \<le> c \<and> c \<noteq> 47 \<and> c \<noteq> 92) (path_stem ?b)"
    using path_stem_subset [of ?b] by (auto simp: list_all_iff)
  moreover have "list_all (\<lambda>c. 32 \<le> c \<and> c \<noteq> 47 \<and> c \<noteq> 92) (bytes_of ''state'')" by (simp add: bytes_of_def)
  moreover have "length uuid = 36" using assms(2) by (simp add: is_uuid_v7_def)
  ultimately show ?thesis using uuid_chars [OF assms(2)]
    by (auto simp: safe_name_def upload_id_def dest: arg_cong [where f = length])
qed

section \<open>Steps of the store\<close>

text \<open>
  An upload must not name an entry that was erased and is still held: the last premise of
  \<open>Upload\<close>. The finding at the end shows what happens otherwise.
\<close>

definition path_free :: "bytes \<Rightarrow> state_store \<Rightarrow> bool" where
  "path_free state_id s \<longleftrightarrow>
     (\<forall>(n, e) \<in> set (st_entries s). ui_id (sd_info e) = state_id \<longrightarrow> Some (sd_dir e) = st_dir s \<longrightarrow>
        n \<in> snd ` set (st_index s))"

inductive store_step :: "(bytes \<Rightarrow> bytes) \<Rightarrow> state_store \<Rightarrow> state_store \<Rightarrow> bool" for digest where
  Upload: "upload digest random now_ms filename data uuid s = (res, s') \<Longrightarrow>
    path_free (upload_id (upload_basename filename) (upload_uuid_of random now_ms uuid)) s \<Longrightarrow> store_step digest s s'"
| Acquire: "acquire state_id s = (res, s') \<Longrightarrow> store_step digest s s'"
| Release: "n \<in> set (st_handles s) \<Longrightarrow> store_step digest s (release n s)"
| Erase: "erase state_id s = (res, s') \<Longrightarrow> store_step digest s s'"
| Shutdown: "store_step digest s (shutdown s)"

text \<open>The file of an entry is the one that was uploaded and accepted.\<close>

definition intact :: "(bytes \<Rightarrow> bytes) \<Rightarrow> (nat \<times> bytes \<Rightarrow> bytes option) \<Rightarrow> stored_state \<Rightarrow> bool" where
  "intact digest files e \<longleftrightarrow>
     (\<exists>data shape. files (sd_dir e, ui_id (sd_info e)) = Some data \<and> digest data = sd_digest e \<and>
        ui_size (sd_info e) = length data \<and> validate_state_pth data = Inr shape \<and>
        ui_layers (sd_info e) = length (ss_layers shape) \<and> ui_heads (sd_info e) = ss_heads shape \<and>
        ui_head_size (sd_info e) = ss_head_size shape)"

definition current :: "state_store \<Rightarrow> stored_state \<Rightarrow> bool" where
  "current s e \<longleftrightarrow> st_dir s = Some (sd_dir e)"

text \<open>The invariant; \<open>N\<close> are entries that may wait for their destructor.\<close>

definition store_inv_except :: "(bytes \<Rightarrow> bytes) \<Rightarrow> nat set \<Rightarrow> state_store \<Rightarrow> bool" where
  "store_inv_except digest N s \<longleftrightarrow>
     distinct (map fst (st_entries s)) \<and> distinct (map fst (st_index s)) \<and>
     (\<forall>n e. (n, e) \<in> set (st_entries s) \<longrightarrow> n < st_next s \<and> sd_dir e < st_dirs s) \<and>
     (\<forall>i n. (i, n) \<in> set (st_index s) \<longrightarrow> (\<exists>e. (n, e) \<in> set (st_entries s) \<and> ui_id (sd_info e) = i \<and> current s e)) \<and>
     (\<forall>n. n \<in> set (st_handles s) \<longrightarrow> (\<exists>e. (n, e) \<in> set (st_entries s))) \<and>
     (\<forall>n e. (n, e) \<in> set (st_entries s) \<longrightarrow> n \<in> N \<or> n \<in> snd ` set (st_index s) \<or> n \<in> set (st_handles s)) \<and>
     (\<forall>n e. (n, e) \<in> set (st_entries s) \<longrightarrow> current s e \<longrightarrow> intact digest (st_files s) e) \<and>
     (\<forall>n e m f. (n, e) \<in> set (st_entries s) \<longrightarrow> (m, f) \<in> set (st_entries s) \<longrightarrow> current s e \<longrightarrow> current s f \<longrightarrow>
        ui_id (sd_info e) = ui_id (sd_info f) \<longrightarrow> n = m) \<and>
     (\<forall>d g. st_files s (d, g) \<noteq> None \<longrightarrow> safe_name g) \<and> (\<forall>d. st_dir s = Some d \<longrightarrow> d < st_dirs s)"

abbreviation store_inv :: "(bytes \<Rightarrow> bytes) \<Rightarrow> state_store \<Rightarrow> bool" where
  "store_inv digest \<equiv> store_inv_except digest {}"

lemma store_inv_empty: "store_inv digest empty_store"
  by (simp add: store_inv_except_def empty_store_def)

lemma store_invD:
  assumes "store_inv_except digest N s"
  shows "distinct (map fst (st_entries s))" "distinct (map fst (st_index s))"
    "(n, e) \<in> set (st_entries s) \<Longrightarrow> n < st_next s \<and> sd_dir e < st_dirs s"
    "(i, n) \<in> set (st_index s) \<Longrightarrow> \<exists>e. (n, e) \<in> set (st_entries s) \<and> ui_id (sd_info e) = i \<and> current s e"
    "n \<in> set (st_handles s) \<Longrightarrow> \<exists>e. (n, e) \<in> set (st_entries s)"
    "(n, e) \<in> set (st_entries s) \<Longrightarrow> n \<in> N \<or> n \<in> snd ` set (st_index s) \<or> n \<in> set (st_handles s)"
    "(n, e) \<in> set (st_entries s) \<Longrightarrow> current s e \<Longrightarrow> intact digest (st_files s) e"
    "(n, e) \<in> set (st_entries s) \<Longrightarrow> (m, f) \<in> set (st_entries s) \<Longrightarrow> current s e \<Longrightarrow> current s f \<Longrightarrow>
       ui_id (sd_info e) = ui_id (sd_info f) \<Longrightarrow> n = m"
    "st_files s (d, g) \<noteq> None \<Longrightarrow> safe_name g" "st_dir s = Some d \<Longrightarrow> d < st_dirs s"
  using assms unfolding store_inv_except_def by blast+

lemma store_invI:
  assumes "distinct (map fst (st_entries s))" "distinct (map fst (st_index s))"
    "\<And>n e. (n, e) \<in> set (st_entries s) \<Longrightarrow> n < st_next s \<and> sd_dir e < st_dirs s"
    "\<And>i n. (i, n) \<in> set (st_index s) \<Longrightarrow> \<exists>e. (n, e) \<in> set (st_entries s) \<and> ui_id (sd_info e) = i \<and> current s e"
    "\<And>n. n \<in> set (st_handles s) \<Longrightarrow> \<exists>e. (n, e) \<in> set (st_entries s)"
    "\<And>n e. (n, e) \<in> set (st_entries s) \<Longrightarrow> n \<in> N \<or> n \<in> snd ` set (st_index s) \<or> n \<in> set (st_handles s)"
    "\<And>n e. (n, e) \<in> set (st_entries s) \<Longrightarrow> current s e \<Longrightarrow> intact digest (st_files s) e"
    "\<And>n e m f. (n, e) \<in> set (st_entries s) \<Longrightarrow> (m, f) \<in> set (st_entries s) \<Longrightarrow> current s e \<Longrightarrow> current s f \<Longrightarrow>
       ui_id (sd_info e) = ui_id (sd_info f) \<Longrightarrow> n = m"
    "\<And>d g. st_files s (d, g) \<noteq> None \<Longrightarrow> safe_name g" "\<And>d. st_dir s = Some d \<Longrightarrow> d < st_dirs s"
  shows "store_inv_except digest N s"
  using assms unfolding store_inv_except_def by blast

lemma drop_unheld_inv:
  assumes inv: "store_inv_except digest N s"
  shows "store_inv_except digest (N - {n}) (drop_unheld n s)"
proof (cases "n \<in> snd ` set (st_index s) \<or> n \<in> set (st_handles s) \<or> map_of (st_entries s) n = None")
  case True
  have "drop_unheld n s = s" using True by (auto simp: drop_unheld_def split: option.splits)
  moreover have "m \<in> N - {n} \<or> m \<in> snd ` set (st_index s) \<or> m \<in> set (st_handles s)" if "(m, e) \<in> set (st_entries s)" for m e
    using True store_invD(6) [OF inv that] that by (cases "m = n") (auto simp: map_of_eq_None_iff image_iff)
  ultimately show ?thesis using store_invD [OF inv] by (intro store_invI) simp_all
next
  case False
  then obtain e where e: "map_of (st_entries s) n = Some e" "n \<notin> snd ` set (st_index s)" "n \<notin> set (st_handles s)" by auto
  define es fs where "es = AList.delete n (st_entries s)" and "fs = (st_files s)((sd_dir e, ui_id (sd_info e)) := None)"
  define s' where "s' = s\<lparr>st_entries := es, st_files := fs\<rparr>"
  have d: "drop_unheld n s = s'" using e by (simp add: drop_unheld_def s'_def es_def fs_def)
  have mem: "(m, f) \<in> set es \<longleftrightarrow> (m, f) \<in> set (st_entries s) \<and> m \<noteq> n" for m f
    by (auto simp: es_def AList.delete_eq)
  have cur: "current s' f = current s f" for f by (simp add: current_def s'_def)
  have ein: "(n, e) \<in> set (st_entries s)" using e(1) by (rule map_of_SomeD)
  have keep: "intact digest fs f" if f: "(m, f) \<in> set es" "current s f" for m f
  proof -
    have m: "(m, f) \<in> set (st_entries s)" "m \<noteq> n" using f(1) mem by auto
    have "(sd_dir f, ui_id (sd_info f)) \<noteq> (sd_dir e, ui_id (sd_info e))"
    proof
      assume eq: "(sd_dir f, ui_id (sd_info f)) = (sd_dir e, ui_id (sd_info e))"
      then have "current s e" using f(2) by (simp add: current_def)
      then show False using store_invD(8) [OF inv m(1) ein f(2)] eq m(2) by simp
    qed
    then show ?thesis using store_invD(7) [OF inv m(1) f(2)] by (simp add: intact_def fs_def)
  qed
  show ?thesis
    unfolding d
  proof (rule store_invI, goal_cases)
    case 1
    then show ?case using store_invD(1) [OF inv] by (simp add: s'_def es_def distinct_keys_delete)
  next
    case (4 i m)
    then have "(i, m) \<in> set (st_index s)" by (simp add: s'_def)
    moreover from this have "m \<noteq> n" using e(2) by force
    ultimately show ?case using store_invD(4) [OF inv] mem cur by (simp add: s'_def)
  next
    case (5 m)
    then have "m \<in> set (st_handles s)" by (simp add: s'_def)
    moreover from this have "m \<noteq> n" using e(3) by auto
    ultimately show ?case using store_invD(5) [OF inv] mem by (simp add: s'_def, blast?)
  next
    case (6 m f)
    then show ?case using store_invD(6) [OF inv, of m f] mem by (simp add: s'_def)
  next
    case (7 m f)
    then show ?case using keep cur by (simp add: s'_def)
  next
    case (8 m f k g)
    then show ?case using store_invD(8) [OF inv] mem cur by (simp add: s'_def, blast?)
  next
    case (9 d g)
    then show ?case using store_invD(9) [OF inv] by (auto simp: s'_def fs_def split: if_splits)
  qed (use store_invD [OF inv] mem in \<open>auto simp: s'_def\<close>)
qed

lemma ensure_directory_inv:
  assumes inv: "store_inv digest s" and d: "ensure_directory s = (d, s')"
  shows "store_inv digest s'" "st_dir s' = Some d" "st_entries s' = st_entries s" "st_index s' = st_index s"
    "\<And>e. (n, e) \<in> set (st_entries s) \<Longrightarrow> current s' e = current s e"
proof -
  show c: "current s' e = current s e" if "(n, e) \<in> set (st_entries s)" for n e
    using store_invD(3) [OF inv that] d by (auto simp: ensure_directory_def current_def split: option.splits)
  show e: "st_dir s' = Some d" "st_entries s' = st_entries s" "st_index s' = st_index s"
    using d by (auto simp: ensure_directory_def split: option.splits)
  have o: "st_handles s' = st_handles s" "st_files s' = st_files s" "st_next s' = st_next s" "st_dirs s \<le> st_dirs s'" "d < st_dirs s'"
    using d store_invD(10) [OF inv] by (auto simp: ensure_directory_def split: option.splits)
  show "store_inv digest s'"
  proof (rule store_invI, goal_cases)
    case (3 n f)
    then show ?case using store_invD(3) [OF inv, of n f] o e by simp
  next
    case (4 i n)
    then show ?case using store_invD(4) [OF inv, of i n] c e by auto
  next
    case (7 n f)
    then show ?case using store_invD(7) [OF inv, of n f] c e o by simp
  next
    case (8 n f m g)
    then show ?case using store_invD(8) [OF inv, of n f m g] c e by auto
  qed (use store_invD(1,2,5,6,9) [OF inv] e o in auto)
qed

lemma remove_file_inv:
  assumes inv: "store_inv digest s" and free: "\<And>n e. (n, e) \<in> set (st_entries s) \<Longrightarrow> current s e \<Longrightarrow> ui_id (sd_info e) \<noteq> f"
    and d: "st_dir s = Some d"
  shows "store_inv digest (s\<lparr>st_files := (st_files s)((d, f) := None)\<rparr>)"
proof (rule store_invI, goal_cases)
  case (7 n e)
  then have e: "(n, e) \<in> set (st_entries s)" "current s e" by (simp_all add: current_def)
  then show ?case using store_invD(7) [OF inv e] free [OF e] by (auto simp: intact_def)
next
  case (8 n e m g)
  then show ?case using store_invD(8) [OF inv, of n e m g] by (simp add: current_def)
qed (use store_invD(1-6,9,10) [OF inv] in \<open>auto simp: current_def split: if_splits\<close>)

lemma add_entry_inv:
  assumes inv: "store_inv digest s" and d: "st_dir s = Some d" "sd_dir e = d" "ui_id (sd_info e) = f"
    and free: "\<And>n e. (n, e) \<in> set (st_entries s) \<Longrightarrow> current s e \<Longrightarrow> ui_id (sd_info e) \<noteq> f"
    and i: "f \<notin> fst ` set (st_index s)" and safe: "safe_name f"
    and int: "intact digest ((st_files s)((d, f) \<mapsto> data)) e"
  shows "store_inv digest (s\<lparr>st_entries := (st_next s, e) # st_entries s, st_index := (f, st_next s) # st_index s,
    st_next := Suc (st_next s), st_files := (st_files s)((d, f) \<mapsto> data)\<rparr>)" (is "store_inv digest ?s")
proof -
  have cur: "current ?s g = current s g" for g by (simp add: current_def)
  have ce: "current s e" using d by (simp add: current_def)
  have new: "(st_next s, g) \<notin> set (st_entries s)" for g using store_invD(3) [OF inv] by blast
  show ?thesis
  proof (rule store_invI, goal_cases)
    case 1
    then show ?case using store_invD(1) [OF inv] new by auto
  next
    case 2
    then show ?case using store_invD(2) [OF inv] i by simp
  next
    case (3 n g)
    then show ?case using store_invD(3) [OF inv, of n g] store_invD(10) [OF inv d(1)] d(2) by auto
  next
    case (4 j n)
    then show ?case using store_invD(4) [OF inv, of j n] ce d(3) unfolding cur by auto
  next
    case (5 n)
    then show ?case using store_invD(5) [OF inv, of n] by auto
  next
    case (6 n g)
    then show ?case using store_invD(6) [OF inv, of n g] by auto
  next
    case (7 n g)
    then consider "g = e" | "(n, g) \<in> set (st_entries s)" "current s g" unfolding cur by auto
    then show ?case
    proof cases
      case 1
      then show ?thesis using int by simp
    next
      case 2
      then show ?thesis using store_invD(7) [OF inv 2] free [OF 2] by (auto simp: intact_def)
    qed
  next
    case (8 n g m h)
    then show ?case using store_invD(8) [OF inv, of n g m h] free [of n g] free [of m h] d(3) unfolding cur by auto
  next
    case (9 d g)
    then show ?case using store_invD(9) [OF inv] safe by (auto split: if_splits)
  next
    case (10 d)
    then show ?case using store_invD(10) [OF inv] by simp
  qed
qed

lemma upload_inv:
  assumes inv: "store_inv digest s" and u: "upload digest random now_ms filename data uuid s = (res, s')"
    and free: "path_free (upload_id (upload_basename filename) (upload_uuid_of random now_ms uuid)) s"
  shows "store_inv digest s'"
proof (cases "data = [] \<or> length data > max_uploaded_bytes")
  case True
  then have "s' = s" using u by (cases "data = []") (simp_all add: upload_def)
  then show ?thesis using inv by simp
next
  case False
  obtain d s1 where d: "ensure_directory s = (d, s1)" by fastforce
  note e = ensure_directory_inv [OF inv d]
  define base uid sid where "base = upload_basename filename" and "uid = upload_uuid_of random now_ms uuid" and
    "sid = upload_id base uid"
  show ?thesis
  proof (cases "portable_name base \<and> is_uuid_v7 uid \<and> map_of (st_index s1) sid = None")
    case False
    then show ?thesis
      using u e(1) \<open>\<not> (data = [] \<or> length data > max_uploaded_bytes)\<close> d
      by (auto simp: upload_def Let_def base_def uid_def sid_def split: if_splits option.splits)
  next
    case True
    have fr: "ui_id (sd_info g) \<noteq> sid" if g: "(n, g) \<in> set (st_entries s1)" "current s1 g" for n g
    proof
      assume id: "ui_id (sd_info g) = sid"
      have "(n, g) \<in> set (st_entries s)" "current s g" using g e(3,5) by auto
      then have "n \<in> snd ` set (st_index s)"
        using free id unfolding path_free_def base_def uid_def sid_def current_def by force
      then obtain j where j: "(j, n) \<in> set (st_index s1)" using e(4) by auto
      obtain h where h: "(n, h) \<in> set (st_entries s1)" "ui_id (sd_info h) = j" using store_invD(4) [OF e(1) j] by blast
      then have "h = g" using store_invD(1) [OF e(1)] g(1) by (meson eq_key_imp_eq_value)
      then have "(sid, n) \<in> set (st_index s1)" using j h id by simp
      then show False using True by (auto simp: map_of_eq_None_iff image_iff)
    qed
    have safe: "safe_name sid" using upload_id_safe True by (simp add: sid_def base_def)
    have i: "sid \<notin> fst ` set (st_index s1)" using True by (simp add: map_of_eq_None_iff)
    show ?thesis
    proof (cases "validate_state_pth data")
      case (Inl err)
      then have "s' = s1\<lparr>st_files := (st_files s1)((d, sid) := None)\<rparr>"
        using u d True False by (simp add: upload_def Let_def base_def [symmetric] uid_def [symmetric] sid_def [symmetric])
      then show ?thesis using remove_file_inv [OF e(1) fr e(2)] by simp
    next
      case (Inr shape)
      define en where "en = \<lparr>sd_info = \<lparr>ui_id = sid, ui_original = base, ui_size = length data,
        ui_layers = length (ss_layers shape), ui_heads = ss_heads shape, ui_head_size = ss_head_size shape,
        ui_created_ms = now_ms\<rparr>, sd_digest = digest data, sd_dir = d\<rparr>"
      have s': "s' = s1\<lparr>st_entries := (st_next s1, en) # st_entries s1, st_index := (sid, st_next s1) # st_index s1,
          st_next := Suc (st_next s1), st_files := (st_files s1)((d, sid) \<mapsto> data)\<rparr>"
        using u d True False Inr by (simp add: upload_def Let_def base_def [symmetric] uid_def [symmetric] sid_def [symmetric] en_def)
      have int: "intact digest ((st_files s1)((d, sid) \<mapsto> data)) en" using Inr by (simp add: intact_def en_def)
      show ?thesis unfolding s'
        by (rule add_entry_inv [OF e(1,2) _ _ fr i safe int]) (simp_all add: en_def)
    qed
  qed
qed

lemma acquire_inv: "store_inv digest s \<Longrightarrow> acquire sid s = (res, s') \<Longrightarrow> store_inv digest s'"
proof -
  assume inv: "store_inv digest s" and a: "acquire sid s = (res, s')"
  show ?thesis
  proof (cases "map_of (st_index s) sid")
    case None
    then show ?thesis using inv a by (simp add: acquire_def)
  next
    case (Some n)
    then have s': "s' = s\<lparr>st_handles := n # st_handles s\<rparr>" using a by (simp add: acquire_def)
    have n: "\<exists>e. (n, e) \<in> set (st_entries s)" using store_invD(4) [OF inv map_of_SomeD [OF Some]] by blast
    show ?thesis unfolding s'
    proof (rule store_invI, goal_cases)
      case (6 m e)
      then show ?case using store_invD(6) [OF inv, of m e] by auto
    next
      case (8 n e m g)
      then show ?case using store_invD(8) [OF inv, of n e m g] by (simp add: current_def)
    qed (use store_invD(1-5,7,9,10) [OF inv] n in \<open>auto simp: current_def\<close>)
  qed
qed

lemma release_inv:
  assumes inv: "store_inv digest s"
  shows "store_inv digest (release n s)"
proof -
  have "store_inv_except digest {n} (s\<lparr>st_handles := remove1 n (st_handles s)\<rparr>)"
  proof (rule store_invI, goal_cases)
    case (5 m)
    then show ?case using store_invD(5) [OF inv, of m] by (auto dest: notin_set_remove1)
  next
    case (6 m e)
    then show ?case using store_invD(6) [OF inv, of m e] by (cases "m = n") auto
  next
    case (8 n e m g)
    then show ?case using store_invD(8) [OF inv, of n e m g] by (simp add: current_def)
  qed (use store_invD(1-4,7,9,10) [OF inv] in \<open>auto simp: current_def\<close>)
  from drop_unheld_inv [OF this, of n] show ?thesis by (simp add: release_def)
qed

lemma erase_inv:
  assumes inv: "store_inv digest s" and e: "erase sid s = (res, s')"
  shows "store_inv digest s'"
proof (cases "map_of (st_index s) sid")
  case None
  then show ?thesis using inv e by (simp add: erase_def)
next
  case (Some n)
  have s': "s' = drop_unheld n (s\<lparr>st_index := AList.delete sid (st_index s)\<rparr>)" using e Some by (simp add: erase_def)
  have mem: "(i, m) \<in> set (AList.delete sid (st_index s)) \<longleftrightarrow> (i, m) \<in> set (st_index s) \<and> i \<noteq> sid" for i m
    by (auto simp: AList.delete_eq)
  have "store_inv_except digest {n} (s\<lparr>st_index := AList.delete sid (st_index s)\<rparr>)"
  proof (rule store_invI, goal_cases)
    case 2
    then show ?case using store_invD(2) [OF inv] by (simp add: distinct_keys_delete)
  next
    case (4 i m)
    then show ?case using store_invD(4) [OF inv, of i m] by (simp add: mem current_def)
  next
    case (6 m f)
    show ?case
    proof (cases "m \<in> set (st_handles s) \<or> m = n")
      case False
      then obtain i where i: "(i, m) \<in> set (st_index s)" using store_invD(6) [OF inv, of m f] 6 by auto
      have "i \<noteq> sid"
        using i False eq_key_imp_eq_value [OF store_invD(2) [OF inv] map_of_SomeD [OF Some]] by auto
      with i have "(i, m) \<in> set (AList.delete sid (st_index s))" by (simp add: mem)
      then have "m \<in> snd ` set (AList.delete sid (st_index s))" by (rule image_eqI [rotated]) simp
      then show ?thesis by simp
    qed (use 6 in auto)
  next
    case (8 n e m g)
    then show ?case using store_invD(8) [OF inv, of n e m g] by (simp add: current_def)
  qed (use store_invD(1,3,5,7,9,10) [OF inv] in \<open>auto simp: current_def\<close>)
  from drop_unheld_inv [OF this, of n] show ?thesis by (simp add: s')
qed

lemma fold_drop_inv:
  "store_inv_except digest N s \<Longrightarrow> store_inv_except digest (N - set ns) (fold drop_unheld ns s) \<and>
     st_dir (fold drop_unheld ns s) = st_dir s \<and> st_index (fold drop_unheld ns s) = st_index s"
proof (induction ns arbitrary: N s)
  case (Cons n ns)
  have "st_dir (drop_unheld n s) = st_dir s" "st_index (drop_unheld n s) = st_index s"
    by (auto simp: drop_unheld_def split: option.splits)
  moreover have "N - {n} - set ns = N - set (n # ns)" by auto
  ultimately show ?case using Cons.IH [OF drop_unheld_inv [OF Cons.prems, of n]] by simp
qed simp

lemma shutdown_inv:
  assumes inv: "store_inv digest s"
  shows "store_inv digest (shutdown s)"
proof -
  define s1 where "s1 = fold drop_unheld (map snd (st_index s)) (s\<lparr>st_index := []\<rparr>)"
  have "store_inv_except digest (snd ` set (st_index s)) (s\<lparr>st_index := []\<rparr>)"
  proof (rule store_invI, goal_cases)
    case (8 n e m g)
    then show ?case using store_invD(8) [OF inv, of n e m g] by (simp add: current_def)
  qed (use store_invD(1,3,5,6,7,9,10) [OF inv] in \<open>auto simp: current_def\<close>)
  from fold_drop_inv [OF this, of "map snd (st_index s)"]
  have i1: "store_inv digest s1" "st_dir s1 = st_dir s" "st_index s1 = []" by (simp_all add: s1_def)
  show ?thesis
  proof (cases "st_dir s")
    case None
    then show ?thesis using i1 by (simp add: shutdown_def s1_def [symmetric] Let_def)
  next
    case (Some d)
    have "store_inv digest (s1\<lparr>st_files := (\<lambda>(d', f). if d' = d then None else st_files s1 (d', f)), st_dir := None\<rparr>)"
      by (rule store_invI) (use store_invD(1,3,5,6,9) [OF i1(1)] i1(3) in \<open>auto simp: current_def split: if_splits\<close>)
    then show ?thesis using Some by (simp add: shutdown_def s1_def [symmetric] Let_def)
  qed
qed

end
