(* ===== verification/StateAccept.thy ===== *)
theory StateAccept
  imports StateStore
begin

text \<open>
  Writing a state with \<open>write_pth\<close> and uploading it: the writer's archives of state tensors pass
  every check of \<open>validate_state_pth\<close>. The witnesses of the upload properties use it.
\<close>

section \<open>Layer numbers\<close>

lemma unat_byte_of_char [simp]: "unat (of_nat (of_char c) :: byte) = of_char c"
  by (simp add: unat_of_nat)

lemma bytes_of_dec_digits: "list_all is_digit (bytes_of (dec_string n))"
proof -
  have "is_digit (of_nat (of_char c))" if "c \<in> set (dec_string n)" for c
    using dec_string_digits [OF that] by (simp add: is_digit_def word_le_nat_alt)
  then show ?thesis by (auto simp: list_all_iff bytes_of_def)
qed

lemma digits_value_dec: "digits_value (bytes_of (dec_string n)) = n"
proof -
  have "digits_value (bytes_of s) = dec_value s" for s
    by (simp add: digits_value_def dec_value_def bytes_of_def foldl_map)
  then show ?thesis by simp
qed

definition state_name :: "nat \<Rightarrow> bytes" where
  "state_name i = bytes_of ''blocks.'' @ bytes_of (dec_string i) @ bytes_of ''.att.time_state''"

lemma state_name_layer:
  assumes "i < 2 ^ 31"
  shows "is_time_state_tensor (state_name i)" "state_layer (state_name i) = Inr i"
proof -
  have l: "length (state_name i) = 7 + length (dec_string i) + 15" by (simp add: state_name_def)
  then show "is_time_state_tensor (state_name i)"
    by (simp add: is_time_state_tensor_def) (simp add: state_name_def prefix_def suffix_def, blast?)
  have "take (length (state_name i) - 7 - 15) (drop 7 (state_name i)) = bytes_of (dec_string i)"
    unfolding l by (simp add: state_name_def)
  then show "state_layer (state_name i) = Inr i"
    using assms bytes_of_dec_digits [of i] dec_string_not_Nil [of i]
    by (simp add: state_layer_def digits_value_dec Let_def) (simp add: bytes_of_def)
qed

section \<open>A written state tensor passes the checks\<close>

definition state_tensor :: "int \<Rightarrow> int \<Rightarrow> nat \<Rightarrow> write_tensor \<Rightarrow> bool" where
  "state_tensor h s i t \<longleftrightarrow> writable t \<and> wt_name t = state_name i \<and> wt_shape t = [h, s, s] \<and> \<not> wt_fp16 t"

lemma state_tensor_sizes:
  assumes "state_tensor h s i t"
  shows "0 < h" "0 < s" "h < 2 ^ 31" "s < 2 ^ 31" "int (element_count t) = h * (s * s)"
    "length (wt_data t) = element_count t * dtype_size_bytes (written_dtype t)"
  using assms writable_shape [of t] written_dtype_size [of t]
  by (auto simp: state_tensor_def writable_def mult.assoc)

lemma written_stats_total:
  assumes w: "writable t" and s: "tensor_storage ar (written_record i t) = Inr (wt_data t)"
  shows "\<exists>st. compute_tensor_stats ar (written_record i t) = Inr st"
proof -
  have l: "element_count t * dtype_size_bytes (tr_dtype (written_record i t)) = length (wt_data t)" "length (wt_data t) < 2 ^ 64"
    using w written_dtype_size [OF w] writable_shape(4) [OF w] by (simp_all add: writable_def written_record_def element_size_def)
  have "\<exists>vs. map_res (read_element_as_float (wt_data t) (tr_dtype (written_record i t))) [0..<element_count t] = Inr vs"
    by (rule map_res_exists, rule read_element_total(1) [OF _ l]) simp
  moreover have "wrap64 (tr_offset (written_record i t) + element_count t) \<le> element_count t" by (simp add: written_record_def)
  ultimately show ?thesis using s written_layout [OF w, where i = i]
    by (auto simp: compute_tensor_stats_def Let_def)
qed

lemma state_dims_bounded:
  fixes h s :: int
  assumes "0 < h" "0 < s" "h * (s * s) = int n" "n \<le> m div db" "m = max_uploaded_bytes"
  shows "bound_dims name n db (zip [h, s, s] [s * s, s, 1]) 0 1 = Inr (n - 1)"
proof -
  obtain a b where ab: "h = int a" "s = int b" "1 \<le> a" "1 \<le> b"
    using assms(1,2) by (metis nat_0_le zero_less_imp_eq_int less_eq_Suc_le One_nat_def of_nat_0_less_iff)
  have n: "n = a * (b * b)" using assms(3) unfolding ab by (metis of_nat_eq_iff of_nat_mult)
  define k where "k = m div db"
  have k: "a * (b * b) \<le> k" using assms(4) n by (simp add: k_def)
  have bb: "1 \<le> b * b" using ab(4) by (metis mult_le_mono mult_1)
  have "a * 1 \<le> k" by (rule le_trans [OF mult_le_mono2 [OF bb] k])
  moreover have "a * b \<le> a * (b * b)" by (rule mult_le_mono2) (use ab(4) in simp)
  ultimately have "a \<le> k" "a * b \<le> k" using k by (simp, linarith)
  then have 1: "1 \<le> k div a" "a \<le> k div b" "a * b \<le> k div b"
    using k ab by (simp_all add: less_eq_div_iff_mult_less_eq mult.assoc)
  define t1 where "t1 = (a - 1) * (b * b)"
  have e1: "n - 1 = t1 + (b * b - 1)" using ab(3) bb by (cases a) (simp_all add: n t1_def)
  have e2: "b * b - 1 = (b - 1) * b + (b - 1)" using ab(4) by (cases b) simp_all
  have d1: "b * b \<le> (n - 1) div (a - 1)" if "1 < a"
    using that e1 by (simp add: less_eq_div_iff_mult_less_eq t1_def mult.commute)
  have d2: "b \<le> (n - 1 - t1) div (b - 1)" if "1 < b"
    using that e1 e2 by (simp add: less_eq_div_iff_mult_less_eq mult.commute)
  have d3: "1 \<le> (n - 1 - (t1 + (b - 1) * b)) div (b - 1)" if "1 < b"
    using that e1 e2 by (simp add: less_eq_div_iff_mult_less_eq)
  have f: "t1 + (b - 1) * b + (b - 1) = n - 1" using e1 e2 by simp
  have i: "nat (int b * int b) = b * b" by (metis nat_int of_nat_mult)
  have step: "bound_dims name n db ((d, st) # rest) l el = bound_dims name n db rest (l + (nat d - 1) * nat st) (el * nat d)"
    if "0 \<le> st" "el \<le> k div nat d" "1 < nat d \<Longrightarrow> nat st \<le> (n - 1 - l) div (nat d - 1)" for d st rest l el
    using that unfolding k_def assms(5) by (auto simp: Let_def)
  have s1: "bound_dims name n db (zip [h, s, s] [s * s, s, 1]) 0 1 = bound_dims name n db [(s, s), (s, 1)] t1 a"
    using step [of "s * s" 1 h 0 "[(s, s), (s, 1)]"] 1(1) d1 by (simp add: ab i t1_def)
  have s2: "bound_dims name n db [(s, s), (s, 1)] t1 a = bound_dims name n db [(s, 1)] (t1 + (b - 1) * b) (a * b)"
    using step [of s a s t1 "[(s, 1)]"] 1(2) d2 by (simp add: ab)
  have s3: "bound_dims name n db [(s, 1)] (t1 + (b - 1) * b) (a * b) = Inr (n - 1)"
    using step [of 1 "a * b" s "t1 + (b - 1) * b" "[]"] 1(3) d3 f by (simp add: ab)
  show ?thesis unfolding s1 s2 s3 ..
qed

lemma state_tensor_passes:
  assumes t: "state_tensor h s i t" and i: "i < 2 ^ 31" and sz: "length (wt_data t) \<le> max_uploaded_bytes"
    and st: "tensor_storage ar (written_record i t) = Inr (wt_data t)"
    and info: "i \<notin> set (ss_layers info)" "ss_heads info = 0 \<or> ss_heads info = h \<and> ss_head_size info = s"
  shows "check_state_tensor ar info (written_record i t) =
    Inr (info\<lparr>ss_layers := i # ss_layers info, ss_heads := h, ss_head_size := s\<rparr>)"
proof -
  note z = state_tensor_sizes [OF t]
  have w: "writable t" using t by (simp add: state_tensor_def)
  define db where "db = dtype_size_bytes (written_dtype t)"
  have db: "0 < db" by (simp add: db_def dtype_size_bytes_def split: dtype.split)
  have n: "element_count t \<le> max_uploaded_bytes div db"
    using sz z(6) db by (simp add: less_eq_div_iff_mult_less_eq db_def)
  have r: "tr_name (written_record i t) = state_name i" "tr_shape (written_record i t) = [h, s, s]"
    "tr_stride (written_record i t) = [s * s, s, 1]" "tr_offset (written_record i t) = 0"
    "tr_size (written_record i t) = element_count t" "tr_dtype (written_record i t) = written_dtype t"
    "written_dtype t \<in> {BFloat16, Float32}"
    using t by (auto simp: written_record_def state_tensor_def written_dtype_def element_count_def)
  have "0 < int (element_count t)" unfolding z(5) using z(1,2) by simp
  then have e: "0 < element_count t" by simp
  have b: "bound_dims (state_name i) (element_count t) db (zip [h, s, s] [s * s, s, 1]) 0 1 = Inr (element_count t - 1)"
    by (rule state_dims_bounded [OF z(1,2) z(5) [symmetric] n refl])
  have ok: "shape_ok (written_record i t)" using z(1-4) r by (simp add: shape_ok_def)
  obtain stats where "compute_tensor_stats ar (written_record i t) = Inr stats" using written_stats_total [OF w st] by blast
  then show ?thesis
    using state_name_layer [OF i] info ok b n e
    by (auto simp: check_state_tensor_def Let_def r db_def [symmetric] simp del: zip_Cons_Cons bound_dims.simps)
qed

section \<open>The whole upload\<close>

lemma check_records_states:
  assumes ar: "holds ar (pth_entries ts man me)"
    and ts: "\<And>i. i < length ts \<Longrightarrow> state_tensor h s i (ts ! i) \<and> length (wt_data (ts ! i)) \<le> max_uploaded_bytes"
    and len: "length ts < 2 ^ 31"
  shows "k \<le> length ts \<Longrightarrow>
    check_records ar \<lparr>ss_layers = [], ss_heads = 0, ss_head_size = 0\<rparr> (take k (map record_of (enumerate 0 ts))) =
      Inr (if k = 0 then \<lparr>ss_layers = [], ss_heads = 0, ss_head_size = 0\<rparr>
           else \<lparr>ss_layers = rev [0..<k], ss_heads = h, ss_head_size = s\<rparr>)"
proof (induction k)
  case (Suc k)
  then have k: "k < length ts" by simp
  note t = ts [OF k]
  have "take (Suc k) (map record_of (enumerate 0 ts)) = take k (map record_of (enumerate 0 ts)) @ [written_record k (ts ! k)]"
    using k by (simp add: take_Suc_conv_app_nth enumerate_index [OF k, symmetric])
  moreover have "tensor_storage ar (written_record k (ts ! k)) = Inr (wt_data (ts ! k))"
    by (rule holds_storage [OF ar k]) (use t in \<open>simp add: state_tensor_def\<close>)
  moreover have "k < 2 ^ 31" using k len by simp
  moreover have "check_records ar info (rs @ [r]) = bind_res (check_records ar info rs) (\<lambda>info. check_state_tensor ar info r)"
    for info rs r by (induction rs arbitrary: info) (auto simp: bind_res_def split: sum.split)
  ultimately show ?case
    using Suc state_tensor_passes [OF conjunct1 [OF t] _ conjunct2 [OF t]] by simp
qed simp

lemma data_fits_file:
  assumes "write_zip (pth_entries ts man me) = Some z" "length z < 2 ^ 32 - 1" "t \<in> set ts"
  shows "length (wt_data t) \<le> length z"
proof -
  obtain es' where es: "map ze_data es' = map ze_data (pth_entries ts man me)"
    "\<forall>e \<in> set es'. pe_data (opened e) + length (ze_data e) \<le> length z"
    by (rule write_zip_parts [OF assms(1,2)]) blast
  have "wt_data t \<in> set (map ze_data (pth_entries ts man me))"
  proof -
    obtain i where "i < length ts" "ts ! i = t" using assms(3) by (auto simp: in_set_conv_nth)
    then have "(i, t) \<in> set (enumerate 0 ts)" by (auto simp: in_set_enumerate_eq)
    then show ?thesis unfolding pth_entries_def map_append map_map set_append
      by (intro UnI1) (force simp: entry_for_def data_entry_def zip_entry_def)
  qed
  then obtain e where "e \<in> set es'" "ze_data e = wt_data t" unfolding es(1) [symmetric] by auto
  then show ?thesis using es(2) by fastforce
qed

lemma states_file_accepted:
  assumes w: "write_pth path ts man me fs = (None, fs')" and f: "fs' path = Some z" "length z \<le> max_uploaded_bytes"
    and ts: "ts \<noteq> []" "list_all (\<lambda>(i, t). state_tensor h s i t) (enumerate 0 ts)" "length ts < 65531"
  shows "validate_state_pth z = Inr \<lparr>ss_layers = rev [0..<length ts], ss_heads = h, ss_head_size = s\<rparr>"
proof -
  have st: "state_tensor h s i (ts ! i)" if "i < length ts" for i
    using ts(2) that by (simp add: list_all_length nth_enumerate_eq)
  have wr: "list_all writable ts" using st by (simp add: list_all_length state_tensor_def)
  obtain z' where z': "write_zip (pth_entries ts man me) = Some z'"
    using w unfolding write_pth_writable [OF wr] by (auto split: option.splits)
  have "z' = z" using w f(1) z' unfolding write_pth_writable [OF wr] by (auto split: sum.splits if_splits)
  then have z: "write_zip (pth_entries ts man me) = Some z" using z' by simp
  have sm: "length z < 2 ^ 32 - 1" using f(2) by (simp add: max_uploaded_bytes_def)
  have n: "length ts + 4 < 65535" "length ts \<le> 2 ^ 31" "length ts < 2 ^ 31" using ts(3) by simp_all
  obtain ar where ar: "open_archive z True = Inr ar" "holds ar (pth_entries ts man me)"
    using written_holds [OF z sm n(1)] by blast
  have recs: "parse_pth_tensor_records ar = Inr (map record_of (enumerate 0 ts))"
    by (rule holds_records [OF ar(2) wr names_fit [OF z] n(2)])
  have sz: "state_tensor h s i (ts ! i) \<and> length (wt_data (ts ! i)) \<le> max_uploaded_bytes" if "i < length ts" for i
    using st [OF that] data_fits_file [OF z sm nth_mem [OF that]] f(2) by simp
  have "check_records ar \<lparr>ss_layers = [], ss_heads = 0, ss_head_size = 0\<rparr> (take (length ts) (map record_of (enumerate 0 ts))) =
      Inr \<lparr>ss_layers = rev [0..<length ts], ss_heads = h, ss_head_size = s\<rparr>"
    using check_records_states [OF ar(2) sz n(3) order_refl] ts(1) by simp
  moreover have "Min (set (rev [0..<length ts])) = 0" "Max (set (rev [0..<length ts])) = length ts - 1"
    using ts(1) by (auto intro!: Min_eqI Max_eqI)
  ultimately show ?thesis using ar(1) recs ts(1) by (simp add: validate_state_pth_def Let_def)
qed

text \<open>
  C18. A state that was written is accepted: when \<open>write_pth\<close> succeeds on the state tensors of all
  layers, in order, of one shape and not in float16, and the file is not above the limit, uploading
  the file reports its layers, heads and head size.
\<close>

theorem written_state_accepted:
  assumes w: "write_pth path ts man me fs = (None, fs')" and f: "fs' path = Some z" "length z \<le> max_uploaded_bytes"
    and ts: "ts \<noteq> []" "list_all (\<lambda>(i, t). state_tensor h s i t) (enumerate 0 ts)" "length ts < 65531"
  shows "validate_state_pth z = Inr \<lparr>ss_layers = rev [0..<length ts], ss_heads = h, ss_head_size = s\<rparr>"
  by (rule states_file_accepted [OF w f ts])

section \<open>Witnesses\<close>

definition demo_state :: "write_tensor list" where
  "demo_state =
     [\<lparr>wt_name = state_name 0, wt_shape = [1, 1, 1], wt_fp16 = False, wt_bf16 = True, wt_data = [0x80, 0x3f]\<rparr>]"

lemma demo_state_tensors: "list_all (\<lambda>(i, t). state_tensor 1 1 i t) (enumerate 0 demo_state)" "list_all writable demo_state"
  by (simp_all add: demo_state_def state_tensor_def writable_def element_count_def element_size_def)

lemma demo_state_written:
  "\<exists>fs' z. write_pth ''s.pth'' demo_state [] [] (\<lambda>_. None) = (None, fs') \<and> fs' ''s.pth'' = Some z \<and>
     length z \<le> max_uploaded_bytes"
proof -
  obtain z where z: "write_zip (pth_entries demo_state [] []) = Some z" "length z < 1000"
    by (simp add: write_zip_def pth_entries_def demo_state_def state_name_def zip_entry_def entry_for_def data_entry_def
        program_of_def tensor_program_def pickle_string_def pickle_global_def pickle_int_def element_count_def
        element_size_def storage_name_def shape_strides.simps dec_string.simps Let_def)
  have n: "length demo_state + 4 < 65535" "length z < 2 ^ 32 - 1" using z(2) by (simp_all add: demo_state_def)
  obtain ar where ar: "open_archive z False = Inr ar" "holds ar (pth_entries demo_state [] [])"
    using written_holds [OF z(1) n(2,1)] by blast
  have "parse_pth_tensor_records ar = Inr (map record_of (enumerate 0 demo_state))"
    by (rule holds_records [OF ar(2) demo_state_tensors(2) names_fit [OF z(1)]]) (simp add: demo_state_def)
  then show ?thesis unfolding write_pth_writable [OF demo_state_tensors(2)] z(1)
    using ar(1) z(2) by (simp add: max_uploaded_bytes_def)
qed

lemma demo_state_accepted:
  "\<exists>z. length z \<le> max_uploaded_bytes \<and> validate_state_pth z = Inr \<lparr>ss_layers = [0], ss_heads = 1, ss_head_size = 1\<rparr>"
proof -
  obtain fs' z where w: "write_pth ''s.pth'' demo_state [] [] (\<lambda>_. None) = (None, fs')" "fs' ''s.pth'' = Some z"
    "length z \<le> max_uploaded_bytes" using demo_state_written by blast
  have "length demo_state = 1" by (simp add: demo_state_def)
  then show ?thesis using states_file_accepted [OF w _ demo_state_tensors(1)] w(3) by (auto simp: demo_state_def)
qed

theorem written_state_accepted_witness:
  "\<exists>fs' z. write_pth ''s.pth'' demo_state [] [] (\<lambda>_. None) = (None, fs') \<and> fs' ''s.pth'' = Some z \<and>
     validate_state_pth z = Inr \<lparr>ss_layers = [0], ss_heads = 1, ss_head_size = 1\<rparr>"
proof -
  obtain fs' z where w: "write_pth ''s.pth'' demo_state [] [] (\<lambda>_. None) = (None, fs')" "fs' ''s.pth'' = Some z"
    "length z \<le> max_uploaded_bytes" using demo_state_written by blast
  have "demo_state \<noteq> []" "length demo_state < 65531" by (simp_all add: demo_state_def)
  from written_state_accepted [OF w this(1) demo_state_tensors(1) this(2)] show ?thesis
    using w by (auto simp: demo_state_def)
qed

theorem upload_check_in_bounds_witness:
  "\<exists>z. validate_state_pth z = Inr \<lparr>ss_layers = [0], ss_heads = 1, ss_head_size = 1\<rparr> \<and>
     validate_state_pth z \<noteq> Inl (ScanFailed UndefinedAccess)"
proof -
  obtain z where z: "length z \<le> max_uploaded_bytes"
    "validate_state_pth z = Inr \<lparr>ss_layers = [0], ss_heads = 1, ss_head_size = 1\<rparr>" using demo_state_accepted by blast
  have "length z < 2 ^ 63" using z(1) by (simp add: max_uploaded_bytes_def)
  from upload_check_in_bounds [OF this] show ?thesis using z(2) by auto
qed

theorem accepted_state_complete_witness:
  "\<exists>z ar recs. validate_state_pth z = Inr \<lparr>ss_layers = [0], ss_heads = 1, ss_head_size = 1\<rparr> \<and>
     open_archive z True = Inr ar \<and> parse_pth_tensor_records ar = Inr recs \<and>
     length (filter (\<lambda>r. is_time_state_tensor (tr_name r)) recs) = 1"
proof -
  obtain z where z: "validate_state_pth z = Inr \<lparr>ss_layers = [0], ss_heads = 1, ss_head_size = 1\<rparr>"
    using demo_state_accepted by blast
  from accepted_state_complete [OF z] obtain ar recs where "open_archive z True = Inr ar" "parse_pth_tensor_records ar = Inr recs"
    and l: "rev [0] = map (\<lambda>r. projr (state_layer (tr_name r))) (filter (\<lambda>r. is_time_state_tensor (tr_name r)) recs)" by auto
  moreover have "length (filter (\<lambda>r. is_time_state_tensor (tr_name r)) recs) = 1" using arg_cong [OF l, of length] by simp
  ultimately show ?thesis using z by blast
qed

end
