(* ===== verification/StoreRuns.thy ===== *)
theory StoreRuns
  imports StateAccept
begin

text \<open>
  Properties of the store of uploaded states over any sequence of operations, retries of uploads,
  and what happens when an entry that is still held is erased and uploaded again.
\<close>

section \<open>Every reachable store\<close>

lemma store_step_inv: "store_step digest s s' \<Longrightarrow> store_inv digest s \<Longrightarrow> store_inv digest s'"
proof (induction rule: store_step.induct)
  case (Upload random now_ms filename data uuid s res s')
  then show ?case using upload_inv by blast
next
  case (Acquire state_id s res s')
  then show ?case using acquire_inv by blast
next
  case (Release n s)
  then show ?case using release_inv by blast
next
  case (Erase state_id s res s')
  then show ?case using erase_inv by blast
next
  case (Shutdown s)
  then show ?case using shutdown_inv by blast
qed

lemma store_reachable_inv: "reachable (\<lambda>s. s = empty_store) (store_step digest) s \<Longrightarrow> store_inv digest s"
proof (induction rule: reachable_induct)
  case (Init s)
  then show ?case by (simp add: store_inv_empty)
next
  case (Step s s')
  then show ?case using store_step_inv by blast
qed


section \<open>Retries\<close>

lemma upload_fresh:
  assumes "data \<noteq> []" "length data \<le> max_uploaded_bytes" "ensure_directory s = (d, s1)"
    "portable_name (upload_basename filename)" "is_uuid_v7 uuid"
    "map_of (st_index s1) (upload_id (upload_basename filename) uuid) = None" "validate_state_pth data = Inr shape"
    "info = \<lparr>ui_id = upload_id (upload_basename filename) uuid, ui_original = upload_basename filename, ui_size = length data,
       ui_layers = length (ss_layers shape), ui_heads = ss_heads shape, ui_head_size = ss_head_size shape, ui_created_ms = now_ms\<rparr>"
  shows "upload digest random now_ms filename data uuid s = (Inr info,
    s1\<lparr>st_entries := (st_next s1, \<lparr>sd_info = info, sd_digest = digest data, sd_dir = d\<rparr>) # st_entries s1,
       st_index := (ui_id info, st_next s1) # st_index s1, st_next := Suc (st_next s1),
       st_files := (st_files s1)((d, ui_id info) \<mapsto> data)\<rparr>)"
proof -
  have u: "upload_uuid_of random now_ms uuid = uuid" using assms(5) by (auto simp: upload_uuid_of_def is_uuid_v7_def)
  show ?thesis using assms by (simp add: upload_def u Let_def)
qed

lemma upload_listed:
  assumes "data \<noteq> []" "length data \<le> max_uploaded_bytes" "st_dir s = Some d"
    "portable_name (upload_basename filename)" "is_uuid_v7 uuid" "sid = upload_id (upload_basename filename) uuid"
    "map_of (st_index s) sid = Some n" "map_of (st_entries s) n = Some e"
  shows "upload digest random now_ms filename data uuid s =
    (if ui_original (sd_info e) = upload_basename filename \<and> ui_size (sd_info e) = length data \<and> sd_digest e = digest data
     then Inr (sd_info e) else Inl (UuidConflict sid), s)"
proof -
  have u: "uuid \<noteq> []" "upload_uuid_of random now_ms uuid = uuid" using assms(5) by (auto simp: upload_uuid_of_def is_uuid_v7_def)
  have "ensure_directory s = (d, s)" using assms(3) by (simp add: ensure_directory_def)
  then show ?thesis using assms u(1) by (simp add: upload_def u(2) Let_def)
qed

lemma upload_success:
  assumes "upload digest random now_ms filename data uuid s = (Inr info, s')" "uuid \<noteq> []"
  shows "\<exists>n e d. map_of (st_index s') (upload_id (upload_basename filename) uuid) = Some n \<and>
    map_of (st_entries s') n = Some e \<and> sd_info e = info \<and> sd_digest e = digest data \<and>
    ui_original info = upload_basename filename \<and> ui_size info = length data \<and> st_dir s' = Some d \<and>
    portable_name (upload_basename filename) \<and> is_uuid_v7 uuid \<and> data \<noteq> [] \<and> length data \<le> max_uploaded_bytes"
proof -
  obtain d s1 where d: "ensure_directory s = (d, s1)" by fastforce
  have dir: "st_dir s1 = Some d" using d by (auto simp: ensure_directory_def split: option.splits)
  have u: "upload_uuid_of random now_ms uuid = uuid" using assms(2) by (simp add: upload_uuid_of_def)
  show ?thesis using assms dir d
    by (auto simp: upload_def u Let_def split: if_splits option.splits sum.splits)
qed


section \<open>An id that is uploaded again while it is held\<close>

text \<open>
  An upload can lose its file: a state is uploaded, acquired by a request and erased, and the
  same file is uploaded again under the same UUID (which the retry of a fan-out does) before the
  request ends. The destructor of the erased entry then removes the file of the new one: its id is
  still listed and can still be acquired, but there is no file to load.
\<close>

theorem reupload_loses_file:
  assumes "validate_state_pth data = Inr shape" "data \<noteq> []" "length data \<le> max_uploaded_bytes"
    "portable_name (upload_basename filename)" "is_uuid_v7 uuid"
    and s1: "upload digest r1 t1 filename data uuid empty_store = (res1, s1)"
    and s2: "acquire (upload_id (upload_basename filename) uuid) s1 = (Some n, s2)"
    and s3: "erase (upload_id (upload_basename filename) uuid) s2 = (True, s3)"
    and s4: "upload digest r2 t2 filename data uuid s3 = (res2, s4)"
  shows "\<exists>info m. res2 = Inr info \<and> list_states (release n s4) = [info] \<and>
    fst (acquire (ui_id info) (release n s4)) = Some m \<and>
    st_files s4 (0, ui_id info) = Some data \<and> st_files (release n s4) (0, ui_id info) = None"
proof -
  define sid where "sid = upload_id (upload_basename filename) uuid"
  define info where "info t = \<lparr>ui_id = sid, ui_original = upload_basename filename, ui_size = length data,
    ui_layers = length (ss_layers shape), ui_heads = ss_heads shape, ui_head_size = ss_head_size shape, ui_created_ms = t\<rparr>" for t
  define en where "en t = \<lparr>sd_info = info t, sd_digest = digest data, sd_dir = 0\<rparr>" for t
  have id: "ui_id (info t) = sid" "sd_info (en t) = info t" "sd_dir (en t) = 0" for t by (simp_all add: info_def en_def)
  have e0: "ensure_directory empty_store = (0, empty_store\<lparr>st_dir := Some 0, st_dirs := Suc 0\<rparr>)"
    by (simp add: ensure_directory_def empty_store_def)
  have s1': "s1 = \<lparr>st_entries = [(0, en t1)], st_index = [(sid, 0)], st_handles = [], st_next = Suc 0, st_dir = Some 0,
      st_dirs = Suc 0, st_files = (\<lambda>_. None)((0, sid) \<mapsto> data)\<rparr>"
    using upload_fresh [OF assms(2,3) e0 assms(4,5) _ assms(1) info_def [unfolded sid_def, of t1], of digest r1] s1
    by (simp add: empty_store_def id en_def sid_def)
  have n: "n = 0" and s2': "s2 = s1\<lparr>st_handles := [0]\<rparr>"
    using s2 by (auto simp: acquire_def s1' sid_def [symmetric])
  have s3': "s3 = s2\<lparr>st_index := []\<rparr>"
    using s3 by (simp add: erase_def s2' s1' sid_def [symmetric] drop_unheld_def)
  have e3: "ensure_directory s3 = (0, s3)" by (simp add: ensure_directory_def s3' s2' s1')
  have s4': "s4 = s3\<lparr>st_entries := [(Suc 0, en t2), (0, en t1)], st_index := [(sid, Suc 0)], st_next := Suc (Suc 0)\<rparr>"
      "res2 = Inr (info t2)"
    using upload_fresh [OF assms(2,3) e3 assms(4,5) _ assms(1) info_def [unfolded sid_def, of t2], of digest r2] s4
    by (simp_all add: s3' s2' s1' id en_def sid_def)
  have r: "release n s4 = s4\<lparr>st_handles := [], st_entries := [(Suc 0, en t2)], st_files := (st_files s4)((0, sid) := None)\<rparr>"
    by (simp add: release_def drop_unheld_def n s4' s3' s2' s1' id)
  show ?thesis unfolding r
    by (intro exI [of _ "info t2"] exI [of _ "Suc 0"])
      (simp add: s4' s3' s2' s1' id list_states_def acquire_def List.map_filter_simps)
qed

section \<open>Witnesses\<close>

definition demo_uuid :: bytes where
  "demo_uuid = uuid_v7 (replicate 16 0) 0"

definition demo_filename :: bytes where
  "demo_filename = bytes_of ''s.pth''"

lemma demo_names:
  "is_uuid_v7 demo_uuid" "portable_name (upload_basename demo_filename)" "demo_uuid \<noteq> []"
  "upload_basename demo_filename = demo_filename" "path_stem demo_filename = bytes_of ''s''"
proof -
  show u: "is_uuid_v7 demo_uuid" unfolding demo_uuid_def by (rule uuid_v7_canonical) simp
  show b: "upload_basename demo_filename = demo_filename" by (simp add: upload_basename_def demo_filename_def bytes_of_def)
  show "portable_name (upload_basename demo_filename)"
    unfolding b by (simp add: portable_name_def demo_filename_def bytes_of_def)
  show "demo_uuid \<noteq> []" using u by (auto simp: is_uuid_v7_def)
  show "path_stem demo_filename = bytes_of ''s''" by (simp add: path_stem_def demo_filename_def bytes_of_def Let_def)
qed

lemma demo_data: "\<exists>z shape. z \<noteq> [] \<and> length z \<le> max_uploaded_bytes \<and> validate_state_pth z = Inr shape"
proof -
  have "validate_state_pth [] \<noteq> Inr shape" for shape
    by (simp add: validate_state_pth_def open_archive_def open_chunked_def Let_def)
  then show ?thesis using demo_state_accepted by metis
qed

lemma upload_empty:
  assumes "z \<noteq> []" "length z \<le> max_uploaded_bytes" "validate_state_pth z = Inr shape"
  shows "\<exists>info s. upload digest [] t demo_filename z demo_uuid empty_store = (Inr info, s) \<and>
    ui_id info = upload_id demo_filename demo_uuid \<and> st_index s = [(upload_id demo_filename demo_uuid, 0)] \<and>
    map_of (st_entries s) 0 \<noteq> None \<and> st_handles s = []"
proof -
  have e0: "ensure_directory empty_store = (0, empty_store\<lparr>st_dir := Some 0, st_dirs := Suc 0\<rparr>)"
    by (simp add: ensure_directory_def empty_store_def)
  show ?thesis using upload_fresh [OF assms(1,2) e0 demo_names(2,1) _ assms(3) refl, of digest "[]"]
    by (simp add: empty_store_def demo_names(4))
qed



theorem reupload_loses_file_witness:
  "\<exists>z info s1 s2 s3 s4. upload (\<lambda>x. x) [] 0 demo_filename z demo_uuid empty_store = (Inr info, s1) \<and>
     acquire (ui_id info) s1 = (Some 0, s2) \<and> erase (ui_id info) s2 = (True, s3) \<and>
     s4 = snd (upload (\<lambda>x. x) [] 5 demo_filename z demo_uuid s3) \<and> length (list_states (release 0 s4)) = 1 \<and>
     st_files s4 (0, ui_id info) = Some z \<and> st_files (release 0 s4) (0, ui_id info) = None"
proof -
  obtain z shape where z: "z \<noteq> []" "length z \<le> max_uploaded_bytes" "validate_state_pth z = Inr shape" using demo_data by blast
  let ?sid = "upload_id (upload_basename demo_filename) demo_uuid"
  obtain info s1 where u: "upload (\<lambda>x. x) [] 0 demo_filename z demo_uuid empty_store = (Inr info, s1)"
    and i: "ui_id info = ?sid" "st_index s1 = [(?sid, 0)]"
    using upload_empty [OF z, of "\<lambda>x. x" 0] unfolding demo_names(4) by blast
  have a: "acquire ?sid s1 = (Some 0, s1\<lparr>st_handles := 0 # st_handles s1\<rparr>)" using i(2) by (simp add: acquire_def)
  obtain s3 where e: "erase ?sid (s1\<lparr>st_handles := 0 # st_handles s1\<rparr>) = (True, s3)" using i(2) by (simp add: erase_def)
  obtain res s4 where u2: "upload (\<lambda>x. x) [] 5 demo_filename z demo_uuid s3 = (res, s4)" by fastforce
  from reupload_loses_file [OF z(3,1,2) demo_names(2,1) u a e u2] obtain info2 where
    "list_states (release 0 s4) = [info2]" "st_files s4 (0, ui_id info2) = Some z"
    "st_files (release 0 s4) (0, ui_id info2) = None" and r: "res = Inr info2" by blast
  moreover have "ui_id info2 = ?sid"
  proof -
    have "st_index s3 = []" using e i(2) by (auto simp: erase_def drop_unheld_def split: option.splits)
    then have "map_of (st_index (snd (ensure_directory s3))) ?sid = None"
      by (simp add: ensure_directory_def split: option.split)
    moreover obtain d s3' where d: "ensure_directory s3 = (d, s3')" by fastforce
    ultimately show ?thesis
      using upload_fresh [OF z(1,2) d demo_names(2,1) _ z(3) refl, of "\<lambda>x. x" "[]" 5] u2 r by simp
  qed
  ultimately show ?thesis using u a e u2 i(1)
    by (intro exI [of _ z] exI [of _ info] exI [of _ s1] exI [of _ "s1\<lparr>st_handles := 0 # st_handles s1\<rparr>"] exI [of _ s3] exI [of _ s4]) simp
qed

end
