(* ===== verification/StateListing.thy ===== *)
theory StateListing
  imports StoreRuns "HOL-Library.Multiset"
begin

text \<open>
  The order in which uploaded states are listed (\<open>UploadedStateStore::list\<close>): the comparison is a
  linear order on the creation time and the id, so that the sort of the library has one result.
\<close>

section \<open>The order\<close>

datatype listing_key = ListingKey int bytes

definition listing_key :: "upload_info \<Rightarrow> listing_key" where
  "listing_key info = ListingKey (ui_created_ms info) (ui_id info)"

lemma lexordp_word: "lexordp (<) (xs :: bytes) ys \<longleftrightarrow> (xs, ys) \<in> lexord {(a, b). a < b}"
  by (simp add: lexordp_def)

lemma lexord_bytes:
  fixes xs ys zs :: bytes
  shows "\<not> lexordp (<) xs xs"
    and "lexordp (<) xs ys \<Longrightarrow> lexordp (<) ys zs \<Longrightarrow> lexordp (<) xs zs"
    and "lexordp (<) xs ys \<or> xs = ys \<or> lexordp (<) ys xs"
proof -
  show "\<not> lexordp (<) xs xs" unfolding lexordp_word by (rule lexord_irreflexive) auto
  show "lexordp (<) xs zs" if "lexordp (<) xs ys" "lexordp (<) ys zs"
    using that unfolding lexordp_word by (rule lexord_trans) (auto simp: trans_def)
  show "lexordp (<) xs ys \<or> xs = ys \<or> lexordp (<) ys xs"
    unfolding lexordp_word by (rule lexord_linear) auto
qed

instantiation listing_key :: linorder
begin

definition less_listing_key :: "listing_key \<Rightarrow> listing_key \<Rightarrow> bool" where
  "less_listing_key k l =
     (case (k, l) of (ListingKey t i, ListingKey u j) \<Rightarrow> if t = u then lexordp (<) i j else t > u)"

definition less_eq_listing_key :: "listing_key \<Rightarrow> listing_key \<Rightarrow> bool" where
  "less_eq_listing_key k l \<longleftrightarrow> k = l \<or> k < l"

instance
proof
  fix k l m :: listing_key
  have irrefl: "\<not> k < k" for k :: listing_key by (cases k) (simp add: less_listing_key_def lexord_bytes(1))
  have trans: "k < m" if "k < l" "l < m" for k l m :: listing_key
    using that by (cases k; cases l; cases m) (auto simp: less_listing_key_def split: if_splits intro: lexord_bytes(2))
  have linear: "k < l \<or> k = l \<or> l < k" for k l :: listing_key
    using lexord_bytes(3) by (cases k; cases l) (auto simp: less_listing_key_def)
  show "k < l \<longleftrightarrow> k \<le> l \<and> \<not> l \<le> k" using irrefl trans by (auto simp: less_eq_listing_key_def)
  show "k \<le> k" by (simp add: less_eq_listing_key_def)
  show "k \<le> m" if "k \<le> l" "l \<le> m" using that trans by (auto simp: less_eq_listing_key_def)
  show "k = l" if "k \<le> l" "l \<le> k" using that irrefl trans by (auto simp: less_eq_listing_key_def)
  show "k \<le> l \<or> l \<le> k" using linear [of k l] by (auto simp: less_eq_listing_key_def)
qed

end

lemma listed_before_key: "listed_before a b \<longleftrightarrow> listing_key a < listing_key b"
  by (simp add: listed_before_def listing_key_def less_listing_key_def)

lemma insert_info_insort: "insert_info x xs = insort_key listing_key x xs"
  by (induction xs) (auto simp: listed_before_key)

definition listed_infos :: "state_store \<Rightarrow> upload_info list" where
  "listed_infos s = List.map_filter (\<lambda>(_, n). map_option sd_info (map_of (st_entries s) n)) (st_index s)"

lemma list_states_sort: "list_states s = sort_key listing_key (listed_infos s)"
  by (simp add: list_states_def listed_infos_def sort_key_def insert_info_insort [abs_def] fun_eq_iff)

section \<open>One result\<close>

lemma listed_ids:
  assumes "store_inv digest s"
  shows "map ui_id (listed_infos s) = map fst (st_index s)" "distinct (map ui_id (listed_infos s))"
proof -
  have entry: "\<exists>e. map_of (st_entries s) n = Some e \<and> ui_id (sd_info e) = i" if "(i, n) \<in> set (st_index s)" for i n
    using store_invD(4) [OF assms that] map_of_is_SomeI [OF store_invD(1) [OF assms]] by blast
  have "map ui_id (List.map_filter (\<lambda>(_, n). map_option sd_info (map_of (st_entries s) n)) xs) = map fst xs"
    if "set xs \<subseteq> set (st_index s)" for xs
    using that by (induction xs) (use entry in \<open>fastforce simp: List.map_filter_simps\<close>)+
  then show ids: "map ui_id (listed_infos s) = map fst (st_index s)" by (simp add: listed_infos_def)
  show "distinct (map ui_id (listed_infos s))" unfolding ids using store_invD(2) [OF assms] .
qed

text \<open>
  Any arrangement of the listed states in which no state precedes one that the comparison puts
  before it is the listing: the result of the sort does not depend on the order in which the hash
  table is walked nor on the algorithm. The listing has one entry for each public id, newest first.
\<close>

theorem listing_determined:
  assumes "reachable (\<lambda>s. s = empty_store) (store_step digest) s"
    and "mset xs = mset (listed_infos s)" "sorted_wrt (\<lambda>a b. \<not> listed_before b a) xs"
  shows "list_states s = xs \<and> mset (map ui_id xs) = mset (map fst (st_index s)) \<and>
    sorted_wrt (\<lambda>a b. ui_created_ms a \<ge> ui_created_ms b) xs"
proof -
  note ids = listed_ids [OF store_reachable_inv [OF assms(1)]]
  have m: "mset (map ui_id xs) = mset (map ui_id (listed_infos s))" unfolding mset_map assms(2) ..
  then have "distinct (map ui_id xs)" using ids(2) by (metis distinct_count_atmost_1 mset_eq_imp_distinct_iff)
  then have "inj_on listing_key (set xs)" by (auto simp: distinct_map listing_key_def inj_on_def)
  moreover have "sorted (map listing_key xs)"
    using assms(3) by (simp add: sorted_map listed_before_key not_less)
  ultimately have "sort_key listing_key (listed_infos s) = xs"
    using assms(2) mset_eq_setD [OF assms(2)] by (intro sort_key_inj_key_eq) auto
  moreover have "sorted_wrt (\<lambda>a b. ui_created_ms a \<ge> ui_created_ms b) xs"
    by (rule sorted_wrt_mono_rel [OF _ assms(3)]) (auto simp: listed_before_def split: if_splits)
  ultimately show ?thesis using m ids(1) by (simp add: list_states_sort)
qed

section \<open>Witness\<close>

theorem listing_determined_witness:
  "\<exists>s x. reachable (\<lambda>s. s = empty_store) (store_step (\<lambda>x. x)) s \<and> list_states s = [x] \<and>
     ui_id x = upload_id demo_filename demo_uuid"
proof -
  obtain z shape where z: "z \<noteq> []" "length z \<le> max_uploaded_bytes" "validate_state_pth z = Inr shape" using demo_data by blast
  obtain info s where u: "upload (\<lambda>x. x) [] 0 demo_filename z demo_uuid empty_store = (Inr info, s)"
    and i: "st_index s = [(upload_id demo_filename demo_uuid, 0)]" and e: "map_of (st_entries s) 0 \<noteq> None"
    using upload_empty [OF z, of "\<lambda>x. x" 0] by blast
  have "store_step (\<lambda>x. x) empty_store s"
    by (rule store_step.Upload [OF u]) (simp add: path_free_def empty_store_def)
  then have r: "reachable (\<lambda>s. s = empty_store) (store_step (\<lambda>x. x)) s" by (blast intro: reachable_init reachable_step)
  obtain en where en: "map_of (st_entries s) 0 = Some en" using e by auto
  have l: "listed_infos s = [sd_info en]" using i en by (simp add: listed_infos_def List.map_filter_simps)
  then have "list_states s = [sd_info en]" using listing_determined [OF r, of "[sd_info en]"] by simp
  moreover have "ui_id (sd_info en) = upload_id demo_filename demo_uuid"
    using listed_ids(1) [OF store_reachable_inv [OF r]] i l by simp
  ultimately show ?thesis using r by blast
qed

end
