(* ===== verification/RlRequests.thy ===== *)
theory RlRequests
  imports Prelude Complex_Main
begin

text \<open>
  The requests of the online reinforcement-learning server (\<open>src/online_rl/server.cpp\<close>): the checks
  of their fields and the assembly of training samples from turns. The fields are what the JSON
  library (jsoncpp) answers about them: a member is absent, has another type, or is given; a number
  read as a float is \<open>None\<close> when it is not finite.
\<close>

section \<open>Fields\<close>

datatype 'a field = Absent | Mistyped | Given 'a

datatype http_error = HttpError nat string

definition require :: "bool \<Rightarrow> string \<Rightarrow> http_error + unit" where
  "require value s = (if value then Inr () else Inl (HttpError 400 s))"

definition number :: "int field \<Rightarrow> string \<Rightarrow> int \<Rightarrow> int \<Rightarrow> int \<Rightarrow> http_error + int" where
  "number v key fallback low high =
     (case v of
        Absent \<Rightarrow> Inr fallback
      | Mistyped \<Rightarrow> Inl (HttpError 400 (key @ '' must be an integer''))
      | Given n \<Rightarrow> if n \<ge> low \<and> n \<le> high then Inr n else Inl (HttpError 400 (key @ '' out of range'')))"

definition real_number :: "real option field \<Rightarrow> string \<Rightarrow> real \<Rightarrow> real \<Rightarrow> real \<Rightarrow> http_error + real" where
  "real_number v key fallback low high =
     (case v of
        Absent \<Rightarrow> Inr fallback
      | Mistyped \<Rightarrow> Inl (HttpError 400 (key @ '' must be numeric''))
      | Given None \<Rightarrow> Inl (HttpError 400 (key @ '' out of range''))
      | Given (Some f) \<Rightarrow> if f \<ge> low \<and> f \<le> high then Inr f else Inl (HttpError 400 (key @ '' out of range'')))"

definition flag :: "bool field \<Rightarrow> string \<Rightarrow> bool \<Rightarrow> http_error + bool" where
  "flag v key fallback =
     (case v of
        Absent \<Rightarrow> Inr fallback
      | Mistyped \<Rightarrow> Inl (HttpError 400 (key @ '' must be boolean''))
      | Given b \<Rightarrow> Inr b)"

section \<open>Tokens and stop rules\<close>

text \<open>An element that is not an integer is \<open>None\<close>.\<close>

definition vocab_token :: "nat \<Rightarrow> string \<Rightarrow> int option \<Rightarrow> http_error + token" where
  "vocab_token vocab complaint t =
     (case t of
        Some n \<Rightarrow> if 0 \<le> n \<and> n < int vocab then Inr n else Inl (HttpError 400 complaint)
      | None \<Rightarrow> Inl (HttpError 400 complaint))"

definition tokens :: "nat \<Rightarrow> int option list field \<Rightarrow> nat \<Rightarrow> http_error + token list" where
  "tokens vocab v limit =
     (case v of
        Given ts \<Rightarrow>
          bind_res (require (ts \<noteq> [] \<and> length ts \<le> limit) ''tokens must be a nonempty bounded array'')
            (\<lambda>_. map_res (vocab_token vocab ''token out of vocabulary'') ts)
      | _ \<Rightarrow> Inl (HttpError 400 ''tokens must be a nonempty bounded array''))"

datatype stop_value = StopText bytes | StopArray "bytes option list" | StopOther

definition stop_text :: "bytes option \<Rightarrow> http_error + bytes" where
  "stop_text s =
     (case s of
        Some t \<Rightarrow> if t \<noteq> [] \<and> length t \<le> 256 then Inr t else Inl (HttpError 400 ''each stop string must be 1..256 bytes'')
      | None \<Rightarrow> Inl (HttpError 400 ''each stop string must be 1..256 bytes''))"

definition text_stops :: "stop_value \<Rightarrow> http_error + bytes list" where
  "text_stops value =
     (let list = (case value of StopText s \<Rightarrow> Some [Some s] | StopArray list \<Rightarrow> Some list | StopOther \<Rightarrow> None) in
      bind_res (require (list \<noteq> None \<and> length (the list) \<le> 16) ''stop must be a string or an array of at most 16 strings'')
        (\<lambda>_. map_res stop_text (the list)))"

record stop_rules =
  sr_ids :: "token list"
  sr_sequences :: "token list list"
  sr_strings :: "bytes list"

definition stop_sequence :: "nat \<Rightarrow> int option list field \<Rightarrow> http_error + token list" where
  "stop_sequence vocab q =
     (case q of
        Given ts \<Rightarrow>
          bind_res (require (ts \<noteq> [] \<and> length ts \<le> 64) ''each stop token sequence must hold 1..64 tokens'')
            (\<lambda>_. tokens vocab q 64)
      | _ \<Rightarrow> Inl (HttpError 400 ''each stop token sequence must hold 1..64 tokens''))"

text \<open>\<open>defaults\<close> are the stops of the options of the server.\<close>

definition stop_rules ::
    "nat \<Rightarrow> bytes list \<Rightarrow> int option list field \<Rightarrow> int option list field list field \<Rightarrow> stop_value field \<Rightarrow>
     http_error + stop_rules" where
  "stop_rules vocab defaults ids sequences stop =
     (let numeric = ids \<noteq> Absent \<or> sequences \<noteq> Absent in
      bind_res (require (stop = Absent \<or> \<not> numeric) ''stop and token stop rules are mutually exclusive'') (\<lambda>_.
      bind_res (case ids of
                  Absent \<Rightarrow> Inr []
                | Mistyped \<Rightarrow> Inl (HttpError 400 ''stop_token_ids must be an array'')
                | Given ts \<Rightarrow> map_res (vocab_token vocab ''invalid stop token'') ts) (\<lambda>is.
      bind_res (case sequences of
                  Absent \<Rightarrow> Inr []
                | Mistyped \<Rightarrow> Inl (HttpError 400 ''stop_token_sequences must be an array of at most 16 sequences'')
                | Given qs \<Rightarrow>
                    bind_res (require (length qs \<le> 16) ''stop_token_sequences must be an array of at most 16 sequences'')
                      (\<lambda>_. map_res (stop_sequence vocab) qs)) (\<lambda>qs.
      bind_res (case stop of
                  Absent \<Rightarrow> Inr (if numeric then [] else defaults)
                | Mistyped \<Rightarrow> text_stops StopOther
                | Given v \<Rightarrow> text_stops v) (\<lambda>ss.
      Inr \<lparr>sr_ids = is, sr_sequences = qs, sr_strings = ss\<rparr>)))))"

section \<open>Training samples\<close>

text \<open>
  The mask of a position is \<open>None\<close> unless it is a boolean or zero or one. Advantages are a scalar,
  an array or anything else; a number that is not finite is \<open>None\<close>.
\<close>

datatype advantages = Scalar "real option" | Elements "real option list" | NoAdvantages

record turn =
  tn_tokens :: "int option list field"
  tn_mask :: "bool option list field"
  tn_advantages :: "advantages option"

record sample =
  sm_tokens :: "token list"
  sm_weights :: "real list"
  sm_temperature :: real

text \<open>The number of selected targets and whether any weight is not zero.\<close>

type_synonym totals = "nat \<times> bool"

fun push_positions ::
    "token list \<Rightarrow> bool option list \<Rightarrow> real option list \<Rightarrow> sample \<Rightarrow> totals \<Rightarrow> http_error + sample \<times> totals" where
  "push_positions (t # ts) (m # ms) (a # as) s (kept, any_weight) =
     (case m of
        None \<Rightarrow> Inl (HttpError 400 ''loss_mask entries must be boolean or 0/1'')
      | Some b \<Rightarrow>
          (case a of
             None \<Rightarrow> Inl (HttpError 400 ''invalid signed advantage'')
           | Some adv \<Rightarrow>
               if \<bar>adv\<bar> > 1000000 then Inl (HttpError 400 ''invalid signed advantage'')
               else
                 let selected = b \<and> sm_tokens s \<noteq> []; weight = (if selected then adv else 0) in
                 push_positions ts ms as
                   (s\<lparr>sm_tokens := sm_tokens s @ [t], sm_weights := sm_weights s @ [weight]\<rparr>)
                   (if selected then Suc kept else kept, any_weight \<or> weight \<noteq> 0)))"
| "push_positions _ _ _ s totals = Inr (s, totals)"

text \<open>A turn that is not an object is \<open>None\<close>.\<close>

definition append_turn ::
    "nat \<Rightarrow> nat \<Rightarrow> advantages \<Rightarrow> turn option \<Rightarrow> sample \<times> totals \<Rightarrow> http_error + sample \<times> totals" where
  "append_turn vocab ctx fallback turn acc =
     (case turn of
        None \<Rightarrow> Inl (HttpError 400 ''turn must be an object'')
      | Some t \<Rightarrow>
          bind_res (tokens vocab (tn_tokens t) ctx) (\<lambda>ids.
          bind_res (case tn_mask t of
                      Given masks \<Rightarrow> if length masks = length ids then Inr masks else Inl (HttpError 400 ''loss_mask must align with tokens'')
                    | _ \<Rightarrow> Inl (HttpError 400 ''loss_mask must align with tokens'')) (\<lambda>masks.
          bind_res (case (case tn_advantages t of Some adv \<Rightarrow> adv | None \<Rightarrow> fallback) of
                      Scalar a \<Rightarrow> Inr (replicate (length ids) a)
                    | Elements as \<Rightarrow>
                        if length as = length ids then Inr as
                        else Inl (HttpError 400 ''advantages must be a signed scalar or token-aligned array'')
                    | NoAdvantages \<Rightarrow> Inl (HttpError 400 ''advantages must be a signed scalar or token-aligned array'')) (\<lambda>as.
          bind_res (require (length (sm_tokens (fst acc)) + length ids \<le> ctx) ''training history exceeds ctx'') (\<lambda>_.
          push_positions ids masks as (fst acc) (snd acc))))))"

fun append_turns ::
    "nat \<Rightarrow> nat \<Rightarrow> advantages \<Rightarrow> turn option list \<Rightarrow> sample \<times> totals \<Rightarrow> http_error + sample \<times> totals" where
  "append_turns vocab ctx fallback [] acc = Inr acc"
| "append_turns vocab ctx fallback (t # ts) acc =
     bind_res (append_turn vocab ctx fallback t acc) (append_turns vocab ctx fallback ts)"

text \<open>A row of \<open>samples\<close>: its own tokens, mask and advantages, and its turns.\<close>

record training_row =
  tr_self :: turn
  tr_turns :: "turn option list field"
  tr_temperature :: "real option field"

definition sample_of ::
    "nat \<Rightarrow> nat \<Rightarrow> real \<Rightarrow> training_row \<Rightarrow> totals \<Rightarrow> http_error + sample \<times> totals" where
  "sample_of vocab ctx temperature row totals =
     bind_res (real_number (tr_temperature row) ''temperature'' temperature (1 / 100) 100) (\<lambda>t.
     bind_res
       (let start = (\<lparr>sm_tokens = [], sm_weights = [], sm_temperature = t\<rparr>, totals);
            own = (case tn_advantages (tr_self row) of Some adv \<Rightarrow> adv | None \<Rightarrow> NoAdvantages)
        in case tr_turns row of
             Absent \<Rightarrow> append_turn vocab ctx NoAdvantages (Some (tr_self row)) start
           | Mistyped \<Rightarrow> Inl (HttpError 400 ''use tokens or nonempty turns'')
           | Given turns \<Rightarrow>
               bind_res (require (tn_tokens (tr_self row) = Absent \<and> turns \<noteq> []) ''use tokens or nonempty turns'') (\<lambda>_.
               bind_res (require (\<not> (case own of Elements _ \<Rightarrow> True | _ \<Rightarrow> False))
                   ''multi-turn sample-level advantages must be scalar; put arrays inside each turn'') (\<lambda>_.
               append_turns vocab ctx own turns start))) (\<lambda>acc.
     bind_res (require (length (sm_tokens (fst acc)) \<ge> 2) ''training sample needs at least two tokens'') (\<lambda>_.
     Inr acc)))"

text \<open>A row that is not an object is \<open>None\<close>.\<close>

fun samples_of ::
    "nat \<Rightarrow> nat \<Rightarrow> real \<Rightarrow> training_row option list \<Rightarrow> totals \<Rightarrow> http_error + sample list \<times> totals" where
  "samples_of vocab ctx temperature [] totals = Inr ([], totals)"
| "samples_of vocab ctx temperature (row # rows) totals =
     (case row of
        None \<Rightarrow> Inl (HttpError 400 ''sample must be an object'')
      | Some r \<Rightarrow>
          bind_res (sample_of vocab ctx temperature r totals) (\<lambda>acc.
          bind_res (samples_of vocab ctx temperature rows (snd acc)) (\<lambda>rest.
          Inr (fst acc # fst rest, snd rest))))"

definition training_batch ::
    "nat \<Rightarrow> nat \<Rightarrow> real \<Rightarrow> training_row option list \<Rightarrow> http_error + sample list \<times> totals" where
  "training_batch vocab ctx temperature rows =
     bind_res (samples_of vocab ctx temperature rows (0, False)) (\<lambda>r.
     bind_res (require (fst (snd r) > 0) ''batch has no selected prediction targets'') (\<lambda>_. Inr r))"

section \<open>Samples\<close>

text \<open>What a pushed position is worth: nothing at the first token or where the mask is off.\<close>

fun weights_from :: "bool \<Rightarrow> bool option list \<Rightarrow> real option list \<Rightarrow> real list" where
  "weights_from begun (m # ms) (a # as) = (if the m \<and> begun then the a else 0) # weights_from True ms as"
| "weights_from begun _ _ = []"

fun selected_from :: "bool \<Rightarrow> bool option list \<Rightarrow> nat" where
  "selected_from begun [] = 0"
| "selected_from begun (m # ms) = (if the m \<and> begun then 1 else 0) + selected_from True ms"

definition usable :: "bool option list \<Rightarrow> real option list \<Rightarrow> bool" where
  "usable masks as \<longleftrightarrow> list_all (\<lambda>m. m \<noteq> None) masks \<and> list_all (\<lambda>a. a \<noteq> None \<and> \<bar>the a\<bar> \<le> 1000000) as"

lemma require_Inr [simp]: "require b e = Inr u \<longleftrightarrow> b"
  by (simp add: require_def)

lemma push_positions_spec:
  assumes "length masks = length ids" "length as = length ids"
  shows "push_positions ids masks as s (kept, any_weight) = Inr r \<longleftrightarrow>
    usable masks as \<and>
    r = (s\<lparr>sm_tokens := sm_tokens s @ ids, sm_weights := sm_weights s @ weights_from (sm_tokens s \<noteq> []) masks as\<rparr>,
         kept + selected_from (sm_tokens s \<noteq> []) masks,
         any_weight \<or> \<not> list_all (\<lambda>w. w = 0) (weights_from (sm_tokens s \<noteq> []) masks as))"
  using assms
proof (induction ids masks as s "(kept, any_weight)" arbitrary: kept any_weight rule: push_positions.induct)
  case (1 t ts m ms a as s kept any_weight)
  show ?case
  proof (cases "m = None \<or> a = None \<or> \<bar>the a\<bar> > 1000000")
    case True
    then show ?thesis by (auto simp: usable_def split: option.splits)
  next
    case False
    then obtain b adv where ma: "m = Some b" "a = Some adv" "\<bar>adv\<bar> \<le> 1000000" by auto
    show ?thesis
      using 1(1) [OF ma(1,2) _ refl refl] 1(2,3) ma by (auto simp: Let_def usable_def)
  qed
qed (auto simp: usable_def)

text \<open>The tokens, mask and advantages of a turn, checked.\<close>

definition turn_parts ::
    "nat \<Rightarrow> nat \<Rightarrow> advantages \<Rightarrow> turn option \<Rightarrow> http_error + token list \<times> bool option list \<times> real option list" where
  "turn_parts vocab ctx fallback turn =
     (case turn of
        None \<Rightarrow> Inl (HttpError 400 ''turn must be an object'')
      | Some t \<Rightarrow>
          bind_res (tokens vocab (tn_tokens t) ctx) (\<lambda>ids.
          bind_res (case tn_mask t of
                      Given masks \<Rightarrow> if length masks = length ids then Inr masks else Inl (HttpError 400 ''loss_mask must align with tokens'')
                    | _ \<Rightarrow> Inl (HttpError 400 ''loss_mask must align with tokens'')) (\<lambda>masks.
          bind_res (case (case tn_advantages t of Some adv \<Rightarrow> adv | None \<Rightarrow> fallback) of
                      Scalar a \<Rightarrow> Inr (replicate (length ids) a)
                    | Elements as \<Rightarrow>
                        if length as = length ids then Inr as
                        else Inl (HttpError 400 ''advantages must be a signed scalar or token-aligned array'')
                    | NoAdvantages \<Rightarrow> Inl (HttpError 400 ''advantages must be a signed scalar or token-aligned array'')) (\<lambda>as.
          Inr (ids, masks, as)))))"

lemma vocab_tokens:
  "map_res (vocab_token vocab e) ts = Inr ids \<longleftrightarrow> ts = map Some ids \<and> set ids \<subseteq> {0..<int vocab}"
  by (induction ts arbitrary: ids) (auto simp: vocab_token_def split: option.splits)

lemma tokens_Inr:
  "tokens vocab v limit = Inr ids \<longleftrightarrow>
     v = Given (map Some ids) \<and> ids \<noteq> [] \<and> length ids \<le> limit \<and> set ids \<subseteq> {0..<int vocab}"
  by (cases v) (auto simp: tokens_def vocab_tokens)

lemma turn_parts_Inr:
  assumes "turn_parts vocab ctx fallback t = Inr (ids, masks, as)"
  shows "length masks = length ids" "length as = length ids" "ids \<noteq> []" "set ids \<subseteq> {0..<int vocab}"
  using assms by (auto simp: turn_parts_def tokens_Inr split: option.splits field.splits if_splits advantages.splits)

definition pushed :: "token list \<Rightarrow> bool option list \<Rightarrow> real option list \<Rightarrow> sample \<times> totals \<Rightarrow> sample \<times> totals" where
  "pushed ids masks as acc =
     (case acc of (s, kept, any_weight) \<Rightarrow>
        (s\<lparr>sm_tokens := sm_tokens s @ ids, sm_weights := sm_weights s @ weights_from (sm_tokens s \<noteq> []) masks as\<rparr>,
         kept + selected_from (sm_tokens s \<noteq> []) masks,
         any_weight \<or> \<not> list_all (\<lambda>w. w = 0) (weights_from (sm_tokens s \<noteq> []) masks as)))"

lemma append_turn_Inr:
  "append_turn vocab ctx fallback t acc = Inr r \<longleftrightarrow>
     (\<exists>ids masks as. turn_parts vocab ctx fallback t = Inr (ids, masks, as) \<and>
        length (sm_tokens (fst acc)) + length ids \<le> ctx \<and> usable masks as \<and> r = pushed ids masks as acc)"
proof -
  have eq: "append_turn vocab ctx fallback t acc =
      bind_res (turn_parts vocab ctx fallback t) (\<lambda>(ids, masks, as).
      bind_res (require (length (sm_tokens (fst acc)) + length ids \<le> ctx) ''training history exceeds ctx'') (\<lambda>_.
      push_positions ids masks as (fst acc) (snd acc)))"
    by (cases t) (simp_all add: append_turn_def turn_parts_def bind_res_def split: sum.split)
  show ?thesis
  proof (cases "turn_parts vocab ctx fallback t")
    case (Inr x)
    obtain ids masks as where x: "x = (ids, masks, as)" by (cases x)
    note l = turn_parts_Inr(1,2) [OF Inr [unfolded x]]
    obtain s kept any_weight where acc: "acc = (s, kept, any_weight)" by (cases acc)
    have "append_turn vocab ctx fallback t acc = Inr r \<longleftrightarrow>
        length (sm_tokens s) + length ids \<le> ctx \<and> push_positions ids masks as s (kept, any_weight) = Inr r"
      unfolding eq unfolding Inr x acc by simp
    then show ?thesis using push_positions_spec [OF l, of s kept any_weight r] by (auto simp: Inr x acc pushed_def)
  qed (simp add: eq)
qed

definition joined ::
    "(token list \<times> bool option list \<times> real option list) list \<Rightarrow> token list \<times> bool option list \<times> real option list" where
  "joined parts = (concat (map fst parts), concat (map (fst \<circ> snd) parts), concat (map (snd \<circ> snd) parts))"

lemma weights_from_append:
  "length ms = length as \<Longrightarrow>
     weights_from b (ms @ ms') (as @ as') = weights_from b ms as @ weights_from (b \<or> ms \<noteq> []) ms' as'"
  by (induction b ms as rule: weights_from.induct) auto

lemma selected_from_append:
  "selected_from b (ms @ ms') = selected_from b ms + selected_from (b \<or> ms \<noteq> []) ms'"
  by (induction b ms rule: selected_from.induct) auto

lemma pushed_pushed:
  assumes "length masks = length ids" "length as = length ids"
  shows "pushed ids' masks' as' (pushed ids masks as acc) = pushed (ids @ ids') (masks @ masks') (as @ as') acc"
proof -
  have "(ids \<noteq> []) = (masks \<noteq> [])" using assms(1) by (cases ids; cases masks) auto
  then show ?thesis
    using assms by (cases acc) (auto simp: pushed_def weights_from_append selected_from_append)
qed

lemma usable_append: "usable (ms @ ms') (as @ as') \<longleftrightarrow> usable ms as \<and> usable ms' as'"
  by (auto simp: usable_def)

lemma append_turns_Inr:
  assumes "append_turns vocab ctx fallback ts acc = Inr r" "length (sm_tokens (fst acc)) \<le> ctx"
  shows "\<exists>parts ids masks as. map_res (turn_parts vocab ctx fallback) ts = Inr parts \<and> joined parts = (ids, masks, as) \<and>
    length masks = length ids \<and> length as = length ids \<and> set ids \<subseteq> {0..<int vocab} \<and> (ts \<noteq> [] \<longrightarrow> ids \<noteq> []) \<and>
    length (sm_tokens (fst acc)) + length ids \<le> ctx \<and> usable masks as \<and> r = pushed ids masks as acc"
  using assms
proof (induction ts arbitrary: acc)
  case Nil
  then show ?case by (cases acc) (simp add: joined_def usable_def pushed_def)
next
  case (Cons t ts)
  then obtain acc' where a: "append_turn vocab ctx fallback t acc = Inr acc'" "append_turns vocab ctx fallback ts acc' = Inr r"
    by auto
  obtain ids masks as where p: "turn_parts vocab ctx fallback t = Inr (ids, masks, as)"
    "length (sm_tokens (fst acc)) + length ids \<le> ctx" "usable masks as" "acc' = pushed ids masks as acc"
    using a(1) unfolding append_turn_Inr by blast
  have len: "length (sm_tokens (fst acc')) = length (sm_tokens (fst acc)) + length ids"
    by (cases acc) (simp add: p(4) pushed_def)
  obtain parts ids' masks' as' where q: "map_res (turn_parts vocab ctx fallback) ts = Inr parts" "joined parts = (ids', masks', as')"
    "length masks' = length ids'" "length as' = length ids'" "set ids' \<subseteq> {0..<int vocab}"
    "length (sm_tokens (fst acc')) + length ids' \<le> ctx" "usable masks' as'" "r = pushed ids' masks' as' acc'"
    using Cons.IH [OF a(2)] len p(2) by auto
  note l = turn_parts_Inr [OF p(1)]
  have "map_res (turn_parts vocab ctx fallback) (t # ts) = Inr ((ids, masks, as) # parts)" using p(1) q(1) by simp
  moreover have "joined ((ids, masks, as) # parts) = (ids @ ids', masks @ masks', as @ as')" using q(2) by (simp add: joined_def)
  ultimately show ?case
    using l q p len pushed_pushed [OF l(1,2)] by (intro exI conjI) (auto simp: usable_append)
qed

section \<open>Properties of samples\<close>

text \<open>A sample row written as one turn: the joined tokens, masks and advantages.\<close>

definition flat_row :: "(token list \<times> bool option list \<times> real option list) \<Rightarrow> training_row \<Rightarrow> training_row" where
  "flat_row parts row =
     (case parts of (ids, masks, as) \<Rightarrow>
        \<lparr>tr_self = \<lparr>tn_tokens = Given (map Some ids), tn_mask = Given masks, tn_advantages = Some (Elements as)\<rparr>,
         tr_turns = Absent, tr_temperature = tr_temperature row\<rparr>)"

definition row_advantages :: "training_row \<Rightarrow> advantages" where
  "row_advantages row = (case tn_advantages (tr_self row) of Some adv \<Rightarrow> adv | None \<Rightarrow> NoAdvantages)"

lemma sample_of_turns:
  assumes "sample_of vocab ctx temperature row totals = Inr r" "tr_turns row = Given turns"
  shows "\<exists>t parts ids masks as. real_number (tr_temperature row) ''temperature'' temperature (1 / 100) 100 = Inr t \<and>
    map_res (turn_parts vocab ctx (row_advantages row)) turns = Inr parts \<and> joined parts = (ids, masks, as) \<and>
    length masks = length ids \<and> length as = length ids \<and> set ids \<subseteq> {0..<int vocab} \<and> 2 \<le> length ids \<and>
    length ids \<le> ctx \<and> usable masks as \<and>
    r = pushed ids masks as (\<lparr>sm_tokens = [], sm_weights = [], sm_temperature = t\<rparr>, totals)"
proof -
  obtain t where t: "real_number (tr_temperature row) ''temperature'' temperature (1 / 100) 100 = Inr t"
    and a: "append_turns vocab ctx (row_advantages row) turns (\<lparr>sm_tokens = [], sm_weights = [], sm_temperature = t\<rparr>, totals) = Inr r"
    and n: "2 \<le> length (sm_tokens (fst r))"
    using assms by (auto simp: sample_of_def Let_def row_advantages_def)
  obtain parts ids masks as where p: "map_res (turn_parts vocab ctx (row_advantages row)) turns = Inr parts"
    "joined parts = (ids, masks, as)" "length masks = length ids" "length as = length ids" "set ids \<subseteq> {0..<int vocab}"
    "length ids \<le> ctx" "usable masks as" "r = pushed ids masks as (\<lparr>sm_tokens = [], sm_weights = [], sm_temperature = t\<rparr>, totals)"
    using append_turns_Inr [OF a] by auto
  have "2 \<le> length ids" using n p(8) by (cases totals) (simp add: pushed_def)
  then show ?thesis using t p by blast
qed

lemma sample_of_single:
  assumes "sample_of vocab ctx temperature row totals = Inr r" "tr_turns row = Absent"
  shows "\<exists>t ids masks as. real_number (tr_temperature row) ''temperature'' temperature (1 / 100) 100 = Inr t \<and>
    length masks = length ids \<and> length as = length ids \<and> set ids \<subseteq> {0..<int vocab} \<and> 2 \<le> length ids \<and>
    length ids \<le> ctx \<and> usable masks as \<and>
    r = pushed ids masks as (\<lparr>sm_tokens = [], sm_weights = [], sm_temperature = t\<rparr>, totals)"
proof -
  obtain t where t: "real_number (tr_temperature row) ''temperature'' temperature (1 / 100) 100 = Inr t"
    and a: "append_turn vocab ctx NoAdvantages (Some (tr_self row)) (\<lparr>sm_tokens = [], sm_weights = [], sm_temperature = t\<rparr>, totals) = Inr r"
    and n: "2 \<le> length (sm_tokens (fst r))"
    using assms by (auto simp: sample_of_def Let_def)
  obtain ids masks as where p: "turn_parts vocab ctx NoAdvantages (Some (tr_self row)) = Inr (ids, masks, as)"
    "length ids \<le> ctx" "usable masks as" "r = pushed ids masks as (\<lparr>sm_tokens = [], sm_weights = [], sm_temperature = t\<rparr>, totals)"
    using a unfolding append_turn_Inr by auto
  have "2 \<le> length ids" using n p(4) by (cases totals) (simp add: pushed_def)
  then show ?thesis using t p turn_parts_Inr [OF p(1)] by blast
qed

text \<open>
  C35. A multi-turn sample that is accepted is the sample of its joined turns sent as one: the same
  tokens, weights, count of targets and temperature.
\<close>

theorem turns_are_joined:
  assumes "sample_of vocab ctx temperature row totals = Inr r" "tr_turns row = Given turns"
  shows "\<exists>parts. map_res (turn_parts vocab ctx (row_advantages row)) turns = Inr parts \<and>
    sample_of vocab ctx temperature (flat_row (joined parts) row) totals = Inr r"
proof -
  obtain t parts ids masks as where p: "real_number (tr_temperature row) ''temperature'' temperature (1 / 100) 100 = Inr t"
    "map_res (turn_parts vocab ctx (row_advantages row)) turns = Inr parts" "joined parts = (ids, masks, as)"
    "length masks = length ids" "length as = length ids" "set ids \<subseteq> {0..<int vocab}" "2 \<le> length ids" "length ids \<le> ctx"
    "usable masks as" "r = pushed ids masks as (\<lparr>sm_tokens = [], sm_weights = [], sm_temperature = t\<rparr>, totals)"
    using sample_of_turns [OF assms] by blast
  let ?self = "tr_self (flat_row (ids, masks, as) row)"
  have "turn_parts vocab ctx NoAdvantages (Some ?self) = Inr (ids, masks, as)"
    using p(4-8) by (auto simp: turn_parts_def flat_row_def tokens_Inr)
  then have "append_turn vocab ctx NoAdvantages (Some ?self) (\<lparr>sm_tokens = [], sm_weights = [], sm_temperature = t\<rparr>, totals) = Inr r"
    using p(8-10) unfolding append_turn_Inr by (intro exI conjI) auto
  moreover have "2 \<le> length (sm_tokens (fst r))" using p(7,10) by (cases totals) (simp add: pushed_def)
  ultimately have "sample_of vocab ctx temperature (flat_row (ids, masks, as) row) totals = Inr r"
    using p(1) by (simp add: sample_of_def flat_row_def)
  then show ?thesis using p(2,3) by auto
qed

lemma length_weights_from: "length ms = length as \<Longrightarrow> length (weights_from b ms as) = length ms"
  by (induction b ms as rule: weights_from.induct) auto

lemma weights_from_bounded: "usable ms as \<Longrightarrow> list_all (\<lambda>w. \<bar>w\<bar> \<le> 1000000) (weights_from b ms as)"
  by (induction b ms as rule: weights_from.induct) (auto simp: usable_def)

lemma hd_weights_from: "ms \<noteq> [] \<Longrightarrow> length as = length ms \<Longrightarrow> hd (weights_from False ms as) = 0"
  by (cases ms; cases as) auto

text \<open>
  A sample that is accepted has at least two tokens of the vocabulary and at most \<open>ctx\<close>, one
  weight per token of magnitude at most one million, and no weight on the first token, which no
  logits predict.
\<close>

theorem sample_wellformed:
  assumes "sample_of vocab ctx temperature row totals = Inr (s, totals')"
  shows "2 \<le> length (sm_tokens s) \<and> length (sm_tokens s) \<le> ctx \<and> set (sm_tokens s) \<subseteq> {0..<int vocab} \<and>
    length (sm_weights s) = length (sm_tokens s) \<and> list_all (\<lambda>w. \<bar>w\<bar> \<le> 1000000) (sm_weights s) \<and> hd (sm_weights s) = 0"
proof -
  obtain t ids masks as where p: "length masks = length ids" "length as = length ids" "set ids \<subseteq> {0..<int vocab}"
    "2 \<le> length ids" "length ids \<le> ctx" "usable masks as"
    "(s, totals') = pushed ids masks as (\<lparr>sm_tokens = [], sm_weights = [], sm_temperature = t\<rparr>, totals)"
  proof (cases "tr_turns row")
    case Absent
    then show ?thesis using sample_of_single [OF assms] that by blast
  next
    case (Given turns)
    then show ?thesis using sample_of_turns [OF assms Given] that by blast
  next
    case Mistyped
    then show ?thesis using assms by (simp add: sample_of_def)
  qed
  have "sm_tokens s = ids" "sm_weights s = weights_from False masks as"
    using p(7) by (cases totals; simp add: pushed_def)+
  moreover have "masks \<noteq> []" using p(1,4) by auto
  ultimately show ?thesis
    using p weights_from_bounded [OF p(6), of False] by (simp add: length_weights_from hd_weights_from)
qed

section \<open>Witnesses\<close>

definition two_turns :: training_row where
  "two_turns =
     \<lparr>tr_self = \<lparr>tn_tokens = Absent, tn_mask = Absent, tn_advantages = Some (Scalar (Some (1 / 2)))\<rparr>,
      tr_turns = Given
        [Some \<lparr>tn_tokens = Given [Some 1, Some 2], tn_mask = Given [Some True, Some True], tn_advantages = None\<rparr>,
         Some \<lparr>tn_tokens = Given [Some 3], tn_mask = Given [Some True], tn_advantages = Some (Elements [Some 2])\<rparr>],
      tr_temperature = Absent\<rparr>"

definition two_turns_sample :: "sample \<times> totals" where
  "two_turns_sample = (\<lparr>sm_tokens = [1, 2, 3], sm_weights = [0, 1 / 2, 2], sm_temperature = 1\<rparr>, 2, True)"

lemma two_turns_accepted: "sample_of 10 8 1 two_turns (0, False) = Inr two_turns_sample"
  by (simp add: sample_of_def two_turns_def two_turns_sample_def real_number_def require_def append_turn_def tokens_def
      vocab_token_def)

theorem turns_are_joined_witness:
  "\<exists>parts. map_res (turn_parts 10 8 (row_advantages two_turns)) [Some \<lparr>tn_tokens = Given [Some 1, Some 2],
       tn_mask = Given [Some True, Some True], tn_advantages = None\<rparr>,
     Some \<lparr>tn_tokens = Given [Some 3], tn_mask = Given [Some True], tn_advantages = Some (Elements [Some 2])\<rparr>] = Inr parts \<and>
   sample_of 10 8 1 (flat_row (joined parts) two_turns) (0, False) = Inr two_turns_sample"
  using turns_are_joined [OF two_turns_accepted] by (simp add: two_turns_def)

theorem sample_wellformed_witness:
  "length (sm_tokens (fst two_turns_sample)) \<le> 8 \<and> hd (sm_weights (fst two_turns_sample)) = 0"
  using sample_wellformed [of 10 8 1 two_turns "(0, False)" "fst two_turns_sample" "snd two_turns_sample"] two_turns_accepted
  by simp

end
