(* ===== verification/RlPolicies.thy ===== *)
theory RlPolicies
  imports RlRequests PrefixPool
begin

text \<open>
  The policies of the online reinforcement-learning server (class \<open>Runtime\<close> in
  \<open>src/online_rl/server.cpp\<close>): which version a request runs on, training on the latest version
  only, publication with the export of files, and the retirement of old versions. A policy is a
  shared object, so policies have addresses. What the learner computes, and the outcome of writing
  files, are parameters; an update that throws leaves the learner as it was.
\<close>

section \<open>State\<close>

record 'w policy =
  pl_version :: string
  pl_step :: nat
  pl_weights :: 'w
  pl_directory :: string
  pl_cache_enabled :: bool

record rl_options =
  op_ctx :: nat
  op_batch :: nat
  op_chunk :: nat
  op_versions :: nat
  op_vocab :: nat
  op_max_tokens :: int
  op_stop :: "bytes list"
  op_output :: string

record ('l, 'w, 'd) rl_runtime =
  rl_options :: rl_options
  rl_run_id :: string
  rl_learner :: 'l
  rl_step :: nat
  rl_version :: nat
  rl_objects :: "nat \<Rightarrow> 'w policy"
  rl_next :: nat
  rl_policies :: "nat list"
  rl_reference :: nat
  rl_cache :: "'d prefix_pool"
  rl_dirs :: "string list"

section \<open>Versions\<close>

definition version_text :: "string \<Rightarrow> nat \<Rightarrow> string" where
  "version_text run_id n = run_id @ '':'' @ dec_string n"

text \<open>\<open>view\<close> is what a snapshot copies of the learner: its initial state and its adapter.\<close>

definition snapshot :: "('l \<Rightarrow> 'w) \<Rightarrow> ('l, 'w, 'd) rl_runtime \<Rightarrow> nat \<times> ('l, 'w, 'd) rl_runtime" where
  "snapshot view s =
     (let a = rl_next s;
          p = \<lparr>pl_version = version_text (rl_run_id s) (rl_version s), pl_step = rl_step s,
               pl_weights = view (rl_learner s), pl_directory = [], pl_cache_enabled = True\<rparr>
      in (a, s\<lparr>rl_objects := (rl_objects s)(a := p), rl_next := Suc a\<rparr>))"

text \<open>The version that a request names; without a name the latest. \<open>policies_\<close> is never empty.\<close>

definition policy :: "string field \<Rightarrow> ('l, 'w, 'd) rl_runtime \<Rightarrow> http_error + nat" where
  "policy v s =
     (case v of
        Absent \<Rightarrow> Inr (last (rl_policies s))
      | Mistyped \<Rightarrow> Inl (HttpError 400 ''policy_version must be a string'')
      | Given name \<Rightarrow>
          (case find (\<lambda>a. pl_version (rl_objects s a) = name) (rl_policies s) of
             Some a \<Rightarrow> Inr a
           | None \<Rightarrow>
               if pl_version (rl_objects s (rl_reference s)) = name then Inr (rl_reference s)
               else Inl (HttpError 409 ''policy version is unknown or retired'')))"

text \<open>The end of the constructor: the first policy is also the reference.\<close>

definition rl_start ::
    "('l \<Rightarrow> 'w) \<Rightarrow> rl_options \<Rightarrow> string \<Rightarrow> 'l \<Rightarrow> nat \<Rightarrow> 'd prefix_pool \<Rightarrow> string list \<Rightarrow> ('l, 'w, 'd) rl_runtime" where
  "rl_start view options run_id learner step cache dirs =
     (let s = \<lparr>rl_options = options, rl_run_id = run_id, rl_learner = learner, rl_step = step, rl_version = 0,
               rl_objects = (\<lambda>_. undefined), rl_next = 0, rl_policies = [], rl_reference = 0, rl_cache = cache, rl_dirs = dirs\<rparr>;
          (a, s') = snapshot view s
      in s'\<lparr>rl_policies := [a], rl_reference := a\<rparr>)"

section \<open>Training\<close>

record train_request =
  tq_policy :: "string field"
  tq_samples :: "training_row option list field"
  tq_learning_rate :: "real option field"
  tq_temperature :: "real option field"

record train_report =
  tp_version :: string
  tp_trained :: nat
  tp_total :: nat
  tp_updated :: bool
  tp_step :: nat

text \<open>
  \<open>update\<close> accumulates the gradients of the samples and runs the optimizer for the given step;
  \<open>None\<close> is an exception.
\<close>

definition train ::
    "(real \<Rightarrow> nat \<Rightarrow> sample list \<Rightarrow> nat \<Rightarrow> 'l \<Rightarrow> 'l option) \<Rightarrow> train_request \<Rightarrow> ('l, 'w, 'd) rl_runtime \<Rightarrow>
     (http_error + train_report) \<times> ('l, 'w, 'd) rl_runtime" where
  "train update r s =
     (let checked =
        (case tq_policy r of
           Given _ \<Rightarrow>
             bind_res (policy (tq_policy r) s) (\<lambda>a.
             if a \<noteq> last (rl_policies s) \<or> pl_step (rl_objects s a) \<noteq> rl_step s then
               Inl (HttpError 409 ''stale rollout: publish the learner and collect a new on-policy batch'')
             else
               bind_res (case tq_samples r of
                           Given rows \<Rightarrow> if rows \<noteq> [] \<and> length rows \<le> op_batch (rl_options s) then Inr rows else Inl (HttpError 400 ''invalid training batch'')
                         | _ \<Rightarrow> Inl (HttpError 400 ''invalid training batch'')) (\<lambda>rows.
               bind_res (require (tq_learning_rate r \<noteq> Absent) ''train requires learning_rate for every step'') (\<lambda>_.
               bind_res (real_number (tq_learning_rate r) ''learning_rate'' 0 (1 / 10 ^ 12) 10) (\<lambda>lr.
               bind_res (real_number (tq_temperature r) ''temperature'' 1 (1 / 100) 100) (\<lambda>temperature.
               bind_res (training_batch (op_vocab (rl_options s)) (op_ctx (rl_options s)) temperature rows) (\<lambda>b.
               Inr (a, lr, b)))))))
         | _ \<Rightarrow> Inl (HttpError 400 ''train requires policy_version from rollout''))
      in case checked of
           Inl e \<Rightarrow> (Inl e, s)
         | Inr (a, lr, batch, kept, any_weight) \<Rightarrow>
             let report = \<lparr>tp_version = pl_version (rl_objects s a), tp_trained = kept,
                   tp_total = (\<Sum>x\<leftarrow>batch. length (sm_tokens x) - 1), tp_updated = any_weight, tp_step = rl_step s\<rparr>
             in if \<not> any_weight then (Inr report, s)
                else
                  (case update lr kept batch (rl_step s + 1) (rl_learner s) of
                     None \<Rightarrow> (Inl (HttpError 500 ''optimizer not executed''), s)
                   | Some l \<Rightarrow>
                       (Inr (report\<lparr>tp_step := rl_step s + 1\<rparr>), s\<lparr>rl_learner := l, rl_step := rl_step s + 1\<rparr>)))"

section \<open>Publication\<close>

definition export_directory :: "('l, 'w, 'd) rl_runtime \<Rightarrow> string" where
  "export_directory s =
     op_output (rl_options s) @ ''/'' @ map (\<lambda>c. if c = CHR '':'' then CHR ''_'' else c) (rl_run_id s) @ ''-step-'' @
     dec_string (rl_step s)"

text \<open>\<open>ok\<close> says whether the files are written and renamed; otherwise the temporary directory is removed.\<close>

definition export_policy ::
    "bool \<Rightarrow> nat \<Rightarrow> ('l, 'w, 'd) rl_runtime \<Rightarrow> http_error + ('l, 'w, 'd) rl_runtime" where
  "export_policy ok a s =
     (let dir = export_directory s in
      if dir \<in> set (rl_dirs s) \<or> dir @ ''.tmp'' \<in> set (rl_dirs s) then Inl (HttpError 409 ''policy export destination exists'')
      else if \<not> ok then Inl (HttpError 500 ''failed to write policy metadata'')
      else Inr (s\<lparr>rl_dirs := dir # rl_dirs s, rl_objects := (rl_objects s)(a := (rl_objects s a)\<lparr>pl_directory := dir\<rparr>)\<rparr>))"

definition save_checkpoint ::
    "bool \<Rightarrow> nat \<Rightarrow> ('l, 'w, 'd) rl_runtime \<Rightarrow> http_error + ('l, 'w, 'd) rl_runtime" where
  "save_checkpoint ok a s =
     (let dir = pl_directory (rl_objects s a) @ ''/training'' in
      if dir \<in> set (rl_dirs s) then Inr s
      else if \<not> ok then Inl (HttpError 500 ''failed to write checkpoint metadata'')
      else Inr (s\<lparr>rl_dirs := dir # rl_dirs s\<rparr>))"

text \<open>An undefined operation of the cache is \<open>None\<close>.\<close>

function retire :: "('l, 'w, 'd) rl_runtime \<Rightarrow> ('l, 'w, 'd) rl_runtime option" where
  "retire s =
     (if length (rl_policies s) > op_versions (rl_options s) then
        let a = hd (rl_policies s); p = rl_objects s a in
        (case pp_erase_identity (rl_cache s) (pl_version p) of
           None \<Rightarrow> None
         | Some c \<Rightarrow>
             retire (s\<lparr>rl_objects := (rl_objects s)(a := p\<lparr>pl_cache_enabled := False\<rparr>), rl_cache := c,
                       rl_policies := tl (rl_policies s)\<rparr>))
      else Some s)"
  by pat_completeness auto
termination
  by (relation "measure (\<lambda>s. length (rl_policies s))") auto

declare retire.simps [simp del]

record publish_request =
  pq_expected :: "nat field"
  pq_checkpoint :: "bool field"
  pq_save :: "bool field"

record publish_report =
  pr_version :: string
  pr_step :: nat

text \<open>
  \<open>export_ok\<close> and \<open>checkpoint_ok\<close> are the outcomes of writing files. The version is counted and the
  snapshot taken before anything is written, and the policy is added after everything is.
\<close>

definition publish ::
    "('l \<Rightarrow> 'w) \<Rightarrow> bool \<Rightarrow> bool \<Rightarrow> publish_request \<Rightarrow> ('l, 'w, 'd) rl_runtime \<Rightarrow>
     ((http_error + publish_report) \<times> ('l, 'w, 'd) rl_runtime) option" where
  "publish view export_ok checkpoint_ok r s =
     (case pq_expected r of
        Given expected \<Rightarrow>
          if expected \<noteq> rl_step s then Some (Inl (HttpError 409 ''learner step changed''), s)
          else
            (case bind_res (flag (pq_checkpoint r) ''checkpoint'' False)
                    (\<lambda>checkpoint. bind_res (flag (pq_save r) ''save'' False) (\<lambda>save. Inr (checkpoint, save \<or> checkpoint))) of
               Inl e \<Rightarrow> Some (Inl e, s)
             | Inr (checkpoint, save) \<Rightarrow>
                 let changed = pl_step (rl_objects s (last (rl_policies s))) \<noteq> rl_step s;
                     (a, s1) = (if changed then snapshot view (s\<lparr>rl_version := rl_version s + 1\<rparr>) else (last (rl_policies s), s))
                 in
                 case (if save \<and> pl_directory (rl_objects s1 a) = [] then export_policy export_ok a s1 else Inr s1) of
                   Inl e \<Rightarrow> Some (Inl e, s1)
                 | Inr s2 \<Rightarrow>
                     (case (if checkpoint then save_checkpoint checkpoint_ok a s2 else Inr s2) of
                        Inl e \<Rightarrow> Some (Inl e, s2)
                      | Inr s3 \<Rightarrow>
                          map_option (\<lambda>s4.
                              (Inr \<lparr>pr_version = pl_version (rl_objects s4 (last (rl_policies s4))), pr_step = rl_step s4\<rparr>, s4))
                            (retire (if changed then s3\<lparr>rl_policies := rl_policies s3 @ [a]\<rparr> else s3))))
      | _ \<Rightarrow> Some (Inl (HttpError 400 ''publish requires expected_step''), s))"

section \<open>Invariant\<close>

definition known :: "('l, 'w, 'd) rl_runtime \<Rightarrow> nat set" where
  "known s = insert (rl_reference s) (set (rl_policies s))"

text \<open>
  \<open>m\<close> bounds the number of policies: \<open>op_versions\<close>, one more while a policy is added.
\<close>

definition policies_ok :: "('l \<Rightarrow> 'w) \<Rightarrow> nat \<Rightarrow> ('l, 'w, 'd) rl_runtime \<Rightarrow> bool" where
  "policies_ok view m s \<longleftrightarrow>
     rl_policies s \<noteq> [] \<and> length (rl_policies s) \<le> m \<and> 1 \<le> op_versions (rl_options s) \<and>
     (\<forall>a \<in> known s. a < rl_next s \<and> pl_step (rl_objects s a) \<le> rl_step s \<and>
        (\<exists>n \<le> rl_version s. pl_version (rl_objects s a) = version_text (rl_run_id s) n)) \<and>
     inj_on (\<lambda>a. pl_version (rl_objects s a)) (known s) \<and>
     sorted_wrt (\<lambda>a b. a < b \<and> pl_step (rl_objects s a) < pl_step (rl_objects s b)) (rl_policies s) \<and>
     (\<forall>a \<in> set (rl_policies s). pl_cache_enabled (rl_objects s a)) \<and>
     (rl_reference s \<notin> set (rl_policies s) \<longrightarrow> \<not> pl_cache_enabled (rl_objects s (rl_reference s))) \<and>
     (pl_step (rl_objects s (last (rl_policies s))) = rl_step s \<longrightarrow>
        pl_weights (rl_objects s (last (rl_policies s))) = view (rl_learner s)) \<and>
     pp_inv (rl_cache s)"

lemma version_text_inj [simp]: "version_text run_id m = version_text run_id n \<longleftrightarrow> m = n"
  by (simp add: version_text_def)

lemma policies_ok_start:
  assumes "pp_inv cache" "1 \<le> op_versions options"
  shows "policies_ok view (op_versions options) (rl_start view options run_id learner step cache dirs)"
  using assms by (simp add: policies_ok_def rl_start_def snapshot_def known_def Let_def)

lemma policy_known:
  assumes "policy v s = Inr a" "rl_policies s \<noteq> []"
  shows "a \<in> known s" "v = Given name \<Longrightarrow> pl_version (rl_objects s a) = name"
proof -
  show "a \<in> known s"
    using assms by (auto simp: policy_def known_def split: field.splits option.splits if_splits dest: find_SomeD)
  show "v = Given name \<Longrightarrow> pl_version (rl_objects s a) = name"
    using assms by (auto simp: policy_def split: option.splits if_splits dest: find_SomeD)
qed

text \<open>Training changes the learner and the step only.\<close>

lemma train_cases:
  assumes "train update r s = (res, s')"
  shows "(s' = s \<and> (\<forall>report. res = Inr report \<longrightarrow> \<not> tp_updated report)) \<or> (\<exists>l report v. s' = s\<lparr>rl_learner := l, rl_step := rl_step s + 1\<rparr> \<and> res = Inr report \<and> tp_updated report \<and>
     tq_policy r = Given v \<and> policy (tq_policy r) s = Inr (last (rl_policies s)) \<and>
     pl_step (rl_objects s (last (rl_policies s))) = rl_step s)"
proof (cases "tq_policy r")
  case (Given v)
  then show ?thesis
    using assms by (auto simp: train_def Let_def split: sum.splits option.splits if_splits)
qed (use assms in \<open>auto simp: train_def\<close>)

lemma policies_ok_train:
  assumes "policies_ok view m s" "train update r s = (res, s')"
  shows "policies_ok view m s'"
  using train_cases [OF assms(2)]
proof
  assume "\<exists>l report v. s' = s\<lparr>rl_learner := l, rl_step := rl_step s + 1\<rparr> \<and> res = Inr report \<and> tp_updated report \<and>
     tq_policy r = Given v \<and> policy (tq_policy r) s = Inr (last (rl_policies s)) \<and>
     pl_step (rl_objects s (last (rl_policies s))) = rl_step s"
  then obtain l where s': "s' = s\<lparr>rl_learner := l, rl_step := rl_step s + 1\<rparr>"
    and e: "pl_step (rl_objects s (last (rl_policies s))) = rl_step s" by blast
  show ?thesis using assms(1) e unfolding s' by (auto simp: policies_ok_def known_def intro: le_SucI)
qed (use assms(1) in simp)

text \<open>What retirement keeps.\<close>

definition same_runtime :: "('l, 'w, 'd) rl_runtime \<Rightarrow> ('l, 'w, 'd) rl_runtime \<Rightarrow> bool" where
  "same_runtime s s' \<longleftrightarrow>
     rl_options s' = rl_options s \<and> rl_run_id s' = rl_run_id s \<and> rl_learner s' = rl_learner s \<and> rl_step s' = rl_step s \<and>
     rl_version s' = rl_version s \<and> rl_next s' = rl_next s \<and> rl_reference s' = rl_reference s \<and> rl_dirs s' = rl_dirs s \<and>
     (\<forall>a. pl_version (rl_objects s' a) = pl_version (rl_objects s a) \<and> pl_step (rl_objects s' a) = pl_step (rl_objects s a) \<and>
        pl_weights (rl_objects s' a) = pl_weights (rl_objects s a) \<and> pl_directory (rl_objects s' a) = pl_directory (rl_objects s a))"

lemma same_runtime_trans: "same_runtime s1 s2 \<Longrightarrow> same_runtime s2 s3 \<Longrightarrow> same_runtime s1 s3"
  by (simp add: same_runtime_def)

definition retire_front :: "'d prefix_pool \<Rightarrow> ('l, 'w, 'd) rl_runtime \<Rightarrow> ('l, 'w, 'd) rl_runtime" where
  "retire_front c s =
     s\<lparr>rl_objects := (rl_objects s)(hd (rl_policies s) := (rl_objects s (hd (rl_policies s)))\<lparr>pl_cache_enabled := False\<rparr>),
       rl_cache := c, rl_policies := tl (rl_policies s)\<rparr>"

lemma policies_ok_front:
  assumes "policies_ok view m s" "1 < length (rl_policies s)" "pp_inv c"
  shows "policies_ok view m (retire_front c s)" "same_runtime s (retire_front c s)"
proof -
  obtain a b bs where p: "rl_policies s = a # b # bs" using assms(2) by (metis length_Cons length_0_conv list.exhaust not_one_less_zero less_irrefl One_nat_def)
  have a: "a \<notin> set (b # bs)" using assms(1) unfolding policies_ok_def p by auto
  have k: "known (retire_front c s) \<subseteq> known s" by (auto simp: known_def retire_front_def p)
  have v: "pl_version (rl_objects (retire_front c s) x) = pl_version (rl_objects s x)"
    "pl_step (rl_objects (retire_front c s) x) = pl_step (rl_objects s x)"
    "pl_weights (rl_objects (retire_front c s) x) = pl_weights (rl_objects s x)" for x
    by (simp_all add: retire_front_def)
  have "inj_on (\<lambda>x. pl_version (rl_objects (retire_front c s) x)) (known (retire_front c s))"
    unfolding v using assms(1) k inj_on_subset unfolding policies_ok_def by blast
  moreover have "sorted_wrt (\<lambda>x y. x < y \<and> pl_step (rl_objects (retire_front c s) x) < pl_step (rl_objects (retire_front c s) y))
      (rl_policies (retire_front c s))"
    unfolding v using assms(1) by (simp add: policies_ok_def retire_front_def p)
  ultimately show "policies_ok view m (retire_front c s)"
    using assms(1,3) k a unfolding policies_ok_def v
    by (auto simp: retire_front_def p subset_iff)
  show "same_runtime s (retire_front c s)" by (simp add: same_runtime_def retire_front_def)
qed

lemma retire_spec:
  assumes "policies_ok view m s"
  shows "\<exists>s'. retire s = Some s' \<and> policies_ok view (op_versions (rl_options s)) s' \<and> same_runtime s s' \<and>
    rl_policies s' = drop (length (rl_policies s) - op_versions (rl_options s)) (rl_policies s) \<and>
    set (pp_abs (rl_cache s')) = {e \<in> set (pp_abs (rl_cache s)).
      fst e \<notin> (\<lambda>a. pl_version (rl_objects s a)) ` set (take (length (rl_policies s) - op_versions (rl_options s)) (rl_policies s))}"
  using assms
proof (induction s rule: retire.induct)
  case (1 s)
  show ?case
  proof (cases "length (rl_policies s) > op_versions (rl_options s)")
    case True
    let ?a = "hd (rl_policies s)"
    let ?v = "pl_version (rl_objects s ?a)"
    obtain c where c: "pp_erase_identity (rl_cache s) ?v = Some c" "pp_inv c"
      "pp_abs c = filter (\<lambda>x. fst x \<noteq> ?v) (pp_abs (rl_cache s))"
      using pp_erase_correct [of "rl_cache s" ?v] 1(2) unfolding policies_ok_def by blast
    have n: "1 < length (rl_policies s)" using True 1(2) by (simp add: policies_ok_def)
    note f = policies_ok_front [OF 1(2) n c(2)]
    have step: "retire s = retire (retire_front c s)"
      using True c(1) by (simp add: retire.simps [of s] retire_front_def Let_def)
    have front: "rl_policies (retire_front c s) = tl (rl_policies s)" "rl_options (retire_front c s) = rl_options s"
      "rl_cache (retire_front c s) = c"
      "(\<lambda>x. pl_version (rl_objects (retire_front c s) x)) = (\<lambda>x. pl_version (rl_objects s x))"
      by (simp_all add: retire_front_def fun_eq_iff)
    note ih = 1(1) [OF True refl refl c(1), folded retire_front_def, OF f(1), unfolded front length_tl]
    obtain x xs where x: "rl_policies s = x # xs" using n by (cases "rl_policies s") auto
    have k: "Suc (length xs) - op_versions (rl_options s) = Suc (length xs - op_versions (rl_options s))"
      using True by (simp add: x Suc_diff_le)
    obtain s' where s': "retire (retire_front c s) = Some s'" "policies_ok view (op_versions (rl_options s)) s'"
      "same_runtime s s'" "rl_policies s' = drop (length xs - op_versions (rl_options s)) xs"
      "set (pp_abs (rl_cache s')) = {e \<in> set (pp_abs c).
        fst e \<notin> (\<lambda>a. pl_version (rl_objects s a)) ` set (take (length xs - op_versions (rl_options s)) xs)}"
      using ih same_runtime_trans [OF f(2)] unfolding x by auto
    show ?thesis
      unfolding step x length_Cons k
      by (intro exI [of _ s'] conjI s'(1-3)) (use s'(4,5) in \<open>auto simp: c(3) x\<close>)
  next
    case False
    then show ?thesis using 1(2) by (subst retire.simps) (auto simp: policies_ok_def same_runtime_def)
  qed
qed

section \<open>Publication keeps the invariant\<close>

lemma policies_ok_snapshot:
  assumes "policies_ok view m s" "snapshot view (s\<lparr>rl_version := rl_version s + 1\<rparr>) = (a, s1)"
  shows "policies_ok view m s1" "a = rl_next s" "rl_policies s1 = rl_policies s" "rl_reference s1 = rl_reference s"
    "x \<noteq> a \<Longrightarrow> rl_objects s1 x = rl_objects s x" "rl_cache s1 = rl_cache s" "rl_options s1 = rl_options s" "rl_dirs s1 = rl_dirs s"
    "pl_directory (rl_objects s1 a) = []" "rl_step s1 = rl_step s" "rl_run_id s1 = rl_run_id s"
    "pl_step (rl_objects s (last (rl_policies s))) \<noteq> rl_step s \<Longrightarrow>
       policies_ok view (Suc m) (s1\<lparr>rl_policies := rl_policies s @ [a]\<rparr>)"
proof -
  have s1: "a = rl_next s" "s1 = s\<lparr>rl_version := rl_version s + 1, rl_objects := (rl_objects s)(rl_next s :=
      \<lparr>pl_version = version_text (rl_run_id s) (rl_version s + 1), pl_step = rl_step s, pl_weights = view (rl_learner s),
       pl_directory = [], pl_cache_enabled = True\<rparr>), rl_next := Suc (rl_next s)\<rparr>"
    using assms(2) by (auto simp: snapshot_def Let_def)
  have old: "x < rl_next s" if "x \<in> known s" for x using assms(1) that by (auto simp: policies_ok_def)
  then have neq: "x \<noteq> rl_next s" if "x \<in> known s" for x using that by blast
  have old': "x < rl_next s" if "x \<in> set (rl_policies s)" for x using old that by (simp add: known_def)
  have l: "last (rl_policies s) \<in> known s" using assms(1) by (simp add: policies_ok_def known_def)
  have fresh: "pl_version (rl_objects s x) \<noteq> version_text (rl_run_id s) (Suc (rl_version s))" if "x \<in> known s" for x
    using assms(1) that unfolding policies_ok_def by fastforce
  have k1: "known s1 = known s" by (simp add: known_def s1(2))
  have obj: "rl_objects s1 x = rl_objects s x" if "x \<in> known s" for x using neq [OF that] by (simp add: s1(2))
  have sw: "sorted_wrt (\<lambda>a b. a < b \<and> pl_step (rl_objects s1 a) < pl_step (rl_objects s1 b)) (rl_policies s)"
    by (rule sorted_wrt_mono_rel [of _ "\<lambda>a b. a < b \<and> pl_step (rl_objects s a) < pl_step (rl_objects s b)"])
      (use assms(1) in \<open>auto simp: policies_ok_def obj known_def\<close>)
  have inj: "inj_on (\<lambda>x. pl_version (rl_objects s1 x)) (known s)"
    using assms(1) by (simp add: policies_ok_def obj cong: inj_on_cong)
  have vers: "\<exists>n \<le> Suc (rl_version s). pl_version (rl_objects s x) = version_text (rl_run_id s) n" if "x \<in> known s" for x
    using assms(1) that unfolding policies_ok_def by (meson le_SucI)
  have steps: "pl_step (rl_objects s x) \<le> rl_step s" if "x \<in> known s" for x using assms(1) that by (simp add: policies_ok_def)
  have sel: "rl_policies s1 = rl_policies s" "rl_options s1 = rl_options s" "rl_next s1 = Suc (rl_next s)" "rl_step s1 = rl_step s"
    "rl_version s1 = Suc (rl_version s)" "rl_run_id s1 = rl_run_id s" "rl_reference s1 = rl_reference s" "rl_cache s1 = rl_cache s"
    "rl_learner s1 = rl_learner s"
    by (simp_all add: s1(2))
  have ref: "rl_reference s \<in> known s" "set (rl_policies s) \<subseteq> known s" by (auto simp: known_def)
  show ok: "policies_ok view m s1"
    unfolding policies_ok_def k1 sel
    using assms(1) inj sw vers steps old obj ref l
    by (auto simp: policies_ok_def less_Suc_eq subset_iff)
  show "policies_ok view (Suc m) (s1\<lparr>rl_policies := rl_policies s @ [a]\<rparr>)"
    if changed: "pl_step (rl_objects s (last (rl_policies s))) \<noteq> rl_step s"
  proof -
    have newest: "rl_objects s1 (rl_next s) = \<lparr>pl_version = version_text (rl_run_id s) (rl_version s + 1), pl_step = rl_step s,
        pl_weights = view (rl_learner s), pl_directory = [], pl_cache_enabled = True\<rparr>"
      by (simp add: s1(2))
    have k: "known (s1\<lparr>rl_policies := rl_policies s @ [a]\<rparr>) = insert (rl_next s) (known s)"
      by (auto simp: known_def s1)
    have below: "pl_step (rl_objects s x) < rl_step s" if x: "x \<in> set (rl_policies s)" for x
    proof -
      obtain ys where ys: "rl_policies s = ys @ [last (rl_policies s)]" using x by (metis append_butlast_last_id list.set_cases list.distinct(1))
      have "x = last (rl_policies s) \<or> pl_step (rl_objects s x) < pl_step (rl_objects s (last (rl_policies s)))"
        using assms(1) x ys unfolding policies_ok_def by (metis (no_types, lifting) UnE set_append sorted_wrt_append list.set_intros(1) empty_iff insert_iff list.set(1) list.set(2))
      then show ?thesis using steps [OF l] changed by auto
    qed
    have "inj_on (\<lambda>x. pl_version (rl_objects s1 x)) (insert (rl_next s) (known s))"
      using inj fresh fresh [symmetric] neq by (auto simp: newest obj)
    moreover have "sorted_wrt (\<lambda>a b. a < b \<and> pl_step (rl_objects s1 a) < pl_step (rl_objects s1 b)) (rl_policies s @ [a])"
      using sw old' below ref(2) by (auto simp: sorted_wrt_append s1(1) newest obj subset_iff)
    moreover have "pl_version (rl_objects s1 x) = pl_version (rl_objects s x)" if "x \<in> known s" for x using obj that by simp
    ultimately show ?thesis
      using assms(1) vers steps old obj ref unfolding policies_ok_def k
      by (auto simp: sel newest s1(1) less_Suc_eq subset_iff)
  qed
qed (use assms(2) in \<open>auto simp: snapshot_def Let_def\<close>)

text \<open>What the files of a publication change.\<close>

definition files_only :: "('l, 'w, 'd) rl_runtime \<Rightarrow> ('l, 'w, 'd) rl_runtime \<Rightarrow> bool" where
  "files_only s s' \<longleftrightarrow>
     rl_options s' = rl_options s \<and> rl_run_id s' = rl_run_id s \<and> rl_learner s' = rl_learner s \<and> rl_step s' = rl_step s \<and>
     rl_version s' = rl_version s \<and> rl_next s' = rl_next s \<and> rl_policies s' = rl_policies s \<and>
     rl_reference s' = rl_reference s \<and> rl_cache s' = rl_cache s \<and>
     (\<forall>x. pl_version (rl_objects s' x) = pl_version (rl_objects s x) \<and> pl_step (rl_objects s' x) = pl_step (rl_objects s x) \<and>
        pl_weights (rl_objects s' x) = pl_weights (rl_objects s x) \<and>
        pl_cache_enabled (rl_objects s' x) = pl_cache_enabled (rl_objects s x))"

lemma files_only_refl: "files_only s s"
  by (simp add: files_only_def)

lemma files_only_export: "export_policy ok a s = Inr s' \<Longrightarrow> files_only s s'"
  by (auto simp: export_policy_def Let_def files_only_def split: if_splits)

lemma files_only_checkpoint: "save_checkpoint ok a s = Inr s' \<Longrightarrow> files_only s s'"
  by (auto simp: save_checkpoint_def Let_def files_only_def split: if_splits)

lemma files_only_trans: "files_only s1 s2 \<Longrightarrow> files_only s2 s3 \<Longrightarrow> files_only s1 s3"
  by (simp add: files_only_def)

lemma policies_ok_files:
  assumes "policies_ok view m (s\<lparr>rl_policies := ps\<rparr>)" "files_only s s'"
  shows "policies_ok view m (s'\<lparr>rl_policies := ps\<rparr>)"
  using assms by (simp add: policies_ok_def known_def files_only_def)

text \<open>What a publication does to the policies that were there and to the cache.\<close>

definition published :: "('l, 'w, 'd) rl_runtime \<Rightarrow> ('l, 'w, 'd) rl_runtime \<Rightarrow> bool" where
  "published s s' \<longleftrightarrow>
     rl_options s' = rl_options s \<and> rl_reference s' = rl_reference s \<and>
     (\<forall>a \<in> known s. pl_version (rl_objects s' a) = pl_version (rl_objects s a) \<and>
        pl_weights (rl_objects s' a) = pl_weights (rl_objects s a)) \<and>
     (\<forall>e \<in> set (pp_abs (rl_cache s')). e \<in> set (pp_abs (rl_cache s)) \<and>
        (\<forall>a \<in> set (rl_policies s). pl_version (rl_objects s a) = fst e \<longrightarrow> a \<in> set (rl_policies s')))"

lemma retire_published:
  assumes "retire s1 = Some s'" "same_runtime s1 s'"
    and "rl_policies s' = drop (length (rl_policies s1) - op_versions (rl_options s1)) (rl_policies s1)"
    and "set (pp_abs (rl_cache s')) = {e \<in> set (pp_abs (rl_cache s1)).
      fst e \<notin> (\<lambda>a. pl_version (rl_objects s1 a)) ` set (take (length (rl_policies s1) - op_versions (rl_options s1)) (rl_policies s1))}"
    and "rl_options s1 = rl_options s" "rl_reference s1 = rl_reference s" "rl_cache s1 = rl_cache s"
    and "set (rl_policies s) \<subseteq> set (rl_policies s1)"
    and "\<And>a. a \<in> known s \<Longrightarrow> pl_version (rl_objects s1 a) = pl_version (rl_objects s a) \<and>
        pl_weights (rl_objects s1 a) = pl_weights (rl_objects s a)"
  shows "published s s'"
proof -
  let ?k = "length (rl_policies s1) - op_versions (rl_options s1)"
  have "a \<in> set (rl_policies s')" if "e \<in> set (pp_abs (rl_cache s'))" "a \<in> set (rl_policies s)" "pl_version (rl_objects s a) = fst e" for e a
  proof -
    have v: "pl_version (rl_objects s1 a) = fst e" using assms(9) [of a] that(2,3) by (simp add: known_def)
    have "a \<notin> set (take ?k (rl_policies s1))"
      using that(1) v unfolding assms(4) by force
    moreover have "a \<in> set (take ?k (rl_policies s1) @ drop ?k (rl_policies s1))" using that(2) assms(8) by auto
    ultimately show ?thesis unfolding assms(3) by (simp only: set_append) blast
  qed
  moreover have "e \<in> set (pp_abs (rl_cache s))" if "e \<in> set (pp_abs (rl_cache s'))" for e
    using that unfolding assms(4,7) by simp
  ultimately show ?thesis
    using assms(2,5,6,9) unfolding published_def same_runtime_def by metis
qed

lemma publish_ok:
  assumes ok: "policies_ok view (op_versions (rl_options s)) s"
  shows "\<exists>res s'. publish view export_ok checkpoint_ok r s = Some (res, s') \<and>
    policies_ok view (op_versions (rl_options s)) s' \<and> published s s'"
proof -
  have refl: "published s s" by (simp add: published_def)
  show ?thesis
  proof (cases "pq_expected r = Given (rl_step s)")
    case False
    then show ?thesis using ok refl by (auto simp: publish_def split: field.splits)
  next
    case True
    show ?thesis
    proof (cases "bind_res (flag (pq_checkpoint r) ''checkpoint'' False)
        (\<lambda>checkpoint. bind_res (flag (pq_save r) ''save'' False) (\<lambda>save. Inr (checkpoint, save \<or> checkpoint)))")
      case (Inl e)
      then show ?thesis using True ok refl by (simp add: publish_def)
    next
      case flags: (Inr cs)
      obtain checkpoint save where cs: "cs = (checkpoint, save)" by (cases cs)
      define changed where "changed \<longleftrightarrow> pl_step (rl_objects s (last (rl_policies s))) \<noteq> rl_step s"
      obtain a s1 where s1: "(if changed then snapshot view (s\<lparr>rl_version := rl_version s + 1\<rparr>) else (last (rl_policies s), s)) = (a, s1)"
        by force
      define ps where "ps = (if changed then rl_policies s @ [a] else rl_policies s)"
      have P: "policies_ok view (op_versions (rl_options s)) (s1\<lparr>rl_policies := rl_policies s\<rparr>) \<and>
          policies_ok view (Suc (op_versions (rl_options s))) (s1\<lparr>rl_policies := ps\<rparr>) \<and>
          rl_policies s1 = rl_policies s \<and> rl_options s1 = rl_options s \<and> rl_reference s1 = rl_reference s \<and> rl_cache s1 = rl_cache s \<and>
          (\<forall>x \<in> known s. pl_version (rl_objects s1 x) = pl_version (rl_objects s x) \<and> pl_weights (rl_objects s1 x) = pl_weights (rl_objects s x))"
      proof (cases changed)
        case True
        then have sn: "snapshot view (s\<lparr>rl_version := rl_version s + 1\<rparr>) = (a, s1)" using s1 by simp
        note f = policies_ok_snapshot [OF ok sn]
        have "x \<noteq> a" if "x \<in> known s" for x using ok that f(2) by (auto simp: policies_ok_def)
        then show ?thesis using f True by (simp add: ps_def changed_def flip: f(3))
      next
        case False
        then have "s1 = s" using s1 by simp
        then show ?thesis using False ok by (auto simp: ps_def policies_ok_def)
      qed
      have settled: "policies_ok view (op_versions (rl_options s)) s' \<and> published s s'" if "files_only s1 s'" for s'
      proof -
        have "policies_ok view (op_versions (rl_options s)) (s'\<lparr>rl_policies := rl_policies s\<rparr>)"
          using policies_ok_files [OF _ that] P by blast
        moreover have "s'\<lparr>rl_policies := rl_policies s\<rparr> = s'" using P that by (simp add: files_only_def)
        moreover have "published s s'" using P that by (simp add: published_def files_only_def)
        ultimately show ?thesis by simp
      qed
      have kept: "bind_res (flag (pq_checkpoint r) ''checkpoint'' False)
        (\<lambda>checkpoint. bind_res (flag (pq_save r) ''save'' False) (\<lambda>save. Inr (checkpoint, save \<or> checkpoint))) = Inr (checkpoint, save)"
        using flags cs by simp
      note unfold = publish_def [of view export_ok checkpoint_ok r s, unfolded kept] True
      show ?thesis
      proof (cases "if save \<and> pl_directory (rl_objects s1 a) = [] then export_policy export_ok a s1 else Inr s1")
        case (Inl e)
        then show ?thesis using settled [OF files_only_refl] s1 by (simp add: unfold changed_def)
      next
        case s2: (Inr s2)
        have f2: "files_only s1 s2" using s2 files_only_export files_only_refl by (auto split: if_splits)
        show ?thesis
        proof (cases "if checkpoint then save_checkpoint checkpoint_ok a s2 else Inr s2")
          case (Inl e)
          then show ?thesis using settled [OF f2] s1 s2 by (simp add: unfold changed_def)
        next
          case s3: (Inr s3)
          have f3: "files_only s1 s3"
            using s3 f2 by (cases checkpoint) (auto intro: files_only_trans [OF f2] files_only_checkpoint)
          let ?s4 = "s3\<lparr>rl_policies := ps\<rparr>"
          have ok4: "policies_ok view (Suc (op_versions (rl_options s))) ?s4" using policies_ok_files [OF _ f3] P by blast
          obtain s' where s': "retire ?s4 = Some s'" "policies_ok view (op_versions (rl_options ?s4)) s'" "same_runtime ?s4 s'"
            "rl_policies s' = drop (length (rl_policies ?s4) - op_versions (rl_options ?s4)) (rl_policies ?s4)"
            "set (pp_abs (rl_cache s')) = {e \<in> set (pp_abs (rl_cache ?s4)). fst e \<notin> (\<lambda>a. pl_version (rl_objects ?s4 a)) `
               set (take (length (rl_policies ?s4) - op_versions (rl_options ?s4)) (rl_policies ?s4))}"
            using retire_spec [OF ok4] by blast
          have "published s s'"
            by (rule retire_published [OF s'(1,3,4,5)]) (use P f3 in \<open>auto simp: files_only_def ps_def\<close>)
          moreover have "(if changed then s3\<lparr>rl_policies := rl_policies s3 @ [a]\<rparr> else s3) = ?s4"
            using P f3 by (simp add: ps_def files_only_def)
          moreover have "op_versions (rl_options ?s4) = op_versions (rl_options s)" using P f3 by (simp add: files_only_def)
          ultimately show ?thesis using s' s1 s2 s3 by (simp add: unfold changed_def)
        qed
      qed
    qed
  qed
qed

end
