(* ===== verification/RlRollouts.thy ===== *)
theory RlRollouts
  imports RlPolicies Prefill StopMatcher
begin

text \<open>
  Rollouts of the online reinforcement-learning server (\<open>Runtime::completions\<close> and the functions it
  calls in \<open>src/online_rl/server.cpp\<close>): prefill of each prompt through the prefix cache, batched
  decoding with stop rules, and caching of the finished rows. The executors of the model, the
  sampler and the tokenizer's decoding are parameters, gathered in the record \<open>engine\<close>.
\<close>

section \<open>The model\<close>

text \<open>
  \<open>en_forward\<close> is \<open>Executor::forward\<close> of a chunk with the logits after it, \<open>en_decode\<close> is
  \<open>BatchDecoder::forward\<close> of one token per row, \<open>en_sample\<close> the draw from the softmax (\<open>None\<close>: the
  exception on logits that are not finite), \<open>en_seed\<close> the generator of row \<open>i\<close> for a seed, and
  \<open>en_blank\<close> a new cache buffer.
\<close>

record ('w, 'st, 'a, 'g, 'lp) engine =
  en_initial :: "'w \<Rightarrow> 'st"
  en_forward :: "'w \<Rightarrow> token list \<Rightarrow> 'st \<Rightarrow> 'st \<times> 'a list"
  en_decode :: "'w \<Rightarrow> token list \<Rightarrow> 'st list \<Rightarrow> 'st list \<times> 'a list list"
  en_sample :: "'a list \<Rightarrow> real \<Rightarrow> 'g \<Rightarrow> (token \<times> 'lp \<times> 'g) option"
  en_seed :: "nat \<Rightarrow> nat \<Rightarrow> 'g"
  en_text :: "token \<Rightarrow> bytes"
  en_blank :: "'st \<times> 'a list"

datatype matched = MatchedToken token | MatchedSequence "token list" | MatchedText bytes

record ('g, 'lp) rollout =
  ro_prompt :: "token list"
  ro_generated :: "token list"
  ro_prefix :: "token list"
  ro_logprobs :: "'lp list"
  ro_tail :: bytes
  ro_rng :: 'g
  ro_cached :: nat
  ro_limit :: nat
  ro_active :: bool
  ro_stopped :: bool
  ro_matched :: "matched option"

section \<open>Stop rules\<close>

text \<open>Whether the newest generated token stops the row; the matcher keeps a tail of the text.\<close>

definition stopped ::
    "(token \<Rightarrow> bytes) \<Rightarrow> stop_rules \<Rightarrow> text_stop_matcher \<Rightarrow> ('g, 'lp) rollout \<Rightarrow> bool \<times> ('g, 'lp) rollout" where
  "stopped text rules matcher row =
     (let id = last (ro_generated row) in
      if id \<in> set (sr_ids rules) then (True, row\<lparr>ro_matched := Some (MatchedToken id)\<rparr>)
      else
        case find (\<lambda>q. length q \<le> length (ro_generated row) \<and> suffix q (ro_generated row)) (sr_sequences rules) of
          Some q \<Rightarrow> (True, row\<lparr>ro_matched := Some (MatchedSequence q)\<rparr>)
        | None \<Rightarrow>
            let (m, tail) = stop_append matcher (ro_tail row) (text id) in
            if m \<noteq> [] then (True, row\<lparr>ro_matched := Some (MatchedText m), ro_tail := []\<rparr>)
            else (False, row\<lparr>ro_tail := tail\<rparr>))"

section \<open>The cache\<close>

text \<open>
  Buffers can be allocated and copies succeed, so that nothing is thrown; an undefined operation of
  the cache is \<open>None\<close>.
\<close>

definition cache_put ::
    "('w, 'st, 'a, 'g, 'lp) engine \<Rightarrow> 'w policy \<Rightarrow> token list \<Rightarrow> 'a list \<Rightarrow> 'st \<Rightarrow> ('st \<times> 'a list) prefix_pool \<Rightarrow>
     ('st \<times> 'a list) prefix_pool option" where
  "cache_put en p ids logits st cache =
     (if \<not> pl_cache_enabled p then Some cache
      else map_option snd (pp_put (Some (en_blank en)) (\<lambda>_. ((st, logits), True)) cache (pl_version p) ids))"

section \<open>Prefill\<close>

text \<open>Chunks of a size of zero would never end: \<open>None\<close>.\<close>

function chunked_forward ::
    "('w, 'st, 'a, 'g, 'lp) engine \<Rightarrow> 'w \<Rightarrow> nat \<Rightarrow> token list \<Rightarrow> 'st \<times> 'a list \<Rightarrow> ('st \<times> 'a list) option" where
  "chunked_forward en w chunk ids acc =
     (if ids = [] then Some acc
      else if chunk = 0 then None
      else chunked_forward en w chunk (drop chunk ids) (en_forward en w (take chunk ids) (fst acc)))"
  by pat_completeness auto
termination
  by (relation "measure (\<lambda>(en, w, chunk, ids, acc). length ids)") auto

declare chunked_forward.simps [simp del]

text \<open>
  One prompt: the length of the cached prefix, the state and the logits after the prompt. The match
  is copied and released before the pool is used again.
\<close>

definition prefill_row ::
    "('w, 'st, 'a, 'g, 'lp) engine \<Rightarrow> nat \<Rightarrow> 'w policy \<Rightarrow> bool \<Rightarrow> token list \<Rightarrow> ('st \<times> 'a list) prefix_pool \<Rightarrow>
     (nat \<times> ('st \<times> 'a list) \<times> ('st \<times> 'a list) prefix_pool) option" where
  "prefill_row en chunk p use_cache prompt cache =
     Option.bind (if use_cache then pp_find cache (pl_version p) prompt else Some (None, cache)) (\<lambda>(hit, c1).
     let (n, acc, c2) =
       (case hit of
          None \<Rightarrow> (0, (en_initial en (pl_weights p), []), c1)
        | Some (b, k) \<Rightarrow> (k, the (pp_heap c1 b), pp_release b c1))
     in Option.bind (chunked_forward en (pl_weights p) chunk (drop n prompt) acc) (\<lambda>out.
        if n < length prompt \<and> use_cache then
          map_option (\<lambda>c3. (n, out, c3)) (cache_put en p prompt (snd out) (fst out) c2)
        else Some (n, out, c2)))"

section \<open>Decoding\<close>

text \<open>Row \<open>i\<close> of the request with row \<open>i\<close> of the decoder, its logits and the token to feed.\<close>

record ('st, 'a, 'g, 'lp) lane =
  la_row :: "('g, 'lp) rollout"
  la_state :: 'st
  la_logits :: "'a list"
  la_feed :: token

fun prefill_rows ::
    "('w, 'st, 'a, 'g, 'lp) engine \<Rightarrow> nat \<Rightarrow> 'w policy \<Rightarrow> bool \<Rightarrow> ('g, 'lp) rollout list \<Rightarrow> ('st \<times> 'a list) prefix_pool \<Rightarrow>
     (('st, 'a, 'g, 'lp) lane list \<times> ('st \<times> 'a list) prefix_pool) option" where
  "prefill_rows en chunk p use_cache [] cache = Some ([], cache)"
| "prefill_rows en chunk p use_cache (row # rows) cache =
     Option.bind (prefill_row en chunk p use_cache (ro_prompt row) cache) (\<lambda>(n, out, cache1).
     map_option (\<lambda>(lanes, c).
         (\<lparr>la_row = row\<lparr>ro_cached := n\<rparr>, la_state = fst out, la_logits = snd out, la_feed = 0\<rparr> # lanes, c))
       (prefill_rows en chunk p use_cache rows cache1))"

text \<open>The draw of an active row.\<close>

definition sample_lane ::
    "('w, 'st, 'a, 'g, 'lp) engine \<Rightarrow> real \<Rightarrow> ('st, 'a, 'g, 'lp) lane \<Rightarrow> ('st, 'a, 'g, 'lp) lane option" where
  "sample_lane en temperature l =
     (let row = la_row l in
      if \<not> ro_active row then Some l
      else
        map_option (\<lambda>(t, lp, g). l\<lparr>la_feed := t,
            la_row := row\<lparr>ro_generated := ro_generated row @ [t], ro_logprobs := ro_logprobs row @ [lp],
                          ro_prefix := ro_prefix row @ [t], ro_rng := g\<rparr>\<rparr>)
          (en_sample en (la_logits l) temperature (ro_rng row)))"

text \<open>What the newest token means for an active row.\<close>

definition finish_row :: "(token \<Rightarrow> bytes) \<Rightarrow> stop_rules \<Rightarrow> text_stop_matcher \<Rightarrow> ('g, 'lp) rollout \<Rightarrow> ('g, 'lp) rollout" where
  "finish_row text rules matcher row =
     (let (stop, row1) = stopped text rules matcher row;
          row2 = (if stop then row1\<lparr>ro_stopped := True\<rparr> else row1)
      in if stop \<or> length (ro_generated row2) = ro_limit row2 then row2\<lparr>ro_active := False\<rparr> else row2)"

fun finish_lanes ::
    "('w, 'st, 'a, 'g, 'lp) engine \<Rightarrow> 'w policy \<Rightarrow> bool \<Rightarrow> stop_rules \<Rightarrow> text_stop_matcher \<Rightarrow>
     ('st, 'a, 'g, 'lp) lane list \<Rightarrow> ('st \<times> 'a list) prefix_pool \<Rightarrow>
     (('st, 'a, 'g, 'lp) lane list \<times> ('st \<times> 'a list) prefix_pool) option" where
  "finish_lanes en p use_cache rules matcher [] cache = Some ([], cache)"
| "finish_lanes en p use_cache rules matcher (l # ls) cache =
     (let row = la_row l; row1 = (if ro_active row then finish_row (en_text en) rules matcher row else row) in
      Option.bind (if ro_active row \<and> \<not> ro_active row1 \<and> use_cache then
                     cache_put en p (ro_prefix row1) (la_logits l) (la_state l) cache
                   else Some cache) (\<lambda>cache1.
      map_option (\<lambda>(ls', c). (l\<lparr>la_row := row1\<rparr> # ls', c)) (finish_lanes en p use_cache rules matcher ls cache1)))"

text \<open>
  The loop over \<open>j\<close>, with the number of iterations left. The result is the error of a sampler, or
  the lanes; the cache is what it became.
\<close>

fun decode_loop ::
    "('w, 'st, 'a, 'g, 'lp) engine \<Rightarrow> 'w policy \<Rightarrow> bool \<Rightarrow> real \<Rightarrow> stop_rules \<Rightarrow> text_stop_matcher \<Rightarrow> nat \<Rightarrow>
     ('st, 'a, 'g, 'lp) lane list \<Rightarrow> ('st \<times> 'a list) prefix_pool \<Rightarrow>
     ((http_error + ('st, 'a, 'g, 'lp) lane list) \<times> ('st \<times> 'a list) prefix_pool) option" where
  "decode_loop en p use_cache temperature rules matcher 0 lanes cache = Some (Inr lanes, cache)"
| "decode_loop en p use_cache temperature rules matcher (Suc n) lanes cache =
     (if \<not> list_ex (\<lambda>l. ro_active (la_row l)) lanes then Some (Inr lanes, cache)
      else
        case those (map (sample_lane en temperature) lanes) of
          None \<Rightarrow> Some (Inl (HttpError 500 ''nonfinite rollout logits''), cache)
        | Some lanes1 \<Rightarrow>
            let (sts, lgs) = en_decode en (pl_weights p) (map la_feed lanes1) (map la_state lanes1);
                lanes2 = map2 (\<lambda>l (st, lg). l\<lparr>la_state := st, la_logits := lg\<rparr>) lanes1 (zip sts lgs)
            in Option.bind (finish_lanes en p use_cache rules matcher lanes2 cache) (\<lambda>(lanes3, cache1).
               decode_loop en p use_cache temperature rules matcher n lanes3 cache1))"

section \<open>Requests\<close>

record completion_request =
  cq_policy :: "string field"
  cq_prompts :: "int option list field list field"
  cq_max_tokens :: "int field"
  cq_temperature :: "real option field"
  cq_use_cache :: "bool field"
  cq_stop_ids :: "int option list field"
  cq_stop_sequences :: "int option list field list field"
  cq_stop :: "stop_value field"
  cq_seed :: "nat field"

text \<open>The request once checked; a row whose limit is zero is never active.\<close>

record ('g, 'lp) completion_plan =
  cp_policy :: nat
  cp_requested :: int
  cp_temperature :: real
  cp_use_cache :: bool
  cp_rules :: stop_rules
  cp_rows :: "('g, 'lp) rollout list"

definition new_row :: "(nat \<Rightarrow> nat \<Rightarrow> 'g) \<Rightarrow> nat \<Rightarrow> int \<Rightarrow> nat \<Rightarrow> nat \<times> token list \<Rightarrow> ('g, 'lp) rollout" where
  "new_row seed_rng ctx requested seed = (\<lambda>(i, prompt).
     let limit = nat (min requested (int ctx - int (length prompt))) in
     \<lparr>ro_prompt = prompt, ro_generated = [], ro_prefix = prompt, ro_logprobs = [], ro_tail = [], ro_rng = seed_rng seed i,
      ro_cached = 0, ro_limit = limit, ro_active = limit > 0, ro_stopped = False, ro_matched = None\<rparr>)"

text \<open>\<open>random\<close> is the seed of the random device, for requests without one.\<close>

definition plan_completions ::
    "('w, 'st, 'a, 'g, 'lp) engine \<Rightarrow> nat \<Rightarrow> completion_request \<Rightarrow> ('l, 'w, 'st \<times> 'a list) rl_runtime \<Rightarrow>
     http_error + ('g, 'lp) completion_plan" where
  "plan_completions en random r s =
     (let o' = rl_options s in
      bind_res (policy (cq_policy r) s) (\<lambda>a.
      bind_res (case cq_prompts r of
                  Given ps \<Rightarrow> if ps \<noteq> [] \<and> length ps \<le> op_batch o' then Inr ps else Inl (HttpError 400 ''invalid prompts batch'')
                | _ \<Rightarrow> Inl (HttpError 400 ''invalid prompts batch'')) (\<lambda>ps.
      bind_res (number (cq_max_tokens r) ''max_tokens'' (op_max_tokens o') 0 1048576) (\<lambda>requested.
      bind_res (real_number (cq_temperature r) ''temperature'' 1 (1 / 100) 100) (\<lambda>temperature.
      bind_res (flag (cq_use_cache r) ''use_cache'' True) (\<lambda>cached.
      bind_res (stop_rules (op_vocab o') (op_stop o') (cq_stop_ids r) (cq_stop_sequences r) (cq_stop r)) (\<lambda>rules.
      bind_res (case cq_seed r of Absent \<Rightarrow> Inr random | Given n \<Rightarrow> Inr n
                | Mistyped \<Rightarrow> Inl (HttpError 400 ''seed must be a nonnegative integer'')) (\<lambda>seed.
      bind_res (map_res (\<lambda>v. tokens (op_vocab o') v (op_ctx o')) ps) (\<lambda>prompts.
      Inr \<lparr>cp_policy = a, cp_requested = requested, cp_temperature = temperature,
           cp_use_cache = (cached \<and> pl_cache_enabled (rl_objects s a) \<and> pp_capacity (rl_cache s) > 0),
           cp_rules = rules, cp_rows = map (new_row (en_seed en) (op_ctx o') requested seed) (enumerate 0 prompts)\<rparr>)))))))))"

record 'lp completion =
  ci_tokens :: "token list"
  ci_logprobs :: "'lp list"
  ci_cached :: nat
  ci_prefilled :: nat
  ci_stopped :: bool
  ci_truncated :: "string option"
  ci_matched :: "matched option"

definition completion_of :: "int \<Rightarrow> ('g, 'lp) rollout \<Rightarrow> 'lp completion" where
  "completion_of requested row =
     \<lparr>ci_tokens = ro_generated row, ci_logprobs = ro_logprobs row, ci_cached = ro_cached row,
      ci_prefilled = length (ro_prompt row) - ro_cached row, ci_stopped = ro_stopped row,
      ci_truncated = (if requested > 0 \<and> \<not> ro_stopped row then
                        Some (if int (ro_limit row) < requested then ''context_length'' else ''max_tokens'') else None),
      ci_matched = ro_matched row\<rparr>"

definition completions ::
    "('w, 'st, 'a, 'g, 'lp) engine \<Rightarrow> nat \<Rightarrow> completion_request \<Rightarrow> ('l, 'w, 'st \<times> 'a list) rl_runtime \<Rightarrow>
     ((http_error + string \<times> 'lp completion list) \<times> ('l, 'w, 'st \<times> 'a list) rl_runtime) option" where
  "completions en random r s =
     (case plan_completions en random r s of
        Inl e \<Rightarrow> Some (Inl e, s)
      | Inr plan \<Rightarrow>
          let p = rl_objects s (cp_policy plan); rows = cp_rows plan;
              max_new = fold max (map ro_limit rows) 0
          in Option.bind (prefill_rows en (op_chunk (rl_options s)) p (cp_use_cache plan) rows (rl_cache s)) (\<lambda>(lanes, cache1).
             map_option (\<lambda>(res, cache2).
                 (map_sum id (\<lambda>ls. (pl_version p, map (\<lambda>l. completion_of (cp_requested plan) (la_row l)) ls)) res,
                  s\<lparr>rl_cache := cache2\<rparr>))
               (decode_loop en p (cp_use_cache plan) (cp_temperature plan) (cp_rules plan)
                  (text_stop_matcher (sr_strings (cp_rules plan))) max_new lanes cache1)))"

section \<open>Reference: one prompt alone\<close>

text \<open>
  What the executors promise, for the step \<open>f\<close> of one row by one token: a chunk is fed token by
  token, and the rows of the decoder do not see each other.
\<close>

definition engine_law :: "('w, 'st, 'a, 'g, 'lp) engine \<Rightarrow> ('w \<Rightarrow> token \<Rightarrow> 'st \<Rightarrow> 'st \<times> 'a list) \<Rightarrow> bool" where
  "engine_law en f \<longleftrightarrow>
     (\<forall>w ids st. ids \<noteq> [] \<longrightarrow> en_forward en w ids st = (feed (f w) ids st, row_logits (f w) ids st [])) \<and>
     (\<forall>w ts sts. length ts = length sts \<longrightarrow>
        en_decode en w ts sts = (map2 (\<lambda>t st. fst (f w t st)) ts sts, map2 (\<lambda>t st. snd (f w t st)) ts sts))"

text \<open>A row without a batch, a cache or chunks: draw, feed, stop.\<close>

fun solo ::
    "('w, 'st, 'a, 'g, 'lp) engine \<Rightarrow> (token \<Rightarrow> 'st \<Rightarrow> 'st \<times> 'a list) \<Rightarrow> real \<Rightarrow> stop_rules \<Rightarrow> nat \<Rightarrow>
     ('g, 'lp) rollout \<Rightarrow> 'st \<Rightarrow> 'a list \<Rightarrow> ('g, 'lp) rollout option" where
  "solo en f temperature rules 0 row st lg = Some row"
| "solo en f temperature rules (Suc n) row st lg =
     (if \<not> ro_active row then Some row
      else
        case en_sample en lg temperature (ro_rng row) of
          None \<Rightarrow> None
        | Some (t, lp, g) \<Rightarrow>
            solo en f temperature rules n
              (finish_row (en_text en) rules (text_stop_matcher (sr_strings rules))
                (row\<lparr>ro_generated := ro_generated row @ [t], ro_logprobs := ro_logprobs row @ [lp],
                     ro_prefix := ro_prefix row @ [t], ro_rng := g\<rparr>))
              (fst (f t st)) (snd (f t st)))"

definition solo_row ::
    "('w, 'st, 'a, 'g, 'lp) engine \<Rightarrow> ('w \<Rightarrow> token \<Rightarrow> 'st \<Rightarrow> 'st \<times> 'a list) \<Rightarrow> 'w \<Rightarrow> real \<Rightarrow> stop_rules \<Rightarrow>
     ('g, 'lp) rollout \<Rightarrow> ('g, 'lp) rollout option" where
  "solo_row en f w temperature rules row =
     solo en (f w) temperature rules (ro_limit row) row
       (feed (f w) (ro_prompt row) (en_initial en w)) (row_logits (f w) (ro_prompt row) (en_initial en w) [])"

section \<open>Entries of the cache\<close>

text \<open>
  Every entry belongs to a published policy that is not retired, and holds the state and the logits
  of that policy after its tokens.
\<close>

definition entries_ok ::
    "('w, 'st, 'a, 'g, 'lp) engine \<Rightarrow> ('w \<Rightarrow> token \<Rightarrow> 'st \<Rightarrow> 'st \<times> 'a list) \<Rightarrow> ('l, 'w, 'd) rl_runtime \<Rightarrow>
     ('st \<times> 'a list) prefix_pool \<Rightarrow> bool" where
  "entries_ok en f s cache \<longleftrightarrow>
     pp_inv cache \<and>
     (\<forall>(i, ids, d) \<in> set (pp_abs cache). \<exists>a \<in> set (rl_policies s). pl_version (rl_objects s a) = i \<and>
        d = (feed (f (pl_weights (rl_objects s a))) ids (en_initial en (pl_weights (rl_objects s a))),
             row_logits (f (pl_weights (rl_objects s a))) ids (en_initial en (pl_weights (rl_objects s a))) []))"

abbreviation after ::
    "('w, 'st, 'a, 'g, 'lp) engine \<Rightarrow> ('w \<Rightarrow> token \<Rightarrow> 'st \<Rightarrow> 'st \<times> 'a list) \<Rightarrow> 'w \<Rightarrow> token list \<Rightarrow> 'st \<times> 'a list" where
  "after en f w ids \<equiv> (feed (f w) ids (en_initial en w), row_logits (f w) ids (en_initial en w) [])"

lemma lru_get_mem: "lru_get xs k = Some v \<Longrightarrow> (fst k, snd k, v) \<in> set xs"
  by (rule lru_get_in)

lemma lru_find_subset: "set (snd (lru_find identity ids xs)) \<subseteq> set xs"
proof (cases "lru_longest identity ids xs")
  case (Some k)
  then obtain v where "lru_get xs (identity, take k ids) = Some v" using lru_longest_Some by blast
  then show ?thesis using lru_get_mem [of xs "(identity, take k ids)" v] Some by (auto simp: lru_find_def lru_drop_def)
qed (simp add: lru_find_def)

lemma lru_find_Some:
  assumes "fst (lru_find identity ids xs) = Some (v, k)"
  shows "1 \<le> k" "k \<le> length ids" "(identity, take k ids, v) \<in> set xs"
proof -
  obtain k' where k': "lru_longest identity ids xs = Some k'" using assms by (cases "lru_longest identity ids xs") (auto simp: lru_find_def)
  then have "1 \<le> k' \<and> k' \<le> length ids \<and> (\<exists>v. lru_get xs (identity, take k' ids) = Some v)" using lru_longest_Some by blast
  then show "1 \<le> k" "k \<le> length ids" "(identity, take k ids, v) \<in> set xs"
    using assms k' lru_get_mem [of xs "(identity, take k' ids)"] by (auto simp: lru_find_def)
qed

lemma pp_find_entries:
  assumes inv: "pp_inv cache" and find: "pp_find cache identity ids = Some (r, c)"
  shows "set (pp_abs c) \<subseteq> set (pp_abs cache)"
proof -
  have i: "pc_inv (pp_index cache)" using inv by (simp add: pp_inv_with_def)
  obtain r' x where x: "pc_find (pp_index cache) identity ids = Some (r', x)"
    "pc_abs x = snd (lru_find identity ids (pc_abs (pp_index cache)))"
    using pc.step_refines [OF i, of "OpFind identity ids"] by (auto simp: map_prod_def split_beta)
  have "pp_index c = x \<and> pp_heap c = pp_heap cache"
    using find x(1) by (auto simp: pp_find_def split: option.splits)
  then have "set (pc_abs (pp_index c)) \<subseteq> set (pc_abs (pp_index cache))" "pp_heap c = pp_heap cache"
    using lru_find_subset [of identity ids "pc_abs (pp_index cache)"] x(2) by auto
  then show ?thesis unfolding pp_abs_def by (simp add: image_mono)
qed

lemma pp_release_same [simp]:
  "pp_abs (pp_release b c) = pp_abs c" "pp_inv (pp_release b c) = pp_inv c" "pp_limits (pp_release b c) = pp_limits c"
  "pp_capacity (pp_release b c) = pp_capacity c"
  by (simp_all add: pp_release_def pp_abs_def pp_inv_with_def pp_owned_def pp_limits_def)

lemma entries_release [simp]: "entries_ok en f s (pp_release b c) = entries_ok en f s c"
  by (simp add: entries_ok_def)

lemma row_logits_Nil: "row_logits f [] st lg = lg"
  by (simp add: row_logits_def)

lemma entries_find:
  assumes "entries_ok en f s cache" "inj_on (\<lambda>a. pl_version (rl_objects s a)) (known s)" "a \<in> known s"
  shows "\<exists>r c. pp_find cache (pl_version (rl_objects s a)) ids = Some (r, c) \<and> entries_ok en f s c \<and>
    (\<forall>b k. r = Some (b, k) \<longrightarrow> 1 \<le> k \<and> k \<le> length ids \<and>
       the (pp_heap c b) = after en f (pl_weights (rl_objects s a)) (take k ids))"
proof -
  let ?v = "pl_version (rl_objects s a)"
  have inv: "pp_inv cache" using assms(1) by (simp add: entries_ok_def)
  obtain r c where c: "pp_find cache ?v ids = Some (r, c)" "pp_inv c" "pp_heap c = pp_heap cache"
    "map_option (\<lambda>(b, n). (the (pp_heap cache b), n)) r = fst (lru_find ?v ids (pp_abs cache))"
    using pp_find_correct [OF inv, of ?v ids] by blast
  have "entries_ok en f s c"
    using assms(1) c(2) pp_find_entries [OF inv c(1)] unfolding entries_ok_def by blast
  moreover have "1 \<le> k \<and> k \<le> length ids \<and> the (pp_heap c b) = after en f (pl_weights (rl_objects s a)) (take k ids)"
    if "r = Some (b, k)" for b k
  proof -
    have m: "fst (lru_find ?v ids (pp_abs cache)) = Some (the (pp_heap cache b), k)" using c(4) that by simp
    obtain a' where a': "a' \<in> set (rl_policies s)" "pl_version (rl_objects s a') = ?v"
      "the (pp_heap cache b) = after en f (pl_weights (rl_objects s a')) (take k ids)"
      using lru_find_Some(3) [OF m] assms(1) unfolding entries_ok_def by blast
    have "a' = a" using a'(1,2) assms(2,3) by (auto simp: known_def inj_on_def)
    then show ?thesis using a'(3) lru_find_Some(1,2) [OF m] c(3) by simp
  qed
  ultimately show ?thesis using c(1) by blast
qed

lemma entries_put:
  assumes "entries_ok en f s cache" "a \<in> set (rl_policies s)"
    and "(st, lg) = after en f (pl_weights (rl_objects s a)) ids"
  shows "\<exists>c. cache_put en (rl_objects s a) ids lg st cache = Some c \<and> entries_ok en f s c"
proof (cases "pl_cache_enabled (rl_objects s a)")
  case True
  let ?v = "pl_version (rl_objects s a)"
  let ?fill = "\<lambda>_ :: 'b \<times> 'c list. ((st, lg), True)"
  have inv: "pp_inv cache" using assms(1) by (simp add: entries_ok_def)
  obtain r c where c: "pp_put (Some (en_blank en)) ?fill cache ?v ids = Some (r, c)" "pp_inv c"
    "case r of Inr True \<Rightarrow> \<exists>n d0 d. ?fill d0 = (d, True) \<and> pp_abs c = (?v, ids, d) # take n (lru_drop (?v, ids) (pp_abs cache))
     | _ \<Rightarrow> c = cache \<or> (\<exists>n. pp_abs c = take n (lru_drop (?v, ids) (pp_abs cache)))"
    using pp_put_correct [OF inv, of "Some (en_blank en)" ?fill ?v ids] by blast
  have "set (pp_abs c) \<subseteq> insert (?v, ids, (st, lg)) (set (pp_abs cache))"
    using c(3) by (auto simp: lru_drop_def split: sum.splits bool.splits dest!: in_set_takeD)
  then have "entries_ok en f s c" using assms c(2) unfolding entries_ok_def by blast
  then show ?thesis using c(1) True by (simp add: cache_put_def)
qed (use assms in \<open>simp add: cache_put_def\<close>)

section \<open>Prefill\<close>

lemma chunked_forward_spec:
  assumes "engine_law en f" "0 < chunk"
  shows "chunked_forward en w chunk ids (st, lg) = Some (feed (f w) ids st, row_logits (f w) ids st lg)"
proof (induction "length ids" arbitrary: ids st lg rule: less_induct)
  case less
  show ?case
  proof (cases "ids = []")
    case False
    let ?a = "take chunk ids" let ?b = "drop chunk ids"
    have a: "?a \<noteq> []" using False assms(2) by simp
    have "chunked_forward en w chunk ids (st, lg) = chunked_forward en w chunk ?b (feed (f w) ?a st, row_logits (f w) ?a st [])"
      using False assms a by (subst chunked_forward.simps) (simp add: engine_law_def)
    also have "\<dots> = Some (feed (f w) ?b (feed (f w) ?a st), row_logits (f w) ?b (feed (f w) ?a st) (row_logits (f w) ?a st []))"
      by (rule less) (use False assms(2) in simp)
    also have "\<dots> = Some (feed (f w) (?a @ ?b) st, row_logits (f w) (?a @ ?b) st lg)"
      unfolding feed_append row_logits_append row_logits_nonempty [OF a, of "f w" st lg "[]"] ..
    finally show ?thesis by simp
  qed (simp add: chunked_forward.simps row_logits_def)
qed

text \<open>\<open>a\<close> may be cached under: its policy is published and not retired, or nothing is cached.\<close>

lemma prefill_row_ok:
  assumes "engine_law en f" "0 < chunk" "entries_ok en f s cache" "inj_on (\<lambda>a. pl_version (rl_objects s a)) (known s)"
    and "a \<in> known s" "use_cache \<longrightarrow> a \<in> set (rl_policies s)"
  shows "\<exists>n c. prefill_row en chunk (rl_objects s a) use_cache prompt cache =
      Some (n, after en f (pl_weights (rl_objects s a)) prompt, c) \<and> entries_ok en f s c \<and> n \<le> length prompt"
proof -
  let ?p = "rl_objects s a" let ?w = "pl_weights ?p"
  obtain hit c1 where hit: "(if use_cache then pp_find cache (pl_version ?p) prompt else Some (None, cache)) = Some (hit, c1)"
    "entries_ok en f s c1" "\<And>b k. hit = Some (b, k) \<Longrightarrow> k \<le> length prompt \<and> the (pp_heap c1 b) = after en f ?w (take k prompt)"
    using entries_find [OF assms(3,4,5), of prompt] assms(3) by (cases use_cache) auto
  obtain n acc c2 where n: "(case hit of None \<Rightarrow> (0, (en_initial en ?w, []), c1)
       | Some (b, k) \<Rightarrow> (k, the (pp_heap c1 b), pp_release b c1)) = (n, acc, c2)" by (rule prod_cases3)
  have n': "n \<le> length prompt" "acc = after en f ?w (take n prompt)" "entries_ok en f s c2"
    using n hit(2,3) by (auto simp: row_logits_Nil split: option.splits)
  have fwd: "chunked_forward en ?w chunk (drop n prompt) acc = Some (after en f ?w prompt)"
    unfolding n'(2) chunked_forward_spec [OF assms(1,2)] feed_append [symmetric] row_logits_append [symmetric]
    by simp
  show ?thesis
  proof (cases "n < length prompt \<and> use_cache")
    case True
    obtain c3 where c3: "cache_put en ?p prompt (snd (after en f ?w prompt)) (fst (after en f ?w prompt)) c2 = Some c3"
      "entries_ok en f s c3"
      using entries_put [OF n'(3), of a _ _ prompt] assms(6) True by fastforce
    then show ?thesis using hit(1) n fwd n'(1) True by (simp add: prefill_row_def)
  next
    case False
    then show ?thesis using hit(1) n fwd n' by (auto simp: prefill_row_def)
  qed
qed

lemma prefill_rows_ok:
  assumes "engine_law en f" "0 < chunk" "inj_on (\<lambda>a. pl_version (rl_objects s a)) (known s)"
    and "a \<in> known s" "use_cache \<longrightarrow> a \<in> set (rl_policies s)" "entries_ok en f s cache"
  shows "\<exists>lanes c. prefill_rows en chunk (rl_objects s a) use_cache rows cache = Some (lanes, c) \<and> entries_ok en f s c \<and>
    list_all2 (\<lambda>row l. \<exists>n \<le> length (ro_prompt row). la_row l = row\<lparr>ro_cached := n\<rparr> \<and>
      (la_state l, la_logits l) = after en f (pl_weights (rl_objects s a)) (ro_prompt row)) rows lanes"
  using assms(6)
proof (induction rows arbitrary: cache)
  case (Cons row rows)
  obtain n c1 where r: "prefill_row en chunk (rl_objects s a) use_cache (ro_prompt row) cache =
      Some (n, after en f (pl_weights (rl_objects s a)) (ro_prompt row), c1)" "entries_ok en f s c1" "n \<le> length (ro_prompt row)"
    using prefill_row_ok [OF assms(1,2) Cons.prems assms(3-5), of "ro_prompt row"] by blast
  obtain lanes c where l: "prefill_rows en chunk (rl_objects s a) use_cache rows c1 = Some (lanes, c)" "entries_ok en f s c"
    "list_all2 (\<lambda>row l. \<exists>n \<le> length (ro_prompt row). la_row l = row\<lparr>ro_cached := n\<rparr> \<and>
      (la_state l, la_logits l) = after en f (pl_weights (rl_objects s a)) (ro_prompt row)) rows lanes"
    using Cons.IH [OF r(2)] by blast
  show ?case using r l by (auto intro!: exI [of _ n])
qed auto

section \<open>Decoding\<close>

lemma those_map_chunks: "those (map h xs) = (if list_all (\<lambda>x. h x \<noteq> None) xs then Some (map (the \<circ> h) xs) else None)"
  by (induction xs) (auto split: option.split)

lemma stopped_fields:
  "ro_prompt (snd (stopped tx rules m row)) = ro_prompt row" "ro_generated (snd (stopped tx rules m row)) = ro_generated row"
  "ro_prefix (snd (stopped tx rules m row)) = ro_prefix row" "ro_limit (snd (stopped tx rules m row)) = ro_limit row"
  "ro_active (snd (stopped tx rules m row)) = ro_active row" "ro_rng (snd (stopped tx rules m row)) = ro_rng row"
  "ro_logprobs (snd (stopped tx rules m row)) = ro_logprobs row" "ro_cached (snd (stopped tx rules m row)) = ro_cached row"
  "ro_stopped (snd (stopped tx rules m row)) = ro_stopped row"
  by (auto simp: stopped_def Let_def split: option.split prod.split)

lemma finish_row_fields [simp]:
  "ro_prompt (finish_row tx rules m row) = ro_prompt row" "ro_generated (finish_row tx rules m row) = ro_generated row"
  "ro_prefix (finish_row tx rules m row) = ro_prefix row" "ro_limit (finish_row tx rules m row) = ro_limit row"
  "ro_rng (finish_row tx rules m row) = ro_rng row" "ro_logprobs (finish_row tx rules m row) = ro_logprobs row"
  "ro_cached (finish_row tx rules m row) = ro_cached row"
  using stopped_fields [of tx rules m row] by (auto simp: finish_row_def split: prod.split)

lemma finish_row_active:
  "ro_active (finish_row tx rules m row) \<Longrightarrow> length (ro_generated row) \<noteq> ro_limit row"
  "\<not> ro_active (finish_row tx rules m row) \<Longrightarrow> ro_active row \<Longrightarrow> \<not> ro_stopped row \<Longrightarrow>
     ro_stopped (finish_row tx rules m row) \<or> length (ro_generated row) = ro_limit row"
  using stopped_fields [of tx rules m row] by (auto simp: finish_row_def split: prod.splits if_splits)

lemma stopped_cached:
  "stopped tx rules m (row\<lparr>ro_cached := n\<rparr>) = map_prod id (\<lambda>r. r\<lparr>ro_cached := n\<rparr>) (stopped tx rules m row)"
  by (simp add: stopped_def Let_def split: option.split prod.split)

lemma finish_row_cached:
  "finish_row tx rules m (row\<lparr>ro_cached := n\<rparr>) = (finish_row tx rules m row)\<lparr>ro_cached := n\<rparr>"
  by (cases "stopped tx rules m row") (simp add: finish_row_def stopped_cached)

definition advance :: "(token \<Rightarrow> 'st \<Rightarrow> 'st \<times> 'a list) \<Rightarrow> ('st, 'a, 'g, 'lp) lane \<Rightarrow> ('st, 'a, 'g, 'lp) lane" where
  "advance g l = l\<lparr>la_state := fst (g (la_feed l) (la_state l)), la_logits := snd (g (la_feed l) (la_state l))\<rparr>"

lemma decode_advance:
  assumes "engine_law en f" "en_decode en w (map la_feed ls) (map la_state ls) = (sts, lgs)"
  shows "map2 (\<lambda>l (st, lg). l\<lparr>la_state := st, la_logits := lg\<rparr>) ls (zip sts lgs) = map (advance (f w)) ls"
proof -
  have "sts = map (\<lambda>l. fst (f w (la_feed l) (la_state l))) ls" "lgs = map (\<lambda>l. snd (f w (la_feed l) (la_state l))) ls"
    using assms by (auto simp: engine_law_def zip_map_map map2_map_map zip_same_conv_map)
  then show ?thesis by (simp add: zip_map_map zip_same_conv_map map_zip_map2 advance_def comp_def case_prod_beta)
qed

definition lane_ok ::
    "('w, 'st, 'a, 'g, 'lp) engine \<Rightarrow> ('w \<Rightarrow> token \<Rightarrow> 'st \<Rightarrow> 'st \<times> 'a list) \<Rightarrow> 'w \<Rightarrow> ('st, 'a, 'g, 'lp) lane \<Rightarrow> bool" where
  "lane_ok en f w l \<longleftrightarrow> (ro_active (la_row l) \<longrightarrow> (la_state l, la_logits l) = after en f w (ro_prefix (la_row l)))"

lemma sample_lane_inactive: "\<not> ro_active (la_row l) \<Longrightarrow> sample_lane en temperature l = Some l"
  by (simp add: sample_lane_def)

lemma sample_lane_active: "sample_lane en temperature l = Some l1 \<Longrightarrow> ro_active (la_row l1) = ro_active (la_row l)"
  by (auto simp: sample_lane_def Let_def split: if_splits)

lemma sample_advance_ok:
  "lane_ok en f w l \<Longrightarrow> sample_lane en temperature l = Some l1 \<Longrightarrow> lane_ok en f w (advance (f w) l1)"
  by (auto simp: sample_lane_def Let_def lane_ok_def advance_def feed_append row_logits_def feed_def split: if_splits)

lemma finish_lanes_ok:
  assumes "entries_ok en f s cache" "use_cache \<longrightarrow> a \<in> set (rl_policies s)" "w = pl_weights (rl_objects s a)"
    and "list_all (lane_ok en f w) ls"
  shows "\<exists>c. finish_lanes en (rl_objects s a) use_cache rules m ls cache =
      Some (map (\<lambda>l. l\<lparr>la_row := (if ro_active (la_row l) then finish_row (en_text en) rules m (la_row l) else la_row l)\<rparr>) ls, c) \<and>
    entries_ok en f s c"
  using assms(1,4)
proof (induction ls arbitrary: cache)
  case (Cons l ls)
  let ?row = "if ro_active (la_row l) then finish_row (en_text en) rules m (la_row l) else la_row l"
  have "\<exists>c1. (if ro_active (la_row l) \<and> \<not> ro_active ?row \<and> use_cache
           then cache_put en (rl_objects s a) (ro_prefix ?row) (la_logits l) (la_state l) cache else Some cache) = Some c1 \<and>
      entries_ok en f s c1"
  proof (cases "ro_active (la_row l) \<and> \<not> ro_active ?row \<and> use_cache")
    case True
    have "(la_state l, la_logits l) = after en f (pl_weights (rl_objects s a)) (ro_prefix ?row)"
      using True Cons.prems(2) assms(3) by (simp add: lane_ok_def)
    from entries_put [OF Cons.prems(1) _ this] show ?thesis unfolding if_P [OF True] using True assms(2) by blast
  next
    case False
    show ?thesis unfolding if_not_P [OF False] using Cons.prems(1) by blast
  qed
  then obtain c1 where c1: "(if ro_active (la_row l) \<and> \<not> ro_active ?row \<and> use_cache
           then cache_put en (rl_objects s a) (ro_prefix ?row) (la_logits l) (la_state l) cache else Some cache) = Some c1"
    "entries_ok en f s c1" by blast
  show ?case using Cons.IH [OF c1(2)] Cons.prems(2) c1(1) by (auto simp: Let_def)
qed simp

lemma solo_inactive: "\<not> ro_active row \<Longrightarrow> solo en g temperature rules n row st lg = Some row"
  by (cases n) auto

lemma solo_step:
  assumes "sample_lane en temperature l = Some l1" "ro_active (la_row l)"
  shows "solo en g temperature rules (Suc n) (la_row l) (la_state l) (la_logits l) =
    solo en g temperature rules n (finish_row (en_text en) rules (text_stop_matcher (sr_strings rules)) (la_row (advance g l1)))
      (la_state (advance g l1)) (la_logits (advance g l1))"
  using assms by (auto simp: sample_lane_def Let_def advance_def)

abbreviation solo_lane ::
    "('w, 'st, 'a, 'g, 'lp) engine \<Rightarrow> (token \<Rightarrow> 'st \<Rightarrow> 'st \<times> 'a list) \<Rightarrow> real \<Rightarrow> stop_rules \<Rightarrow> nat \<Rightarrow>
     ('st, 'a, 'g, 'lp) lane \<Rightarrow> ('g, 'lp) rollout option" where
  "solo_lane en g temperature rules n l \<equiv> solo en g temperature rules n (la_row l) (la_state l) (la_logits l)"

lemma decode_loop_ok:
  assumes "engine_law en f" "use_cache \<longrightarrow> a \<in> set (rl_policies s)" "w = pl_weights (rl_objects s a)"
    and "entries_ok en f s cache" "list_all (lane_ok en f w) ls"
  shows "\<exists>res c. decode_loop en (rl_objects s a) use_cache temperature rules (text_stop_matcher (sr_strings rules)) n ls cache =
      Some (res, c) \<and> entries_ok en f s c \<and>
    map_sum id (map la_row) res =
      (case those (map (solo_lane en (f w) temperature rules n) ls) of
         None \<Rightarrow> Inl (HttpError 500 ''nonfinite rollout logits'')
       | Some rows \<Rightarrow> Inr rows)"
  using assms(4,5)
proof (induction n arbitrary: ls cache)
  case 0
  then show ?case by (simp add: those_map_chunks list_all_iff comp_def)
next
  case (Suc n)
  show ?case
  proof (cases "list_ex (\<lambda>l. ro_active (la_row l)) ls")
    case False
    then have "solo_lane en (f w) temperature rules (Suc n) l = Some (la_row l)" if "l \<in> set ls" for l
      using that by (auto simp: list_ex_iff)
    then have "map (solo_lane en (f w) temperature rules (Suc n)) ls = map (Some \<circ> la_row) ls" by simp
    then show ?thesis using False Suc.prems(1) by (simp add: those_map_chunks list_all_iff comp_def del: solo.simps)
  next
    case active: True
    show ?thesis
    proof (cases "those (map (sample_lane en temperature) ls)")
      case None
      then obtain l where l: "l \<in> set ls" "sample_lane en temperature l = None" by (auto simp: those_map_chunks list_all_iff split: if_splits)
      then have "solo_lane en (f w) temperature rules (Suc n) l = None"
        by (auto simp: sample_lane_def Let_def split: if_splits)
      then have "those (map (solo_lane en (f w) temperature rules (Suc n)) ls) = None"
        using l(1) by (auto simp: those_map_chunks list_all_iff simp del: solo.simps)
      then show ?thesis using active None Suc.prems(1) by (simp del: solo.simps)
    next
      case (Some ls1)
      have s1: "sample_lane en temperature l = Some (the (sample_lane en temperature l))" if "l \<in> set ls" for l
        using Some that by (auto simp: those_map_chunks list_all_iff split: if_splits)
      have ls1: "ls1 = map (\<lambda>l. the (sample_lane en temperature l)) ls"
        using Some by (simp add: those_map_chunks comp_def split: if_splits)
      let ?next = "\<lambda>l. advance (f w) (the (sample_lane en temperature l))"
      let ?fin = "\<lambda>l. l\<lparr>la_row := (if ro_active (la_row l)
          then finish_row (en_text en) rules (text_stop_matcher (sr_strings rules)) (la_row l) else la_row l)\<rparr>"
      obtain sts lgs where d: "en_decode en w (map la_feed ls1) (map la_state ls1) = (sts, lgs)" by force
      have lanes2: "map2 (\<lambda>l (st, lg). l\<lparr>la_state := st, la_logits := lg\<rparr>) ls1 (zip sts lgs) = map ?next ls"
        unfolding decode_advance [OF assms(1) d] by (simp add: ls1)
      have ok2: "list_all (lane_ok en f w) (map ?next ls)"
        using Suc.prems(2) sample_advance_ok [OF _ s1] by (auto simp: list_all_iff)
      obtain c1 where c1: "finish_lanes en (rl_objects s a) use_cache rules (text_stop_matcher (sr_strings rules)) (map ?next ls) cache =
          Some (map ?fin (map ?next ls), c1)" "entries_ok en f s c1"
        using finish_lanes_ok [OF Suc.prems(1) assms(2,3) ok2] by blast
      have ok3: "list_all (lane_ok en f w) (map ?fin (map ?next ls))"
        using ok2 by (auto simp: list_all_iff lane_ok_def)
      have "solo_lane en (f w) temperature rules (Suc n) l = solo_lane en (f w) temperature rules n (?fin (?next l))"
        if "l \<in> set ls" for l
      proof (cases "ro_active (la_row l)")
        case True
        then have "ro_active (la_row (?next l))"
          using sample_lane_active [OF s1 [OF that]] by (simp add: advance_def)
        then show ?thesis using solo_step [OF s1 [OF that] True, of "f w" rules n] by (simp del: solo.simps)
      next
        case False
        then have "?next l = advance (f w) l" by (simp add: sample_lane_inactive)
        then show ?thesis using False by (simp add: solo_inactive advance_def)
      qed
      then have same: "map (solo_lane en (f w) temperature rules (Suc n)) ls = map (solo_lane en (f w) temperature rules n) (map ?fin (map ?next ls))"
        by (simp add: comp_def del: solo.simps)
      have step: "decode_loop en (rl_objects s a) use_cache temperature rules (text_stop_matcher (sr_strings rules)) (Suc n) ls cache =
          decode_loop en (rl_objects s a) use_cache temperature rules (text_stop_matcher (sr_strings rules)) n (map ?fin (map ?next ls)) c1"
        using active Some d c1(1) lanes2 by (simp add: assms(3) [symmetric])
      show ?thesis unfolding step same using Suc.IH [OF c1(2) ok3] by blast
    qed
  qed
qed

text \<open>More iterations than a row's limit change nothing, nor does the count of cached tokens.\<close>

lemma solo_enough:
  assumes "ro_active row \<longrightarrow> length (ro_generated row) < ro_limit row"
    and "ro_limit row - length (ro_generated row) \<le> n" "ro_limit row - length (ro_generated row) \<le> m"
  shows "solo en g temperature rules n row st lg = solo en g temperature rules m row st lg"
  using assms
proof (induction n arbitrary: m row st lg)
  case 0
  then show ?case by (cases "ro_active row") (simp_all add: solo_inactive)
next
  case (Suc n)
  show ?case
  proof (cases "ro_active row")
    case True
    then obtain m' where m': "m = Suc m'" using Suc.prems by (cases m) auto
    show ?thesis
    proof (cases "en_sample en lg temperature (ro_rng row)")
      case None
      then show ?thesis using True by (simp add: m')
    next
      case (Some x)
      obtain t lp gg where x: "x = (t, lp, gg)" by (cases x)
      let ?row = "finish_row (en_text en) rules (text_stop_matcher (sr_strings rules)) (row\<lparr>ro_generated := ro_generated row @ [t],
        ro_logprobs := ro_logprobs row @ [lp], ro_prefix := ro_prefix row @ [t], ro_rng := gg\<rparr>)"
      have "ro_active ?row \<longrightarrow> length (ro_generated ?row) < ro_limit ?row"
        using finish_row_active(1) Suc.prems(1) True by fastforce
      then have "solo en g temperature rules n ?row (fst (g t st)) (snd (g t st)) =
          solo en g temperature rules m' ?row (fst (g t st)) (snd (g t st))"
        by (rule Suc.IH) (use Suc.prems m' in auto)
      then show ?thesis using True Some by (simp add: m' x)
    qed
  qed (simp add: solo_inactive)
qed

lemma solo_cached:
  "solo en g temperature rules n (row\<lparr>ro_cached := k\<rparr>) st lg =
     map_option (\<lambda>r. r\<lparr>ro_cached := k\<rparr>) (solo en g temperature rules n row st lg)"
proof (induction n arbitrary: row st lg)
  case (Suc n)
  show ?case
  proof (cases "ro_active row \<and> en_sample en lg temperature (ro_rng row) \<noteq> None")
    case True
    then obtain t lp gg where x: "en_sample en lg temperature (ro_rng row) = Some (t, lp, gg)" by (cases "en_sample en lg temperature (ro_rng row)") auto
    let ?row = "row\<lparr>ro_generated := ro_generated row @ [t], ro_logprobs := ro_logprobs row @ [lp], ro_prefix := ro_prefix row @ [t], ro_rng := gg\<rparr>"
    have row: "row\<lparr>ro_cached := k, ro_generated := ro_generated row @ [t], ro_logprobs := ro_logprobs row @ [lp],
        ro_prefix := ro_prefix row @ [t], ro_rng := gg\<rparr> = ?row\<lparr>ro_cached := k\<rparr>" by simp
    have step: "solo en g temperature rules (Suc n) (row\<lparr>ro_cached := k\<rparr>) st lg = solo en g temperature rules n
        (finish_row (en_text en) rules (text_stop_matcher (sr_strings rules)) (?row\<lparr>ro_cached := k\<rparr>)) (fst (g t st)) (snd (g t st))"
      using True x by (simp add: row)
    show ?thesis unfolding step finish_row_cached Suc.IH using True x by simp
  qed (auto split: option.split)
qed simp

end
