(* ===== verification/RlRuns.thy ===== *)
theory RlRuns
  imports RlRollouts
begin

text \<open>
  Any sequence of rollouts, training steps and publications of the online reinforcement-learning
  server: the invariant of the policies and of their shared cache, rollouts that equal each prompt
  alone, training on the latest policy only, and an export that a failed checkpoint leaves behind.
\<close>

section \<open>Runs\<close>

inductive rl_event ::
    "('w, 'st, 'a, 'g, 'lp) engine \<Rightarrow> ('l \<Rightarrow> 'w) \<Rightarrow> (real \<Rightarrow> nat \<Rightarrow> sample list \<Rightarrow> nat \<Rightarrow> 'l \<Rightarrow> 'l option) \<Rightarrow>
     ('l, 'w, 'st \<times> 'a list) rl_runtime \<Rightarrow> ('l, 'w, 'st \<times> 'a list) rl_runtime \<Rightarrow> bool"
  for en view update where
  Train: "train update r s = (res, s') \<Longrightarrow> rl_event en view update s s'"
| Publish: "publish view export_ok checkpoint_ok r s = Some (res, s') \<Longrightarrow> rl_event en view update s s'"
| Complete: "completions en random r s = Some (res, s') \<Longrightarrow> rl_event en view update s s'"

text \<open>The options that the command line accepts give at least one version and a chunk.\<close>

definition rl_initial :: "('l \<Rightarrow> 'w) \<Rightarrow> ('l, 'w, 'd) rl_runtime \<Rightarrow> bool" where
  "rl_initial view s \<longleftrightarrow>
     (\<exists>options run_id learner step capacity memory entry cache dirs.
        1 \<le> op_versions options \<and> 1 \<le> op_chunk options \<and> prefix_cache_pool capacity memory entry = Inr cache \<and>
        s = rl_start view options run_id learner step cache dirs)"

abbreviation rl_reachable ::
    "('w, 'st, 'a, 'g, 'lp) engine \<Rightarrow> ('l \<Rightarrow> 'w) \<Rightarrow> (real \<Rightarrow> nat \<Rightarrow> sample list \<Rightarrow> nat \<Rightarrow> 'l \<Rightarrow> 'l option) \<Rightarrow>
     ('l, 'w, 'st \<times> 'a list) rl_runtime \<Rightarrow> bool" where
  "rl_reachable en view update \<equiv> reachable (rl_initial view) (rl_event en view update)"

definition rl_inv ::
    "('w, 'st, 'a, 'g, 'lp) engine \<Rightarrow> ('w \<Rightarrow> token \<Rightarrow> 'st \<Rightarrow> 'st \<times> 'a list) \<Rightarrow> ('l \<Rightarrow> 'w) \<Rightarrow>
     ('l, 'w, 'st \<times> 'a list) rl_runtime \<Rightarrow> bool" where
  "rl_inv en f view s \<longleftrightarrow>
     policies_ok view (op_versions (rl_options s)) s \<and> entries_ok en f s (rl_cache s) \<and> 0 < op_chunk (rl_options s)"

section \<open>One request\<close>

lemma solo_prompt: "solo en g temperature rules n row st lg = Some r \<Longrightarrow> ro_prompt r = ro_prompt row"
proof (induction n arbitrary: row st lg)
  case (Suc n)
  then show ?case by (fastforce split: if_splits option.splits)
qed simp

lemma those_matched:
  assumes "list_all2 (\<lambda>row l. \<exists>n \<le> length (ro_prompt row). h l = map_option (\<lambda>r. r\<lparr>ro_cached := n\<rparr>) (g row)) rows ls"
    and "\<And>row r. g row = Some r \<Longrightarrow> ro_prompt r = ro_prompt row"
  shows "case those (map g rows) of
      None \<Rightarrow> those (map h ls) = None
    | Some rs \<Rightarrow> \<exists>xs. those (map h ls) = Some xs \<and>
        list_all2 (\<lambda>r x. \<exists>n \<le> length (ro_prompt r). x = r\<lparr>ro_cached := n\<rparr>) rs xs"
  using assms(1)
proof (induction rule: list_all2_induct)
  case (Cons row rows l ls)
  then show ?case using assms(2) by (cases "g row") (auto split: option.splits)
qed simp

lemma completions_ok:
  assumes "rl_inv en f view s" "engine_law en f"
  shows "\<exists>res c. completions en random r s = Some (res, s\<lparr>rl_cache := c\<rparr>) \<and> entries_ok en f s c \<and>
    (case plan_completions en random r s of
       Inl e \<Rightarrow> res = Inl e
     | Inr plan \<Rightarrow>
         (case those (map (solo_row en f (pl_weights (rl_objects s (cp_policy plan))) (cp_temperature plan) (cp_rules plan)) (cp_rows plan)) of
            None \<Rightarrow> res = Inl (HttpError 500 ''nonfinite rollout logits'')
          | Some rows \<Rightarrow> \<exists>cs. res = Inr (pl_version (rl_objects s (cp_policy plan)), cs) \<and>
              list_all2 (\<lambda>row c. \<exists>n \<le> length (ro_prompt row). c = completion_of (cp_requested plan) (row\<lparr>ro_cached := n\<rparr>)) rows cs))"
proof (cases "plan_completions en random r s")
  case (Inl e)
  moreover have "s\<lparr>rl_cache := rl_cache s\<rparr> = s" by simp
  ultimately show ?thesis using assms(1) by (auto simp: completions_def rl_inv_def intro!: exI [of _ "rl_cache s"])
next
  case plan: (Inr plan)
  let ?a = "cp_policy plan" let ?p = "rl_objects s ?a" let ?w = "pl_weights ?p" let ?rules = "cp_rules plan"
  let ?m = "fold max (map ro_limit (cp_rows plan)) 0"
  have pol: "policies_ok view (op_versions (rl_options s)) s" and ent: "entries_ok en f s (rl_cache s)"
    and chunk: "0 < op_chunk (rl_options s)" using assms(1) by (simp_all add: rl_inv_def)
  have inj: "inj_on (\<lambda>a. pl_version (rl_objects s a)) (known s)" using pol by (simp add: policies_ok_def)
  have a: "policy (cq_policy r) s = Inr ?a" and uc: "cp_use_cache plan \<longrightarrow> pl_cache_enabled ?p"
    using plan by (auto simp: plan_completions_def Let_def)
  obtain ctx requested seed prompts where new: "cp_rows plan = map (new_row (en_seed en) ctx requested seed) (enumerate 0 prompts)"
    using plan by (auto simp: plan_completions_def Let_def)
  have known: "?a \<in> known s" using policy_known(1) [OF a] pol by (simp add: policies_ok_def)
  have cached: "cp_use_cache plan \<longrightarrow> ?a \<in> set (rl_policies s)"
    using uc known pol by (auto simp: known_def policies_ok_def)
  obtain lanes c1 where l: "prefill_rows en (op_chunk (rl_options s)) ?p (cp_use_cache plan) (cp_rows plan) (rl_cache s) = Some (lanes, c1)"
    "entries_ok en f s c1"
    "list_all2 (\<lambda>row l. \<exists>n \<le> length (ro_prompt row). la_row l = row\<lparr>ro_cached := n\<rparr> \<and>
      (la_state l, la_logits l) = after en f ?w (ro_prompt row)) (cp_rows plan) lanes"
    using prefill_rows_ok [OF assms(2) chunk inj known cached ent] by blast
  have rows: "ro_generated row = [] \<and> ro_prefix row = ro_prompt row \<and> (ro_active row \<longleftrightarrow> 0 < ro_limit row) \<and> ro_limit row \<le> ?m"
    if "row \<in> set (cp_rows plan)" for row
  proof -
    have swap: "(\<lambda>x m. max m (ro_limit x)) = (\<lambda>x. max (ro_limit x))" by (simp add: fun_eq_iff max.commute)
    have "ro_limit row \<le> ?m" using fold_max_ge [of row "cp_rows plan" ro_limit 0] that unfolding swap by (simp add: fold_map comp_def)
    then show ?thesis using new that by (auto simp: new_row_def Let_def)
  qed
  have lane: "list_all2 (\<lambda>row l. lane_ok en f ?w l \<and> (\<exists>n \<le> length (ro_prompt row).
      solo_lane en (f ?w) (cp_temperature plan) ?rules ?m l =
        map_option (\<lambda>r. r\<lparr>ro_cached := n\<rparr>) (solo_row en f ?w (cp_temperature plan) ?rules row))) (cp_rows plan) lanes"
    using l(3)
  proof (rule list.rel_mono_strong)
    show "lane_ok en f ?w l \<and> (\<exists>n \<le> length (ro_prompt row). solo_lane en (f ?w) (cp_temperature plan) ?rules ?m l =
        map_option (\<lambda>r. r\<lparr>ro_cached := n\<rparr>) (solo_row en f ?w (cp_temperature plan) ?rules row))"
      if row: "row \<in> set (cp_rows plan)" and start: "\<exists>n \<le> length (ro_prompt row). la_row l = row\<lparr>ro_cached := n\<rparr> \<and>
        (la_state l, la_logits l) = after en f ?w (ro_prompt row)" for row l
    proof -
      obtain n where n: "n \<le> length (ro_prompt row)" "la_row l = row\<lparr>ro_cached := n\<rparr>"
        "la_state l = fst (after en f ?w (ro_prompt row))" "la_logits l = snd (after en f ?w (ro_prompt row))" using start by auto
      have "solo en (f ?w) (cp_temperature plan) ?rules ?m row st lg = solo en (f ?w) (cp_temperature plan) ?rules (ro_limit row) row st lg" for st lg
        by (rule solo_enough) (use rows [OF row] in auto)
      then show ?thesis using n rows [OF row] by (auto simp: lane_ok_def solo_row_def solo_cached)
    qed
  qed
  then have lo: "list_all (lane_ok en f ?w) lanes" by (auto simp: list_all2_conv_all_nth list_all_length)
  obtain res c2 where d: "decode_loop en ?p (cp_use_cache plan) (cp_temperature plan) ?rules (text_stop_matcher (sr_strings ?rules)) ?m lanes c1 =
      Some (res, c2)" "entries_ok en f s c2"
    "map_sum id (map la_row) res = (case those (map (solo_lane en (f ?w) (cp_temperature plan) ?rules ?m) lanes) of
         None \<Rightarrow> Inl (HttpError 500 ''nonfinite rollout logits'') | Some rows \<Rightarrow> Inr rows)"
    using decode_loop_ok [OF assms(2) cached refl l(2) lo] by blast
  define out where "out = map_sum id (\<lambda>ls. (pl_version ?p, map (\<lambda>l. completion_of (cp_requested plan) (la_row l)) ls)) res"
  have run: "completions en random r s = Some (out, s\<lparr>rl_cache := c2\<rparr>)"
    using plan l(1) d(1) by (simp add: completions_def Let_def out_def)
  have m: "case those (map (solo_row en f ?w (cp_temperature plan) ?rules) (cp_rows plan)) of
      None \<Rightarrow> those (map (solo_lane en (f ?w) (cp_temperature plan) ?rules ?m) lanes) = None
    | Some rs \<Rightarrow> \<exists>xs. those (map (solo_lane en (f ?w) (cp_temperature plan) ?rules ?m) lanes) = Some xs \<and>
        list_all2 (\<lambda>r x. \<exists>n \<le> length (ro_prompt r). x = r\<lparr>ro_cached := n\<rparr>) rs xs"
    by (rule those_matched [OF list.rel_mono_strong [OF lane]]) (auto simp: solo_row_def dest: solo_prompt)
  have "case those (map (solo_row en f ?w (cp_temperature plan) ?rules) (cp_rows plan)) of
      None \<Rightarrow> out = Inl (HttpError 500 ''nonfinite rollout logits'')
    | Some rows \<Rightarrow> \<exists>cs. out = Inr (pl_version ?p, cs) \<and>
        list_all2 (\<lambda>row c. \<exists>n \<le> length (ro_prompt row). c = completion_of (cp_requested plan) (row\<lparr>ro_cached := n\<rparr>)) rows cs"
  proof (cases "those (map (solo_row en f ?w (cp_temperature plan) ?rules) (cp_rows plan))")
    case None
    then show ?thesis using m d(3) by (cases res) (auto simp: out_def)
  next
    case (Some rs)
    then obtain xs where xs: "those (map (solo_lane en (f ?w) (cp_temperature plan) ?rules ?m) lanes) = Some xs"
      "list_all2 (\<lambda>r x. \<exists>n \<le> length (ro_prompt r). x = r\<lparr>ro_cached := n\<rparr>) rs xs" using m by auto
    then obtain ls where ls: "res = Inr ls" "map la_row ls = xs" using d(3) by (cases res) auto
    have "out = Inr (pl_version ?p, map (completion_of (cp_requested plan)) xs)" using ls by (auto simp: out_def)
    then show ?thesis using Some xs(2) by (auto simp: list_all2_map2 elim!: list.rel_mono_strong)
  qed
  then show ?thesis using run d(2) plan by auto
qed

section \<open>Every reachable server\<close>

lemma rl_inv_event:
  assumes "rl_event en view update s s'" "rl_inv en f view s" "engine_law en f"
  shows "rl_inv en f view s'"
  using assms
proof (induction rule: rl_event.induct)
  case (Train r s res s')
  have p: "policies_ok view (op_versions (rl_options s)) s'" using policies_ok_train [OF _ Train(1)] Train(2) by (simp add: rl_inv_def)
  have same: "rl_options s' = rl_options s \<and> rl_policies s' = rl_policies s \<and> rl_objects s' = rl_objects s \<and> rl_cache s' = rl_cache s"
    using train_cases [OF Train(1)] by auto
  then have "entries_ok en f s' (rl_cache s') = entries_ok en f s (rl_cache s)" by (simp add: entries_ok_def)
  then show ?case using p same Train(2) by (simp add: rl_inv_def)
next
  case (Publish export_ok checkpoint_ok r s res s')
  have p: "policies_ok view (op_versions (rl_options s)) s'" "published s s'"
    using publish_ok [of view s export_ok checkpoint_ok r] Publish(1,2) by (auto simp: rl_inv_def)
  have e: "entries_ok en f s (rl_cache s)" using Publish(2) by (simp add: rl_inv_def)
  have "entries_ok en f s' (rl_cache s')"
    unfolding entries_ok_def
  proof (intro conjI ballI)
    show "pp_inv (rl_cache s')" using p(1) by (simp add: policies_ok_def)
  next
    fix x assume x: "x \<in> set (pp_abs (rl_cache s'))"
    obtain i ids d where i: "x = (i, ids, d)" by (cases x)
    have x': "x \<in> set (pp_abs (rl_cache s))" and
      there: "\<And>a. a \<in> set (rl_policies s) \<Longrightarrow> pl_version (rl_objects s a) = i \<Longrightarrow> a \<in> set (rl_policies s')"
      using p(2) x i unfolding published_def by auto
    obtain a where a: "a \<in> set (rl_policies s)" "pl_version (rl_objects s a) = i"
      "d = after en f (pl_weights (rl_objects s a)) ids"
      using e x' i unfolding entries_ok_def by blast
    have "pl_version (rl_objects s' a) = pl_version (rl_objects s a) \<and> pl_weights (rl_objects s' a) = pl_weights (rl_objects s a)"
      using p(2) a(1) by (simp add: published_def known_def)
    then show "case x of (i, ids, d) \<Rightarrow> \<exists>a\<in>set (rl_policies s'). pl_version (rl_objects s' a) = i \<and>
        d = after en f (pl_weights (rl_objects s' a)) ids"
      using there [OF a(1,2)] a i by auto
  qed
  then show ?case using p Publish(2) by (simp add: rl_inv_def published_def)
next
  case (Complete random r s res s')
  obtain c where c: "s' = s\<lparr>rl_cache := c\<rparr>" "entries_ok en f s c"
    using completions_ok [OF Complete(2,3), of random r] Complete(1) by auto
  have "entries_ok en f s' c" using c by (simp add: entries_ok_def)
  moreover have "pp_inv c" using c(2) by (simp add: entries_ok_def)
  ultimately show ?case using Complete(2) by (simp add: rl_inv_def c(1) policies_ok_def known_def)
qed

lemma rl_reachable_inv:
  assumes "rl_reachable en view update s" "engine_law en f"
  shows "rl_inv en f view s"
  using assms(1)
proof (induction rule: reachable_induct)
  case (Init s)
  then obtain options run_id learner step capacity memory entry cache dirs where
    i: "1 \<le> op_versions options" "1 \<le> op_chunk options" "prefix_cache_pool capacity memory entry = Inr cache"
      "s = rl_start view options run_id learner step cache dirs"
    unfolding rl_initial_def by blast
  have c: "pp_inv cache" using pool_init_inv [OF i(3)] by simp
  have "pp_abs cache = []"
    using i(3) by (auto simp: prefix_cache_pool_def pp_abs_def Let_def prefix_cache_def split: if_splits)
  then show ?case
    using policies_ok_start [OF c i(1), of view run_id learner step dirs] i(2) c
    by (simp add: rl_inv_def entries_ok_def i(4) rl_start_def snapshot_def Let_def)
next
  case (Step s s')
  then show ?case using rl_inv_event assms(2) by blast
qed


lemma finish_row_stopped:
  "ro_active (finish_row tx rules m row) \<Longrightarrow> \<not> ro_stopped row \<Longrightarrow> \<not> ro_stopped (finish_row tx rules m row)"
  using stopped_fields(9) [of tx rules m row]
  by (cases "stopped tx rules m row") (auto simp: finish_row_def split: if_splits)

lemma finish_row_end:
  "\<not> ro_active (finish_row tx rules m row) \<Longrightarrow> ro_active row \<Longrightarrow> \<not> ro_stopped row \<Longrightarrow>
     ro_stopped (finish_row tx rules m row) \<or> length (ro_generated (finish_row tx rules m row)) = ro_limit (finish_row tx rules m row)"
  by (drule (2) finish_row_active(2)) simp

lemma solo_bounds:
  "solo en g temperature rules n row st lg = Some r \<Longrightarrow>
     (ro_active row \<longrightarrow> length (ro_generated row) < ro_limit row) \<Longrightarrow> length (ro_generated row) \<le> ro_limit row \<Longrightarrow>
     (\<not> ro_active row \<longrightarrow> ro_stopped row \<or> length (ro_generated row) = ro_limit row) \<Longrightarrow> (ro_active row \<longrightarrow> \<not> ro_stopped row) \<Longrightarrow>
     ro_prefix row = ro_prompt row @ ro_generated row \<Longrightarrow> ro_limit row - length (ro_generated row) \<le> n \<Longrightarrow>
     length (ro_generated r) \<le> ro_limit r \<and> (ro_stopped r \<or> length (ro_generated r) = ro_limit r) \<and>
     ro_prefix r = ro_prompt r @ ro_generated r \<and> ro_limit r = ro_limit row \<and> ro_prompt r = ro_prompt row"
proof (induction n arbitrary: row st lg)
  case 0
  then show ?case by auto
next
  case (Suc n)
  show ?case
  proof (cases "ro_active row")
    case True
    then obtain t lp gg where x: "en_sample en lg temperature (ro_rng row) = Some (t, lp, gg)"
      using Suc.prems(1) by (auto split: option.splits)
    let ?drawn = "row\<lparr>ro_generated := ro_generated row @ [t], ro_logprobs := ro_logprobs row @ [lp], ro_prefix := ro_prefix row @ [t], ro_rng := gg\<rparr>"
    let ?row = "finish_row (en_text en) rules (text_stop_matcher (sr_strings rules)) ?drawn"
    have s: "solo en g temperature rules n ?row (fst (g t st)) (snd (g t st)) = Some r" using Suc.prems(1) True x by simp
    have a: "ro_active ?drawn" "\<not> ro_stopped ?drawn" using True Suc.prems(5) by simp_all
    have p4: "ro_active ?row \<longrightarrow> \<not> ro_stopped ?row" using finish_row_stopped a(2) by blast
    have p3: "\<not> ro_active ?row \<longrightarrow> ro_stopped ?row \<or> length (ro_generated ?row) = ro_limit ?row"
      using finish_row_end a by blast
    have p1: "ro_active ?row \<longrightarrow> length (ro_generated ?row) < ro_limit ?row"
      using finish_row_active(1) [of "en_text en" rules "text_stop_matcher (sr_strings rules)" ?drawn] Suc.prems(2) True by auto
    have p2: "length (ro_generated ?row) \<le> ro_limit ?row" "ro_prefix ?row = ro_prompt ?row @ ro_generated ?row"
      "ro_limit ?row - length (ro_generated ?row) \<le> n"
      using Suc.prems(2,6,7) True by auto
    from Suc.IH [OF s p1 p2(1) p3 p4 p2(2,3)] show ?thesis by auto
  next
    case False
    then show ?thesis using Suc.prems by auto
  qed
qed

text \<open>
  A row alone generates at most its limit, so that prompt and answer fit the context; it ends by a
  stop rule or at its limit, and the history that is cached is the prompt and the answer.
\<close>

theorem rollout_bounds:
  fixes en :: "('w, 'st, 'a, 'g, 'lp) engine"
  assumes "solo_row en f w temperature rules (new_row seed_rng ctx requested seed (i, prompt)) = Some row" "length prompt \<le> ctx" "0 \<le> requested"
  shows "ro_prefix row = prompt @ ro_generated row \<and> length (ro_prefix row) \<le> ctx \<and> int (length (ro_generated row)) \<le> requested \<and>
    (ro_stopped row \<or> length (ro_generated row) = min (nat requested) (ctx - length prompt))"
proof -
  let ?row = "new_row seed_rng ctx requested seed (i, prompt) :: ('g, 'lp) rollout"
  have l: "ro_limit ?row = min (nat requested) (ctx - length prompt)" using assms(2,3) by (simp add: new_row_def nat_diff_distrib min_def)
  have start: "ro_generated ?row = []" "ro_active ?row \<longleftrightarrow> 0 < ro_limit ?row" "\<not> ro_stopped ?row" "ro_prefix ?row = ro_prompt ?row"
    by (simp_all add: new_row_def Let_def)
  have "length (ro_generated row) \<le> ro_limit row \<and> (ro_stopped row \<or> length (ro_generated row) = ro_limit row) \<and>
     ro_prefix row = ro_prompt row @ ro_generated row \<and> ro_limit row = ro_limit ?row \<and> ro_prompt row = ro_prompt ?row"
    using solo_bounds [OF assms(1) [unfolded solo_row_def]] start by auto
  then have r: "length (ro_generated row) \<le> min (nat requested) (ctx - length prompt)" "ro_prefix row = prompt @ ro_generated row"
    "ro_stopped row \<or> length (ro_generated row) = min (nat requested) (ctx - length prompt)"
    unfolding l by (auto simp: new_row_def Let_def)
  from r(1) have "int (length (ro_generated row)) \<le> requested" "length prompt + length (ro_generated row) \<le> ctx"
    using assms(2,3) by linarith+
  then show ?thesis using r(2,3) by simp
qed

section \<open>Policies\<close>

text \<open>
  C24. In every reachable server there is a policy and never more than \<open>--keep-versions\<close>, their versions
  are different and their steps increase, and every cached prefix belongs to one of them: nothing
  of a retired version is left in the cache or comes back, also when the reference is used again.
\<close>

theorem policies_bounded:
  assumes "rl_reachable en view update s" "engine_law en f"
  shows "1 \<le> length (rl_policies s) \<and> length (rl_policies s) \<le> op_versions (rl_options s) \<and>
    distinct (map (\<lambda>a. pl_version (rl_objects s a)) (rl_policies s)) \<and>
    sorted_wrt (<) (map (\<lambda>a. pl_step (rl_objects s a)) (rl_policies s)) \<and>
    (fst ` set (pp_abs (rl_cache s)) \<subseteq> (\<lambda>a. pl_version (rl_objects s a)) ` set (rl_policies s))"
proof -
  have p: "policies_ok view (op_versions (rl_options s)) s" "entries_ok en f s (rl_cache s)"
    using rl_reachable_inv [OF assms] by (simp_all add: rl_inv_def)
  have sw: "sorted_wrt (\<lambda>a b. a < b \<and> pl_step (rl_objects s a) < pl_step (rl_objects s b)) (rl_policies s)"
    using p(1) by (simp add: policies_ok_def)
  have "sorted_wrt (<) (rl_policies s)" by (rule sorted_wrt_mono_rel [OF _ sw]) simp
  then have "distinct (rl_policies s)" by (simp add: strict_sorted_iff)
  moreover have "inj_on (\<lambda>a. pl_version (rl_objects s a)) (set (rl_policies s))"
    using p(1) inj_on_subset [of _ "known s" "set (rl_policies s)"] by (auto simp: policies_ok_def known_def)
  moreover have "sorted_wrt (<) (map (\<lambda>a. pl_step (rl_objects s a)) (rl_policies s))"
    unfolding sorted_wrt_map by (rule sorted_wrt_mono_rel [OF _ sw]) simp
  moreover have "fst ` set (pp_abs (rl_cache s)) \<subseteq> (\<lambda>a. pl_version (rl_objects s a)) ` set (rl_policies s)"
    using p(2) by (fastforce simp: entries_ok_def)
  moreover have "1 \<le> length (rl_policies s)" using p(1) by (cases "rl_policies s") (auto simp: policies_ok_def)
  ultimately show ?thesis using p(1) by (simp add: policies_ok_def distinct_map)
qed

text \<open>
  C20. An update of the optimizer is always on the policy that collected the batch: the request names the
  latest version, whose weights are those of the learner before the update. Until the next
  publication every further training request is refused.
\<close>

theorem training_on_policy:
  assumes "rl_reachable en view update s" "engine_law en f" "train update r s = (Inr report, s')" "tp_updated report"
  shows "tq_policy r = Given (pl_version (rl_objects s (last (rl_policies s)))) \<and>
    pl_weights (rl_objects s (last (rl_policies s))) = view (rl_learner s) \<and> rl_step s' = rl_step s + 1 \<and>
    isl (fst (train update' r' s'))"
proof -
  have p: "policies_ok view (op_versions (rl_options s)) s" using rl_reachable_inv [OF assms(1,2)] by (simp add: rl_inv_def)
  obtain l v where s': "s' = s\<lparr>rl_learner := l, rl_step := rl_step s + 1\<rparr>" "tq_policy r = Given v"
    "policy (tq_policy r) s = Inr (last (rl_policies s))" "pl_step (rl_objects s (last (rl_policies s))) = rl_step s"
    using train_cases [OF assms(3)] assms(4) by blast
  have v: "v = pl_version (rl_objects s (last (rl_policies s)))"
    using policy_known(2) [OF s'(3)] s'(2) p by (simp add: policies_ok_def)
  have "isl (fst (train update' r' s'))"
  proof (cases "tq_policy r'")
    case (Given name)
    then show ?thesis
      using s'(4) by (cases "policy (Given name) s'") (auto simp: train_def s'(1))
  qed (simp_all add: train_def)
  then show ?thesis using s' v p by (simp add: policies_ok_def)
qed

text \<open>
  When the checkpoint of a publication fails after the export, nothing is published but the export
  stays, and every later publication of that step that saves anything is refused.
\<close>

theorem failed_checkpoint_blocks_export:
  fixes s :: "('l, 'w, 'd) rl_runtime"
  assumes "pq_expected r = Given (rl_step s)" "pq_checkpoint r = Given True" "pq_save r = Absent"
    and "pl_step (rl_objects s (last (rl_policies s))) < rl_step s" "last (rl_policies s) < rl_next s"
    and "export_directory s \<notin> set (rl_dirs s)" "export_directory s @ ''.tmp'' \<notin> set (rl_dirs s)"
    and "export_directory s @ ''/training'' \<notin> set (rl_dirs s)"
  shows "\<exists>s1. publish view True False r s = Some (Inl (HttpError 500 ''failed to write checkpoint metadata''), s1) \<and>
    rl_policies s1 = rl_policies s \<and>
    (\<exists>s2. publish view export_ok checkpoint_ok r s1 = Some (Inl (HttpError 409 ''policy export destination exists''), s2))"
proof -
  define e where "e = export_directory s"
  have same: "export_directory t = e" if "rl_options t = rl_options s" "rl_run_id t = rl_run_id s" "rl_step t = rl_step s"
    for t :: "('l, 'w, 'd) rl_runtime"
    using that by (simp add: export_directory_def e_def)
  have ne: "e @ ''/training'' \<noteq> e" "e \<noteq> []" by (simp_all add: e_def export_directory_def)
  show ?thesis
    using assms(1-5) assms(6-8) [folded e_def]
    by (simp add: publish_def flag_def snapshot_def export_policy_def save_checkpoint_def same ne Let_def)
qed

section \<open>Witnesses\<close>

text \<open>A model whose state is its history and whose next token is the last one plus its weight.\<close>

definition echo_row :: "int \<Rightarrow> token \<Rightarrow> token list \<Rightarrow> token list \<times> int list" where
  "echo_row w t st = (st @ [t], [t + w])"

definition echo :: "(int, token list, int, nat, unit) engine" where
  "echo =
     \<lparr>en_initial = (\<lambda>_. []), en_forward = (\<lambda>w ids st. (feed (echo_row w) ids st, row_logits (echo_row w) ids st [])),
      en_decode = (\<lambda>w ts sts. (map2 (\<lambda>t st. fst (echo_row w t st)) ts sts, map2 (\<lambda>t st. snd (echo_row w t st)) ts sts)),
      en_sample = (\<lambda>lg _ g. Some (hd lg, (), Suc g)), en_seed = (+), en_text = (\<lambda>_. []), en_blank = ([], [])\<rparr>"

lemma echo_law: "engine_law echo echo_row"
  by (simp add: engine_law_def echo_def)

definition demo_options :: rl_options where
  "demo_options = \<lparr>op_ctx = 8, op_batch = 4, op_chunk = 2, op_versions = 2, op_vocab = 10, op_max_tokens = 3, op_stop = [],
     op_output = ''out''\<rparr>"

definition demo_server :: "(int, int, token list \<times> int list) rl_runtime" where
  "demo_server = rl_start id demo_options ''run'' 1 0 (projr (prefix_cache_pool 2 16 8)) []"

definition demo_update :: "real \<Rightarrow> nat \<Rightarrow> sample list \<Rightarrow> nat \<Rightarrow> int \<Rightarrow> int option" where
  "demo_update lr kept batch step l = Some (l + 1)"

lemma demo_reachable: "rl_reachable echo id demo_update demo_server"
proof (rule reachable_init)
  have "prefix_cache_pool 2 16 8 = Inr (projr (prefix_cache_pool 2 16 8))" by (simp add: prefix_cache_pool_def)
  moreover have "1 \<le> op_versions demo_options" "1 \<le> op_chunk demo_options" by (simp_all add: demo_options_def)
  ultimately show "rl_initial id demo_server" unfolding rl_initial_def demo_server_def by blast
qed

definition demo_training :: train_request where
  "demo_training = \<lparr>tq_policy = Given ''run:0'', tq_samples = Given [Some two_turns], tq_learning_rate = Given (Some 1),
     tq_temperature = Absent\<rparr>"

lemma zero_digit: "char_of (48 :: nat) = CHR ''0''"
proof -
  have "of_char (CHR ''0'') = (48 :: nat)" by simp
  then show ?thesis by (metis char_of_char)
qed

lemma demo_policy: "rl_policies demo_server = [0]" "rl_options demo_server = demo_options" "rl_step demo_server = 0" "rl_learner demo_server = 1"
  "rl_objects demo_server 0 = \<lparr>pl_version = ''run:0'', pl_step = 0, pl_weights = 1, pl_directory = [], pl_cache_enabled = True\<rparr>"
  "rl_reference demo_server = 0" "rl_run_id demo_server = ''run''" "rl_next demo_server = 1" "rl_dirs demo_server = []"
  "rl_version demo_server = 0" "pp_capacity (rl_cache demo_server) = 2"
  by (simp_all add: demo_server_def rl_start_def snapshot_def Let_def version_text_def dec_string.simps [of 0]
      prefix_cache_pool_def zero_digit)

lemma demo_trained:
  "\<exists>report. train demo_update demo_training demo_server = (Inr report, demo_server\<lparr>rl_learner := 2, rl_step := 1\<rparr>) \<and> tp_updated report"
proof -
  have "sample_of 10 8 1 two_turns (0, False) = Inr two_turns_sample" by (rule two_turns_accepted)
  then have "training_batch 10 8 1 [Some two_turns] = Inr ([fst two_turns_sample], 2, True)"
    by (simp add: training_batch_def two_turns_sample_def require_def)
  then show ?thesis
    by (simp add: train_def demo_training_def demo_policy policy_def real_number_def require_def demo_options_def demo_update_def)
qed

theorem training_on_policy_witness:
  "\<exists>report s'. train demo_update demo_training demo_server = (Inr report, s') \<and> rl_step s' = 1 \<and>
     isl (fst (train demo_update demo_training s'))"
proof -
  obtain report where r: "train demo_update demo_training demo_server = (Inr report, demo_server\<lparr>rl_learner := 2, rl_step := 1\<rparr>)"
    "tp_updated report" using demo_trained by blast
  show ?thesis using training_on_policy [OF demo_reachable echo_law r] r(1) by (simp add: demo_policy)
qed

lemma demo_trained_reachable: "rl_reachable echo id demo_update (demo_server\<lparr>rl_learner := 2, rl_step := 1\<rparr>)"
  using demo_trained by (meson demo_reachable reachable_step rl_event.Train)

theorem policies_bounded_witness:
  "length (rl_policies (demo_server\<lparr>rl_learner := 2, rl_step := 1\<rparr>)) \<le> 2"
  using policies_bounded [OF demo_trained_reachable echo_law] by (simp add: demo_policy demo_options_def)

definition demo_publish :: publish_request where
  "demo_publish = \<lparr>pq_expected = Given 1, pq_checkpoint = Given True, pq_save = Absent\<rparr>"

theorem failed_checkpoint_blocks_export_witness:
  "\<exists>s1 s2. publish id True False demo_publish (demo_server\<lparr>rl_learner := 2, rl_step := 1\<rparr>) =
      Some (Inl (HttpError 500 ''failed to write checkpoint metadata''), s1) \<and>
    publish id True True demo_publish s1 = Some (Inl (HttpError 409 ''policy export destination exists''), s2)"
  using failed_checkpoint_blocks_export [of demo_publish "demo_server\<lparr>rl_learner := 2, rl_step := 1\<rparr>" id True True]
  by (auto simp: demo_publish_def demo_policy)

definition demo_request :: completion_request where
  "demo_request = \<lparr>cq_policy = Absent, cq_prompts = Given [Given [Some 1, Some 2], Given [Some 3]], cq_max_tokens = Given 2,
     cq_temperature = Absent, cq_use_cache = Absent, cq_stop_ids = Given [Some 4], cq_stop_sequences = Absent, cq_stop = Absent, cq_seed = Given 7\<rparr>"

definition demo_plan :: "(nat, unit) completion_plan" where
  "demo_plan = projr (plan_completions echo 0 demo_request demo_server)"

lemma demo_plan: "plan_completions echo 0 demo_request demo_server = Inr demo_plan"
  "cp_policy demo_plan = 0" "cp_requested demo_plan = 2" "cp_rules demo_plan = \<lparr>sr_ids = [4], sr_sequences = [], sr_strings = []\<rparr>"
  "cp_rows demo_plan = [new_row (+) 8 2 7 (0, [1, 2]), new_row (+) 8 2 7 (1, [3])]"
  by (simp_all add: demo_plan_def plan_completions_def demo_request_def demo_policy policy_def demo_options_def number_def
      real_number_def flag_def stop_rules_def require_def vocab_token_def tokens_def echo_def)


theorem rollout_bounds_witness:
  "\<exists>row. solo_row echo echo_row 1 1 (cp_rules demo_plan) (new_row (+) 8 2 7 (1, [3])) = Some row \<and> ro_prefix row = [3] @ ro_generated row \<and>
     length (ro_prefix row) \<le> 8"
proof -
  obtain row where r: "solo_row echo echo_row 1 1 (cp_rules demo_plan) (new_row (+) 8 2 7 (1, [3])) = Some row"
    by (simp add: demo_plan(4) solo_row_def new_row_def echo_def echo_row_def feed_def row_logits_def numeral_2_eq_2
        finish_row_def stopped_def stop_append_def text_stop_matcher_def Let_def)
  show ?thesis using rollout_bounds [OF r] r by simp
qed

end
