(* ===== verification/RlWorker.thy ===== *)
theory RlWorker
  imports Main
begin

text \<open>
  The single worker of the online reinforcement-learning server (class \<open>Worker\<close> in
  \<open>src/online_rl/server.cpp\<close>): a bounded queue that the request handlers fill and one thread
  empties. A job runs to its end before the next one is taken; every operation on the queue holds
  the mutex.
\<close>

section \<open>State and steps\<close>

record 'j worker =
  wk_queue :: "'j list"
  wk_stop :: bool
  wk_done :: "'j list"
  wk_exited :: bool

definition new_worker :: "'j worker" where
  "new_worker = \<lparr>wk_queue = [], wk_stop = False, wk_done = [], wk_exited = False\<rparr>"

definition enqueue :: "'j \<Rightarrow> 'j worker \<Rightarrow> bool \<times> 'j worker" where
  "enqueue job w =
     (if wk_stop w \<or> length (wk_queue w) \<ge> 32 then (False, w)
      else (True, w\<lparr>wk_queue := wk_queue w @ [job]\<rparr>))"

text \<open>An iteration of the thread's loop, when the condition it waits for holds; the job is run.\<close>

definition work :: "'j worker \<Rightarrow> 'j worker" where
  "work w =
     (if wk_exited w \<or> (\<not> wk_stop w \<and> wk_queue w = []) then w
      else if wk_stop w \<and> wk_queue w = [] then w\<lparr>wk_exited := True\<rparr>
      else w\<lparr>wk_queue := tl (wk_queue w), wk_done := wk_done w @ [hd (wk_queue w)]\<rparr>)"

text \<open>The destructor sets \<open>stop_\<close> and joins the thread.\<close>

definition stop_worker :: "'j worker \<Rightarrow> 'j worker" where
  "stop_worker w = w\<lparr>wk_stop := True\<rparr>"

datatype 'j worker_event = Enqueue 'j | Work | Stop

text \<open>A run gives the jobs whose \<open>enqueue\<close> was answered with true, in order, and the worker.\<close>

fun run_worker :: "'j worker_event list \<Rightarrow> 'j worker \<Rightarrow> 'j list \<times> 'j worker" where
  "run_worker [] w = ([], w)"
| "run_worker (Enqueue j # es) w =
     (let (ok, w1) = enqueue j w; (js, w2) = run_worker es w1 in (if ok then j # js else js, w2))"
| "run_worker (Work # es) w = run_worker es (work w)"
| "run_worker (Stop # es) w = run_worker es (stop_worker w)"

section \<open>Properties\<close>

definition worker_ok :: "'j worker \<Rightarrow> bool" where
  "worker_ok w \<longleftrightarrow> length (wk_queue w) \<le> 32 \<and> (wk_exited w \<longrightarrow> wk_stop w \<and> wk_queue w = [])"

lemma run_worker_spec:
  "worker_ok w \<Longrightarrow> run_worker es w = (js, w') \<Longrightarrow>
     worker_ok w' \<and> wk_done w' @ wk_queue w' = wk_done w @ wk_queue w @ js"
proof (induction es w arbitrary: js rule: run_worker.induct)
  case (2 j es w)
  obtain ok w1 where e: "enqueue j w = (ok, w1)" by force
  obtain js1 w2 where r: "run_worker es w1 = (js1, w2)" by force
  have "worker_ok w1" "wk_done w1 @ wk_queue w1 = wk_done w @ wk_queue w @ (if ok then [j] else [])"
    using e 2(2) by (auto simp: enqueue_def worker_ok_def split: if_splits)
  then show ?case using 2(1) [OF e [symmetric] refl] 2(3) e r by auto
next
  case (3 es w)
  have "worker_ok (work w)" "wk_done (work w) @ wk_queue (work w) = wk_done w @ wk_queue w"
    using 3(2) by (auto simp: work_def worker_ok_def)
  then show ?case using 3(1) 3(3) by auto
next
  case (4 es w)
  then show ?case by (auto simp: stop_worker_def worker_ok_def)
qed simp

lemma new_worker_ok: "worker_ok new_worker"
  by (simp add: new_worker_def worker_ok_def)

text \<open>Once stopped, a thread that keeps running empties the queue and ends.\<close>

lemma work_drains:
  "wk_stop w \<Longrightarrow> (work ^^ Suc (length (wk_queue w))) w = w\<lparr>wk_queue := [], wk_done := wk_done w @ wk_queue w, wk_exited := True\<rparr> \<or> wk_exited w"
proof (induction "length (wk_queue w)" arbitrary: w)
  case 0
  then show ?case by (cases w) (simp add: work_def)
next
  case (Suc n)
  then obtain q qs where q: "wk_queue w = q # qs" by (metis length_Suc_conv)
  show ?case
  proof (cases "wk_exited w")
    case False
    let ?w = "work w"
    have w: "?w = w\<lparr>wk_queue := qs, wk_done := wk_done w @ [q]\<rparr>" using q False by (simp add: work_def)
    have "(work ^^ Suc (length (wk_queue ?w))) ?w = ?w\<lparr>wk_queue := [], wk_done := wk_done ?w @ wk_queue ?w, wk_exited := True\<rparr> \<or> wk_exited ?w"
      by (rule Suc(1)) (use Suc q w in auto)
    then have "(work ^^ Suc (length qs)) ?w = w\<lparr>wk_queue := [], wk_done := wk_done w @ q # qs, wk_exited := True\<rparr>"
      using False by (simp add: w)
    then show ?thesis unfolding q by (simp add: funpow_swap1)
  qed simp
qed

text \<open>
  Whatever the handlers enqueue and whenever the server stops, the accepted jobs are run in the
  order of their acceptance, never more than 32 wait, none is run that was refused, and 33
  iterations after the stop the thread has ended with every accepted job run.
\<close>

theorem worker_runs_accepted:
  "case run_worker (es @ Stop # replicate 33 Work) new_worker of
     (js, w) \<Rightarrow> wk_exited w \<and> wk_done w = js \<and> wk_queue w = [] \<and>
       (case run_worker es new_worker of (js', w') \<Rightarrow> wk_done w' @ wk_queue w' = js' \<and> length (wk_queue w') \<le> 32 \<and> js = js')"
proof -
  obtain js w where r: "run_worker es new_worker = (js, w)" by force
  have inv: "worker_ok w" "wk_done w @ wk_queue w = js"
    using run_worker_spec [OF new_worker_ok r] by (simp_all add: new_worker_def)
  have app: "run_worker (es @ fs) w0 = (let (js, w1) = run_worker es w0; (js', w2) = run_worker fs w1 in (js @ js', w2))"
    for es fs and w0 :: "'a worker"
    by (induction es w0 rule: run_worker.induct) (auto simp: Let_def split: prod.split)
  have works: "run_worker (replicate n Work) w0 = ([], (work ^^ n) w0)" for n and w0 :: "'a worker"
    by (induction n arbitrary: w0) (simp_all add: funpow_swap1)
  let ?s = "stop_worker w"
  have stays: "(work ^^ n) x = x" if "wk_exited x" for n and x :: "'a worker"
    using that by (induction n) (simp_all add: work_def)
  have "wk_exited ((work ^^ 33) ?s) \<and> wk_done ((work ^^ 33) ?s) = js \<and> wk_queue ((work ^^ 33) ?s) = []"
  proof (cases "wk_exited w")
    case True
    then have "wk_exited ?s" by (simp add: stop_worker_def)
    then show ?thesis using inv True by (simp only: stays) (auto simp: stop_worker_def worker_ok_def)
  next
    case False
    have d: "(work ^^ Suc (length (wk_queue ?s))) ?s = ?s\<lparr>wk_queue := [], wk_done := wk_done ?s @ wk_queue ?s, wk_exited := True\<rparr>"
      using work_drains [of ?s] False by (simp add: stop_worker_def)
    have "33 = (32 - length (wk_queue w)) + Suc (length (wk_queue w))" using inv(1) by (simp add: worker_ok_def)
    then have "(work ^^ 33) ?s = (work ^^ (32 - length (wk_queue w))) ((work ^^ Suc (length (wk_queue ?s))) ?s)"
      by (simp only: funpow_add comp_apply) (simp add: stop_worker_def)
    also have "\<dots> = ?s\<lparr>wk_queue := [], wk_done := wk_done ?s @ wk_queue ?s, wk_exited := True\<rparr>"
      unfolding d by (rule stays) simp
    finally show ?thesis using inv(2) by (simp add: stop_worker_def)
  qed
  then show ?thesis using r inv by (simp add: app works worker_ok_def del: replicate.simps funpow.simps)
qed

end
