(* ===== verification/Tokenizer.thy ===== *)
theory Tokenizer
  imports Prelude
begin

text \<open>
  The byte-level trie tokenizer (\<open>src/utils/trie.h\<close>, reached through \<open>TrieTokenizer\<close>): parsing
  of a vocabulary file, the trie with its longest-match search, the table from ids to bytes, and
  \<open>encode\<close> and \<open>decode\<close>. A vocabulary line is \<open>id repr length\<close>, where \<open>repr\<close> is a Python
  string or bytes literal.
\<close>

section \<open>Numbers in text\<close>

abbreviation is_space :: "byte \<Rightarrow> bool" where
  "is_space c \<equiv> c = 32 \<or> 9 \<le> c \<and> c \<le> 13"

abbreviation is_digit :: "byte \<Rightarrow> bool" where
  "is_digit c \<equiv> 48 \<le> c \<and> c \<le> 57"

definition hex_digit :: "byte \<Rightarrow> nat option" where
  "hex_digit c =
     (if 48 \<le> c \<and> c \<le> 57 then Some (unat c - 48)
      else if 97 \<le> c \<and> c \<le> 102 then Some (unat c - 87)
      else if 65 \<le> c \<and> c \<le> 70 then Some (unat c - 55) else None)"

definition read_sign :: "bytes \<Rightarrow> bool \<times> bytes" where
  "read_sign s =
     (case s of c # rest \<Rightarrow> if c = 45 then (True, rest) else if c = 43 then (False, rest) else (False, s)
      | [] \<Rightarrow> (False, []))"

text \<open>\<open>std::stoi\<close>; \<open>None\<close>: it throws.\<close>

definition stoi :: "bytes \<Rightarrow> int option" where
  "stoi s =
     (let (neg, rest) = read_sign (dropWhile is_space s);
          digits = takeWhile is_digit rest;
          n = foldl (\<lambda>acc c. acc * 10 + (uint c - 48)) 0 digits;
          v = (if neg then - n else n)
      in if digits = [] \<or> v < - (2 ^ 31) \<or> v \<ge> 2 ^ 31 then None else Some v)"

definition drop_0x :: "bytes \<Rightarrow> bytes" where
  "drop_0x s = (case s of a # b # rest \<Rightarrow> if a = 48 \<and> (b = 120 \<or> b = 88) then rest else s | _ \<Rightarrow> s)"

definition hex_value :: "bytes \<Rightarrow> nat" where
  "hex_value s = foldl (\<lambda>acc c. acc * 16 + the (hex_digit c)) 0 (takeWhile (\<lambda>c. hex_digit c \<noteq> None) s)"

text \<open>\<open>std::stoul\<close> in base 16 on at most two characters; \<open>None\<close>: it throws.\<close>

definition stoul16 :: "bytes \<Rightarrow> u64 option" where
  "stoul16 s =
     (let (neg, rest) = read_sign (dropWhile is_space s)
      in if takeWhile (\<lambda>c. hex_digit c \<noteq> None) rest = [] then None
         else let v = of_nat (hex_value (drop_0x rest)) in Some (if neg then - v else v))"

text \<open>
  \<open>stream >> std::hex >> code_point\<close> on at most four characters: a failed conversion stores 0,
  and a stream with nothing but space stores nothing, so the variable stays unset (\<open>None\<close>).
\<close>

definition stream_hex :: "bytes \<Rightarrow> u32 option" where
  "stream_hex s =
     (let s' = dropWhile is_space s; (neg, rest) = read_sign s'
      in if s' = [] then None
         else let v = of_nat (hex_value (drop_0x rest)) in Some (if neg then - v else v))"

section \<open>Vocabulary lines\<close>

text \<open>\<open>substr\<close> with 64-bit positions; \<open>None\<close>: it throws.\<close>

definition substr :: "bytes \<Rightarrow> u64 \<Rightarrow> u64 \<Rightarrow> bytes option" where
  "substr s pos count = (if unat pos > length s then None else Some (take (unat count) (drop (unat pos) s)))"

definition process_vocab_format :: "bytes \<Rightarrow> bytes option" where
  "process_vocab_format s =
     (if s \<noteq> [] \<and> (s ! 0 = 39 \<or> s ! 0 = 34) then substr s 1 (of_nat (length s) - 3)
      else if length s > 1 \<and> s ! 0 = 98 \<and> (s ! 1 = 39 \<or> s ! 1 = 34) then substr s 2 (of_nat (length s) - 4)
      else Some s)"

definition utf8_of_code_point :: "u32 \<Rightarrow> bytes" where
  "utf8_of_code_point cp =
     (if cp \<le> 0x7F then [ucast cp]
      else if cp \<le> 0x7FF then [ucast (192 + drop_bit 6 cp), ucast (128 + and cp 0x3F)]
      else if cp \<le> 0xFFFF then
        [ucast (224 + drop_bit 12 cp), ucast (128 + and (drop_bit 6 cp) 0x3F), ucast (128 + and cp 0x3F)]
      else if cp \<le> 0x10FFFF then
        [ucast (240 + drop_bit 18 cp), ucast (128 + and (drop_bit 12 cp) 0x3F),
         ucast (128 + and (drop_bit 6 cp) 0x3F), ucast (128 + and cp 0x3F)]
      else [])"

text \<open>The branch of \<open>processEscapes\<close> for a literal that starts with a code point escape.\<close>

function unicode_escapes :: "bytes \<Rightarrow> bytes option" where
  "unicode_escapes s =
     (case s of [] \<Rightarrow> Some []
      | c # rest \<Rightarrow>
          if c = 92 \<and> rest \<noteq> [] \<and> (hd rest = 117 \<or> hd rest = 120) then
            (case stream_hex (take 4 (tl rest)) of None \<Rightarrow> None
             | Some cp \<Rightarrow> map_option (\<lambda>out. utf8_of_code_point cp @ out) (unicode_escapes (drop 4 (tl rest))))
          else map_option (\<lambda>out. c # out) (unicode_escapes rest))"
  by pat_completeness auto

termination by (relation "measure length") (auto simp: less_Suc_eq_le)

text \<open>The other branch; the flag says that the last character was a backslash.\<close>

function plain_escapes :: "bool \<Rightarrow> bytes \<Rightarrow> bytes option" where
  "plain_escapes escape [] = Some []"
| "plain_escapes False (c # rest) =
     (if c = 92 then plain_escapes True rest else map_option (\<lambda>out. c # out) (plain_escapes False rest))"
| "plain_escapes True (c # rest) =
     (if c = 120 then
        let digits = take 2 rest; tail = plain_escapes False (drop 2 rest)
        in if length digits = 2 then
             (case stoul16 digits of None \<Rightarrow> None | Some v \<Rightarrow> map_option (\<lambda>out. ucast v # out) tail)
           else tail
      else
        map_option (\<lambda>out. (if c = 110 then [10] else if c = 116 then [9] else if c = 114 then [13]
             else if c = 92 then [92] else if c = 39 then [39] else if c = 34 then [34] else [92, c]) @ out)
          (plain_escapes False rest))"
  by pat_completeness auto

termination by (relation "measure (\<lambda>(_, s). length s)") auto

definition process_escapes :: "bytes \<Rightarrow> bool \<Rightarrow> int \<Rightarrow> bytes option" where
  "process_escapes s utf8_string utf8_byte_length =
     (if utf8_string \<and> utf8_byte_length > 0 \<and> length s > 1 \<and> s ! 0 = 92 \<and> (s ! 1 = 117 \<or> s ! 1 = 120) then
        map_option (\<lambda>out. replicate (nat utf8_byte_length - length out) 0 @ out) (unicode_escapes s)
      else plain_escapes False s)"

text \<open>\<open>find\<close> and \<open>rfind\<close> of a space, with \<open>npos\<close> when there is none.\<close>

definition npos :: u64 where
  "npos = - 1"

definition find_space :: "bytes \<Rightarrow> u64" where
  "find_space s = (if 32 \<in> set s then of_nat (length (takeWhile (\<lambda>c. c \<noteq> 32) s)) else npos)"

definition rfind_space :: "bytes \<Rightarrow> u64" where
  "rfind_space s =
     (if 32 \<in> set s then of_nat (length s - 1 - length (takeWhile (\<lambda>c. c \<noteq> 32) (rev s))) else npos)"

text \<open>One line of the file: its id and its bytes.\<close>

definition parse_line :: "bytes \<Rightarrow> (int \<times> bytes) option" where
  "parse_line line =
     (let first = find_space line; last = rfind_space line in
      case (substr line 0 first, substr line (last + 1) npos, substr line (first + 1) (last - first)) of
        (Some id_text, Some length_text, Some repr) \<Rightarrow>
          (case (stoi id_text, stoi length_text, process_vocab_format repr) of
             (Some idx, Some utf8_byte_length, Some s) \<Rightarrow>
               (let utf8_string = (unat (first + 1) \<ge> length line \<or> line ! unat (first + 1) \<noteq> 98) in
                map_option (Pair idx) (process_escapes s utf8_string utf8_byte_length))
           | _ \<Rightarrow> None)
      | _ \<Rightarrow> None)"

section \<open>The trie\<close>

datatype tok_trie = TokNode (tt_values: "int list") (tt_children: "(byte \<times> tok_trie) list")

definition tok_leaf :: tok_trie where
  "tok_leaf = TokNode [] []"

fun trie_add :: "bytes \<Rightarrow> int \<Rightarrow> tok_trie \<Rightarrow> tok_trie" where
  "trie_add [] val (TokNode vs cs) = TokNode (if val \<noteq> -1 then List.insert val vs else vs) cs"
| "trie_add (c # key) val (TokNode vs cs) =
     TokNode vs (AList.update c (trie_add key val (case map_of cs c of None \<Rightarrow> tok_leaf | Some child \<Rightarrow> child)) cs)"

text \<open>
  \<open>find_longest_fast\<close>: the walk down from a node; \<open>pick\<close> is the first element of the
  node's \<open>unordered_set\<close> of ids, whose order the library chooses.
\<close>

fun longest_walk :: "(int list \<Rightarrow> int) \<Rightarrow> tok_trie \<Rightarrow> bytes \<Rightarrow> nat \<Rightarrow> nat \<times> int \<Rightarrow> nat \<times> int" where
  "longest_walk pick node [] idx ret = ret"
| "longest_walk pick node (c # rest) idx ret =
     (case map_of (tt_children node) c of
        None \<Rightarrow> ret
      | Some child \<Rightarrow>
          longest_walk pick child rest (Suc idx)
            (if tt_values child \<noteq> [] then (Suc idx, pick (tt_values child)) else ret))"

definition find_longest_fast :: "(int list \<Rightarrow> int) \<Rightarrow> tok_trie \<Rightarrow> bytes \<Rightarrow> nat \<Rightarrow> nat \<times> int" where
  "find_longest_fast pick root key idx = longest_walk pick root (drop idx key) idx (0, 0)"

section \<open>Ids and their bytes\<close>

record token_mapping =
  tm_data :: "bytes list"
  tm_index :: "int \<Rightarrow> nat option"
  tm_ids :: "bytes \<Rightarrow> int option"

text \<open>
  A token whose bytes are known already is given the id of the earlier token as its index into
  \<open>token_data\<close>, as the code does.
\<close>

definition add_token :: "int \<Rightarrow> bytes \<Rightarrow> token_mapping \<Rightarrow> token_mapping" where
  "add_token token_id data tm =
     (case tm_ids tm data of
        Some i \<Rightarrow> tm\<lparr>tm_index := (tm_index tm)(token_id \<mapsto> unat (word_of_int i :: u64))\<rparr>
      | None \<Rightarrow>
          tm\<lparr>tm_data := tm_data tm @ [data], tm_index := (tm_index tm)(token_id \<mapsto> length (tm_data tm)),
             tm_ids := (tm_ids tm)(data \<mapsto> token_id)\<rparr>)"

text \<open>\<open>None\<close>: the read is out of the bounds of \<open>token_data\<close>.\<close>

definition get_token_data :: "token_mapping \<Rightarrow> int \<Rightarrow> bytes option" where
  "get_token_data tm token_id =
     (case tm_index tm token_id of
        None \<Rightarrow> Some []
      | Some i \<Rightarrow> if i < length (tm_data tm) then Some (tm_data tm ! i) else None)"

section \<open>The tokenizer\<close>

record tokenizer =
  tk_mapping :: token_mapping
  tk_root :: tok_trie

definition empty_tokenizer :: tokenizer where
  "empty_tokenizer =
     \<lparr>tk_mapping = \<lparr>tm_data = [], tm_index = (\<lambda>_. None), tm_ids = (\<lambda>_. None)\<rparr>, tk_root = tok_leaf\<rparr>"

definition put_token :: "int \<times> bytes \<Rightarrow> tokenizer \<Rightarrow> tokenizer" where
  "put_token = (\<lambda>(idx, data) tk.
     \<lparr>tk_mapping = add_token idx data (tk_mapping tk), tk_root = trie_add data idx (tk_root tk)\<rparr>)"

definition eod_token :: "int \<times> bytes" where
  "eod_token = (0, [60, 69, 79, 68, 62])"

text \<open>The lines \<open>getline\<close> yields: the newline that ends the file starts no further line.\<close>

fun file_lines :: "bytes \<Rightarrow> bytes list" where
  "file_lines [] = []"
| "file_lines (c # rest) =
     (if c = 10 then [] # file_lines rest
      else case file_lines rest of
             [] \<Rightarrow> [[c]]
           | l # ls \<Rightarrow> (c # l) # ls)"

text \<open>The constructor; \<open>None\<close>: the file does not open, or a line makes it throw.\<close>

definition parse_vocab :: "bytes \<Rightarrow> (int \<times> bytes) list option" where
  "parse_vocab file = those (map parse_line (file_lines file))"

definition load_vocab :: "bytes option \<Rightarrow> tokenizer option" where
  "load_vocab file =
     (case file of None \<Rightarrow> None
      | Some content \<Rightarrow>
          map_option (\<lambda>entries. fold put_token (entries @ [eod_token]) empty_tokenizer) (parse_vocab content))"

text \<open>The loop of \<open>encodeBytes\<close>.\<close>

function encode_from :: "(int list \<Rightarrow> int) \<Rightarrow> tok_trie \<Rightarrow> bytes \<Rightarrow> nat \<Rightarrow> int list" where
  "encode_from pick root src idx =
     (if idx < length src then
        let (idx', tok) = find_longest_fast pick root src idx
        in if idx' > idx \<and> tok \<noteq> -1 then tok # encode_from pick root src idx' else []
      else [])"
  by pat_completeness auto

termination by (relation "measure (\<lambda>(_, _, src, idx). length src - idx)") auto

declare encode_from.simps [simp del]

definition encode :: "(int list \<Rightarrow> int) \<Rightarrow> tokenizer \<Rightarrow> bytes \<Rightarrow> int list" where
  "encode pick tk src = encode_from pick (tk_root tk) src 0"

definition decode :: "tokenizer \<Rightarrow> int list \<Rightarrow> bytes option" where
  "decode tk tokens = map_option concat (those (map (get_token_data (tk_mapping tk)) tokens))"

section \<open>The trie as a map from keys to ids\<close>

fun trie_ids :: "tok_trie \<Rightarrow> bytes \<Rightarrow> int list" where
  "trie_ids node [] = tt_values node"
| "trie_ids node (c # key) = (case map_of (tt_children node) c of None \<Rightarrow> [] | Some child \<Rightarrow> trie_ids child key)"

lemma trie_ids_leaf [simp]: "trie_ids tok_leaf key = []"
  by (cases key) (simp_all add: tok_leaf_def)

lemma trie_ids_add:
  "trie_ids (trie_add key val node) key' =
     (if key' = key \<and> val \<noteq> -1 then List.insert val (trie_ids node key') else trie_ids node key')"
proof (induction key val node arbitrary: key' rule: trie_add.induct)
  case (1 val vs cs)
  then show ?case by (cases key') auto
next
  case (2 c key val vs cs)
  then show ?case by (cases key') (auto split: option.splits)
qed

lemma longest_walk_spec:
  "longest_walk pick node rest idx ret =
     (case find (\<lambda>n. trie_ids node (take n rest) \<noteq> []) (rev [1..<Suc (length rest)]) of
        None \<Rightarrow> ret
      | Some n \<Rightarrow> (idx + n, pick (trie_ids node (take n rest))))"
proof (induction pick node rest idx ret rule: longest_walk.induct)
  case (2 pick node c rest idx ret)
  have up: "[1..<Suc (length (c # rest))] = 1 # map Suc [1..<Suc (length rest)]"
    by (simp add: map_Suc_upt upt_conv_Cons del: upt_Suc)
  show ?case
  proof (cases "map_of (tt_children node) c")
    case None
    then have "find (\<lambda>n. trie_ids node (take n (c # rest)) \<noteq> []) (rev [1..<Suc (length (c # rest))]) = None"
      by (auto simp: find_None_iff take_Cons' simp del: upt_Suc)
    then show ?thesis using None by simp
  next
    case (Some child)
    have f: "find P (rev (map Suc xs) @ [1]) = (case find (\<lambda>n. P (Suc n)) (rev xs) of None \<Rightarrow> (if P 1 then Some 1 else None) | Some n \<Rightarrow> Some (Suc n))"
      for P :: "nat \<Rightarrow> bool" and xs
      by (induction xs rule: rev_induct) auto
    show ?thesis
      unfolding up rev.simps f using 2 [OF Some] Some
      by (auto split: option.splits)
  qed
qed simp

section \<open>Loaded vocabularies\<close>

abbreviation built :: "(int \<times> bytes) list \<Rightarrow> tokenizer" where
  "built es \<equiv> fold put_token es empty_tokenizer"

lemma put_token_apply:
  "put_token (i, d) tk = \<lparr>tk_mapping = add_token i d (tk_mapping tk), tk_root = trie_add d i (tk_root tk)\<rparr>"
  by (simp add: put_token_def)

lemma add_token_new:
  "tm_ids tm d = None \<Longrightarrow> add_token i d tm =
     tm\<lparr>tm_data := tm_data tm @ [d], tm_index := (tm_index tm)(i \<mapsto> length (tm_data tm)), tm_ids := (tm_ids tm)(d \<mapsto> i)\<rparr>"
  by (simp add: add_token_def)

lemma built_snoc: "built (es @ [e]) = put_token e (built es)"
  by simp

lemma built_ids:
  assumes "distinct (map snd es)"
  shows "trie_ids (tk_root (built es)) key =
    (case find (\<lambda>e. snd e = key \<and> fst e \<noteq> -1) es of None \<Rightarrow> [] | Some e \<Rightarrow> [fst e])"
  using assms
proof (induction es rule: rev_induct)
  case (snoc e es)
  obtain i d where e: "e = (i, d)" by (cases e)
  have app: "find P (xs @ [x]) = (case find P xs of None \<Rightarrow> if P x then Some x else None | Some y \<Rightarrow> Some y)"
    for P :: "int \<times> bytes \<Rightarrow> bool" and xs x
    by (induction xs) auto
  have new: "find (\<lambda>e. snd e = d \<and> fst e \<noteq> -1) es = None"
    using snoc.prems by (force simp: find_None_iff e)
  show ?case
    using snoc new unfolding built_snoc app by (auto simp: put_token_apply e trie_ids_add split: option.splits)
qed (simp add: empty_tokenizer_def)

lemma built_mapping:
  assumes "distinct (map snd es)"
  shows "tm_data (tk_mapping (built es)) = map snd es \<and>
    (\<forall>d. tm_ids (tk_mapping (built es)) d = None \<longleftrightarrow> d \<notin> snd ` set es)"
  using assms
proof (induction es rule: rev_induct)
  case (snoc e es)
  obtain i d where e: "e = (i, d)" by (cases e)
  have IH: "tm_data (tk_mapping (built es)) = map snd es" "\<And>d. tm_ids (tk_mapping (built es)) d = None \<longleftrightarrow> d \<notin> snd ` set es"
    using snoc by auto
  have "tm_ids (tk_mapping (built es)) d = None" unfolding IH(2) using snoc.prems by (auto simp: e)
  from add_token_new [OF this, of i] show ?case unfolding built_snoc using IH by (auto simp: put_token_apply e)
qed (simp add: empty_tokenizer_def)

lemma built_data:
  assumes "distinct (map snd es)" "distinct (map fst es)" "(i, d) \<in> set es"
  shows "get_token_data (tk_mapping (built es)) i = Some d"
proof -
  have "\<forall>k < length es. tm_index (tk_mapping (built es)) (fst (es ! k)) = Some k"
    using assms(1,2)
  proof (induction es rule: rev_induct)
    case (snoc e es)
    obtain j d' where e: "e = (j, d')" by (cases e)
    have M: "tm_data (tk_mapping (built es)) = map snd es" "\<And>d. tm_ids (tk_mapping (built es)) d = None \<longleftrightarrow> d \<notin> snd ` set es"
      using built_mapping [of es] snoc.prems by auto
    have "tm_ids (tk_mapping (built es)) d' = None" unfolding M(2) using snoc.prems by (auto simp: e)
    then have "tm_index (tk_mapping (built (es @ [e]))) = (tm_index (tk_mapping (built es)))(j \<mapsto> length es)"
      unfolding built_snoc using M(1) by (simp add: put_token_apply add_token_def e)
    moreover have "fst (es ! k) \<noteq> j" if "k < length es" for k
      using snoc.prems(2) that by (auto simp: e image_iff dest: nth_mem)
    ultimately show ?case using snoc by (auto simp: nth_append e less_Suc_eq)
  qed simp
  then obtain k where "k < length es" "es ! k = (i, d)" "tm_index (tk_mapping (built es)) i = Some k"
    using assms(3) by (metis fst_conv in_set_conv_nth)
  then show ?thesis using built_mapping [OF assms(1)] by (simp add: get_token_data_def)
qed

section \<open>Greedy tokenization\<close>

text \<open>The reference: at every position take the longest token of the vocabulary.\<close>

definition token_matches :: "(int \<times> bytes) list \<Rightarrow> bytes \<Rightarrow> (int \<times> bytes) list" where
  "token_matches es rest = filter (\<lambda>(i, d). i \<noteq> -1 \<and> d \<noteq> [] \<and> prefix d rest) es"

definition longer :: "int \<times> bytes \<Rightarrow> int \<times> bytes \<Rightarrow> int \<times> bytes" where
  "longer a b = (if length (snd a) < length (snd b) then b else a)"

definition longest_match :: "(int \<times> bytes) list \<Rightarrow> bytes \<Rightarrow> (int \<times> bytes) option" where
  "longest_match es rest =
     (case token_matches es rest of [] \<Rightarrow> None | m # ms \<Rightarrow> Some (foldl longer m ms))"

lemma foldl_longest:
  "foldl longer m ms \<in> set (m # ms) \<and>
   (\<forall>x \<in> set (m # ms). length (snd x) \<le> length (snd (foldl longer m ms)))"
proof (induction ms arbitrary: m)
  case (Cons b ms)
  have "length (snd m) \<le> length (snd (longer m b))" "length (snd b) \<le> length (snd (longer m b))" "longer m b \<in> {m, b}"
    by (auto simp: longer_def)
  then show ?case using Cons.IH [of "longer m b"] by (auto intro: order.trans)
qed simp

lemma longest_match_Some:
  assumes "longest_match es rest = Some (i, d)"
  shows "(i, d) \<in> set es" "i \<noteq> -1" "d \<noteq> []" "prefix d rest"
    "(j, d') \<in> set es \<Longrightarrow> j \<noteq> -1 \<Longrightarrow> prefix d' rest \<Longrightarrow> length d' \<le> length d"
proof -
  obtain m ms where ms: "token_matches es rest = m # ms"
    "foldl longer m ms = (i, d)"
    using assms by (auto simp: longest_match_def split: list.splits)
  have "(i, d) \<in> set (token_matches es rest)" and max: "\<And>x. x \<in> set (token_matches es rest) \<Longrightarrow> length (snd x) \<le> length d"
    using foldl_longest [of m ms] ms by auto
  then show "(i, d) \<in> set es" "i \<noteq> -1" "d \<noteq> []" "prefix d rest" by (auto simp: token_matches_def)
  show "length d' \<le> length d" if "(j, d') \<in> set es" "j \<noteq> -1" "prefix d' rest"
    using max [of "(j, d')"] that by (cases "d' = []") (auto simp: token_matches_def)
qed

lemma longest_match_None: "longest_match es rest = None \<longleftrightarrow> token_matches es rest = []"
  by (simp add: longest_match_def split: list.split)

function greedy :: "(int \<times> bytes) list \<Rightarrow> bytes \<Rightarrow> (int \<times> bytes) list" where
  "greedy es src =
     (case longest_match es src of None \<Rightarrow> [] | Some (i, d) \<Rightarrow> (i, d) # greedy es (drop (length d) src))"
  by pat_completeness auto

termination
proof (relation "measure (\<lambda>(_, src). length src)")
  fix es src x i d assume "longest_match es src = Some x" "(i, d) = x"
  then have "d \<noteq> []" "prefix d src" using longest_match_Some(3,4) [of es src i d] by auto
  then show "((es, drop (length d) src), es, src) \<in> measure (\<lambda>(_, src). length src)"
    by (cases d; cases src) auto
qed simp

declare greedy.simps [simp del]

lemma built_ids_iff:
  assumes "distinct (map snd es)"
  shows "trie_ids (tk_root (built es)) key = [i] \<longleftrightarrow> (i, key) \<in> set es \<and> i \<noteq> -1"
    "trie_ids (tk_root (built es)) key \<noteq> [] \<longleftrightarrow> (\<exists>i. (i, key) \<in> set es \<and> i \<noteq> -1)"
proof -
  have u: "(i, key) \<in> set es \<Longrightarrow> (j, key) \<in> set es \<Longrightarrow> i = j" for i j
    using assms by (metis distinct_map fst_conv inj_onD snd_conv)
  show "trie_ids (tk_root (built es)) key = [i] \<longleftrightarrow> (i, key) \<in> set es \<and> i \<noteq> -1"
    unfolding built_ids [OF assms] using u
    by (auto split: option.splits dest!: find_SomeD simp: find_None_iff)
  show "trie_ids (tk_root (built es)) key \<noteq> [] \<longleftrightarrow> (\<exists>i. (i, key) \<in> set es \<and> i \<noteq> -1)"
    unfolding built_ids [OF assms]
    by (auto split: option.splits dest!: find_SomeD simp: find_None_iff)
qed

lemma find_longest_built:
  assumes d: "distinct (map snd es)" and pick: "\<And>i. pick [i] = i"
  shows "find_longest_fast pick (tk_root (built es)) src idx =
    (case longest_match es (drop idx src) of None \<Rightarrow> (0, 0) | Some (i, d) \<Rightarrow> (idx + length d, i))"
proof -
  define rest where "rest = drop idx src"
  let ?P = "\<lambda>n. trie_ids (tk_root (built es)) (take n rest) \<noteq> []"
  have m: "(i, d) \<in> set (token_matches es rest) \<Longrightarrow> ?P (length d) \<and> length d \<in> {1..<Suc (length rest)}" for i d
    unfolding built_ids_iff(2) [OF assms(1)]
    using prefix_length_le [of d rest] prefix_take_iff [of d rest]
    by (auto simp: token_matches_def Suc_le_eq less_Suc_eq_le)
  show ?thesis
  proof (cases "find ?P (rev [1..<Suc (length rest)])")
    case None
    then have no: "\<not> ?P n" if "n \<in> {1..<Suc (length rest)}" for n using that by (auto simp: find_None_iff simp del: upt_Suc)
    have "token_matches es rest = []"
    proof (rule ccontr)
      assume "token_matches es rest \<noteq> []"
      then obtain i d where "(i, d) \<in> set (token_matches es rest)" by (metis list.set_intros(1) neq_Nil_conv surj_pair)
      from m [OF this] no show False by blast
    qed
    then show ?thesis
      using None by (simp add: find_longest_fast_def longest_walk_spec longest_match_def flip: rest_def del: upt_Suc)
  next
    case (Some n)
    then have n: "?P n" "1 \<le> n" "n \<le> length rest" and max: "\<And>k. n < k \<Longrightarrow> k \<le> length rest \<Longrightarrow> \<not> ?P k"
      using find_rev_upt_SomeD [OF Some] by blast+
    then obtain i where i: "(i, take n rest) \<in> set es" "i \<noteq> -1" using built_ids_iff(2) [OF d] by blast
    then have "(i, take n rest) \<in> set (token_matches es rest)"
      using n by (auto simp: token_matches_def take_is_prefix)
    then obtain j e where l: "longest_match es rest = Some (j, e)" using longest_match_None [of es rest] by fastforce
    note L = longest_match_Some [OF l]
    have "n \<le> length e" using L(5) [OF i take_is_prefix] n(3) by simp
    moreover have "\<not> n < length e"
      using max [of "length e"] L prefix_length_le [OF L(4)] by (auto simp: built_ids_iff(2) [OF d] prefix_take_iff)
    ultimately have e: "e = take n rest" using L(4) by (simp add: prefix_take_iff)
    have "trie_ids (tk_root (built es)) (take n rest) = [j]" using L(1,2) e built_ids_iff(1) [OF d] by simp
    then show ?thesis
      using Some l e n(3) pick by (simp add: find_longest_fast_def longest_walk_spec flip: rest_def del: upt_Suc)
  qed
qed

lemma encode_greedy:
  assumes "distinct (map snd es)" "\<And>i. pick [i] = i"
  shows "encode_from pick (tk_root (built es)) src idx = map fst (greedy es (drop idx src))"
proof (induction "length src - idx" arbitrary: idx rule: less_induct)
  case less
  note F = find_longest_built [of es pick, OF assms]
  show ?case
  proof (cases "longest_match es (drop idx src)")
    case None
    then show ?thesis by (subst encode_from.simps, subst greedy.simps) (simp add: F)
  next
    case (Some m)
    obtain i d where m: "m = (i, d)" by (cases m)
    note L = longest_match_Some [OF Some [unfolded m]]
    have idx: "idx < length src" using L(3) prefix_length_le [OF L(4)] by (cases "idx < length src") auto
    have "length src - (idx + length d) < length src - idx" using idx L(3) by (cases d) auto
    from less [OF this] show ?thesis
      using idx Some L(2,3) m by (subst encode_from.simps, subst greedy.simps) (simp add: F add.commute [of "length d"])
  qed
qed

lemma greedy_prefix:
  "\<exists>n \<le> length src. concat (map snd (greedy es src)) = take n src \<and> token_matches es (drop n src) = []"
proof (induction es src rule: greedy.induct)
  case (1 es src)
  show ?case
  proof (cases "longest_match es src")
    case None
    then show ?thesis by (subst greedy.simps) (simp add: longest_match_None [symmetric], rule exI [of _ 0], simp add: longest_match_None)
  next
    case (Some m)
    obtain i d where m: "m = (i, d)" by (cases m)
    note L = longest_match_Some [OF Some [unfolded m]]
    obtain n where n: "n \<le> length (drop (length d) src)" "concat (map snd (greedy es (drop (length d) src))) = take n (drop (length d) src)"
      "token_matches es (drop n (drop (length d) src)) = []"
      using 1 [OF Some m [symmetric]] by blast
    have "d @ take n (drop (length d) src) = take (length d + n) src"
      using L(4) by (simp add: prefix_take_iff take_add)
    then show ?thesis
      using n prefix_length_le [OF L(4)] Some m
      by (subst greedy.simps) (auto intro!: exI [of _ "length d + n"] simp: add.commute)
  qed
qed

lemma greedy_members: "set (greedy es src) \<subseteq> set es"
proof (induction es src rule: greedy.induct)
  case (1 es src)
  show ?case
  proof (cases "longest_match es src")
    case (Some m)
    obtain i d where m: "m = (i, d)" by (cases m)
    show ?thesis using 1 [OF Some m [symmetric]] longest_match_Some(1) [OF Some [unfolded m]] Some m
      by (subst greedy.simps) simp
  qed (subst greedy.simps, simp)
qed

lemma those_map: "(\<And>x. x \<in> set xs \<Longrightarrow> f x = Some (g x)) \<Longrightarrow> those (map f xs) = Some (map g xs)"
  by (induction xs) auto

lemma decode_greedy:
  assumes "distinct (map snd es)" "distinct (map fst es)"
  shows "decode (built es) (map fst (greedy es src)) = Some (concat (map snd (greedy es src)))"
proof -
  have "those (map (\<lambda>e. get_token_data (tk_mapping (built es)) (fst e)) (greedy es src)) = Some (map snd (greedy es src))"
    by (rule those_map) (use built_data [OF assms] greedy_members [of es src] in force)
  then show ?thesis by (simp add: decode_def comp_def)
qed

text \<open>
  C8. The trie tokenizer computes the greedy longest-match tokenization: for a vocabulary file
  whose entries (with the end-of-document token) have different bytes, \<open>encode\<close> takes at every
  position the id of the longest token that the rest of the text starts with, and stops where no
  token matches.
\<close>

theorem encode_is_greedy:
  assumes "parse_vocab file = Some es" "load_vocab (Some file) = Some tk"
    and "distinct (map snd (es @ [eod_token]))" "\<And>i. pick [i] = i"
  shows "encode pick tk src = map fst (greedy (es @ [eod_token]) src)"
  using assms encode_greedy [OF assms(3), of pick src 0]
  by (simp add: load_vocab_def encode_def)

text \<open>
  C19. Decoding what was encoded gives the text back, whenever each of its bytes is a token of its
  own in a vocabulary without repeated ids or bytes; in general it gives the prefix of the text up
  to the first position where no token matches.
\<close>

theorem decode_encode:
  assumes "parse_vocab file = Some es" "load_vocab (Some file) = Some tk"
    and "distinct (map snd (es @ [eod_token]))" "distinct (map fst (es @ [eod_token]))" "\<And>i. pick [i] = i"
  shows "(\<exists>n \<le> length src. decode tk (encode pick tk src) = Some (take n src) \<and>
      token_matches (es @ [eod_token]) (drop n src) = []) \<and>
    ((\<forall>b \<in> set src. \<exists>i. i \<noteq> -1 \<and> (i, [b]) \<in> set es) \<longrightarrow> decode tk (encode pick tk src) = Some src)"
proof -
  let ?es = "es @ [eod_token]"
  have e: "encode pick tk src = map fst (greedy ?es src)" by (rule encode_is_greedy [OF assms(1-3,5)])
  have tk: "tk = built ?es" using assms(1,2) by (simp add: load_vocab_def)
  obtain n where n: "n \<le> length src" "concat (map snd (greedy ?es src)) = take n src" "token_matches ?es (drop n src) = []"
    using greedy_prefix by blast
  have d: "decode tk (encode pick tk src) = Some (take n src)"
    unfolding e unfolding tk decode_greedy [OF assms(3,4)] n(2) ..
  moreover have "take n src = src" if all: "\<forall>b \<in> set src. \<exists>i. i \<noteq> -1 \<and> (i, [b]) \<in> set es"
  proof (cases "n < length src")
    case True
    then obtain i where i: "i \<noteq> -1" "(i, [src ! n]) \<in> set es" using all nth_mem by blast
    have "drop n src = src ! n # drop (Suc n) src" using True by (simp add: Cons_nth_drop_Suc)
    then have "(i, [src ! n]) \<in> set (token_matches ?es (drop n src))" using i by (simp add: token_matches_def)
    then show ?thesis using n(3) by simp
  qed simp
  ultimately show ?thesis using n(1,3) by metis
qed

text \<open>
  A token whose bytes the table knows already gets the id of the earlier token as its index into
  \<open>token_data\<close>: reading it back is out of bounds, or gives the bytes of an unrelated token.
\<close>

lemma repeated_bytes_misread:
  "get_token_data (tk_mapping (built [(7, [1]), (8, [1])])) 8 = None"
  "get_token_data (tk_mapping (built [(2, [1]), (3, [2]), (4, [3]), (5, [1])])) 5 = Some [3]"
  by (simp_all add: put_token_def add_token_def empty_tokenizer_def get_token_data_def)

section \<open>Writing a vocabulary line\<close>

text \<open>The form a vocabulary line takes when its bytes are written as a Python bytes literal of escapes.\<close>

definition hex_char :: "nat \<Rightarrow> byte" where
  "hex_char n = of_nat (if n < 10 then 48 + n else 87 + n)"

definition hex_escape :: "byte \<Rightarrow> bytes" where
  "hex_escape b = [92, 120, hex_char (unat b div 16), hex_char (unat b mod 16)]"

definition print_line :: "nat \<Rightarrow> bytes \<Rightarrow> bytes" where
  "print_line i data = bytes_of (dec_string i) @ [32, 98, 39] @ concat (map hex_escape data) @ [39, 32] @ bytes_of (dec_string (length data))"

lemma hex_char_digit: "n < 16 \<Longrightarrow> hex_digit (hex_char n) = Some n"
proof -
  assume "n < 16"
  then have "n \<in> set [0..<16]" by simp
  moreover have "\<forall>n \<in> set [0..<16]. hex_digit (hex_char n) = Some n" by code_simp
  ultimately show ?thesis by blast
qed

lemma hex_char_plain:
  assumes "n < 16"
  shows "\<not> is_space (hex_char n)" "hex_char n \<noteq> 45" "hex_char n \<noteq> 43" "hex_char n \<noteq> 120" "hex_char n \<noteq> 88" "hex_char n \<noteq> 32"
    "hex_char n \<noteq> 92"
proof -
  have n: "n \<in> set [0..<16]" using assms by simp
  have "\<forall>n \<in> set [0..<16]. \<not> is_space (hex_char n) \<and> hex_char n \<noteq> 45 \<and> hex_char n \<noteq> 43 \<and> hex_char n \<noteq> 120 \<and>
     hex_char n \<noteq> 88 \<and> hex_char n \<noteq> 32 \<and> hex_char n \<noteq> 92" by code_simp
  then show "\<not> is_space (hex_char n)" "hex_char n \<noteq> 45" "hex_char n \<noteq> 43" "hex_char n \<noteq> 120" "hex_char n \<noteq> 88" "hex_char n \<noteq> 32"
    "hex_char n \<noteq> 92" using n by blast+
qed

lemma stoul16_hex: "m < 16 \<Longrightarrow> n < 16 \<Longrightarrow> stoul16 [hex_char m, hex_char n] = Some (of_nat (16 * m + n))"
proof -
  assume a: "m < 16" "n < 16"
  have "dropWhile is_space [hex_char m, hex_char n] = [hex_char m, hex_char n]"
    "read_sign [hex_char m, hex_char n] = (False, [hex_char m, hex_char n])"
    "drop_0x [hex_char m, hex_char n] = [hex_char m, hex_char n]"
    "takeWhile (\<lambda>c. hex_digit c \<noteq> None) [hex_char m, hex_char n] = [hex_char m, hex_char n]"
    using hex_char_plain [OF a(1)] hex_char_plain [OF a(2)] hex_char_digit [OF a(1)] hex_char_digit [OF a(2)]
    by (simp_all add: read_sign_def drop_0x_def)
  then show ?thesis
    using hex_char_digit [OF a(1)] hex_char_digit [OF a(2)]
    by (simp add: stoul16_def hex_value_def mult.commute)
qed

lemma plain_escapes_hex: "plain_escapes False (concat (map hex_escape data)) = Some data"
proof (induction data)
  case (Cons b data)
  have "stoul16 [hex_char (unat b div 16), hex_char (unat b mod 16)] = Some (of_nat (unat b))"
    using stoul16_hex [of "unat b div 16" "unat b mod 16"] by (simp add: less_mult_imp_div_less flip: of_nat_mult)
  moreover have "ucast (of_nat (unat b) :: u64) = b" 
    unfolding of_nat_unat by (rule bit_word_eqI) (auto simp: bit_simps)
  ultimately show ?case using Cons by (simp add: hex_escape_def numeral_2_eq_2 del: of_nat_unat)
qed simp

lemma dec_digit_bytes: "c \<in> set (bytes_of (dec_string n)) \<Longrightarrow> is_digit c"
proof -
  assume "c \<in> set (bytes_of (dec_string n))"
  then obtain ch :: char where c: "c = of_nat (of_char ch)" "ch \<in> set (dec_string n)" by (auto simp: bytes_of_def)
  have "48 \<le> (of_char ch :: nat) \<and> (of_char ch :: nat) \<le> 57" by (rule dec_string_digits [OF c(2)])
  then show ?thesis by (simp add: c(1) word_le_nat_alt unat_of_nat)
qed

lemma digit_not_space: "is_digit c \<Longrightarrow> \<not> is_space c \<and> c \<noteq> 45 \<and> c \<noteq> 43 \<and> c \<noteq> (32 :: byte)"
  by (auto simp: word_le_nat_alt)

lemma dec_value_bytes:
  "\<forall>c \<in> set s. 48 \<le> (of_char c :: nat) \<Longrightarrow>
    foldl (\<lambda>acc c. acc * 10 + (uint c - 48)) (int n) (bytes_of s) = int (foldl (\<lambda>n c. 10 * n + (of_char c - 48)) n s)"
proof (induction s arbitrary: n)
  case (Cons c s)
  have "of_char c < (256 :: nat)" using nat_of_char_less_256 [of c] by simp
  then have "uint (of_nat (of_char c) :: byte) - 48 = int (of_char c - 48)"
    using Cons.prems by (simp add: uint_nat unat_of_nat)
  then have "foldl (\<lambda>acc c. acc * 10 + (uint c - 48)) (int n) (bytes_of (c # s)) =
      foldl (\<lambda>acc c. acc * 10 + (uint c - 48)) (int (10 * n + (of_char c - 48))) (bytes_of s)"
    by (simp add: bytes_of_def mult.commute)
  also have "\<dots> = int (foldl (\<lambda>n c. 10 * n + (of_char c - 48)) (10 * n + (of_char c - 48)) s)"
    by (rule Cons.IH) (use Cons.prems in simp)
  finally show ?case by simp
qed (simp add: bytes_of_def)

lemma stoi_dec: "n < 2 ^ 31 \<Longrightarrow> stoi (bytes_of (dec_string n)) = Some (int n)"
proof -
  assume n: "n < 2 ^ 31"
  let ?s = "bytes_of (dec_string n)"
  have d: "is_digit c" if "c \<in> set ?s" for c using dec_digit_bytes that by blast
  have ne: "?s \<noteq> []" by (simp add: bytes_of_def)
  then obtain c rest where s: "?s = c # rest" by (cases ?s) auto
  have c: "\<not> is_space c" "c \<noteq> 45" "c \<noteq> 43" using d [of c] digit_not_space [of c] s by auto
  have "read_sign (dropWhile is_space ?s) = (False, ?s)" unfolding s using c by (auto simp: read_sign_def)
  moreover have t: "takeWhile is_digit ?s = ?s" unfolding takeWhile_eq_all_conv using d by blast
  moreover have "foldl (\<lambda>acc c. acc * 10 + (uint c - 48)) 0 ?s = int n"
    using dec_value_bytes [of "dec_string n" 0] dec_string_digits [of _ n] dec_value_dec_string [of n] by (simp add: dec_value_def)
  ultimately show ?thesis using n ne unfolding stoi_def Let_def by (simp only: prod.case t) simp
qed

lemma dec_string_length: "length (dec_string n) \<le> Suc n"
proof (induction n rule: dec_string.induct)
  case (1 n)
  then show ?case by (cases "n < 10") (simp_all add: dec_string.simps [of n])
qed

lemma find_space_split:
  assumes "32 \<notin> set a" "32 \<notin> set l" "length a + length m + length l + 3 < 2 ^ 64"
  shows "find_space (a @ 32 # m @ 32 # l) = of_nat (length a)"
    "rfind_space (a @ 32 # m @ 32 # l) = of_nat (length a + 1 + length m)"
proof -
  have t: "takeWhile (\<lambda>c. c \<noteq> 32) (x @ 32 # y) = x" if "32 \<notin> set x" for x y :: bytes
    using that by (subst takeWhile_append2) auto
  show "find_space (a @ 32 # m @ 32 # l) = of_nat (length a)"
    using t [OF assms(1)] by (simp add: find_space_def)
  have "rev (a @ 32 # m @ 32 # l) = rev l @ 32 # rev m @ 32 # rev a" by simp
  then have "takeWhile (\<lambda>c. c \<noteq> 32) (rev (a @ 32 # m @ 32 # l)) = rev l" using t [of "rev l"] assms(2) by simp
  then show "rfind_space (a @ 32 # m @ 32 # l) = of_nat (length a + 1 + length m)"
    by (simp add: rfind_space_def)
qed

lemma substr_nat: "n < 2 ^ 64 \<Longrightarrow> k < 2 ^ 64 \<Longrightarrow> n \<le> length s \<Longrightarrow> substr s (of_nat n) (of_nat k) = Some (take k (drop n s))"
  by (simp add: substr_def unat_of_nat)

text \<open>A vocabulary line written with escaped bytes is read back as the same token.\<close>

lemma parse_print_line:
  assumes "i < 2 ^ 31" "length data < 2 ^ 31"
  shows "parse_line (print_line i data) = Some (int i, data)"
proof -
  define a where "a = bytes_of (dec_string i)"
  define l where "l = bytes_of (dec_string (length data))"
  define h where "h = concat (map hex_escape data)"
  define m where "m = [98, 39] @ h @ [39]"
  have line: "print_line i data = a @ 32 # m @ 32 # l" by (simp add: print_line_def a_def l_def m_def h_def)
  have s: "32 \<notin> set a" "32 \<notin> set l" unfolding a_def l_def using dec_digit_bytes digit_not_space by blast+
  have h: "length h = 4 * length data" unfolding h_def by (induction data) (auto simp: hex_escape_def)
  have len: "length a \<le> Suc i" "length l \<le> Suc (length data)" "length m = 4 * length data + 3"
    by (simp_all add: a_def l_def m_def h dec_string_length)
  then have small: "length a + length m + length l + 3 < 2 ^ 64" using assms by simp
  note F = find_space_split [OF s small]
  have id: "substr (a @ 32 # m @ 32 # l) 0 (of_nat (length a)) = Some a"
    using substr_nat [of 0 "length a" "a @ 32 # m @ 32 # l"] small by simp
  have npos: "npos = of_nat (2 ^ 64 - 1)" by (simp add: npos_def)
  have "of_nat (length a + 1 + length m) + 1 = (of_nat (length a + length m + 2) :: u64)" by simp
  then have ln: "substr (a @ 32 # m @ 32 # l) (of_nat (length a + 1 + length m) + 1) npos = Some l"
    using substr_nat [of "length a + length m + 2" "2 ^ 64 - 1" "a @ 32 # m @ 32 # l"] small npos
    by simp
  have "(of_nat (length a + 1 + length m) :: u64) - of_nat (length a) = of_nat (1 + length m)" by simp
  then have rp: "substr (a @ 32 # m @ 32 # l) (of_nat (length a) + 1) (of_nat (length a + 1 + length m) - of_nat (length a)) = Some (m @ [32])"
    using substr_nat [of "length a + 1" "1 + length m" "a @ 32 # m @ 32 # l"] small by (simp add: add.commute)
  have "of_nat (length (m @ [32])) - (4 :: u64) = of_nat (4 * length data)" using len(3) by simp
  then have pv: "process_vocab_format (m @ [32]) = Some h"
    using substr_nat [of 2 "4 * length data" "m @ [32]"] assms(2) h
    unfolding process_vocab_format_def by (simp add: m_def)
  have "of_nat (length a) + 1 = (of_nat (length a + 1) :: u64)" by simp
  also have "unat \<dots> = length a + 1" unfolding unat_of_nat using small by simp
  finally have "unat (of_nat (length a) + 1 :: u64) = length a + 1" .
  then have u: "(unat (of_nat (length a) + 1 :: u64) \<ge> length (a @ 32 # m @ 32 # l) \<or> (a @ 32 # m @ 32 # l) ! unat (of_nat (length a) + 1 :: u64) \<noteq> 98) = False"
    by (simp add: nth_append m_def)
  have pe: "process_escapes h False k = Some data" for k
    by (simp add: process_escapes_def h_def plain_escapes_hex)
  have n: "stoi a = Some (int i)" "stoi l = Some (int (length data))"
    unfolding a_def l_def using stoi_dec assms by blast+
  show ?thesis
    unfolding line parse_line_def F Let_def id ln rp prod.case option.case n pv
    by (simp only: u simp_thms pe option.map)
qed

lemma file_lines_line: "10 \<notin> set l \<Longrightarrow> file_lines (l @ 10 # rest) = l # file_lines rest"
  by (induction l) auto

lemma print_line_one_line: "10 \<notin> set (print_line i data)"
proof -
  have "10 \<notin> set (bytes_of (dec_string n))" for n using dec_digit_bytes [of 10 n] digit_not_space [of 10] by auto
  moreover have "10 \<notin> set (hex_escape b)" for b
    using hex_char_plain(1) [of "unat b div 16"] hex_char_plain(1) [of "unat b mod 16"]
    by (auto simp: hex_escape_def less_mult_imp_div_less)
  ultimately show ?thesis by (auto simp: print_line_def)
qed

definition print_vocab :: "(nat \<times> bytes) list \<Rightarrow> bytes" where
  "print_vocab es = concat (map (\<lambda>(i, d). print_line i d @ [10]) es)"

text \<open>
  A vocabulary file that is written line by line, with the bytes of each token escaped, is
  read back as the same list of ids and bytes.
\<close>

theorem parse_print_vocab:
  assumes "\<And>i d. (i, d) \<in> set es \<Longrightarrow> i < 2 ^ 31 \<and> length d < 2 ^ 31"
  shows "parse_vocab (print_vocab es) = Some (map (\<lambda>(i, d). (int i, d)) es)"
proof -
  have lines: "file_lines (print_vocab es) = map (\<lambda>(i, d). print_line i d) es"
    by (induction es) (auto simp: print_vocab_def file_lines_line print_line_one_line)
  have "those (map (\<lambda>e. parse_line (print_line (fst e) (snd e))) es) = Some (map (\<lambda>e. (int (fst e), snd e)) es)"
    by (rule those_map) (use assms parse_print_line in force)
  then show ?thesis by (simp add: parse_vocab_def lines comp_def case_prod_beta)
qed

text \<open>
  After a \<open>\x\<close> escape at the start of a string literal up to four hexadecimal digits are read,
  although Python writes two: the literal \<open>'\x01a'\<close> of the two characters 1 and \<open>a\<close> becomes a
  zero byte and the byte 26.
\<close>

lemma hex_escape_reads_too_much: "process_escapes [92, 120, 48, 49, 97] True 2 = Some [0, 26]"
  by code_simp

section \<open>Witnesses\<close>

definition demo_vocab :: bytes where
  "demo_vocab = print_vocab [(1, [97]), (2, [98]), (3, [97, 98]), (4, [98, 98, 97])]"

theorem parse_print_vocab_witness:
  "parse_vocab (print_vocab [(1, [0]), (65531, [39, 255])]) = Some [(1, [0]), (65531, [39, 255])]"
  by (subst parse_print_vocab) auto

lemma demo_vocab_parsed: "parse_vocab demo_vocab = Some [(1, [97]), (2, [98]), (3, [97, 98]), (4, [98, 98, 97])]"
proof -
  have "those (map parse_line (file_lines demo_vocab)) = Some [(1, [97]), (2, [98]), (3, [97, 98]), (4, [98, 98, 97])]"
    by (simp add: demo_vocab_def print_vocab_def file_lines_line print_line_one_line parse_print_line)
  then show ?thesis by (simp add: parse_vocab_def)
qed

theorem encode_is_greedy_witness:
  "encode hd (the (load_vocab (Some demo_vocab))) [97, 98, 98, 97, 98] = [3, 2, 3]"
proof -
  have "load_vocab (Some demo_vocab) = Some (the (load_vocab (Some demo_vocab)))"
    by (simp add: load_vocab_def demo_vocab_parsed)
  from encode_is_greedy [OF demo_vocab_parsed this, of hd "[97, 98, 98, 97, 98]"]
  have "encode hd (the (load_vocab (Some demo_vocab))) [97, 98, 98, 97, 98] =
      map fst (greedy ([(1, [97]), (2, [98]), (3, [97, 98]), (4, [98, 98, 97])] @ [eod_token]) [97, 98, 98, 97, 98])"
    by (simp add: eod_token_def)
  also have "\<dots> = [3, 2, 3]" by code_simp
  finally show ?thesis .
qed

theorem decode_encode_witness:
  "decode (the (load_vocab (Some demo_vocab))) (encode hd (the (load_vocab (Some demo_vocab))) [98, 98, 98, 97]) = Some [98, 98, 98, 97]"
proof -
  have "load_vocab (Some demo_vocab) = Some (the (load_vocab (Some demo_vocab)))"
    by (simp add: load_vocab_def demo_vocab_parsed)
  from decode_encode [OF demo_vocab_parsed this, of hd "[98, 98, 98, 97]"] show ?thesis
    by (simp add: eod_token_def)
qed

end
