(* ===== verification/JsonRow.thy ===== *)
theory JsonRow
  imports Utf8
begin

text \<open>
  The JSON parser of training rows (\<open>src/state_tuning/dataset.cpp\<close>): strings with their escapes,
  segments and rows. The position \<open>at\<close> in the line is the rest of the line from there on; a thrown
  exception is an error value.
\<close>

section \<open>Strings\<close>

datatype json_error =
    TruncatedUnicode | InvalidUnicode | ExpectedString | ControlByte | TruncatedEscape | MissingLow
  | InvalidLow | UnexpectedLow | UnsupportedEscape | Unterminated | BadBool | RowNotObject
  | MissingRowColon | SegmentsNotArray | MissingComma | MissingBracket | MissingRowBrace | SegmentNotObject
  | MissingSegmentColon | MissingSegmentBrace
  | BadSegmentField | MissingField | EmptySegments | UnknownRowField | SecondRowField | TrailingData

definition append_utf8 :: "bytes \<Rightarrow> u32 \<Rightarrow> bytes" where
  "append_utf8 out cp =
     (if cp \<le> 0x7f then out @ [ucast cp]
      else if cp \<le> 0x7ff then out @ [ucast (0xc0 OR drop_bit 6 cp), ucast (0x80 OR (cp AND 0x3f))]
      else if cp \<le> 0xffff then
        out @ [ucast (0xe0 OR drop_bit 12 cp), ucast (0x80 OR (drop_bit 6 cp AND 0x3f)), ucast (0x80 OR (cp AND 0x3f))]
      else
        out @ [ucast (0xf0 OR drop_bit 18 cp), ucast (0x80 OR (drop_bit 12 cp AND 0x3f)),
               ucast (0x80 OR (drop_bit 6 cp AND 0x3f)), ucast (0x80 OR (cp AND 0x3f))])"

definition hex :: "byte \<Rightarrow> int" where
  "hex c =
     (if 48 \<le> c \<and> c \<le> 57 then uint c - 48
      else if 97 \<le> c \<and> c \<le> 102 then uint c - 97 + 10
      else if 65 \<le> c \<and> c \<le> 70 then uint c - 65 + 10
      else - 1)"

text \<open>The loop of \<open>unicode_escape\<close>: \<open>k\<close> digits are left.\<close>

fun hex_digits :: "nat \<Rightarrow> u32 \<Rightarrow> bytes \<Rightarrow> json_error + u32 \<times> bytes" where
  "hex_digits 0 v line = Inr (v, line)"
| "hex_digits (Suc k) v [] = Inl TruncatedUnicode"
| "hex_digits (Suc k) v (c # line) =
     (if hex c < 0 then Inl InvalidUnicode else hex_digits k (push_bit 4 v OR word_of_int (hex c)) line)"

definition unicode_escape :: "bytes \<Rightarrow> json_error + u32 \<times> bytes" where
  "unicode_escape line = (if length line < 4 then Inl TruncatedUnicode else hex_digits 4 0 line)"

text \<open>The case \<open>u\<close> of the escapes: one or two escapes of four digits.\<close>

definition unicode_case :: "bytes \<Rightarrow> bytes \<Rightarrow> json_error + bytes \<times> bytes" where
  "unicode_case out line =
     bind_res (unicode_escape line) (\<lambda>(cp, line).
       if 0xd800 \<le> cp \<and> cp \<le> 0xdbff then
         if length line < 2 \<or> line ! 0 \<noteq> 92 \<or> line ! 1 \<noteq> 117 then Inl MissingLow
         else bind_res (unicode_escape (drop 2 line)) (\<lambda>(low, line).
           if low < 0xdc00 \<or> low > 0xdfff then Inl InvalidLow
           else Inr (append_utf8 out (0x10000 + push_bit 10 (cp - 0xd800) + (low - 0xdc00)), line))
       else if 0xdc00 \<le> cp \<and> cp \<le> 0xdfff then Inl UnexpectedLow
       else Inr (append_utf8 out cp, line))"

text \<open>The characters after a backslash: the bytes they stand for and the rest of the line.\<close>

definition json_escape :: "bytes \<Rightarrow> bytes \<Rightarrow> json_error + bytes \<times> bytes" where
  "json_escape out line =
     (case line of
        [] \<Rightarrow> Inl TruncatedEscape
      | escaped # line \<Rightarrow>
          if escaped = 34 \<or> escaped = 92 \<or> escaped = 47 then Inr (out @ [escaped], line)
          else if escaped = 98 then Inr (out @ [8], line)
          else if escaped = 102 then Inr (out @ [12], line)
          else if escaped = 110 then Inr (out @ [10], line)
          else if escaped = 114 then Inr (out @ [13], line)
          else if escaped = 116 then Inr (out @ [9], line)
          else if escaped = 117 then unicode_case out line
          else Inl UnsupportedEscape)"

lemma hex_digits_rest: "hex_digits k v line = Inr (v', line') \<Longrightarrow> \<exists>ds. line = ds @ line' \<and> length ds = k"
proof (induction k v line rule: hex_digits.induct)
  case (3 k v c line)
  then obtain ds where "line = ds @ line'" "length ds = k" by (auto split: if_splits)
  then show ?case by (intro exI [of _ "c # ds"]) simp
qed auto

lemma unicode_escape_rest: "unicode_escape line = Inr (v, line') \<Longrightarrow> \<exists>ds. line = ds @ line' \<and> length ds = 4"
  by (auto simp: unicode_escape_def dest: hex_digits_rest split: if_splits)

lemma unicode_escape_length: "unicode_escape line = Inr (v, line') \<Longrightarrow> length line = length line' + 4"
  by (auto dest: unicode_escape_rest)

lemma json_escape_shorter: "json_escape out line = Inr (out', line') \<Longrightarrow> length line' < length line"
  by (auto simp: json_escape_def unicode_case_def split: list.splits if_splits prod.splits dest!: unicode_escape_length)

text \<open>The loop of \<open>json_string\<close> after the opening quote.\<close>

function json_chars :: "bytes \<Rightarrow> bytes \<Rightarrow> json_error + bytes \<times> bytes" where
  "json_chars out [] = Inl Unterminated"
| "json_chars out (c # line) =
     (if c = 34 then Inr (out, line)
      else if c < 0x20 then Inl ControlByte
      else if c \<noteq> 92 then json_chars (out @ [c]) line
      else case json_escape out line of Inl e \<Rightarrow> Inl e | Inr (out, line) \<Rightarrow> json_chars out line)"
  by pat_completeness auto
termination by (relation "measure (\<lambda>(out, line). length line)") (auto dest: json_escape_shorter)

definition json_string :: "bytes \<Rightarrow> json_error + bytes \<times> bytes" where
  "json_string line = (case line of c # line \<Rightarrow> if c \<noteq> 34 then Inl ExpectedString else json_chars [] line | [] \<Rightarrow> Inl ExpectedString)"

lemma json_chars_shorter: "json_chars out line = Inr (s, line') \<Longrightarrow> length line' < length line"
proof (induction out line rule: json_chars.induct)
  case (2 out c line)
  then show ?case by (auto split: if_splits sum.splits dest!: json_escape_shorter) fastforce+
qed simp

lemma json_string_shorter: "json_string line = Inr (s, line') \<Longrightarrow> length line' < length line"
  by (auto simp: json_string_def dest!: json_chars_shorter split: list.splits if_splits)

section \<open>Segments and rows\<close>

text \<open>\<open>std::isspace\<close> in the C locale.\<close>

definition is_space :: "byte \<Rightarrow> bool" where
  "is_space c \<longleftrightarrow> c = 32 \<or> 9 \<le> c \<and> c \<le> 13"

definition whitespace :: "bytes \<Rightarrow> bytes" where
  "whitespace line = dropWhile is_space line"

definition expect :: "byte \<Rightarrow> json_error \<Rightarrow> bytes \<Rightarrow> json_error + bytes" where
  "expect c error line =
     (case whitespace line of
        [] \<Rightarrow> Inl error
      | d # line \<Rightarrow> if d \<noteq> c then Inl error else Inr (whitespace line))"

definition json_bool :: "bytes \<Rightarrow> json_error + bool \<times> bytes" where
  "json_bool line =
     (if prefix (bytes_of ''true'') line then Inr (True, drop 4 line)
      else if prefix (bytes_of ''false'') line then Inr (False, drop 5 line)
      else Inl BadBool)"

record text_segment =
  sg_text :: bytes
  sg_train :: bool

lemma whitespace_length: "length (whitespace line) \<le> length line"
  by (simp add: whitespace_def length_dropWhile_le)

lemma expect_shorter: "expect c error line = Inr line' \<Longrightarrow> length line' < length line"
proof -
  assume e: "expect c error line = Inr line'"
  then obtain r where "whitespace line = c # r" "line' = whitespace r"
    by (auto simp: expect_def split: list.splits if_splits)
  then show ?thesis using whitespace_length [of line] whitespace_length [of r] by simp
qed

text \<open>One field of a segment and the colon before its value: the text or the flag, if not yet seen.\<close>

definition segment_field ::
  "bytes option \<Rightarrow> bool option \<Rightarrow> bytes \<Rightarrow> json_error + bytes option \<times> bool option \<times> bytes" where
  "segment_field has_text has_train line =
     bind_res (json_string line) (\<lambda>(key, line).
     bind_res (expect 58 MissingSegmentColon line) (\<lambda>line.
       if key = bytes_of ''text'' \<and> has_text = None then
         bind_res (json_string line) (\<lambda>(text, line). Inr (Some text, has_train, line))
       else if key = bytes_of ''train'' \<and> has_train = None then
         bind_res (json_bool line) (\<lambda>(train, line). Inr (has_text, Some train, line))
       else Inl BadSegmentField))"

lemma json_bool_shorter: "json_bool line = Inr (b, line') \<Longrightarrow> length line' \<le> length line"
  by (auto simp: json_bool_def split: if_splits)

lemma segment_field_shorter: "segment_field ht hb line = Inr (ht', hb', line') \<Longrightarrow> length line' < length line"
  by (auto simp: segment_field_def split: if_splits dest!: json_string_shorter expect_shorter json_bool_shorter)

text \<open>The loop of \<open>parse_segment\<close> over the fields, with the fields seen so far.\<close>

function segment_fields :: "bytes option \<Rightarrow> bool option \<Rightarrow> bytes \<Rightarrow> json_error + text_segment \<times> bytes" where
  "segment_fields has_text has_train line =
     (case segment_field has_text has_train line of
        Inl e \<Rightarrow> Inl e
      | Inr (has_text, has_train, line) \<Rightarrow>
          (case whitespace line of
             c # line' \<Rightarrow>
               if c = 44 then
                 (case expect 44 MissingComma (c # line') of
                    Inl e \<Rightarrow> Inl e
                  | Inr line \<Rightarrow> segment_fields has_text has_train line)
               else
                 bind_res (expect 125 MissingSegmentBrace (c # line')) (\<lambda>line.
                   case (has_text, has_train) of
                     (Some text, Some train) \<Rightarrow> Inr (\<lparr>sg_text = text, sg_train = train\<rparr>, line)
                   | _ \<Rightarrow> Inl MissingField)
           | [] \<Rightarrow> Inl MissingSegmentBrace))"
  by pat_completeness auto
termination
proof (relation "measure (\<lambda>(ht, hb, line). length line)", goal_cases)
  case (2 ht hb line p ht' r hb' line' c line'' line3)
  have "length line3 < length (c # line'')" using 2 expect_shorter by metis
  also have "\<dots> \<le> length line'" using 2 whitespace_length [of line'] by simp
  also have "\<dots> < length line" using 2 segment_field_shorter by metis
  finally show ?case by simp
qed simp

definition parse_segment :: "bytes \<Rightarrow> json_error + text_segment \<times> bytes" where
  "parse_segment line =
     bind_res (expect 123 SegmentNotObject line) (segment_fields None None)"

declare segment_fields.simps [simp del]

lemma segment_fields_shorter: "segment_fields ht hb line = Inr (seg, line') \<Longrightarrow> length line' < length line"
proof (induction ht hb line rule: segment_fields.induct)
  case (1 ht hb line)
  obtain ht1 hb1 r c r' where f: "segment_field ht hb line = Inr (ht1, hb1, r)" and w: "whitespace r = c # r'"
    using 1(2) by (subst (asm) segment_fields.simps) (auto split: sum.splits list.splits)
  have l: "length (c # r') < length line"
    using segment_field_shorter [OF f] whitespace_length [of r] w by simp
  show ?case
  proof (cases "c = 44")
    case True
    obtain q where q: "expect 44 MissingComma (c # r') = Inr q" "segment_fields ht1 hb1 q = Inr (seg, line')"
      using 1(2) f w True by (subst (asm) segment_fields.simps) (auto split: sum.splits)
    then show ?thesis using 1(1) [OF f refl refl w True q(1) q(2)] expect_shorter [OF q(1)] l by simp
  next
    case False
    then obtain q where "expect 125 MissingSegmentBrace (c # r') = Inr q" "q = line'"
      using 1(2) f w by (subst (asm) segment_fields.simps) (auto split: option.splits)
    then show ?thesis using expect_shorter [of 125] l by fastforce
  qed
qed

lemma parse_segment_shorter: "parse_segment line = Inr (seg, line') \<Longrightarrow> length line' < length line"
  by (auto simp: parse_segment_def dest!: segment_fields_shorter expect_shorter)

text \<open>The loop of \<open>parse_row\<close> over the segments.\<close>

function segments_loop :: "text_segment list \<Rightarrow> bytes \<Rightarrow> json_error + text_segment list \<times> bytes" where
  "segments_loop segments line =
     (case parse_segment line of
        Inl e \<Rightarrow> Inl e
      | Inr (segment, line) \<Rightarrow>
          (case whitespace line of
             c # line' \<Rightarrow>
               if c = 44 then
                 (case expect 44 MissingComma (c # line') of
                    Inl e \<Rightarrow> Inl e
                  | Inr line \<Rightarrow> segments_loop (segments @ [segment]) line)
               else bind_res (expect 93 MissingBracket (c # line')) (\<lambda>line. Inr (segments @ [segment], line))
           | [] \<Rightarrow> Inl MissingBracket))"
  by pat_completeness auto
termination
proof (relation "measure (\<lambda>(segs, line). length line)", goal_cases)
  case (2 segs line p seg line' c line'' line3)
  have "length line3 < length (c # line'')" using 2 expect_shorter by metis
  also have "\<dots> \<le> length line'" using 2 whitespace_length [of line'] by simp
  also have "\<dots> < length line" using 2 parse_segment_shorter by metis
  finally show ?case by simp
qed simp

declare segments_loop.simps [simp del]

definition parse_row :: "bytes \<Rightarrow> json_error + text_segment list" where
  "parse_row line =
     bind_res (expect 123 RowNotObject line) (\<lambda>line.
     bind_res (json_string line) (\<lambda>(key, line).
     bind_res (expect 58 MissingRowColon line) (\<lambda>line.
     bind_res
       (if key = bytes_of ''text'' then
          bind_res (json_string line) (\<lambda>(text, line). Inr ([\<lparr>sg_text = text, sg_train = True\<rparr>], line))
        else if key = bytes_of ''segments'' then
          bind_res (expect 91 SegmentsNotArray line) (\<lambda>line.
            if line \<noteq> [] \<and> hd line = 93 then Inl EmptySegments else segments_loop [] line)
        else Inl UnknownRowField) (\<lambda>(segments, line).
     let line = whitespace line in
     if line \<noteq> [] \<and> hd line = 44 then Inl SecondRowField
     else bind_res (expect 125 MissingRowBrace line) (\<lambda>line.
       if line \<noteq> [] then Inl TrailingData else Inr segments)))))"

section \<open>The rows of a file\<close>

text \<open>
  The rest of the input and the number of the last line read; \<open>None\<close> is the end of the file. An
  error carries the number of its line.
\<close>

function next_row :: "bytes \<Rightarrow> nat \<Rightarrow> (nat \<times> json_error) + (text_segment list option \<times> bytes \<times> nat)" where
  "next_row input line_number =
     (if input = [] then Inr (None, [], line_number)
      else let line = takeWhile (\<lambda>c. c \<noteq> 10) input; input = drop (Suc (length line)) input in
        if line = [] then next_row input (Suc line_number)
        else case parse_row line of
               Inl e \<Rightarrow> Inl (Suc line_number, e)
             | Inr segments \<Rightarrow> Inr (Some segments, input, Suc line_number))"
  by pat_completeness auto
termination by (relation "measure (\<lambda>(input, n). length input)") (auto simp: Let_def)

declare next_row.simps [simp del]

lemma next_row_shorter: "next_row input n = Inr (Some segs, input', n') \<Longrightarrow> length input' < length input"
proof (induction input n rule: next_row.induct)
  case (1 input n)
  show ?case
  proof (cases "input = []")
    case True
    then show ?thesis using 1(2) by (simp add: next_row.simps)
  next
    case False
    let ?l = "takeWhile (\<lambda>c. c \<noteq> 10) input"
    have d: "length (drop (Suc (length ?l)) input) < length input" using False by simp
    show ?thesis
    proof (cases "?l = []")
      case True
      then show ?thesis using 1(1) [OF False refl refl True] 1(2) False d
        by (subst (asm) (2) next_row.simps) (auto simp: Let_def)
    next
      case l: False
      then show ?thesis using 1(2) False d by (subst (asm) next_row.simps) (auto simp: Let_def split: sum.splits)
    qed
  qed
qed

text \<open>The loop of \<open>count_jsonl_rows\<close>; \<open>rows\<close> are counted so far.\<close>

function count_rows :: "bytes \<Rightarrow> nat \<Rightarrow> nat \<Rightarrow> (nat \<times> json_error) + nat" where
  "count_rows input line_number rows =
     (case next_row input line_number of
        Inl e \<Rightarrow> Inl e
      | Inr (None, input, line_number) \<Rightarrow> Inr rows
      | Inr (Some segments, input, line_number) \<Rightarrow> count_rows input line_number (Suc rows))"
  by pat_completeness auto
termination by (relation "measure (\<lambda>(input, n, r). length input)") (auto dest: next_row_shorter)

declare count_rows.simps [simp del]

definition count_jsonl_rows :: "bytes \<Rightarrow> (nat \<times> json_error) + nat" where
  "count_jsonl_rows input = count_rows input 0 0"

text \<open>The reader for plain text rows; \<open>Inl (n, None)\<close>: the row has masked segments or several.\<close>

definition next_text :: "bytes \<Rightarrow> nat \<Rightarrow> (nat \<times> json_error option) + (bytes option \<times> bytes \<times> nat)" where
  "next_text input line_number =
     (case next_row input line_number of
        Inl (n, e) \<Rightarrow> Inl (n, Some e)
      | Inr (None, input, n) \<Rightarrow> Inr (None, input, n)
      | Inr (Some segments, input, n) \<Rightarrow>
          if length segments \<noteq> 1 \<or> \<not> sg_train (hd segments) then Inl (n, None)
          else Inr (Some (sg_text (hd segments)), input, n))"

end
