(* ===== verification/JsonGrammar.thy ===== *)
theory JsonGrammar
  imports JsonRow
begin

text \<open>
  The language of training rows, as a grammar over pieces of the line, and the proof that the parser
  of \<open>src/state_tuning/dataset.cpp\<close> accepts exactly this language with the values the grammar gives.
\<close>

section \<open>Strings\<close>

definition hex_number :: "bytes \<Rightarrow> nat" where
  "hex_number ds = foldl (\<lambda>n c. 16 * n + nat (hex c)) 0 ds"

definition hex4 :: "bytes \<Rightarrow> bool" where
  "hex4 ds \<longleftrightarrow> length ds = 4 \<and> list_all (\<lambda>c. 0 \<le> hex c) ds"

definition short_escapes :: "(byte \<times> byte) list" where
  "short_escapes = [(34, 34), (92, 92), (47, 47), (98, 8), (102, 12), (110, 10), (114, 13), (116, 9)]"

inductive json_char :: "bytes \<Rightarrow> bytes \<Rightarrow> bool" where
  Plain: "0x20 \<le> c \<Longrightarrow> c \<noteq> 34 \<Longrightarrow> c \<noteq> 92 \<Longrightarrow> json_char [c] [c]"
| Short: "(k, c) \<in> set short_escapes \<Longrightarrow> json_char [92, k] [c]"
| Unicode: "hex4 ds \<Longrightarrow> hex_number ds < 0xd800 \<or> 0xdfff < hex_number ds \<Longrightarrow>
    json_char (92 # 117 # ds) (utf8_of (hex_number ds))"
| Pair: "hex4 ds \<Longrightarrow> hex4 es \<Longrightarrow> 0xd800 \<le> hex_number ds \<Longrightarrow> hex_number ds \<le> 0xdbff \<Longrightarrow>
    0xdc00 \<le> hex_number es \<Longrightarrow> hex_number es \<le> 0xdfff \<Longrightarrow>
    json_char (92 # 117 # ds @ 92 # 117 # es)
      (utf8_of (0x10000 + (hex_number ds - 0xd800) * 1024 + (hex_number es - 0xdc00)))"

inductive json_text :: "bytes \<Rightarrow> bytes \<Rightarrow> bool" where
  Empty: "json_text [] []"
| Char: "json_char a b \<Longrightarrow> json_text as bs \<Longrightarrow> json_text (a @ as) (b @ bs)"

inductive_cases json_charE: "json_char a b"

lemma hex_range: "hex c < 16" "hex c < 0 \<or> 0 \<le> hex c \<and> nat (hex c) < 16"
proof -
  have "uint c \<le> 57" if "c \<le> 57" using that by (simp add: word_le_def)
  moreover have "uint c \<le> 102" if "c \<le> 102" using that by (simp add: word_le_def)
  moreover have "uint c \<le> 70" if "c \<le> 70" using that by (simp add: word_le_def)
  ultimately show "hex c < 16" by (auto simp: hex_def)
  then show "hex c < 0 \<or> 0 \<le> hex c \<and> nat (hex c) < 16" by auto
qed

lemma unat_hex_step:
  assumes "unat (v :: u32) < 2 ^ 28" "0 \<le> hex c"
  shows "unat (push_bit 4 v OR word_of_int (hex c)) = 16 * unat v + nat (hex c)"
proof -
  have h: "nat (hex c) < 2 ^ 4" "nat (hex c) < 2 ^ 32" using hex_range(1) [of c] by auto
  have "word_of_int (hex c) = (of_nat (nat (hex c)) :: u32)" using assms(2) by simp
  then have d: "unat (word_of_int (hex c) :: u32) = nat (hex c)" using h(2) by (simp add: unat_of_nat)
  have p: "unat (push_bit 4 v) = unat v * 2 ^ 4"
    by (rule unat_push_bit) (use assms(1) in simp)
  show ?thesis unfolding unsigned_or_eq d p using nat_or_add [OF h(1), of "unat v"] by simp
qed

lemma hex_digits_Inr:
  assumes "unat v < 16 ^ j" "j + k \<le> 7" "length ds = k" "list_all (\<lambda>c. 0 \<le> hex c) ds"
  shows "\<exists>w. hex_digits k v (ds @ line) = Inr (w, line) \<and> unat w = foldl (\<lambda>n c. 16 * n + nat (hex c)) (unat v) ds"
  using assms
proof (induction k arbitrary: v j ds)
  case (Suc k)
  then obtain c ds' where ds: "ds = c # ds'" "length ds' = k" by (cases ds) auto
  have "16 ^ j \<le> (16 :: nat) ^ 6" by (rule power_increasing) (use Suc.prems(2) in simp_all)
  then have v: "unat v < 2 ^ 28" using Suc.prems(1) by simp
  let ?w = "push_bit 4 v OR word_of_int (hex c)"
  have c: "0 \<le> hex c" using Suc.prems(4) by (simp add: ds)
  have u: "unat ?w = 16 * unat v + nat (hex c)" by (rule unat_hex_step [OF v c])
  have "nat (hex c) < 16" using hex_range(2) [of c] c by auto
  then have "unat ?w < 16 ^ Suc j" unfolding u using Suc.prems(1) by simp
  from Suc.IH [OF this, of ds'] show ?case using Suc.prems ds c u by simp
qed simp

lemma hex_digits_only:
  "hex_digits k v line = Inr (w, rest) \<Longrightarrow> \<exists>ds. line = ds @ rest \<and> length ds = k \<and> list_all (\<lambda>c. 0 \<le> hex c) ds"
proof (induction k v line rule: hex_digits.induct)
  case (3 k v c line)
  then obtain ds where "line = ds @ rest" "length ds = k" "list_all (\<lambda>c. 0 \<le> hex c) ds" "0 \<le> hex c"
    by (auto split: if_splits)
  then show ?case by (intro exI [of _ "c # ds"]) simp
qed auto

lemma unicode_escape_iff:
  "unicode_escape line = Inr (w, rest) \<longleftrightarrow>
     (\<exists>ds. line = ds @ rest \<and> hex4 ds \<and> unat w = hex_number ds)"
proof -
  have 1: "\<exists>w. unicode_escape (ds @ rest) = Inr (w, rest) \<and> unat w = hex_number ds" if "hex4 ds" for ds rest
    using hex_digits_Inr [of 0 0 4 ds rest] that by (simp add: unicode_escape_def hex4_def hex_number_def)
  show ?thesis
  proof
    assume e: "unicode_escape line = Inr (w, rest)"
    then obtain ds where d: "line = ds @ rest" "hex4 ds"
      by (auto simp: unicode_escape_def hex4_def dest: hex_digits_only split: if_splits)
    then show "\<exists>ds. line = ds @ rest \<and> hex4 ds \<and> unat w = hex_number ds" using 1 [OF d(2), of rest] e by auto
  next
    assume "\<exists>ds. line = ds @ rest \<and> hex4 ds \<and> unat w = hex_number ds"
    then obtain ds where d: "line = ds @ rest" "hex4 ds" "unat w = hex_number ds" by blast
    from 1 [OF d(2), of rest] d show "unicode_escape line = Inr (w, rest)" by (auto simp: word_unat_eq_iff)
  qed
qed

section \<open>UTF-8\<close>

lemma ucast_or_byte:
  fixes x :: u32
  assumes "unat x < 2 ^ n" "m * 2 ^ n + 2 ^ n \<le> 256" "unat c = m * 2 ^ n"
  shows "(ucast (c OR x) :: byte) = of_nat (m * 2 ^ n + unat x)"
proof -
  have l2: "m * 2 ^ n + unat x < 256" using assms(1,2) by linarith
  then have l: "m * 2 ^ n < 2 ^ 32" "m * 2 ^ n + unat x < 256" by simp_all
  have "unat (c OR x) = m * 2 ^ n + unat x" using nat_or_add [OF assms(1), of m] by (simp add: unsigned_or_eq assms(3))
  then have u: "unat (ucast (c OR x) :: byte) = m * 2 ^ n + unat x" using l2 by (simp add: unsigned_ucast_eq take_bit_eq_mod)
  show ?thesis unfolding word_unat_eq_iff u unat_of_nat_byte [OF l2] ..
qed

lemma unat_low6: "unat (x AND 0x3f :: u32) = unat x mod 64"
  by (simp only: unsigned_and_eq) (simp add: nat_and_mask [of _ 6, simplified])

lemma unat_ucast_byte: "unat (x :: u32) < 256 \<Longrightarrow> (ucast x :: byte) = of_nat (unat x)"
  by (simp add: word_unat_eq_iff unsigned_ucast_eq take_bit_eq_mod unat_of_nat)

lemma append_utf8_of:
  assumes "unat cp \<le> 0x10ffff"
  shows "append_utf8 out cp = out @ utf8_of (unat cp)"
proof -
  have tail: "ucast (0x80 OR (x AND 0x3f)) = (of_nat (0x80 + unat x mod 64) :: byte)" for x :: u32
    using ucast_or_byte [of "x AND 0x3f" 6 2 "0x80"] by (simp add: unat_low6)
  have d6: "unat (drop_bit 6 cp) = unat cp div 64" and d12: "unat (drop_bit 12 cp) = unat cp div 4096"
    and d18: "unat (drop_bit 18 cp) = unat cp div 262144" by (simp_all add: unat_drop_bit)
  have h2: "ucast (0xc0 OR drop_bit 6 cp) = (of_nat (0xc0 + unat cp div 64) :: byte)" if "unat cp \<le> 0x7ff"
    using ucast_or_byte [of "drop_bit 6 cp" 6 3 "0xc0"] that by (simp add: d6)
  have h3: "ucast (0xe0 OR drop_bit 12 cp) = (of_nat (0xe0 + unat cp div 4096) :: byte)" if "unat cp \<le> 0xffff"
    using ucast_or_byte [of "drop_bit 12 cp" 5 7 "0xe0"] that by (simp add: d12)
  have h4: "ucast (0xf0 OR drop_bit 18 cp) = (of_nat (0xf0 + unat cp div 262144) :: byte)"
    using ucast_or_byte [of "drop_bit 18 cp" 4 15 "0xf0"] assms by (simp add: d18)
  show ?thesis
    unfolding append_utf8_def utf8_of_def word_le_nat_alt tail d6 d12
    using h2 h3 h4 unat_ucast_byte [of cp] by simp
qed

lemma surrogate_value:
  fixes cp low :: u32
  assumes "0xd800 \<le> cp" "cp \<le> 0xdbff" "0xdc00 \<le> low" "low \<le> 0xdfff"
  shows "unat (0x10000 + push_bit 10 (cp - 0xd800) + (low - 0xdc00)) = 0x10000 + (unat cp - 0xd800) * 1024 + (unat low - 0xdc00)"
    "0x10000 + (unat cp - 0xd800) * 1024 + (unat low - 0xdc00) \<le> 0x10ffff"
proof -
  have c: "unat (cp - 0xd800) = unat cp - 0xd800" "unat cp - 0xd800 < 1024" "unat low - 0xdc00 < 1024"
    "unat (low - 0xdc00) = unat low - 0xdc00"
    using assms by (auto simp: unat_sub word_le_nat_alt)
  then have p: "unat (push_bit 10 (cp - 0xd800)) = (unat cp - 0xd800) * 1024" by (subst unat_push_bit) simp_all
  define a b where "a = push_bit 10 (cp - 0xd800)" and "b = low - 0xdc00"
  have "unat (0x10000 + a + b) = (0x10000 + unat a + unat b) mod 2 ^ 32"
    by (simp add: unat_word_ariths mod_simps)
  then show "unat (0x10000 + push_bit 10 (cp - 0xd800) + (low - 0xdc00)) = 0x10000 + (unat cp - 0xd800) * 1024 + (unat low - 0xdc00)"
    using c p unfolding a_def b_def by simp
  show "0x10000 + (unat cp - 0xd800) * 1024 + (unat low - 0xdc00) \<le> 0x10ffff" using c by linarith
qed

section \<open>The string parser and its language\<close>

lemma hex4_bound: "hex4 ds \<Longrightarrow> hex_number ds < 65536"
proof -
  assume h: "hex4 ds"
  then obtain a b c d where ds: "ds = [a, b, c, d]"
    by (auto simp: hex4_def length_Suc_conv eval_nat_numeral)
  have "nat (hex x) < 16" for x using hex_range(1) [of x] by auto
  from this [of a] this [of b] this [of c] this [of d] show ?thesis by (simp add: ds hex_number_def)
qed

text \<open>What the grammar allows after a backslash, the parser takes.\<close>

lemma json_escape_complete:
  assumes "json_char (92 # a) b"
  shows "json_escape out (a @ line) = Inr (out @ b, line)"
  using assms
proof (cases rule: json_char.cases)
  case (Short k c)
  then show ?thesis by (auto simp: short_escapes_def json_escape_def)
next
  case (Unicode ds)
  obtain w :: u32 where w: "unat w = hex_number ds"
    using hex4_bound [OF Unicode(3)] by (intro that [of "of_nat (hex_number ds)"]) (simp add: unat_of_nat)
  then have "unicode_escape (ds @ line) = Inr (w, line)" using Unicode(3) unicode_escape_iff by blast
  moreover have "append_utf8 out w = out @ utf8_of (hex_number ds)"
    using append_utf8_of [of w out] w hex4_bound [OF Unicode(3)] by simp
  moreover have "\<not> (0xd800 \<le> w \<and> w \<le> 0xdbff)" "\<not> (0xdc00 \<le> w \<and> w \<le> 0xdfff)"
    using Unicode(4) w by (auto simp: word_le_nat_alt)
  ultimately have "unicode_case out (ds @ line) = Inr (out @ utf8_of (hex_number ds), line)"
    unfolding unicode_case_def by (simp only: bind_res_simps prod.case if_False)
  then show ?thesis using Unicode(1,2) by (simp add: json_escape_def)
next
  case (Pair ds es)
  obtain w v :: u32 where w: "unat w = hex_number ds" "unat v = hex_number es"
    using hex4_bound [OF Pair(3)] hex4_bound [OF Pair(4)]
    by (intro that [of "of_nat (hex_number ds)" "of_nat (hex_number es)"]) (simp_all add: unat_of_nat)
  have 1: "unicode_escape (ds @ 92 # 117 # es @ line) = Inr (w, 92 # 117 # es @ line)"
    "unicode_escape (es @ line) = Inr (v, line)"
    using Pair(3,4) w unicode_escape_iff by blast+
  have 2: "0xd800 \<le> w" "w \<le> 0xdbff" "0xdc00 \<le> v" "v \<le> 0xdfff" using Pair(5-8) w by (simp_all add: word_le_nat_alt)
  note sv = surrogate_value [OF 2]
  have "append_utf8 out (0x10000 + push_bit 10 (w - 0xd800) + (v - 0xdc00)) = out @ b"
    using append_utf8_of [of "0x10000 + push_bit 10 (w - 0xd800) + (v - 0xdc00)" out] sv Pair(2) w by (simp only:)
  moreover have "\<not> v < 0xdc00" "\<not> v > 0xdfff" using 2 by auto
  ultimately have "unicode_case out (ds @ 92 # 117 # es @ line) = Inr (out @ b, line)"
    unfolding unicode_case_def 1(1) using 1(2) 2(1,2) by (simp del: bind_res_Inr)
  then show ?thesis using Pair(1) by (simp add: json_escape_def)
qed auto

text \<open>What the parser takes after a backslash, the grammar allows.\<close>

lemma json_escape_sound:
  assumes "json_escape out line = Inr (out', line')"
  shows "\<exists>a b. line = a @ line' \<and> out' = out @ b \<and> json_char (92 # a) b"
proof -
  obtain k r where line: "line = k # r" using assms by (cases line) (auto simp: json_escape_def)
  consider (short) "k \<in> {34, 92, 47, 98, 102, 110, 114, 116}" | (uni) "k = 117"
    | (other) "k \<notin> {34, 92, 47, 98, 102, 110, 114, 116, 117}" by blast
  then show ?thesis
  proof cases
    case short
    then have "k \<in> fst ` set short_escapes" by (simp add: short_escapes_def)
    then obtain c where c: "(k, c) \<in> set short_escapes" by auto
    have "json_escape out line = Inr (out @ [c], r)"
      using json_escape_complete [OF json_char.Short [OF c], of out r] by (simp add: line)
    then show ?thesis using assms json_char.Short [OF c(1)] line by (intro exI [of _ "[k]"] exI [of _ "[c]"]) simp
  next
    case uni
    have uc: "unicode_case out r = Inr (out', line')" using assms by (simp add: json_escape_def line uni)
    then obtain cp r1 where u: "unicode_escape r = Inr (cp, r1)" by (cases "unicode_escape r") (auto simp: unicode_case_def)
    then obtain ds where ds: "r = ds @ r1" "hex4 ds" "unat cp = hex_number ds" unfolding unicode_escape_iff by blast
    note uc = uc [unfolded unicode_case_def u bind_res_simps prod.case]
    show ?thesis
    proof (cases "0xd800 \<le> cp \<and> cp \<le> 0xdbff")
      case False
      then have o: "\<not> (0xdc00 \<le> cp \<and> cp \<le> 0xdfff)" "out' = append_utf8 out cp" "line' = r1"
        using uc unfolding if_not_P [OF False] by (auto split: if_splits)
      have "out' = out @ utf8_of (hex_number ds)"
        using append_utf8_of [of cp out] o(2) ds(3) hex4_bound [OF ds(2)] by simp
      moreover have "hex_number ds < 0xd800 \<or> 0xdfff < hex_number ds"
        using False o(1) ds(3) by (auto simp: word_le_nat_alt)
      ultimately show ?thesis using json_char.Unicode [OF ds(2)] ds(1) o(3) uni line
        by (intro exI [of _ "117 # ds"] exI [of _ "utf8_of (hex_number ds)"]) simp
    next
      case True
      then have m: "\<not> (length r1 < 2 \<or> r1 ! 0 \<noteq> 92 \<or> r1 ! 1 \<noteq> 117)"
        using uc unfolding if_P [OF True] by (auto split: if_splits)
      obtain low r2 where v: "unicode_escape (drop 2 r1) = Inr (low, r2)" "\<not> (low < 0xdc00 \<or> low > 0xdfff)"
        "out' = append_utf8 out (0x10000 + push_bit 10 (cp - 0xd800) + (low - 0xdc00))" "line' = r2"
        using uc unfolding if_P [OF True] if_not_P [OF m] by (auto split: if_splits)
      obtain es where es: "drop 2 r1 = es @ r2" "hex4 es" "unat low = hex_number es"
        using v(1) unfolding unicode_escape_iff by blast
      have r1: "r1 = 92 # 117 # es @ r2" using m es(1) by (cases r1; cases "tl r1") auto
      have 2: "0xd800 \<le> cp" "cp \<le> 0xdbff" "0xdc00 \<le> low" "low \<le> 0xdfff" using True v(2) by auto
      note sv = surrogate_value [OF 2]
      let ?b = "utf8_of (0x10000 + (hex_number ds - 0xd800) * 1024 + (hex_number es - 0xdc00))"
      have "out' = out @ ?b"
        using append_utf8_of [of "0x10000 + push_bit 10 (cp - 0xd800) + (low - 0xdc00)" out] sv v(3) ds(3) es(3)
        by (simp only:)
      moreover have "json_char (92 # 117 # ds @ 92 # 117 # es) ?b"
        by (rule json_char.Pair [OF ds(2) es(2)]) (use 2 ds(3) es(3) in \<open>simp_all add: word_le_nat_alt\<close>)
      ultimately show ?thesis using ds(1) r1 v(4) uni line
        by (intro exI [of _ "117 # ds @ 92 # 117 # es"] exI [of _ ?b]) simp
    qed
  next
    case other
    then show ?thesis using assms by (simp add: json_escape_def line)
  qed
qed

lemma json_chars_step:
  assumes "json_char a b"
  shows "json_chars out (a @ line) = json_chars (out @ b) line"
proof (cases "hd a = 92")
  case True
  then obtain a' where a: "a = 92 # a'" using assms by (auto elim: json_charE)
  show ?thesis using json_escape_complete [OF assms [unfolded a], of out line] by (simp add: a)
next
  case False
  with assms obtain c where "0x20 \<le> c" "c \<noteq> 34" "c \<noteq> 92" "a = [c]" "b = [c]" by (auto elim: json_charE)
  moreover from this(1) have "\<not> c < 0x20" by (simp add: not_less)
  ultimately show ?thesis by simp
qed

lemma json_chars_complete: "json_text enc dec \<Longrightarrow> json_chars out (enc @ 34 # line) = Inr (out @ dec, line)"
  by (induction arbitrary: out rule: json_text.induct) (simp_all add: json_chars_step)

lemma json_chars_sound:
  "json_chars out line = Inr (s, line') \<Longrightarrow> \<exists>enc dec. line = enc @ 34 # line' \<and> s = out @ dec \<and> json_text enc dec"
proof (induction out line rule: json_chars.induct)
  case (2 out c line)
  consider "c = 34" | "c \<noteq> 34" "\<not> c < 0x20" "c \<noteq> 92" | "c = 92" using 2(3) by (auto split: if_splits)
  then show ?case
  proof cases
    case 1
    then show ?thesis using 2(3) json_text.Empty by (intro exI [of _ "[]"]) simp
  next
    case 2
    then obtain enc dec where "line = enc @ 34 # line'" "s = (out @ [c]) @ dec" "json_text enc dec"
      using "2.IH"(1) "2.prems" by auto
    moreover have "json_char [c] [c]" using 2 by (intro json_char.Plain) (auto simp: not_less)
    ultimately show ?thesis using json_text.Char [of "[c]" "[c]" enc dec] by (intro exI [of _ "c # enc"] exI [of _ "c # dec"]) simp
  next
    case 3
    then obtain out1 line1 where e: "json_escape out line = Inr (out1, line1)" "json_chars out1 line1 = Inr (s, line')"
      using "2.prems" by (auto split: sum.splits)
    obtain enc dec where d: "line1 = enc @ 34 # line'" "s = out1 @ dec" "json_text enc dec"
      using "2.IH"(2) [OF _ _ _ e(1) refl e(2)] 3 by auto
    obtain a b where ab: "line = a @ line1" "out1 = out @ b" "json_char (92 # a) b" using json_escape_sound [OF e(1)] by blast
    show ?thesis using json_text.Char [OF ab(3) d(3)] 3 ab d
      by (intro exI [of _ "92 # a @ enc"] exI [of _ "b @ dec"]) simp
  qed
qed simp

text \<open>A string literal and its value.\<close>

definition quoted :: "bytes \<Rightarrow> bytes \<Rightarrow> bool" where
  "quoted q s \<longleftrightarrow> (\<exists>enc. q = 34 # enc @ [34] \<and> json_text enc s)"

lemma json_string_iff: "json_string line = Inr (s, rest) \<longleftrightarrow> (\<exists>q. line = q @ rest \<and> quoted q s)"
proof
  assume "json_string line = Inr (s, rest)"
  then obtain l where l: "line = 34 # l" "json_chars [] l = Inr (s, rest)"
    by (auto simp: json_string_def split: list.splits if_splits)
  then show "\<exists>q. line = q @ rest \<and> quoted q s" using json_chars_sound [OF l(2)] by (force simp: quoted_def)
next
  assume "\<exists>q. line = q @ rest \<and> quoted q s"
  then obtain enc where "line = 34 # enc @ 34 # rest" "json_text enc s" by (auto simp: quoted_def)
  then show "json_string line = Inr (s, rest)" using json_chars_complete [of enc s "[]" rest] by (simp add: json_string_def)
qed

end
