(* ===== verification/JsonLanguage.thy ===== *)
theory JsonLanguage
  imports JsonGrammar
begin

text \<open>
  The language of whole rows: tokens between white space, the fields of a segment in either order,
  lists of segments; and the proof that \<open>parse_row\<close> decides it.
\<close>

section \<open>Tokens\<close>

definition punct :: "byte \<Rightarrow> bytes \<Rightarrow> bool" where
  "punct c t \<longleftrightarrow> (\<exists>u v. t = u @ c # v \<and> list_all is_space u \<and> list_all is_space v)"

lemma whitespace_idem [simp]: "whitespace (whitespace r) = whitespace r"
  by (simp add: whitespace_def)

lemma whitespace_append: "list_all is_space u \<Longrightarrow> whitespace (u @ r) = whitespace r"
  unfolding whitespace_def by (simp add: dropWhile_append list_all_iff)

lemma whitespace_Cons: "\<not> is_space c \<Longrightarrow> whitespace (c # r) = c # r"
  by (simp add: whitespace_def)

lemma whitespace_split: "\<exists>u. r = u @ whitespace r \<and> list_all is_space u"
  unfolding whitespace_def by (metis takeWhile_dropWhile_id list_all_iff set_takeWhileD)

lemma expect_whitespace [simp]: "expect c e (whitespace r) = expect c e r"
  by (simp add: expect_def)

lemma expect_complete:
  assumes "punct c t" "\<not> is_space c"
  shows "expect c e (t @ r) = Inr (whitespace r)"
proof -
  obtain u v where "t = u @ c # v" "list_all is_space u" "list_all is_space v" using assms(1) by (auto simp: punct_def)
  then show ?thesis using assms(2) by (simp add: expect_def whitespace_append whitespace_Cons)
qed

lemma expect_sound:
  assumes "expect c e line = Inr r"
  shows "\<exists>t. line = t @ r \<and> punct c t" "whitespace r = r"
proof -
  obtain l where l: "whitespace line = c # l" "r = whitespace l"
    using assms by (auto simp: expect_def split: list.splits if_splits)
  then show "whitespace r = r" by simp
  obtain u where "line = u @ whitespace line" "list_all is_space u" using whitespace_split by blast
  moreover obtain v where "l = v @ whitespace l" "list_all is_space v" using whitespace_split by blast
  ultimately show "\<exists>t. line = t @ r \<and> punct c t"
    using l by (intro exI [of _ "u @ c # v"]) (auto simp: punct_def)
qed

lemma expect_head: "expect c e line = Inr r \<Longrightarrow> \<exists>l. whitespace line = c # l"
  by (auto simp: expect_def split: list.splits if_splits)

lemma punct_head: "punct c t \<Longrightarrow> \<not> is_space c \<Longrightarrow> \<exists>l. whitespace (t @ r) = c # l"
  by (auto simp: punct_def whitespace_append whitespace_Cons)

lemma quoted_head: "quoted q s \<Longrightarrow> whitespace (q @ r) = q @ r"
  by (auto simp: quoted_def whitespace_def is_space_def)

lemma json_string_complete: "quoted q s \<Longrightarrow> json_string (q @ r) = Inr (s, r)"
  using json_string_iff by blast

definition bool_text :: "bool \<Rightarrow> bytes" where
  "bool_text b = bytes_of (if b then ''true'' else ''false'')"

lemma bool_head: "whitespace (bool_text b @ r) = bool_text b @ r"
  by (simp add: bool_text_def bytes_of_def whitespace_def is_space_def)

lemma json_bool_complete: "json_bool (bool_text b @ r) = Inr (b, r)"
  by (cases b) (simp_all add: bool_text_def bytes_of_def json_bool_def)

lemma json_bool_sound: "json_bool line = Inr (b, r) \<Longrightarrow> line = bool_text b @ r"
  by (auto simp: json_bool_def bool_text_def prefix_def split: if_splits)

lemma punct_not_space [simp]:
  "\<not> is_space 123" "\<not> is_space 125" "\<not> is_space 58" "\<not> is_space 44" "\<not> is_space 91" "\<not> is_space 93"
  by (simp_all add: is_space_def)

section \<open>Segments\<close>

definition text_field :: "bytes \<Rightarrow> bytes \<Rightarrow> bool" where
  "text_field f s \<longleftrightarrow> (\<exists>k p v. f = k @ p @ v \<and> quoted k (bytes_of ''text'') \<and> punct 58 p \<and> quoted v s)"

definition train_field :: "bytes \<Rightarrow> bool \<Rightarrow> bool" where
  "train_field f b \<longleftrightarrow> (\<exists>k p. f = k @ p @ bool_text b \<and> quoted k (bytes_of ''train'') \<and> punct 58 p)"

definition segment_text :: "bytes \<Rightarrow> text_segment \<Rightarrow> bool" where
  "segment_text t seg \<longleftrightarrow>
     (\<exists>ob f p g cb. t = ob @ f @ p @ g @ cb \<and> punct 123 ob \<and> punct 44 p \<and> punct 125 cb \<and>
        (text_field f (sg_text seg) \<and> train_field g (sg_train seg) \<or>
         train_field f (sg_train seg) \<and> text_field g (sg_text seg)))"

lemma field_names [simp]: "bytes_of ''text'' \<noteq> bytes_of ''train''" "bytes_of ''train'' \<noteq> bytes_of ''text''"
  "bytes_of ''text'' \<noteq> bytes_of ''segments''" "bytes_of ''segments'' \<noteq> bytes_of ''text''"
  by (simp_all add: bytes_of_def)

lemma text_field_complete:
  "text_field f s \<Longrightarrow> segment_field None hb (f @ r) = Inr (Some s, hb, r)"
  by (auto simp: text_field_def segment_field_def json_string_complete expect_complete quoted_head simp del: bind_res_Inr)

lemma train_field_complete:
  "train_field f b \<Longrightarrow> segment_field ht None (f @ r) = Inr (ht, Some b, r)"
  by (auto simp: train_field_def segment_field_def json_string_complete expect_complete bool_head json_bool_complete
      simp del: bind_res_Inr)

lemma segment_field_sound:
  assumes "segment_field ht hb line = Inr (ht', hb', r)"
  shows "(\<exists>f s. line = f @ r \<and> text_field f s \<and> ht = None \<and> ht' = Some s \<and> hb' = hb) \<or>
    (\<exists>f b. line = f @ r \<and> train_field f b \<and> hb = None \<and> hb' = Some b \<and> ht' = ht)"
proof -
  obtain key l1 where k1: "json_string line = Inr (key, l1)"
    using assms by (cases "json_string line") (auto simp: segment_field_def)
  obtain l2 where k2: "expect 58 MissingSegmentColon l1 = Inr l2"
    using assms k1 by (cases "expect 58 MissingSegmentColon l1") (auto simp: segment_field_def)
  have v: "(if key = bytes_of ''text'' \<and> ht = None then
         bind_res (json_string l2) (\<lambda>(text, line). Inr (Some text, hb, line))
       else if key = bytes_of ''train'' \<and> hb = None then
         bind_res (json_bool l2) (\<lambda>(train, line). Inr (ht, Some train, line))
       else Inl BadSegmentField) = Inr (ht', hb', r)"
    using assms unfolding segment_field_def k1 by (simp only: k2 bind_res_simps prod.case)
  obtain q where q: "line = q @ l1" "quoted q key" using k1 json_string_iff by blast
  obtain p where p: "l1 = p @ l2" "punct 58 p" using expect_sound(1) [OF k2] by blast
  consider (Txt) s where "key = bytes_of ''text''" "ht = None" "json_string l2 = Inr (s, r)" "ht' = Some s" "hb' = hb"
    | (Trn) b where "key = bytes_of ''train''" "hb = None" "json_bool l2 = Inr (b, r)" "hb' = Some b" "ht' = ht"
    using v by (auto split: if_splits)
  then show ?thesis
  proof cases
    case Txt
    obtain w where "l2 = w @ r" "quoted w s" using Txt(3) json_string_iff by blast
    then have "line = (q @ p @ w) @ r" "text_field (q @ p @ w) s" using q p Txt(1) by (auto simp: text_field_def)
    then show ?thesis using Txt(2,4,5) by blast
  next
    case Trn
    have "line = (q @ p @ bool_text b) @ r" using json_bool_sound [OF Trn(3)] q(1) p(1) by simp
    moreover have "train_field (q @ p @ bool_text b) b" using q(2) p(2) Trn(1) by (auto simp: train_field_def)
    ultimately show ?thesis using Trn(2,4,5) by blast
  qed
qed

text \<open>One turn of the loop over the fields: a comma and more fields, or the end of the segment.\<close>

lemma segment_fields_turn:
  "segment_fields ht hb line = Inr (seg, r) \<longleftrightarrow>
     (\<exists>ht1 hb1 r1. segment_field ht hb line = Inr (ht1, hb1, r1) \<and>
        ((\<exists>r2. expect 44 MissingComma r1 = Inr r2 \<and> segment_fields ht1 hb1 r2 = Inr (seg, r)) \<or>
         expect 125 MissingSegmentBrace r1 = Inr r \<and> ht1 = Some (sg_text seg) \<and> hb1 = Some (sg_train seg)))"
proof (cases "segment_field ht hb line")
  case (Inl e)
  then show ?thesis by (subst segment_fields.simps) simp
next
  case (Inr x)
  obtain ht1 hb1 r1 where x: "x = (ht1, hb1, r1)" by (cases x)
  have no: "expect c e r1 = Inl e" if "whitespace r1 = []" for c e using that by (simp add: expect_def)
  have ne: "expect c e r1 = Inl e" if "whitespace r1 = d # l" "d \<noteq> c" for c d l e using that by (simp add: expect_def)
  show ?thesis
  proof (cases "whitespace r1")
    case Nil
    then show ?thesis using Inr x no by (subst segment_fields.simps) simp
  next
    case (Cons d l)
    have "expect c e (d # l) = expect c e r1" for c e using Cons expect_whitespace [of c e r1] by simp
    then have fields: "segment_fields ht hb line =
        (if d = 44 then case expect 44 MissingComma r1 of Inl e \<Rightarrow> Inl e | Inr r2 \<Rightarrow> segment_fields ht1 hb1 r2
         else bind_res (expect 125 MissingSegmentBrace r1) (\<lambda>r2.
           case (ht1, hb1) of (Some text, Some train) \<Rightarrow> Inr (\<lparr>sg_text = text, sg_train = train\<rparr>, r2) | _ \<Rightarrow> Inl MissingField))"
      using Inr x Cons by (subst segment_fields.simps) (cases "d = 44"; simp del: bind_res_Inr)
    show ?thesis
    proof (cases "d = 44")
      case True
      then show ?thesis unfolding fields using Inr x ne [OF Cons] by (auto split: sum.splits)
    next
      case False
      then show ?thesis unfolding fields using Inr x ne [OF Cons] by (cases ht1; cases hb1) auto
    qed
  qed
qed

lemma segment_complete:
  assumes "segment_text t seg"
  shows "parse_segment (t @ r) = Inr (seg, whitespace r)"
proof -
  obtain ob f p g cb where t: "t = ob @ f @ p @ g @ cb" "punct 123 ob" "punct 44 p" "punct 125 cb"
    and fg: "text_field f (sg_text seg) \<and> train_field g (sg_train seg) \<or> train_field f (sg_train seg) \<and> text_field g (sg_text seg)"
    using assms by (auto simp: segment_text_def)
  have head: "whitespace (h @ x) = h @ x" if "text_field h s \<or> train_field h b" for h x s b
    using that by (auto simp: text_field_def train_field_def quoted_head)
  have w: "whitespace (f @ p @ g @ cb @ r) = f @ p @ g @ cb @ r" "whitespace (g @ cb @ r) = g @ cb @ r" using fg head by blast+
  have ob: "expect 123 SegmentNotObject (ob @ f @ p @ g @ cb @ r) = Inr (f @ p @ g @ cb @ r)"
    using expect_complete [OF t(2)] w(1) by simp
  have p: "expect 44 MissingComma (p @ g @ cb @ r) = Inr (g @ cb @ r)" using expect_complete [OF t(3)] w(2) by simp
  have cb: "expect 125 MissingSegmentBrace (cb @ r) = Inr (whitespace r)" using expect_complete [OF t(4)] by simp
  have "segment_fields None None (f @ p @ g @ cb @ r) = Inr (seg, whitespace r)"
    using fg
  proof
    assume a: "text_field f (sg_text seg) \<and> train_field g (sg_train seg)"
    have "segment_fields (Some (sg_text seg)) None (g @ cb @ r) = Inr (seg, whitespace r)"
      using train_field_complete [OF conjunct2 [OF a], of "Some (sg_text seg)" "cb @ r"] cb
      by (subst segment_fields_turn) auto
    then show ?thesis
      using text_field_complete [OF conjunct1 [OF a], of None "p @ g @ cb @ r"] p
      by (subst segment_fields_turn) blast
  next
    assume a: "train_field f (sg_train seg) \<and> text_field g (sg_text seg)"
    have "segment_fields None (Some (sg_train seg)) (g @ cb @ r) = Inr (seg, whitespace r)"
      using text_field_complete [OF conjunct2 [OF a], of "Some (sg_train seg)" "cb @ r"] cb
      by (subst segment_fields_turn) auto
    then show ?thesis
      using train_field_complete [OF conjunct1 [OF a], of None "p @ g @ cb @ r"] p
      by (subst segment_fields_turn) blast
  qed
  then show ?thesis using ob t(1) by (simp add: parse_segment_def)
qed

lemma no_third_field: "segment_fields (Some s) (Some b) line \<noteq> Inr x"
proof
  assume "segment_fields (Some s) (Some b) line = Inr x"
  then have "segment_fields (Some s) (Some b) line = Inr (fst x, snd x)" by simp
  from iffD1 [OF segment_fields_turn this] show False by (auto dest: segment_field_sound)
qed

lemma last_field_sound:
  assumes "segment_fields ht hb line = Inr (seg, r)" "ht \<noteq> None \<or> hb \<noteq> None"
  shows "\<exists>g cb. line = g @ cb @ r \<and> punct 125 cb \<and> whitespace r = r \<and>
    (ht = Some (sg_text seg) \<and> train_field g (sg_train seg) \<or> hb = Some (sg_train seg) \<and> text_field g (sg_text seg))"
proof -
  obtain ht1 hb1 r1 where f: "segment_field ht hb line = Inr (ht1, hb1, r1)"
    and t: "(\<exists>r2. expect 44 MissingComma r1 = Inr r2 \<and> segment_fields ht1 hb1 r2 = Inr (seg, r)) \<or>
         expect 125 MissingSegmentBrace r1 = Inr r \<and> ht1 = Some (sg_text seg) \<and> hb1 = Some (sg_train seg)"
    using iffD1 [OF segment_fields_turn assms(1)] by blast
  have b: "ht1 \<noteq> None \<and> hb1 \<noteq> None" using segment_field_sound [OF f] assms(2) by auto
  then have e: "expect 125 MissingSegmentBrace r1 = Inr r" "ht1 = Some (sg_text seg)" "hb1 = Some (sg_train seg)"
    using t no_third_field by auto
  obtain cb where "r1 = cb @ r" "punct 125 cb" using expect_sound(1) [OF e(1)] by blast
  then show ?thesis using segment_field_sound [OF f] expect_sound(2) [OF e(1)] e(2,3) assms(2) by auto
qed

lemma segment_sound:
  assumes "parse_segment line = Inr (seg, r)"
  shows "\<exists>t. line = t @ r \<and> segment_text t seg" "whitespace r = r"
proof -
  obtain l where l: "expect 123 SegmentNotObject line = Inr l" "segment_fields None None l = Inr (seg, r)"
    using assms by (auto simp: parse_segment_def)
  obtain ob where ob: "line = ob @ l" "punct 123 ob" using expect_sound(1) [OF l(1)] by blast
  obtain ht1 hb1 r1 where f: "segment_field None None l = Inr (ht1, hb1, r1)"
    and t: "(\<exists>r2. expect 44 MissingComma r1 = Inr r2 \<and> segment_fields ht1 hb1 r2 = Inr (seg, r)) \<or>
         expect 125 MissingSegmentBrace r1 = Inr r \<and> ht1 = Some (sg_text seg) \<and> hb1 = Some (sg_train seg)"
    using iffD1 [OF segment_fields_turn l(2)] by blast
  note fs = segment_field_sound [OF f]
  have one: "ht1 = None \<or> hb1 = None" "ht1 \<noteq> None \<or> hb1 \<noteq> None" using fs by auto
  then obtain r2 where r2: "expect 44 MissingComma r1 = Inr r2" "segment_fields ht1 hb1 r2 = Inr (seg, r)" using t by auto
  obtain p where p: "r1 = p @ r2" "punct 44 p" using expect_sound(1) [OF r2(1)] by blast
  obtain g cb where g: "r2 = g @ cb @ r" "punct 125 cb" "whitespace r = r"
    "ht1 = Some (sg_text seg) \<and> train_field g (sg_train seg) \<or> hb1 = Some (sg_train seg) \<and> text_field g (sg_text seg)"
    using last_field_sound [OF r2(2) one(2)] by blast
  obtain h where h: "l = h @ r1" "text_field h (sg_text seg) \<and> train_field g (sg_train seg) \<or>
      train_field h (sg_train seg) \<and> text_field g (sg_text seg)"
    using fs g(4) one(1) by auto
  have "line = (ob @ h @ p @ g @ cb) @ r" using ob(1) h(1) p(1) g(1) by simp
  moreover have "segment_text (ob @ h @ p @ g @ cb) seg" unfolding segment_text_def using ob(2) p(2) g(2) h(2) by blast
  ultimately show "\<exists>t. line = t @ r \<and> segment_text t seg" by blast
  show "whitespace r = r" by (rule g(3))
qed

section \<open>Rows\<close>

inductive segments_text :: "bytes \<Rightarrow> text_segment list \<Rightarrow> bool" where
  One: "segment_text t seg \<Longrightarrow> segments_text t [seg]"
| More: "segment_text t seg \<Longrightarrow> punct 44 p \<Longrightarrow> segments_text u segs \<Longrightarrow> segments_text (t @ p @ u) (seg # segs)"

definition row_text :: "bytes \<Rightarrow> text_segment list \<Rightarrow> bool" where
  "row_text line segs \<longleftrightarrow>
     (\<exists>ob k p v cb. line = ob @ k @ p @ v @ cb \<and> punct 123 ob \<and> punct 58 p \<and> punct 125 cb \<and>
        (quoted k (bytes_of ''text'') \<and> (\<exists>s. quoted v s \<and> segs = [\<lparr>sg_text = s, sg_train = True\<rparr>]) \<or>
         quoted k (bytes_of ''segments'') \<and>
           (\<exists>b t c. v = b @ t @ c \<and> punct 91 b \<and> punct 93 c \<and> segments_text t segs)))"

lemma segments_loop_turn:
  "segments_loop segs line = Inr (segs', r) \<longleftrightarrow>
     (\<exists>seg r1. parse_segment line = Inr (seg, r1) \<and>
        ((\<exists>r2. expect 44 MissingComma r1 = Inr r2 \<and> segments_loop (segs @ [seg]) r2 = Inr (segs', r)) \<or>
         expect 93 MissingBracket r1 = Inr r \<and> segs' = segs @ [seg]))"
proof (cases "parse_segment line")
  case (Inl e)
  then show ?thesis by (subst segments_loop.simps) simp
next
  case (Inr x)
  obtain seg r1 where x: "x = (seg, r1)" by (cases x)
  have no: "expect c e r1 = Inl e" if "whitespace r1 = []" for c e using that by (simp add: expect_def)
  have ne: "expect c e r1 = Inl e" if "whitespace r1 = d # l" "d \<noteq> c" for c d l e using that by (simp add: expect_def)
  show ?thesis
  proof (cases "whitespace r1")
    case Nil
    then show ?thesis using Inr x no by (subst segments_loop.simps) simp
  next
    case (Cons d l)
    have "expect c e (d # l) = expect c e r1" for c e using Cons expect_whitespace [of c e r1] by simp
    then have loop: "segments_loop segs line =
        (if d = 44 then case expect 44 MissingComma r1 of Inl e \<Rightarrow> Inl e | Inr r2 \<Rightarrow> segments_loop (segs @ [seg]) r2
         else bind_res (expect 93 MissingBracket r1) (\<lambda>r2. Inr (segs @ [seg], r2)))"
      using Inr x Cons by (subst segments_loop.simps) (cases "d = 44"; simp del: bind_res_Inr)
    show ?thesis
    proof (cases "d = 44")
      case True
      then show ?thesis unfolding loop using Inr x ne [OF Cons] by (auto split: sum.splits)
    next
      case False
      then show ?thesis unfolding loop using Inr x ne [OF Cons] by auto
    qed
  qed
qed

lemma segment_head: "segment_text t seg \<Longrightarrow> \<exists>l. whitespace (t @ r) = 123 # l"
proof -
  assume "segment_text t seg"
  then obtain ob x where t: "t = ob @ x" "punct 123 ob" unfolding segment_text_def by blast
  show ?thesis using punct_head [OF t(2), of "x @ r"] by (simp add: t(1))
qed

lemma segments_head: "segments_text t segs \<Longrightarrow> \<exists>l. whitespace (t @ r) = 123 # l"
  by (cases rule: segments_text.cases) (auto intro: segment_head)

lemma parse_segment_whitespace: "parse_segment (whitespace l) = parse_segment l"
  by (simp add: parse_segment_def)

lemma segments_loop_whitespace: "segments_loop segs (whitespace l) = segments_loop segs l"
  by (subst (1 2) segments_loop.simps) (simp add: parse_segment_whitespace)

lemma segments_complete:
  "segments_text t segs \<Longrightarrow> punct 93 c \<Longrightarrow> segments_loop acc (t @ c @ r) = Inr (acc @ segs, whitespace r)"
proof (induction t segs arbitrary: acc rule: segments_text.induct)
  case (One t seg)
  have "parse_segment (t @ c @ r) = Inr (seg, whitespace (c @ r))" by (rule segment_complete [OF One(1)])
  moreover have "expect 93 MissingBracket (whitespace (c @ r)) = Inr (whitespace r)"
    using expect_complete [OF One(2), of MissingBracket r] by simp
  ultimately show ?case by (subst segments_loop_turn) blast
next
  case (More t seg p u segs)
  have "parse_segment (t @ p @ u @ c @ r) = Inr (seg, whitespace (p @ u @ c @ r))" by (rule segment_complete [OF More(1)])
  moreover have "expect 44 MissingComma (whitespace (p @ u @ c @ r)) = Inr (whitespace (u @ c @ r))"
    using expect_complete [OF More(2)] by simp
  moreover have "segments_loop (acc @ [seg]) (whitespace (u @ c @ r)) = Inr (acc @ seg # segs, whitespace r)"
    using More.IH [OF More(5), of "acc @ [seg]"] by (simp add: segments_loop_whitespace)
  ultimately show ?case by (subst segments_loop_turn) auto
qed

lemma segments_sound:
  "segments_loop acc line = Inr (segs', r) \<Longrightarrow>
     \<exists>t c segs. line = t @ c @ r \<and> segs' = acc @ segs \<and> segments_text t segs \<and> punct 93 c \<and> whitespace r = r"
proof (induction "length line" arbitrary: acc line rule: less_induct)
  case less
  obtain seg r1 where s: "parse_segment line = Inr (seg, r1)"
    and t: "(\<exists>r2. expect 44 MissingComma r1 = Inr r2 \<and> segments_loop (acc @ [seg]) r2 = Inr (segs', r)) \<or>
         expect 93 MissingBracket r1 = Inr r \<and> segs' = acc @ [seg]"
    using iffD1 [OF segments_loop_turn less(2)] by blast
  obtain x where x: "line = x @ r1" "segment_text x seg" using segment_sound(1) [OF s] by blast
  show ?case
    using t
  proof
    assume "\<exists>r2. expect 44 MissingComma r1 = Inr r2 \<and> segments_loop (acc @ [seg]) r2 = Inr (segs', r)"
    then obtain r2 where r2: "expect 44 MissingComma r1 = Inr r2" "segments_loop (acc @ [seg]) r2 = Inr (segs', r)" by blast
    obtain p where p: "r1 = p @ r2" "punct 44 p" using expect_sound(1) [OF r2(1)] by blast
    have "length r2 < length line" using expect_shorter [OF r2(1)] parse_segment_shorter [OF s] by simp
    from less(1) [OF this r2(2)] obtain u c segs where u: "r2 = u @ c @ r" "segs' = (acc @ [seg]) @ segs"
      "segments_text u segs" "punct 93 c" "whitespace r = r" by blast
    have "line = (x @ p @ u) @ c @ r" "segs' = acc @ (seg # segs)" using x(1) p(1) u(1,2) by simp_all
    then show ?thesis using segments_text.More [OF x(2) p(2) u(3)] u(4,5) by blast
  next
    assume e: "expect 93 MissingBracket r1 = Inr r \<and> segs' = acc @ [seg]"
    then obtain c where "r1 = c @ r" "punct 93 c" using expect_sound(1) by blast
    then show ?thesis using x segments_text.One [OF x(2)] e expect_sound(2) by blast
  qed
qed

lemma row_complete:
  assumes "row_text line segs"
  shows "parse_row line = Inr segs"
proof -
  obtain ob k p v cb where l: "line = ob @ k @ p @ v @ cb" "punct 123 ob" "punct 58 p" "punct 125 cb"
    and kv: "quoted k (bytes_of ''text'') \<and> (\<exists>s. quoted v s \<and> segs = [\<lparr>sg_text = s, sg_train = True\<rparr>]) \<or>
        quoted k (bytes_of ''segments'') \<and> (\<exists>b t c. v = b @ t @ c \<and> punct 91 b \<and> punct 93 c \<and> segments_text t segs)"
    using assms unfolding row_text_def by blast
  have ob: "expect 123 RowNotObject line = Inr (k @ p @ v @ cb)"
    using expect_complete [OF l(2), of RowNotObject "k @ p @ v @ cb"] kv quoted_head [of k _ "p @ v @ cb"] l(1) by auto
  have p: "expect 58 MissingRowColon (p @ v @ cb) = Inr (whitespace (v @ cb))"
    by (rule expect_complete [OF l(3)]) simp
  obtain x where x: "whitespace cb = 125 # x" using punct_head [OF l(4), of "[]"] by auto
  have cb: "expect 125 MissingRowBrace (125 # x) = Inr []"
    using expect_complete [OF l(4), of MissingRowBrace "[]"] expect_whitespace [of 125 MissingRowBrace cb]
    by (simp add: x) (simp add: whitespace_def)
  show ?thesis
    using kv
  proof
    assume a: "quoted k (bytes_of ''text'') \<and> (\<exists>s. quoted v s \<and> segs = [\<lparr>sg_text = s, sg_train = True\<rparr>])"
    then obtain s where s: "quoted v s" "segs = [\<lparr>sg_text = s, sg_train = True\<rparr>]" by blast
    have "json_string (k @ p @ v @ cb) = Inr (bytes_of ''text'', p @ v @ cb)" "json_string (v @ cb) = Inr (s, cb)"
      using a s json_string_complete by blast+
    then show ?thesis
      unfolding parse_row_def using ob p cb x s quoted_head [OF s(1), of cb] by (simp add: Let_def del: bind_res_Inr)
  next
    assume a: "quoted k (bytes_of ''segments'') \<and> (\<exists>b t c. v = b @ t @ c \<and> punct 91 b \<and> punct 93 c \<and> segments_text t segs)"
    then obtain b t c where v: "v = b @ t @ c" "punct 91 b" "punct 93 c" "segments_text t segs" by blast
    obtain y where y: "whitespace (t @ c @ cb) = 123 # y" using segments_head [OF v(4)] by auto
    have "expect 91 SegmentsNotArray (whitespace (v @ cb)) = Inr (123 # y)"
      using expect_complete [OF v(2), of SegmentsNotArray "t @ c @ cb"] y by (simp add: v(1))
    moreover have "segments_loop [] (123 # y) = Inr (segs, 125 # x)"
      using segments_complete [OF v(4,3), of "[]" cb] segments_loop_whitespace [of "[]" "t @ c @ cb"] by (simp add: y x)
    moreover have "json_string (k @ p @ v @ cb) = Inr (bytes_of ''segments'', p @ v @ cb)"
      using a json_string_complete by blast
    moreover have "whitespace (125 # x) = 125 # x" by (simp add: whitespace_Cons)
    ultimately show ?thesis
      unfolding parse_row_def using ob p cb by (simp add: Let_def del: bind_res_Inr)
  qed
qed

lemma row_sound:
  assumes "parse_row line = Inr segs"
  shows "row_text line segs"
proof -
  obtain l1 where l1: "expect 123 RowNotObject line = Inr l1"
    using assms by (cases "expect 123 RowNotObject line") (auto simp: parse_row_def)
  obtain key l2 where l2: "json_string l1 = Inr (key, l2)"
    using assms by (cases "json_string l1") (auto simp: parse_row_def l1)
  obtain l3 where l3: "expect 58 MissingRowColon l2 = Inr l3"
    using assms by (cases "expect 58 MissingRowColon l2") (auto simp: parse_row_def l1 l2)
  define body where "body = (if key = bytes_of ''text'' then
          bind_res (json_string l3) (\<lambda>(text, line). Inr ([\<lparr>sg_text = text, sg_train = True\<rparr>], line))
        else if key = bytes_of ''segments'' then
          bind_res (expect 91 SegmentsNotArray l3) (\<lambda>line.
            if line \<noteq> [] \<and> hd line = 93 then Inl EmptySegments else segments_loop [] line)
        else Inl UnknownRowField)"
  have r: "bind_res body (\<lambda>(segments, line).
     let line = whitespace line in
     if line \<noteq> [] \<and> hd line = 44 then Inl SecondRowField
     else bind_res (expect 125 MissingRowBrace line) (\<lambda>line. if line \<noteq> [] then Inl TrailingData else Inr segments)) = Inr segs"
    using assms unfolding parse_row_def by (simp only: l1 l2 l3 bind_res_simps prod.case body_def)
  then obtain l4 where l4: "body = Inr (segs, l4)" by (cases body) (auto simp: Let_def split: if_splits)
  then have l5: "expect 125 MissingRowBrace l4 = Inr []" using r by (auto simp: Let_def split: if_splits)
  obtain ob where ob: "line = ob @ l1" "punct 123 ob" using expect_sound(1) [OF l1] by blast
  obtain k where k: "l1 = k @ l2" "quoted k key" using l2 json_string_iff by blast
  obtain p where p: "l2 = p @ l3" "punct 58 p" using expect_sound(1) [OF l3] by blast
  obtain cb where cb: "l4 = cb" "punct 125 cb" using expect_sound(1) [OF l5] by auto
  consider (Txt) s where "key = bytes_of ''text''" "json_string l3 = Inr (s, l4)" "segs = [\<lparr>sg_text = s, sg_train = True\<rparr>]"
    | (Segs) l where "key = bytes_of ''segments''" "expect 91 SegmentsNotArray l3 = Inr l" "segments_loop [] l = Inr (segs, l4)"
    using l4 unfolding body_def by (auto split: if_splits)
  then show ?thesis
  proof cases
    case Txt
    obtain v where v: "l3 = v @ l4" "quoted v s" using Txt(2) json_string_iff by blast
    have "line = ob @ k @ p @ v @ cb" using ob(1) k(1) p(1) v(1) cb(1) by simp
    then show ?thesis unfolding row_text_def using ob(2) p(2) cb(2) k(2) v(2) Txt(1,3) by blast
  next
    case Segs
    obtain b where b: "l3 = b @ l" "punct 91 b" using expect_sound(1) [OF Segs(2)] by blast
    obtain t c where t: "l = t @ c @ l4" "segments_text t segs" "punct 93 c" using segments_sound [OF Segs(3)] by auto
    have "line = ob @ k @ p @ (b @ t @ c) @ cb" using ob(1) k(1) p(1) b(1) t(1) cb(1) by simp
    then show ?thesis unfolding row_text_def using ob(2) p(2) cb(2) k(2) b(2) t(2,3) Segs(1) by blast
  qed
qed

text \<open>
  C12. The row parser decides a language: a line is accepted with a list of segments exactly when it
  is, up to white space between the tokens, an object with the one field \<open>text\<close> and a string, or with
  the one field \<open>segments\<close> and a non-empty array of objects that have the fields \<open>text\<close> and
  \<open>train\<close>, once each and in any order; the segments are the decoded strings with their flags. Strings
  have the JSON escapes, surrogate pairs included, and no control byte.
\<close>

theorem parse_row_iff: "parse_row line = Inr segs \<longleftrightarrow> row_text line segs"
  using row_complete row_sound by blast

end
