(* ===== verification/JsonReader.thy ===== *)
theory JsonReader
  imports JsonLanguage
begin

text \<open>
  Reading files of rows: a printer of rows for the round trip, and the reader of
  \<open>src/state_tuning/dataset.cpp\<close> against a reference that splits the file into lines first.
\<close>

section \<open>A printer\<close>

definition hex_digit_bytes :: bytes where
  "hex_digit_bytes = bytes_of ''0123456789abcdef''"

definition escape_byte :: "byte \<Rightarrow> bytes" where
  "escape_byte c =
     (if c = 34 then [92, 34] else if c = 92 then [92, 92]
      else if c < 0x20 then [92, 117, 48, 48, hex_digit_bytes ! (unat c div 16), hex_digit_bytes ! (unat c mod 16)]
      else [c])"

definition print_string :: "bytes \<Rightarrow> bytes" where
  "print_string s = 34 # concat (map escape_byte s) @ [34]"

definition print_segment :: "text_segment \<Rightarrow> bytes" where
  "print_segment seg =
     [123] @ (print_string (bytes_of ''text'') @ [58] @ print_string (sg_text seg)) @ [44] @
     (print_string (bytes_of ''train'') @ [58] @ bool_text (sg_train seg)) @ [125]"

fun print_segments :: "text_segment list \<Rightarrow> bytes" where
  "print_segments [] = []"
| "print_segments [seg] = print_segment seg"
| "print_segments (seg # segs) = print_segment seg @ [44] @ print_segments segs"

definition print_row :: "text_segment list \<Rightarrow> bytes" where
  "print_row segs =
     [123] @ print_string (bytes_of ''segments'') @ [58] @ ([91] @ print_segments segs @ [93]) @ [125]"

lemma hex_digit_value: "n < 16 \<Longrightarrow> hex (hex_digit_bytes ! n) = int n"
proof -
  assume "n < 16"
  then have "n \<in> set [0..<16]" by simp
  then show ?thesis by (auto simp: upt_rec hex_digit_bytes_def bytes_of_def hex_def)
qed

lemma escape_char: "json_char (escape_byte c) [c]"
proof -
  consider "c = 34" | "c = 92" | "c \<noteq> 34" "c \<noteq> 92" "c < 0x20" | "c \<noteq> 34" "c \<noteq> 92" "\<not> c < 0x20" by blast
  then show ?thesis
  proof cases
    case 3
    let ?ds = "[48, 48, hex_digit_bytes ! (unat c div 16), hex_digit_bytes ! (unat c mod 16)]"
    have c: "unat c < 32" using 3(3) by (simp add: word_less_nat_alt)
    then have h: "hex (hex_digit_bytes ! (unat c div 16)) = int (unat c div 16)"
      "hex (hex_digit_bytes ! (unat c mod 16)) = int (unat c mod 16)" by (simp_all add: hex_digit_value)
    have z: "hex 48 = 0" by (simp add: hex_def)
    have n: "hex_number ?ds = unat c" by (simp add: hex_number_def h z)
    have "hex4 ?ds" by (simp add: hex4_def h z)
    moreover have "hex_number ?ds < 0xd800 \<or> 0xdfff < hex_number ?ds" unfolding n using c by simp
    ultimately have "json_char (92 # 117 # ?ds) (utf8_of (hex_number ?ds))" by (rule json_char.Unicode)
    moreover have "utf8_of (unat c) = [c]" using c by (simp add: utf8_of_def)
    ultimately show ?thesis using 3 by (simp add: escape_byte_def n)
  next
    case 4
    then have "escape_byte c = [c]" "0x20 \<le> c" by (simp_all add: escape_byte_def)
    then show ?thesis using 4(1,2) by (simp add: json_char.Plain)
  qed (auto simp: escape_byte_def short_escapes_def intro!: json_char.Short)
qed

lemma print_string_quoted: "quoted (print_string s) s"
proof -
  have "json_text (concat (map escape_byte s)) s"
  proof (induction s)
    case (Cons c s)
    from json_text.Char [OF escape_char [of c] Cons] show ?case by simp
  qed (simp add: json_text.Empty)
  then show ?thesis by (auto simp: quoted_def print_string_def)
qed

lemma punct_single: "punct c [c]"
  unfolding punct_def by (intro exI [of _ "[]"]) simp

lemma print_segment_text: "segment_text (print_segment seg) seg"
proof -
  have t: "text_field (print_string (bytes_of ''text'') @ [58] @ print_string (sg_text seg)) (sg_text seg)"
    unfolding text_field_def using print_string_quoted punct_single by blast
  have b: "train_field (print_string (bytes_of ''train'') @ [58] @ bool_text (sg_train seg)) (sg_train seg)"
    unfolding train_field_def using print_string_quoted punct_single by blast
  show ?thesis unfolding segment_text_def print_segment_def using t b punct_single by blast
qed

lemma print_segments_text: "segs \<noteq> [] \<Longrightarrow> segments_text (print_segments segs) segs"
proof (induction segs rule: print_segments.induct)
  case (2 seg)
  then show ?case by (simp add: segments_text.One print_segment_text)
next
  case (3 seg seg2 segs)
  show ?case unfolding print_segments.simps
    by (rule segments_text.More [OF print_segment_text punct_single]) (use 3 in simp)
qed simp

lemma print_row_text: "segs \<noteq> [] \<Longrightarrow> row_text (print_row segs) segs"
proof -
  assume "segs \<noteq> []"
  then have "segments_text (print_segments segs) segs" by (rule print_segments_text)
  then have v: "\<exists>b t c. [91] @ print_segments segs @ [93] = b @ t @ c \<and> punct 91 b \<and> punct 93 c \<and> segments_text t segs"
    using punct_single by blast
  show ?thesis
    unfolding row_text_def print_row_def
    by (rule exI [of _ "[123]"], rule exI [of _ "print_string (bytes_of ''segments'')"], rule exI [of _ "[58]"],
        rule exI [of _ "[91] @ print_segments segs @ [93]"], rule exI [of _ "[125]"])
      (use v print_string_quoted punct_single in simp)
qed

lemma print_no_newline: "10 \<notin> set (print_row segs)"
proof -
  have "hex_digit_bytes ! n \<noteq> 10" if "n < 16" for n
    using hex_digit_value [OF that] by (auto simp: hex_def)
  moreover have "unat c div 16 < 16" for c :: byte using unat_byte_less [of c] by linarith
  moreover have "unat c mod 16 < 16" for c :: byte by simp
  ultimately have h: "hex_digit_bytes ! (unat c div 16) \<noteq> 10" "hex_digit_bytes ! (unat c mod 16) \<noteq> 10" for c :: byte by blast+
  have "10 \<notin> set (escape_byte c)" for c
  proof -
    have "set (escape_byte c) \<subseteq> {34, 92, 117, 48, hex_digit_bytes ! (unat c div 16), hex_digit_bytes ! (unat c mod 16)} \<or>
        \<not> c < 0x20 \<and> escape_byte c = [c]"
      unfolding escape_byte_def by (simp split: if_split) blast?
    then show ?thesis
    proof
      assume "\<not> c < 0x20 \<and> escape_byte c = [c]"
      then show ?thesis by auto
    next
      assume sub: "set (escape_byte c) \<subseteq> {34, 92, 117, 48, hex_digit_bytes ! (unat c div 16), hex_digit_bytes ! (unat c mod 16)}"
      show ?thesis
      proof
        assume "10 \<in> set (escape_byte c)"
        with sub have "10 \<in> {34, 92, 117, 48, hex_digit_bytes ! (unat c div 16), hex_digit_bytes ! (unat c mod 16)}" by (rule subsetD)
        then have "10 = hex_digit_bytes ! (unat c div 16) \<or> 10 = hex_digit_bytes ! (unat c mod 16)" by simp
        then show False using h [of c] by metis
      qed
    qed
  qed
  then have s: "10 \<notin> set (print_string s)" for s by (auto simp: print_string_def)
  have b: "10 \<notin> set (bool_text b)" for b by (simp add: bool_text_def bytes_of_def)
  have "10 \<notin> set (print_segment seg)" for seg using s b by (simp add: print_segment_def)
  then have "10 \<notin> set (print_segments segs)" by (induction segs rule: print_segments.induct) auto
  then show ?thesis using s by (simp add: print_row_def)
qed

section \<open>Lines\<close>

text \<open>The lines of a file; a last line need not end with a newline.\<close>

fun lines_of :: "bytes \<Rightarrow> bytes list" where
  "lines_of [] = []"
| "lines_of (c # cs) =
     (if c = 10 then [] # lines_of cs
      else case lines_of cs of [] \<Rightarrow> [[c]] | l # ls \<Rightarrow> (c # l) # ls)"

lemma lines_of_next:
  "input \<noteq> [] \<Longrightarrow> lines_of input =
     takeWhile (\<lambda>c. c \<noteq> 10) input # lines_of (drop (Suc (length (takeWhile (\<lambda>c. c \<noteq> 10) input))) input)"
proof (induction input)
  case (Cons c cs)
  then show ?case by (cases "cs = []") auto
qed simp

text \<open>A line that is neither empty nor a row.\<close>

definition bad_line :: "nat \<times> bytes \<Rightarrow> bool" where
  "bad_line nl \<longleftrightarrow> snd nl \<noteq> [] \<and> isl (parse_row (snd nl))"

lemma count_rows_lines:
  "count_rows input n r =
     (case find bad_line (enumerate (Suc n) (lines_of input)) of
        Some (k, line) \<Rightarrow> Inl (k, projl (parse_row line))
      | None \<Rightarrow> Inr (r + length (filter (\<lambda>line. line \<noteq> []) (lines_of input))))"
proof (induction "length input" arbitrary: input n r rule: less_induct)
  case less
  show ?case
  proof (cases "input = []")
    case True
    then show ?thesis by (subst count_rows.simps, subst next_row.simps) simp
  next
    case False
    define line rest where "line = takeWhile (\<lambda>c. c \<noteq> 10) input" and "rest = drop (Suc (length line)) input"
    have l: "lines_of input = line # lines_of rest" unfolding line_def rest_def by (rule lines_of_next [OF False])
    have "length rest < length input" using False by (simp add: rest_def)
    note ih = less(1) [OF this]
    have nr: "next_row input n = (if line = [] then next_row rest (Suc n)
        else case parse_row line of Inl e \<Rightarrow> Inl (Suc n, e) | Inr segments \<Rightarrow> Inr (Some segments, rest, Suc n))"
      using False by (subst next_row.simps) (simp add: line_def rest_def Let_def split: sum.split)
    show ?thesis
    proof (cases "line = []")
      case True
      have "count_rows input n r = count_rows rest (Suc n) r"
        using nr True by (subst (1 2) count_rows.simps) simp
      then show ?thesis using ih [of "Suc n" r] True by (simp add: l bad_line_def split: option.split)
    next
      case ne: False
      show ?thesis
      proof (cases "parse_row line")
        case (Inl e)
        then show ?thesis using nr ne by (subst count_rows.simps) (simp add: l bad_line_def)
      next
        case (Inr segs)
        have "count_rows input n r = count_rows rest (Suc n) (Suc r)"
          using nr ne Inr by (subst count_rows.simps) simp
        then show ?thesis using ih [of "Suc n" "Suc r"] ne Inr by (simp add: l bad_line_def split: option.split)
      qed
    qed
  qed
qed

text \<open>
  Counting reads every line: the count of a data set is the number of its non-empty lines if all
  of them are rows; otherwise it fails with the number of the first line that is not a row and the
  error of that line.
\<close>

theorem count_jsonl_rows_lines:
  "count_jsonl_rows input =
     (case find bad_line (enumerate 1 (lines_of input)) of
        Some (k, line) \<Rightarrow> Inl (k, projl (parse_row line))
      | None \<Rightarrow> Inr (length (filter (\<lambda>line. line \<noteq> []) (lines_of input))))"
  using count_rows_lines [of input 0 0] by (simp add: count_jsonl_rows_def split: option.splits)

lemma lines_of_printed:
  "lines_of (concat (map (\<lambda>segs. print_row segs @ [10]) rows)) = map print_row rows"
proof (induction rows)
  case (Cons segs rows)
  let ?rest = "concat (map (\<lambda>segs. print_row segs @ [10]) rows)"
  have "takeWhile (\<lambda>c. c \<noteq> 10) (print_row segs @ 10 # ?rest) = print_row segs"
    using print_no_newline [of segs] by (subst takeWhile_append2) auto
  then show ?case using lines_of_next [of "print_row segs @ 10 # ?rest"] Cons by simp
qed simp

lemma next_printed:
  assumes "segs \<noteq> []"
  shows "next_row (replicate k 10 @ print_row segs @ 10 # rest) n = Inr (Some segs, rest, Suc (n + k))"
proof (induction k arbitrary: n)
  case 0
  have "takeWhile (\<lambda>c. c \<noteq> 10) (print_row segs @ 10 # rest) = print_row segs"
    using print_no_newline [of segs] by (subst takeWhile_append2) auto
  moreover have "print_row segs \<noteq> []" by (simp add: print_row_def)
  moreover have "parse_row (print_row segs) = Inr segs" by (rule row_complete [OF print_row_text [OF assms]])
  ultimately show ?case by (subst next_row.simps) (simp add: Let_def)
next
  case (Suc k)
  then show ?case by (subst next_row.simps) (simp add: Let_def)
qed

text \<open>
  Rows survive a file: whatever bytes the texts of the segments have, a row that is printed with
  its control bytes, quotes and backslashes escaped is read back as it was, after any number of
  empty lines and with the line number of the row, and a file of such rows has their count.
\<close>

theorem printed_rows_read_back:
  assumes "list_all (\<lambda>segs. segs \<noteq> []) (segs # rows)"
  shows "next_row (replicate k 10 @ concat (map (\<lambda>segs. print_row segs @ [10]) (segs # rows))) n =
      Inr (Some segs, concat (map (\<lambda>segs. print_row segs @ [10]) rows), Suc (n + k)) \<and>
    count_jsonl_rows (concat (map (\<lambda>segs. print_row segs @ [10]) (segs # rows))) = Inr (Suc (length rows))"
proof -
  let ?all = "segs # rows"
  have ok: "parse_row (print_row s) = Inr s" "print_row s \<noteq> []" if "s \<in> set ?all" for s
    using row_complete [OF print_row_text [of s]] assms that by (auto simp: list_all_iff print_row_def)
  have "\<not> bad_line (m, l)" if l: "l \<in> set (map print_row ?all)" for m l
  proof -
    obtain s where "l = print_row s" "s \<in> set ?all" using l by (metis imageE list.set_map)
    then show ?thesis using ok by (simp add: bad_line_def)
  qed
  then have "find bad_line (enumerate 1 (map print_row ?all)) = None"
    unfolding find_None_iff
    by (metis (no_types, lifting) enumerate_eq_zip set_zip_rightD surj_pair)
  moreover have "filter (\<lambda>line. line \<noteq> []) (map print_row ?all) = map print_row ?all"
    using ok(2) by (simp add: filter_id_conv)
  ultimately have "count_jsonl_rows (concat (map (\<lambda>segs. print_row segs @ [10]) ?all)) = Inr (Suc (length rows))"
    using count_rows_lines [of "concat (map (\<lambda>segs. print_row segs @ [10]) ?all)" 0 0]
    unfolding lines_of_printed by (simp add: count_jsonl_rows_def)
  then show ?thesis using next_printed [of segs k _ n] assms by simp
qed

section \<open>Witnesses\<close>

theorem printed_rows_read_back_witness:
  "count_jsonl_rows (print_row [\<lparr>sg_text = [104, 105], sg_train = False\<rparr>, \<lparr>sg_text = [10, 34, 92], sg_train = True\<rparr>] @ [10]) = Inr 1"
  using printed_rows_read_back [of "[\<lparr>sg_text = [104, 105], sg_train = False\<rparr>, \<lparr>sg_text = [10, 34, 92], sg_train = True\<rparr>]" "[]" 0 0]
  by simp

end
