(* ===== verification/Spec2Isabelle.thy ===== *)
theory Spec2Isabelle
  imports Utf8 StopMatcher PrefixPool Admission ModelRouter StateCache Engine ChatPrompt RequestRegistry AdapterCache StateListing RlRuns RlWorker Tokenizer StoreRuns JsonReader
begin

text \<open>
  A model of the C++ part of rwkv_lightning_cuda, an inference server for RWKV-7 models.
\<close>

end
